(* ===== verification/Prelude.thy ===== *)
theory Prelude
  imports Main "HOL-Library.Word"
begin

unbundle bit_operations_syntax

text \<open>
  Shared vocabulary of the development: the machine integer types, the error type of
  \<open>src/src/result.rs\<close>, the result type every fallible operation returns, Rust's
  three-valued \<open>Ordering\<close>, and the generic lemmas on lists and words the components
  share.

  A Rust function that returns \<open>Result<T>\<close> is a HOL function into \<open>T res\<close>. Its
  failures are \<open>Inl (Err e)\<close> for an error value the code returns, \<open>Inl (Panic m)\<close> for
  a panic (\<open>assert!\<close>, \<open>unwrap\<close>, an index out of range, \<open>unreachable!\<close>),
  \<open>Inl Undefined\<close> for a dereference the language leaves undefined and \<open>Inl Diverges\<close> for a
  loop that does not return.
  A \<open>usize\<close> that is a length or an offset is a \<open>nat\<close>; integers whose width matters are
  words.
\<close>

section \<open>Collections of facts\<close>

named_theorems res_simps "equations of the result type"
named_theorems list_arith "lengths, takes and drops"

section \<open>Machine integers and errors\<close>

type_synonym u8 = "8 word"
type_synonym u16 = "16 word"
type_synonym u32 = "32 word"
type_synonym u64 = "64 word"
type_synonym bytes = "u8 list"

text \<open>The error enum of \<open>result.rs\<close>; an \<open>io::Error\<close> carries no payload the code reads.\<close>

datatype db_error =
    Io
  | FileAccess string
  | WrongObjectType string
  | DataCorrupted string
  | ProgramLimitExceed string
  | InvalidState string
  | InvalidArgument string
  | OutOfMemory
  | TransactionAborted string

datatype fault =
    Err db_error
  | Panic string
  | Undefined
  | Diverges

type_synonym 'a res = "fault + 'a"

definition res_bind :: "'a res \<Rightarrow> ('a \<Rightarrow> 'b res) \<Rightarrow> 'b res" where
  "res_bind x f = (case x of Inl e \<Rightarrow> Inl e | Inr a \<Rightarrow> f a)"

lemma res_bind_Inl [simp, res_simps]: "res_bind (Inl e) f = Inl e"
  by (simp add: res_bind_def)

lemma res_bind_Inr [simp, res_simps]: "res_bind (Inr a) f = f a"
  by (simp add: res_bind_def)

lemma res_bind_eq_Inr:
  "res_bind x f = Inr b \<longleftrightarrow> (\<exists>a. x = Inr a \<and> f a = Inr b)"
  by (cases x) auto

lemma res_bind_cong [fundef_cong]:
  "x = y \<Longrightarrow> (\<And>a. y = Inr a \<Longrightarrow> f a = g a) \<Longrightarrow> res_bind x f = res_bind y g"
  by (cases y) auto

section \<open>Comparison results\<close>

text \<open>\<open>std::cmp::Ordering\<close>.\<close>

datatype ordering = Less | Equal | Greater

fun ord_reverse :: "ordering \<Rightarrow> ordering" where
  "ord_reverse Less = Greater"
| "ord_reverse Equal = Equal"
| "ord_reverse Greater = Less"

text \<open>\<open>Ord::cmp\<close> of a type whose \<open>Ord\<close> is derived or built in: the linear order.\<close>

definition lin_cmp :: "'a::linorder \<Rightarrow> 'a \<Rightarrow> ordering" where
  "lin_cmp a b = (if a < b then Less else if a = b then Equal else Greater)"

lemma lin_cmp_simps [simp]:
  "lin_cmp a b = Less \<longleftrightarrow> a < b"
  "lin_cmp a b = Equal \<longleftrightarrow> a = b"
  "lin_cmp a b = Greater \<longleftrightarrow> b < a"
  by (auto simp: lin_cmp_def)

section \<open>Lists\<close>

lemma take_drop_append [list_arith]:
  "take n (drop (length xs) (xs @ ys)) = take n ys"
  by simp

lemma drop_length_append [simp, list_arith]: "drop (length xs + n) (xs @ ys) = drop n ys"
  by simp

lemma take_length_append [simp, list_arith]:
  "take (length xs + n) (xs @ ys) = xs @ take n ys"
  by simp

text \<open>A slice \<open>xs[a..b]\<close>; Rust panics when the range is not inside the slice.\<close>

definition slice :: "'a list \<Rightarrow> nat \<Rightarrow> nat \<Rightarrow> 'a list" where
  "slice xs a b = take (b - a) (drop a xs)"

lemma length_slice [simp, list_arith]:
  "b \<le> length xs \<Longrightarrow> length (slice xs a b) = b - a"
  by (simp add: slice_def)

lemma slice_append_mid [simp, list_arith]:
  "slice (xs @ ys @ zs) (length xs) (length xs + length ys) = ys"
  by (simp add: slice_def)

end
