(* ===== verification/Timestamp.thy ===== *)
theory Timestamp
  imports Prelude
begin

unbundle bit_operations_syntax

text \<open>
  Timestamps of \<open>src/src/transaction.rs\<close>, in the \<open>hybrid_ts\<close> configuration: a 64-bit
  word whose two top bits are the kind of the timestamp and whose other bits are the
  counter value. \<open>Timestamp::cmp\<close> orders by kind first and then by the wrapped
  difference of the counters, with the invalid timestamp 0 below everything.
\<close>

section \<open>The type and its operations\<close>

datatype timestamp_type = Commit | Start | StartCommitted | Uncommitted

datatype timestamp = Timestamp (ts_bits: u64)

definition TIMESTAMP_TYPE_WIDTH :: nat where
  "TIMESTAMP_TYPE_WIDTH = 2"

definition TIMESTAMP_MASK :: u64 where
  "TIMESTAMP_MASK = push_bit (64 - TIMESTAMP_TYPE_WIDTH) 1 - 1"

definition INVALID_TIMESTAMP :: u64 where
  "INVALID_TIMESTAMP = 0"

fun tt_code :: "timestamp_type \<Rightarrow> u64" where
  "tt_code Commit = 0"
| "tt_code Start = 1"
| "tt_code StartCommitted = 2"
| "tt_code Uncommitted = 3"

definition tt_from :: "u8 \<Rightarrow> timestamp_type" where
  "tt_from v = (if v = 0 then Commit else if v = 1 then Start
     else if v = 2 then StartCommitted else Uncommitted)"

definition ts_default :: timestamp where
  "ts_default = Timestamp INVALID_TIMESTAMP"

definition ts_new :: "timestamp_type \<Rightarrow> u64 \<Rightarrow> timestamp" where
  "ts_new ty t = Timestamp ((t AND TIMESTAMP_MASK) OR
     push_bit (64 - TIMESTAMP_TYPE_WIDTH)
       (tt_code ty AND (push_bit TIMESTAMP_TYPE_WIDTH 1 - 1)))"

definition ts_type :: "timestamp \<Rightarrow> timestamp_type" where
  "ts_type t = tt_from (ucast (drop_bit (64 - TIMESTAMP_TYPE_WIDTH) (ts_bits t)
     AND (push_bit TIMESTAMP_TYPE_WIDTH 1 - 1)))"

definition ts_raw :: "timestamp \<Rightarrow> u64" where
  "ts_raw t = ts_bits t AND TIMESTAMP_MASK"

definition ts_is_invalid :: "timestamp \<Rightarrow> bool" where
  "ts_is_invalid t \<longleftrightarrow> ts_bits t = INVALID_TIMESTAMP"

definition ts_is_committed :: "timestamp \<Rightarrow> bool" where
  "ts_is_committed t \<longleftrightarrow> ts_type t \<noteq> Uncommitted"

definition ts_normalize :: "timestamp \<Rightarrow> timestamp" where
  "ts_normalize t = (if ts_is_invalid t then ts_default else ts_new Commit (ts_raw t))"

section \<open>Bit-level facts\<close>

lemma ts_mask_eq: "TIMESTAMP_MASK = mask 62"
  by (simp add: TIMESTAMP_MASK_def TIMESTAMP_TYPE_WIDTH_def mask_eq_decr_exp push_bit_eq_mult)

lemma ts_new_alt: "ts_new ty t = Timestamp (take_bit 62 t OR push_bit 62 (tt_code ty))"
  by (cases ty)
     (simp_all add: ts_new_def ts_mask_eq TIMESTAMP_TYPE_WIDTH_def take_bit_eq_mask)

lemma ts_raw_alt: "ts_raw t = take_bit 62 (ts_bits t)"
  by (simp add: ts_raw_def ts_mask_eq take_bit_eq_mask)

lemma ts_raw_new [simp]: "ts_raw (ts_new ty t) = take_bit 62 t"
  by (cases ty) (simp_all add: ts_raw_alt ts_new_alt take_bit_push_bit)

lemma ts_new_raw_arg [simp]: "ts_new ty (take_bit 62 t) = ts_new ty t"
  by (simp add: ts_new_alt)

lemma drop_take_62 [simp]: "drop_bit 62 (take_bit 62 (t :: u64)) = 0"
  by (simp add: drop_bit_take_bit)

lemma ts_type_new [simp]: "ts_type (ts_new ty t) = ty"
  by (cases ty)
     (simp_all add: ts_type_def ts_new_alt TIMESTAMP_TYPE_WIDTH_def drop_bit_take_bit tt_from_def)

lemma unat_take_62: "unat (take_bit 62 (t :: u64)) = unat t mod 2 ^ 62"
  by (simp only: unsigned_take_bit_eq) (simp add: take_bit_eq_mod)

lemma unat_drop_62: "unat (drop_bit 62 (t :: u64)) = unat t div 2 ^ 62"
  by (simp only: unat_drop_bit_eq) (simp add: drop_bit_eq_div)

text \<open>The word is the kind, shifted to the top two bits, plus the counter.\<close>

lemma tt_code_bound: "unat (tt_code ty) < 4"
  by (cases ty) simp_all

lemma tt_code_inj [simp]: "tt_code a = tt_code b \<longleftrightarrow> a = b"
  by (cases a; cases b) simp_all

lemma tt_code_from:
  assumes "v < 4"
  shows "tt_code (tt_from (ucast (v :: u64))) = v"
proof -
  have "unat v < 4" using assms by (simp add: word_less_nat_alt)
  then have "unat v = 0 \<or> unat v = 1 \<or> unat v = 2 \<or> unat v = 3" by arith
  then have "v = 0 \<or> v = 1 \<or> v = 2 \<or> v = 3"
    by (simp add: word_unat_eq_iff)
  then show ?thesis by (auto simp: tt_from_def)
qed

lemma ts_type_code: "tt_code (ts_type t) = drop_bit 62 (ts_bits t)"
proof -
  have "unat (drop_bit 62 (ts_bits t)) < 4"
    using unsigned_less [of "ts_bits t", where ?'a = nat]
    by (simp add: unat_drop_62 div_less_iff_less_mult)
  then have lt: "drop_bit 62 (ts_bits t) < 4" by (simp add: word_less_nat_alt)
  have "take_bit 2 (drop_bit 62 (ts_bits t)) = drop_bit 62 (ts_bits t)"
    by (rule bit_word_eqI) (auto simp: bit_simps dest: bit_imp_le_length)
  then have "drop_bit 62 (ts_bits t) AND 3 = drop_bit 62 (ts_bits t)"
    by (simp add: take_bit_eq_mask mask_eq_decr_exp)
  then show ?thesis
    using tt_code_from [OF lt] by (simp add: ts_type_def TIMESTAMP_TYPE_WIDTH_def)
qed

lemma ts_new_type_raw: "ts_new (ts_type t) (ts_raw t) = t"
  by (cases t) (auto simp: ts_new_alt ts_raw_alt ts_type_code intro!: bit_word_eqI
      simp: bit_simps)

lemma unat_ts_bits: "unat (ts_bits t) = unat (tt_code (ts_type t)) * 2 ^ 62 + unat (ts_raw t)"
  by (simp add: ts_type_code ts_raw_alt unat_drop_62 unat_take_62)

lemma ts_eq_iff: "a = b \<longleftrightarrow> ts_type a = ts_type b \<and> ts_raw a = ts_raw b"
  by (metis ts_new_type_raw)

lemma ts_raw_bound: "unat (ts_raw t) < 2 ^ 62"
  by (simp add: ts_raw_alt unat_take_62)

lemma ts_invalid_iff: "ts_is_invalid t \<longleftrightarrow> ts_type t = Commit \<and> ts_raw t = 0"
proof -
  have "ts_bits t = 0 \<longleftrightarrow> unat (ts_bits t) = 0" by (simp add: unat_0_iff)
  also have "\<dots> \<longleftrightarrow> tt_code (ts_type t) = 0 \<and> ts_raw t = 0"
    by (simp add: unat_ts_bits unat_0_iff)
  also have "\<dots> \<longleftrightarrow> ts_type t = Commit \<and> ts_raw t = 0"
    by (metis tt_code.simps(1) tt_code_inj)
  finally show ?thesis by (simp add: ts_is_invalid_def INVALID_TIMESTAMP_def)
qed

lemma ts_invalid_new: "ts_is_invalid (ts_new ty t) \<longleftrightarrow> ty = Commit \<and> take_bit 62 t = 0"
  by (simp add: ts_invalid_iff)

lemma ts_default_invalid [simp]: "ts_is_invalid ts_default"
  by (simp add: ts_is_invalid_def ts_default_def)

section \<open>Successor and predecessor\<close>

text \<open>
  The loops of \<open>inc\<close> and \<open>dec\<close> step the wrapped counter until the timestamp built from
  it is valid; they run at most twice.
\<close>

lemma not_both_invalid:
  "ts_is_invalid (ts_new ty x) \<Longrightarrow> \<not> ts_is_invalid (ts_new ty (x + 1))"
proof -
  assume "ts_is_invalid (ts_new ty x)"
  then have "unat x mod 2 ^ 62 = 0" by (simp add: ts_invalid_new unat_take_62 flip: unat_0_iff)
  then have "(unat x + 1) mod 2 ^ 62 = 1"
    by (simp add: mod_Suc)
  then have "unat (x + 1) mod 2 ^ 62 \<noteq> 0"
    by (simp add: unat_word_ariths mod_mod_cancel)
  then show ?thesis by (simp add: ts_invalid_new unat_take_62 flip: unat_0_iff)
qed

function ts_inc_loop :: "timestamp_type \<Rightarrow> u64 \<Rightarrow> u64" where
  "ts_inc_loop ty xid =
     (let xid' = xid + 1
      in if \<not> ts_is_invalid (ts_new ty xid') then xid' else ts_inc_loop ty xid')"
  by pat_completeness auto
termination
  by (relation "measure (\<lambda>(ty, xid). if ts_is_invalid (ts_new ty (xid + 1)) then 1 else 0)")
     (auto dest: not_both_invalid simp: add.assoc)

function ts_dec_loop :: "timestamp_type \<Rightarrow> u64 \<Rightarrow> u64" where
  "ts_dec_loop ty xid =
     (let xid' = xid - 1
      in if \<not> ts_is_invalid (ts_new ty xid') then xid' else ts_dec_loop ty xid')"
  by pat_completeness auto
termination
  by (relation "measure (\<lambda>(ty, xid). if ts_is_invalid (ts_new ty (xid - 1)) then 1 else 0)")
     (auto dest: not_both_invalid)

declare ts_inc_loop.simps [simp del] ts_dec_loop.simps [simp del]

definition ts_inc :: "timestamp \<Rightarrow> timestamp" where
  "ts_inc t = ts_new (ts_type t) (ts_inc_loop (ts_type t) (ts_raw t))"

definition ts_dec :: "timestamp \<Rightarrow> timestamp" where
  "ts_dec t = ts_new (ts_type t) (ts_dec_loop (ts_type t) (ts_raw t))"

section \<open>The comparison\<close>

definition ts_cmp :: "timestamp \<Rightarrow> timestamp \<Rightarrow> ordering" where
  "ts_cmp a b =
     (if ts_is_invalid a \<or> ts_is_invalid b
      then (if ts_is_invalid a \<and> ts_is_invalid b then Equal
            else if ts_is_invalid a then Less else Greater)
      else if ts_type a \<noteq> ts_type b then lin_cmp (tt_code (ts_type a)) (tt_code (ts_type b))
      else let delta = ts_raw a - ts_raw b
           in if delta = 0 then Equal
              else if delta AND push_bit (64 - TIMESTAMP_TYPE_WIDTH - 1) 1 \<noteq> 0 then Less
              else Greater)"

definition ts_lt :: "timestamp \<Rightarrow> timestamp \<Rightarrow> bool" where
  "ts_lt a b \<longleftrightarrow> ts_cmp a b = Less"

definition ts_gt :: "timestamp \<Rightarrow> timestamp \<Rightarrow> bool" where
  "ts_gt a b \<longleftrightarrow> ts_cmp a b = Greater"

definition ts_le :: "timestamp \<Rightarrow> timestamp \<Rightarrow> bool" where
  "ts_le a b \<longleftrightarrow> ts_cmp a b = Less \<or> ts_cmp a b = Equal"

text \<open>
  The comparison is a linear order as long as the counters stay below \<open>2 ^ 61\<close>: there it
  agrees with the unsigned order of the words.
\<close>

definition ts_limit :: u64 where
  "ts_limit = 2 ^ 61"

definition ts_near :: "timestamp \<Rightarrow> bool" where
  "ts_near t \<longleftrightarrow> ts_raw t < ts_limit"

lemma unat_ts_limit: "unat ts_limit = 2 ^ 61"
  by (simp add: ts_limit_def)

lemma ts_limit_pos [simp]: "0 < ts_limit"
  by (simp add: ts_limit_def)


lemma sub_bit61:
  fixes a b :: u64
  assumes a: "unat a < 2 ^ 61" and b: "unat b < 2 ^ 61"
  shows "(a - b) AND push_bit 61 1 \<noteq> 0 \<longleftrightarrow> unat a < unat b"
proof -
  have "(a - b) AND push_bit 61 1 \<noteq> 0 \<longleftrightarrow> bit (a - b) 61"
    by (simp add: bit_iff_and_push_bit_not_eq_0)
  also have "\<dots> \<longleftrightarrow> bit (unat (a - b)) 61"
    by (simp only: bit_unsigned_iff) simp
  also have "\<dots> \<longleftrightarrow> odd (unat (a - b) div 2 ^ 61)"
    by (simp only: bit_iff_odd)
  also have "\<dots> \<longleftrightarrow> unat a < unat b"
  proof (cases "unat a < unat b")
    case True
    then have eq: "unat (a - b) = 2 ^ 64 - (unat b - unat a)"
      using a b by (simp add: unat_sub_if_size word_size)
    have "unat (a - b) div 2 ^ 61 = 7"
      unfolding eq using True b by (intro div_nat_eqI) (auto simp: algebra_simps)
    with True show ?thesis by simp
  next
    case False
    then have "unat (a - b) = unat a - unat b"
      by (simp add: unat_sub_if_size)
    with a False show ?thesis by simp
  qed
  finally show ?thesis .
qed

lemma ts_near_unat: "ts_near t \<longleftrightarrow> unat (ts_raw t) < 2 ^ 61"
  by (simp add: ts_near_def word_less_nat_alt unat_ts_limit)

lemma ts_bits_less_iff:
  "ts_bits a < ts_bits b \<longleftrightarrow>
     tt_code (ts_type a) < tt_code (ts_type b) \<or>
     ts_type a = ts_type b \<and> ts_raw a < ts_raw b"
proof -
  have "unat (tt_code (ts_type a)) * 2 ^ 62 + unat (ts_raw a)
      < unat (tt_code (ts_type b)) * 2 ^ 62 + unat (ts_raw b) \<longleftrightarrow>
     unat (tt_code (ts_type a)) < unat (tt_code (ts_type b)) \<or>
     unat (tt_code (ts_type a)) = unat (tt_code (ts_type b)) \<and>
     unat (ts_raw a) < unat (ts_raw b)"
    using ts_raw_bound [of a] ts_raw_bound [of b] by auto
  then show ?thesis
    by (simp add: word_less_nat_alt unat_ts_bits flip: word_unat_eq_iff)
qed

lemma ts_cmp_near:
  assumes "ts_near a" and "ts_near b"
  shows "ts_cmp a b = lin_cmp (ts_bits a) (ts_bits b)"
proof -
  consider (invalid) "ts_is_invalid a \<or> ts_is_invalid b"
    | (kinds) "\<not> ts_is_invalid a" "\<not> ts_is_invalid b" "ts_type a \<noteq> ts_type b"
    | (counters) "\<not> ts_is_invalid a" "\<not> ts_is_invalid b" "ts_type a = ts_type b"
    by blast
  then show ?thesis
  proof cases
  case invalid
  then show ?thesis
    by (auto simp: ts_cmp_def lin_cmp_def ts_is_invalid_def INVALID_TIMESTAMP_def word_gt_0)
  next
  case kinds
  then have "ts_bits a \<noteq> ts_bits b" by (metis timestamp.expand)
  with kinds show ?thesis
    by (simp add: ts_cmp_def lin_cmp_def ts_bits_less_iff)
  next
  case counters
  then have "ts_cmp a b =
      (if ts_raw a = ts_raw b then Equal else if ts_raw a < ts_raw b then Less else Greater)"
    using assms sub_bit61 [of "ts_raw a" "ts_raw b"]
    by (simp add: ts_cmp_def Let_def TIMESTAMP_TYPE_WIDTH_def ts_near_unat word_less_nat_alt)
  moreover have "ts_bits a = ts_bits b \<longleftrightarrow> ts_raw a = ts_raw b"
    using counters by (metis ts_eq_iff timestamp.expand)
  ultimately show ?thesis
    using counters by (auto simp: lin_cmp_def ts_bits_less_iff)
  qed
qed


section \<open>Small commit timestamps\<close>

text \<open>
  A commit timestamp whose counter is below \<open>2 ^ 61\<close> is the counter itself: kind, counter,
  order, successor and predecessor are those of the number.
\<close>

definition ts_small :: "timestamp \<Rightarrow> bool" where
  "ts_small t \<longleftrightarrow> ts_bits t < ts_limit"

lemma ts_small_unat: "ts_small t \<longleftrightarrow> unat (ts_bits t) < 2 ^ 61"
  by (simp add: ts_small_def word_less_nat_alt unat_ts_limit)

lemma take_bit_small: "c < ts_limit \<Longrightarrow> take_bit 62 c = c"
  by (simp add: word_unat_eq_iff word_less_nat_alt unat_take_62 unat_ts_limit)

lemma ts_small_raw:
  assumes "ts_small t"
  shows "ts_raw t = ts_bits t" and "ts_type t = Commit"
proof -
  show raw: "ts_raw t = ts_bits t"
    using assms by (simp add: ts_raw_alt take_bit_small ts_small_def)
  have "unat (tt_code (ts_type t)) * 2 ^ 62 = 0"
    using unat_ts_bits [of t] raw by simp
  then have "tt_code (ts_type t) = 0" by (simp add: unat_0_iff)
  then show "ts_type t = Commit" by (metis tt_code.simps(1) tt_code_inj)
qed

lemma ts_small_near: "ts_small t \<Longrightarrow> ts_near t"
  by (simp add: ts_near_def ts_small_raw ts_small_def)

lemma ts_new_commit_small: "c < ts_limit \<Longrightarrow> ts_new Commit c = Timestamp c"
  by (simp add: ts_new_alt take_bit_small)

lemma ts_bits_new_commit [simp]: "c < ts_limit \<Longrightarrow> ts_bits (ts_new Commit c) = c"
  by (simp add: ts_new_commit_small)

lemma ts_small_default [simp]: "ts_small ts_default" "ts_bits ts_default = 0"
  by (simp_all add: ts_small_def ts_default_def INVALID_TIMESTAMP_def)

lemma ts_cmp_small:
  "\<lbrakk>ts_small a; ts_small b\<rbrakk> \<Longrightarrow> ts_cmp a b = lin_cmp (ts_bits a) (ts_bits b)"
  by (simp add: ts_cmp_near ts_small_near)

lemma ts_lt_small: "\<lbrakk>ts_small a; ts_small b\<rbrakk> \<Longrightarrow> ts_lt a b \<longleftrightarrow> ts_bits a < ts_bits b"
  by (simp add: ts_lt_def ts_cmp_small)

lemma ts_gt_small: "\<lbrakk>ts_small a; ts_small b\<rbrakk> \<Longrightarrow> ts_gt a b \<longleftrightarrow> ts_bits b < ts_bits a"
  by (simp add: ts_gt_def ts_cmp_small)

lemma ts_le_small: "\<lbrakk>ts_small a; ts_small b\<rbrakk> \<Longrightarrow> ts_le a b \<longleftrightarrow> ts_bits a \<le> ts_bits b"
  by (auto simp: ts_le_def ts_cmp_small)

lemma ts_invalid_bits: "ts_is_invalid t \<longleftrightarrow> ts_bits t = 0"
  by (simp add: ts_is_invalid_def INVALID_TIMESTAMP_def)

lemma ts_small_new_commit [simp]: "c < ts_limit \<Longrightarrow> ts_small (ts_new Commit c)"
  by (simp add: ts_small_def)

lemma word_Suc_small: "c < ts_limit \<Longrightarrow> unat (c + 1) = Suc (unat c)"
  by (simp add: word_less_nat_alt unat_word_ariths unat_ts_limit)

lemma ts_inc_small:
  assumes "ts_small t"
  shows "ts_bits (ts_inc t) = ts_bits t + 1"
proof -
  have lt: "unat (ts_bits t) < 2 ^ 61" using assms by (simp add: ts_small_unat)
  have suc: "unat (ts_bits t + 1) = Suc (unat (ts_bits t))"
    using assms by (simp add: word_Suc_small ts_small_def)
  have tb: "take_bit 62 (ts_bits t + 1) = ts_bits t + 1"
    using lt suc by (simp add: word_unat_eq_iff unat_take_62)
  have nz: "ts_bits t + 1 \<noteq> 0"
    using suc by (metis nat.distinct(1) unat_0)
  have "ts_inc_loop Commit (ts_bits t) = ts_bits t + 1"
    using nz tb by (simp add: ts_inc_loop.simps [of Commit "ts_bits t"] ts_invalid_new)
  then show ?thesis
    using assms tb by (simp add: ts_inc_def ts_small_raw ts_new_alt)
qed

lemma ts_inc_unat:
  assumes "ts_small t"
  shows "unat (ts_bits (ts_inc t)) = Suc (unat (ts_bits t))"
  using assms by (simp add: ts_inc_small word_Suc_small ts_small_def)

text \<open>
  \<open>normalize\<close> maps a fast-commit version timestamp to the commit timestamp with the same
  counter, which is how the running transactions are registered.
\<close>

lemma ts_normalize_new: "ts_normalize (ts_new ty c) = ts_new Commit c"
proof (cases "ts_is_invalid (ts_new ty c)")
  case True
  then have "take_bit 62 c = 0" by (simp add: ts_invalid_new)
  with True show ?thesis
    by (simp add: ts_normalize_def ts_new_alt ts_default_def INVALID_TIMESTAMP_def)
qed (simp add: ts_normalize_def)

section \<open>Properties of the timestamp type\<close>

text \<open>
  A timestamp is its kind and its counter. Building one from a kind and a counter gives them
  back, the counter modulo \<open>2 ^ 62\<close>; taking one apart and building it again is the identity; and
  the only invalid timestamp is the committed one with counter 0.
\<close>

theorem timestamp_roundtrip:
  "ts_type (ts_new ty c) = ty \<and> ts_raw (ts_new ty c) = take_bit 62 c \<and>
   ts_new (ts_type t) (ts_raw t) = t \<and>
   (ts_is_invalid t \<longleftrightarrow> ts_type t = Commit \<and> ts_raw t = 0)"
  by (simp add: ts_new_type_raw ts_invalid_iff)

lemma raw_inc:
  "ts_is_invalid (ts_new ty (x + 1)) \<Longrightarrow> ts_inc_loop ty x = x + 2"
  "\<not> ts_is_invalid (ts_new ty (x + 1)) \<Longrightarrow> ts_inc_loop ty x = x + 1"
  using not_both_invalid [of ty "x + 1"]
  by (simp_all add: ts_inc_loop.simps [of ty x] ts_inc_loop.simps [of ty "x + 1"] add.assoc)

lemma raw_dec:
  "ts_is_invalid (ts_new ty (x - 1)) \<Longrightarrow> ts_dec_loop ty x = x - 2"
  "\<not> ts_is_invalid (ts_new ty (x - 1)) \<Longrightarrow> ts_dec_loop ty x = x - 1"
proof -
  have "x - 1 - 1 = x - 2" "x - 2 + 1 = x - 1" by simp_all
  then show "ts_is_invalid (ts_new ty (x - 1)) \<Longrightarrow> ts_dec_loop ty x = x - 2"
    using not_both_invalid [of ty "x - 2"]
    by (simp only: ts_dec_loop.simps [of ty x] ts_dec_loop.simps [of ty "x - 1"] Let_def) auto
  show "\<not> ts_is_invalid (ts_new ty (x - 1)) \<Longrightarrow> ts_dec_loop ty x = x - 1"
    by (simp add: ts_dec_loop.simps [of ty x])
qed

lemma uint_take_62: "uint (take_bit 62 (x :: u64)) = uint x mod 2 ^ 62"
  by (simp only: unsigned_take_bit_eq) (simp add: take_bit_eq_mod)

lemma take_bit_shift:
  "take_bit 62 (take_bit 62 (a :: u64) + b) = take_bit 62 (a + b)"
  "take_bit 62 (take_bit 62 (a :: u64) - b) = take_bit 62 (a - b)"
  by (simp_all add: word_uint_eq_iff uint_take_62 uint_word_ariths mod_mod_cancel mod_simps)

lemma new_shift:
  "ts_new ty (take_bit 62 a + b) = ts_new ty (a + b)"
  "ts_new ty (take_bit 62 a - b) = ts_new ty (a - b)"
  by (simp_all add: ts_new_alt take_bit_shift)

lemma inc_new: "ts_inc (ts_new ty x) =
  (if ts_is_invalid (ts_new ty (x + 1)) then ts_new ty (x + 2) else ts_new ty (x + 1))"
  using raw_inc [of ty "take_bit 62 x"] by (simp add: ts_inc_def new_shift)

lemma dec_new: "ts_dec (ts_new ty x) =
  (if ts_is_invalid (ts_new ty (x - 1)) then ts_new ty (x - 2) else ts_new ty (x - 1))"
  using raw_dec [of ty "take_bit 62 x"] by (simp add: ts_dec_def new_shift)

text \<open>
  \<open>inc\<close> and \<open>dec\<close> never give the invalid timestamp, keep the kind and undo each other on
  valid timestamps, across the wrap-around of the counter too.
\<close>

theorem inc_dec_inverse:
  assumes "\<not> ts_is_invalid t"
  shows "ts_dec (ts_inc t) = t \<and> ts_inc (ts_dec t) = t \<and> ts_type (ts_inc t) = ts_type t \<and>
    ts_type (ts_dec t) = ts_type t \<and> \<not> ts_is_invalid (ts_inc t) \<and> \<not> ts_is_invalid (ts_dec t)"
proof -
  obtain ty x where t: "t = ts_new ty x" by (metis ts_new_type_raw)
  have s: "x + 2 - 1 = x + 1" "x + 2 - 2 = x" "x - 2 + 1 = x - 1" "x - 2 + 2 = x" "x + 1 + 1 = x + 2"
    by simp_all
  show ?thesis
    using assms not_both_invalid [of ty "x + 1"] not_both_invalid [of ty "x - 2"]
    unfolding t inc_new dec_new by (auto simp: inc_new dec_new s)
qed

theorem inc_dec_inverse_witness:
  "ts_dec (ts_inc (Timestamp 1)) = Timestamp 1 \<and> ts_inc (ts_dec (Timestamp 1)) = Timestamp 1"
  using inc_dec_inverse [of "Timestamp 1"] by (simp add: ts_invalid_bits)

text \<open>
  C27: the comparison is the order of the counters only while counters are less than \<open>2 ^ 61\<close>
  apart: for issued timestamps below the limit it is the unsigned order of the words, but two
  committed timestamps exactly \<open>2 ^ 61\<close> apart are each less than the other, so that \<open>Ord\<close>, on
  which \<open>BTreeSet\<close> and \<open>BTreeMap\<close> rely, is not an order on all timestamps.
\<close>

theorem timestamp_order:
  assumes "ts_near a" and "ts_near b"
  shows "ts_cmp a b = lin_cmp (ts_bits a) (ts_bits b) \<and>
    (\<exists>x y. ts_cmp x y = Less \<and> ts_cmp y x = Less)"
proof
  show "ts_cmp a b = lin_cmp (ts_bits a) (ts_bits b)" using ts_cmp_near [OF assms] .
  have "ts_cmp (Timestamp 1) (Timestamp (2305843009213693953)) = Less"
    "ts_cmp (Timestamp (2305843009213693953)) (Timestamp 1) = Less" by code_simp+
  then show "\<exists>x y. ts_cmp x y = Less \<and> ts_cmp y x = Less" by blast
qed

theorem timestamp_order_witness:
  "ts_cmp (Timestamp 5) (Timestamp 7) = lin_cmp (5 :: u64) 7"
proof -
  have "ts_near (Timestamp 5)" "ts_near (Timestamp 7)" by code_simp+
  from timestamp_order [OF this] show ?thesis by simp
qed

end
