(* ===== verification/Ordered_Set.thy ===== *)
theory Ordered_Set
  imports Timestamp
begin

text \<open>
  \<open>BTreeSet\<close> and \<open>BTreeMap\<close> of the standard library, as far as the code uses them: a list
  in ascending order of the element type's \<open>Ord::cmp\<close>. The collections are only as good as
  the comparison they are given, so the contract \<open>Ord\<close> states is a locale over a comparison
  and the carrier on which it is lawful. It is interpreted for timestamps whose counter is
  below \<open>2 ^ 61\<close> (\<open>ts_near\<close>) and for every derived \<open>Ord\<close> (\<open>lin_cmp\<close>).
\<close>

section \<open>Operations\<close>

fun oset_insert :: "('a \<Rightarrow> 'a \<Rightarrow> ordering) \<Rightarrow> 'a \<Rightarrow> 'a list \<Rightarrow> 'a list" where
  "oset_insert cmp x [] = [x]"
| "oset_insert cmp x (y # ys) =
     (case cmp x y of
        Less \<Rightarrow> x # y # ys
      | Equal \<Rightarrow> y # ys
      | Greater \<Rightarrow> y # oset_insert cmp x ys)"

fun oset_contains :: "('a \<Rightarrow> 'a \<Rightarrow> ordering) \<Rightarrow> 'a \<Rightarrow> 'a list \<Rightarrow> bool" where
  "oset_contains cmp x [] = False"
| "oset_contains cmp x (y # ys) =
     (case cmp x y of
        Less \<Rightarrow> False
      | Equal \<Rightarrow> True
      | Greater \<Rightarrow> oset_contains cmp x ys)"

fun oset_remove :: "('a \<Rightarrow> 'a \<Rightarrow> ordering) \<Rightarrow> 'a \<Rightarrow> 'a list \<Rightarrow> 'a list" where
  "oset_remove cmp x [] = []"
| "oset_remove cmp x (y # ys) =
     (case cmp x y of
        Less \<Rightarrow> y # ys
      | Equal \<Rightarrow> ys
      | Greater \<Rightarrow> y # oset_remove cmp x ys)"

fun oset_first :: "'a list \<Rightarrow> 'a option" where
  "oset_first [] = None"
| "oset_first (x # xs) = Some x"

fun omap_insert ::
  "('k \<Rightarrow> 'k \<Rightarrow> ordering) \<Rightarrow> 'k \<Rightarrow> 'v \<Rightarrow> ('k \<times> 'v) list \<Rightarrow> ('k \<times> 'v) list" where
  "omap_insert cmp k v [] = [(k, v)]"
| "omap_insert cmp k v ((k', v') # m) =
     (case cmp k k' of
        Less \<Rightarrow> (k, v) # (k', v') # m
      | Equal \<Rightarrow> (k', v) # m
      | Greater \<Rightarrow> (k', v') # omap_insert cmp k v m)"

fun omap_get :: "('k \<Rightarrow> 'k \<Rightarrow> ordering) \<Rightarrow> 'k \<Rightarrow> ('k \<times> 'v) list \<Rightarrow> 'v option" where
  "omap_get cmp k [] = None"
| "omap_get cmp k ((k', v') # m) =
     (case cmp k k' of
        Less \<Rightarrow> None
      | Equal \<Rightarrow> Some v'
      | Greater \<Rightarrow> omap_get cmp k m)"

fun omap_remove ::
  "('k \<Rightarrow> 'k \<Rightarrow> ordering) \<Rightarrow> 'k \<Rightarrow> ('k \<times> 'v) list \<Rightarrow> ('k \<times> 'v) list" where
  "omap_remove cmp k [] = []"
| "omap_remove cmp k ((k', v') # m) =
     (case cmp k k' of
        Less \<Rightarrow> (k', v') # m
      | Equal \<Rightarrow> m
      | Greater \<Rightarrow> (k', v') # omap_remove cmp k m)"

section \<open>The contract of \<open>Ord\<close>\<close>

locale cmp_order =
  fixes cmp :: "'a \<Rightarrow> 'a \<Rightarrow> ordering" and carrier :: "'a \<Rightarrow> bool"
  assumes cmp_eq_iff: "\<lbrakk>carrier a; carrier b\<rbrakk> \<Longrightarrow> cmp a b = Equal \<longleftrightarrow> a = b"
    and cmp_swap: "\<lbrakk>carrier a; carrier b\<rbrakk> \<Longrightarrow> cmp b a = ord_reverse (cmp a b)"
    and cmp_less_trans:
      "\<lbrakk>carrier a; carrier b; carrier c; cmp a b = Less; cmp b c = Less\<rbrakk> \<Longrightarrow> cmp a c = Less"
begin

lemma cmp_refl [simp]: "carrier a \<Longrightarrow> cmp a a = Equal"
  by (simp add: cmp_eq_iff)

lemma cmp_greater: "\<lbrakk>carrier a; carrier b; cmp a b = Greater\<rbrakk> \<Longrightarrow> cmp b a = Less"
  by (simp add: cmp_swap [of a b])

lemma cmp_less: "\<lbrakk>carrier a; carrier b; cmp a b = Less\<rbrakk> \<Longrightarrow> cmp b a = Greater"
  by (simp add: cmp_swap [of a b])

lemma less_all:
  "\<lbrakk>carrier x; carrier y; \<forall>z\<in>set ys. carrier z; cmp x y = Less;
    \<forall>z\<in>set ys. cmp y z = Less\<rbrakk> \<Longrightarrow> \<forall>z\<in>set ys. cmp x z = Less"
  by (meson cmp_less_trans)

definition ordered :: "'a list \<Rightarrow> bool" where
  "ordered xs \<longleftrightarrow> sorted_wrt (\<lambda>a b. cmp a b = Less) xs \<and> (\<forall>x\<in>set xs. carrier x)"

lemma ordered_Nil [simp]: "ordered []"
  by (simp add: ordered_def)

lemma ordered_Cons:
  "ordered (x # xs) \<longleftrightarrow> ordered xs \<and> carrier x \<and> (\<forall>y\<in>set xs. cmp x y = Less)"
  by (auto simp: ordered_def)

lemma set_oset_insert:
  "\<lbrakk>carrier x; ordered xs\<rbrakk> \<Longrightarrow> set (oset_insert cmp x xs) = insert x (set xs)"
  by (induction xs) (auto simp: ordered_Cons cmp_eq_iff split: ordering.splits)

lemma ordered_oset_insert:
  "\<lbrakk>carrier x; ordered xs\<rbrakk> \<Longrightarrow> ordered (oset_insert cmp x xs)"
proof (induction xs)
  case Nil
  then show ?case by (simp add: ordered_Cons)
next
  case (Cons y ys)
  then have ys: "ordered ys" "carrier y" "\<forall>z\<in>set ys. cmp y z = Less" "\<forall>z\<in>set ys. carrier z"
    by (auto simp: ordered_Cons ordered_def)
  show ?case
  proof (cases "cmp x y")
    case Less
    with ys Cons.prems less_all [of x y ys] show ?thesis by (simp add: ordered_Cons)
  next
    case Equal
    with Cons.prems show ?thesis by simp
  next
    case Greater
    with ys Cons show ?thesis
      by (auto simp: ordered_Cons set_oset_insert dest: cmp_greater)
  qed
qed

lemma less_imp_not_in:
  "\<lbrakk>carrier x; ordered ys; \<forall>z\<in>set ys. cmp x z = Less\<rbrakk> \<Longrightarrow> x \<notin> set ys"
  by (metis cmp_refl ordering.distinct(1))

lemma oset_contains_iff:
  "\<lbrakk>carrier x; ordered xs\<rbrakk> \<Longrightarrow> oset_contains cmp x xs \<longleftrightarrow> x \<in> set xs"
proof (induction xs)
  case (Cons y ys)
  then have ys: "ordered ys" "carrier y" "\<forall>z\<in>set ys. cmp y z = Less" "\<forall>z\<in>set ys. carrier z"
    by (auto simp: ordered_Cons ordered_def)
  have "cmp x y = Less \<Longrightarrow> x \<notin> set (y # ys)"
    using less_all [of x y ys] ys Cons.prems less_imp_not_in [of x "y # ys"] by auto
  with ys Cons show ?case
    by (auto simp: cmp_eq_iff split: ordering.splits)
qed simp

lemma set_oset_remove:
  "\<lbrakk>carrier x; ordered xs\<rbrakk> \<Longrightarrow> set (oset_remove cmp x xs) = set xs - {x}"
proof (induction xs)
  case (Cons y ys)
  then have ys: "ordered ys" "carrier y" "\<forall>z\<in>set ys. cmp y z = Less" "\<forall>z\<in>set ys. carrier z"
    by (auto simp: ordered_Cons ordered_def)
  have "cmp x y = Less \<Longrightarrow> x \<notin> set (y # ys)"
    using less_all [of x y ys] ys Cons.prems less_imp_not_in [of x "y # ys"] by auto
  moreover have "y \<notin> set ys"
    using ys less_imp_not_in by blast
  ultimately show ?case
    using ys Cons by (auto simp: cmp_eq_iff split: ordering.splits)
qed simp

lemma ordered_oset_remove:
  "\<lbrakk>carrier x; ordered xs\<rbrakk> \<Longrightarrow> ordered (oset_remove cmp x xs)"
proof (induction xs)
  case (Cons y ys)
  then show ?case
    by (auto simp: ordered_Cons set_oset_remove split: ordering.splits)
qed simp

lemma ordered_distinct: "ordered xs \<Longrightarrow> distinct xs"
  by (induction xs) (auto simp: ordered_Cons dest: less_imp_not_in)

lemma oset_first_least:
  "\<lbrakk>ordered xs; oset_first xs = Some m\<rbrakk> \<Longrightarrow>
     m \<in> set xs \<and> (\<forall>x\<in>set xs. x = m \<or> cmp m x = Less)"
  by (cases xs) (auto simp: ordered_Cons)

lemma omap_insert_keys:
  "\<lbrakk>carrier k; ordered (map fst m)\<rbrakk> \<Longrightarrow>
     map fst (omap_insert cmp k v m) = oset_insert cmp k (map fst m)"
  by (induction m) (auto simp: ordered_Cons split: ordering.splits)

lemma omap_remove_keys:
  "map fst (omap_remove cmp k m) = oset_remove cmp k (map fst m)"
  by (induction m) (auto split: ordering.splits)

lemma ordered_omap_insert:
  "\<lbrakk>carrier k; ordered (map fst m)\<rbrakk> \<Longrightarrow> ordered (map fst (omap_insert cmp k v m))"
  by (simp add: omap_insert_keys ordered_oset_insert)

lemma ordered_omap_remove:
  "\<lbrakk>carrier k; ordered (map fst m)\<rbrakk> \<Longrightarrow> ordered (map fst (omap_remove cmp k m))"
  by (simp add: omap_remove_keys ordered_oset_remove)

lemma omap_get_insert:
  "\<lbrakk>carrier k; carrier j; ordered (map fst m)\<rbrakk> \<Longrightarrow>
     omap_get cmp j (omap_insert cmp k v m) = (if j = k then Some v else omap_get cmp j m)"
proof (induction m)
  case Nil
  then show ?case by (auto simp: cmp_eq_iff split: ordering.splits)
next
  case (Cons p m)
  obtain k' v' where p: "p = (k', v')" by (cases p)
  with Cons.prems have c: "carrier k'" "ordered (map fst m)" by (auto simp: ordered_Cons)
  show ?case
  proof (cases "cmp k k'")
    case Less
    have "cmp j k = Less \<Longrightarrow> cmp j k' = Less"
      using Less c Cons.prems cmp_less_trans by blast
    with Less p c Cons.prems show ?thesis
      by (auto simp: cmp_eq_iff split: ordering.splits)
  next
    case Equal
    with p c Cons.prems show ?thesis by (auto simp: cmp_eq_iff split: ordering.splits)
  next
    case Greater
    with p c Cons show ?thesis by (auto simp: cmp_eq_iff split: ordering.splits)
  qed
qed

lemma omap_get_eq_map_of:
  "\<lbrakk>carrier k; ordered (map fst m)\<rbrakk> \<Longrightarrow> omap_get cmp k m = map_of m k"
proof (induction m)
  case (Cons p m)
  obtain k' v' where p: "p = (k', v')" by (cases p)
  with Cons.prems have c: "carrier k'" "ordered (map fst m)" "\<forall>z\<in>fst ` set m. cmp k' z = Less"
    by (auto simp: ordered_Cons)
  have "cmp k k' = Less \<Longrightarrow> k \<notin> fst ` set m"
    using c Cons.prems less_all [of k k' "map fst m"] less_imp_not_in [of k "map fst m"]
    by (auto simp: ordered_def)
  then have "cmp k k' = Less \<Longrightarrow> map_of m k = None"
    by (simp add: map_of_eq_None_iff)
  with p c Cons show ?case by (auto simp: cmp_eq_iff split: ordering.splits)
qed simp

end

section \<open>Interpretations\<close>

interpretation lin: cmp_order "lin_cmp :: 'a::linorder \<Rightarrow> 'a \<Rightarrow> ordering" "\<lambda>_. True"
  by unfold_locales (auto simp: lin_cmp_def split: if_splits)

interpretation tso: cmp_order ts_cmp ts_near
proof
  show "\<lbrakk>ts_near a; ts_near b\<rbrakk> \<Longrightarrow> ts_cmp a b = Equal \<longleftrightarrow> a = b" for a b
    by (auto simp: ts_cmp_near intro: timestamp.expand)
  show "\<lbrakk>ts_near a; ts_near b\<rbrakk> \<Longrightarrow> ts_cmp b a = ord_reverse (ts_cmp a b)" for a b
    by (auto simp: ts_cmp_near lin_cmp_def)
  show "\<lbrakk>ts_near a; ts_near b; ts_near c; ts_cmp a b = Less; ts_cmp b c = Less\<rbrakk>
      \<Longrightarrow> ts_cmp a c = Less" for a b c
    by (auto simp: ts_cmp_near)
qed

lemma lin_ordered_iff:
  "lin.ordered xs \<longleftrightarrow> sorted_wrt (<) xs"
  by (simp add: lin.ordered_def)

end
