(* ===== verification/Redo.thy ===== *)
theory Redo
  imports Timestamp
begin

unbundle bit_operations_syntax

text \<open>
  Redo nodes (\<open>src/src/storage.rs\<close>), the tagged pointers that link them
  (\<open>crossbeam::epoch::Atomic\<close> with the \<open>PointerTag\<close> bits of \<open>hash_memtable.rs\<close>) and the
  store they live in. A pointer is an address or null, with a tag in its low bits;
  \<open>Atomic::compare_exchange\<close> compares address and tag. The store maps addresses to nodes, so
  that a node reached from a version chain and the same node held in a transaction's
  \<open>redo_nodes\<close> are one object.
\<close>

section \<open>Tagged pointers\<close>

datatype vptr = VPtr (ptr_addr: "nat option") (ptr_tag: u64)

definition null_ptr :: vptr where
  "null_ptr = VPtr None 0"

definition ptr_is_null :: "vptr \<Rightarrow> bool" where
  "ptr_is_null p \<longleftrightarrow> ptr_addr p = None"

definition with_tag :: "vptr \<Rightarrow> u64 \<Rightarrow> vptr" where
  "with_tag p t = VPtr (ptr_addr p) t"

definition TAG_PRESENT :: u64 where "TAG_PRESENT = 1"

definition TAG_ABORT :: u64 where "TAG_ABORT = 2"

text \<open>\<open>from_bits_truncate\<close> keeps the bits that are flags.\<close>

definition tag_truncate :: "u64 \<Rightarrow> u64" where
  "tag_truncate t = t AND (TAG_PRESENT OR TAG_ABORT)"

definition is_present :: "vptr \<Rightarrow> bool" where
  "is_present p \<longleftrightarrow> tag_truncate (ptr_tag p) AND TAG_PRESENT \<noteq> 0"

definition is_abort :: "vptr \<Rightarrow> bool" where
  "is_abort p \<longleftrightarrow> tag_truncate (ptr_tag p) AND TAG_ABORT \<noteq> 0"

definition abort_ptr :: "vptr \<Rightarrow> vptr" where
  "abort_ptr p = with_tag p (tag_truncate (ptr_tag p) OR TAG_ABORT)"

lemma tag_simps [simp]:
  "\<not> is_abort null_ptr" "\<not> is_present null_ptr"
  "is_present (VPtr a 1)" "\<not> is_abort (VPtr a 1)"
  "\<not> is_present (VPtr a 0)" "\<not> is_abort (VPtr a 0)"
  by (simp_all add: is_abort_def is_present_def null_ptr_def tag_truncate_def TAG_PRESENT_def
      TAG_ABORT_def)

lemma ptr_is_null_null [simp]: "ptr_is_null null_ptr"
  by (simp add: ptr_is_null_def null_ptr_def)

lemma ptr_addr_null [simp]: "ptr_addr null_ptr = None"
  by (simp add: null_ptr_def)

lemma ptr_addr_with_tag [simp]: "ptr_addr (with_tag p t) = ptr_addr p"
  by (simp add: with_tag_def)

lemma abort_ptr_facts [simp]:
  "is_abort (abort_ptr p)" "is_present (abort_ptr p) = is_present p"
  "ptr_addr (abort_ptr p) = ptr_addr p"
proof -
  have one: "(1 :: u64) AND 2 = 0" "(2 :: u64) AND 1 = 0" "(2 :: u64) AND 3 = 2" "(3 :: u64) AND 2 = 2" by simp_all
  show "ptr_addr (abort_ptr p) = ptr_addr p" by (simp add: abort_ptr_def)
  show "is_abort (abort_ptr p)"
    by (simp add: is_abort_def abort_ptr_def with_tag_def tag_truncate_def TAG_PRESENT_def
        TAG_ABORT_def and.assoc bit.conj_disj_distrib2)
  show "is_present (abort_ptr p) = is_present p"
    by (simp add: is_present_def abort_ptr_def with_tag_def tag_truncate_def TAG_PRESENT_def
        TAG_ABORT_def and.assoc bit.conj_disj_distrib2)
qed

section \<open>Redo nodes\<close>

datatype 'v redo_record = Insert 'v | Delete

record 'v redo_node =
  node_timestamp :: timestamp
  node_collected :: u32
  node_record :: "'v redo_record"
  node_next :: vptr

definition redo_new_insert :: "timestamp \<Rightarrow> 'v \<Rightarrow> 'v redo_node" where
  "redo_new_insert ts v =
     \<lparr>node_timestamp = ts, node_collected = 0, node_record = Insert v, node_next = null_ptr\<rparr>"

definition redo_new_delete :: "timestamp \<Rightarrow> 'v redo_node" where
  "redo_new_delete ts =
     \<lparr>node_timestamp = ts, node_collected = 0, node_record = Delete, node_next = null_ptr\<rparr>"

definition store_timestamp :: "timestamp \<Rightarrow> 'v redo_node \<Rightarrow> 'v redo_node" where
  "store_timestamp ts n = n\<lparr>node_timestamp := ts\<rparr>"

text \<open>
  \<open>try_set_collected\<close> stores the timestamp truncated to 32 bits, and only where nothing is
  stored yet; \<open>load_collected\<close> widens the 32 bits to a timestamp.
\<close>

definition try_set_collected :: "timestamp \<Rightarrow> 'v redo_node \<Rightarrow> bool \<times> 'v redo_node" where
  "try_set_collected c n =
     (if node_collected n = 0 then (True, n\<lparr>node_collected := ucast (ts_bits c)\<rparr>)
      else (False, n))"

definition load_collected :: "'v redo_node \<Rightarrow> timestamp" where
  "load_collected n = Timestamp (ucast (node_collected n))"

text \<open>The value a version stands for: \<open>Delete\<close> is a tombstone.\<close>

fun record_value :: "'v redo_record \<Rightarrow> 'v option" where
  "record_value (Insert v) = Some v"
| "record_value Delete = None"

lemma ucast_roundtrip_32:
  "ucast (ucast (x :: u64) :: u32) = x \<longleftrightarrow> x < 2 ^ 32"
proof -
  have "ucast (ucast x :: u32) = x \<longleftrightarrow> unat x mod 2 ^ 32 = unat x"
    by (simp add: word_unat_eq_iff unsigned_ucast_eq take_bit_eq_mod unat_mod)
  also have "\<dots> \<longleftrightarrow> unat x < 2 ^ 32"
    by (metis mod_less mod_less_divisor zero_less_numeral zero_less_power)
  finally show ?thesis by (simp add: word_less_nat_alt)
qed

text \<open>
  C28: a claim made by the collector \<open>c\<close> on a fresh node is read back as \<open>c\<close> exactly when
  the 64-bit timestamp fits the 32-bit field.
\<close>

theorem collected_mark_roundtrip:
  assumes "node_collected n = 0"
  shows "fst (try_set_collected c n) \<and>
    (load_collected (snd (try_set_collected c n)) = c \<longleftrightarrow> ts_bits c < 2 ^ 32)"
  using assms
  by (cases c) (simp add: try_set_collected_def load_collected_def ucast_roundtrip_32)

theorem collected_mark_roundtrip_witness:
  "load_collected (snd (try_set_collected (Timestamp 5)
     (redo_new_delete (Timestamp 3) :: bool redo_node))) = Timestamp 5 \<and>
   load_collected (snd (try_set_collected (Timestamp 4294967296)
     (redo_new_delete (Timestamp 3) :: bool redo_node))) \<noteq> Timestamp 4294967296"
  using collected_mark_roundtrip [of "redo_new_delete (Timestamp 3) :: bool redo_node" "Timestamp 5"]
    collected_mark_roundtrip
      [of "redo_new_delete (Timestamp 3) :: bool redo_node" "Timestamp 4294967296"]
  by (simp add: redo_new_delete_def)

end
