(* ===== verification/Log_Record.thy ===== *)
theory Log_Record
  imports Timestamp
begin

text \<open>
  What goes into the write-ahead log and into table files, and the third-party code that
  turns it into bytes. The records are those of \<open>wal/log_record.rs\<close>,
  \<open>memtable/memtable_log.rs\<close>, \<open>transaction/transaction_log.rs\<close>, \<open>wal/wal_log.rs\<close> and
  \<open>table.rs\<close>. Bytes come from crates outside the repository (\<open>bincode\<close>, \<open>byteorder\<close>,
  \<open>integer_encoding\<close>, \<open>crc32fast\<close>, \<open>fasthash\<close>); their functions are the fields of two records
  that the definitions take as an argument. The laws the code relies on, a decoder that inverts
  its encoder, are the locale \<open>wire_format\<close>; what \<open>bincode\<close> makes of a value is a parameter of the
  components that use it.
\<close>

section \<open>Log records and table file metadata\<close>

type_synonym log_pointer = nat

datatype table_file_ref = TableFileRef (ref_path_id: nat) (ref_seqnum: nat)

record 'k table_file_meta =
  file_ref :: table_file_ref
  file_size :: nat
  file_min_xip :: timestamp
  infimum :: 'k
  supremum :: 'k
  being_compacted :: bool

type_synonym 'k table_file_set = "'k table_file_meta list list"

definition table_file_meta_new ::
  "table_file_ref \<Rightarrow> nat \<Rightarrow> timestamp \<Rightarrow> 'k \<Rightarrow> 'k \<Rightarrow> 'k table_file_meta" where
  "table_file_meta_new r sz min_xip lo hi =
     \<lparr>file_ref = r, file_size = sz, file_min_xip = min_xip, infimum = lo, supremum = hi,
      being_compacted = False\<rparr>"

datatype mem_table_log_record =
    Put bytes bytes
  | DeleteKey bytes

datatype transaction_log_record =
    CommitLog (log_commit_ts: timestamp) (log_min_xip: timestamp)
  | AbortLog

record 'k checkpoint_log =
  ckpt_min_xip :: timestamp
  ckpt_min_recovery_point :: log_pointer
  ckpt_next_file_num :: nat
  ckpt_file_set :: "'k table_file_set"

datatype 'k log_record =
    MemTableRecord mem_table_log_record
  | TransactionRecord transaction_log_record
  | WalCheckpoint "'k checkpoint_log"

definition create_put_log :: "bytes \<Rightarrow> bytes \<Rightarrow> 'k log_record" where
  "create_put_log key val = MemTableRecord (Put key val)"

definition create_delete_log :: "bytes \<Rightarrow> 'k log_record" where
  "create_delete_log key = MemTableRecord (DeleteKey key)"

definition create_transaction_commit_log :: "timestamp \<Rightarrow> timestamp \<Rightarrow> 'k log_record" where
  "create_transaction_commit_log commit_ts min_xip =
     TransactionRecord (CommitLog commit_ts min_xip)"

definition create_transaction_abort_log :: "'k log_record" where
  "create_transaction_abort_log = TransactionRecord AbortLog"

definition create_checkpoint_log ::
  "timestamp \<Rightarrow> log_pointer \<Rightarrow> nat \<Rightarrow> 'k table_file_set \<Rightarrow> 'k log_record" where
  "create_checkpoint_log min_xip min_recovery_point next_file_num file_set =
     WalCheckpoint \<lparr>ckpt_min_xip = min_xip, ckpt_min_recovery_point = min_recovery_point,
       ckpt_next_file_num = next_file_num, ckpt_file_set = file_set\<rparr>"

text \<open>The \<open>ItemPointer\<close> of \<open>block/index.rs\<close>: where a block lies in its file.\<close>

datatype item_pointer = ItemPointer (item_offset: nat) (item_length: nat)

section \<open>Byte codecs of other crates\<close>

text \<open>
  \<open>put_u16\<close> to \<open>get_u64\<close> stand for byteorder's little-endian \<open>write_u16\<close>/\<open>read_u16\<close>,
  \<open>write_u32\<close>/\<open>read_u32\<close> and \<open>write_u64\<close>/\<open>read_u64\<close>; \<open>put_varint\<close> and \<open>get_varint\<close> for
  \<open>write_varint\<close> and \<open>usize::decode_var\<close>, which returns the value and the number of bytes it
  read; \<open>crc32\<close> for \<open>crc32fast\<close>; \<open>hash64\<close> for \<open>xx::hash64\<close>.
\<close>

record wire =
  put_u16 :: "u16 \<Rightarrow> bytes"
  get_u16 :: "bytes \<Rightarrow> u16"
  put_u32 :: "u32 \<Rightarrow> bytes"
  get_u32 :: "bytes \<Rightarrow> u32"
  put_u64 :: "u64 \<Rightarrow> bytes"
  get_u64 :: "bytes \<Rightarrow> u64"
  put_varint :: "nat \<Rightarrow> bytes"
  get_varint :: "bytes \<Rightarrow> nat \<times> nat"
  crc32 :: "bytes \<Rightarrow> u32"
  hash64 :: "bytes \<Rightarrow> u64"

definition wire_ok :: "wire \<Rightarrow> bool" where
  "wire_ok w \<longleftrightarrow>
     (\<forall>x. length (put_u16 w x) = 2) \<and> (\<forall>x r. get_u16 w (put_u16 w x @ r) = x) \<and>
     (\<forall>x. length (put_u32 w x) = 4) \<and> (\<forall>x r. get_u32 w (put_u32 w x @ r) = x) \<and>
     (\<forall>x. length (put_u64 w x) = 8) \<and> (\<forall>x r. get_u64 w (put_u64 w x @ r) = x) \<and>
     (\<forall>n. put_varint w n \<noteq> []) \<and>
     (\<forall>n r. get_varint w (put_varint w n @ r) = (n, length (put_varint w n)))"

locale wire_format =
  fixes w :: wire
  assumes len_u16 [simp]: "length (put_u16 w a) = 2"
    and get_put_u16 [simp]: "get_u16 w (put_u16 w a @ r) = a"
    and len_u32 [simp]: "length (put_u32 w b) = 4"
    and get_put_u32 [simp]: "get_u32 w (put_u32 w b @ r) = b"
    and len_u64 [simp]: "length (put_u64 w c) = 8"
    and get_put_u64 [simp]: "get_u64 w (put_u64 w c @ r) = c"
    and put_varint_nonempty [simp]: "put_varint w n \<noteq> []"
    and get_put_varint [simp]: "get_varint w (put_varint w n @ r) = (n, length (put_varint w n))"
begin

lemma get_put_u32_nil [simp]: "get_u32 w (put_u32 w b) = b"
  using get_put_u32 [of b "[]"] by simp

lemma get_put_u64_nil [simp]: "get_u64 w (put_u64 w b) = b"
  using get_put_u64 [of b "[]"] by simp

lemma varint_len_pos [simp]: "0 < length (put_varint w n)"
  by simp

end

lemma wire_format_iff: "wire_format w \<longleftrightarrow> wire_ok w"
  by (auto simp: wire_format_def wire_ok_def)

section \<open>The documented formats, as an instance\<close>

text \<open>Little-endian words and LEB128 variable-length integers.\<close>

definition le_byte :: "nat \<Rightarrow> nat \<Rightarrow> u8" where
  "le_byte n i = of_nat (n div 256 ^ i mod 256)"

definition le_bytes :: "nat \<Rightarrow> nat \<Rightarrow> bytes" where
  "le_bytes k n = map (le_byte n) [0..<k]"

fun le_value :: "bytes \<Rightarrow> nat" where
  "le_value [] = 0"
| "le_value (b # bs) = unat b + 256 * le_value bs"

fun leb_encode :: "nat \<Rightarrow> bytes" where
  "leb_encode n =
     (if n < 128 then [of_nat n] else of_nat (128 + n mod 128) # leb_encode (n div 128))"

fun leb_decode :: "bytes \<Rightarrow> nat \<times> nat" where
  "leb_decode [] = (0, 0)"
| "leb_decode (b # bs) =
     (if unat b < 128 then (unat b, 1)
      else (case leb_decode bs of (v, k) \<Rightarrow> ((unat b - 128) + 128 * v, Suc k)))"

declare leb_encode.simps [simp del]

definition std_wire :: wire where
  "std_wire = \<lparr>
     put_u16 = (\<lambda>x. le_bytes 2 (unat x)), get_u16 = (\<lambda>bs. of_nat (le_value (take 2 bs))),
     put_u32 = (\<lambda>x. le_bytes 4 (unat x)), get_u32 = (\<lambda>bs. of_nat (le_value (take 4 bs))),
     put_u64 = (\<lambda>x. le_bytes 8 (unat x)), get_u64 = (\<lambda>bs. of_nat (le_value (take 8 bs))),
     put_varint = leb_encode, get_varint = leb_decode,
     crc32 = (\<lambda>bs. of_nat (sum_list (map unat bs))),
     hash64 = (\<lambda>bs. of_nat (le_value bs))\<rparr>"

lemma length_le_bytes [simp]: "length (le_bytes k n) = k"
  by (simp add: le_bytes_def)

lemma upt_Suc_map: "[0..<Suc k] = 0 # map Suc [0..<k]"
  by (simp only: map_Suc_upt upt_conv_Cons)

lemma le_bytes_Suc: "le_bytes (Suc k) n = of_nat (n mod 256) # le_bytes k (n div 256)"
  by (simp only: le_bytes_def upt_Suc_map list.map map_map o_def le_byte_def power_Suc
      div_mult2_eq) (simp add: le_byte_def)

lemma unat_of_nat_byte: "m < 256 \<Longrightarrow> unat (of_nat m :: u8) = m"
  by (simp add: unsigned_of_nat take_bit_eq_mod)

lemma le_value_bytes: "le_value (le_bytes k n) = n mod 256 ^ k"
proof (induction k arbitrary: n)
  case 0
  then show ?case by (simp add: le_bytes_def)
next
  case (Suc k)
  then show ?case
    by (simp add: le_bytes_Suc unat_of_nat_byte mod_mult2_eq [of n 256 "256 ^ k"])
qed

lemma leb_encode_nonempty [simp]: "leb_encode n \<noteq> []"
  by (subst leb_encode.simps) simp

lemma leb_roundtrip: "leb_decode (leb_encode n @ r) = (n, length (leb_encode n))"
proof (induction n rule: leb_encode.induct)
  case (1 n)
  show ?case
  proof (cases "n < 128")
    case True
    then show ?thesis
      by (simp add: leb_encode.simps [of n] unat_of_nat_byte)
  next
    case False
    with 1 have IH: "leb_decode (leb_encode (n div 128) @ r)
        = (n div 128, length (leb_encode (n div 128)))"
      by simp
    have b: "unat (of_nat (128 + n mod 128) :: u8) = 128 + n mod 128"
      by (rule unat_of_nat_byte) (simp add: mod_less_divisor [of 128 n, THEN order.strict_trans2])
    show ?thesis
      using False IH b by (simp add: leb_encode.simps [of n])
  qed
qed

lemma take_append_exact: "length xs = n \<Longrightarrow> take n (xs @ ys) = xs"
  by simp

interpretation std: wire_format std_wire
proof
  fix a r
  show "get_u16 std_wire (put_u16 std_wire a @ r) = a"
    using unsigned_less [where ?'a = nat, of a]
    by (simp add: std_wire_def take_append_exact le_value_bytes)
next
  fix a r
  show "get_u32 std_wire (put_u32 std_wire a @ r) = a"
    using unsigned_less [where ?'a = nat, of a]
    by (simp add: std_wire_def take_append_exact le_value_bytes)
next
  fix a r
  show "get_u64 std_wire (put_u64 std_wire a @ r) = a"
    using unsigned_less [where ?'a = nat, of a]
    by (simp add: std_wire_def take_append_exact le_value_bytes)
qed (simp_all add: std_wire_def leb_roundtrip)

lemma std_wire_ok: "wire_ok std_wire"
  using std.wire_format_axioms by (simp add: wire_format_iff)

end
