(* ===== verification/Txn.thy ===== *)
theory Txn
  imports Ordered_Set Redo Log_Record
begin

text \<open>
  Transactions and their manager: \<open>Transaction\<close> and \<open>Snapshot\<close> of
  \<open>src/src/transaction.rs\<close>, the transaction table of \<open>transaction_table.rs\<close> and the part of
  \<open>transaction_manager.rs\<close> that does not touch the memtable or the log: start, the minimum of
  the running transactions, snapshots and status. Commit and abort are in \<open>Txn_Commit\<close>.

  A transaction holds its redo nodes as pairs of a key and the address of a node in the store;
  the table they belong to is the one memtable of the database.
\<close>

section \<open>Snapshots and the transaction table\<close>

record snapshot =
  snap_min_xid :: timestamp
  snap_max_xid :: timestamp
  snap_xips :: "timestamp set"

definition is_xid_in_progress :: "snapshot \<Rightarrow> timestamp \<Rightarrow> bool" where
  "is_xid_in_progress s xid =
     (if ts_lt xid (snap_min_xid s) then False
      else if \<not> ts_lt xid (snap_max_xid s) then True
      else xid \<in> snap_xips s)"

datatype transaction_status = InProgress | Committed | Aborted | ErrorStatus

definition status_from :: "u8 \<Rightarrow> transaction_status" where
  "status_from v = (if v = 0 then InProgress else if v = 1 then Committed
     else if v = 2 then Aborted else ErrorStatus)"

type_synonym txn_table = "(timestamp \<times> transaction_status) list"

definition table_get_status :: "txn_table \<Rightarrow> timestamp \<Rightarrow> transaction_status" where
  "table_get_status t xid =
     (case omap_get ts_cmp xid t of Some status \<Rightarrow> status | None \<Rightarrow> InProgress)"

definition table_set_status :: "txn_table \<Rightarrow> timestamp \<Rightarrow> transaction_status \<Rightarrow> txn_table" where
  "table_set_status t xid status = omap_insert ts_cmp xid status t"

section \<open>Transactions\<close>

datatype transaction_mode = Normal | FastCommit

record ('k, 'v) txn =
  txn_mode :: transaction_mode
  start_timestamp :: timestamp
  commit_timestamp :: timestamp
  is_readonly :: bool
  redo_nodes :: "('k \<times> nat) list"
  gc_guard :: bool
  txn_imm_tables :: "timestamp \<rightharpoonup> ('k \<times> 'v option) list"
  value_cache :: "'v list"
  staged_log_records :: "bytes list"
  current_snapshot :: "snapshot option"

definition txn_new :: "transaction_mode \<Rightarrow> timestamp \<Rightarrow> timestamp \<Rightarrow> ('k, 'v) txn" where
  "txn_new mode start_ts commit_ts =
     \<lparr>txn_mode = mode, start_timestamp = start_ts, commit_timestamp = commit_ts,
      is_readonly = True, redo_nodes = [], gc_guard = False, txn_imm_tables = Map.empty,
      value_cache = [], staged_log_records = [], current_snapshot = None\<rparr>"

definition is_fast_commit :: "('k, 'v) txn \<Rightarrow> bool" where
  "is_fast_commit t \<longleftrightarrow> txn_mode t = FastCommit"

definition get_insert_redo :: "('k, 'v) txn \<Rightarrow> 'v \<Rightarrow> 'v redo_node" where
  "get_insert_redo t inserted = redo_new_insert (commit_timestamp t) inserted"

definition get_delete_redo :: "('k, 'v) txn \<Rightarrow> 'v redo_node" where
  "get_delete_redo t = redo_new_delete (commit_timestamp t)"

definition add_redo_node :: "'k \<Rightarrow> nat \<Rightarrow> ('k, 'v) txn \<Rightarrow> ('k, 'v) txn" where
  "add_redo_node key redo t =
     (let t' = t\<lparr>is_readonly := False\<rparr>
      in if \<not> is_fast_commit t' then t'\<lparr>redo_nodes := redo_nodes t' @ [(key, redo)]\<rparr> else t')"

definition take_gc_guard :: "('k, 'v) txn \<Rightarrow> bool \<times> ('k, 'v) txn" where
  "take_gc_guard t = (gc_guard t, t\<lparr>gc_guard := False\<rparr>)"

definition set_gc_guard :: "('k, 'v) txn \<Rightarrow> ('k, 'v) txn" where
  "set_gc_guard t = t\<lparr>gc_guard := True\<rparr>"

definition ref_imm_table ::
  "timestamp \<Rightarrow> ('k \<times> 'v option) list \<Rightarrow> ('k, 'v) txn \<Rightarrow> ('k, 'v) txn" where
  "ref_imm_table min_xip imt t = t\<lparr>txn_imm_tables := (txn_imm_tables t)(min_xip \<mapsto> imt)\<rparr>"

definition txn_record_value :: "'v \<Rightarrow> ('k, 'v) txn \<Rightarrow> ('k, 'v) txn" where
  "txn_record_value v t = t\<lparr>value_cache := value_cache t @ [v]\<rparr>"

definition drop_read_guard :: "('k, 'v) txn \<Rightarrow> ('k, 'v) txn" where
  "drop_read_guard t = t\<lparr>gc_guard := False, txn_imm_tables := Map.empty, value_cache := []\<rparr>"

text \<open>
  \<open>stage_log_record\<close> keeps the bytes of the full record; \<open>full_record\<close> is
  \<open>Wal::get_full_record\<close>, that is \<open>bincode::serialize\<close> of the start timestamp and the record.
\<close>

definition stage_log_record ::
  "(timestamp \<Rightarrow> 'k log_record \<Rightarrow> bytes) \<Rightarrow> 'k log_record \<Rightarrow> ('k, 'v) txn \<Rightarrow> ('k, 'v) txn" where
  "stage_log_record full_record r t =
     t\<lparr>staged_log_records := staged_log_records t @ [full_record (start_timestamp t) r]\<rparr>"

section \<open>The transaction manager\<close>

record txn_manager =
  timestamp_counter :: u64
  xips :: "timestamp list"
  latest_completed_xid :: timestamp
  cached_min_xip_word :: u64
  tm_txn_table :: txn_table

definition txn_manager_new :: txn_manager where
  "txn_manager_new = \<lparr>timestamp_counter = 1, xips = [], latest_completed_xid = ts_default,
     cached_min_xip_word = ts_bits ts_default, tm_txn_table = []\<rparr>"

definition start_transaction ::
  "transaction_mode \<Rightarrow> txn_manager \<Rightarrow> ('k, 'v) txn \<times> txn_manager" where
  "start_transaction mode tm =
     (let ts = timestamp_counter tm;
          tm' = tm\<lparr>timestamp_counter := timestamp_counter tm + 1,
                   xips := oset_insert ts_cmp (ts_new Commit ts) (xips tm)\<rparr>;
          commit_ts = (case mode of FastCommit \<Rightarrow> ts_new Start ts | _ \<Rightarrow> ts_new Uncommitted ts)
      in (txn_new mode (ts_new Commit ts) commit_ts, tm'))"

text \<open>The bookkeeping shared by the locked sections of \<open>commit\<close> and \<open>abort\<close>.\<close>

definition finish_xid :: "timestamp \<Rightarrow> txn_manager \<Rightarrow> txn_manager" where
  "finish_xid start_ts tm =
     tm\<lparr>xips := oset_remove ts_cmp start_ts (xips tm),
        latest_completed_xid := (if ts_lt (latest_completed_xid tm) start_ts then start_ts
                                 else latest_completed_xid tm)\<rparr>"

definition min_xip :: "txn_manager \<Rightarrow> timestamp option \<times> txn_manager" where
  "min_xip tm =
     (let min_txn = oset_first (xips tm)
      in (min_txn,
          case min_txn of
            Some min_ts \<Rightarrow> tm\<lparr>cached_min_xip_word := ts_bits min_ts\<rparr>
          | None \<Rightarrow> tm))"

definition cached_min_xip :: "txn_manager \<Rightarrow> timestamp option" where
  "cached_min_xip tm =
     (let m = Timestamp (cached_min_xip_word tm)
      in if ts_is_invalid m then None else Some m)"

text \<open>The loop of \<open>record_snapshot\<close> over the running transactions.\<close>

fun snapshot_scan ::
  "timestamp \<Rightarrow> timestamp \<Rightarrow> timestamp list \<Rightarrow> timestamp \<Rightarrow> timestamp set
    \<Rightarrow> (timestamp \<times> timestamp set) res" where
  "snapshot_scan self max_xid [] min_xid acc = Inr (min_xid, acc)"
| "snapshot_scan self max_xid (xid # rest) min_xid acc =
     (if ts_is_invalid xid then Inl (Panic ''invalid XID in active transaction list'')
      else if \<not> ts_lt xid max_xid then snapshot_scan self max_xid rest min_xid acc
      else let min_xid' = (if ts_lt xid min_xid then xid else min_xid)
           in if xid = self then snapshot_scan self max_xid rest min_xid' acc
              else snapshot_scan self max_xid rest min_xid' (insert xid acc))"

definition record_snapshot :: "txn_manager \<Rightarrow> ('k, 'v) txn \<Rightarrow> snapshot res" where
  "record_snapshot tm t =
     (let max_xid = ts_inc (latest_completed_xid tm)
      in res_bind (snapshot_scan (start_timestamp t) max_xid (xips tm) max_xid {})
           (\<lambda>(min_xid, active). Inr \<lparr>snap_min_xid = min_xid, snap_max_xid = max_xid,
              snap_xips = active\<rparr>))"

definition get_snapshot :: "txn_manager \<Rightarrow> ('k, 'v) txn \<Rightarrow> (snapshot \<times> ('k, 'v) txn) res" where
  "get_snapshot tm t =
     (case current_snapshot t of
        None \<Rightarrow> res_bind (record_snapshot tm t)
                  (\<lambda>s. Inr (s, t\<lparr>current_snapshot := Some s\<rparr>))
      | Some s \<Rightarrow> Inr (s, t))"

definition get_transaction_status :: "txn_manager \<Rightarrow> timestamp \<Rightarrow> transaction_status" where
  "get_transaction_status tm xid = table_get_status (tm_txn_table tm) xid"


section \<open>The manager's invariant\<close>

text \<open>
  The counter has not reached \<open>2 ^ 61\<close>; the running transactions are distinct, in order and were
  issued by the counter; so was the last completed one, if there is one.
\<close>

definition issued :: "u64 \<Rightarrow> timestamp \<Rightarrow> bool" where
  "issued c t \<longleftrightarrow> 0 < ts_bits t \<and> ts_bits t < c"

definition tm_inv :: "txn_manager \<Rightarrow> bool" where
  "tm_inv tm \<longleftrightarrow>
     0 < timestamp_counter tm \<and> timestamp_counter tm \<le> ts_limit \<and>
     tso.ordered (xips tm) \<and>
     (\<forall>x\<in>set (xips tm). issued (timestamp_counter tm) x) \<and>
     (latest_completed_xid tm = ts_default \<or>
      issued (timestamp_counter tm) (latest_completed_xid tm))"

lemma issued_small: "\<lbrakk>issued c t; c \<le> ts_limit\<rbrakk> \<Longrightarrow> ts_small t"
  by (auto simp: issued_def ts_small_def)

lemma issued_valid: "issued c t \<Longrightarrow> \<not> ts_is_invalid t"
  by (auto simp: issued_def ts_invalid_bits)

lemma issued_mono: "\<lbrakk>issued c t; c \<le> d\<rbrakk> \<Longrightarrow> issued d t"
  by (auto simp: issued_def)

lemma word_less_Suc: "c < ts_limit \<Longrightarrow> c < c + 1"
  by (metis word_Suc_small word_less_nat_alt lessI)

lemma word_Suc_le: "c < ts_limit \<Longrightarrow> c + 1 \<le> ts_limit"
  by (metis word_Suc_small word_less_nat_alt word_le_nat_alt Suc_leI)

lemma tm_inv_new [simp]: "tm_inv txn_manager_new"
  by (simp add: tm_inv_def txn_manager_new_def word_le_nat_alt unat_ts_limit)

lemma tm_inv_latest_small: "tm_inv tm \<Longrightarrow> ts_small (latest_completed_xid tm)"
  by (auto simp: tm_inv_def dest: issued_small)

lemma tm_inv_xip_small: "\<lbrakk>tm_inv tm; x \<in> set (xips tm)\<rbrakk> \<Longrightarrow> ts_small x"
  by (auto simp: tm_inv_def dest: issued_small)

lemma start_transaction_fields:
  assumes "start_transaction mode tm = (t, tm')"
  shows "start_timestamp t = ts_new Commit (timestamp_counter tm)"
    and "timestamp_counter tm' = timestamp_counter tm + 1"
    and "commit_timestamp t = ts_new (case mode of FastCommit \<Rightarrow> Start | _ \<Rightarrow> Uncommitted)
           (timestamp_counter tm)"
    and "xips tm' = oset_insert ts_cmp (start_timestamp t) (xips tm)"
    and "latest_completed_xid tm' = latest_completed_xid tm"
    and "tm_txn_table tm' = tm_txn_table tm"
    and "current_snapshot t = None" and "redo_nodes t = []" and "txn_mode t = mode"
  using assms
  by (auto simp: start_transaction_def Let_def txn_new_def split: transaction_mode.splits)

lemma start_transaction_inv:
  assumes inv: "tm_inv tm" and lt: "timestamp_counter tm < ts_limit"
    and st: "start_transaction mode tm = (t, tm')"
  shows "tm_inv tm'"
    and "set (xips tm') = insert (start_timestamp t) (set (xips tm))"
    and "start_timestamp t \<notin> set (xips tm)"
proof -
  note f = start_transaction_fields [OF st]
  have small: "ts_small (start_timestamp t)" using lt by (simp add: f)
  then have near: "ts_near (start_timestamp t)" by (rule ts_small_near)
  have ord: "tso.ordered (xips tm)" using inv by (simp add: tm_inv_def)
  show set: "set (xips tm') = insert (start_timestamp t) (set (xips tm))"
    using near ord by (simp add: f(4) tso.set_oset_insert)
  show "start_timestamp t \<notin> set (xips tm)"
    using inv lt by (auto simp: tm_inv_def issued_def f)
  have up: "issued (timestamp_counter tm) x \<Longrightarrow> issued (timestamp_counter tm + 1) x" for x
    using word_less_Suc [OF lt] by (auto intro: issued_mono)
  have "issued (timestamp_counter tm + 1) (start_timestamp t)"
    using inv lt word_less_Suc [OF lt] by (simp add: issued_def f tm_inv_def)
  with inv set up f near ord word_Suc_le [OF lt] word_less_Suc [OF lt] show "tm_inv tm'"
    by (auto simp: tm_inv_def tso.ordered_oset_insert)
qed

lemma finish_xid_inv:
  assumes inv: "tm_inv tm" and mem: "x \<in> set (xips tm)"
  shows "tm_inv (finish_xid x tm)"
    and "set (xips (finish_xid x tm)) = set (xips tm) - {x}"
proof -
  have near: "ts_near x" using tm_inv_xip_small [OF inv mem] by (rule ts_small_near)
  have ord: "tso.ordered (xips tm)" using inv by (simp add: tm_inv_def)
  show set: "set (xips (finish_xid x tm)) = set (xips tm) - {x}"
    using near ord by (simp add: finish_xid_def tso.set_oset_remove)
  show "tm_inv (finish_xid x tm)"
    using inv mem near ord
    by (auto simp: tm_inv_def finish_xid_def tso.set_oset_remove tso.ordered_oset_remove)
qed

lemma min_xip_least:
  assumes inv: "tm_inv tm" and m: "fst (min_xip tm) = Some m"
  shows "m \<in> set (xips tm) \<and> (\<forall>x\<in>set (xips tm). ts_bits m \<le> ts_bits x)"
proof -
  have ord: "tso.ordered (xips tm)" using inv by (simp add: tm_inv_def)
  have f: "oset_first (xips tm) = Some m" using m by (simp add: min_xip_def Let_def)
  have least: "m \<in> set (xips tm)" "\<forall>x\<in>set (xips tm). x = m \<or> ts_cmp m x = Less"
    using tso.oset_first_least [OF ord f] by auto
  then show ?thesis
    using inv tm_inv_xip_small [OF inv] by (fastforce simp: ts_cmp_small)
qed

section \<open>Snapshots tell the running transactions\<close>

lemma snapshot_scan_result:
  assumes "\<forall>x\<in>set xs. issued c x" and "c \<le> ts_limit" and "ts_small mx" and "ts_small mn"
  shows "\<exists>mn'. snapshot_scan self mx xs mn acc =
           Inr (mn', acc \<union> {x \<in> set xs. ts_bits x < ts_bits mx \<and> x \<noteq> self}) \<and>
         ts_small mn' \<and> ts_bits mn' \<le> ts_bits mn \<and>
         (\<forall>x\<in>set xs. ts_bits x < ts_bits mx \<longrightarrow> ts_bits mn' \<le> ts_bits x)"
  using assms
proof (induction xs arbitrary: mn acc)
  case Nil
  then show ?case by simp
next
  case (Cons x xs)
  have sx: "ts_small x" and vx: "\<not> ts_is_invalid x"
    using Cons.prems by (auto dest: issued_small issued_valid)
  let ?mn = "if ts_lt x mx then (if ts_lt x mn then x else mn) else mn"
  let ?acc = "if ts_lt x mx \<and> x \<noteq> self then insert x acc else acc"
  have step: "snapshot_scan self mx (x # xs) mn acc = snapshot_scan self mx xs ?mn ?acc"
    using vx by (simp add: Let_def)
  have "ts_small ?mn" using sx Cons.prems by simp
  with Cons.IH [of ?mn ?acc] Cons.prems obtain mn' where
    r: "snapshot_scan self mx xs ?mn ?acc =
         Inr (mn', ?acc \<union> {x \<in> set xs. ts_bits x < ts_bits mx \<and> x \<noteq> self})"
    and b: "ts_small mn'" "ts_bits mn' \<le> ts_bits ?mn"
      "\<forall>x\<in>set xs. ts_bits x < ts_bits mx \<longrightarrow> ts_bits mn' \<le> ts_bits x"
    by auto
  have lts: "ts_lt x mx \<longleftrightarrow> ts_bits x < ts_bits mx" "ts_lt x mn \<longleftrightarrow> ts_bits x < ts_bits mn"
    using sx Cons.prems by (simp_all add: ts_lt_small)
  have acc: "?acc \<union> {x \<in> set xs. ts_bits x < ts_bits mx \<and> x \<noteq> self}
      = acc \<union> {y \<in> set (x # xs). ts_bits y < ts_bits mx \<and> y \<noteq> self}"
    using lts by auto
  have "ts_bits ?mn \<le> ts_bits mn" "ts_bits x < ts_bits mx \<longrightarrow> ts_bits ?mn \<le> ts_bits x"
    using lts by auto
  with b have "ts_bits mn' \<le> ts_bits mn"
    "\<forall>y\<in>set (x # xs). ts_bits y < ts_bits mx \<longrightarrow> ts_bits mn' \<le> ts_bits y"
    by (auto simp del: if_split)
  with r b step acc show ?case by (simp del: snapshot_scan.simps)
qed

lemma ts_small_inc: "\<lbrakk>ts_small t; Suc (unat (ts_bits t)) < 2 ^ 61\<rbrakk> \<Longrightarrow> ts_small (ts_inc t)"
  by (simp only: ts_small_unat [of "ts_inc t"] ts_inc_unat)

text \<open>How a snapshot classifies a timestamp, told by the state of the manager it was taken in.\<close>

lemma record_snapshot_classifies:
  assumes inv: "tm_inv tm" and sx: "ts_small x" and lt: "timestamp_counter tm < ts_limit"
  shows "\<exists>s. record_snapshot tm t = Inr s \<and>
    (is_xid_in_progress s x \<longleftrightarrow>
       ts_bits (latest_completed_xid tm) < ts_bits x \<or>
       x \<in> set (xips tm) \<and> x \<noteq> start_timestamp t)"
proof -
  define mx where "mx = ts_inc (latest_completed_xid tm)"
  have c: "timestamp_counter tm \<le> ts_limit" using inv by (simp add: tm_inv_def)
  have sl: "ts_small (latest_completed_xid tm)" using inv by (rule tm_inv_latest_small)
  have lb: "unat (ts_bits (latest_completed_xid tm)) < 2 ^ 61 - 1"
    using inv lt by (auto simp: tm_inv_def issued_def word_less_nat_alt unat_ts_limit)
  have smx: "ts_small mx" and umx: "unat (ts_bits mx) = Suc (unat (ts_bits (latest_completed_xid tm)))"
    using sl lb by (simp_all add: mx_def ts_small_unat ts_inc_unat)
  obtain mn where scan: "snapshot_scan (start_timestamp t) mx (xips tm) mx {} =
        Inr (mn, {y \<in> set (xips tm). ts_bits y < ts_bits mx \<and> y \<noteq> start_timestamp t})"
    and mn: "ts_small mn" "ts_bits mn \<le> ts_bits mx"
      "\<forall>y\<in>set (xips tm). ts_bits y < ts_bits mx \<longrightarrow> ts_bits mn \<le> ts_bits y"
    using snapshot_scan_result [of "xips tm" "timestamp_counter tm" mx mx "start_timestamp t" "{}"]
      inv c smx by (auto simp: tm_inv_def)
  have le: "ts_bits x < ts_bits mx \<longleftrightarrow> \<not> ts_bits (latest_completed_xid tm) < ts_bits x"
    using umx by (auto simp: word_less_nat_alt)
  show ?thesis
    using scan mn sx smx le
    by (auto simp: record_snapshot_def Let_def is_xid_in_progress_def ts_lt_small
        simp flip: mx_def)
qed

text \<open>The status table returns the last status set for a transaction, and in progress else.\<close>

lemma table_status_roundtrip:
  assumes "ts_near x" and "ts_near y" and "tso.ordered (map fst t)"
  shows "table_get_status (table_set_status t x s) y =
    (if y = x then s else table_get_status t y)"
  using assms by (simp add: table_get_status_def table_set_status_def tso.omap_get_insert)

end
