(* ===== verification/Mem_Table.thy ===== *)
theory Mem_Table
  imports Txn
begin

text \<open>
  The memtable, \<open>HashMemTable\<close> of \<open>src/src/memtable/hash_memtable.rs\<close>: a map from keys to
  version pointers, each the head of a chain of redo nodes, newest first.

  The lock-free map gives each entry a cell (an \<open>Atomic\<close> pointer) that a thread keeps using
  after the entry has been removed from the map; so the map sends keys to cell numbers and
  \<open>mt_cells\<close> holds the pointers. Cells and nodes are numbered by one counter, \<open>mt_fresh\<close>.
  \<open>mt_garbage\<close> lists the nodes handed to \<open>defer_destroy\<close>.

  Writers publish a node with \<open>compare_exchange\<close> in a loop. What other threads do between the
  moment a writer reads the version pointer and its \<open>compare_exchange\<close> is an argument: a list
  of functions on the shared state, one for each attempt. An attempt fails exactly when the
  pointer it read is no longer the one in the cell.

  Walks along a chain carry fuel \<open>Suc (mt_fresh m)\<close>: a chain longer than the number of nodes ever
  allocated visits a node twice, so a walk that runs out of it is one that never returns.
\<close>

section \<open>State\<close>

record ('k, 'v) memtable =
  mt_heap :: "nat \<rightharpoonup> 'v redo_node"
  mt_cells :: "nat \<rightharpoonup> vptr"
  mt_fresh :: nat
  mt_table :: "'k \<rightharpoonup> nat"
  mt_size :: u64
  mt_garbage :: "nat list"

definition memtable_new :: "('k, 'v) memtable" where
  "memtable_new = \<lparr>mt_heap = Map.empty, mt_cells = Map.empty, mt_fresh = 0,
     mt_table = Map.empty, mt_size = 0, mt_garbage = []\<rparr>"

type_synonym ('k, 'v) shared = "('k, 'v) memtable \<times> txn_manager"

definition load_cell :: "('k, 'v) memtable \<Rightarrow> nat \<Rightarrow> vptr res" where
  "load_cell m c = (case mt_cells m c of Some p \<Rightarrow> Inr p | None \<Rightarrow> Inl Undefined)"

definition deref :: "('k, 'v) memtable \<Rightarrow> nat \<Rightarrow> 'v redo_node res" where
  "deref m a = (case mt_heap m a of Some n \<Rightarrow> Inr n | None \<Rightarrow> Inl Undefined)"

definition walk_fuel :: "('k, 'v) memtable \<Rightarrow> nat" where
  "walk_fuel m = Suc (mt_fresh m)"

section \<open>Visibility of a version\<close>

definition check_version_visibility ::
  "txn_manager \<Rightarrow> ('k, 'v) txn \<Rightarrow> timestamp \<Rightarrow> (bool \<times> ('k, 'v) txn) res" where
  "check_version_visibility tm t version_ts =
     (let current_xid = start_timestamp t
      in res_bind (get_snapshot tm t) (\<lambda>(snap, t').
           let version_xid = ts_normalize version_ts
           in if version_xid = current_xid then Inr (True, t')
              else if is_xid_in_progress snap version_xid then Inr (False, t')
              else Inr (get_transaction_status tm version_xid = Committed, t')))"

definition skip_delta ::
  "txn_manager \<Rightarrow> ('k, 'v) txn \<Rightarrow> timestamp \<Rightarrow> (bool \<times> ('k, 'v) txn) res" where
  "skip_delta tm t delta_ts =
     (case ts_type delta_ts of
        Commit \<Rightarrow> Inr (ts_gt delta_ts (start_timestamp t), t)
      | Uncommitted \<Rightarrow> Inr (delta_ts \<noteq> commit_timestamp t, t)
      | _ \<Rightarrow> res_bind (check_version_visibility tm t delta_ts) (\<lambda>(vis, t'). Inr (\<not> vis, t')))"

fun get_value_loop ::
  "nat \<Rightarrow> txn_manager \<Rightarrow> ('k, 'v) memtable \<Rightarrow> vptr \<Rightarrow> ('k, 'v) txn
    \<Rightarrow> ('v option \<times> ('k, 'v) txn) res" where
  "get_value_loop 0 tm m p t = Inl Diverges"
| "get_value_loop (Suc fuel) tm m p t =
     (case ptr_addr p of
        None \<Rightarrow> Inr (None, t)
      | Some a \<Rightarrow>
          res_bind (deref m a) (\<lambda>delta.
          res_bind (skip_delta tm t (node_timestamp delta)) (\<lambda>(skip, t').
            if skip then get_value_loop fuel tm m (node_next delta) t'
            else Inr (record_value (node_record delta), t'))))"

definition get_value ::
  "txn_manager \<Rightarrow> ('k, 'v) memtable \<Rightarrow> nat \<Rightarrow> ('k, 'v) txn
    \<Rightarrow> ('v option \<times> ('k, 'v) txn) res" where
  "get_value tm m c t =
     res_bind (load_cell m c) (\<lambda>p.
       if is_abort p then Inr (None, t) else get_value_loop (walk_fuel m) tm m p t)"

definition mt_get ::
  "txn_manager \<Rightarrow> ('k, 'v) memtable \<Rightarrow> ('k, 'v) txn \<Rightarrow> 'k
    \<Rightarrow> ('v option \<times> ('k, 'v) txn) res" where
  "mt_get tm m t key =
     (case mt_table m key of
        Some c \<Rightarrow> get_value tm m c t
      | None \<Rightarrow> Inr (None, t))"

section \<open>Write conflicts\<close>

definition check_ww_conflict ::
  "txn_manager \<Rightarrow> ('k, 'v) txn \<Rightarrow> timestamp \<Rightarrow> (bool \<times> ('k, 'v) txn) res" where
  "check_ww_conflict tm t version_ts =
     (let commit_ts = commit_timestamp t; start_ts = start_timestamp t;
          other = Inr (ts_is_invalid version_ts \<or>
            (\<not> ts_is_committed version_ts \<and> commit_ts \<noteq> version_ts) \<or>
            (ts_is_committed version_ts \<and> ts_gt version_ts start_ts), t);
          hybrid = res_bind (get_snapshot tm t) (\<lambda>(snap, t').
            let version_xid = ts_normalize version_ts
            in Inr (is_xid_in_progress snap version_xid \<and> version_xid \<noteq> start_ts, t'))
      in case ts_type version_ts of
           Start \<Rightarrow> hybrid
         | StartCommitted \<Rightarrow> hybrid
         | _ \<Rightarrow> other)"

text \<open>The check at the head of every attempt: a null pointer has no version to conflict with.\<close>

definition check_head ::
  "('k, 'v) shared \<Rightarrow> vptr \<Rightarrow> ('k, 'v) txn \<Rightarrow> (bool \<times> ('k, 'v) txn) res" where
  "check_head s p t =
     (case ptr_addr p of
        None \<Rightarrow> Inr (False, t)
      | Some a \<Rightarrow> res_bind (deref (fst s) a)
          (\<lambda>n. check_ww_conflict (snd s) t (node_timestamp n)))"

section \<open>Publishing a node\<close>

type_synonym ('k, 'v) env = "('k, 'v) shared \<Rightarrow> ('k, 'v) shared"

text \<open>
  The outcome of an attempt: \<open>Done\<close> ends the operation, with \<open>Inr None\<close> where the code returns
  \<open>Ok(false)\<close> and \<open>Inr (Some (a, r))\<close> where record \<open>r\<close> was published at address \<open>a\<close>;
  \<open>Retry\<close> is a failed \<open>compare_exchange\<close>.
\<close>

datatype ('k, 'v) attempt =
    Done "('k, 'v) shared" "('k, 'v) txn" "(nat \<times> 'v redo_record) option res"
  | Retry "('k, 'v) shared" "('k, 'v) txn"

definition install :: "nat \<Rightarrow> u64 \<Rightarrow> 'v redo_node \<Rightarrow> ('k, 'v) memtable \<Rightarrow> ('k, 'v) memtable" where
  "install c tag n m =
     m\<lparr>mt_heap := (mt_heap m)(mt_fresh m \<mapsto> n),
       mt_cells := (mt_cells m)(c \<mapsto> VPtr (Some (mt_fresh m)) tag),
       mt_fresh := Suc (mt_fresh m)\<rparr>"

definition cas_publish ::
  "nat \<Rightarrow> vptr \<Rightarrow> u64 \<Rightarrow> 'v redo_node \<Rightarrow> ('k, 'v) env \<Rightarrow> ('k, 'v) shared \<Rightarrow> ('k, 'v) txn
    \<Rightarrow> ('k, 'v) attempt" where
  "cas_publish c p tag redo env s t =
     (let redo' = redo\<lparr>node_next := p\<rparr>; (m, tm) = env s
      in case load_cell m c of
           Inl e \<Rightarrow> Done (m, tm) t (Inl e)
         | Inr now \<Rightarrow>
             if now = p
             then Done (install c tag redo' m, tm) t (Inr (Some (mt_fresh m, node_record redo')))
             else Retry (m, tm) t)"

fun cas_loop ::
  "(('k, 'v) env \<Rightarrow> ('k, 'v) shared \<Rightarrow> ('k, 'v) txn \<Rightarrow> ('k, 'v) attempt)
    \<Rightarrow> ('k, 'v) env list \<Rightarrow> ('k, 'v) shared \<Rightarrow> ('k, 'v) txn
    \<Rightarrow> ('k, 'v) shared \<times> ('k, 'v) txn \<times> (nat \<times> 'v redo_record) option res" where
  "cas_loop att [] s t =
     (case att id s t of
        Done s' t' r \<Rightarrow> (s', t', r)
      | Retry s' t' \<Rightarrow> (s', t', Inl Diverges))"
| "cas_loop att (e # es) s t =
     (case att e s t of
        Done s' t' r \<Rightarrow> (s', t', r)
      | Retry s' t' \<Rightarrow> cas_loop att es s' t')"

text \<open>The tail of \<open>put\<close>, \<open>update\<close> and \<open>delete\<close>: stage the log record, keep the node.\<close>

record ('k, 'v) mt_codec =
  mtc_key :: "'k \<Rightarrow> bytes"
  mtc_value :: "'v \<Rightarrow> bytes"
  mtc_full :: "timestamp \<Rightarrow> 'k log_record \<Rightarrow> bytes"

definition finish_write ::
  "('k, 'v) mt_codec \<Rightarrow> 'k
    \<Rightarrow> ('k, 'v) shared \<times> ('k, 'v) txn \<times> (nat \<times> 'v redo_record) option res
    \<Rightarrow> ('k, 'v) shared \<times> ('k, 'v) txn \<times> bool res" where
  "finish_write cd key out =
     (case out of
        (s, t, Inl e) \<Rightarrow> (s, t, Inl e)
      | (s, t, Inr None) \<Rightarrow> (s, t, Inr False)
      | (s, t, Inr (Some (a, r))) \<Rightarrow>
          let log = (case r of
                Insert v \<Rightarrow> create_put_log (mtc_key cd key) (mtc_value cd v)
              | Delete \<Rightarrow> create_delete_log (mtc_key cd key))
          in (s, add_redo_node key a (stage_log_record (mtc_full cd) log t), Inr True))"

section \<open>Put, update and delete\<close>

definition put_entry :: "'k \<Rightarrow> ('k, 'v) memtable \<Rightarrow> nat \<times> ('k, 'v) memtable" where
  "put_entry key m =
     (case mt_table m key of
        Some c \<Rightarrow> (c, m)
      | None \<Rightarrow>
          (mt_fresh m,
           m\<lparr>mt_cells := (mt_cells m)(mt_fresh m \<mapsto> null_ptr),
             mt_table := (mt_table m)(key \<mapsto> mt_fresh m),
             mt_fresh := Suc (mt_fresh m),
             mt_size := mt_size m + 1\<rparr>))"

definition put_attempt ::
  "'v redo_node \<Rightarrow> nat \<Rightarrow> ('k, 'v) env \<Rightarrow> ('k, 'v) shared \<Rightarrow> ('k, 'v) txn
    \<Rightarrow> ('k, 'v) attempt" where
  "put_attempt redo c env s t =
     (case res_bind (load_cell (fst s) c) (\<lambda>p. map_sum id (Pair p) (check_head s p t)) of
        Inl e \<Rightarrow> Done s t (Inl e)
      | Inr (p, conflict, t') \<Rightarrow>
          if conflict
          then Done s t' (Inl (Err (TransactionAborted ''ww-conflict detected in put()'')))
          else cas_publish c p TAG_PRESENT redo env s t')"

definition mt_put ::
  "('k, 'v) mt_codec \<Rightarrow> ('k, 'v) env list \<Rightarrow> 'k \<Rightarrow> 'v \<Rightarrow> ('k, 'v) shared \<Rightarrow> ('k, 'v) txn
    \<Rightarrow> ('k, 'v) shared \<times> ('k, 'v) txn \<times> bool res" where
  "mt_put cd envs key v s t =
     (let (c, m) = put_entry key (fst s)
      in finish_write cd key (cas_loop (put_attempt (get_insert_redo t v) c) envs (m, snd s) t))"

definition update_attempt ::
  "('v \<Rightarrow> 'v) \<Rightarrow> nat \<Rightarrow> ('k, 'v) env \<Rightarrow> ('k, 'v) shared \<Rightarrow> ('k, 'v) txn
    \<Rightarrow> ('k, 'v) attempt" where
  "update_attempt f c env s t =
     (case res_bind (load_cell (fst s) c) (\<lambda>p. map_sum id (Pair p) (check_head s p t)) of
        Inl e \<Rightarrow> Done s t (Inl e)
      | Inr (p, conflict, t') \<Rightarrow>
          if conflict
          then Done s t' (Inl (Err (TransactionAborted ''ww-conflict detected in update()'')))
          else if \<not> is_present p then Done s t' (Inr None)
          else (case get_value (snd s) (fst s) c t' of
                  Inl e \<Rightarrow> Done s t' (Inl e)
                | Inr (None, t'') \<Rightarrow> Done s t'' (Inr None)
                | Inr (Some v, t'') \<Rightarrow>
                    cas_publish c p TAG_PRESENT (get_insert_redo t'' (f v)) env s t''))"

definition mt_update ::
  "('k, 'v) mt_codec \<Rightarrow> ('k, 'v) env list \<Rightarrow> 'k \<Rightarrow> ('v \<Rightarrow> 'v) \<Rightarrow> ('k, 'v) shared
    \<Rightarrow> ('k, 'v) txn \<Rightarrow> ('k, 'v) shared \<times> ('k, 'v) txn \<times> bool res" where
  "mt_update cd envs key f s t =
     (case mt_table (fst s) key of
        None \<Rightarrow> (s, t, Inr False)
      | Some c \<Rightarrow> finish_write cd key (cas_loop (update_attempt f c) envs s t))"

definition delete_attempt ::
  "'v redo_node \<Rightarrow> nat \<Rightarrow> ('k, 'v) env \<Rightarrow> ('k, 'v) shared \<Rightarrow> ('k, 'v) txn
    \<Rightarrow> ('k, 'v) attempt" where
  "delete_attempt redo c env s t =
     (case res_bind (load_cell (fst s) c) (\<lambda>p. map_sum id (Pair p) (check_head s p t)) of
        Inl e \<Rightarrow> Done s t (Inl e)
      | Inr (p, conflict, t') \<Rightarrow>
          if conflict
          then Done s t' (Inl (Err (TransactionAborted ''ww-conflict detected in delete()'')))
          else if \<not> is_present p then Done s t' (Inr None)
          else cas_publish c p 0 redo env s t')"

definition mt_delete ::
  "('k, 'v) mt_codec \<Rightarrow> ('k, 'v) env list \<Rightarrow> 'k \<Rightarrow> ('k, 'v) shared \<Rightarrow> ('k, 'v) txn
    \<Rightarrow> ('k, 'v) shared \<times> ('k, 'v) txn \<times> bool res" where
  "mt_delete cd envs key s t =
     (case mt_table (fst s) key of
        None \<Rightarrow> (s, t, Inr False)
      | Some c \<Rightarrow> finish_write cd key
          (cas_loop (delete_attempt (get_delete_redo t) c) envs s t))"

section \<open>Rollback\<close>

fun rollback_loop ::
  "nat \<Rightarrow> timestamp \<Rightarrow> nat \<Rightarrow> vptr \<Rightarrow> ('k, 'v) memtable \<Rightarrow> ('k, 'v) memtable res" where
  "rollback_loop 0 commit_ts c p m = Inl Diverges"
| "rollback_loop (Suc fuel) commit_ts c p m =
     (case ptr_addr p of
        None \<Rightarrow> Inr m
      | Some a \<Rightarrow>
          res_bind (deref m a) (\<lambda>delta.
            if node_timestamp delta \<noteq> commit_ts then Inr m
            else let next = node_next delta
                 in rollback_loop fuel commit_ts c next
                      (m\<lparr>mt_cells := (mt_cells m)(c \<mapsto> next),
                         mt_garbage := mt_garbage m @ [a]\<rparr>)))"

definition mt_rollback ::
  "('k, 'v) txn \<Rightarrow> 'k \<Rightarrow> ('k, 'v) memtable \<Rightarrow> ('k, 'v) memtable res" where
  "mt_rollback t key m =
     (case mt_table m key of
        None \<Rightarrow> Inr m
      | Some c \<Rightarrow> res_bind (load_cell m c)
          (\<lambda>p. rollback_loop (walk_fuel m) (commit_timestamp t) c p m))"

end
