(* ===== verification/Mem_Rep.thy ===== *)
theory Mem_Rep
  imports Mem_Table
begin

text \<open>
  The memtable as a map from keys to version lists. \<open>path\<close> says which addresses a chain visits;
  \<open>mt_rep m A\<close> says that the store is well formed and that \<open>A k\<close> lists the addresses of the
  chain of key \<open>k\<close>; \<open>versions m k\<close> is that chain as a list of timestamps and records. Every
  operation of \<open>Mem_Table\<close> is shown to be the corresponding operation on version lists, so
  that the proofs about transactions never look at the store again.
\<close>

section \<open>Chains in the store\<close>

text \<open>
  A chain ends in a null pointer, and the present tag of every pointer on it tells whether the
  record it points to is an insert.
\<close>

fun is_insert :: "'v redo_record \<Rightarrow> bool" where
  "is_insert (Insert v) = True"
| "is_insert Delete = False"

fun path :: "(nat \<rightharpoonup> 'v redo_node) \<Rightarrow> vptr \<Rightarrow> nat list \<Rightarrow> bool" where
  "path h p [] \<longleftrightarrow> ptr_addr p = None \<and> \<not> is_present p"
| "path h p (a # as) \<longleftrightarrow> ptr_addr p = Some a \<and>
     (\<exists>n. h a = Some n \<and> (is_present p \<longleftrightarrow> is_insert (node_record n)) \<and> path h (node_next n) as)"

fun walk :: "nat \<Rightarrow> (nat \<rightharpoonup> 'v redo_node) \<Rightarrow> vptr \<Rightarrow> nat list" where
  "walk 0 h p = []"
| "walk (Suc fuel) h p =
     (case ptr_addr p of
        None \<Rightarrow> []
      | Some a \<Rightarrow> (case h a of None \<Rightarrow> [] | Some n \<Rightarrow> a # walk fuel h (node_next n)))"

lemma path_determ: "path h p as \<Longrightarrow> path h p bs \<Longrightarrow> as = bs"
proof (induction as arbitrary: p bs)
  case Nil
  then show ?case by (cases bs) auto
next
  case (Cons a as)
  then show ?case by (cases bs) auto
qed

lemma path_addr:
  "path h p as \<Longrightarrow> ptr_addr q = ptr_addr p \<Longrightarrow> is_present q = is_present p \<Longrightarrow> path h q as"
  by (cases as) auto

lemma path_in_dom: "path h p as \<Longrightarrow> set as \<subseteq> dom h"
  by (induction as arbitrary: p) auto

lemma path_drop:
  "path h p (as @ a # bs) \<Longrightarrow> \<exists>n. h a = Some n \<and> path h (node_next n) bs"
  by (induction as arbitrary: p) auto

lemma path_distinct: "path h p as \<Longrightarrow> distinct as"
proof (induction as arbitrary: p)
  case (Cons a as)
  then obtain n where n: "h a = Some n" "path h (node_next n) as" by auto
  moreover have "a \<notin> set as"
  proof
    assume "a \<in> set as"
    then obtain us vs where as: "as = us @ a # vs" by (meson split_list)
    with n path_drop have "path h (node_next n) vs" by fastforce
    with n as path_determ have "vs = us @ a # vs" by blast
    then show False by (metis append_Cons append_assoc append_self_conv2 length_append
        list.size(4) add_Suc_right lessI not_add_less2 add.commute)
  qed
  ultimately show ?case using Cons.IH by simp
qed simp

lemma path_cong: "path h p as \<Longrightarrow> (\<And>a. a \<in> set as \<Longrightarrow> h' a = h a) \<Longrightarrow> path h' p as"
  by (induction as arbitrary: p) auto

lemma path_retime:
  "path h p as \<Longrightarrow>
   (\<And>a n. h a = Some n \<Longrightarrow>
      \<exists>n'. h' a = Some n' \<and> node_next n' = node_next n \<and> node_record n' = node_record n) \<Longrightarrow>
   path h' p as"
proof (induction as arbitrary: p)
  case (Cons a as)
  then show ?case by simp metis
qed simp

lemma walk_path: "path h p as \<Longrightarrow> length as < fuel \<Longrightarrow> walk fuel h p = as"
proof (induction as arbitrary: p fuel)
  case Nil
  then show ?case by (cases fuel) auto
next
  case (Cons a as)
  then show ?case by (cases fuel) auto
qed

section \<open>The representation\<close>

definition mt_rep :: "('k, 'v) memtable \<Rightarrow> ('k \<Rightarrow> nat list) \<Rightarrow> bool" where
  "mt_rep m A \<longleftrightarrow>
     (\<forall>a\<in>dom (mt_heap m). a < mt_fresh m) \<and>
     (\<forall>c\<in>dom (mt_cells m). c < mt_fresh m) \<and>
     (\<forall>k c. mt_table m k = Some c \<longrightarrow>
        (\<exists>p. mt_cells m c = Some p \<and> path (mt_heap m) p (A k))) \<and>
     (\<forall>k. mt_table m k = None \<longrightarrow> A k = []) \<and>
     (\<forall>j k c. mt_table m j = Some c \<longrightarrow> mt_table m k = Some c \<longrightarrow> j = k) \<and>
     (\<forall>j k. j \<noteq> k \<longrightarrow> set (A j) \<inter> set (A k) = {})"

definition chain_addrs :: "('k, 'v) memtable \<Rightarrow> 'k \<Rightarrow> nat list" where
  "chain_addrs m k =
     (case mt_table m k of
        None \<Rightarrow> []
      | Some c \<Rightarrow> (case mt_cells m c of
            None \<Rightarrow> []
          | Some p \<Rightarrow> walk (walk_fuel m) (mt_heap m) p))"

definition mt_wf :: "('k, 'v) memtable \<Rightarrow> bool" where
  "mt_wf m \<longleftrightarrow> mt_rep m (chain_addrs m)"

type_synonym 'v version = "timestamp \<times> 'v redo_record"

definition node_version :: "('k, 'v) memtable \<Rightarrow> nat \<Rightarrow> 'v version" where
  "node_version m a = (case mt_heap m a of
     Some n \<Rightarrow> (node_timestamp n, node_record n) | None \<Rightarrow> (ts_default, Delete))"

definition versions :: "('k, 'v) memtable \<Rightarrow> 'k \<Rightarrow> 'v version list" where
  "versions m k = map (node_version m) (chain_addrs m k)"

lemma rep_heap_lt: "\<lbrakk>mt_rep m A; mt_heap m a = Some n\<rbrakk> \<Longrightarrow> a < mt_fresh m"
  unfolding mt_rep_def by blast

lemma rep_cell_lt: "\<lbrakk>mt_rep m A; mt_cells m c = Some p\<rbrakk> \<Longrightarrow> c < mt_fresh m"
  unfolding mt_rep_def by blast

lemma rep_entry:
  "\<lbrakk>mt_rep m A; mt_table m k = Some c\<rbrakk> \<Longrightarrow>
     \<exists>p. mt_cells m c = Some p \<and> path (mt_heap m) p (A k)"
  unfolding mt_rep_def by blast

lemma rep_none: "\<lbrakk>mt_rep m A; mt_table m k = None\<rbrakk> \<Longrightarrow> A k = []"
  unfolding mt_rep_def by blast

lemma rep_inj: "\<lbrakk>mt_rep m A; mt_table m j = Some c; mt_table m k = Some c\<rbrakk> \<Longrightarrow> j = k"
  unfolding mt_rep_def by blast

lemma rep_disj: "\<lbrakk>mt_rep m A; j \<noteq> k\<rbrakk> \<Longrightarrow> set (A j) \<inter> set (A k) = {}"
  unfolding mt_rep_def by blast

lemma mt_repI:
  assumes "\<And>a n. mt_heap m a = Some n \<Longrightarrow> a < mt_fresh m"
    and "\<And>c p. mt_cells m c = Some p \<Longrightarrow> c < mt_fresh m"
    and "\<And>k c. mt_table m k = Some c \<Longrightarrow> \<exists>p. mt_cells m c = Some p \<and> path (mt_heap m) p (A k)"
    and "\<And>k. mt_table m k = None \<Longrightarrow> A k = []"
    and "\<And>j k c. \<lbrakk>mt_table m j = Some c; mt_table m k = Some c\<rbrakk> \<Longrightarrow> j = k"
    and "\<And>j k. j \<noteq> k \<Longrightarrow> set (A j) \<inter> set (A k) = {}"
  shows "mt_rep m A"
  unfolding mt_rep_def using assms by blast

lemma rep_path:
  "\<lbrakk>mt_rep m A; mt_table m k = Some c; mt_cells m c = Some p\<rbrakk> \<Longrightarrow> path (mt_heap m) p (A k)"
  using rep_entry by fastforce

lemma rep_cell: "\<lbrakk>mt_rep m A; mt_table m k = Some c\<rbrakk> \<Longrightarrow> \<exists>p. mt_cells m c = Some p"
  using rep_entry by fastforce

lemma rep_in_heap: "\<lbrakk>mt_rep m A; a \<in> set (A k)\<rbrakk> \<Longrightarrow> \<exists>n. mt_heap m a = Some n"
  using rep_entry [of m A k] rep_none [of m A k] path_in_dom by (cases "mt_table m k") fastforce+

lemma rep_fresh: "\<lbrakk>mt_rep m A; a \<in> set (A k)\<rbrakk> \<Longrightarrow> a < mt_fresh m"
  by (metis rep_heap_lt rep_in_heap)

lemma rep_no_fresh_cell: "mt_rep m A \<Longrightarrow> mt_table m k \<noteq> Some (mt_fresh m)"
  by (metis less_irrefl rep_cell rep_cell_lt)

lemma rep_distinct: "mt_rep m A \<Longrightarrow> distinct (A k)"
  using rep_entry [of m A k] rep_none [of m A k] path_distinct
  by (cases "mt_table m k") fastforce+

lemma rep_length: "mt_rep m A \<Longrightarrow> length (A k) \<le> mt_fresh m"
proof -
  assume r: "mt_rep m A"
  have "card (set (A k)) \<le> card {..<mt_fresh m}"
    using rep_fresh [OF r] by (intro card_mono) auto
  then show ?thesis using rep_distinct [OF r, of k] by (simp add: distinct_card)
qed

lemma rep_chain: "mt_rep m A \<Longrightarrow> A = chain_addrs m"
proof
  fix k
  assume r: "mt_rep m A"
  show "A k = chain_addrs m k"
  proof (cases "mt_table m k")
    case None
    with rep_none [OF r] show ?thesis by (simp add: chain_addrs_def)
  next
    case (Some c)
    with rep_entry [OF r] obtain p where p: "mt_cells m c = Some p" "path (mt_heap m) p (A k)"
      by blast
    with Some rep_length [OF r, of k] show ?thesis
      by (simp add: chain_addrs_def walk_fuel_def walk_path del: walk.simps)
  qed
qed

lemma rep_wf: "mt_rep m A \<Longrightarrow> mt_wf m"
  using rep_chain [of m A] by (simp add: mt_wf_def)

lemma rep_versions: "mt_rep m A \<Longrightarrow> versions m k = map (node_version m) (A k)"
  using rep_chain [of m A] by (simp add: versions_def)

lemma mt_wf_new: "mt_wf memtable_new"
  by (rule rep_wf [of _ "\<lambda>_. []"]) (simp add: mt_rep_def memtable_new_def)

text \<open>A change of a node that keeps its record and its successor keeps every chain.\<close>

lemma node_update_rep:
  assumes "mt_wf m" and "mt_heap m a = Some r"
    and "node_next r' = node_next r" and "node_record r' = node_record r"
  defines "m' \<equiv> m\<lparr>mt_heap := (mt_heap m)(a \<mapsto> r')\<rparr>"
  shows "mt_wf m'" and "chain_addrs m' = chain_addrs m"
    and "node_version m' b = (if b = a then (node_timestamp r', node_record r) else node_version m b)"
proof -
  have r: "mt_rep m (chain_addrs m)" using assms(1) by (simp add: mt_wf_def)
  have "mt_rep m' (chain_addrs m)"
  proof (rule mt_repI)
    show "\<And>b n. mt_heap m' b = Some n \<Longrightarrow> b < mt_fresh m'"
      using rep_heap_lt [OF r] assms(2) by (auto simp: m'_def split: if_splits)
    show "\<And>c p. mt_cells m' c = Some p \<Longrightarrow> c < mt_fresh m'"
      using rep_cell_lt [OF r] by (simp add: m'_def)
    show "\<exists>p. mt_cells m' c = Some p \<and> path (mt_heap m') p (chain_addrs m k)"
      if "mt_table m' k = Some c" for k c
    proof -
      from that have "mt_table m k = Some c" by (simp add: m'_def)
      with rep_entry [OF r] obtain p where p: "mt_cells m c = Some p"
        "path (mt_heap m) p (chain_addrs m k)" by blast
      have "path (mt_heap m') p (chain_addrs m k)"
        using p(2) by (rule path_retime) (auto simp: m'_def assms(2-4))
      with p(1) show ?thesis by (simp add: m'_def)
    qed
    show "\<And>k. mt_table m' k = None \<Longrightarrow> chain_addrs m k = []"
      using rep_none [OF r] by (simp add: m'_def)
    show "\<And>j k c. \<lbrakk>mt_table m' j = Some c; mt_table m' k = Some c\<rbrakk> \<Longrightarrow> j = k"
      using rep_inj [OF r] by (simp add: m'_def)
    show "\<And>j k. j \<noteq> k \<Longrightarrow> set (chain_addrs m j) \<inter> set (chain_addrs m k) = {}"
      by (rule rep_disj [OF r])
  qed
  then show "mt_wf m'" "chain_addrs m' = chain_addrs m"
    using rep_wf rep_chain by (blast, metis)
  show "node_version m' b = (if b = a then (node_timestamp r', node_record r) else node_version m b)"
    using assms(4) by (simp add: node_version_def m'_def)
qed

text \<open>A chain cut behind one of its nodes.\<close>

lemma path_cut:
  "\<lbrakk>path h p (us @ a # ws); h a = Some n\<rbrakk> \<Longrightarrow>
     path (h(a \<mapsto> n\<lparr>node_next := null_ptr\<rparr>)) p (us @ [a])"
proof (induction us arbitrary: p)
  case Nil
  then show ?case by auto
next
  case (Cons u us)
  have "u \<noteq> a" using path_distinct [OF Cons.prems(1)] by auto
  with Cons show ?case by auto
qed

lemma cut_rep:
  assumes r: "mt_rep m A" and A: "A k = us @ a # ws" and n: "mt_heap m a = Some n"
  shows "mt_rep (m\<lparr>mt_heap := (mt_heap m)(a \<mapsto> n\<lparr>node_next := null_ptr\<rparr>), mt_garbage := g\<rparr>)
    (A(k := us @ [a]))" (is "mt_rep ?m ?A")
proof (rule mt_repI)
  show "\<And>b x. mt_heap ?m b = Some x \<Longrightarrow> b < mt_fresh ?m"
    using rep_heap_lt [OF r] n by (auto split: if_splits)
  show "\<And>c p. mt_cells ?m c = Some p \<Longrightarrow> c < mt_fresh ?m"
    using rep_cell_lt [OF r] by simp
  show "\<exists>p. mt_cells ?m c = Some p \<and> path (mt_heap ?m) p (?A j)" if c: "mt_table ?m j = Some c" for j c
  proof -
    from c rep_entry [OF r, of j c] obtain p where p: "mt_cells m c = Some p"
      "path (mt_heap m) p (A j)" by auto
    have "path (mt_heap ?m) p (?A j)"
    proof (cases "j = k")
      case True
      with p A n path_cut show ?thesis by fastforce
    next
      case False
      have "a \<notin> set (A j)" using rep_disj [OF r False] A by auto
      then have "path ((mt_heap m)(a \<mapsto> n\<lparr>node_next := null_ptr\<rparr>)) p (A j)"
        using p(2) by (intro path_cong [OF p(2)]) auto
      with False show ?thesis by simp
    qed
    with p show ?thesis by simp
  qed
  show "\<And>j. mt_table ?m j = None \<Longrightarrow> ?A j = []"
    using rep_none [OF r] A by fastforce
  show "\<And>i j c. \<lbrakk>mt_table ?m i = Some c; mt_table ?m j = Some c\<rbrakk> \<Longrightarrow> i = j"
    using rep_inj [OF r] by simp
  have sub: "set (?A i) \<subseteq> set (A i)" for i using A by auto
  show "set (?A i) \<inter> set (?A j) = {}" if "i \<noteq> j" for i j
    using rep_disj [OF r that] sub [of i] sub [of j] by blast
qed

lemma remove_entry_rep:
  assumes r: "mt_rep m A" and c: "mt_table m k = Some c"
  shows "mt_rep (m\<lparr>mt_cells := (mt_cells m)(c \<mapsto> q), mt_table := (mt_table m)(k := None),
    mt_size := sz, mt_garbage := g\<rparr>) (A(k := []))" (is "mt_rep ?m ?A")
proof (rule mt_repI)
  obtain p where p: "mt_cells m c = Some p" using rep_cell [OF r c] by blast
  show "\<And>b x. mt_heap ?m b = Some x \<Longrightarrow> b < mt_fresh ?m" using rep_heap_lt [OF r] by simp
  show "\<And>d x. mt_cells ?m d = Some x \<Longrightarrow> d < mt_fresh ?m"
    using rep_cell_lt [OF r] p by (auto split: if_splits)
  show "\<exists>p. mt_cells ?m d = Some p \<and> path (mt_heap ?m) p (?A j)" if d: "mt_table ?m j = Some d" for j d
  proof -
    from d have j: "j \<noteq> k" "mt_table m j = Some d" by (auto split: if_splits)
    with rep_inj [OF r, of j d k] c have "d \<noteq> c" by auto
    with j rep_entry [OF r, of j d] show ?thesis by auto
  qed
  show "\<And>j. mt_table ?m j = None \<Longrightarrow> ?A j = []"
    using rep_none [OF r] by (auto split: if_splits)
  show "\<And>i j d. \<lbrakk>mt_table ?m i = Some d; mt_table ?m j = Some d\<rbrakk> \<Longrightarrow> i = j"
    using rep_inj [OF r] by (auto split: if_splits)
  show "\<And>i j. i \<noteq> j \<Longrightarrow> set (?A i) \<inter> set (?A j) = {}"
    using rep_disj [OF r] by auto
qed

section \<open>Reading\<close>

text \<open>The value a transaction reads from a version list: the first version not skipped.\<close>

fun scan :: "txn_manager \<Rightarrow> ('k, 'v) txn \<Rightarrow> 'v version list \<Rightarrow> ('v option \<times> ('k, 'v) txn) res"
where
  "scan tm t [] = Inr (None, t)"
| "scan tm t ((ts, r) # vs) =
     res_bind (skip_delta tm t ts) (\<lambda>(skip, t').
       if skip then scan tm t' vs else Inr (record_value r, t'))"

lemma get_value_loop_scan:
  "\<lbrakk>path (mt_heap m) p as; length as < fuel\<rbrakk> \<Longrightarrow>
     get_value_loop fuel tm m p t = scan tm t (map (node_version m) as)"
proof (induction as arbitrary: p fuel t)
  case Nil
  then show ?case by (cases fuel) auto
next
  case (Cons a as)
  then obtain f n where f: "fuel = Suc f" and n: "mt_heap m a = Some n"
    "path (mt_heap m) (node_next n) as" "ptr_addr p = Some a"
    by (cases fuel) auto
  with Cons have IH: "get_value_loop f tm m (node_next n) t' = scan tm t' (map (node_version m) as)"
    for t' by simp
  have "node_version m a = (node_timestamp n, node_record n)" using n by (simp add: node_version_def)
  then show ?case
    using f n IH by (cases "skip_delta tm t (node_timestamp n)") (auto simp: deref_def)
qed

lemma get_value_scan:
  assumes "mt_rep m A" and "mt_table m k = Some c" and "mt_cells m c = Some p"
  shows "get_value tm m c t = (if is_abort p then Inr (None, t) else scan tm t (versions m k))"
  using assms get_value_loop_scan [OF rep_path [OF assms], of "walk_fuel m" tm t]
    rep_length [OF assms(1), of k]
  by (simp add: get_value_def load_cell_def rep_versions walk_fuel_def del: get_value_loop.simps)

text \<open>An entry whose pointer carries the abort tag is being removed by the collector.\<close>

definition entry_dead :: "('k, 'v) memtable \<Rightarrow> 'k \<Rightarrow> bool" where
  "entry_dead m k = (case mt_table m k of
     Some c \<Rightarrow> (case mt_cells m c of Some p \<Rightarrow> is_abort p | None \<Rightarrow> False) | None \<Rightarrow> False)"

text \<open>No pointer of the store carries the abort tag: the collector is not at work.\<close>

definition no_abort :: "('k, 'v) memtable \<Rightarrow> bool" where
  "no_abort m \<longleftrightarrow> (\<forall>c p. mt_cells m c = Some p \<longrightarrow> \<not> is_abort p) \<and>
     (\<forall>a n. mt_heap m a = Some n \<longrightarrow> \<not> is_abort (node_next n))"

lemma no_abort_live: "no_abort m \<Longrightarrow> \<not> entry_dead m k"
  by (auto simp: no_abort_def entry_dead_def split: option.splits)

lemma no_abort_put_entry: "put_entry k m = (c, m') \<Longrightarrow> no_abort m \<Longrightarrow> no_abort m'"
  by (auto simp: put_entry_def no_abort_def is_abort_def null_ptr_def tag_truncate_def
      split: option.splits if_splits)

lemma no_abort_install:
  "\<lbrakk>no_abort m; mt_cells m c = Some (node_next n); \<not> is_abort (VPtr (Some (mt_fresh m)) tag)\<rbrakk> \<Longrightarrow>
     no_abort (install c tag n m)"
  by (auto simp: no_abort_def install_def)

lemma no_abort_rollback_loop:
  "\<lbrakk>rollback_loop fuel ts c p m = Inr m'; no_abort m\<rbrakk> \<Longrightarrow> no_abort m'"
proof (induction fuel arbitrary: p m)
  case (Suc fuel)
  show ?case
  proof (cases "ptr_addr p")
    case None
    with Suc.prems show ?thesis by simp
  next
    case (Some a)
    show ?thesis
    proof (cases "mt_heap m a")
      case None
      with Some Suc.prems show ?thesis by (simp add: deref_def)
    next
      case n: (Some n)
      let ?m = "m\<lparr>mt_cells := (mt_cells m)(c \<mapsto> node_next n), mt_garbage := mt_garbage m @ [a]\<rparr>"
      have "no_abort ?m" using Suc.prems(2) n by (auto simp: no_abort_def)
      with Suc.IH [of "node_next n" ?m] Suc.prems Some n show ?thesis
        by (auto simp: deref_def Let_def split: if_splits)
    qed
  qed
qed simp

lemma no_abort_rollback: "\<lbrakk>mt_rollback t k m = Inr m'; no_abort m\<rbrakk> \<Longrightarrow> no_abort m'"
  by (auto simp: mt_rollback_def load_cell_def split: option.splits dest: no_abort_rollback_loop)

lemma mt_get_scan:
  assumes "mt_wf m"
  shows "mt_get tm m t k = (if entry_dead m k then Inr (None, t) else scan tm t (versions m k))"
proof (cases "mt_table m k")
  case None
  then show ?thesis by (simp add: mt_get_def versions_def chain_addrs_def entry_dead_def)
next
  case (Some c)
  then obtain p where p: "mt_cells m c = Some p"
    using assms rep_cell [of m "chain_addrs m" k c] unfolding mt_wf_def by blast
  show ?thesis
    using get_value_scan [OF assms [unfolded mt_wf_def] Some p] Some p
    by (simp add: mt_get_def entry_dead_def)
qed

section \<open>Writing\<close>

lemma put_entry_rep:
  assumes "mt_rep m A" and "put_entry k m = (c, m')"
  shows "mt_rep m' A" and "mt_table m' k = Some c"
    and "\<And>j. versions m' j = versions m j" and "\<And>j. entry_dead m' j = entry_dead m j"
proof -
  show t: "mt_table m' k = Some c"
    using assms(2) by (auto simp: put_entry_def split: option.splits)
  show r: "mt_rep m' A"
  proof (cases "mt_table m k")
    case (Some d)
    with assms show ?thesis by (simp add: put_entry_def)
  next
    case None
    with assms have m': "c = mt_fresh m"
      "m' = m\<lparr>mt_cells := (mt_cells m)(mt_fresh m \<mapsto> null_ptr),
             mt_table := (mt_table m)(k \<mapsto> mt_fresh m),
             mt_fresh := Suc (mt_fresh m), mt_size := mt_size m + 1\<rparr>"
      by (auto simp: put_entry_def)
    show ?thesis
    proof (rule mt_repI)
      show "\<And>a n. mt_heap m' a = Some n \<Longrightarrow> a < mt_fresh m'"
        using rep_heap_lt [OF assms(1)] by (simp add: m' less_SucI)
      show "\<And>d p. mt_cells m' d = Some p \<Longrightarrow> d < mt_fresh m'"
        using rep_cell_lt [OF assms(1)] by (auto simp: m' less_SucI split: if_splits)
      show "\<exists>p. mt_cells m' d = Some p \<and> path (mt_heap m') p (A j)"
        if "mt_table m' j = Some d" for j d
        using that rep_entry [OF assms(1), of j d] rep_none [OF assms(1) None]
          rep_no_fresh_cell [OF assms(1), of j] by (auto simp: m' split: if_splits)
      show "\<And>j. mt_table m' j = None \<Longrightarrow> A j = []"
        using rep_none [OF assms(1)] by (auto simp: m' split: if_splits)
      show "\<And>i j d. \<lbrakk>mt_table m' i = Some d; mt_table m' j = Some d\<rbrakk> \<Longrightarrow> i = j"
        using rep_inj [OF assms(1)] rep_no_fresh_cell [OF assms(1)]
        by (auto simp: m' split: if_splits)
      show "\<And>i j. i \<noteq> j \<Longrightarrow> set (A i) \<inter> set (A j) = {}"
        using rep_disj [OF assms(1)] .
    qed
  qed
  have "mt_heap m' = mt_heap m"
    using assms(2) by (auto simp: put_entry_def split: option.splits)
  then show "versions m' j = versions m j" for j
    using r assms(1) by (simp add: rep_versions node_version_def)
  have fr: "mt_table m j \<noteq> Some (mt_fresh m)" for j
    using rep_no_fresh_cell [OF assms(1)] .
  show "entry_dead m' j = entry_dead m j" for j
  proof (cases "mt_table m k = None \<and> j = k")
    case True
    with assms(2) show ?thesis by (auto simp: put_entry_def entry_dead_def)
  next
    case False
    with assms(2) fr [of j] show ?thesis
      by (cases "mt_table m k"; cases "mt_table m j") (auto simp: put_entry_def entry_dead_def)
  qed
qed

text \<open>Publishing a node on a cell pushes one version on the list of the cell's key.\<close>

lemma install_rep:
  assumes r: "mt_rep m A" and k: "mt_table m k = Some c"
    and p: "mt_cells m c = Some p" and n: "node_next n = p"
    and tag: "is_present (VPtr (Some (mt_fresh m)) tag) \<longleftrightarrow> is_insert (node_record n)"
  shows "mt_rep (install c tag n m) (A(k := mt_fresh m # A k))"
    and "versions (install c tag n m) k = (node_timestamp n, node_record n) # versions m k"
    and "\<And>j. j \<noteq> k \<Longrightarrow> versions (install c tag n m) j = versions m j"
proof -
  let ?m = "install c tag n m" and ?A = "A(k := mt_fresh m # A k)"
  have old: "a \<in> set (A j) \<Longrightarrow> mt_heap ?m a = mt_heap m a" for a j
    using rep_fresh [OF r, of a j] by (auto simp: install_def)
  have new: "mt_fresh m \<notin> set (A j)" for j
    using rep_fresh [OF r, of "mt_fresh m" j] by auto
  have pk: "path (mt_heap ?m) p (A k)"
    using rep_path [OF r k p] old by (auto intro: path_cong)
  have paths: "\<exists>q. mt_cells ?m d = Some q \<and> path (mt_heap ?m) q (?A j)"
    if d: "mt_table ?m j = Some d" for j d
  proof (cases "j = k")
    case True
    with d k pk n tag show ?thesis by (simp add: install_def)
  next
    case False
    from d have d': "mt_table m j = Some d" by (simp add: install_def)
    with rep_entry [OF r] obtain q where q: "mt_cells m d = Some q" "path (mt_heap m) q (A j)"
      by blast
    have "d \<noteq> c" using False rep_inj [OF r d'] k by blast
    with False q old show ?thesis by (auto simp: install_def intro: path_cong)
  qed
  show r': "mt_rep ?m ?A"
  proof (rule mt_repI)
    show "\<And>a n. mt_heap ?m a = Some n \<Longrightarrow> a < mt_fresh ?m"
      using rep_heap_lt [OF r] by (auto simp: install_def less_SucI split: if_splits)
    show "\<And>d q. mt_cells ?m d = Some q \<Longrightarrow> d < mt_fresh ?m"
      using rep_cell_lt [OF r] rep_cell_lt [OF r p] by (auto simp: install_def less_SucI split: if_splits)
    show "\<And>j d. mt_table ?m j = Some d \<Longrightarrow> \<exists>q. mt_cells ?m d = Some q \<and> path (mt_heap ?m) q (?A j)"
      by (rule paths)
    show "\<And>j. mt_table ?m j = None \<Longrightarrow> ?A j = []"
      using k rep_none [OF r] by (auto simp: install_def)
    show "\<And>i j d. \<lbrakk>mt_table ?m i = Some d; mt_table ?m j = Some d\<rbrakk> \<Longrightarrow> i = j"
      using rep_inj [OF r] by (simp add: install_def)
    show "\<And>i j. i \<noteq> j \<Longrightarrow> set (?A i) \<inter> set (?A j) = {}"
      using rep_disj [OF r] new by auto
  qed
  have ver: "map (node_version ?m) (A j) = map (node_version m) (A j)" for j
    using old by (auto simp: node_version_def)
  show "versions ?m k = (node_timestamp n, node_record n) # versions m k"
    using r r' ver by (simp add: rep_versions node_version_def install_def)
  show "versions ?m j = versions m j" if "j \<noteq> k" for j
    using r r' ver that by (simp add: rep_versions)
qed

section \<open>Rolling back\<close>

text \<open>Unlinking the head of a chain.\<close>

lemma unlink_rep:
  assumes r: "mt_rep m A" and k: "mt_table m k = Some c"
    and p: "mt_cells m c = Some p" "ptr_addr p = Some a" and n: "mt_heap m a = Some n"
  defines "m' \<equiv> m\<lparr>mt_cells := (mt_cells m)(c \<mapsto> node_next n), mt_garbage := mt_garbage m @ [a]\<rparr>"
  shows "mt_rep m' (A(k := tl (A k)))" and "A k = a # tl (A k)"
proof -
  have pa: "path (mt_heap m) p (A k)" using rep_path [OF r k p(1)] .
  then show hd: "A k = a # tl (A k)" using p(2) by (cases "A k") auto
  then have nx: "path (mt_heap m) (node_next n) (tl (A k))"
    using pa n by (metis option.inject path.simps(2))
  have other: "mt_table m j = Some d \<Longrightarrow> j \<noteq> k \<Longrightarrow> d \<noteq> c" for j d
    using k rep_inj [OF r] by blast
  have sub: "set (tl (A k)) \<subseteq> set (A k)" by (metis hd set_subset_Cons)
  show "mt_rep m' (A(k := tl (A k)))"
  proof (rule mt_repI)
    show "\<And>a n. mt_heap m' a = Some n \<Longrightarrow> a < mt_fresh m'"
      using rep_heap_lt [OF r] by (simp add: m'_def)
    show "\<And>d q. mt_cells m' d = Some q \<Longrightarrow> d < mt_fresh m'"
      using rep_cell_lt [OF r] rep_cell_lt [OF r p(1)] by (auto simp: m'_def split: if_splits)
    show "\<exists>q. mt_cells m' d = Some q \<and> path (mt_heap m') q ((A(k := tl (A k))) j)"
      if "mt_table m' j = Some d" for j d
      using that rep_entry [OF r, of j d] nx k other [of j d] by (auto simp: m'_def)
    show "\<And>j. mt_table m' j = None \<Longrightarrow> (A(k := tl (A k))) j = []"
      using k rep_none [OF r] by (auto simp: m'_def)
    show "\<And>i j d. \<lbrakk>mt_table m' i = Some d; mt_table m' j = Some d\<rbrakk> \<Longrightarrow> i = j"
      using rep_inj [OF r] by (simp add: m'_def)
    show "set ((A(k := tl (A k))) i) \<inter> set ((A(k := tl (A k))) j) = {}" if "i \<noteq> j" for i j
      using rep_disj [OF r that] sub by (auto split: if_splits)
  qed
qed

lemma rollback_loop_rep:
  assumes "mt_rep m A" and "mt_table m k = Some c" and "mt_cells m c = Some p"
    and "length (A k) < fuel"
  shows "\<exists>m' B. rollback_loop fuel ts c p m = Inr m' \<and> mt_rep m' B \<and>
    mt_heap m' = mt_heap m \<and> mt_table m' = mt_table m \<and> mt_fresh m' = mt_fresh m \<and>
    (\<forall>j. j \<noteq> k \<longrightarrow> B j = A j) \<and>
    B k = dropWhile (\<lambda>a. fst (node_version m a) = ts) (A k)"
  using assms
proof (induction "A k" arbitrary: A m p fuel)
  case Nil
  from Nil.prems rep_path [OF Nil.prems(1-3)] Nil.hyps have "ptr_addr p = None" by simp
  moreover obtain f where "fuel = Suc f" using Nil.prems by (cases fuel) auto
  ultimately show ?case using Nil by force
next
  case (Cons a as)
  note pa = rep_path [OF Cons.prems(1-3)]
  with Cons.hyps(2) have pa': "path (mt_heap m) p (a # as)" by simp
  then obtain n where n: "ptr_addr p = Some a" "mt_heap m a = Some n" by auto
  obtain f where f: "fuel = Suc f" using Cons.prems by (cases fuel) auto
  show ?case
  proof (cases "node_timestamp n = ts")
    case False
    have "dropWhile (\<lambda>a. fst (node_version m a) = ts) (A k) = A k"
      using False n by (simp add: Cons.hyps(2) [symmetric] node_version_def)
    with False f n Cons.prems show ?thesis by (force simp: deref_def)
  next
    case True
    let ?m = "m\<lparr>mt_cells := (mt_cells m)(c \<mapsto> node_next n), mt_garbage := mt_garbage m @ [a]\<rparr>"
    let ?A = "A(k := tl (A k))"
    have r': "mt_rep ?m ?A"
      by (rule unlink_rep [OF Cons.prems(1-3) n(1) n(2)])
    have "as = ?A k" using Cons.hyps(2) [symmetric] by simp
    moreover have "length (?A k) < f"
      using Cons.prems(4) f by (simp add: Cons.hyps(2) [symmetric])
    ultimately obtain m' B where IH: "rollback_loop f ts c (node_next n) ?m = Inr m'"
      "mt_rep m' B" "mt_heap m' = mt_heap ?m" "mt_table m' = mt_table ?m" "mt_fresh m' = mt_fresh ?m"
      "\<forall>j. j \<noteq> k \<longrightarrow> B j = ?A j" "B k = dropWhile (\<lambda>a. fst (node_version ?m a) = ts) (?A k)"
      using Cons.hyps(1) [of ?A ?m "node_next n" f] r' Cons.prems(2) by auto
    have "rollback_loop fuel ts c p m = Inr m'"
      using f n True IH(1) by (simp add: deref_def Let_def)
    moreover have "B k = dropWhile (\<lambda>a. fst (node_version m a) = ts) (A k)"
      using IH(7) n True by (simp add: Cons.hyps(2) [symmetric] node_version_def)
    ultimately show ?thesis using IH by auto
  qed
qed

text \<open>Rolling a key back drops the leading versions that carry the transaction's timestamp.\<close>

lemma mt_rollback_versions:
  assumes "mt_wf m"
  shows "\<exists>m'. mt_rollback t k m = Inr m' \<and> mt_wf m' \<and>
    mt_heap m' = mt_heap m \<and> mt_table m' = mt_table m \<and> mt_fresh m' = mt_fresh m \<and>
    (\<forall>j. j \<noteq> k \<longrightarrow> versions m' j = versions m j \<and> chain_addrs m' j = chain_addrs m j) \<and>
    versions m' k = dropWhile (\<lambda>v. fst v = commit_timestamp t) (versions m k) \<and>
    chain_addrs m' k =
      dropWhile (\<lambda>a. fst (node_version m a) = commit_timestamp t) (chain_addrs m k)"
proof (cases "mt_table m k")
  case None
  then have "versions m k = []" "chain_addrs m k = []" by (simp_all add: versions_def chain_addrs_def)
  with None assms show ?thesis by (simp add: mt_rollback_def)
next
  case (Some c)
  have r: "mt_rep m (chain_addrs m)" using assms by (simp add: mt_wf_def)
  obtain p where p: "mt_cells m c = Some p" using rep_cell [OF r Some] by blast
  obtain m' B where *: "rollback_loop (walk_fuel m) (commit_timestamp t) c p m = Inr m'"
    "mt_rep m' B" "mt_heap m' = mt_heap m" "mt_table m' = mt_table m" "mt_fresh m' = mt_fresh m"
    "\<forall>j. j \<noteq> k \<longrightarrow> B j = chain_addrs m j"
    "B k = dropWhile (\<lambda>a. fst (node_version m a) = commit_timestamp t) (chain_addrs m k)"
    using rollback_loop_rep [OF r Some p, of "walk_fuel m" "commit_timestamp t"]
      rep_length [OF r, of k] by (auto simp: walk_fuel_def)
  have ver: "node_version m' = node_version m" by (simp add: fun_eq_iff node_version_def *(3))
  have B: "B = chain_addrs m'" using *(2) by (rule rep_chain)
  have "versions m' k = dropWhile (\<lambda>v. fst v = commit_timestamp t) (versions m k)"
    using *(7) by (simp add: versions_def ver B [symmetric] dropWhile_map o_def)
  moreover have "\<forall>j. j \<noteq> k \<longrightarrow> versions m' j = versions m j"
    using *(6) B by (simp add: versions_def ver)
  ultimately show ?thesis
    using * Some p B rep_wf [OF *(2)] by (simp add: mt_rollback_def load_cell_def)
qed

end
