(* ===== verification/Mem_Ops.thy ===== *)
theory Mem_Ops
  imports Mem_Rep
begin

text \<open>
  What \<open>put\<close>, \<open>update\<close>, \<open>delete\<close> and \<open>rollback\<close> do to the version lists, branch by branch:
  a write that meets no conflict pushes one version, every other outcome leaves all version
  lists as they were.
\<close>

section \<open>The effect of a write\<close>

definition written ::
  "('k, 'v) memtable \<Rightarrow> 'k \<Rightarrow> 'v version \<Rightarrow> nat \<Rightarrow> ('k, 'v) memtable \<Rightarrow> bool" where
  "written m k v a m' \<longleftrightarrow>
     mt_wf m' \<and> versions m' k = v # versions m k \<and> chain_addrs m' k = a # chain_addrs m k \<and>
     (\<forall>j. j \<noteq> k \<longrightarrow> versions m' j = versions m j \<and> chain_addrs m' j = chain_addrs m j \<and>
        entry_dead m' j = entry_dead m j) \<and>
     \<not> entry_dead m' k \<and> mt_heap m a = None \<and> (\<forall>b. b \<noteq> a \<longrightarrow> mt_heap m' b = mt_heap m b) \<and>
     mt_garbage m' = mt_garbage m \<and> (no_abort m \<longrightarrow> no_abort m') \<and>
     (\<forall>j c. mt_table m j = Some c \<longrightarrow> mt_table m' j = Some c)"

definition keep_node ::
  "('k, 'v) mt_codec \<Rightarrow> 'k \<Rightarrow> nat \<Rightarrow> 'v redo_record \<Rightarrow> ('k, 'v) txn \<Rightarrow> ('k, 'v) txn" where
  "keep_node cd k a r t =
     add_redo_node k a (stage_log_record (mtc_full cd)
       (case r of Insert v \<Rightarrow> create_put_log (mtc_key cd k) (mtc_value cd v)
        | Delete \<Rightarrow> create_delete_log (mtc_key cd k)) t)"

lemma keep_node_fields [simp]:
  "txn_mode (keep_node cd k a r t) = txn_mode t"
  "start_timestamp (keep_node cd k a r t) = start_timestamp t"
  "commit_timestamp (keep_node cd k a r t) = commit_timestamp t"
  "current_snapshot (keep_node cd k a r t) = current_snapshot t"
  "is_readonly (keep_node cd k a r t) = False"
  "redo_nodes (keep_node cd k a r t) =
     redo_nodes t @ (if is_fast_commit t then [] else [(k, a)])"
  by (auto simp: keep_node_def add_redo_node_def stage_log_record_def Let_def is_fast_commit_def)

text \<open>The conflict check of a writer, on the version list.\<close>

definition head_check ::
  "txn_manager \<Rightarrow> ('k, 'v) txn \<Rightarrow> 'v version list \<Rightarrow> (bool \<times> ('k, 'v) txn) res" where
  "head_check tm t vs = (case vs of [] \<Rightarrow> Inr (False, t) | v # _ \<Rightarrow> check_ww_conflict tm t (fst v))"

lemma chain_head:
  assumes "mt_rep m A" and "mt_table m k = Some c" and "mt_cells m c = Some p"
  shows "check_head (m, tm) p t = head_check tm t (versions m k)"
    and "is_present p \<longleftrightarrow> (\<exists>ts v vs. versions m k = (ts, Insert v) # vs)"
proof -
  have path: "path (mt_heap m) p (A k)" using rep_path [OF assms] .
  show "check_head (m, tm) p t = head_check tm t (versions m k)"
    using path
    by (cases "A k")
       (auto simp: check_head_def head_check_def rep_versions [OF assms(1)] deref_def
         node_version_def)
  have ins: "is_insert r \<longleftrightarrow> (\<exists>v. r = Insert v)" for r :: "'v redo_record"
    by (cases r) auto
  show "is_present p \<longleftrightarrow> (\<exists>ts v vs. versions m k = (ts, Insert v) # vs)"
    using path
    by (cases "A k") (auto simp: rep_versions [OF assms(1)] node_version_def ins)
qed

lemma wf_cell:
  "\<lbrakk>mt_wf m; mt_table m k = Some c\<rbrakk> \<Longrightarrow> \<exists>p. mt_cells m c = Some p"
  using rep_cell [of m "chain_addrs m" k c] by (simp add: mt_wf_def)

lemma install_written:
  assumes "mt_wf m" and "mt_table m k = Some c" and "mt_cells m c = Some p"
    and "is_present (VPtr (Some (mt_fresh m)) tag) \<longleftrightarrow> is_insert (node_record n)"
    and "\<not> is_abort (VPtr (Some (mt_fresh m)) tag)" and "node_next n = p"
  shows "written m k (node_timestamp n, node_record n) (mt_fresh m) (install c tag n m)"
proof -
  let ?m = "install c tag n m"
  have r: "mt_rep m (chain_addrs m)" using assms(1) by (simp add: mt_wf_def)
  note i = install_rep [OF r assms(2,3,6,4)]
  have ca: "chain_addrs ?m = (chain_addrs m)(k := mt_fresh m # chain_addrs m k)"
    using rep_chain [OF i(1)] by simp
  have "mt_heap m (mt_fresh m) = None"
    using rep_heap_lt [OF r, of "mt_fresh m"] by (cases "mt_heap m (mt_fresh m)") auto
  moreover have "entry_dead ?m j = entry_dead m j" if "j \<noteq> k" for j
  proof -
    have "mt_table m j \<noteq> Some c" using rep_inj [OF r _ assms(2)] that by blast
    then show ?thesis
      by (cases "mt_table m j") (simp_all add: entry_dead_def install_def)
  qed
  moreover have "\<not> entry_dead ?m k"
    using assms by (simp add: entry_dead_def install_def)
  moreover have "no_abort m \<Longrightarrow> no_abort ?m"
    using assms by (intro no_abort_install) simp_all
  ultimately show ?thesis
    using rep_wf [OF i(1)] i(2,3) by (simp add: written_def ca) (simp add: install_def)
qed

lemma publish_alone:
  assumes "mt_cells m c = Some p"
  shows "cas_publish c p tag redo id (m, tm) t =
    Done (install c tag (redo\<lparr>node_next := p\<rparr>) m, tm) t (Inr (Some (mt_fresh m, node_record redo)))"
  using assms by (simp add: cas_publish_def load_cell_def)

section \<open>Put\<close>

lemma put_entry_wf:
  assumes "mt_wf m" and "put_entry k m = (c, m0)"
  shows "mt_wf m0" and "mt_table m0 k = Some c" and "versions m0 j = versions m j"
    and "chain_addrs m0 j = chain_addrs m j" and "entry_dead m0 j = entry_dead m j"
    and "mt_heap m0 = mt_heap m" and "mt_garbage m0 = mt_garbage m"
proof -
  have r: "mt_rep m (chain_addrs m)" using assms(1) by (simp add: mt_wf_def)
  note e = put_entry_rep [OF r assms(2)]
  show "mt_wf m0" using e(1) by (rule rep_wf)
  show "mt_table m0 k = Some c" "versions m0 j = versions m j" "entry_dead m0 j = entry_dead m j"
    using e by simp_all
  show "chain_addrs m0 j = chain_addrs m j" using rep_chain [OF e(1)] by simp
  show "mt_heap m0 = mt_heap m" "mt_garbage m0 = mt_garbage m"
    using assms(2) by (auto simp: put_entry_def split: option.splits)
qed

lemma put_entry_table:
  "\<lbrakk>put_entry k m = (c, m0); mt_table m j = Some d\<rbrakk> \<Longrightarrow> mt_table m0 j = Some d"
  by (auto simp: put_entry_def split: option.splits)

lemma written_put_entry:
  "\<lbrakk>mt_wf m; put_entry k m = (c, m0); written m0 k v a m'\<rbrakk> \<Longrightarrow> written m k v a m'"
  unfolding written_def using no_abort_put_entry [of k m c m0]
  by (simp add: put_entry_wf(3-7) put_entry_table)

lemma put_attempt_alone:
  assumes "mt_wf m" and "mt_table m k = Some c"
  shows "put_attempt redo c id (m, tm) t =
    (case head_check tm t (versions m k) of
       Inl e \<Rightarrow> Done (m, tm) t (Inl e)
     | Inr (conflict, t') \<Rightarrow>
         if conflict
         then Done (m, tm) t' (Inl (Err (TransactionAborted ''ww-conflict detected in put()'')))
         else Done (install c TAG_PRESENT (redo\<lparr>node_next := the (mt_cells m c)\<rparr>) m, tm) t'
                (Inr (Some (mt_fresh m, node_record redo))))"
proof -
  obtain p where p: "mt_cells m c = Some p" using wf_cell [OF assms] by blast
  note h = chain_head(1) [OF assms(1) [unfolded mt_wf_def] assms(2) p]
  show ?thesis
    using p by (cases "head_check tm t (versions m k)")
      (auto simp: put_attempt_def load_cell_def h publish_alone)
qed

lemma mt_put_alone:
  assumes wf: "mt_wf m"
  shows "case head_check tm t (versions m k) of
      Inl e \<Rightarrow> (\<exists>m0. mt_put cd [] k v (m, tm) t = ((m0, tm), t, Inl e))
    | Inr (True, t') \<Rightarrow> mt_put cd [] k v (m, tm) t =
        ((m, tm), t', Inl (Err (TransactionAborted ''ww-conflict detected in put()'')))
    | Inr (False, t') \<Rightarrow> \<exists>m' a. mt_put cd [] k v (m, tm) t =
        ((m', tm), keep_node cd k a (Insert v) t', Inr True) \<and>
        written m k (commit_timestamp t, Insert v) a m'"
proof -
  obtain c m0 where pe: "put_entry k m = (c, m0)" by (cases "put_entry k m")
  note w0 = put_entry_wf [OF wf pe]
  note att = put_attempt_alone [OF w0(1,2), unfolded w0(3)]
  obtain p where p: "mt_cells m0 c = Some p" using wf_cell [OF w0(1,2)] by blast
  show ?thesis
  proof (cases "head_check tm t (versions m k)")
    case (Inl e)
    then show ?thesis by (simp add: mt_put_def pe att finish_write_def)
  next
    case (Inr r)
    obtain conflict t' where r: "r = (conflict, t')" by (cases r)
    show ?thesis
    proof (cases conflict)
      case True
      with Inr r have "versions m k \<noteq> []" by (auto simp: head_check_def)
      then have eq: "m0 = m"
        using pe by (auto simp: versions_def chain_addrs_def put_entry_def split: option.splits)
      with True Inr r show ?thesis
        using att [of "get_insert_redo t v"] by (simp add: mt_put_def pe finish_write_def)
    next
      case False
      let ?n = "(get_insert_redo t v)\<lparr>node_next := p\<rparr>"
      have "written m0 k (node_timestamp ?n, node_record ?n) (mt_fresh m0)
          (install c TAG_PRESENT ?n m0)"
        using p w0 by (intro install_written)
          (simp_all add: get_insert_redo_def redo_new_insert_def TAG_PRESENT_def)
      then have "written m k (commit_timestamp t, Insert v) (mt_fresh m0)
          (install c TAG_PRESENT ?n m0)"
        using written_put_entry [OF wf pe]
        by (simp add: get_insert_redo_def redo_new_insert_def)
      with False Inr r p show ?thesis
        by (auto simp: mt_put_def pe att finish_write_def keep_node_def get_insert_redo_def
            redo_new_insert_def)
    qed
  qed
qed

section \<open>Delete\<close>

lemma mt_delete_alone:
  assumes wf: "mt_wf m"
  shows "case head_check tm t (versions m k) of
      Inl e \<Rightarrow> mt_delete cd [] k (m, tm) t = ((m, tm), t, Inl e)
    | Inr (True, t') \<Rightarrow> mt_delete cd [] k (m, tm) t =
        ((m, tm), t', Inl (Err (TransactionAborted ''ww-conflict detected in delete()'')))
    | Inr (False, t') \<Rightarrow>
        (if \<exists>ts v vs. versions m k = (ts, Insert v) # vs
         then \<exists>m' a. mt_delete cd [] k (m, tm) t =
           ((m', tm), keep_node cd k a Delete t', Inr True) \<and>
           written m k (commit_timestamp t, Delete) a m'
         else mt_delete cd [] k (m, tm) t = ((m, tm), t', Inr False))"
proof (cases "mt_table m k")
  case None
  then have "versions m k = []" by (simp add: versions_def chain_addrs_def)
  with None show ?thesis by (simp add: mt_delete_def head_check_def)
next
  case (Some c)
  obtain p where p: "mt_cells m c = Some p" using wf_cell [OF wf Some] by blast
  note h = chain_head [OF wf [unfolded mt_wf_def] Some p]
  let ?n = "(get_delete_redo t)\<lparr>node_next := p\<rparr>"
  have w: "written m k (commit_timestamp t, Delete) (mt_fresh m) (install c 0 ?n m)"
    using install_written [OF wf Some p, of 0 ?n]
    by (simp add: get_delete_redo_def redo_new_delete_def)
  show ?thesis
  proof (cases "head_check tm t (versions m k)")
    case (Inl e)
    with Some p show ?thesis
      by (simp add: mt_delete_def delete_attempt_def load_cell_def h(1) finish_write_def)
  next
    case (Inr r)
    obtain conflict t' where r: "r = (conflict, t')" by (cases r)
    show ?thesis
    proof (cases "conflict \<or> \<not> is_present p")
      case True
      with Inr r Some p h(2) show ?thesis
        by (cases conflict)
           (auto simp: mt_delete_def delete_attempt_def load_cell_def h(1) finish_write_def)
    next
      case False
      with Inr r Some p have "mt_delete cd [] k (m, tm) t =
          ((install c 0 ?n m, tm), keep_node cd k (mt_fresh m) Delete t', Inr True)"
        by (simp add: mt_delete_def delete_attempt_def load_cell_def h(1) finish_write_def
            publish_alone keep_node_def)
           (simp add: get_delete_redo_def redo_new_delete_def)
      with False Inr r w h(2) show ?thesis by auto
    qed
  qed
qed

section \<open>Update\<close>

lemma mt_update_alone:
  assumes wf: "mt_wf m" and live: "\<not> entry_dead m k"
    and hc: "head_check tm t (versions m k) = Inr (False, t')"
    and ins: "versions m k = (ts, Insert u) # vs"
    and sc: "scan tm t' (versions m k) = Inr (Some v, t'')"
  shows "\<exists>m' a. mt_update cd [] k f (m, tm) t =
      ((m', tm), keep_node cd k a (Insert (f v)) t'', Inr True) \<and>
      written m k (commit_timestamp t'', Insert (f v)) a m'"
proof -
  from ins obtain c where c: "mt_table m k = Some c"
    by (cases "mt_table m k") (auto simp: versions_def chain_addrs_def)
  obtain p where p: "mt_cells m c = Some p" using wf_cell [OF wf c] by blast
  note rep = wf [unfolded mt_wf_def]
  note h = chain_head [OF rep c p]
  have pres: "is_present p" using h(2) ins by blast
  have "\<not> is_abort p" using live c p by (simp add: entry_dead_def)
  then have gv: "get_value tm m c t' = Inr (Some v, t'')"
    using get_value_scan [OF rep c p, of tm t'] sc by simp
  let ?n = "(get_insert_redo t'' (f v))\<lparr>node_next := p\<rparr>"
  have w: "written m k (commit_timestamp t'', Insert (f v)) (mt_fresh m)
      (install c TAG_PRESENT ?n m)"
    using install_written [OF wf c p, of TAG_PRESENT ?n]
    by (simp add: get_insert_redo_def redo_new_insert_def TAG_PRESENT_def)
  have "mt_update cd [] k f (m, tm) t =
      ((install c TAG_PRESENT ?n m, tm), keep_node cd k (mt_fresh m) (Insert (f v)) t'', Inr True)"
    using c p pres hc gv
    by (simp add: mt_update_def update_attempt_def load_cell_def h(1) finish_write_def
        publish_alone keep_node_def) (simp add: get_insert_redo_def redo_new_insert_def)
  with w show ?thesis by blast
qed

text \<open>The other outcomes of \<open>update\<close>: a conflict, and a newest version that is no insert.\<close>

lemma mt_update_refused:
  assumes wf: "mt_wf m" and hc: "head_check tm t (versions m k) = Inr (conflict, t')"
    and no: "conflict \<or> \<not> (\<exists>ts v vs. versions m k = (ts, Insert v) # vs)"
  shows "mt_update cd [] k f (m, tm) t = ((m, tm), t',
    if conflict then Inl (Err (TransactionAborted ''ww-conflict detected in update()''))
    else Inr False)"
proof (cases "mt_table m k")
  case None
  then have "versions m k = []" by (simp add: versions_def chain_addrs_def)
  with None hc show ?thesis by (auto simp: mt_update_def head_check_def)
next
  case (Some c)
  obtain p where p: "mt_cells m c = Some p" using wf_cell [OF wf Some] by blast
  note h = chain_head [OF wf [unfolded mt_wf_def] Some p]
  show ?thesis
    using no hc Some p h(2)
    by (cases conflict)
       (auto simp: mt_update_def update_attempt_def load_cell_def h(1) finish_write_def)
qed

end
