(* ===== verification/Version_List.thy ===== *)
theory Version_List
  imports Mem_Ops
begin

text \<open>
  Version lists as transactions in normal mode see them. A well-formed list (\<open>chain_ok\<close>) is a
  block of uncommitted versions of one live writer, possibly empty, in front of the committed
  versions, newest first; and when the block is not empty, nothing was committed after its writer
  started. \<open>view n\<close> is what the transaction that started at counter \<open>n\<close> reads, \<open>latest\<close> the
  newest committed value and \<open>own n\<close> the pending write of transaction \<open>n\<close>.
\<close>

section \<open>Visibility\<close>

definition uncommitted :: "u64 \<Rightarrow> timestamp" where
  "uncommitted n = ts_new Uncommitted n"

definition visible :: "u64 \<Rightarrow> 'v version \<Rightarrow> bool" where
  "visible n v \<longleftrightarrow> fst v = uncommitted n \<or> (ts_type (fst v) = Commit \<and> ts_bits (fst v) \<le> n)"

fun first_value :: "('v version \<Rightarrow> bool) \<Rightarrow> 'v version list \<Rightarrow> 'v option" where
  "first_value P [] = None"
| "first_value P (v # vs) = (if P v then record_value (snd v) else first_value P vs)"

definition view :: "u64 \<Rightarrow> 'v version list \<Rightarrow> 'v option" where
  "view n vs = first_value (visible n) vs"

definition latest :: "'v version list \<Rightarrow> 'v option" where
  "latest vs = first_value (\<lambda>v. ts_type (fst v) = Commit) vs"

definition own :: "u64 \<Rightarrow> 'v version list \<Rightarrow> 'v option option" where
  "own n vs = (case vs of [] \<Rightarrow> None
     | v # _ \<Rightarrow> if fst v = uncommitted n then Some (record_value (snd v)) else None)"

definition modified_since :: "u64 \<Rightarrow> 'v version list \<Rightarrow> bool" where
  "modified_since n vs \<longleftrightarrow> (\<exists>v\<in>set vs. ts_type (fst v) = Commit \<and> n < ts_bits (fst v))"

lemma uncommitted_type [simp]: "ts_type (uncommitted n) = Uncommitted"
  by (simp add: uncommitted_def)

lemma uncommitted_inj:
  "\<lbrakk>m < ts_limit; n < ts_limit\<rbrakk> \<Longrightarrow> uncommitted m = uncommitted n \<longleftrightarrow> m = n"
  by (auto simp: uncommitted_def ts_eq_iff take_bit_small)

lemma uncommitted_valid [simp]: "\<not> ts_is_invalid (uncommitted n)"
  by (simp add: ts_invalid_iff)

lemma uncommitted_not_committed [simp]: "\<not> ts_is_committed (uncommitted n)"
  by (simp add: ts_is_committed_def)

section \<open>Well-formed lists\<close>

definition commits_ok :: "u64 \<Rightarrow> 'v version list \<Rightarrow> bool" where
  "commits_ok c cs \<longleftrightarrow> (\<forall>v\<in>set cs. issued c (fst v)) \<and>
     sorted_wrt (\<lambda>v w. ts_bits (fst w) \<le> ts_bits (fst v)) cs"

definition pending_ok :: "u64 set \<Rightarrow> 'v version list \<Rightarrow> 'v version list \<Rightarrow> bool" where
  "pending_ok L us cs \<longleftrightarrow> us = [] \<or>
     (\<exists>n\<in>L. (\<forall>v\<in>set us. fst v = uncommitted n) \<and> (\<forall>v\<in>set cs. ts_bits (fst v) \<le> n))"

definition chain_ok :: "u64 \<Rightarrow> u64 set \<Rightarrow> 'v version list \<Rightarrow> bool" where
  "chain_ok c L vs \<longleftrightarrow> (\<exists>us cs. vs = us @ cs \<and> commits_ok c cs \<and> pending_ok L us cs)"

lemma commits_ok_type:
  "\<lbrakk>commits_ok c cs; c \<le> ts_limit; v \<in> set cs\<rbrakk> \<Longrightarrow> ts_small (fst v) \<and> ts_type (fst v) = Commit"
  by (auto simp: commits_ok_def dest: issued_small ts_small_raw(2))

lemma commits_ok_not_uncommitted:
  "\<lbrakk>commits_ok c cs; c \<le> ts_limit; v \<in> set cs\<rbrakk> \<Longrightarrow> fst v \<noteq> uncommitted n"
  using commits_ok_type [of c cs v] by auto

lemma commits_ok_mono: "\<lbrakk>commits_ok c cs; c \<le> d\<rbrakk> \<Longrightarrow> commits_ok d cs"
  by (auto simp: commits_ok_def intro: issued_mono)

lemma chain_ok_Nil [simp]: "chain_ok c L []"
  by (auto simp: chain_ok_def commits_ok_def pending_ok_def)

lemma chain_ok_mono: "\<lbrakk>chain_ok c L vs; c \<le> d; L \<subseteq> M\<rbrakk> \<Longrightarrow> chain_ok d M vs"
  unfolding chain_ok_def pending_ok_def using commits_ok_mono by blast

text \<open>Either the head is a pending version of a live writer, or the whole list is committed.\<close>

lemma chain_ok_cases:
  assumes "chain_ok c L vs" and "c \<le> ts_limit"
  obtains (committed) "commits_ok c vs"
  | (pending) n us cs where "n \<in> L" "us \<noteq> []" "vs = us @ cs" "\<forall>v\<in>set us. fst v = uncommitted n"
      "\<forall>v\<in>set cs. ts_bits (fst v) \<le> n" "commits_ok c cs"
proof -
  from assms(1) obtain us cs where vs: "vs = us @ cs" "commits_ok c cs" "pending_ok L us cs"
    by (auto simp: chain_ok_def)
  show thesis
  proof (cases "us = []")
    case True
    with vs committed show thesis by simp
  next
    case False
    with vs(3) obtain n where "n \<in> L" "\<forall>v\<in>set us. fst v = uncommitted n"
      "\<forall>v\<in>set cs. ts_bits (fst v) \<le> n"
      unfolding pending_ok_def by blast
    with False vs pending show thesis by blast
  qed
qed

lemma chain_ok_types:
  assumes "chain_ok c L vs" and "c \<le> ts_limit" and "v \<in> set vs"
  shows "ts_type (fst v) = Commit \<and> issued c (fst v) \<or> (\<exists>n\<in>L. fst v = uncommitted n)"
proof -
  have com: "ts_type (fst w) = Commit \<and> issued c (fst w)" if "commits_ok c cs" "w \<in> set cs"
    for cs and w :: "timestamp \<times> 'a redo_record"
  proof
    show "ts_type (fst w) = Commit" using commits_ok_type [OF that(1) assms(2) that(2)] by simp
    show "issued c (fst w)" using that unfolding commits_ok_def by blast
  qed
  from assms(1,2) show ?thesis
  proof (cases rule: chain_ok_cases)
    case committed
    then show ?thesis using com assms(3) by blast
  next
    case (pending n us cs)
    from assms(3) pending(3) consider "v \<in> set us" | "v \<in> set cs" by auto
    then show ?thesis
    proof cases
      case 1
      with pending show ?thesis by blast
    next
      case 2
      with pending com show ?thesis by blast
    qed
  qed
qed

section \<open>Reads in normal mode\<close>

definition txn_at :: "u64 \<Rightarrow> ('k, 'v) txn \<Rightarrow> bool" where
  "txn_at n t \<longleftrightarrow> txn_mode t = Normal \<and> start_timestamp t = Timestamp n \<and>
     commit_timestamp t = uncommitted n \<and> 0 < n \<and> n < ts_limit"

lemma skip_delta_normal:
  assumes "txn_at n t" and "c \<le> ts_limit"
    and "ts_type (fst v) = Commit \<and> issued c (fst v) \<or> (\<exists>m. fst v = uncommitted m)"
  shows "skip_delta tm t (fst v) = Inr (\<not> visible n v, t)"
proof (cases "ts_type (fst v) = Commit")
  case True
  then have sm: "ts_small (fst v)" using assms(2,3) by (auto dest: issued_small)
  have st: "ts_small (start_timestamp t)" "ts_bits (start_timestamp t) = n"
    using assms(1) by (auto simp: txn_at_def ts_small_def)
  show ?thesis
    using True sm st by (auto simp: skip_delta_def ts_gt_small visible_def)
next
  case False
  with assms(3) obtain m where "fst v = uncommitted m" by auto
  with assms(1) show ?thesis by (auto simp: skip_delta_def visible_def txn_at_def)
qed

lemma scan_view:
  assumes "txn_at n t" and "c \<le> ts_limit" and "chain_ok c L vs"
  shows "scan tm t vs = Inr (view n vs, t)"
proof -
  have "\<forall>v\<in>set vs. ts_type (fst v) = Commit \<and> issued c (fst v) \<or> (\<exists>m. fst v = uncommitted m)"
    using chain_ok_types [OF assms(3,2)] by blast
  then show ?thesis
  proof (induction vs)
    case Nil
    then show ?case by (simp add: view_def)
  next
    case (Cons v vs)
    then show ?case
      using skip_delta_normal [OF assms(1,2), of v tm] by (cases v) (auto simp: view_def)
  qed
qed

section \<open>Conflicts in normal mode\<close>

definition conflict :: "u64 \<Rightarrow> 'v version list \<Rightarrow> bool" where
  "conflict n vs \<longleftrightarrow> vs \<noteq> [] \<and> \<not> visible n (hd vs)"

lemma head_check_conflict:
  assumes "txn_at n t" and "c \<le> ts_limit" and "chain_ok c L vs"
  shows "head_check tm t vs = Inr (conflict n vs, t)"
proof (cases vs)
  case Nil
  then show ?thesis by (simp add: head_check_def conflict_def)
next
  case (Cons v ws)
  then have ty: "ts_type (fst v) = Commit \<and> issued c (fst v) \<or> (\<exists>m. fst v = uncommitted m)"
    using chain_ok_types [OF assms(3,2), of v] by auto
  show ?thesis
  proof (cases "ts_type (fst v) = Commit")
    case True
    with ty have i: "issued c (fst v)" by auto
    then have sm: "ts_small (fst v)" using assms(2) by (rule issued_small)
    have st: "ts_small (start_timestamp t)" "ts_bits (start_timestamp t) = n"
      using assms(1) by (auto simp: txn_at_def ts_small_def)
    show ?thesis
      using True Cons sm st issued_valid [OF i]
      by (auto simp: head_check_def conflict_def check_ww_conflict_def Let_def ts_is_committed_def
          ts_gt_small visible_def)
  next
    case False
    with ty obtain m where "fst v = uncommitted m" by auto
    with Cons assms(1) show ?thesis
      by (auto simp: head_check_def conflict_def check_ww_conflict_def Let_def visible_def
          txn_at_def)
  qed
qed

text \<open>
  A writer without conflict sees the newest version; and a conflict is either a pending version
  of another live transaction or a version committed after this one started.
\<close>

lemma no_conflict_view:
  "\<not> conflict n (v # vs) \<Longrightarrow> view n (v # vs) = record_value (snd v)"
  by (simp add: conflict_def view_def)

lemma own_not_modified:
  assumes "chain_ok c L vs" and "c \<le> ts_limit" and "own n vs \<noteq> None" and "n < ts_limit"
    and "\<forall>m\<in>L. m < ts_limit"
  shows "\<not> modified_since n vs" and "n \<in> L" and "\<not> conflict n vs"
proof -
  from assms(3) obtain v ws where vs: "vs = v # ws" "fst v = uncommitted n"
    by (auto simp: own_def split: list.splits if_splits)
  from assms(1,2) have "\<not> modified_since n vs \<and> n \<in> L"
  proof (cases rule: chain_ok_cases)
    case committed
    with vs assms(2) commits_ok_type [of c vs v] show ?thesis by auto
  next
    case (pending m us cs)
    then have "fst v = uncommitted m" using vs by (cases us) auto
    with vs assms(4,5) pending(1) have m: "m = n" by (auto simp: uncommitted_inj)
    have "\<not> modified_since n vs"
      using pending m by (auto simp: modified_since_def)
    with pending(1) m show ?thesis by simp
  qed
  then show "\<not> modified_since n vs" "n \<in> L" by simp_all
  show "\<not> conflict n vs" using vs by (simp add: conflict_def visible_def)
qed

lemma no_conflict_not_modified:
  assumes "chain_ok c L vs" and "c \<le> ts_limit" and "\<not> conflict n vs" and "n < ts_limit"
    and "\<forall>m\<in>L. m < ts_limit"
  shows "\<not> modified_since n vs"
  using assms(1,2)
proof (cases rule: chain_ok_cases)
  case committed
  show ?thesis
  proof (cases vs)
    case (Cons v ws)
    with committed assms(2) have "ts_type (fst v) = Commit" by (auto dest: commits_ok_type)
    with Cons assms(3) have "ts_bits (fst v) \<le> n" by (auto simp: conflict_def visible_def)
    with Cons committed show ?thesis
      by (auto simp: commits_ok_def modified_since_def)
  qed (simp add: modified_since_def)
next
  case (pending m us cs)
  then obtain u us' where us: "us = u # us'" by (cases us) auto
  with pending assms(3) have "uncommitted m = uncommitted n"
    by (auto simp: conflict_def visible_def)
  then have "own n vs \<noteq> None" using pending us by (simp add: own_def)
  with assms own_not_modified show ?thesis by blast
qed

section \<open>The three changes of a list\<close>

text \<open>Push of a version by a writer without conflict.\<close>

lemma chain_ok_push:
  assumes "chain_ok c L vs" and "c \<le> ts_limit" and "n \<in> L" and "\<not> conflict n vs"
    and "\<forall>m\<in>L. m < ts_limit"
  shows "chain_ok c L ((uncommitted n, r) # vs)"
  using assms(1,2)
proof (cases rule: chain_ok_cases)
  case committed
  have "\<not> modified_since n vs"
    using no_conflict_not_modified assms by blast
  then have "\<forall>v\<in>set vs. ts_bits (fst v) \<le> n"
    using committed assms(2) by (auto simp: modified_since_def not_less dest: commits_ok_type)
  then have "pending_ok L [(uncommitted n, r)] vs"
    using assms(3) by (auto simp: pending_ok_def)
  with committed show ?thesis
    unfolding chain_ok_def by (metis append_Cons append_Nil)
next
  case (pending m us cs)
  then obtain u us' where us: "us = u # us'" by (cases us) auto
  with pending assms(4) have "uncommitted m = uncommitted n"
    by (auto simp: conflict_def visible_def)
  then have "m = n" using pending(1) assms(3,5) by (auto simp: uncommitted_inj)
  then have "pending_ok L ((uncommitted n, r) # us) cs"
    using pending by (auto simp: pending_ok_def)
  with pending show ?thesis
    unfolding chain_ok_def by (metis append_Cons)
qed

lemma view_push_other:
  "\<lbrakk>n < ts_limit; m < ts_limit; m \<noteq> n\<rbrakk> \<Longrightarrow> view m ((uncommitted n, r) # vs) = view m vs"
  by (simp add: view_def visible_def uncommitted_inj)

lemma view_push_own: "view n ((uncommitted n, r) # vs) = record_value r"
  by (simp add: view_def visible_def)

lemma latest_push: "latest ((uncommitted n, r) # vs) = latest vs"
  by (simp add: latest_def)

lemma own_push:
  "\<lbrakk>n < ts_limit; m < ts_limit\<rbrakk> \<Longrightarrow>
     own m ((uncommitted n, r) # vs) = (if m = n then Some (record_value r) else None)"
  by (simp add: own_def uncommitted_inj)

text \<open>Commit: the pending versions of one writer get the commit timestamp.\<close>

definition stamp :: "u64 \<Rightarrow> timestamp \<Rightarrow> 'v version \<Rightarrow> 'v version" where
  "stamp n ts v = (if fst v = uncommitted n then (ts, snd v) else v)"

lemma stamp_other:
  "\<lbrakk>chain_ok c L vs; c \<le> ts_limit; own n vs = None; n < ts_limit; \<forall>m\<in>L. m < ts_limit\<rbrakk> \<Longrightarrow>
     map (stamp n ts) vs = vs"
proof -
  assume a: "chain_ok c L vs" "c \<le> ts_limit" "own n vs = None" "n < ts_limit"
    "\<forall>m\<in>L. m < ts_limit"
  have "\<forall>v\<in>set vs. fst v \<noteq> uncommitted n"
    using a(1,2)
  proof (cases rule: chain_ok_cases)
    case committed
    then show ?thesis using a(2) commits_ok_not_uncommitted by blast
  next
    case (pending m us cs)
    then obtain u us' where us: "us = u # us'" by (cases us) auto
    with pending a(3) have "uncommitted m \<noteq> uncommitted n" by (auto simp: own_def)
    moreover have "\<forall>v\<in>set cs. fst v \<noteq> uncommitted n"
      using pending(6) a(2) commits_ok_not_uncommitted by blast
    ultimately show ?thesis using pending by auto
  qed
  then show ?thesis by (auto simp: stamp_def intro!: map_idI)
qed

lemma chain_ok_stamp:
  assumes "chain_ok c L vs" and "c < ts_limit" and "own n vs \<noteq> None" and "n < ts_limit"
    and "0 < c" and "\<forall>m\<in>L. m < ts_limit"
  shows "commits_ok (c + 1) (map (stamp n (Timestamp c)) vs)"
    and "latest (map (stamp n (Timestamp c)) vs) = the (own n vs)"
proof -
  have le: "c \<le> ts_limit" using assms(2) by simp
  have lt: "c < c + 1" using assms(2) by (rule word_less_Suc)
  obtain us cs where us: "us \<noteq> []" "vs = us @ cs" "\<forall>v\<in>set us. fst v = uncommitted n"
    "commits_ok c cs"
    using assms(1) le
  proof (cases rule: chain_ok_cases)
    case committed
    from assms(3) obtain v ws where "vs = v # ws" "fst v = uncommitted n"
      by (auto simp: own_def split: list.splits if_splits)
    with committed le commits_ok_not_uncommitted [of c vs v n] show ?thesis by simp
  next
    case (pending m us cs)
    then obtain u us' where "us = u # us'" by (cases us) auto
    with pending assms(3) have "uncommitted m = uncommitted n"
      by (auto simp: own_def split: if_splits)
    with pending that show ?thesis by auto
  qed
  have cs: "map (stamp n (Timestamp c)) cs = cs"
    using us(4) le commits_ok_not_uncommitted [of c cs]
    by (intro map_idI) (simp add: stamp_def del: split_paired_All)
  have mus: "\<forall>v\<in>set (map (stamp n (Timestamp c)) us). fst v = Timestamp c"
    using us(3) by (auto simp: stamp_def)
  have eq: "map (stamp n (Timestamp c)) vs = map (stamp n (Timestamp c)) us @ cs"
    using us(2) cs by simp
  have iss: "issued (c + 1) (Timestamp c)" using lt assms(5) by (simp add: issued_def)
  have "sorted_wrt (\<lambda>v w. ts_bits (fst w) \<le> ts_bits (fst v)) (map (stamp n (Timestamp c)) us)"
    using mus by (induction us) auto
  moreover have "\<forall>w\<in>set cs. ts_bits (fst w) \<le> c"
    using us(4) by (auto simp: commits_ok_def issued_def)
  ultimately show "commits_ok (c + 1) (map (stamp n (Timestamp c)) vs)"
    unfolding eq commits_ok_def sorted_wrt_append
    using mus iss us(4) lt by (auto simp: commits_ok_def intro: issued_mono)
  obtain u us' where u: "us = u # us'" using us(1) by (cases us) auto
  have "ts_small (Timestamp c)" using assms(2) by (simp add: ts_small_def)
  then have "ts_type (Timestamp c) = Commit" by (rule ts_small_raw)
  with us u show "latest (map (stamp n (Timestamp c)) vs) = the (own n vs)"
    by (simp add: latest_def own_def stamp_def)
qed

lemma view_stamp:
  assumes "m < c" and "c < ts_limit" and "m \<noteq> n" and "n < ts_limit"
  shows "view m (map (stamp n (Timestamp c)) vs) = view m vs"
proof -
  have "ts_small (Timestamp c)" using assms(2) by (simp add: ts_small_def)
  then have "ts_type (Timestamp c) = Commit" by (rule ts_small_raw)
  moreover have "m < ts_limit" using assms(1,2) by simp
  ultimately have vis: "visible m (stamp n (Timestamp c) v) \<longleftrightarrow> visible m v"
    for v :: "timestamp \<times> 'a redo_record"
    using assms by (auto simp: stamp_def visible_def uncommitted_inj dest: arg_cong [of _ _ ts_type])
  have snd: "snd (stamp n (Timestamp c) v) = snd v" for v :: "timestamp \<times> 'a redo_record"
    by (simp add: stamp_def)
  show ?thesis
    unfolding view_def
  proof (induction vs)
    case (Cons v vs)
    then show ?case using vis [of v] snd [of v] by simp
  qed simp
qed

text \<open>Rollback: the leading versions of one writer go.\<close>

lemma drop_own_view:
  assumes "m \<noteq> n" and "m < ts_limit" and "n < ts_limit"
  shows "view m (dropWhile (\<lambda>v. fst v = uncommitted n) vs) = view m vs"
  using assms by (induction vs) (auto simp: view_def visible_def uncommitted_inj)

lemma drop_own_latest: "latest (dropWhile (\<lambda>v. fst v = uncommitted n) vs) = latest vs"
  by (induction vs) (auto simp: latest_def)

lemma drop_own_chain_ok:
  assumes "chain_ok c L vs" and "c \<le> ts_limit" and "n < ts_limit" and "\<forall>m\<in>L. m < ts_limit"
  shows "chain_ok c L (dropWhile (\<lambda>v. fst v = uncommitted n) vs)"
    and "\<forall>v\<in>set (dropWhile (\<lambda>v. fst v = uncommitted n) vs). fst v \<noteq> uncommitted n"
proof -
  have "chain_ok c L (dropWhile (\<lambda>v. fst v = uncommitted n) vs) \<and>
    (\<forall>v\<in>set (dropWhile (\<lambda>v. fst v = uncommitted n) vs). fst v \<noteq> uncommitted n)"
    using assms(1,2)
  proof (cases rule: chain_ok_cases)
    case committed
    then have no: "\<forall>v\<in>set vs. fst v \<noteq> uncommitted n"
      using assms(2) commits_ok_not_uncommitted by blast
    then have "dropWhile (\<lambda>v. fst v = uncommitted n) vs = vs"
      by (cases vs) auto
    then show ?thesis using no assms(1) by metis
  next
    case (pending m us cs)
    have no: "\<forall>v\<in>set cs. fst v \<noteq> uncommitted n"
      using pending(6) assms(2) commits_ok_not_uncommitted by blast
    show ?thesis
    proof (cases "m = n")
      case True
      have "dropWhile (\<lambda>v. fst v = uncommitted n) vs = cs"
        using pending no True by (cases cs) (auto simp: dropWhile_append2)
      moreover have "chain_ok c L cs"
        using pending(6) by (auto simp: chain_ok_def pending_ok_def)
      ultimately show ?thesis using no by metis
    next
      case False
      then have ne: "uncommitted m \<noteq> uncommitted n"
        using pending(1) assms(3,4) by (simp add: uncommitted_inj)
      with pending have "\<forall>v\<in>set vs. fst v \<noteq> uncommitted n" using no by auto
      moreover from this have "dropWhile (\<lambda>v. fst v = uncommitted n) vs = vs"
        by (cases vs) auto
      ultimately show ?thesis using assms(1) by metis
    qed
  qed
  then show "chain_ok c L (dropWhile (\<lambda>v. fst v = uncommitted n) vs)"
    "\<forall>v\<in>set (dropWhile (\<lambda>v. fst v = uncommitted n) vs). fst v \<noteq> uncommitted n" by blast+
qed

lemma own_drop_other:
  assumes "own m vs = Some x" and "m \<noteq> n" and "m < ts_limit" and "n < ts_limit"
  shows "dropWhile (\<lambda>v. fst v = uncommitted n) vs = vs"
  using assms by (cases vs) (auto simp: own_def uncommitted_inj split: if_splits)

section \<open>The list as committed state plus one pending write\<close>

definition base :: "u64 \<Rightarrow> 'v version list \<Rightarrow> 'v option" where
  "base n vs = first_value (\<lambda>v. ts_type (fst v) = Commit \<and> ts_bits (fst v) \<le> n) vs"

lemma own_Nil [simp]: "own n [] = None"
  by (simp add: own_def)

lemma view_split:
  assumes "chain_ok c L vs" and "c \<le> ts_limit" and "n < ts_limit" and "\<forall>m\<in>L. m < ts_limit"
  shows "view n vs = (case own n vs of Some x \<Rightarrow> x | None \<Rightarrow> base n vs)"
proof (cases "own n vs")
  case (Some x)
  then show ?thesis
    by (cases vs) (auto simp: own_def view_def visible_def split: if_splits)
next
  case None
  have "visible n v \<longleftrightarrow> ts_type (fst v) = Commit \<and> ts_bits (fst v) \<le> n" if "v \<in> set vs" for v
    using assms(1,2)
  proof (cases rule: chain_ok_cases)
    case committed
    then show ?thesis
      using commits_ok_not_uncommitted [OF committed assms(2) that] by (simp add: visible_def)
  next
    case (pending m us cs)
    then obtain u us' where us: "us = u # us'" by (cases us) auto
    with pending None have ne: "uncommitted m \<noteq> uncommitted n" by (auto simp: own_def)
    from that pending(3) consider "v \<in> set us" | "v \<in> set cs" by auto
    then show ?thesis
    proof cases
      case 1
      with pending ne show ?thesis by (simp add: visible_def)
    next
      case 2
      then show ?thesis
        using commits_ok_not_uncommitted [OF pending(6) assms(2)] by (simp add: visible_def)
    qed
  qed
  then have "first_value (visible n) vs =
      first_value (\<lambda>v. ts_type (fst v) = Commit \<and> ts_bits (fst v) \<le> n) vs"
    by (induction vs) auto
  with None show ?thesis by (simp add: view_def base_def)
qed

lemma first_value_all:
  "(\<And>v. v \<in> set vs \<Longrightarrow> P v \<longleftrightarrow> Q v) \<Longrightarrow> first_value P vs = first_value Q vs"
  by (induction vs) auto

text \<open>A transaction that starts now sees the newest committed value and has written nothing.\<close>

lemma start_view:
  assumes "chain_ok c L vs" and "c < ts_limit" and "c \<notin> L" and "\<forall>m\<in>L. m < ts_limit"
  shows "own c vs = None" and "base c vs = latest vs" and "\<not> modified_since c vs"
proof -
  have le: "c \<le> ts_limit" using assms(2) by simp
  have ty: "ts_type (fst v) = Commit \<Longrightarrow> ts_bits (fst v) \<le> c" if "v \<in> set vs" for v
    using chain_ok_types [OF assms(1) le that] by (auto simp: issued_def)
  show "own c vs = None"
    using own_not_modified(2) [OF assms(1) le _ assms(2,4)] assms(3) by blast
  show "base c vs = latest vs"
    unfolding base_def latest_def using ty by (auto intro: first_value_all)
  show "\<not> modified_since c vs"
    using ty by (auto simp: modified_since_def not_less)
qed

text \<open>A conflict is a pending write of another transaction or a later commit.\<close>

lemma conflict_iff:
  assumes "chain_ok c L vs" and "c \<le> ts_limit" and "n < ts_limit" and "\<forall>m\<in>L. m < ts_limit"
  shows "conflict n vs \<longleftrightarrow> modified_since n vs \<or> (\<exists>m\<in>L. m \<noteq> n \<and> own m vs \<noteq> None)"
proof
  assume "conflict n vs"
  then obtain v ws where vs: "vs = v # ws" and inv: "\<not> visible n v"
    by (cases vs) (auto simp: conflict_def)
  from chain_ok_types [OF assms(1,2), of v] vs consider
    "ts_type (fst v) = Commit" | m where "m \<in> L" "fst v = uncommitted m" by auto
  then show "modified_since n vs \<or> (\<exists>m\<in>L. m \<noteq> n \<and> own m vs \<noteq> None)"
  proof cases
    case 1
    with inv vs show ?thesis by (auto simp: visible_def modified_since_def)
  next
    case 2
    with inv vs show ?thesis by (auto simp: visible_def own_def)
  qed
next
  assume "modified_since n vs \<or> (\<exists>m\<in>L. m \<noteq> n \<and> own m vs \<noteq> None)"
  then show "conflict n vs"
  proof
    assume "modified_since n vs"
    then show ?thesis using no_conflict_not_modified [OF assms(1,2) _ assms(3,4)] by blast
  next
    assume "\<exists>m\<in>L. m \<noteq> n \<and> own m vs \<noteq> None"
    then obtain m where mL: "m \<in> L" "m \<noteq> n" "own m vs \<noteq> None" by blast
    then obtain v ws where "vs = v # ws" "fst v = uncommitted m"
      by (auto simp: own_def split: list.splits if_splits)
    with mL have m: "m \<in> L" "m \<noteq> n" "vs = v # ws" "fst v = uncommitted m" by simp_all
    then have "uncommitted m \<noteq> uncommitted n" using assms(3,4) by (simp add: uncommitted_inj)
    with m show ?thesis by (simp add: conflict_def visible_def)
  qed
qed

section \<open>The changes of a list, seen by every transaction\<close>

lemma base_push: "base m ((uncommitted n, r) # vs) = base m vs"
  by (simp add: base_def)

lemma modified_push: "modified_since m ((uncommitted n, r) # vs) \<longleftrightarrow> modified_since m vs"
  by (simp add: modified_since_def)

lemma own_push_other:
  assumes "chain_ok c L vs" and "c \<le> ts_limit" and "\<not> conflict n vs" and "n < ts_limit"
    and "\<forall>m\<in>L. m < ts_limit" and "m \<in> L" and "m \<noteq> n"
  shows "own m ((uncommitted n, r) # vs) = own m vs"
  using assms conflict_iff [OF assms(1,2,4,5)] by (auto simp: own_push)

lemma stamp_type:
  "c < ts_limit \<Longrightarrow> ts_type (fst (stamp n (Timestamp c) v)) = Commit \<longleftrightarrow>
     ts_type (fst v) = Commit \<or> fst v = uncommitted n"
  using ts_small_raw(2) [of "Timestamp c"] by (auto simp: stamp_def ts_small_def)

lemma snd_stamp [simp]: "snd (stamp n ts v) = snd v"
  by (simp add: stamp_def)

lemma first_value_map:
  "(\<And>v. snd (f v) = snd v) \<Longrightarrow> first_value P (map f vs) = first_value (\<lambda>v. P (f v)) vs"
  by (induction vs) auto

lemma base_stamp:
  assumes "m < c" and "c < ts_limit"
  shows "base m (map (stamp n (Timestamp c)) vs) = base m vs"
proof -
  have "ts_type (fst (stamp n (Timestamp c) v)) = Commit \<and>
      ts_bits (fst (stamp n (Timestamp c) v)) \<le> m \<longleftrightarrow>
      ts_type (fst v) = Commit \<and> ts_bits (fst v) \<le> m" for v :: "'a version"
    using assms stamp_type [OF assms(2), of n v] by (auto simp: stamp_def)
  then show ?thesis unfolding base_def by (simp add: first_value_map)
qed

lemma own_stamp:
  assumes "m < ts_limit" and "n < ts_limit" and "m \<noteq> n" and "c < ts_limit"
  shows "own m (map (stamp n (Timestamp c)) vs) = own m vs"
proof -
  have "Timestamp c \<noteq> uncommitted m"
    using assms(4) ts_small_raw(2) [of "Timestamp c"] by (auto simp: ts_small_def)
  then show ?thesis
    using assms by (cases vs) (auto simp: own_def stamp_def uncommitted_inj)
qed

lemma modified_stamp:
  assumes "chain_ok c L vs" and "c < ts_limit" and "n < ts_limit" and "\<forall>m\<in>L. m < ts_limit"
    and "m < c"
  shows "modified_since m (map (stamp n (Timestamp c)) vs) \<longleftrightarrow>
    modified_since m vs \<or> own n vs \<noteq> None"
proof (cases "own n vs = None")
  case True
  then show ?thesis using assms by (simp add: stamp_other)
next
  case False
  then obtain v ws where v: "vs = v # ws" "fst v = uncommitted n"
    by (auto simp: own_def split: list.splits if_splits)
  have "ts_type (Timestamp c) = Commit"
    using assms(2) ts_small_raw(2) [of "Timestamp c"] by (simp add: ts_small_def)
  with v assms(5) have "modified_since m (map (stamp n (Timestamp c)) vs)"
    by (simp add: modified_since_def stamp_def)
  with False show ?thesis by simp
qed

lemma latest_stamp:
  assumes "chain_ok c L vs" and "c < ts_limit" and "0 < c" and "n < ts_limit"
    and "\<forall>m\<in>L. m < ts_limit"
  shows "latest (map (stamp n (Timestamp c)) vs) =
    (case own n vs of Some x \<Rightarrow> x | None \<Rightarrow> latest vs)"
proof (cases "own n vs")
  case None
  with assms show ?thesis by (simp add: stamp_other)
next
  case (Some x)
  with chain_ok_stamp(2) [OF assms(1,2) _ assms(4,3,5)] show ?thesis by simp
qed

lemma chain_ok_leave:
  assumes "chain_ok c L vs" and "c \<le> ts_limit" and "own n vs = None"
  shows "chain_ok c (L - {n}) vs"
  using assms(1,2)
proof (cases rule: chain_ok_cases)
  case committed
  then show ?thesis by (auto simp: chain_ok_def pending_ok_def)
next
  case (pending m us cs)
  then obtain u us' where us: "us = u # us'" by (cases us) auto
  with pending assms(3) have "m \<noteq> n" by (auto simp: own_def)
  with pending show ?thesis unfolding chain_ok_def pending_ok_def by blast
qed

lemma chain_ok_commit:
  assumes "chain_ok c L vs" and "c < ts_limit" and "0 < c" and "n < ts_limit"
    and "\<forall>m\<in>L. m < ts_limit"
  shows "chain_ok (c + 1) (L - {n}) (map (stamp n (Timestamp c)) vs)"
proof (cases "own n vs = None")
  case True
  then have "map (stamp n (Timestamp c)) vs = vs" using assms by (simp add: stamp_other)
  moreover have "chain_ok c (L - {n}) vs" using True assms by (simp add: chain_ok_leave)
  ultimately show ?thesis
    using word_less_Suc [OF assms(2)] by (metis chain_ok_mono less_imp_le order_refl)
next
  case False
  then have "commits_ok (c + 1) (map (stamp n (Timestamp c)) vs)"
    using assms by (intro chain_ok_stamp(1)) auto
  then show ?thesis by (auto simp: chain_ok_def pending_ok_def)
qed

lemma drop_own_base: "base m (dropWhile (\<lambda>v. fst v = uncommitted n) vs) = base m vs"
  by (induction vs) (auto simp: base_def)

lemma drop_own_modified:
  "modified_since m (dropWhile (\<lambda>v. fst v = uncommitted n) vs) \<longleftrightarrow> modified_since m vs"
  by (induction vs) (auto simp: modified_since_def)

lemma drop_own_own:
  assumes "chain_ok c L vs" and "c \<le> ts_limit" and "n < ts_limit"
    and "\<forall>m\<in>L. m < ts_limit" and "m \<in> L"
  shows "own m (dropWhile (\<lambda>v. fst v = uncommitted n) vs) = (if m = n then None else own m vs)"
proof (cases "m = n")
  case True
  have no: "\<forall>v\<in>set (dropWhile (\<lambda>v. fst v = uncommitted n) vs). fst v \<noteq> uncommitted n"
    using drop_own_chain_ok(2) [OF assms(1-4)] .
  show ?thesis
  proof (cases "dropWhile (\<lambda>v. fst v = uncommitted n) vs")
    case (Cons v ws)
    with no have "fst v \<noteq> uncommitted n" by (metis list.set_intros(1))
    with Cons True show ?thesis by (simp add: own_def)
  next
    case Nil
    then show ?thesis using True by (simp only: own_Nil if_True simp_thms)
  qed
next
  case False
  show ?thesis
  proof (cases "own m vs")
    case (Some x)
    then show ?thesis using own_drop_other [of m vs x n] False assms by simp
  next
    case None
    have "own m (dropWhile (\<lambda>v. fst v = uncommitted n) vs) = None"
    proof (rule ccontr)
      assume own: "own m (dropWhile (\<lambda>v. fst v = uncommitted n) vs) \<noteq> None"
      then obtain w ws where w: "dropWhile (\<lambda>v. fst v = uncommitted n) vs = w # ws"
        "fst w = uncommitted m" by (auto simp: own_def split: list.splits if_splits)
      then have "w \<in> set vs" by (metis list.set_intros(1) set_dropWhileD)
      from assms(1,2) show False
      proof (cases rule: chain_ok_cases)
        case committed
        with \<open>w \<in> set vs\<close> w(2) assms(2) commits_ok_not_uncommitted show False by blast
      next
        case (pending i us cs)
        from \<open>w \<in> set vs\<close> pending(3) consider "w \<in> set us" | "w \<in> set cs" by auto
        then show False
        proof cases
          case 1
          obtain u us' where "us = u # us'" using pending(2) by (cases us) auto
          moreover have "i = m" using 1 pending w(2) assms(4,5) by (simp add: uncommitted_inj)
          ultimately have "own m vs \<noteq> None" using pending by (simp add: own_def)
          with None show False by simp
        next
          case 2
          with pending(6) w(2) assms(2) commits_ok_not_uncommitted show False by blast
        qed
      qed
    qed
    with None False show ?thesis by simp
  qed
qed

end
