(* ===== verification/Mvcc.thy ===== *)
theory Mvcc
  imports Version_List
begin

text \<open>
  Many transactions on one memtable: \<open>commit\<close> and \<open>abort\<close> of \<open>transaction_manager.rs\<close> as far as
  they touch the manager and the memtable, and the step relation of a database whose clients run
  transactions in normal mode, in any interleaving of their operations.

  A step is one operation of one client. A commit is one step, since the code holds the lock of
  \<open>snapshot_data\<close> while it stamps the redo nodes, and every start takes the same lock. An abort
  is a step that leaves the set of running transactions and then one step for each redo node
  that it rolls back, so that other clients run in between.
\<close>

declare split_paired_All [simp del]

section \<open>Commit and abort\<close>

fun stamp_nodes ::
  "timestamp \<Rightarrow> ('k \<times> nat) list \<Rightarrow> ('k, 'v) memtable \<Rightarrow> ('k, 'v) memtable res" where
  "stamp_nodes commit_ts [] m = Inr m"
| "stamp_nodes commit_ts ((k, a) # rest) m =
     res_bind (deref m a) (\<lambda>redo.
       stamp_nodes commit_ts rest
         (m\<lparr>mt_heap := (mt_heap m)(a \<mapsto> store_timestamp commit_ts redo)\<rparr>))"

definition commit_section ::
  "('k, 'v) txn \<Rightarrow> ('k, 'v) shared \<Rightarrow> (timestamp \<times> ('k, 'v) txn \<times> ('k, 'v) shared) res" where
  "commit_section t s =
     (let (m, tm) = s;
          commit_ts = ts_new Commit (timestamp_counter tm);
          tm' = tm\<lparr>timestamp_counter := timestamp_counter tm + 1\<rparr>
      in if is_readonly t
         then Inr (commit_ts, t, (m, finish_xid (start_timestamp t) tm'))
         else res_bind (stamp_nodes commit_ts (redo_nodes t) m) (\<lambda>m'.
                Inr (commit_ts, t\<lparr>redo_nodes := []\<rparr>, (m', finish_xid (start_timestamp t) tm'))))"

definition abort_section ::
  "('k, 'v) txn \<Rightarrow> txn_manager \<Rightarrow> ('k \<times> nat) list \<times> ('k, 'v) txn \<times> txn_manager" where
  "abort_section t tm =
     (redo_nodes t, t\<lparr>redo_nodes := []\<rparr>, finish_xid (start_timestamp t) tm)"

section \<open>The system\<close>

datatype ('k, 'v) session =
    Running "('k, 'v) txn"
  | Aborting "('k, 'v) txn" "('k \<times> nat) list"

record ('k, 'v) sys =
  sys_mem :: "('k, 'v) memtable"
  sys_tm :: txn_manager
  sys_txns :: "u64 \<rightharpoonup> ('k, 'v) session"

definition sys_init :: "('k, 'v) sys" where
  "sys_init = \<lparr>sys_mem = memtable_new, sys_tm = txn_manager_new, sys_txns = Map.empty\<rparr>"

text \<open>A transaction is named by the counter it started at.\<close>

datatype ('k, 'v) event =
    EBegin u64
  | EGet u64 'k "'v option res"
  | EPut u64 'k 'v "bool res"
  | EUpdate u64 'k "'v \<Rightarrow> 'v" "bool res"
  | EDelete u64 'k "bool res"
  | ECommit u64
  | EAbort u64
  | ERollback u64 'k
  | EAborted u64

inductive step ::
  "('k, 'v) mt_codec \<Rightarrow> ('k, 'v) sys \<Rightarrow> ('k, 'v) event \<Rightarrow> ('k, 'v) sys \<Rightarrow> bool"
  for cd where
  step_begin: "\<lbrakk>timestamp_counter (sys_tm s) < ts_limit;
     start_transaction Normal (sys_tm s) = (t, tm')\<rbrakk> \<Longrightarrow>
   step cd s (EBegin (timestamp_counter (sys_tm s)))
     (s\<lparr>sys_tm := tm', sys_txns := (sys_txns s)(timestamp_counter (sys_tm s) \<mapsto> Running t)\<rparr>)"
| step_get: "\<lbrakk>sys_txns s n = Some (Running t); mt_get (sys_tm s) (sys_mem s) t k = Inr (v, t')\<rbrakk> \<Longrightarrow>
   step cd s (EGet n k (Inr v)) (s\<lparr>sys_txns := (sys_txns s)(n \<mapsto> Running t')\<rparr>)"
| step_get_fault: "\<lbrakk>sys_txns s n = Some (Running t); mt_get (sys_tm s) (sys_mem s) t k = Inl e\<rbrakk> \<Longrightarrow>
   step cd s (EGet n k (Inl e)) s"
| step_put: "\<lbrakk>sys_txns s n = Some (Running t);
     mt_put cd [] k v (sys_mem s, sys_tm s) t = ((m', tm'), t', r)\<rbrakk> \<Longrightarrow>
   step cd s (EPut n k v r)
     (s\<lparr>sys_mem := m', sys_tm := tm', sys_txns := (sys_txns s)(n \<mapsto> Running t')\<rparr>)"
| step_update: "\<lbrakk>sys_txns s n = Some (Running t);
     mt_update cd [] k f (sys_mem s, sys_tm s) t = ((m', tm'), t', r)\<rbrakk> \<Longrightarrow>
   step cd s (EUpdate n k f r)
     (s\<lparr>sys_mem := m', sys_tm := tm', sys_txns := (sys_txns s)(n \<mapsto> Running t')\<rparr>)"
| step_delete: "\<lbrakk>sys_txns s n = Some (Running t);
     mt_delete cd [] k (sys_mem s, sys_tm s) t = ((m', tm'), t', r)\<rbrakk> \<Longrightarrow>
   step cd s (EDelete n k r)
     (s\<lparr>sys_mem := m', sys_tm := tm', sys_txns := (sys_txns s)(n \<mapsto> Running t')\<rparr>)"
| step_commit: "\<lbrakk>sys_txns s n = Some (Running t);
     timestamp_counter (sys_tm s) < ts_limit;
     commit_section t (sys_mem s, sys_tm s) = Inr (ts, t', (m', tm'))\<rbrakk> \<Longrightarrow>
   step cd s (ECommit n) (s\<lparr>sys_mem := m', sys_tm := tm', sys_txns := (sys_txns s)(n := None)\<rparr>)"
| step_abort: "\<lbrakk>sys_txns s n = Some (Running t);
     abort_section t (sys_tm s) = (nodes, t', tm')\<rbrakk> \<Longrightarrow>
   step cd s (EAbort n) (s\<lparr>sys_tm := tm', sys_txns := (sys_txns s)(n \<mapsto> Aborting t' nodes)\<rparr>)"
| step_rollback: "\<lbrakk>sys_txns s n = Some (Aborting t ((k, a) # rest));
     mt_rollback t k (sys_mem s) = Inr m'\<rbrakk> \<Longrightarrow>
   step cd s (ERollback n k)
     (s\<lparr>sys_mem := m', sys_txns := (sys_txns s)(n \<mapsto> Aborting t rest)\<rparr>)"
| step_aborted: "sys_txns s n = Some (Aborting t []) \<Longrightarrow>
   step cd s (EAborted n) (s\<lparr>sys_txns := (sys_txns s)(n := None)\<rparr>)"

inductive steps ::
  "('k, 'v) mt_codec \<Rightarrow> ('k, 'v) sys \<Rightarrow> ('k, 'v) event list \<Rightarrow> ('k, 'v) sys \<Rightarrow> bool"
  for cd where
  steps_nil: "steps cd s [] s"
| steps_snoc: "\<lbrakk>steps cd s es s'; step cd s' e s''\<rbrakk> \<Longrightarrow> steps cd s (es @ [e]) s''"

definition reachable :: "('k, 'v) mt_codec \<Rightarrow> ('k, 'v) sys \<Rightarrow> bool" where
  "reachable cd s \<longleftrightarrow> (\<exists>es. steps cd sys_init es s)"

inductive_cases step_BeginE [elim]: "step cd s (EBegin n) s'"
inductive_cases step_GetE [elim]: "step cd s (EGet n k r) s'"
inductive_cases step_PutE [elim]: "step cd s (EPut n k v r) s'"
inductive_cases step_UpdateE [elim]: "step cd s (EUpdate n k f r) s'"
inductive_cases step_DeleteE [elim]: "step cd s (EDelete n k r) s'"
inductive_cases step_CommitE [elim]: "step cd s (ECommit n) s'"
inductive_cases step_AbortE [elim]: "step cd s (EAbort n) s'"
inductive_cases step_RollbackE [elim]: "step cd s (ERollback n k) s'"
inductive_cases step_AbortedE [elim]: "step cd s (EAborted n) s'"

section \<open>Stamping the redo nodes of a transaction\<close>

text \<open>The redo nodes of a transaction are exactly its pending versions.\<close>

definition redo_ok :: "('k, 'v) memtable \<Rightarrow> u64 \<Rightarrow> ('k \<times> nat) list \<Rightarrow> bool" where
  "redo_ok m n nodes \<longleftrightarrow>
     (\<forall>k a. (k, a) \<in> set nodes \<longleftrightarrow>
        a \<in> set (chain_addrs m k) \<and> fst (node_version m a) = uncommitted n)"

lemma wf_in_heap: "\<lbrakk>mt_wf m; a \<in> set (chain_addrs m k)\<rbrakk> \<Longrightarrow> \<exists>n. mt_heap m a = Some n"
  using rep_in_heap [of m "chain_addrs m" a k] by (simp add: mt_wf_def)

lemma retime_rep:
  fixes ts :: timestamp
  assumes "mt_wf m" and "mt_heap m a = Some r"
  defines "m' \<equiv> m\<lparr>mt_heap := (mt_heap m)(a \<mapsto> store_timestamp ts r)\<rparr>"
  shows "mt_wf m'" and "chain_addrs m' = chain_addrs m"
    and "node_version m' b = (if b = a then (ts, snd (node_version m a)) else node_version m b)"
proof -
  note u = node_update_rep [OF assms(1,2), of "store_timestamp ts r"]
  show "mt_wf m'" "chain_addrs m' = chain_addrs m"
    using u(1,2) by (simp_all add: m'_def store_timestamp_def)
  show "node_version m' b = (if b = a then (ts, snd (node_version m a)) else node_version m b)"
    using u(3) assms(2) by (simp add: m'_def store_timestamp_def) (simp add: node_version_def)
qed

lemma stamp_nodes_rep:
  assumes "mt_wf m" and "\<forall>(k, a)\<in>set nodes. a \<in> set (chain_addrs m k)"
  shows "\<exists>m'. stamp_nodes ts nodes m = Inr m' \<and> mt_wf m' \<and> chain_addrs m' = chain_addrs m \<and>
    mt_table m' = mt_table m \<and> mt_cells m' = mt_cells m \<and>
    (\<forall>b. node_version m' b =
       (if b \<in> snd ` set nodes then (ts, snd (node_version m b)) else node_version m b)) \<and>
    (no_abort m \<longrightarrow> no_abort m')"
  using assms
proof (induction nodes arbitrary: m)
  case Nil
  then show ?case by simp
next
  case (Cons ka nodes)
  obtain k a where ka: "ka = (k, a)" by (cases ka)
  with Cons.prems have "a \<in> set (chain_addrs m k)" by simp
  with wf_in_heap [OF Cons.prems(1)] obtain r where r: "mt_heap m a = Some r" by blast
  let ?m = "m\<lparr>mt_heap := (mt_heap m)(a \<mapsto> store_timestamp ts r)\<rparr>"
  note m1 = retime_rep [OF Cons.prems(1) r, where ts = ts]
  have "\<forall>(k, a)\<in>set nodes. a \<in> set (chain_addrs ?m k)"
    using Cons.prems(2) m1(2) by auto
  with Cons.IH [OF m1(1)] obtain m' where m': "stamp_nodes ts nodes ?m = Inr m'" "mt_wf m'"
    "chain_addrs m' = chain_addrs ?m" "mt_table m' = mt_table ?m" "mt_cells m' = mt_cells ?m"
    "\<And>b. node_version m' b =
       (if b \<in> snd ` set nodes then (ts, snd (node_version ?m b)) else node_version ?m b)"
    "no_abort ?m \<longrightarrow> no_abort m'"
    by blast
  moreover have "no_abort m \<Longrightarrow> no_abort ?m"
    using r by (auto simp: no_abort_def store_timestamp_def)
  moreover have "stamp_nodes ts (ka # nodes) m = Inr m'" using m'(1) r by (simp add: ka deref_def)
  ultimately show ?case using m1 by (auto simp: ka)
qed

section \<open>The invariant\<close>

fun session_ok ::
  "('k, 'v) memtable \<Rightarrow> txn_manager \<Rightarrow> u64 \<Rightarrow> ('k, 'v) session \<Rightarrow> bool" where
  "session_ok m tm n (Running t) \<longleftrightarrow> txn_at n t \<and> Timestamp n \<in> set (xips tm) \<and>
     redo_ok m n (redo_nodes t) \<and> (is_readonly t \<longrightarrow> redo_nodes t = [])"
| "session_ok m tm n (Aborting t nodes) \<longleftrightarrow> txn_at n t \<and>
     (\<forall>k. own n (versions m k) \<noteq> None \<longrightarrow> k \<in> fst ` set nodes)"

definition sys_inv :: "('k, 'v) sys \<Rightarrow> bool" where
  "sys_inv s \<longleftrightarrow> tm_inv (sys_tm s) \<and> mt_wf (sys_mem s) \<and>
     (\<forall>k. chain_ok (timestamp_counter (sys_tm s)) (dom (sys_txns s)) (versions (sys_mem s) k)) \<and>
     no_abort (sys_mem s) \<and>
     (\<forall>n x. sys_txns s n = Some x \<longrightarrow>
        n < timestamp_counter (sys_tm s) \<and> session_ok (sys_mem s) (sys_tm s) n x) \<and>
     (\<forall>x\<in>set (xips (sys_tm s)). \<exists>t. sys_txns s (ts_bits x) = Some (Running t))"

lemma inv_tm: "sys_inv s \<Longrightarrow> tm_inv (sys_tm s)"
  by (simp add: sys_inv_def)

lemma inv_counter:
  "sys_inv s \<Longrightarrow> timestamp_counter (sys_tm s) \<le> ts_limit \<and> 0 < timestamp_counter (sys_tm s)"
  by (simp add: sys_inv_def tm_inv_def)

lemma inv_wf: "sys_inv s \<Longrightarrow> mt_wf (sys_mem s)"
  by (simp add: sys_inv_def)

lemma inv_chain: "sys_inv s \<Longrightarrow>
  chain_ok (timestamp_counter (sys_tm s)) (dom (sys_txns s)) (versions (sys_mem s) k)"
  by (simp add: sys_inv_def)

lemma inv_no_abort: "sys_inv s \<Longrightarrow> no_abort (sys_mem s)"
  by (simp add: sys_inv_def)

lemma inv_live: "sys_inv s \<Longrightarrow> \<not> entry_dead (sys_mem s) k"
  by (rule no_abort_live [OF inv_no_abort])

lemma inv_session: "\<lbrakk>sys_inv s; sys_txns s n = Some x\<rbrakk> \<Longrightarrow>
  n < timestamp_counter (sys_tm s) \<and> session_ok (sys_mem s) (sys_tm s) n x"
  unfolding sys_inv_def by blast

lemma inv_xips: "\<lbrakk>sys_inv s; x \<in> set (xips (sys_tm s))\<rbrakk> \<Longrightarrow>
  \<exists>t. sys_txns s (ts_bits x) = Some (Running t)"
  unfolding sys_inv_def by blast

lemma inv_small: "\<lbrakk>sys_inv s; sys_txns s n = Some x\<rbrakk> \<Longrightarrow> n < ts_limit"
  using inv_session inv_counter by fastforce

lemma inv_dom_small: "sys_inv s \<Longrightarrow> \<forall>m\<in>dom (sys_txns s). m < ts_limit"
  using inv_small by blast

lemma sys_invI:
  assumes "tm_inv tm" and "mt_wf m"
    and "\<And>k. chain_ok (timestamp_counter tm) (dom T) (versions m k)"
    and "no_abort m"
    and "\<And>n x. T n = Some x \<Longrightarrow> n < timestamp_counter tm"
    and "\<And>n x. T n = Some x \<Longrightarrow> session_ok m tm n x"
    and "\<And>x. x \<in> set (xips tm) \<Longrightarrow> \<exists>t. T (ts_bits x) = Some (Running t)"
    and "sys_mem s = m" and "sys_tm s = tm" and "sys_txns s = T"
  shows "sys_inv s"
  unfolding sys_inv_def using assms by blast

lemma sys_inv_init: "sys_inv (sys_init :: ('k, 'v) sys)"
proof -
  have "versions (memtable_new :: ('k, 'v) memtable) k = []" for k
    by (simp add: versions_def chain_addrs_def memtable_new_def)
  moreover have "no_abort (memtable_new :: ('k, 'v) memtable)"
    by (simp add: no_abort_def memtable_new_def)
  moreover have "xips txn_manager_new = []"
    by (simp add: txn_manager_new_def)
  ultimately show ?thesis
    by (auto simp: sys_inv_def sys_init_def mt_wf_new)
qed

text \<open>The two facts a running transaction uses at every operation.\<close>

lemma running_txn:
  assumes "sys_inv s" and "sys_txns s n = Some (Running t)"
  shows "txn_at n t" and "redo_ok (sys_mem s) n (redo_nodes t)"
    and "Timestamp n \<in> set (xips (sys_tm s))" and "is_readonly t \<Longrightarrow> redo_nodes t = []"
  using inv_session [OF assms] by auto

lemma running_scan:
  assumes "sys_inv s" and "sys_txns s n = Some (Running t)"
  shows "scan (sys_tm s) t (versions (sys_mem s) k) = Inr (view n (versions (sys_mem s) k), t)"
    and "head_check (sys_tm s) t (versions (sys_mem s) k) =
      Inr (conflict n (versions (sys_mem s) k), t)"
    and "mt_get (sys_tm s) (sys_mem s) t k = Inr (view n (versions (sys_mem s) k), t)"
proof -
  note c = inv_counter [OF assms(1), THEN conjunct1] inv_chain [OF assms(1), of k]
  show sc: "scan (sys_tm s) t (versions (sys_mem s) k) =
      Inr (view n (versions (sys_mem s) k), t)"
    using scan_view [OF running_txn(1) [OF assms] c] .
  show "head_check (sys_tm s) t (versions (sys_mem s) k) =
      Inr (conflict n (versions (sys_mem s) k), t)"
    using head_check_conflict [OF running_txn(1) [OF assms] c] .
  show "mt_get (sys_tm s) (sys_mem s) t k = Inr (view n (versions (sys_mem s) k), t)"
    using mt_get_scan [OF inv_wf [OF assms(1)], of "sys_tm s" t k] inv_live [OF assms(1), of k] sc
    by simp
qed

section \<open>Operations keep the invariant\<close>

lemma inv_begin:
  assumes inv: "sys_inv s" and lt: "timestamp_counter (sys_tm s) < ts_limit"
    and st: "start_transaction Normal (sys_tm s) = (t, tm')"
  shows "sys_inv (s\<lparr>sys_tm := tm',
      sys_txns := (sys_txns s)(timestamp_counter (sys_tm s) \<mapsto> Running t)\<rparr>)"
    and "sys_txns s (timestamp_counter (sys_tm s)) = None"
    and "txn_at (timestamp_counter (sys_tm s)) t"
proof -
  let ?c = "timestamp_counter (sys_tm s)"
  let ?T = "(sys_txns s)(?c \<mapsto> Running t)"
  note f = start_transaction_fields [OF st]
  note tm = start_transaction_inv [OF inv_tm [OF inv] lt st]
  have up: "?c < ?c + 1" using lt by (rule word_less_Suc)
  show none: "sys_txns s ?c = None"
    using inv_session [OF inv, of ?c] by (cases "sys_txns s ?c") auto
  show at: "txn_at ?c t"
    using lt inv_counter [OF inv]
    by (simp add: txn_at_def f(1,3,9) uncommitted_def ts_new_commit_small)
  have ro: "redo_ok (sys_mem s) ?c []"
  proof -
    have "fst (node_version (sys_mem s) a) \<noteq> uncommitted ?c"
      if "a \<in> set (chain_addrs (sys_mem s) k)" for a k
    proof
      assume u: "fst (node_version (sys_mem s) a) = uncommitted ?c"
      have "node_version (sys_mem s) a \<in> set (versions (sys_mem s) k)"
        using that by (simp add: versions_def)
      from chain_ok_types [OF inv_chain [OF inv] inv_counter [OF inv, THEN conjunct1] this] u
      have "\<exists>n\<in>dom (sys_txns s). uncommitted ?c = uncommitted n" by simp
      then obtain n where "n \<in> dom (sys_txns s)" "uncommitted ?c = uncommitted n" by blast
      with none inv_dom_small [OF inv] lt show False by (auto simp: uncommitted_inj)
    qed
    then show ?thesis by (auto simp: redo_ok_def)
  qed
  have ok: "session_ok (sys_mem s) tm' n x" if "?T n = Some x" for n x
  proof (cases "n = ?c")
    case True
    with that have x: "x = Running t" by simp
    show ?thesis using True at ro tm(2) lt by (simp add: x f ts_new_commit_small)
  next
    case False
    with that inv_session [OF inv] have "session_ok (sys_mem s) (sys_tm s) n x" by simp
    then show ?thesis using tm(2) by (cases x) auto
  qed
  have ds: "dom (sys_txns s) \<subseteq> dom ?T" by auto
  show "sys_inv (s\<lparr>sys_tm := tm', sys_txns := ?T\<rparr>)"
  proof (rule sys_invI [where tm = tm' and T = ?T and m = "sys_mem s"])
    show "chain_ok (timestamp_counter tm') (dom ?T) (versions (sys_mem s) k)" for k
      using chain_ok_mono [OF inv_chain [OF inv, of k] _ ds, of "?c + 1"] up by (simp add: f(2))
    show "n < timestamp_counter tm'" if "?T n = Some x" for n x
      using that inv_session [OF inv, of n] up by (auto simp: f(2) split: if_splits)
    show "\<exists>t. ?T (ts_bits x) = Some (Running t)" if x: "x \<in> set (xips tm')" for x
    proof (cases "x = start_timestamp t")
      case True
      then show ?thesis using lt by (simp add: f(1))
    next
      case False
      with x tm(2) inv_xips [OF inv, of x] show ?thesis by auto
    qed
    show "?T n = Some x \<Longrightarrow> session_ok (sys_mem s) tm' n x" for n x by (rule ok)
  qed (use tm inv in \<open>auto simp: inv_wf inv_no_abort\<close>)
qed

text \<open>A write that met no conflict.\<close>

lemma redo_ok_written:
  assumes wf: "mt_wf m" and w: "written m k (uncommitted n, r) a m'" and i: "redo_ok m i nodes"
    and neq: "uncommitted i = uncommitted n \<longrightarrow> nodes' = nodes @ [(k, a)]"
      "uncommitted i \<noteq> uncommitted n \<longrightarrow> nodes' = nodes"
  shows "redo_ok m' i nodes'"
proof -
  have a: "a \<notin> set (chain_addrs m j)" for j
    using wf_in_heap [OF wf, of a j] w by (auto simp: written_def)
  have same: "node_version m' b = node_version m b" if "b \<noteq> a" for b
    using w that by (simp add: written_def node_version_def)
  have "versions m' k = (uncommitted n, r) # versions m k" "chain_addrs m' k = a # chain_addrs m k"
    using w by (simp_all add: written_def)
  then have va: "fst (node_version m' a) = uncommitted n" by (simp add: versions_def)
  have ca: "chain_addrs m' j = (if j = k then a # chain_addrs m k else chain_addrs m j)" for j
    using w by (simp add: written_def)
  show ?thesis
    unfolding redo_ok_def
  proof (intro allI)
    fix j b
    show "(j, b) \<in> set nodes' \<longleftrightarrow>
        b \<in> set (chain_addrs m' j) \<and> fst (node_version m' b) = uncommitted i"
    proof (cases "b = a")
      case True
      then have no: "(j, b) \<notin> set nodes" using i a [of j] by (simp add: redo_ok_def)
      show ?thesis
      proof (cases "uncommitted i = uncommitted n")
        case eq: True
        show ?thesis using True no neq(1) eq va ca [of j] a [of j] by simp
      next
        case ne: False
        then show ?thesis using True no neq(2) va by simp
      qed
    next
      case False
      then have "(j, b) \<in> set nodes' \<longleftrightarrow> (j, b) \<in> set nodes"
        using neq by (cases "uncommitted i = uncommitted n") simp_all
      also have "\<dots> \<longleftrightarrow> b \<in> set (chain_addrs m j) \<and> fst (node_version m b) = uncommitted i"
        using i by (simp add: redo_ok_def)
      finally show ?thesis using False same [of b] ca [of j] by simp
    qed
  qed
qed

lemma inv_write:
  assumes inv: "sys_inv s" and run: "sys_txns s n = Some (Running t)"
    and nc: "\<not> conflict n (versions (sys_mem s) k)"
    and w: "written (sys_mem s) k (uncommitted n, r) a m'"
  shows "sys_inv (s\<lparr>sys_mem := m', sys_tm := sys_tm s,
      sys_txns := (sys_txns s)(n \<mapsto> Running (keep_node cd k a r t))\<rparr>)"
proof -
  let ?t = "keep_node cd k a r t" and ?m = "sys_mem s" and ?c = "timestamp_counter (sys_tm s)"
  let ?T = "(sys_txns s)(n \<mapsto> Running ?t)"
  have dT: "dom ?T = dom (sys_txns s)" using run by auto
  note wf = inv_wf [OF inv] note small = inv_small [OF inv]
  have n: "n < ts_limit" using small run by blast
  have at: "txn_at n ?t" using running_txn(1) [OF inv run] by (simp add: txn_at_def)
  have fc: "\<not> is_fast_commit t" using at by (simp add: txn_at_def is_fast_commit_def)
  have ch: "chain_ok ?c (dom (sys_txns s)) (versions m' j)" for j
  proof (cases "j = k")
    case True
    have "chain_ok ?c (dom (sys_txns s)) ((uncommitted n, r) # versions ?m k)"
      using chain_ok_push [OF inv_chain [OF inv] _ _ nc inv_dom_small [OF inv]]
        inv_counter [OF inv] run by blast
    with True w show ?thesis by (simp add: written_def)
  next
    case False
    with w inv_chain [OF inv, of j] show ?thesis by (simp add: written_def)
  qed
  have ok: "session_ok m' (sys_tm s) i x" if x: "?T i = Some x" for i x
  proof (cases "i = n")
    case True
    have "redo_ok m' n (redo_nodes ?t)"
      using running_txn(2) [OF inv run] fc by (intro redo_ok_written [OF wf w]) auto
    moreover have "x = Running ?t" using True x by simp
    ultimately show ?thesis using True at running_txn(3) [OF inv run] by simp
  next
    case False
    with x have xi: "sys_txns s i = Some x" by simp
    then have ne: "uncommitted i \<noteq> uncommitted n"
      using False n small by (simp add: uncommitted_inj)
    note oki = inv_session [OF inv xi, THEN conjunct2]
    show ?thesis
    proof (cases x)
      case (Running t')
      with oki ne show ?thesis using redo_ok_written [OF wf w] by auto
    next
      case (Aborting t' nodes)
      have "own i (versions m' j) = own i (versions ?m j)" for j
      proof (cases "j = k")
        case True
        have "own i ((uncommitted n, r) # versions ?m k) = own i (versions ?m k)"
          using own_push_other [OF inv_chain [OF inv] _ nc n inv_dom_small [OF inv] _ False]
            inv_counter [OF inv] xi by blast
        with True w show ?thesis by (simp add: written_def)
      next
        case False
        with w show ?thesis by (simp add: written_def)
      qed
      with oki Aborting show ?thesis by simp
    qed
  qed
  show ?thesis
  proof (rule sys_invI [where tm = "sys_tm s" and T = ?T and m = m'])
    show "\<And>j. chain_ok ?c (dom ?T) (versions m' j)" unfolding dT by (rule ch)
    show "no_abort m'" using w inv_no_abort [OF inv] by (simp add: written_def)
    show "\<And>i x. ?T i = Some x \<Longrightarrow> i < ?c" using inv_session [OF inv] run by (auto split: if_splits)
    show "\<And>x. x \<in> set (xips (sys_tm s)) \<Longrightarrow> \<exists>t. ?T (ts_bits x) = Some (Running t)"
      using inv_xips [OF inv] by auto
    show "\<And>i x. ?T i = Some x \<Longrightarrow> session_ok m' (sys_tm s) i x" by (rule ok)
  qed (use w inv in \<open>auto simp: written_def inv_tm\<close>)
qed

section \<open>Commit and abort keep the invariant\<close>

text \<open>The effect of the locked section of \<open>commit\<close>: every list is stamped.\<close>

lemma uncommitted_not_commit_ts: "c < ts_limit \<Longrightarrow> Timestamp c \<noteq> uncommitted n"
  using ts_small_raw(2) [of "Timestamp c"] by (auto simp: ts_small_def)

lemma stamp_nodes_versions:
  assumes wf: "mt_wf m" and ro: "redo_ok m n nodes"
  shows "\<exists>m'. stamp_nodes ts nodes m = Inr m' \<and> mt_wf m' \<and> chain_addrs m' = chain_addrs m \<and>
    (\<forall>k. versions m' k = map (stamp n ts) (versions m k)) \<and>
    (no_abort m \<longrightarrow> no_abort m') \<and>
    (\<forall>k. \<forall>a\<in>set (chain_addrs m k). node_version m' a = stamp n ts (node_version m a))"
proof -
  have "\<forall>(k, a)\<in>set nodes. a \<in> set (chain_addrs m k)" using ro by (auto simp: redo_ok_def)
  from stamp_nodes_rep [OF wf this, of ts] obtain m' where m': "stamp_nodes ts nodes m = Inr m'"
    "mt_wf m'" "chain_addrs m' = chain_addrs m" "mt_table m' = mt_table m"
    "mt_cells m' = mt_cells m"
    "\<And>b. node_version m' b =
       (if b \<in> snd ` set nodes then (ts, snd (node_version m b)) else node_version m b)"
    "no_abort m \<longrightarrow> no_abort m'"
    by blast
  have nv: "node_version m' a = stamp n ts (node_version m a)" if a: "a \<in> set (chain_addrs m k)"
    for k a
  proof -
    have "a \<in> snd ` set nodes \<longleftrightarrow> fst (node_version m a) = uncommitted n"
    proof
      assume "a \<in> snd ` set nodes"
      then obtain j where "(j, a) \<in> set nodes" by auto
      with ro show "fst (node_version m a) = uncommitted n" by (auto simp: redo_ok_def)
    next
      assume "fst (node_version m a) = uncommitted n"
      with ro a have "(k, a) \<in> set nodes" by (auto simp: redo_ok_def)
      then show "a \<in> snd ` set nodes" by force
    qed
    then show ?thesis by (simp add: m'(6) stamp_def)
  qed
  then have "versions m' k = map (stamp n ts) (versions m k)" for k
    by (simp add: versions_def m'(3))
  then show ?thesis using m' nv by blast
qed

lemma stamp_readonly:
  assumes "mt_wf m" and "redo_ok m n []"
  shows "map (stamp n ts) (versions m k) = versions m k"
  using assms(2) by (auto simp: redo_ok_def versions_def stamp_def intro!: map_idI)

lemma commit_section_result:
  assumes inv: "sys_inv s" and run: "sys_txns s n = Some (Running t)"
  shows "\<exists>t' m'. commit_section t (sys_mem s, sys_tm s) =
      Inr (ts_new Commit (timestamp_counter (sys_tm s)), t',
        (m', finish_xid (Timestamp n)
          (sys_tm s\<lparr>timestamp_counter := timestamp_counter (sys_tm s) + 1\<rparr>))) \<and>
    mt_wf m' \<and> chain_addrs m' = chain_addrs (sys_mem s) \<and>
    (\<forall>k. versions m' k = map (stamp n (ts_new Commit (timestamp_counter (sys_tm s))))
       (versions (sys_mem s) k)) \<and>
    no_abort m' \<and>
    (\<forall>k. \<forall>a\<in>set (chain_addrs (sys_mem s) k). node_version m' a =
       stamp n (ts_new Commit (timestamp_counter (sys_tm s))) (node_version (sys_mem s) a))"
proof -
  have st: "start_timestamp t = Timestamp n" using running_txn(1) [OF inv run]
    by (simp add: txn_at_def)
  note wf = inv_wf [OF inv]
  let ?ts = "ts_new Commit (timestamp_counter (sys_tm s))"
  obtain m' where m': "stamp_nodes ?ts (redo_nodes t) (sys_mem s) = Inr m'" "mt_wf m'"
    "chain_addrs m' = chain_addrs (sys_mem s)"
    "\<forall>k. versions m' k = map (stamp n ?ts) (versions (sys_mem s) k)"
    "no_abort m'"
    "\<forall>k. \<forall>a\<in>set (chain_addrs (sys_mem s) k). node_version m' a =
       stamp n ?ts (node_version (sys_mem s) a)"
    using stamp_nodes_versions [OF wf running_txn(2) [OF inv run], of ?ts] inv_no_abort [OF inv]
    by blast
  show ?thesis
  proof (cases "is_readonly t")
    case True
    then have "redo_nodes t = []" by (rule running_txn(4) [OF inv run])
    with m'(1) have "m' = sys_mem s" by simp
    with True m' st show ?thesis by (simp add: commit_section_def)
  next
    case False
    with m' st show ?thesis by (simp add: commit_section_def)
  qed
qed

lemma inv_finish:
  assumes inv: "sys_inv s" and run: "sys_txns s n = Some (Running t)"
  shows "tm_inv (finish_xid (Timestamp n) (sys_tm s))"
    and "set (xips (finish_xid (Timestamp n) (sys_tm s))) = set (xips (sys_tm s)) - {Timestamp n}"
  using finish_xid_inv [OF inv_tm [OF inv] running_txn(3) [OF inv run]] by simp_all

lemma finish_xid_counter [simp]:
  "finish_xid x (tm\<lparr>timestamp_counter := c\<rparr>) = (finish_xid x tm)\<lparr>timestamp_counter := c\<rparr>"
  "timestamp_counter (finish_xid x tm) = timestamp_counter tm"
  by (simp_all add: finish_xid_def)

lemma left_xips:
  assumes "sys_inv s" and "x \<in> set (xips (sys_tm s)) - {Timestamp n}"
  shows "ts_bits x \<noteq> n \<and> (\<exists>t. sys_txns s (ts_bits x) = Some (Running t))"
  using assms inv_xips [OF assms(1), of x] by (cases x) simp

lemma tm_inv_advance:
  "\<lbrakk>tm_inv tm; timestamp_counter tm < ts_limit\<rbrakk> \<Longrightarrow>
     tm_inv (tm\<lparr>timestamp_counter := timestamp_counter tm + 1\<rparr>)"
  using word_less_Suc [of "timestamp_counter tm"] word_Suc_le [of "timestamp_counter tm"]
  by (auto simp: tm_inv_def intro: issued_mono)

lemma inv_commit:
  assumes inv: "sys_inv s" and run: "sys_txns s n = Some (Running t)"
    and lt: "timestamp_counter (sys_tm s) < ts_limit"
    and com: "commit_section t (sys_mem s, sys_tm s) = Inr (ts, t', (m', tm'))"
  shows "sys_inv (s\<lparr>sys_mem := m', sys_tm := tm', sys_txns := (sys_txns s)(n := None)\<rparr>)"
    and "versions m' k = map (stamp n (Timestamp (timestamp_counter (sys_tm s))))
      (versions (sys_mem s) k)"
proof -
  let ?c = "timestamp_counter (sys_tm s)" and ?m = "sys_mem s"
  let ?T = "(sys_txns s)(n := None)"
  have ts: "ts_new Commit ?c = Timestamp ?c" using lt by (rule ts_new_commit_small)
  from commit_section_result [OF inv run] com have
    tm': "tm' = (finish_xid (Timestamp n) (sys_tm s))\<lparr>timestamp_counter := ?c + 1\<rparr>" and
    wf': "mt_wf m'" and ca: "chain_addrs m' = chain_addrs ?m" and
    vs: "\<And>k. versions m' k = map (stamp n (Timestamp ?c)) (versions ?m k)" and
    na: "no_abort m'" and
    nv: "\<And>k a. a \<in> set (chain_addrs ?m k) \<Longrightarrow>
      node_version m' a = stamp n (Timestamp ?c) (node_version ?m a)"
    by (auto simp: ts)
  show "versions m' k = map (stamp n (Timestamp ?c)) (versions ?m k)" by (rule vs)
  have n: "n < ts_limit" using inv_small [OF inv run] .
  have up: "?c < ?c + 1" using lt by (rule word_less_Suc)
  have xs: "set (xips tm') = set (xips (sys_tm s)) - {Timestamp n}"
    using inv_finish(2) [OF inv run] by (simp add: tm')
  have ok: "session_ok m' tm' i x" if x: "?T i = Some x" for i x
  proof -
    from x have i: "i \<noteq> n" and xi: "sys_txns s i = Some x" by (auto split: if_splits)
    note oki = inv_session [OF inv xi, THEN conjunct2]
    have li: "i < ts_limit" using inv_small [OF inv xi] .
    have fst: "fst (stamp n (Timestamp ?c) v) = uncommitted i \<longleftrightarrow> fst v = uncommitted i"
      for v :: "'b version"
      using i li n uncommitted_not_commit_ts [OF lt, of i] by (auto simp: stamp_def uncommitted_inj)
    show ?thesis
    proof (cases x)
      case (Running t'')
      have "redo_ok m' i (redo_nodes t'')"
        unfolding redo_ok_def ca
      proof (intro allI)
        fix k a
        have "(k, a) \<in> set (redo_nodes t'') \<longleftrightarrow>
            a \<in> set (chain_addrs ?m k) \<and> fst (node_version ?m a) = uncommitted i"
          using oki Running by (simp add: redo_ok_def)
        also have "\<dots> \<longleftrightarrow> a \<in> set (chain_addrs ?m k) \<and> fst (node_version m' a) = uncommitted i"
          using nv [of a k] fst [of "node_version ?m a"] by auto
        finally show "(k, a) \<in> set (redo_nodes t'') \<longleftrightarrow>
            a \<in> set (chain_addrs ?m k) \<and> fst (node_version m' a) = uncommitted i" .
      qed
      with oki Running i xs show ?thesis by auto
    next
      case (Aborting t'' nodes)
      with oki show ?thesis by (simp add: vs own_stamp [OF li n i lt])
    qed
  qed
  show "sys_inv (s\<lparr>sys_mem := m', sys_tm := tm', sys_txns := ?T\<rparr>)"
  proof (rule sys_invI [where tm = tm' and T = ?T and m = m'])
    show "tm_inv tm'" using tm_inv_advance [OF inv_finish(1) [OF inv run]] lt by (simp add: tm')
    show "chain_ok (timestamp_counter tm') (dom ?T) (versions m' j)" for j
      using chain_ok_commit [OF inv_chain [OF inv, of j] lt _ n inv_dom_small [OF inv]]
        inv_counter [OF inv] by (simp add: vs tm')
    show "no_abort m'" by (rule na)
    show "i < timestamp_counter tm'" if "?T i = Some x" for i x
      using that inv_session [OF inv, of i x] up by (auto simp: tm' split: if_splits)
    show "\<exists>t. ?T (ts_bits x) = Some (Running t)" if "x \<in> set (xips tm')" for x
      using left_xips [OF inv that [unfolded xs]] by auto
    show "?T i = Some x \<Longrightarrow> session_ok m' tm' i x" for i x by (rule ok)
  qed (use wf' in simp_all)
qed

lemma own_in_redo:
  assumes "redo_ok m n nodes" and "own n (versions m k) \<noteq> None"
  shows "k \<in> fst ` set nodes"
proof -
  obtain a as where a: "chain_addrs m k = a # as" "fst (node_version m a) = uncommitted n"
    using assms(2) by (cases "chain_addrs m k") (auto simp: versions_def own_def split: if_splits)
  then have "(k, a) \<in> set nodes" using assms(1) by (simp add: redo_ok_def)
  then show ?thesis by force
qed

lemma inv_abort:
  assumes inv: "sys_inv s" and run: "sys_txns s n = Some (Running t)"
    and ab: "abort_section t (sys_tm s) = (nodes, t', tm')"
  shows "sys_inv (s\<lparr>sys_tm := tm', sys_txns := (sys_txns s)(n \<mapsto> Aborting t' nodes)\<rparr>)"
proof -
  let ?T = "(sys_txns s)(n \<mapsto> Aborting t' nodes)" and ?m = "sys_mem s"
  have at: "txn_at n t" using running_txn(1) [OF inv run] .
  then have tm': "tm' = finish_xid (Timestamp n) (sys_tm s)" and nodes: "nodes = redo_nodes t"
    and at': "txn_at n t'"
    using ab by (auto simp: abort_section_def txn_at_def)
  have c: "timestamp_counter tm' = timestamp_counter (sys_tm s)" by (simp add: tm')
  have xs: "set (xips tm') = set (xips (sys_tm s)) - {Timestamp n}"
    using inv_finish(2) [OF inv run] by (simp add: tm')
  have dT: "dom ?T = dom (sys_txns s)" using run by auto
  have ok: "session_ok ?m tm' i x" if x: "?T i = Some x" for i x
  proof (cases "i = n")
    case True
    then have "x = Aborting t' nodes" using x by simp
    with True at' own_in_redo [OF running_txn(2) [OF inv run]] nodes show ?thesis by simp
  next
    case False
    with x inv_session [OF inv, of i x] have "session_ok ?m (sys_tm s) i x" by simp
    with False xs show ?thesis by (cases x) auto
  qed
  show "sys_inv (s\<lparr>sys_tm := tm', sys_txns := ?T\<rparr>)"
  proof (rule sys_invI [where tm = tm' and T = ?T and m = ?m])
    show "tm_inv tm'" using inv_finish(1) [OF inv run] by (simp add: tm')
    show "chain_ok (timestamp_counter tm') (dom ?T) (versions ?m j)" for j
      unfolding dT c by (rule inv_chain [OF inv])
    show "i < timestamp_counter tm'" if "?T i = Some x" for i x
      using that inv_session [OF inv, of i] run by (auto simp: c split: if_splits)
    show "\<exists>t. ?T (ts_bits x) = Some (Running t)" if "x \<in> set (xips tm')" for x
      using left_xips [OF inv that [unfolded xs]] by auto
    show "?T i = Some x \<Longrightarrow> session_ok ?m tm' i x" for i x by (rule ok)
  qed (use inv in \<open>simp_all add: inv_wf inv_no_abort\<close>)
qed

text \<open>One node of an abort rolls back the pending versions of one key.\<close>

lemma rollback_step_result:
  assumes inv: "sys_inv s" and ab: "sys_txns s n = Some (Aborting t nodes)"
  shows "\<exists>m'. mt_rollback t k (sys_mem s) = Inr m' \<and> mt_wf m' \<and> no_abort m' \<and>
    mt_heap m' = mt_heap (sys_mem s) \<and>
    (\<forall>j. j \<noteq> k \<longrightarrow> versions m' j = versions (sys_mem s) j \<and>
       chain_addrs m' j = chain_addrs (sys_mem s) j) \<and>
    versions m' k = dropWhile (\<lambda>v. fst v = uncommitted n) (versions (sys_mem s) k) \<and>
    chain_addrs m' k = dropWhile (\<lambda>a. fst (node_version (sys_mem s) a) = uncommitted n)
      (chain_addrs (sys_mem s) k)"
proof -
  have "commit_timestamp t = uncommitted n"
    using inv_session [OF inv ab] by (simp add: txn_at_def)
  then show ?thesis
    using mt_rollback_versions [OF inv_wf [OF inv], of t k]
      no_abort_rollback [OF _ inv_no_abort [OF inv]] by auto
qed

lemma mem_dropWhile: "\<not> P x \<Longrightarrow> x \<in> set (dropWhile P xs) \<longleftrightarrow> x \<in> set xs"
  by (induction xs) auto

lemma inv_rollback:
  assumes inv: "sys_inv s" and ab: "sys_txns s n = Some (Aborting t ((k, a) # rest))"
    and rb: "mt_rollback t k (sys_mem s) = Inr m'"
  shows "sys_inv (s\<lparr>sys_mem := m', sys_txns := (sys_txns s)(n \<mapsto> Aborting t rest)\<rparr>)"
proof -
  let ?m = "sys_mem s" and ?c = "timestamp_counter (sys_tm s)"
  let ?T = "(sys_txns s)(n \<mapsto> Aborting t rest)"
  from rollback_step_result [OF inv ab, of k] rb have wf': "mt_wf m'" and na: "no_abort m'" and
    hp: "mt_heap m' = mt_heap ?m" and
    vo: "\<And>j. j \<noteq> k \<Longrightarrow> versions m' j = versions ?m j" and
    co: "\<And>j. j \<noteq> k \<Longrightarrow> chain_addrs m' j = chain_addrs ?m j" and
    vk: "versions m' k = dropWhile (\<lambda>v. fst v = uncommitted n) (versions ?m k)" and
    ck: "chain_addrs m' k = dropWhile (\<lambda>a. fst (node_version ?m a) = uncommitted n)
      (chain_addrs ?m k)"
    by auto
  have nv: "node_version m' = node_version ?m" by (simp add: fun_eq_iff node_version_def hp)
  have n: "n < ts_limit" using inv_small [OF inv ab] .
  note cl = inv_counter [OF inv, THEN conjunct1]
  have dT: "dom ?T = dom (sys_txns s)" and nd: "n \<in> dom (sys_txns s)" using ab by auto
  have own: "own i (versions m' j) = (if j = k \<and> i = n then None else own i (versions ?m j))"
    if "i \<in> dom (sys_txns s)" for i j
    using drop_own_own [OF inv_chain [OF inv] cl n inv_dom_small [OF inv] that] vo vk
    by (cases "j = k") auto
  have ok: "session_ok m' (sys_tm s) i x" if x: "?T i = Some x" for i x
  proof (cases "i = n")
    case True
    then have xn: "x = Aborting t rest" using x by simp
    have oki: "txn_at n t" "\<And>j. own n (versions ?m j) \<noteq> None \<Longrightarrow> j \<in> fst ` set ((k, a) # rest)"
      using inv_session [OF inv ab] by auto
    have "j \<in> fst ` set rest" if "own n (versions m' j) \<noteq> None" for j
      using that own [OF nd, of j] oki(2) [of j] by (auto split: if_splits)
    with oki(1) True show ?thesis by (simp add: xn)
  next
    case False
    with x have xi: "sys_txns s i = Some x" by simp
    then have ne: "uncommitted i \<noteq> uncommitted n"
      using False n inv_small [OF inv xi] by (simp add: uncommitted_inj)
    note oki = inv_session [OF inv xi, THEN conjunct2]
    show ?thesis
    proof (cases x)
      case (Running t')
      have "redo_ok m' i (redo_nodes t')"
        unfolding redo_ok_def
      proof (intro allI)
        fix j b
        have "b \<in> set (chain_addrs m' j) \<longleftrightarrow> b \<in> set (chain_addrs ?m j)"
          if "fst (node_version ?m b) = uncommitted i"
          using that ne co ck by (cases "j = k") (auto simp: mem_dropWhile)
        moreover have "(j, b) \<in> set (redo_nodes t') \<longleftrightarrow>
            b \<in> set (chain_addrs ?m j) \<and> fst (node_version ?m b) = uncommitted i"
          using oki Running by (simp add: redo_ok_def)
        ultimately show "(j, b) \<in> set (redo_nodes t') \<longleftrightarrow>
            b \<in> set (chain_addrs m' j) \<and> fst (node_version m' b) = uncommitted i"
          unfolding nv by blast
      qed
      with oki Running show ?thesis by simp
    next
      case (Aborting t' nodes)
      have "own i (versions m' j) = own i (versions ?m j)" for j
        using own [of i j] xi False by auto
      with oki Aborting show ?thesis by simp
    qed
  qed
  have ch: "chain_ok ?c (dom (sys_txns s)) (versions m' j)" for j
    using drop_own_chain_ok(1) [OF inv_chain [OF inv, of k] cl n inv_dom_small [OF inv]]
      inv_chain [OF inv, of j] vo vk by (cases "j = k") auto
  show ?thesis
  proof (rule sys_invI [where tm = "sys_tm s" and T = ?T and m = m'])
    show "chain_ok ?c (dom ?T) (versions m' j)" for j unfolding dT by (rule ch)
    show "\<And>i x. ?T i = Some x \<Longrightarrow> i < ?c" using inv_session [OF inv] ab by (auto split: if_splits)
    show "\<exists>t. ?T (ts_bits x) = Some (Running t)" if "x \<in> set (xips (sys_tm s))" for x
      using inv_xips [OF inv that] ab by auto
    show "\<And>i x. ?T i = Some x \<Longrightarrow> session_ok m' (sys_tm s) i x" by (rule ok)
  qed (use wf' na inv in \<open>auto simp: inv_tm\<close>)
qed

lemma inv_aborted:
  assumes inv: "sys_inv s" and ab: "sys_txns s n = Some (Aborting t [])"
  shows "sys_inv (s\<lparr>sys_txns := (sys_txns s)(n := None)\<rparr>)"
    and "own n (versions (sys_mem s) k) = None"
proof -
  let ?T = "(sys_txns s)(n := None)"
  have own: "own n (versions (sys_mem s) k) = None" for k
    using inv_session [OF inv ab] by auto
  then show "own n (versions (sys_mem s) k) = None" .
  have dT: "dom ?T = dom (sys_txns s) - {n}" by auto
  show "sys_inv (s\<lparr>sys_txns := ?T\<rparr>)"
  proof (rule sys_invI [where tm = "sys_tm s" and T = ?T and m = "sys_mem s"])
    show "chain_ok (timestamp_counter (sys_tm s)) (dom ?T) (versions (sys_mem s) j)" for j
      unfolding dT
      by (rule chain_ok_leave [OF inv_chain [OF inv] inv_counter [OF inv, THEN conjunct1] own])
    show "\<And>i x. ?T i = Some x \<Longrightarrow> i < timestamp_counter (sys_tm s)"
      using inv_session [OF inv] by (auto split: if_splits)
    show "\<exists>t. ?T (ts_bits x) = Some (Running t)" if "x \<in> set (xips (sys_tm s))" for x
      using inv_xips [OF inv that] ab by auto
    show "\<And>i x. ?T i = Some x \<Longrightarrow> session_ok (sys_mem s) (sys_tm s) i x"
      using inv_session [OF inv] by (auto split: if_splits)
  qed (use inv in \<open>auto simp: inv_tm inv_wf inv_no_abort\<close>)
qed

section \<open>Writes in the system\<close>

text \<open>
  The three writes of a running transaction, in full: the result is determined by the conflict
  and by the value in view, and the memtable changes only when the result is \<open>Inr True\<close>.
\<close>

lemma no_conflict_head:
  "\<lbrakk>\<not> conflict n vs; vs \<noteq> []\<rbrakk> \<Longrightarrow> view n vs = record_value (snd (hd vs))"
  by (cases vs) (auto simp: no_conflict_view)

lemma head_insert_view:
  assumes "\<not> conflict n vs"
  shows "(\<exists>ts v ws. vs = (ts, Insert v) # ws) \<longleftrightarrow> view n vs \<noteq> None"
proof (cases vs)
  case (Cons v ws)
  with assms have "view n vs = record_value (snd v)" by (simp add: no_conflict_view)
  with Cons show ?thesis by (cases v; cases "snd v") auto
qed (simp add: view_def)

lemma running_put:
  assumes inv: "sys_inv s" and run: "sys_txns s n = Some (Running t)"
  shows "if conflict n (versions (sys_mem s) k)
    then mt_put cd [] k v (sys_mem s, sys_tm s) t = ((sys_mem s, sys_tm s), t,
      Inl (Err (TransactionAborted ''ww-conflict detected in put()'')))
    else \<exists>m' a. mt_put cd [] k v (sys_mem s, sys_tm s) t =
        ((m', sys_tm s), keep_node cd k a (Insert v) t, Inr True) \<and>
      written (sys_mem s) k (uncommitted n, Insert v) a m'"
proof -
  have "commit_timestamp t = uncommitted n"
    using running_txn(1) [OF inv run] by (simp add: txn_at_def)
  then show ?thesis
    using mt_put_alone [OF inv_wf [OF inv],
        where tm = "sys_tm s" and t = t and k = k and cd = cd and v = v] running_scan(2) [OF inv run]
    by (cases "conflict n (versions (sys_mem s) k)") simp_all
qed

lemma running_delete:
  assumes inv: "sys_inv s" and run: "sys_txns s n = Some (Running t)"
  shows "if conflict n (versions (sys_mem s) k)
    then mt_delete cd [] k (sys_mem s, sys_tm s) t = ((sys_mem s, sys_tm s), t,
      Inl (Err (TransactionAborted ''ww-conflict detected in delete()'')))
    else if view n (versions (sys_mem s) k) = None
    then mt_delete cd [] k (sys_mem s, sys_tm s) t = ((sys_mem s, sys_tm s), t, Inr False)
    else \<exists>m' a. mt_delete cd [] k (sys_mem s, sys_tm s) t =
        ((m', sys_tm s), keep_node cd k a Delete t, Inr True) \<and>
      written (sys_mem s) k (uncommitted n, Delete) a m'"
proof -
  have "commit_timestamp t = uncommitted n"
    using running_txn(1) [OF inv run] by (simp add: txn_at_def)
  then show ?thesis
    using mt_delete_alone [OF inv_wf [OF inv],
        where tm = "sys_tm s" and t = t and k = k and cd = cd] running_scan(2) [OF inv run]
      head_insert_view [of n "versions (sys_mem s) k"]
    by (cases "conflict n (versions (sys_mem s) k)";
        cases "view n (versions (sys_mem s) k) = None") auto
qed

lemma running_update:
  assumes inv: "sys_inv s" and run: "sys_txns s n = Some (Running t)"
  shows "if conflict n (versions (sys_mem s) k)
    then mt_update cd [] k f (sys_mem s, sys_tm s) t = ((sys_mem s, sys_tm s), t,
      Inl (Err (TransactionAborted ''ww-conflict detected in update()'')))
    else (case view n (versions (sys_mem s) k) of
        None \<Rightarrow> mt_update cd [] k f (sys_mem s, sys_tm s) t = ((sys_mem s, sys_tm s), t, Inr False)
      | Some v \<Rightarrow> \<exists>m' a. mt_update cd [] k f (sys_mem s, sys_tm s) t =
            ((m', sys_tm s), keep_node cd k a (Insert (f v)) t, Inr True) \<and>
          written (sys_mem s) k (uncommitted n, Insert (f v)) a m')"
proof -
  let ?vs = "versions (sys_mem s) k"
  have ct: "commit_timestamp t = uncommitted n"
    using running_txn(1) [OF inv run] by (simp add: txn_at_def)
  note wf = inv_wf [OF inv] and sc = running_scan [OF inv run, of k]
  show ?thesis
  proof (cases "conflict n ?vs \<or> view n ?vs = None")
    case True
    then have "conflict n ?vs \<or> \<not> (\<exists>ts v vs. ?vs = (ts, Insert v) # vs)"
      using head_insert_view [of n ?vs] by blast
    from mt_update_refused [OF wf sc(2) this] True show ?thesis by auto
  next
    case False
    then obtain v where v: "view n ?vs = Some v" by auto
    with False obtain ts u vs where ins: "?vs = (ts, Insert u) # vs"
      using head_insert_view [of n ?vs] by auto
    have "head_check (sys_tm s) t ?vs = Inr (False, t)" "scan (sys_tm s) t ?vs = Inr (Some v, t)"
      using sc(1,2) False v by simp_all
    from mt_update_alone [OF wf inv_live [OF inv] this(1) ins this(2)] False v ct
    show ?thesis by auto
  qed
qed

section \<open>Every step keeps the invariant\<close>

lemma txns_same: "sys_txns s n = Some x \<Longrightarrow> s\<lparr>sys_txns := (sys_txns s)(n \<mapsto> x)\<rparr> = s"
  by (cases s) (simp add: fun_upd_idem)

lemma sys_same:
  "sys_txns s n = Some x \<Longrightarrow>
     s\<lparr>sys_mem := sys_mem s, sys_tm := sys_tm s, sys_txns := (sys_txns s)(n \<mapsto> x)\<rparr> = s"
  by (cases s) (simp add: fun_upd_idem)

lemma step_inv:
  assumes "step cd s e s'" and inv: "sys_inv s"
  shows "sys_inv s'"
  using assms(1)
proof cases
  case (step_begin t tm')
  then show ?thesis using inv_begin(1) [OF inv] by simp
next
  case (step_get n t k v t')
  then have "t' = t" using running_scan(3) [OF inv step_get(3), of k] by simp
  then show ?thesis using step_get inv by (simp add: txns_same)
next
  case (step_get_fault n t k e)
  then show ?thesis using inv by simp
next
  case (step_put n t k v m' tm' t' r)
  show ?thesis
  proof (cases "conflict n (versions (sys_mem s) k)")
    case True
    with running_put [OF inv step_put(3), of k cd v] step_put inv show ?thesis
      by (simp add: sys_same txns_same)
  next
    case False
    with running_put [OF inv step_put(3), of k cd v] step_put
      inv_write [OF inv step_put(3) False] show ?thesis by auto
  qed
next
  case (step_update n t k f m' tm' t' r)
  show ?thesis
  proof (cases "conflict n (versions (sys_mem s) k) \<or> view n (versions (sys_mem s) k) = None")
    case True
    with running_update [OF inv step_update(3), of k cd f] step_update inv show ?thesis
      by (auto simp: sys_same txns_same split: if_splits)
  next
    case False
    with running_update [OF inv step_update(3), of k cd f] step_update
      inv_write [OF inv step_update(3), of k] show ?thesis by auto
  qed
next
  case (step_delete n t k m' tm' t' r)
  show ?thesis
  proof (cases "conflict n (versions (sys_mem s) k) \<or> view n (versions (sys_mem s) k) = None")
    case True
    with running_delete [OF inv step_delete(3), of k cd] step_delete inv show ?thesis
      by (auto simp: sys_same txns_same split: if_splits)
  next
    case False
    with running_delete [OF inv step_delete(3), of k cd] step_delete
      inv_write [OF inv step_delete(3), of k] show ?thesis by auto
  qed
next
  case (step_commit n t ts t' m' tm')
  then show ?thesis using inv_commit(1) [OF inv] by blast
next
  case (step_abort n t nodes t' tm')
  then show ?thesis using inv_abort [OF inv] by blast
next
  case (step_rollback n t k a rest m')
  then show ?thesis using inv_rollback [OF inv] by blast
next
  case (step_aborted n t)
  then show ?thesis using inv_aborted(1) [OF inv] by blast
qed

lemma steps_inv: "\<lbrakk>steps cd s es s'; sys_inv s\<rbrakk> \<Longrightarrow> sys_inv s'"
  by (induction rule: steps.induct) (auto dest: step_inv)

lemma reachable_inv: "reachable cd s \<Longrightarrow> sys_inv s"
  using steps_inv sys_inv_init unfolding reachable_def by blast

section \<open>Running the system\<close>

text \<open>The step relation as a function of the operation a client asks for.\<close>

datatype ('k, 'v) command =
    CBegin
  | CGet u64 'k
  | CPut u64 'k 'v
  | CUpdate u64 'k "'v \<Rightarrow> 'v"
  | CDelete u64 'k
  | CCommit u64
  | CAbort u64
  | CRollback u64
  | CAborted u64

definition exec_write ::
  "u64 \<Rightarrow> (bool res \<Rightarrow> ('k, 'v) event) \<Rightarrow>
    (('k, 'v) shared \<Rightarrow> ('k, 'v) txn \<Rightarrow> ('k, 'v) shared \<times> ('k, 'v) txn \<times> bool res) \<Rightarrow>
    ('k, 'v) sys \<Rightarrow> (('k, 'v) event \<times> ('k, 'v) sys) option" where
  "exec_write n ev operation s =
     (case sys_txns s n of
        Some (Running t) \<Rightarrow>
          (case operation (sys_mem s, sys_tm s) t of
             ((m', tm'), t', r) \<Rightarrow> Some (ev r,
               s\<lparr>sys_mem := m', sys_tm := tm', sys_txns := (sys_txns s)(n \<mapsto> Running t')\<rparr>))
      | _ \<Rightarrow> None)"

fun exec ::
  "('k, 'v) mt_codec \<Rightarrow> ('k, 'v) command \<Rightarrow> ('k, 'v) sys
    \<Rightarrow> (('k, 'v) event \<times> ('k, 'v) sys) option" where
  "exec cd CBegin s =
     (let n = timestamp_counter (sys_tm s)
      in if n < ts_limit
         then (case start_transaction Normal (sys_tm s) of
                 (t, tm') \<Rightarrow> Some (EBegin n,
                   s\<lparr>sys_tm := tm', sys_txns := (sys_txns s)(n \<mapsto> Running t)\<rparr>))
         else None)"
| "exec cd (CGet n k) s =
     (case sys_txns s n of
        Some (Running t) \<Rightarrow>
          (case mt_get (sys_tm s) (sys_mem s) t k of
             Inr (v, t') \<Rightarrow> Some (EGet n k (Inr v), s\<lparr>sys_txns := (sys_txns s)(n \<mapsto> Running t')\<rparr>)
           | Inl e \<Rightarrow> Some (EGet n k (Inl e), s))
      | _ \<Rightarrow> None)"
| "exec cd (CPut n k v) s = exec_write n (EPut n k v) (mt_put cd [] k v) s"
| "exec cd (CUpdate n k f) s = exec_write n (EUpdate n k f) (mt_update cd [] k f) s"
| "exec cd (CDelete n k) s = exec_write n (EDelete n k) (mt_delete cd [] k) s"
| "exec cd (CCommit n) s =
     (case sys_txns s n of
        Some (Running t) \<Rightarrow>
          if timestamp_counter (sys_tm s) < ts_limit
          then (case commit_section t (sys_mem s, sys_tm s) of
                  Inr (ts, t', (m', tm')) \<Rightarrow> Some (ECommit n,
                    s\<lparr>sys_mem := m', sys_tm := tm', sys_txns := (sys_txns s)(n := None)\<rparr>)
                | Inl e \<Rightarrow> None)
          else None
      | _ \<Rightarrow> None)"
| "exec cd (CAbort n) s =
     (case sys_txns s n of
        Some (Running t) \<Rightarrow>
          (case abort_section t (sys_tm s) of
             (nodes, t', tm') \<Rightarrow> Some (EAbort n,
               s\<lparr>sys_tm := tm', sys_txns := (sys_txns s)(n \<mapsto> Aborting t' nodes)\<rparr>))
      | _ \<Rightarrow> None)"
| "exec cd (CRollback n) s =
     (case sys_txns s n of
        Some (Aborting t ((k, a) # rest)) \<Rightarrow>
          (case mt_rollback t k (sys_mem s) of
             Inr m' \<Rightarrow> Some (ERollback n k,
               s\<lparr>sys_mem := m', sys_txns := (sys_txns s)(n \<mapsto> Aborting t rest)\<rparr>)
           | Inl e \<Rightarrow> None)
      | _ \<Rightarrow> None)"
| "exec cd (CAborted n) s =
     (case sys_txns s n of
        Some (Aborting t []) \<Rightarrow> Some (EAborted n, s\<lparr>sys_txns := (sys_txns s)(n := None)\<rparr>)
      | _ \<Rightarrow> None)"

fun execs ::
  "('k, 'v) mt_codec \<Rightarrow> ('k, 'v) command list \<Rightarrow> ('k, 'v) sys
    \<Rightarrow> (('k, 'v) event list \<times> ('k, 'v) sys) option" where
  "execs cd [] s = Some ([], s)"
| "execs cd (c # cs) s =
     (case exec cd c s of
        None \<Rightarrow> None
      | Some (e, s') \<Rightarrow> map_option (\<lambda>(es, s''). (e # es, s'')) (execs cd cs s'))"

lemma exec_write_step:
  assumes "exec_write n ev operation s = Some (e, s')"
    and "\<And>t m' tm' t' r. \<lbrakk>sys_txns s n = Some (Running t);
      operation (sys_mem s, sys_tm s) t = ((m', tm'), t', r)\<rbrakk> \<Longrightarrow> step cd s (ev r)
        (s\<lparr>sys_mem := m', sys_tm := tm', sys_txns := (sys_txns s)(n \<mapsto> Running t')\<rparr>)"
  shows "step cd s e s'"
  using assms by (auto simp: exec_write_def split: option.splits session.splits prod.splits)

lemma exec_step: "exec cd c s = Some (e, s') \<Longrightarrow> step cd s e s'"
proof (cases c)
  case (CPut n k v)
  assume "exec cd c s = Some (e, s')"
  then show ?thesis unfolding CPut exec.simps by (rule exec_write_step) (rule step_put)
next
  case (CUpdate n k f)
  assume "exec cd c s = Some (e, s')"
  then show ?thesis unfolding CUpdate exec.simps by (rule exec_write_step) (rule step_update)
next
  case (CDelete n k)
  assume "exec cd c s = Some (e, s')"
  then show ?thesis unfolding CDelete exec.simps by (rule exec_write_step) (rule step_delete)
qed (auto simp: Let_def intro: step.intros
      split: option.splits session.splits prod.splits if_splits list.splits sum.splits)

lemma steps_trans: "\<lbrakk>steps cd s' fs s''; steps cd s es s'\<rbrakk> \<Longrightarrow> steps cd s (es @ fs) s''"
  by (induction rule: steps.induct)
     (auto simp flip: append_assoc intro: steps.intros)

lemma steps_one: "step cd s e s' \<Longrightarrow> steps cd s [e] s'"
  using steps_snoc [OF steps_nil] by fastforce

lemma execs_steps: "execs cd cs s = Some (es, s') \<Longrightarrow> steps cd s es s'"
proof (induction cs arbitrary: s es)
  case Nil
  then show ?case by (simp add: steps_nil)
next
  case (Cons c cs)
  then obtain e t fs where "exec cd c s = Some (e, t)" "execs cd cs t = Some (fs, s')"
    "es = e # fs" by (auto split: option.splits)
  then show ?case
    using steps_trans [OF Cons.IH steps_one [OF exec_step]] by fastforce
qed

lemma reachable_step: "\<lbrakk>reachable cd s; step cd s e s'\<rbrakk> \<Longrightarrow> reachable cd s'"
  unfolding reachable_def by (blast intro: steps_snoc)

lemma reachable_steps: "\<lbrakk>reachable cd s; steps cd s es s'\<rbrakk> \<Longrightarrow> reachable cd s'"
  unfolding reachable_def by (blast intro: steps_trans)

lemma reachable_execs: "execs cd cs sys_init = Some (es, s) \<Longrightarrow> reachable cd s"
  unfolding reachable_def using execs_steps by blast

lemma execs_append:
  "execs cd (cs @ ds) s = (case execs cd cs s of
     None \<Rightarrow> None
   | Some (es, s') \<Rightarrow> map_option (\<lambda>(fs, s''). (es @ fs, s'')) (execs cd ds s'))"
proof (induction cs arbitrary: s)
  case Nil
  then show ?case by (cases "execs cd ds s") auto
next
  case (Cons c cs)
  show ?case
  proof (cases "exec cd c s")
    case (Some p)
    then show ?thesis
      using Cons.IH [of "snd p"]
      by (cases p; cases "execs cd cs (snd p)"; cases "execs cd ds (snd (the (execs cd cs (snd p))))")
         auto
  qed simp
qed

end
