(* ===== verification/Snapshot_Isolation.thy ===== *)
theory Snapshot_Isolation
  imports Mvcc
begin

text \<open>
  What the memtable promises its clients, as an abstract machine without versions or pointers:
  a database, and for each live transaction the database as it was at its start, its own writes,
  and the keys that others committed since (\<open>si_stale\<close>). The step relation of \<open>Mvcc\<close> is simulated
  by this machine under the abstraction \<open>alpha\<close>; repeatable reads, reads of own writes, the
  absence of lost updates and the atomicity of commit and abort are then facts about it.
\<close>

section \<open>The abstract machine\<close>

record ('k, 'v) si_txn =
  si_snap :: "'k \<Rightarrow> 'v option"
  si_writes :: "'k \<Rightarrow> 'v option option"
  si_stale :: "'k set"
  si_aborting :: bool

record ('k, 'v) si =
  si_db :: "'k \<Rightarrow> 'v option"
  si_txns :: "u64 \<rightharpoonup> ('k, 'v) si_txn"

definition si_read :: "('k, 'v) si_txn \<Rightarrow> 'k \<Rightarrow> 'v option" where
  "si_read x k = (case si_writes x k of Some v \<Rightarrow> v | None \<Rightarrow> si_snap x k)"

definition si_free :: "('k, 'v) si \<Rightarrow> u64 \<Rightarrow> ('k, 'v) si_txn \<Rightarrow> 'k \<Rightarrow> bool" where
  "si_free s n x k \<longleftrightarrow> k \<notin> si_stale x \<and>
     (\<forall>m y. si_txns s m = Some y \<longrightarrow> m \<noteq> n \<longrightarrow> si_writes y k = None)"

definition si_write :: "'k \<Rightarrow> 'v option \<Rightarrow> ('k, 'v) si_txn \<Rightarrow> ('k, 'v) si_txn" where
  "si_write k v x = x\<lparr>si_writes := (si_writes x)(k \<mapsto> v)\<rparr>"

definition si_commit :: "u64 \<Rightarrow> ('k, 'v) si_txn \<Rightarrow> ('k, 'v) si \<Rightarrow> ('k, 'v) si" where
  "si_commit n x s =
     s\<lparr>si_db := \<lambda>k. (case si_writes x k of Some v \<Rightarrow> v | None \<Rightarrow> si_db s k),
       si_txns := \<lambda>m. if m = n then None
         else map_option (\<lambda>y. y\<lparr>si_stale := si_stale y \<union> dom (si_writes x)\<rparr>) (si_txns s m)\<rparr>"

definition ww_error :: "string \<Rightarrow> bool res" where
  "ww_error op = Inl (Err (TransactionAborted (''ww-conflict detected in '' @ op @ ''()'')))"

inductive si_step :: "('k, 'v) si \<Rightarrow> ('k, 'v) event \<Rightarrow> ('k, 'v) si \<Rightarrow> bool" where
  si_begin: "si_txns s n = None \<Longrightarrow> si_step s (EBegin n)
     (s\<lparr>si_txns := (si_txns s)(n \<mapsto>
       \<lparr>si_snap = si_db s, si_writes = Map.empty, si_stale = {}, si_aborting = False\<rparr>)\<rparr>)"
| si_get: "\<lbrakk>si_txns s n = Some x; \<not> si_aborting x\<rbrakk> \<Longrightarrow>
     si_step s (EGet n k (Inr (si_read x k))) s"
| si_put: "\<lbrakk>si_txns s n = Some x; \<not> si_aborting x; si_free s n x k\<rbrakk> \<Longrightarrow>
     si_step s (EPut n k v (Inr True)) (s\<lparr>si_txns := (si_txns s)(n \<mapsto> si_write k (Some v) x)\<rparr>)"
| si_put_conflict: "\<lbrakk>si_txns s n = Some x; \<not> si_aborting x; \<not> si_free s n x k\<rbrakk> \<Longrightarrow>
     si_step s (EPut n k v (ww_error ''put'')) s"
| si_update: "\<lbrakk>si_txns s n = Some x; \<not> si_aborting x; si_free s n x k; si_read x k = Some v\<rbrakk> \<Longrightarrow>
     si_step s (EUpdate n k f (Inr True))
       (s\<lparr>si_txns := (si_txns s)(n \<mapsto> si_write k (Some (f v)) x)\<rparr>)"
| si_update_none: "\<lbrakk>si_txns s n = Some x; \<not> si_aborting x; si_free s n x k; si_read x k = None\<rbrakk> \<Longrightarrow>
     si_step s (EUpdate n k f (Inr False)) s"
| si_update_conflict: "\<lbrakk>si_txns s n = Some x; \<not> si_aborting x; \<not> si_free s n x k\<rbrakk> \<Longrightarrow>
     si_step s (EUpdate n k f (ww_error ''update'')) s"
| si_delete: "\<lbrakk>si_txns s n = Some x; \<not> si_aborting x; si_free s n x k; si_read x k \<noteq> None\<rbrakk> \<Longrightarrow>
     si_step s (EDelete n k (Inr True)) (s\<lparr>si_txns := (si_txns s)(n \<mapsto> si_write k None x)\<rparr>)"
| si_delete_none: "\<lbrakk>si_txns s n = Some x; \<not> si_aborting x; si_free s n x k; si_read x k = None\<rbrakk> \<Longrightarrow>
     si_step s (EDelete n k (Inr False)) s"
| si_delete_conflict: "\<lbrakk>si_txns s n = Some x; \<not> si_aborting x; \<not> si_free s n x k\<rbrakk> \<Longrightarrow>
     si_step s (EDelete n k (ww_error ''delete'')) s"
| si_commits: "\<lbrakk>si_txns s n = Some x; \<not> si_aborting x\<rbrakk> \<Longrightarrow> si_step s (ECommit n) (si_commit n x s)"
| si_abort: "\<lbrakk>si_txns s n = Some x; \<not> si_aborting x\<rbrakk> \<Longrightarrow>
     si_step s (EAbort n) (s\<lparr>si_txns := (si_txns s)(n \<mapsto> x\<lparr>si_aborting := True\<rparr>)\<rparr>)"
| si_rollback: "\<lbrakk>si_txns s n = Some x; si_aborting x\<rbrakk> \<Longrightarrow>
     si_step s (ERollback n k)
       (s\<lparr>si_txns := (si_txns s)(n \<mapsto> x\<lparr>si_writes := (si_writes x)(k := None)\<rparr>)\<rparr>)"
| si_aborted: "\<lbrakk>si_txns s n = Some x; si_aborting x; si_writes x = Map.empty\<rbrakk> \<Longrightarrow>
     si_step s (EAborted n) (s\<lparr>si_txns := (si_txns s)(n := None)\<rparr>)"

section \<open>The abstraction\<close>

fun session_aborting :: "('k, 'v) session \<Rightarrow> bool" where
  "session_aborting (Running t) = False"
| "session_aborting (Aborting t nodes) = True"

definition alpha_txn :: "('k, 'v) memtable \<Rightarrow> u64 \<Rightarrow> ('k, 'v) session \<Rightarrow> ('k, 'v) si_txn" where
  "alpha_txn m n x =
     \<lparr>si_snap = \<lambda>k. base n (versions m k), si_writes = \<lambda>k. own n (versions m k),
      si_stale = {k. modified_since n (versions m k)}, si_aborting = session_aborting x\<rparr>"

definition alpha :: "('k, 'v) sys \<Rightarrow> ('k, 'v) si" where
  "alpha s = \<lparr>si_db = \<lambda>k. latest (versions (sys_mem s) k),
     si_txns = \<lambda>n. map_option (alpha_txn (sys_mem s) n) (sys_txns s n)\<rparr>"

lemma alpha_txn_fields [simp]:
  "si_snap (alpha_txn m n x) k = base n (versions m k)"
  "si_writes (alpha_txn m n x) k = own n (versions m k)"
  "k \<in> si_stale (alpha_txn m n x) \<longleftrightarrow> modified_since n (versions m k)"
  "si_aborting (alpha_txn m n x) = session_aborting x"
  by (simp_all add: alpha_txn_def)

lemma alpha_txns: "sys_txns s n = Some x \<Longrightarrow> si_txns (alpha s) n = Some (alpha_txn (sys_mem s) n x)"
  by (simp add: alpha_def)

lemma alpha_read:
  assumes "sys_inv s" and "sys_txns s n = Some x"
  shows "si_read (alpha_txn (sys_mem s) n x) k = view n (versions (sys_mem s) k)"
  using view_split [OF inv_chain [OF assms(1), of k] inv_counter [OF assms(1), THEN conjunct1]
      inv_small [OF assms] inv_dom_small [OF assms(1)]]
  by (cases "own n (versions (sys_mem s) k)") (simp_all add: si_read_def)

lemma alpha_free:
  assumes "sys_inv s" and "sys_txns s n = Some x"
  shows "si_free (alpha s) n (alpha_txn (sys_mem s) n x) k \<longleftrightarrow>
    \<not> conflict n (versions (sys_mem s) k)"
proof -
  have tx: "si_txns (alpha s) m = Some y \<longleftrightarrow>
      (\<exists>z. sys_txns s m = Some z \<and> y = alpha_txn (sys_mem s) m z)" for m y
    by (auto simp: alpha_def)
  have "(\<forall>m y. si_txns (alpha s) m = Some y \<longrightarrow> m \<noteq> n \<longrightarrow> si_writes y k = None) \<longleftrightarrow>
      \<not> (\<exists>m\<in>dom (sys_txns s). m \<noteq> n \<and> own m (versions (sys_mem s) k) \<noteq> None)"
    by (simp only: tx) fastforce
  then show ?thesis
    using conflict_iff [OF inv_chain [OF assms(1), of k] inv_counter [OF assms(1), THEN conjunct1]
        inv_small [OF assms] inv_dom_small [OF assms(1)]]
    by (simp add: si_free_def)
qed

lemma alpha_written:
  assumes inv: "sys_inv s" and run: "sys_txns s n = Some (Running t)"
    and nc: "\<not> conflict n (versions (sys_mem s) k)"
    and w: "written (sys_mem s) k (uncommitted n, r) a m'"
  shows "alpha (s\<lparr>sys_mem := m', sys_tm := tm', sys_txns := (sys_txns s)(n \<mapsto> Running t')\<rparr>) =
    (alpha s)\<lparr>si_txns := (si_txns (alpha s))(n \<mapsto>
       si_write k (record_value r) (alpha_txn (sys_mem s) n (Running t)))\<rparr>"
proof -
  let ?m = "sys_mem s"
  have vk: "versions m' k = (uncommitted n, r) # versions ?m k"
    and vo: "\<And>j. j \<noteq> k \<Longrightarrow> versions m' j = versions ?m j"
    using w by (auto simp: written_def)
  have n: "n < ts_limit" using inv_small [OF inv run] .
  have db: "latest (versions m' j) = latest (versions ?m j)" for j
    using vk vo by (cases "j = k") (simp_all add: latest_push)
  have base: "base i (versions m' j) = base i (versions ?m j)" for i j
    using vk vo by (cases "j = k") (simp_all add: base_push)
  have modi: "modified_since i (versions m' j) = modified_since i (versions ?m j)" for i j
    using vk vo by (cases "j = k") (simp_all add: modified_push)
  have own_n: "own n (versions m' j) =
      (if j = k then Some (record_value r) else own n (versions ?m j))" for j
    using vk vo by (cases "j = k") (simp_all add: own_push n)
  have own_o: "own i (versions m' j) = own i (versions ?m j)"
    if "sys_txns s i = Some x" "i \<noteq> n" for i j x
    using own_push_other [OF inv_chain [OF inv, of k] inv_counter [OF inv, THEN conjunct1] nc n
        inv_dom_small [OF inv], of i r] that vk vo by (cases "j = k") auto
  have "alpha_txn m' n (Running t') =
      si_write k (record_value r) (alpha_txn ?m n (Running t))"
    by (auto simp: alpha_txn_def si_write_def base modi own_n fun_eq_iff)
  moreover have "alpha_txn m' i x = alpha_txn ?m i x" if "sys_txns s i = Some x" "i \<noteq> n" for i x
    using own_o [OF that] by (simp add: alpha_txn_def base modi)
  ultimately have "map_option (alpha_txn m' i) (((sys_txns s)(n \<mapsto> Running t')) i) =
      ((\<lambda>i. map_option (alpha_txn ?m i) (sys_txns s i))(n \<mapsto>
        si_write k (record_value r) (alpha_txn ?m n (Running t)))) i" for i
    by (cases "i = n"; cases "sys_txns s i") simp_all
  then show ?thesis by (simp add: alpha_def db fun_eq_iff)
qed

lemma alpha_begin:
  assumes inv: "sys_inv s" and lt: "timestamp_counter (sys_tm s) < ts_limit"
    and none: "sys_txns s (timestamp_counter (sys_tm s)) = None"
  shows "alpha (s\<lparr>sys_tm := tm',
      sys_txns := (sys_txns s)(timestamp_counter (sys_tm s) \<mapsto> Running t)\<rparr>) =
    (alpha s)\<lparr>si_txns := (si_txns (alpha s))(timestamp_counter (sys_tm s) \<mapsto>
      \<lparr>si_snap = si_db (alpha s), si_writes = Map.empty, si_stale = {}, si_aborting = False\<rparr>)\<rparr>"
proof -
  have "timestamp_counter (sys_tm s) \<notin> dom (sys_txns s)" using none by auto
  then have sv: "own (timestamp_counter (sys_tm s)) (versions (sys_mem s) k) = None"
    "base (timestamp_counter (sys_tm s)) (versions (sys_mem s) k) = latest (versions (sys_mem s) k)"
    "\<not> modified_since (timestamp_counter (sys_tm s)) (versions (sys_mem s) k)" for k
    using start_view [OF inv_chain [OF inv, of k] lt _ inv_dom_small [OF inv]] by simp_all
  then show ?thesis by (auto simp: alpha_def alpha_txn_def fun_eq_iff)
qed

lemma alpha_commit:
  assumes inv: "sys_inv s" and run: "sys_txns s n = Some (Running t)"
    and lt: "timestamp_counter (sys_tm s) < ts_limit"
    and com: "commit_section t (sys_mem s, sys_tm s) = Inr (ts, t', (m', tm'))"
  shows "alpha (s\<lparr>sys_mem := m', sys_tm := tm', sys_txns := (sys_txns s)(n := None)\<rparr>) =
    si_commit n (alpha_txn (sys_mem s) n (Running t)) (alpha s)"
proof -
  let ?c = "timestamp_counter (sys_tm s)" and ?m = "sys_mem s"
  have vs: "versions m' k = map (stamp n (Timestamp ?c)) (versions ?m k)" for k
    by (rule inv_commit(2) [OF inv run lt com])
  note ch = inv_chain [OF inv] and small = inv_dom_small [OF inv]
  have n: "n < ts_limit" using inv_small [OF inv run] .
  have pos: "0 < ?c" using inv_counter [OF inv] by simp
  have db: "latest (versions m' k) =
      (case own n (versions ?m k) of Some v \<Rightarrow> v | None \<Rightarrow> latest (versions ?m k))" for k
    unfolding vs by (rule latest_stamp [OF ch lt pos n small])
  have tx: "alpha_txn m' i x = (alpha_txn ?m i x)
      \<lparr>si_stale := si_stale (alpha_txn ?m i x) \<union> {k. own n (versions ?m k) \<noteq> None}\<rparr>"
    if x: "sys_txns s i = Some x" and i: "i \<noteq> n" for i x
  proof -
    have lti: "i < ?c" using inv_session [OF inv x] by simp
    have li: "i < ts_limit" using inv_small [OF inv x] .
    have "base i (versions m' k) = base i (versions ?m k)" for k
      unfolding vs by (rule base_stamp [OF lti lt])
    moreover have "own i (versions m' k) = own i (versions ?m k)" for k
      unfolding vs by (rule own_stamp [OF li n i lt])
    moreover have "modified_since i (versions m' k) \<longleftrightarrow>
        modified_since i (versions ?m k) \<or> own n (versions ?m k) \<noteq> None" for k
      unfolding vs by (rule modified_stamp [OF ch lt n small lti])
    ultimately show ?thesis by (simp add: alpha_txn_def Collect_disj_eq)
  qed
  have dw: "dom (si_writes (alpha_txn ?m n (Running t))) = {k. own n (versions ?m k) \<noteq> None}"
    by (auto simp: dom_def)
  have "map_option (alpha_txn m' i) (((sys_txns s)(n := None)) i) =
      (if i = n then None else map_option (\<lambda>y. y\<lparr>si_stale := si_stale y \<union>
        {k. own n (versions ?m k) \<noteq> None}\<rparr>) (map_option (alpha_txn ?m i) (sys_txns s i)))" for i
    using tx [of i] by (cases "sys_txns s i") auto
  then show ?thesis
    by (simp add: alpha_def si_commit_def db dw fun_eq_iff del: alpha_txn_fields(3)
        cong: option.case_cong)
qed

lemma alpha_rollback:
  assumes inv: "sys_inv s" and ab: "sys_txns s n = Some (Aborting t ((k, a) # rest))"
    and rb: "mt_rollback t k (sys_mem s) = Inr m'"
  shows "alpha (s\<lparr>sys_mem := m', sys_txns := (sys_txns s)(n \<mapsto> Aborting t rest)\<rparr>) =
    (alpha s)\<lparr>si_txns := (si_txns (alpha s))(n \<mapsto>
      (alpha_txn (sys_mem s) n (Aborting t rest))
        \<lparr>si_writes := (si_writes (alpha_txn (sys_mem s) n (Aborting t rest)))(k := None)\<rparr>)\<rparr>"
proof -
  let ?m = "sys_mem s"
  from rollback_step_result [OF inv ab, of k] rb have
    vo: "\<And>j. j \<noteq> k \<Longrightarrow> versions m' j = versions ?m j" and
    vk: "versions m' k = dropWhile (\<lambda>v. fst v = uncommitted n) (versions ?m k)"
    by auto
  have n: "n < ts_limit" using inv_small [OF inv ab] .
  have db: "latest (versions m' j) = latest (versions ?m j)" for j
    using vk vo by (cases "j = k") (simp_all add: drop_own_latest)
  have base: "base i (versions m' j) = base i (versions ?m j)" for i j
    using vk vo by (cases "j = k") (simp_all add: drop_own_base)
  have modi: "modified_since i (versions m' j) = modified_since i (versions ?m j)" for i j
    using vk vo by (cases "j = k") (simp_all add: drop_own_modified)
  have own: "own i (versions m' j) = (if j = k \<and> i = n then None else own i (versions ?m j))"
    if "i \<in> dom (sys_txns s)" for i j
    using drop_own_own [OF inv_chain [OF inv] inv_counter [OF inv, THEN conjunct1] n
        inv_dom_small [OF inv] that] vo vk by (cases "j = k") auto
  have "n \<in> dom (sys_txns s)" using ab by blast
  then have "alpha_txn m' n (Aborting t rest) = (alpha_txn ?m n (Aborting t rest))
      \<lparr>si_writes := (si_writes (alpha_txn ?m n (Aborting t rest)))(k := None)\<rparr>"
    by (auto simp: alpha_txn_def base modi own fun_eq_iff)
  moreover have "alpha_txn m' i x = alpha_txn ?m i x" if "sys_txns s i = Some x" "i \<noteq> n" for i x
  proof -
    have "i \<in> dom (sys_txns s)" using that by blast
    with that(2) show ?thesis by (simp add: alpha_txn_def base modi own)
  qed
  ultimately have "map_option (alpha_txn m' i) (((sys_txns s)(n \<mapsto> Aborting t rest)) i) =
      ((\<lambda>i. map_option (alpha_txn ?m i) (sys_txns s i))(n \<mapsto> (alpha_txn ?m n (Aborting t rest))
        \<lparr>si_writes := (si_writes (alpha_txn ?m n (Aborting t rest)))(k := None)\<rparr>)) i" for i
    by (cases "i = n"; cases "sys_txns s i") simp_all
  then show ?thesis by (simp add: alpha_def db fun_eq_iff)
qed

section \<open>The simulation\<close>

lemma alpha_same: "sys_mem s' = sys_mem s \<Longrightarrow> sys_txns s' = sys_txns s \<Longrightarrow> alpha s' = alpha s"
  by (simp add: alpha_def)

lemma ww_error_simps:
  "ww_error ''put'' = Inl (Err (TransactionAborted ''ww-conflict detected in put()''))"
  "ww_error ''update'' = Inl (Err (TransactionAborted ''ww-conflict detected in update()''))"
  "ww_error ''delete'' = Inl (Err (TransactionAborted ''ww-conflict detected in delete()''))"
  by (simp_all add: ww_error_def)

lemma sim_put:
  assumes inv: "sys_inv s" and run: "sys_txns s n = Some (Running t)"
    and put: "mt_put cd [] k v (sys_mem s, sys_tm s) t = ((m', tm'), t', r)"
  shows "si_step (alpha s) (EPut n k v r)
    (alpha (s\<lparr>sys_mem := m', sys_tm := tm', sys_txns := (sys_txns s)(n \<mapsto> Running t')\<rparr>))"
proof (cases "conflict n (versions (sys_mem s) k)")
  case True
  with running_put [OF inv run, of k cd v] put run have
    "r = ww_error ''put''" "m' = sys_mem s" "tm' = sys_tm s" "t' = t"
    by (auto simp: ww_error_simps)
  with True si_put_conflict [OF alpha_txns [OF run], of k v] alpha_free [OF inv run, of k]
  show ?thesis by (simp add: txns_same [OF run])
next
  case False
  with running_put [OF inv run, of k cd v] put obtain a where
    r: "r = Inr True" and w: "written (sys_mem s) k (uncommitted n, Insert v) a m'" by auto
  show ?thesis
    using si_put [OF alpha_txns [OF run], of k v] alpha_free [OF inv run, of k] False
    by (simp add: r alpha_written [OF inv run False w])
qed

lemma sim_update:
  assumes inv: "sys_inv s" and run: "sys_txns s n = Some (Running t)"
    and up: "mt_update cd [] k f (sys_mem s, sys_tm s) t = ((m', tm'), t', r)"
  shows "si_step (alpha s) (EUpdate n k f r)
    (alpha (s\<lparr>sys_mem := m', sys_tm := tm', sys_txns := (sys_txns s)(n \<mapsto> Running t')\<rparr>))"
proof (cases "conflict n (versions (sys_mem s) k)")
  case True
  with running_update [OF inv run, of k cd f] up run have
    "r = ww_error ''update''" "m' = sys_mem s" "tm' = sys_tm s" "t' = t"
    by (auto simp: ww_error_simps)
  with True si_update_conflict [OF alpha_txns [OF run], of k f] alpha_free [OF inv run, of k]
  show ?thesis by (simp add: txns_same [OF run])
next
  case False
  show ?thesis
  proof (cases "view n (versions (sys_mem s) k)")
    case None
    with False running_update [OF inv run, of k cd f] up run have
      "r = Inr False" "m' = sys_mem s" "tm' = sys_tm s" "t' = t" by auto
    with False None si_update_none [OF alpha_txns [OF run], of k f] alpha_free [OF inv run, of k]
      alpha_read [OF inv run, of k]
    show ?thesis by (simp add: txns_same [OF run])
  next
    case (Some v)
    with False running_update [OF inv run, of k cd f] up obtain a where
      r: "r = Inr True" and w: "written (sys_mem s) k (uncommitted n, Insert (f v)) a m'" by auto
    show ?thesis
      using si_update [OF alpha_txns [OF run], of k v f] alpha_free [OF inv run, of k] False Some
        alpha_read [OF inv run, of k]
      by (simp add: r alpha_written [OF inv run False w])
  qed
qed

lemma sim_delete:
  assumes inv: "sys_inv s" and run: "sys_txns s n = Some (Running t)"
    and del: "mt_delete cd [] k (sys_mem s, sys_tm s) t = ((m', tm'), t', r)"
  shows "si_step (alpha s) (EDelete n k r)
    (alpha (s\<lparr>sys_mem := m', sys_tm := tm', sys_txns := (sys_txns s)(n \<mapsto> Running t')\<rparr>))"
proof (cases "conflict n (versions (sys_mem s) k)")
  case True
  with running_delete [OF inv run, of k cd] del run have
    "r = ww_error ''delete''" "m' = sys_mem s" "tm' = sys_tm s" "t' = t"
    by (auto simp: ww_error_simps)
  with True si_delete_conflict [OF alpha_txns [OF run], of k] alpha_free [OF inv run, of k]
  show ?thesis by (simp add: txns_same [OF run])
next
  case False
  show ?thesis
  proof (cases "view n (versions (sys_mem s) k)")
    case None
    with False running_delete [OF inv run, of k cd] del run have
      "r = Inr False" "m' = sys_mem s" "tm' = sys_tm s" "t' = t" by auto
    with False None si_delete_none [OF alpha_txns [OF run], of k] alpha_free [OF inv run, of k]
      alpha_read [OF inv run, of k]
    show ?thesis by (simp add: txns_same [OF run])
  next
    case (Some v)
    with False running_delete [OF inv run, of k cd] del obtain a where
      r: "r = Inr True" and w: "written (sys_mem s) k (uncommitted n, Delete) a m'" by auto
    show ?thesis
      using si_delete [OF alpha_txns [OF run], of k] alpha_free [OF inv run, of k] False Some
        alpha_read [OF inv run, of k]
      by (simp add: r alpha_written [OF inv run False w])
  qed
qed

lemma sim_step:
  assumes "step cd s e s'" and inv: "sys_inv s"
  shows "si_step (alpha s) e (alpha s')"
  using assms(1)
proof cases
  case (step_begin t tm')
  note b = inv_begin(2) [OF inv step_begin(3,4)]
  have "si_txns (alpha s) (timestamp_counter (sys_tm s)) = None" using b by (simp add: alpha_def)
  from si_begin [OF this] show ?thesis
    by (simp add: step_begin(1,2) alpha_begin [OF inv step_begin(3) b])
next
  case (step_get n t k v t')
  then have eq: "t' = t" "v = view n (versions (sys_mem s) k)"
    using running_scan(3) [OF inv step_get(3), of k] by simp_all
  show ?thesis
    using si_get [OF alpha_txns [OF step_get(3)], of k] alpha_read [OF inv step_get(3), of k]
    by (simp add: step_get(1,2) eq txns_same [OF step_get(3)])
next
  case (step_get_fault n t k e)
  then show ?thesis using running_scan(3) [OF inv step_get_fault(3), of k] by simp
next
  case (step_put n t k v m' tm' t' r)
  then show ?thesis using sim_put [OF inv] by blast
next
  case (step_update n t k f m' tm' t' r)
  then show ?thesis using sim_update [OF inv] by blast
next
  case (step_delete n t k m' tm' t' r)
  then show ?thesis using sim_delete [OF inv] by blast
next
  case (step_commit n t ts t' m' tm')
  then show ?thesis
    using si_commits [OF alpha_txns [OF step_commit(3)]] alpha_commit [OF inv step_commit(3-5)]
    by simp
next
  case (step_abort n t nodes t' tm')
  have "alpha s' = (alpha s)\<lparr>si_txns := (si_txns (alpha s))(n \<mapsto>
      (alpha_txn (sys_mem s) n (Running t))\<lparr>si_aborting := True\<rparr>)\<rparr>"
    by (simp add: step_abort(2) alpha_def alpha_txn_def fun_eq_iff)
  with si_abort [OF alpha_txns [OF step_abort(3)]] show ?thesis by (simp add: step_abort(1))
next
  case (step_rollback n t k a rest m')
  have "alpha_txn (sys_mem s) n (Aborting t ((k, a) # rest)) =
      alpha_txn (sys_mem s) n (Aborting t rest)" by (simp add: alpha_txn_def)
  with si_rollback [OF alpha_txns [OF step_rollback(3)], of k]
    alpha_rollback [OF inv step_rollback(3,4)] show ?thesis by (simp add: step_rollback(1,2))
next
  case (step_aborted n t)
  have "alpha s' = (alpha s)\<lparr>si_txns := (si_txns (alpha s))(n := None)\<rparr>"
    by (simp add: step_aborted(2) alpha_def fun_eq_iff)
  moreover have "si_writes (alpha_txn (sys_mem s) n (Aborting t [])) = Map.empty"
    using inv_aborted(2) [OF inv step_aborted(3)] by (simp add: fun_eq_iff)
  ultimately show ?thesis
    using si_aborted [OF alpha_txns [OF step_aborted(3)]] by (simp add: step_aborted(1))
qed

section \<open>What holds between two moments of a run\<close>

fun writes_key :: "u64 \<Rightarrow> 'k \<Rightarrow> ('k, 'v) event \<Rightarrow> bool" where
  "writes_key n k (EPut m j v r) \<longleftrightarrow> m = n \<and> j = k \<and> r = Inr True"
| "writes_key n k (EUpdate m j f r) \<longleftrightarrow> m = n \<and> j = k \<and> r = Inr True"
| "writes_key n k (EDelete m j r) \<longleftrightarrow> m = n \<and> j = k \<and> r = Inr True"
| "writes_key n k _ \<longleftrightarrow> False"

lemma si_step_stable:
  assumes "si_step s e s'" and "e \<noteq> EBegin n"
    and "si_txns s' n = Some x'" and "\<not> si_aborting x'"
  shows "\<exists>x. si_txns s n = Some x \<and> \<not> si_aborting x \<and> si_snap x' = si_snap x \<and>
    si_stale x \<subseteq> si_stale x' \<and> (\<not> writes_key n k e \<longrightarrow> si_writes x' k = si_writes x k)"
  using assms by cases (auto simp: si_write_def si_commit_def ww_error_def split: if_splits)

lemma step_counter:
  assumes "step cd s e s'" and "sys_inv s"
  shows "timestamp_counter (sys_tm s) \<le> timestamp_counter (sys_tm s')"
  using assms(1)
proof cases
  case (step_begin t tm')
  then show ?thesis
    using start_transaction_fields(2) [OF step_begin(4)] word_less_Suc [OF step_begin(3)] by simp
next
  case (step_put n t k v m' tm' t' r)
  then show ?thesis
    using running_put [OF assms(2) step_put(3), of k cd v] by (auto split: if_splits)
next
  case (step_update n t k f m' tm' t' r)
  then show ?thesis
    using running_update [OF assms(2) step_update(3), of k cd f]
    by (auto split: if_splits option.splits)
next
  case (step_delete n t k m' tm' t' r)
  then show ?thesis
    using running_delete [OF assms(2) step_delete(3), of k cd] by (auto split: if_splits)
next
  case (step_commit n t ts t' m' tm')
  then show ?thesis
    using commit_section_result [OF assms(2) step_commit(3)] word_less_Suc [OF step_commit(4)]
    by auto
next
  case (step_abort n t nodes t' tm')
  then show ?thesis by (auto simp: abort_section_def)
qed auto

lemma steps_counter:
  "\<lbrakk>steps cd s es s'; sys_inv s\<rbrakk> \<Longrightarrow> timestamp_counter (sys_tm s) \<le> timestamp_counter (sys_tm s')"
  by (induction rule: steps.induct) (auto dest: step_counter steps_inv)

lemma begin_counter: "step cd s (EBegin n) s' \<Longrightarrow> n = timestamp_counter (sys_tm s)"
  by auto

text \<open>
  A transaction that is running at the end of a run in which it did not write a key reads the
  same value of that key at the end as at the start; so it did run all along.
\<close>

lemma steps_stable:
  assumes "steps cd s es s'" and "sys_inv s" and "n < timestamp_counter (sys_tm s)"
    and "sys_txns s' n = Some (Running t')"
  shows "\<exists>t. sys_txns s n = Some (Running t) \<and>
    {k. modified_since n (versions (sys_mem s) k)} \<subseteq>
      {k. modified_since n (versions (sys_mem s') k)} \<and>
    (\<forall>k. base n (versions (sys_mem s') k) = base n (versions (sys_mem s) k)) \<and>
    (\<forall>k. (\<forall>e\<in>set es. \<not> writes_key n k e) \<longrightarrow>
       own n (versions (sys_mem s') k) = own n (versions (sys_mem s) k))"
  using assms
proof (induction arbitrary: t' rule: steps.induct)
  case (steps_nil s)
  then show ?case by auto
next
  case (steps_snoc s es s' e s'')
  have inv': "sys_inv s'" using steps_snoc by (auto dest: steps_inv)
  have "n < timestamp_counter (sys_tm s')"
    using steps_counter [OF steps_snoc(1,4)] steps_snoc(5) by simp
  then have nb: "e \<noteq> EBegin n" using begin_counter steps_snoc(2) by fastforce
  have sim: "si_step (alpha s') e (alpha s'')" using sim_step [OF steps_snoc(2) inv'] .
  have st: "si_txns (alpha s'') n = Some (alpha_txn (sys_mem s'') n (Running t'))"
    using alpha_txns [OF steps_snoc(6)] .
  have stable: "\<exists>t. sys_txns s' n = Some (Running t) \<and>
      base n (versions (sys_mem s'') k) = base n (versions (sys_mem s') k) \<and>
      (modified_since n (versions (sys_mem s') k) \<longrightarrow>
       modified_since n (versions (sys_mem s'') k)) \<and>
      (\<not> writes_key n k e \<longrightarrow>
       own n (versions (sys_mem s'') k) = own n (versions (sys_mem s') k))" for k
  proof -
    from si_step_stable [OF sim nb st, of k] obtain x where x: "si_txns (alpha s') n = Some x"
      "\<not> si_aborting x" "si_snap (alpha_txn (sys_mem s'') n (Running t')) = si_snap x"
      "si_stale x \<subseteq> si_stale (alpha_txn (sys_mem s'') n (Running t'))"
      "\<not> writes_key n k e \<longrightarrow> si_writes (alpha_txn (sys_mem s'') n (Running t')) k = si_writes x k"
      by auto
    from x(1) obtain y where y: "sys_txns s' n = Some y" "x = alpha_txn (sys_mem s') n y"
      by (auto simp: alpha_def)
    with x(2) obtain t where t: "y = Running t" by (cases y) auto
    have "base n (versions (sys_mem s'') k) = base n (versions (sys_mem s') k)"
      using fun_cong [OF x(3), of k] y(2) by simp
    moreover have "modified_since n (versions (sys_mem s') k) \<Longrightarrow>
        modified_since n (versions (sys_mem s'') k)"
      using subsetD [OF x(4), of k] y(2) by simp
    ultimately show ?thesis using x(5) y t by simp
  qed
  then obtain t where t: "sys_txns s' n = Some (Running t)" by blast
  from steps_snoc.IH [OF steps_snoc(4,5) t] stable show ?case by auto
qed

lemma steps_view:
  assumes "steps cd s es s'" and "sys_inv s" and "n < timestamp_counter (sys_tm s)"
    and "sys_txns s' n = Some (Running t')" and "\<forall>e\<in>set es. \<not> writes_key n k e"
  shows "view n (versions (sys_mem s') k) = view n (versions (sys_mem s) k)"
proof -
  from steps_stable [OF assms(1-4)] assms(5) obtain t where t: "sys_txns s n = Some (Running t)"
    "base n (versions (sys_mem s') k) = base n (versions (sys_mem s) k)"
    "own n (versions (sys_mem s') k) = own n (versions (sys_mem s) k)" by blast
  have inv': "sys_inv s'" using steps_inv assms by blast
  show ?thesis
    using alpha_read [OF inv' assms(4), of k] alpha_read [OF assms(2) t(1), of k] t(2,3)
    by (cases "own n (versions (sys_mem s) k)") (simp_all add: si_read_def)
qed

lemma get_result:
  assumes "sys_inv s" and "step cd s (EGet n k r) s'"
  shows "r = Inr (view n (versions (sys_mem s) k))" and "s' = s"
    and "\<exists>t. sys_txns s n = Some (Running t)"
proof -
  have "r = Inr (view n (versions (sys_mem s) k)) \<and> s' = s \<and>
      (\<exists>t. sys_txns s n = Some (Running t))"
    using assms(2)
  proof cases
    case (step_get t v t')
    then show ?thesis using running_scan(3) [OF assms(1) step_get(3), of k] by (simp add: txns_same)
  next
    case (step_get_fault t e)
    then show ?thesis using running_scan(3) [OF assms(1) step_get_fault(3), of k] by simp
  qed
  then show "r = Inr (view n (versions (sys_mem s) k))" "s' = s"
    "\<exists>t. sys_txns s n = Some (Running t)" by auto
qed

lemma put_result:
  assumes "sys_inv s" and "step cd s (EPut n k v (Inr True)) s'"
  shows "view n (versions (sys_mem s') k) = Some v"
    and "\<exists>t. sys_txns s n = Some (Running t)" and "\<exists>t. sys_txns s' n = Some (Running t)"
proof -
  from assms(2) obtain t m' tm' t' where run: "sys_txns s n = Some (Running t)"
    and put: "mt_put cd [] k v (sys_mem s, sys_tm s) t = ((m', tm'), t', Inr True)"
    and s': "s' = s\<lparr>sys_mem := m', sys_tm := tm', sys_txns := (sys_txns s)(n \<mapsto> Running t')\<rparr>"
    by cases
  from put running_put [OF assms(1) run, of k cd v] obtain a where
    "written (sys_mem s) k (uncommitted n, Insert v) a m'" by (auto split: if_splits)
  then show "view n (versions (sys_mem s') k) = Some v"
    by (simp add: s' written_def view_push_own)
  show "\<exists>t. sys_txns s n = Some (Running t)" "\<exists>t. sys_txns s' n = Some (Running t)"
    using run s' by auto
qed

section \<open>What clients can rely on\<close>

text \<open>
  C1: the memtable with its transaction manager implements the snapshot isolation machine: the
  empty system stands for the empty machine, and every step of every reachable system, whatever
  the interleaving of the clients, is the step of the machine with the same event and result.
\<close>

theorem implements_snapshot_isolation:
  assumes "reachable cd s" and "step cd s e s'"
  shows "si_step (alpha s) e (alpha s') \<and>
    alpha (sys_init :: ('k, 'v) sys) = \<lparr>si_db = \<lambda>_. None, si_txns = Map.empty\<rparr>"
proof
  show "si_step (alpha s) e (alpha s')"
    using sim_step [OF assms(2) reachable_inv [OF assms(1)]] .
  have "versions (memtable_new :: ('k, 'v) memtable) k = []" for k
    by (simp add: versions_def chain_addrs_def memtable_new_def)
  then show "alpha (sys_init :: ('k, 'v) sys) = \<lparr>si_db = \<lambda>_. None, si_txns = Map.empty\<rparr>"
    by (simp add: alpha_def sys_init_def latest_def fun_eq_iff)
qed

text \<open>
  C2: a read returns the value that was committed when the reading transaction started, as long
  as the transaction has not written the key itself: commits in between stay invisible, and no
  uncommitted value of another transaction is ever read.
\<close>

theorem snapshot_read:
  assumes "reachable cd s" and "step cd s (EBegin n) s0" and "steps cd s0 es s1"
    and "\<forall>e\<in>set es. \<not> writes_key n k e" and "step cd s1 (EGet n k r) s2"
  shows "r = Inr (latest (versions (sys_mem s) k))"
proof -
  have inv: "sys_inv s" using reachable_inv [OF assms(1)] .
  have inv0: "sys_inv s0" using step_inv [OF assms(2) inv] .
  have inv1: "sys_inv s1" using steps_inv [OF assms(3) inv0] .
  from assms(2) obtain t tm' where b: "n = timestamp_counter (sys_tm s)"
    "timestamp_counter (sys_tm s) < ts_limit" "start_transaction Normal (sys_tm s) = (t, tm')"
    "s0 = s\<lparr>sys_tm := tm', sys_txns := (sys_txns s)(n \<mapsto> Running t)\<rparr>" by cases auto
  have run0: "sys_txns s0 n = Some (Running t)" by (simp add: b(4))
  obtain t1 where run1: "sys_txns s1 n = Some (Running t1)" using get_result(3) [OF inv1 assms(5)]
    by blast
  have "r = Inr (view n (versions (sys_mem s1) k))" using get_result(1) [OF inv1 assms(5)] .
  also have "view n (versions (sys_mem s1) k) = view n (versions (sys_mem s0) k)"
    using steps_view [OF assms(3) inv0 _ run1 assms(4)] inv_session [OF inv0 run0] by simp
  also have "\<dots> = latest (versions (sys_mem s) k)"
  proof -
    have "n \<notin> dom (sys_txns s)" using inv_begin(2) [OF inv b(2,3)] by (auto simp: b(1))
    then have "own n (versions (sys_mem s) k) = None"
      "base n (versions (sys_mem s) k) = latest (versions (sys_mem s) k)"
      using start_view [OF inv_chain [OF inv, of k] b(2) _ inv_dom_small [OF inv]]
      by (simp_all add: b(1))
    then show ?thesis using alpha_read [OF inv0 run0, of k] by (simp add: si_read_def b(4))
  qed
  finally show ?thesis .
qed

text \<open>
  C3: a transaction reads its own last write: after a successful put of a value, a get of the
  same transaction returns it, whatever other clients did in between.
\<close>

theorem read_your_writes:
  assumes "reachable cd s" and "step cd s (EPut n k v (Inr True)) s0" and "steps cd s0 es s1"
    and "\<forall>e\<in>set es. \<not> writes_key n k e" and "step cd s1 (EGet n k r) s2"
  shows "r = Inr (Some v)"
proof -
  have inv: "sys_inv s" using reachable_inv [OF assms(1)] .
  have inv0: "sys_inv s0" using step_inv [OF assms(2) inv] .
  have inv1: "sys_inv s1" using steps_inv [OF assms(3) inv0] .
  obtain t0 t1 where run: "sys_txns s0 n = Some (Running t0)" "sys_txns s1 n = Some (Running t1)"
    using put_result(3) [OF inv assms(2)] get_result(3) [OF inv1 assms(5)] by blast
  have "r = Inr (view n (versions (sys_mem s1) k))" using get_result(1) [OF inv1 assms(5)] .
  also have "view n (versions (sys_mem s1) k) = view n (versions (sys_mem s0) k)"
    using steps_view [OF assms(3) inv0 _ run(2) assms(4)] inv_session [OF inv0 run(1)] by simp
  also have "\<dots> = Some v" using put_result(1) [OF inv assms(2)] .
  finally show ?thesis .
qed

lemma put_conflict_result:
  assumes inv: "sys_inv s" and "step cd s (EPut n k v r) s'"
  shows "conflict n (versions (sys_mem s) k) \<Longrightarrow> r = ww_error ''put''"
    and "\<not> conflict n (versions (sys_mem s) k) \<Longrightarrow> r = Inr True"
    and "\<exists>t. sys_txns s n = Some (Running t)"
proof -
  from assms(2) obtain t m' tm' t' where run: "sys_txns s n = Some (Running t)"
    and put: "mt_put cd [] k v (sys_mem s, sys_tm s) t = ((m', tm'), t', r)" by cases
  show "conflict n (versions (sys_mem s) k) \<Longrightarrow> r = ww_error ''put''"
    and "\<not> conflict n (versions (sys_mem s) k) \<Longrightarrow> r = Inr True"
    using running_put [OF inv run, of k cd v] put by (auto simp: ww_error_simps)
  show "\<exists>t. sys_txns s n = Some (Running t)" using run by blast
qed

lemma commit_result:
  assumes inv: "sys_inv s" and "step cd s (ECommit m) s'"
  shows "\<exists>t. sys_txns s m = Some (Running t) \<and>
    timestamp_counter (sys_tm s) < ts_limit \<and> sys_txns s' = (sys_txns s)(m := None) \<and>
    (\<forall>k. versions (sys_mem s') k =
      map (stamp m (Timestamp (timestamp_counter (sys_tm s)))) (versions (sys_mem s) k))"
  using assms(2)
proof cases
  case (step_commit t ts t' m' tm')
  then show ?thesis using inv_commit(2) [OF inv step_commit(2-4)] by simp
qed

text \<open>
  C4: no update is lost. When a transaction commits a key while another one is running, the other
  one has not written the key, and its later put of the key is refused with a conflict.
\<close>

theorem no_lost_update:
  assumes "reachable cd s" and "own m (versions (sys_mem s) k) \<noteq> None"
    and "step cd s (ECommit m) s1" and "sys_txns s n = Some (Running t)" and "n \<noteq> m"
    and "steps cd s1 es s2" and "step cd s2 (EPut n k v r) s3"
  shows "own n (versions (sys_mem s) k) = None \<and> r = ww_error ''put''"
proof -
  have inv: "sys_inv s" using reachable_inv [OF assms(1)] .
  have inv1: "sys_inv s1" using step_inv [OF assms(3) inv] .
  have inv2: "sys_inv s2" using steps_inv [OF assms(6) inv1] .
  obtain t2 where run2: "sys_txns s2 n = Some (Running t2)"
    using put_conflict_result(3) [OF inv2 assms(7)] by blast
  from commit_result [OF inv assms(3)] obtain tm where cm: "sys_txns s m = Some (Running tm)"
    "timestamp_counter (sys_tm s) < ts_limit" "sys_txns s1 = (sys_txns s)(m := None)"
    "\<And>k. versions (sys_mem s1) k =
      map (stamp m (Timestamp (timestamp_counter (sys_tm s)))) (versions (sys_mem s) k)" by blast
  have m: "m < ts_limit" using inv_small [OF inv cm(1)] .
  have n: "n < timestamp_counter (sys_tm s)" using inv_session [OF inv assms(4)] by simp
  have run1: "sys_txns s1 n = Some (Running t)" using assms(4,5) cm(3) by simp
  have "modified_since n (versions (sys_mem s1) k)"
    unfolding cm(4)
    using modified_stamp [OF inv_chain [OF inv] cm(2) m inv_dom_small [OF inv] n] assms(2) by blast
  moreover have "n < timestamp_counter (sys_tm s1)" using inv_session [OF inv1 run1] by simp
  ultimately have "modified_since n (versions (sys_mem s2) k)"
    using steps_stable [OF assms(6) inv1 _ run2] by blast
  then have "conflict n (versions (sys_mem s2) k)"
    using conflict_iff [OF inv_chain [OF inv2, of k] inv_counter [OF inv2, THEN conjunct1]
        inv_small [OF inv2 run2] inv_dom_small [OF inv2]] by blast
  then have "r = ww_error ''put''" by (rule put_conflict_result(1) [OF inv2 assms(7)])
  moreover have "own n (versions (sys_mem s) k) = None"
  proof (rule ccontr)
    assume "own n (versions (sys_mem s) k) \<noteq> None"
    have "m \<in> dom (sys_txns s)" using cm(1) by blast
    have "\<not> conflict n (versions (sys_mem s) k)"
      using own_not_modified(3) [OF inv_chain [OF inv] inv_counter [OF inv, THEN conjunct1] _
          inv_small [OF inv assms(4)] inv_dom_small [OF inv]]
        \<open>own n (versions (sys_mem s) k) \<noteq> None\<close> by blast
    then show False
      using conflict_iff [OF inv_chain [OF inv, of k] inv_counter [OF inv, THEN conjunct1]
          inv_small [OF inv assms(4)] inv_dom_small [OF inv]] assms(2,5) \<open>m \<in> dom (sys_txns s)\<close> by metis
  qed
  ultimately show ?thesis by simp
qed

text \<open>
  C5: commit and abort are atomic. A commit changes the committed value of exactly the keys its
  transaction wrote, to the values it wrote, in one step; no other step changes a committed value;
  and when an abort is through, no version of its transaction is left in any list.
\<close>

theorem commit_and_abort_atomic:
  assumes "reachable cd s" and "step cd s e s'"
  shows "(case e of
      ECommit n \<Rightarrow> latest (versions (sys_mem s') k) =
        (case own n (versions (sys_mem s) k) of
           Some v \<Rightarrow> v | None \<Rightarrow> latest (versions (sys_mem s) k))
    | EAborted n \<Rightarrow> latest (versions (sys_mem s') k) = latest (versions (sys_mem s) k) \<and>
        (\<forall>v\<in>set (versions (sys_mem s') k). fst v \<noteq> uncommitted n)
    | _ \<Rightarrow> latest (versions (sys_mem s') k) = latest (versions (sys_mem s) k))"
proof -
  have inv: "sys_inv s" using reachable_inv [OF assms(1)] .
  have inv': "sys_inv s'" using step_inv [OF assms(2) inv] .
  have db: "si_db (alpha s'') k = latest (versions (sys_mem s'') k)" for s'' :: "('a, 'b) sys"
    by (simp add: alpha_def)
  have sim: "si_step (alpha s) e (alpha s')" using sim_step [OF assms(2) inv] .
  show ?thesis
  proof (cases e)
    case (ECommit n)
    with sim obtain x where x: "si_txns (alpha s) n = Some x" "alpha s' = si_commit n x (alpha s)"
      by (auto elim: si_step.cases)
    then have "si_writes x k = own n (versions (sys_mem s) k)" by (auto simp: alpha_def)
    then have "si_db (alpha s') k = (case own n (versions (sys_mem s) k) of
        Some v \<Rightarrow> v | None \<Rightarrow> si_db (alpha s) k)" by (simp add: x(2) si_commit_def)
    then show ?thesis by (simp add: ECommit db cong: option.case_cong)
  next
    case (EAborted n)
    have "sys_txns s' n = None" "versions (sys_mem s') k = versions (sys_mem s) k"
      using assms(2) by (auto simp: EAborted)
    moreover have "fst v \<noteq> uncommitted n" if "v \<in> set (versions (sys_mem s') k)" for v
    proof
      assume u: "fst v = uncommitted n"
      from chain_ok_types [OF inv_chain [OF inv'] inv_counter [OF inv', THEN conjunct1] that] u
      obtain i where i: "i \<in> dom (sys_txns s')" "uncommitted n = uncommitted i" by auto
      have "n < ts_limit"
        using assms(2) inv_small [OF inv] by (auto simp: EAborted)
      with i inv_dom_small [OF inv'] have "n = i" by (auto simp: uncommitted_inj)
      with i(1) \<open>sys_txns s' n = None\<close> show False by auto
    qed
    ultimately show ?thesis by (simp add: EAborted)
  qed (use sim in \<open>auto simp flip: db elim!: si_step.cases\<close>)
qed

section \<open>No operation gets stuck\<close>

lemma rollback_all:
  assumes "sys_inv s" and "sys_txns s n = Some (Aborting t nodes)"
  shows "\<exists>es s'. steps cd s es s' \<and> sys_txns s' n = None \<and> length es = Suc (length nodes)"
  using assms
proof (induction nodes arbitrary: s)
  case Nil
  then show ?case
    using steps_one [OF step_aborted [OF Nil(2), of cd]]
    by (intro exI [of _ "[EAborted n]"] exI) auto
next
  case (Cons ka rest)
  obtain k a where ka: "ka = (k, a)" by (cases ka)
  obtain m' where m': "mt_rollback t k (sys_mem s) = Inr m'"
    using rollback_step_result [OF Cons.prems] by blast
  let ?s = "s\<lparr>sys_mem := m', sys_txns := (sys_txns s)(n \<mapsto> Aborting t rest)\<rparr>"
  have st: "step cd s (ERollback n k) ?s"
    using step_rollback [OF Cons.prems(2) [unfolded ka] m'] .
  have "sys_inv ?s" using step_inv [OF st Cons.prems(1)] .
  from Cons.IH [OF this] obtain es s' where "steps cd ?s es s'" "sys_txns s' n = None"
    "length es = Suc (length rest)" by auto
  then show ?case
    using steps_trans [OF _ steps_one [OF st]]
    by (intro exI [of _ "ERollback n k # es"] exI [of _ s']) force
qed

text \<open>
  C13: no operation of a running transaction faults or hangs: a get returns a value or nothing, a
  put or a delete ends with success or with the conflict error, a commit goes through while the
  counter is below its limit, and an abort finishes after one step for each redo node and one more.
\<close>

theorem operations_complete:
  assumes "reachable cd s" and "sys_txns s n = Some (Running t)"
  shows "(\<exists>v s'. step cd s (EGet n k (Inr v)) s') \<and>
    (\<exists>r s'. step cd s (EPut n k v r) s' \<and> (r = Inr True \<or> r = ww_error ''put'')) \<and>
    (\<exists>r s'. step cd s (EDelete n k r) s' \<and> (r = Inr True \<or> r = Inr False \<or> r = ww_error ''delete'')) \<and>
    (\<exists>r s'. step cd s (EUpdate n k f r) s' \<and>
       (r = Inr True \<or> r = Inr False \<or> r = ww_error ''update'')) \<and>
    (timestamp_counter (sys_tm s) < ts_limit \<longrightarrow> (\<exists>s'. step cd s (ECommit n) s')) \<and>
    (\<exists>es s'. steps cd s es s' \<and> sys_txns s' n = None \<and> length es = length (redo_nodes t) + 2)"
proof (intro conjI impI)
  have inv: "sys_inv s" using reachable_inv [OF assms(1)] .
  note run = assms(2)
  show "\<exists>v s'. step cd s (EGet n k (Inr v)) s'"
    using step_get [OF run running_scan(3) [OF inv run, of k]] by blast
  show "\<exists>r s'. step cd s (EPut n k v r) s' \<and> (r = Inr True \<or> r = ww_error ''put'')"
  proof -
    obtain m' tm' t' r where put: "mt_put cd [] k v (sys_mem s, sys_tm s) t = ((m', tm'), t', r)"
      by (metis prod.exhaust)
    have "r = Inr True \<or> r = ww_error ''put''"
      using running_put [OF inv run, of k cd v] put by (auto simp: ww_error_simps split: if_splits)
    with step_put [OF run put] show ?thesis by blast
  qed
  show "\<exists>r s'. step cd s (EDelete n k r) s' \<and>
      (r = Inr True \<or> r = Inr False \<or> r = ww_error ''delete'')"
  proof -
    obtain m' tm' t' r where del: "mt_delete cd [] k (sys_mem s, sys_tm s) t = ((m', tm'), t', r)"
      by (metis prod.exhaust)
    have "r = Inr True \<or> r = Inr False \<or> r = ww_error ''delete''"
      using running_delete [OF inv run, of k cd] del by (auto simp: ww_error_simps split: if_splits)
    with step_delete [OF run del] show ?thesis by blast
  qed
  show "\<exists>r s'. step cd s (EUpdate n k f r) s' \<and>
      (r = Inr True \<or> r = Inr False \<or> r = ww_error ''update'')"
  proof -
    obtain m' tm' t' r where up: "mt_update cd [] k f (sys_mem s, sys_tm s) t = ((m', tm'), t', r)"
      by (metis prod.exhaust)
    have "r = Inr True \<or> r = Inr False \<or> r = ww_error ''update''"
      using running_update [OF inv run, of k cd f] up
      by (auto simp: ww_error_simps split: if_splits option.splits)
    with step_update [OF run up] show ?thesis by blast
  qed
  show "\<exists>s'. step cd s (ECommit n) s'" if "timestamp_counter (sys_tm s) < ts_limit"
    using commit_section_result [OF inv run] step_commit [OF run that] by blast
  show "\<exists>es s'. steps cd s es s' \<and> sys_txns s' n = None \<and> length es = length (redo_nodes t) + 2"
  proof -
    obtain nodes t' tm' where ab: "abort_section t (sys_tm s) = (nodes, t', tm')"
      by (metis prod.exhaust)
    let ?s = "s\<lparr>sys_tm := tm', sys_txns := (sys_txns s)(n \<mapsto> Aborting t' nodes)\<rparr>"
    have st: "step cd s (EAbort n) ?s" using step_abort [OF run ab] .
    have nodes: "nodes = redo_nodes t" using ab by (simp add: abort_section_def)
    obtain es s' where es: "steps cd ?s es s'" "sys_txns s' n = None" "length es = Suc (length nodes)"
      using rollback_all [OF step_inv [OF st inv], of n t' nodes cd] by auto
    have "steps cd s ([EAbort n] @ es) s'" using steps_trans [OF es(1) steps_one [OF st]] .
    with es(2,3) nodes show ?thesis by (intro exI [of _ "[EAbort n] @ es"] exI [of _ s']) simp
  qed
qed

end
