(* ===== verification/Interference.thy ===== *)
theory Interference
  imports Snapshot_Isolation
begin

text \<open>
  The \<open>compare_exchange\<close> loops of \<open>put\<close>, \<open>update\<close> and \<open>delete\<close> while other transactions run.
  Between the moment a writer reads the version pointer and its \<open>compare_exchange\<close>, the others
  take any number of steps of the system. However often the writer has to retry, its outcome is
  that of the same operation done at once, at one moment of the run: the operations are
  linearizable, and the interleaving of whole operations of \<open>Mvcc\<close> covers them.
\<close>

section \<open>Steps of the others\<close>

fun event_of :: "('k, 'v) event \<Rightarrow> u64" where
  "event_of (EBegin n) = n"
| "event_of (EGet n k r) = n"
| "event_of (EPut n k v r) = n"
| "event_of (EUpdate n k f r) = n"
| "event_of (EDelete n k r) = n"
| "event_of (ECommit n) = n"
| "event_of (EAbort n) = n"
| "event_of (ERollback n k) = n"
| "event_of (EAborted n) = n"

definition others ::
  "('k, 'v) mt_codec \<Rightarrow> u64 \<Rightarrow> ('k, 'v) sys \<Rightarrow> ('k, 'v) sys \<Rightarrow> bool" where
  "others cd n s s' \<longleftrightarrow> (\<exists>es. steps cd s es s' \<and> (\<forall>e\<in>set es. event_of e \<noteq> n))"

text \<open>\<open>envs_run cd n s envs\<close>: each function of \<open>envs\<close> does some steps of the others, from \<open>s\<close> on.\<close>

fun envs_run ::
  "('k, 'v) mt_codec \<Rightarrow> u64 \<Rightarrow> ('k, 'v) sys \<Rightarrow> ('k, 'v) env list \<Rightarrow> bool" where
  "envs_run cd n s [] \<longleftrightarrow> True"
| "envs_run cd n s (e # es) \<longleftrightarrow> (\<exists>s'. others cd n s s' \<and>
     e (sys_mem s, sys_tm s) = (sys_mem s', sys_tm s') \<and> envs_run cd n s' es)"

text \<open>A node that is committed, or pending for the writer, is left alone by the others.\<close>

definition settled :: "u64 \<Rightarrow> 'v redo_node \<Rightarrow> bool" where
  "settled n x \<longleftrightarrow> ts_type (node_timestamp x) \<noteq> Uncommitted \<or> node_timestamp x = uncommitted n"

lemma stamp_nodes_other:
  "stamp_nodes ts nodes m = Inr m' \<Longrightarrow> mt_table m' = mt_table m \<and>
     (a \<notin> snd ` set nodes \<longrightarrow> mt_heap m' a = mt_heap m a)"
proof (induction nodes arbitrary: m)
  case (Cons ka nodes)
  then show ?case by (cases ka) (auto simp: res_bind_eq_Inr)
qed simp

lemma written_node:
  "\<lbrakk>written m k v b m'; mt_heap m a = Some x\<rbrakk> \<Longrightarrow> mt_heap m' a = Some x"
  unfolding written_def by (metis option.distinct(1))

lemma written_table:
  "\<lbrakk>written m k v b m'; mt_table m j = Some c\<rbrakk> \<Longrightarrow> mt_table m' j = Some c"
  unfolding written_def by blast

lemma step_table:
  assumes "step cd s e s'" and inv: "sys_inv s" and "mt_table (sys_mem s) j = Some c"
  shows "mt_table (sys_mem s') j = Some c"
  using assms(1)
proof cases
  case (step_put n t k v m' tm' t' r)
  then show ?thesis
    using running_put [OF inv step_put(3), of k cd v] written_table assms(3)
    by (auto split: if_splits)
next
  case (step_update n t k f m' tm' t' r)
  then show ?thesis
    using running_update [OF inv step_update(3), of k cd f] written_table assms(3)
    by (auto split: if_splits option.splits)
next
  case (step_delete n t k m' tm' t' r)
  then show ?thesis
    using running_delete [OF inv step_delete(3), of k cd] written_table assms(3)
    by (auto split: if_splits)
next
  case (step_commit n t ts t' m' tm')
  then show ?thesis
    using assms(3) stamp_nodes_other [of _ "redo_nodes t" "sys_mem s" m']
    by (auto simp: commit_section_def Let_def res_bind_eq_Inr split: if_splits)
next
  case (step_rollback n t k a rest m')
  have "mt_table m' = mt_table (sys_mem s)"
    using mt_rollback_versions [OF inv_wf [OF inv], of t k] step_rollback(4) by auto
  then show ?thesis using step_rollback(2) assms(3) by simp
qed (use assms(3) in auto)

lemma step_node:
  assumes "step cd s e s'" and inv: "sys_inv s" and "event_of e \<noteq> n" and n: "n < ts_limit"
    and x: "mt_heap (sys_mem s) a = Some x" and "settled n x"
  shows "mt_heap (sys_mem s') a = Some x"
  using assms(1)
proof cases
  case (step_put i t k v m' tm' t' r)
  then show ?thesis
    using running_put [OF inv step_put(3), of k cd v] written_node x
    by (auto split: if_splits)
next
  case (step_update i t k f m' tm' t' r)
  then show ?thesis
    using running_update [OF inv step_update(3), of k cd f] written_node x
    by (auto split: if_splits option.splits)
next
  case (step_delete i t k m' tm' t' r)
  then show ?thesis
    using running_delete [OF inv step_delete(3), of k cd] written_node x
    by (auto split: if_splits)
next
  case (step_commit i t ts t' m' tm')
  have i: "i \<noteq> n" "i < ts_limit"
    using assms(3) step_commit(1) inv_small [OF inv step_commit(3)] by auto
  have "a \<notin> snd ` set (redo_nodes t)"
  proof
    assume "a \<in> snd ` set (redo_nodes t)"
    then obtain k where "(k, a) \<in> set (redo_nodes t)" by auto
    with running_txn(2) [OF inv step_commit(3)] have
      "fst (node_version (sys_mem s) a) = uncommitted i" by (simp add: redo_ok_def)
    then have "node_timestamp x = uncommitted i" by (simp add: node_version_def x)
    with assms(6) i n show False by (auto simp: settled_def uncommitted_inj)
  qed
  then show ?thesis
    using step_commit(2,5) x stamp_nodes_other [of _ "redo_nodes t" "sys_mem s" m' a]
    by (auto simp: commit_section_def Let_def res_bind_eq_Inr split: if_splits)
next
  case (step_rollback i t k b rest m')
  then show ?thesis using rollback_step_result [OF inv step_rollback(3), of k] x by auto
qed (use x in auto)

lemma step_session:
  assumes "step cd s e s'" and "event_of e \<noteq> n"
  shows "sys_txns s' n = sys_txns s n"
  using assms by cases auto

lemma others_facts:
  assumes "others cd n s s'" and "sys_inv s" and "n < ts_limit"
  shows "sys_inv s'" and "sys_txns s' n = sys_txns s n"
    and "mt_table (sys_mem s) j = Some c \<Longrightarrow> mt_table (sys_mem s') j = Some c"
    and "\<lbrakk>mt_heap (sys_mem s) a = Some x; settled n x\<rbrakk> \<Longrightarrow> mt_heap (sys_mem s') a = Some x"
proof -
  from assms(1) obtain es where es: "steps cd s es s'" "\<forall>e\<in>set es. event_of e \<noteq> n"
    by (auto simp: others_def)
  from es assms(2) have "sys_inv s' \<and> sys_txns s' n = sys_txns s n \<and>
    (mt_table (sys_mem s) j = Some c \<longrightarrow> mt_table (sys_mem s') j = Some c) \<and>
    (mt_heap (sys_mem s) a = Some x \<longrightarrow> settled n x \<longrightarrow> mt_heap (sys_mem s') a = Some x)"
  proof (induction rule: steps.induct)
    case (steps_snoc s es s' e s'')
    then have IH: "sys_inv s'" "sys_txns s' n = sys_txns s n"
      "mt_table (sys_mem s) j = Some c \<longrightarrow> mt_table (sys_mem s') j = Some c"
      "mt_heap (sys_mem s) a = Some x \<longrightarrow> settled n x \<longrightarrow> mt_heap (sys_mem s') a = Some x"
      and ev: "event_of e \<noteq> n" by auto
    show ?case
      using step_inv [OF steps_snoc(2) IH(1)] step_session [OF steps_snoc(2) ev]
        step_table [OF steps_snoc(2) IH(1)] step_node [OF steps_snoc(2) IH(1) ev assms(3)] IH
      by auto
  qed simp
  then show "sys_inv s'" "sys_txns s' n = sys_txns s n"
    "mt_table (sys_mem s) j = Some c \<Longrightarrow> mt_table (sys_mem s') j = Some c"
    "\<lbrakk>mt_heap (sys_mem s) a = Some x; settled n x\<rbrakk> \<Longrightarrow> mt_heap (sys_mem s') a = Some x"
    by auto
qed

lemma event_writes: "event_of e \<noteq> n \<Longrightarrow> \<not> writes_key n k e"
  by (cases e) auto

lemma others_view:
  assumes "others cd n s s'" and inv: "sys_inv s" and run: "sys_txns s n = Some (Running t)"
  shows "view n (versions (sys_mem s') k) = view n (versions (sys_mem s) k)"
proof -
  from assms(1) obtain es where es: "steps cd s es s'" "\<forall>e\<in>set es. event_of e \<noteq> n"
    by (auto simp: others_def)
  have run': "sys_txns s' n = Some (Running t)"
    using others_facts(2) [OF assms(1) inv inv_small [OF inv run]] run by simp
  have n: "n < timestamp_counter (sys_tm s)" using inv_session [OF inv run] by simp
  have "\<forall>e\<in>set es. \<not> writes_key n k e" using es(2) by (simp add: event_writes)
  then show ?thesis by (rule steps_view [OF es(1) inv n run'])
qed

text \<open>If the version pointer is still the same, a writer that had no conflict has none now.\<close>

lemma others_no_conflict:
  assumes o: "others cd n s s'" and inv: "sys_inv s" and run: "sys_txns s n = Some (Running t)"
    and k: "mt_table (sys_mem s) k = Some c" and p: "mt_cells (sys_mem s) c = Some p"
    and same: "mt_cells (sys_mem s') c = Some p" and nc: "\<not> conflict n (versions (sys_mem s) k)"
  shows "\<not> conflict n (versions (sys_mem s') k)"
proof -
  have n: "n < ts_limit" using inv_small [OF inv run] .
  have inv': "sys_inv s'" and k': "mt_table (sys_mem s') k = Some c"
    using others_facts(1,3) [OF o inv n] k by auto
  have path: "path (mt_heap (sys_mem s)) p (chain_addrs (sys_mem s) k)"
    "path (mt_heap (sys_mem s')) p (chain_addrs (sys_mem s') k)"
    using rep_path [OF inv_wf [OF inv, unfolded mt_wf_def] k p]
      rep_path [OF inv_wf [OF inv', unfolded mt_wf_def] k' same] by auto
  show ?thesis
  proof (cases "chain_addrs (sys_mem s) k")
    case Nil
    with path have "chain_addrs (sys_mem s') k = []"
      by (cases "chain_addrs (sys_mem s') k") auto
    then show ?thesis by (simp add: versions_def conflict_def)
  next
    case (Cons a as)
    with path obtain bs where bs: "chain_addrs (sys_mem s') k = a # bs"
      by (cases "chain_addrs (sys_mem s') k") auto
    from path(1) Cons obtain x where x: "mt_heap (sys_mem s) a = Some x" by auto
    have vis: "visible n (node_version (sys_mem s) a)"
      using nc Cons by (simp add: conflict_def versions_def)
    then have "settled n x"
      by (auto simp: visible_def settled_def node_version_def x)
    then have "mt_heap (sys_mem s') a = Some x" using others_facts(4) [OF o inv n x] by simp
    then have "node_version (sys_mem s') a = node_version (sys_mem s) a"
      by (simp add: node_version_def x)
    with vis bs show ?thesis by (simp add: conflict_def versions_def)
  qed
qed

section \<open>One attempt\<close>

lemma others_refl: "others cd n s s"
  unfolding others_def by (intro exI [of _ "[]"]) (simp add: steps_nil)

lemma others_trans: "\<lbrakk>others cd n s s'; others cd n s' s''\<rbrakk> \<Longrightarrow> others cd n s s''"
  unfolding others_def by (metis steps_trans Un_iff set_append)

text \<open>
  An attempt is linear when, whatever the others do in it, it is the attempt without
  interference at the moment before or after, or ends in a retry with nothing changed.
\<close>

definition linear_attempt ::
  "('k, 'v) mt_codec \<Rightarrow> u64 \<Rightarrow> 'k \<Rightarrow> nat \<Rightarrow> ('k, 'v) txn \<Rightarrow>
    (('k, 'v) env \<Rightarrow> ('k, 'v) shared \<Rightarrow> ('k, 'v) txn \<Rightarrow> ('k, 'v) attempt) \<Rightarrow> bool" where
  "linear_attempt cd n k c t att \<longleftrightarrow>
     (\<forall>s s' e. sys_inv s \<longrightarrow> sys_txns s n = Some (Running t) \<longrightarrow> mt_table (sys_mem s) k = Some c \<longrightarrow>
        others cd n s s' \<longrightarrow> e (sys_mem s, sys_tm s) = (sys_mem s', sys_tm s') \<longrightarrow>
        att e (sys_mem s, sys_tm s) t = Retry (sys_mem s', sys_tm s') t \<or>
        (\<exists>s1 sh t' r. (s1 = s \<or> s1 = s') \<and> att id (sys_mem s1, sys_tm s1) t = Done sh t' r \<and>
           att e (sys_mem s, sys_tm s) t = Done sh t' r))"

lemma cas_loop_linear:
  assumes lin: "linear_attempt cd n k c t att"
    and fin: "\<And>s. \<lbrakk>sys_inv s; sys_txns s n = Some (Running t); mt_table (sys_mem s) k = Some c\<rbrakk> \<Longrightarrow>
      \<exists>sh t' r. att id (sys_mem s, sys_tm s) t = Done sh t' r"
    and "envs_run cd n s envs" and "sys_inv s" and "sys_txns s n = Some (Running t)"
    and "mt_table (sys_mem s) k = Some c"
  shows "\<exists>s'. others cd n s s' \<and>
    cas_loop att envs (sys_mem s, sys_tm s) t = cas_loop att [] (sys_mem s', sys_tm s') t"
  using assms(3-)
proof (induction envs arbitrary: s)
  case Nil
  then show ?case using others_refl by blast
next
  case (Cons e es)
  then obtain s' where s': "others cd n s s'" "e (sys_mem s, sys_tm s) = (sys_mem s', sys_tm s')"
    "envs_run cd n s' es" by auto
  have n: "n < ts_limit" using inv_small Cons.prems(2,3) by blast
  note f = others_facts [OF s'(1) Cons.prems(2) n]
  have k': "mt_table (sys_mem s') k = Some c" using f(3) Cons.prems(4) by blast
  have "att e (sys_mem s, sys_tm s) t = Retry (sys_mem s', sys_tm s') t \<or>
      (\<exists>s1 sh t' r. (s1 = s \<or> s1 = s') \<and> att id (sys_mem s1, sys_tm s1) t = Done sh t' r \<and>
         att e (sys_mem s, sys_tm s) t = Done sh t' r)"
    using lin Cons.prems(2-4) s'(1,2) unfolding linear_attempt_def by blast
  then consider "att e (sys_mem s, sys_tm s) t = Retry (sys_mem s', sys_tm s') t"
    | s1 sh t' r where "s1 = s \<or> s1 = s'" "att id (sys_mem s1, sys_tm s1) t = Done sh t' r"
      "att e (sys_mem s, sys_tm s) t = Done sh t' r" by blast
  then show ?case
  proof cases
    case 1
    obtain s'' where "others cd n s' s''" "cas_loop att es (sys_mem s', sys_tm s') t =
        cas_loop att [] (sys_mem s'', sys_tm s'') t"
      using Cons.IH [OF s'(3) f(1) _ k'] f(2) Cons.prems(3) by auto
    with 1 others_trans [OF s'(1)] show ?thesis by auto
  next
    case 2
    then have "cas_loop att (e # es) (sys_mem s, sys_tm s) t =
        cas_loop att [] (sys_mem s1, sys_tm s1) t" by simp
    with 2(1) s'(1) others_refl show ?thesis by metis
  qed
qed

lemma linear_now:
  assumes "\<And>f. att f (sys_mem s, sys_tm s) t = Done sh t' r"
  shows "att e (sys_mem s, sys_tm s) t = Retry (sys_mem s', sys_tm s') t \<or>
    (\<exists>s1 sh t' r. (s1 = s \<or> s1 = s') \<and> att id (sys_mem s1, sys_tm s1) t = Done sh t' r \<and>
       att e (sys_mem s, sys_tm s) t = Done sh t' r)"
  using assms by (intro disjI2 exI [of _ s]) simp

text \<open>Publishing, when the conflict check before it had passed.\<close>

lemma publish_linear:
  assumes "e (sys_mem s, sys_tm s) = (sys_mem s', sys_tm s')" and "mt_cells (sys_mem s') c = Some q"
  shows "cas_publish c p tag redo e (sys_mem s, sys_tm s) t =
    (if q = p then cas_publish c p tag redo id (sys_mem s', sys_tm s') t
     else Retry (sys_mem s', sys_tm s') t)"
  using assms by (simp add: cas_publish_def load_cell_def)

lemma publish_done:
  assumes "mt_cells m c = Some p"
  shows "\<exists>sh r. cas_publish c p tag redo id (m, tm) t = Done sh t r"
  using publish_alone [OF assms] by blast

lemma attempt_check:
  assumes inv: "sys_inv s" and run: "sys_txns s n = Some (Running t)"
    and k: "mt_table (sys_mem s) k = Some c" and p: "mt_cells (sys_mem s) c = Some p"
  shows "res_bind (load_cell (sys_mem s) c)
      (\<lambda>p. map_sum id (Pair p) (check_head (sys_mem s, sys_tm s) p t)) =
    Inr (p, conflict n (versions (sys_mem s) k), t)"
  using chain_head(1) [OF inv_wf [OF inv, unfolded mt_wf_def] k p, of "sys_tm s" t]
    running_scan(2) [OF inv run, of k] p
  by (simp add: load_cell_def)

lemma put_attempt_linear: "linear_attempt cd n k c t (put_attempt redo c)"
  unfolding linear_attempt_def
proof (intro allI impI)
  fix s s' e
  assume inv: "sys_inv s" and run: "sys_txns s n = Some (Running t)"
    and k: "mt_table (sys_mem s) k = Some c" and o: "others cd n s s'"
    and e: "e (sys_mem s, sys_tm s) = (sys_mem s', sys_tm s')"
  have n: "n < ts_limit" using inv_small [OF inv run] .
  have inv': "sys_inv s'" and run': "sys_txns s' n = Some (Running t)"
    and k': "mt_table (sys_mem s') k = Some c"
    using others_facts(1-3) [OF o inv n] run k by auto
  obtain p q where p: "mt_cells (sys_mem s) c = Some p" and q: "mt_cells (sys_mem s') c = Some q"
    using wf_cell [OF inv_wf [OF inv] k] wf_cell [OF inv_wf [OF inv'] k'] by blast
  note chk = attempt_check [OF inv run k p] and chk' = attempt_check [OF inv' run' k' q]
  show "put_attempt redo c e (sys_mem s, sys_tm s) t = Retry (sys_mem s', sys_tm s') t \<or>
     (\<exists>s1 sh t' r. (s1 = s \<or> s1 = s') \<and>
        put_attempt redo c id (sys_mem s1, sys_tm s1) t = Done sh t' r \<and>
        put_attempt redo c e (sys_mem s, sys_tm s) t = Done sh t' r)"
  proof (cases "conflict n (versions (sys_mem s) k)")
    case True
    with chk show ?thesis by (intro linear_now) (simp add: put_attempt_def)
  next
    case False
    then have at: "put_attempt redo c e (sys_mem s, sys_tm s) t =
        (if q = p then cas_publish c p TAG_PRESENT redo id (sys_mem s', sys_tm s') t
         else Retry (sys_mem s', sys_tm s') t)"
      using chk publish_linear [of e s s' c q p, OF e q] by (simp add: put_attempt_def)
    show ?thesis
    proof (cases "q = p")
      case True
      have "\<not> conflict n (versions (sys_mem s') k)"
        using others_no_conflict [OF o inv run k p _ False] q True by simp
      then have "put_attempt redo c id (sys_mem s', sys_tm s') t =
          cas_publish c p TAG_PRESENT redo id (sys_mem s', sys_tm s') t"
        using chk' True by (simp add: put_attempt_def)
      with at True publish_done [OF q, of TAG_PRESENT redo "sys_tm s'" t] show ?thesis by auto
    qed (use at in simp)
  qed
qed

lemma delete_attempt_linear: "linear_attempt cd n k c t (delete_attempt redo c)"
  unfolding linear_attempt_def
proof (intro allI impI)
  fix s s' e
  assume inv: "sys_inv s" and run: "sys_txns s n = Some (Running t)"
    and k: "mt_table (sys_mem s) k = Some c" and o: "others cd n s s'"
    and e: "e (sys_mem s, sys_tm s) = (sys_mem s', sys_tm s')"
  have n: "n < ts_limit" using inv_small [OF inv run] .
  have inv': "sys_inv s'" and run': "sys_txns s' n = Some (Running t)"
    and k': "mt_table (sys_mem s') k = Some c"
    using others_facts(1-3) [OF o inv n] run k by auto
  obtain p q where p: "mt_cells (sys_mem s) c = Some p" and q: "mt_cells (sys_mem s') c = Some q"
    using wf_cell [OF inv_wf [OF inv] k] wf_cell [OF inv_wf [OF inv'] k'] by blast
  note chk = attempt_check [OF inv run k p] and chk' = attempt_check [OF inv' run' k' q]
  show "delete_attempt redo c e (sys_mem s, sys_tm s) t = Retry (sys_mem s', sys_tm s') t \<or>
     (\<exists>s1 sh t' r. (s1 = s \<or> s1 = s') \<and>
        delete_attempt redo c id (sys_mem s1, sys_tm s1) t = Done sh t' r \<and>
        delete_attempt redo c e (sys_mem s, sys_tm s) t = Done sh t' r)"
  proof (cases "conflict n (versions (sys_mem s) k) \<or> \<not> is_present p")
    case True
    with chk show ?thesis
      by (cases "conflict n (versions (sys_mem s) k)")
         (intro linear_now, simp add: delete_attempt_def)+
  next
    case False
    then have at: "delete_attempt redo c e (sys_mem s, sys_tm s) t =
        (if q = p then cas_publish c p 0 redo id (sys_mem s', sys_tm s') t
         else Retry (sys_mem s', sys_tm s') t)"
      using chk publish_linear [of e s s' c q p, OF e q] by (simp add: delete_attempt_def)
    show ?thesis
    proof (cases "q = p")
      case True
      have "\<not> conflict n (versions (sys_mem s') k)"
        using others_no_conflict [OF o inv run k p] False q True by simp
      then have "delete_attempt redo c id (sys_mem s', sys_tm s') t =
          cas_publish c p 0 redo id (sys_mem s', sys_tm s') t"
        using chk' True False by (simp add: delete_attempt_def)
      with at True publish_done [OF q, of 0 redo "sys_tm s'" t] show ?thesis by auto
    qed (use at in simp)
  qed
qed

lemma running_get_value:
  assumes inv: "sys_inv s" and run: "sys_txns s n = Some (Running t)"
    and k: "mt_table (sys_mem s) k = Some c"
  shows "get_value (sys_tm s) (sys_mem s) c t = Inr (view n (versions (sys_mem s) k), t)"
  using running_scan(3) [OF inv run, of k] k by (simp add: mt_get_def)

lemma update_attempt_linear: "linear_attempt cd n k c t (update_attempt f c)"
  unfolding linear_attempt_def
proof (intro allI impI)
  fix s s' e
  assume inv: "sys_inv s" and run: "sys_txns s n = Some (Running t)"
    and k: "mt_table (sys_mem s) k = Some c" and o: "others cd n s s'"
    and e: "e (sys_mem s, sys_tm s) = (sys_mem s', sys_tm s')"
  have n: "n < ts_limit" using inv_small [OF inv run] .
  have inv': "sys_inv s'" and run': "sys_txns s' n = Some (Running t)"
    and k': "mt_table (sys_mem s') k = Some c"
    using others_facts(1-3) [OF o inv n] run k by auto
  obtain p q where p: "mt_cells (sys_mem s) c = Some p" and q: "mt_cells (sys_mem s') c = Some q"
    using wf_cell [OF inv_wf [OF inv] k] wf_cell [OF inv_wf [OF inv'] k'] by blast
  note chk = attempt_check [OF inv run k p] and chk' = attempt_check [OF inv' run' k' q]
  note gv = running_get_value [OF inv run k]
  have gv': "get_value (sys_tm s') (sys_mem s') c t = Inr (view n (versions (sys_mem s) k), t)"
    using running_get_value [OF inv' run' k'] others_view [OF o inv run, of k] by simp
  show "update_attempt f c e (sys_mem s, sys_tm s) t = Retry (sys_mem s', sys_tm s') t \<or>
     (\<exists>s1 sh t' r. (s1 = s \<or> s1 = s') \<and>
        update_attempt f c id (sys_mem s1, sys_tm s1) t = Done sh t' r \<and>
        update_attempt f c e (sys_mem s, sys_tm s) t = Done sh t' r)"
  proof (cases "conflict n (versions (sys_mem s) k) \<or> \<not> is_present p \<or>
      view n (versions (sys_mem s) k) = None")
    case True
    with chk gv show ?thesis
      by (cases "conflict n (versions (sys_mem s) k)"; cases "is_present p")
         (intro linear_now, simp add: update_attempt_def)+
  next
    case False
    then obtain v where v: "view n (versions (sys_mem s) k) = Some v" by auto
    let ?redo = "get_insert_redo t (f v)"
    from False v have at: "update_attempt f c e (sys_mem s, sys_tm s) t =
        (if q = p then cas_publish c p TAG_PRESENT ?redo id (sys_mem s', sys_tm s') t
         else Retry (sys_mem s', sys_tm s') t)"
      using chk gv publish_linear [of e s s' c q p, OF e q] by (simp add: update_attempt_def)
    show ?thesis
    proof (cases "q = p")
      case True
      have "\<not> conflict n (versions (sys_mem s') k)"
        using others_no_conflict [OF o inv run k p] False q True by simp
      then have "update_attempt f c id (sys_mem s', sys_tm s') t =
          cas_publish c p TAG_PRESENT ?redo id (sys_mem s', sys_tm s') t"
        using chk' gv' True False v by (simp add: update_attempt_def)
      with at True publish_done [OF q, of TAG_PRESENT ?redo "sys_tm s'" t] show ?thesis by auto
    qed (use at in simp)
  qed
qed

section \<open>The operations under interference\<close>

lemma inv_put_entry:
  assumes inv: "sys_inv s" and pe: "put_entry k (sys_mem s) = (c, m0)"
  shows "sys_inv (s\<lparr>sys_mem := m0\<rparr>)"
proof -
  note w = put_entry_wf [OF inv_wf [OF inv] pe]
  have nv: "node_version m0 = node_version (sys_mem s)"
    by (simp add: fun_eq_iff node_version_def w(6))
  have ok: "session_ok m0 (sys_tm s) n x" if "sys_txns s n = Some x" for n x
    using inv_session [OF inv that] by (cases x) (simp_all add: redo_ok_def nv w(3,4))
  show ?thesis
  proof (rule sys_invI [where tm = "sys_tm s" and T = "sys_txns s" and m = m0])
    show "no_abort m0" using no_abort_put_entry [OF pe inv_no_abort [OF inv]] .
    show "\<And>n x. sys_txns s n = Some x \<Longrightarrow> n < timestamp_counter (sys_tm s)"
      using inv_session [OF inv] by blast
    show "\<And>n x. sys_txns s n = Some x \<Longrightarrow> session_ok m0 (sys_tm s) n x" by (rule ok)
  qed (use inv w in \<open>auto simp: inv_tm inv_chain dest: inv_xips\<close>)
qed

text \<open>
  C14: put is linearizable. Under any interference of the other transactions between its reads and
  its \<open>compare_exchange\<close> attempts, a put returns and changes what it returns and changes when it
  runs at once in a state that the others have reached; it never gives up retrying.
\<close>

theorem put_linearizable:
  assumes "reachable cd s" and "sys_txns s n = Some (Running t)"
    and "put_entry k (sys_mem s) = (c, m0)" and "envs_run cd n (s\<lparr>sys_mem := m0\<rparr>) envs"
  shows "\<exists>s'. others cd n (s\<lparr>sys_mem := m0\<rparr>) s' \<and>
    mt_put cd envs k v (sys_mem s, sys_tm s) t = mt_put cd [] k v (sys_mem s', sys_tm s') t"
proof -
  have inv: "sys_inv s" using reachable_inv [OF assms(1)] .
  let ?s = "s\<lparr>sys_mem := m0\<rparr>" and ?att = "put_attempt (get_insert_redo t v) c"
  have inv0: "sys_inv ?s" using inv_put_entry [OF inv assms(3)] .
  have run0: "sys_txns ?s n = Some (Running t)" using assms(2) by simp
  have k0: "mt_table (sys_mem ?s) k = Some c"
    using put_entry_wf(2) [OF inv_wf [OF inv] assms(3)] by simp
  have fin: "\<exists>sh t' r. ?att id (sys_mem s', sys_tm s') t = Done sh t' r"
    if s': "sys_inv s'" "sys_txns s' n = Some (Running t)" "mt_table (sys_mem s') k = Some c" for s'
    using put_attempt_alone [OF inv_wf [OF s'(1)] s'(3)] running_scan(2) [OF s'(1,2), of k]
    by (cases "conflict n (versions (sys_mem s') k)") auto
  obtain s' where s': "others cd n ?s s'"
    "cas_loop ?att envs (sys_mem ?s, sys_tm ?s) t = cas_loop ?att [] (sys_mem s', sys_tm s') t"
    using cas_loop_linear [OF put_attempt_linear fin assms(4) inv0 run0 k0] by blast
  have "mt_table (sys_mem s') k = Some c"
    using others_facts(3) [OF s'(1) inv0 inv_small [OF inv assms(2)] k0] .
  then have "put_entry k (sys_mem s') = (c, sys_mem s')" by (simp add: put_entry_def)
  with s' assms(3) show ?thesis by (auto simp: mt_put_def)
qed

lemma cell_loop_linear:
  assumes inv: "sys_inv s" and run: "sys_txns s n = Some (Running t)"
    and ev: "envs_run cd n s envs" and lin: "\<And>c. linear_attempt cd n k c t (att c)"
    and fin: "\<And>s c. \<lbrakk>sys_inv s; sys_txns s n = Some (Running t); mt_table (sys_mem s) k = Some c\<rbrakk> \<Longrightarrow>
      \<exists>sh t' r. att c id (sys_mem s, sys_tm s) t = Done sh t' r"
    and opn: "\<And>es m tm. opn es (m, tm) = (case mt_table m k of
        None \<Rightarrow> ((m, tm), t, Inr False)
      | Some c \<Rightarrow> finish_write cd k (cas_loop (att c) es (m, tm) t))"
  shows "\<exists>s'. others cd n s s' \<and>
    opn envs (sys_mem s, sys_tm s) = opn [] (sys_mem s', sys_tm s')"
proof (cases "mt_table (sys_mem s) k")
  case None
  then have "opn envs (sys_mem s, sys_tm s) = opn [] (sys_mem s, sys_tm s)" by (simp add: opn)
  then show ?thesis using others_refl by blast
next
  case (Some c)
  obtain s' where s': "others cd n s s'"
    "cas_loop (att c) envs (sys_mem s, sys_tm s) t = cas_loop (att c) [] (sys_mem s', sys_tm s') t"
    using cas_loop_linear [OF lin fin ev inv run Some] by blast
  have "mt_table (sys_mem s') k = Some c"
    using others_facts(3) [OF s'(1) inv inv_small [OF inv run] Some] .
  with s' Some have "opn envs (sys_mem s, sys_tm s) = opn [] (sys_mem s', sys_tm s')"
    by (simp add: opn del: cas_loop.simps)
  with s'(1) show ?thesis by blast
qed

lemma delete_fin:
  assumes "sys_inv s" and "sys_txns s n = Some (Running t)" and "mt_table (sys_mem s) k = Some c"
  shows "\<exists>sh t' r. delete_attempt redo c id (sys_mem s, sys_tm s) t = Done sh t' r"
proof -
  obtain p where p: "mt_cells (sys_mem s) c = Some p"
    using wf_cell [OF inv_wf [OF assms(1)] assms(3)] by blast
  note chk = attempt_check [OF assms p]
  show ?thesis
    by (cases "conflict n (versions (sys_mem s) k)"; cases "is_present p")
       (simp_all add: delete_attempt_def chk publish_alone [OF p])
qed

lemma update_fin:
  assumes "sys_inv s" and "sys_txns s n = Some (Running t)" and "mt_table (sys_mem s) k = Some c"
  shows "\<exists>sh t' r. update_attempt f c id (sys_mem s, sys_tm s) t = Done sh t' r"
proof -
  obtain p where p: "mt_cells (sys_mem s) c = Some p"
    using wf_cell [OF inv_wf [OF assms(1)] assms(3)] by blast
  note chk = attempt_check [OF assms p] and gv = running_get_value [OF assms]
  show ?thesis
    by (cases "conflict n (versions (sys_mem s) k)"; cases "is_present p";
        cases "view n (versions (sys_mem s) k)")
       (simp_all add: update_attempt_def chk gv publish_alone [OF p])
qed

text \<open>C15: delete and update are linearizable in the same sense.\<close>

theorem delete_update_linearizable:
  assumes "reachable cd s" and "sys_txns s n = Some (Running t)" and "envs_run cd n s envs"
  shows "(\<exists>s'. others cd n s s' \<and>
      mt_delete cd envs k (sys_mem s, sys_tm s) t = mt_delete cd [] k (sys_mem s', sys_tm s') t) \<and>
    (\<exists>s'. others cd n s s' \<and>
      mt_update cd envs k f (sys_mem s, sys_tm s) t = mt_update cd [] k f (sys_mem s', sys_tm s') t)"
proof
  note r = reachable_inv [OF assms(1)] assms(2,3)
  show "\<exists>s'. others cd n s s' \<and>
      mt_delete cd envs k (sys_mem s, sys_tm s) t = mt_delete cd [] k (sys_mem s', sys_tm s') t"
    by (rule cell_loop_linear [OF r delete_attempt_linear delete_fin,
          where opn = "\<lambda>es s. mt_delete cd es k s t"])
       (simp_all add: mt_delete_def)
  show "\<exists>s'. others cd n s s' \<and>
      mt_update cd envs k f (sys_mem s, sys_tm s) t = mt_update cd [] k f (sys_mem s', sys_tm s') t"
    by (rule cell_loop_linear [OF r update_attempt_linear update_fin,
          where opn = "\<lambda>es s. mt_update cd es k f s t"])
       (simp_all add: mt_update_def)
qed

end
