(* ===== verification/Mvcc_Witness.thy ===== *)
theory Mvcc_Witness
  imports Interference
begin

text \<open>
  One run of the system, evaluated, at which the theorems of \<open>Snapshot_Isolation\<close> and \<open>Interference\<close>
  are applied:
  transactions 1 and 2 start on the empty memtable, 2 writes key 0, reads it back and commits, 1
  reads the key, in vain, and is refused when it tries to write it.
\<close>

definition demo_codec :: "(nat, bool) mt_codec" where
  "demo_codec = \<lparr>mtc_key = \<lambda>k. [], mtc_value = \<lambda>v. [], mtc_full = \<lambda>ts r. []\<rparr>"

lemma execs_Cons_eq:
  "map_option fst (execs cd (c # cs) s) = Some (e # es) \<longleftrightarrow>
     (\<exists>s'. exec cd c s = Some (e, s') \<and> map_option fst (execs cd cs s') = Some es)"
  by (cases "exec cd c s") (auto split: option.splits)

lemma demo_run:
  "map_option fst (execs demo_codec
     [CBegin, CBegin, CPut 2 0 True, CGet 2 0, CCommit 2, CGet 1 0, CPut 1 0 False] sys_init) =
   Some [EBegin 1, EBegin 2, EPut 2 0 True (Inr True), EGet 2 0 (Inr (Some True)), ECommit 2,
     EGet 1 0 (Inr None), EPut 1 0 False (ww_error ''put'')]"
  unfolding ww_error_simps by code_simp

lemma demo_states:
  "\<exists>s1 s2 s3 s4 s5 s6 s7. step demo_codec sys_init (EBegin 1) s1 \<and>
     step demo_codec s1 (EBegin 2) s2 \<and> step demo_codec s2 (EPut 2 0 True (Inr True)) s3 \<and>
     step demo_codec s3 (EGet 2 0 (Inr (Some True))) s4 \<and> step demo_codec s4 (ECommit 2) s5 \<and>
     step demo_codec s5 (EGet 1 0 (Inr None)) s6 \<and>
     step demo_codec s6 (EPut 1 0 False (ww_error ''put'')) s7"
  using demo_run unfolding execs_Cons_eq by (blast intro: exec_step)

lemma reachable_init: "reachable cd sys_init"
  unfolding reachable_def using steps_nil by blast

theorem implements_snapshot_isolation_witness:
  "\<exists>s. step demo_codec sys_init (EBegin 1) s \<and> si_step (alpha sys_init) (EBegin 1) (alpha s)"
  using demo_states implements_snapshot_isolation [OF reachable_init] by blast

theorem snapshot_read_witness:
  "\<exists>s0 s1 s2. step demo_codec sys_init (EBegin 1) s0 \<and>
     steps demo_codec s0 [EBegin 2, EPut 2 0 True (Inr True), EGet 2 0 (Inr (Some True)), ECommit 2] s1 \<and>
     step demo_codec s1 (EGet 1 0 (Inr (latest (versions (sys_mem (sys_init :: (nat, bool) sys)) 0)))) s2"
proof -
  obtain s1 s2 s3 s4 s5 s6 where s: "step demo_codec sys_init (EBegin 1) s1"
    "step demo_codec s1 (EBegin 2) s2" "step demo_codec s2 (EPut 2 0 True (Inr True)) s3"
    "step demo_codec s3 (EGet 2 0 (Inr (Some True))) s4" "step demo_codec s4 (ECommit 2) s5"
    "step demo_codec s5 (EGet 1 0 (Inr None)) s6" using demo_states by blast
  have run: "steps demo_codec s1
      [EBegin 2, EPut 2 0 True (Inr True), EGet 2 0 (Inr (Some True)), ECommit 2] s5"
    using steps_snoc [OF steps_snoc [OF steps_snoc [OF steps_one [OF s(2)] s(3)] s(4)] s(5)] by simp
  have "Inr None = (Inr (latest (versions (sys_mem (sys_init :: (nat, bool) sys)) 0)) :: bool option res)"
    by (rule snapshot_read [OF reachable_init s(1) run _ s(6)]) simp
  with s run show ?thesis by metis
qed

theorem read_your_writes_witness:
  "\<exists>s s0 s1. step demo_codec s (EPut 2 0 True (Inr True)) s0 \<and>
     step demo_codec s0 (EGet 2 0 (Inr (Some True))) s1"
proof -
  obtain s1 s2 s3 s4 where s: "step demo_codec sys_init (EBegin 1) s1"
    "step demo_codec s1 (EBegin 2) s2" "step demo_codec s2 (EPut 2 0 True (Inr True)) s3"
    "step demo_codec s3 (EGet 2 0 (Inr (Some True))) s4" using demo_states by blast
  have "reachable demo_codec s2" using reachable_step reachable_init s by metis
  from read_your_writes [OF this s(3) steps_nil _ s(4)] s(3,4) show ?thesis by auto
qed

text \<open>The state before the commit of transaction 2, which has written key 0.\<close>

lemma demo_pending:
  "\<exists>s1 s2 s3 s4 s5 t. reachable demo_codec s1 \<and> step demo_codec s1 (ECommit 2) s2 \<and>
     sys_txns s1 1 = Some (Running t) \<and> own 2 (versions (sys_mem s1) 0) = Some (Some True) \<and>
     step demo_codec s2 (EPut 1 0 False (ww_error ''put'')) s3 \<and>
     reachable demo_codec s4 \<and> sys_txns s4 1 = Some (Running t) \<and>
     step demo_codec s4 (EPut 2 0 True (Inr True)) s5"
proof -
  obtain s1 s2 s3 s4 s5 s6 s7 where s: "step demo_codec sys_init (EBegin 1) s1"
    "step demo_codec s1 (EBegin 2) s2" "step demo_codec s2 (EPut 2 0 True (Inr True)) s3"
    "step demo_codec s3 (EGet 2 0 (Inr (Some True))) s4" "step demo_codec s4 (ECommit 2) s5"
    "step demo_codec s5 (EGet 1 0 (Inr None)) s6"
    "step demo_codec s6 (EPut 1 0 False (ww_error ''put'')) s7" using demo_states by blast
  have r4: "reachable demo_codec s4" using reachable_step reachable_init s by metis
  have r3: "reachable demo_codec s3" "reachable demo_codec s2" "reachable demo_codec s5"
    using reachable_step reachable_init s by metis+
  have eq: "s4 = s3" "s6 = s5"
    using get_result(2) [OF reachable_inv [OF r3(1)] s(4)]
      get_result(2) [OF reachable_inv [OF r3(3)] s(6)] by simp_all
  have "own 2 (versions (sys_mem s3) 0) = Some (Some True)"
  proof -
    obtain t m' tm' t' where run: "sys_txns s2 2 = Some (Running t)"
      "mt_put demo_codec [] 0 True (sys_mem s2, sys_tm s2) t = ((m', tm'), t', Inr True)"
      "s3 = s2\<lparr>sys_mem := m', sys_tm := tm', sys_txns := (sys_txns s2)(2 \<mapsto> Running t')\<rparr>"
      using s(3) by cases
    from running_put [OF reachable_inv [OF r3(2)] run(1), of 0 demo_codec True] run(2) obtain a where
      "written (sys_mem s2) 0 (uncommitted 2, Insert True) a m'" by (auto split: if_splits)
    then show ?thesis by (simp add: run(3) written_def own_def)
  qed
  then have own: "own 2 (versions (sys_mem s4) 0) = Some (Some True)" by (simp add: eq)
  obtain t where t1: "sys_txns s5 1 = Some (Running t)"
    using get_result(3) [OF reachable_inv [OF r3(3)] s(6)] by blast
  have t: "sys_txns s4 1 = Some (Running t)"
    using commit_result [OF reachable_inv [OF r4] s(5)] t1 by auto
  have t2: "sys_txns s2 1 = Some (Running t)"
    using step_session [OF s(3), of 1] t by (simp add: eq)
  show ?thesis using r4 s(5) t own s(7) [unfolded eq] r3(2) t2 s(3) by blast
qed

theorem no_lost_update_witness:
  "\<exists>s s1 s2 r. step demo_codec s (ECommit 2) s1 \<and> step demo_codec s1 (EPut 1 0 False r) s2 \<and>
     r = ww_error ''put''"
proof -
  obtain s1 s2 s3 t where s: "reachable demo_codec s1" "step demo_codec s1 (ECommit 2) s2"
    "sys_txns s1 1 = Some (Running t)" "own 2 (versions (sys_mem s1) 0) = Some (Some True)"
    "step demo_codec s2 (EPut 1 0 False (ww_error ''put'')) s3" using demo_pending by blast
  from no_lost_update [OF s(1) _ s(2,3) _ steps_nil s(5)] s(2,4,5) show ?thesis by auto
qed

theorem commit_and_abort_atomic_witness:
  "\<exists>s s'. step demo_codec s (ECommit 2) s' \<and> latest (versions (sys_mem s') 0) = Some True"
proof -
  obtain s1 s2 where s: "reachable demo_codec s1" "step demo_codec s1 (ECommit 2) s2"
    "own 2 (versions (sys_mem s1) 0) = Some (Some True)" using demo_pending by blast
  from commit_and_abort_atomic [OF s(1,2), of 0] s(2,3) show ?thesis by auto
qed

theorem operations_complete_witness:
  "\<exists>s s' v. reachable demo_codec s \<and> step demo_codec s (EGet 1 0 (Inr v)) s'"
proof -
  obtain s where s: "step demo_codec sys_init (EBegin 1) s" using demo_states by blast
  then have r: "reachable demo_codec s" using reachable_step reachable_init by metis
  from s obtain t where "sys_txns s 1 = Some (Running t)" by auto
  from operations_complete [OF r this, of 0] r show ?thesis by blast
qed

lemma others_one: "\<lbrakk>step cd s e s'; event_of e \<noteq> n\<rbrakk> \<Longrightarrow> others cd n s s'"
  unfolding others_def using steps_one by (intro exI [of _ "[e]"]) auto

text \<open>Transaction 1 writes key 0 while transaction 2 does, between its read and its exchange.\<close>

theorem put_linearizable_witness:
  "\<exists>s t e c m0 s' s1. others demo_codec 1 (s\<lparr>sys_mem := m0\<rparr>) s1 \<and> sys_mem s1 \<noteq> m0 \<and>
     put_entry 0 (sys_mem s) = (c, m0) \<and> e (m0, sys_tm s) = (sys_mem s1, sys_tm s1) \<and>
     others demo_codec 1 (s\<lparr>sys_mem := m0\<rparr>) s' \<and>
     mt_put demo_codec [e] 0 False (sys_mem s, sys_tm s) t =
     mt_put demo_codec [] 0 False (sys_mem s', sys_tm s') t"
proof -
  obtain s t s5 where s: "reachable demo_codec s" "sys_txns s 1 = Some (Running t)"
    "step demo_codec s (EPut 2 0 True (Inr True)) s5" using demo_pending by blast
  have inv: "sys_inv s" using reachable_inv [OF s(1)] .
  obtain c m0 where pe: "put_entry 0 (sys_mem s) = (c, m0)" by (metis prod.exhaust)
  let ?s = "s\<lparr>sys_mem := m0\<rparr>"
  have inv0: "sys_inv ?s" using inv_put_entry [OF inv pe] .
  obtain t2 where t2: "sys_txns s 2 = Some (Running t2)" using s(3) by auto
  have "\<not> conflict 2 (versions (sys_mem s) 0)"
    using put_conflict_result(1) [OF inv s(3)] by (auto simp: ww_error_def)
  then have nc: "\<not> conflict 2 (versions (sys_mem ?s) 0)"
    using put_entry_wf(3) [OF inv_wf [OF inv] pe, of 0] by simp
  obtain m' a where p: "mt_put demo_codec [] 0 True (sys_mem ?s, sys_tm ?s) t2 =
      ((m', sys_tm ?s), keep_node demo_codec 0 a (Insert True) t2, Inr True)"
    "written (sys_mem ?s) 0 (uncommitted 2, Insert True) a m'"
    using running_put [OF inv0, of 2 t2 0 demo_codec True] t2 nc by auto
  define s1 where "s1 = ?s\<lparr>sys_mem := m', sys_tm := sys_tm ?s,
    sys_txns := (sys_txns ?s)(2 \<mapsto> Running (keep_node demo_codec 0 a (Insert True) t2))\<rparr>"
  have "step demo_codec ?s (EPut 2 0 True (Inr True)) s1"
    unfolding s1_def using step_put [OF _ p(1), of 2] t2 by simp
  then have o: "others demo_codec 1 ?s s1" by (rule others_one) simp
  define e where "e = (\<lambda>x :: (nat, bool) shared. (sys_mem s1, sys_tm s1))"
  have "envs_run demo_codec 1 ?s [e]" using o by (auto simp: e_def)
  from put_linearizable [OF s(1,2) pe this, of False] obtain s' where
    "others demo_codec 1 ?s s'" "mt_put demo_codec [e] 0 False (sys_mem s, sys_tm s) t =
     mt_put demo_codec [] 0 False (sys_mem s', sys_tm s') t" by blast
  moreover have "sys_mem s1 \<noteq> m0"
  proof
    assume "sys_mem s1 = m0"
    then have "versions m0 0 = (uncommitted 2, Insert True) # versions m0 0"
      using p(2) by (simp add: s1_def written_def)
    then show False by simp
  qed
  moreover have "e (m0, sys_tm s) = (sys_mem s1, sys_tm s1)" by (simp add: e_def)
  ultimately show ?thesis using o pe by blast
qed

theorem delete_update_linearizable_witness:
  "\<exists>s t e s1 s'. others demo_codec 1 s s1 \<and> e (sys_mem s, sys_tm s) = (sys_mem s1, sys_tm s1) \<and>
     others demo_codec 1 s s' \<and>
     mt_delete demo_codec [e] 0 (sys_mem s, sys_tm s) t =
     mt_delete demo_codec [] 0 (sys_mem s', sys_tm s') t"
proof -
  obtain s t s5 where s: "reachable demo_codec s" "sys_txns s 1 = Some (Running t)"
    "step demo_codec s (EPut 2 0 True (Inr True)) s5" using demo_pending by blast
  have o: "others demo_codec 1 s s5" using s(3) by (rule others_one) simp
  define e where "e = (\<lambda>x :: (nat, bool) shared. (sys_mem s5, sys_tm s5))"
  have "envs_run demo_codec 1 s [e]" using o by (auto simp: e_def)
  from delete_update_linearizable [OF s(1,2) this, of 0 Not] obtain s' where
    "others demo_codec 1 s s'" "mt_delete demo_codec [e] 0 (sys_mem s, sys_tm s) t =
     mt_delete demo_codec [] 0 (sys_mem s', sys_tm s') t" by blast
  moreover have "e (sys_mem s, sys_tm s) = (sys_mem s5, sys_tm s5)" by (simp add: e_def)
  ultimately show ?thesis using o by blast
qed

end
