(* ===== verification/Txn_History.thy ===== *)
theory Txn_History
  imports Mvcc
begin

text \<open>
  Which transactions a snapshot (\<open>record_snapshot\<close> of \<open>transaction_manager.rs\<close>) takes to be in progress. The history
  of a transaction manager is the set of the transactions that started, in either mode, and the set of those that
  have committed or aborted; the manager itself keeps only the running ones and the latest start
  timestamp among those that ended. The two agree, and so the snapshot tells exactly who had not ended when it was taken.
\<close>

section \<open>Histories\<close>

text \<open>A transaction is named by its start timestamp. \<open>S\<close> are the transactions that started, \<open>E\<close> those that ended.\<close>

inductive txn_history :: "('k, 'v) shared \<Rightarrow> timestamp set \<Rightarrow> timestamp set \<Rightarrow> bool" where
  history_new: "txn_history (memtable_new, txn_manager_new) {} {}"
| history_start: "\<lbrakk>txn_history (m, tm) S E; timestamp_counter tm < ts_limit;
     start_transaction mode tm = ((t :: ('k, 'v) txn), tm')\<rbrakk> \<Longrightarrow>
   txn_history (m, tm') (insert (start_timestamp t) S) E"
| history_commit: "\<lbrakk>txn_history (m, tm) S E; start_timestamp t \<in> S - E; timestamp_counter tm < ts_limit;
     commit_section t (m, tm) = Inr (ts, t', (m', tm'))\<rbrakk> \<Longrightarrow>
   txn_history (m', tm') S (insert (start_timestamp t) E)"
| history_abort: "\<lbrakk>txn_history (m, tm) S E; start_timestamp (t :: ('k, 'v) txn) \<in> S - E; abort_section t tm = (nodes, t', tm')\<rbrakk> \<Longrightarrow>
   txn_history (m, tm') S (insert (start_timestamp t) E)"
| history_other: "\<lbrakk>txn_history (m, tm) S E; timestamp_counter tm' = timestamp_counter tm; xips tm' = xips tm;
     latest_completed_xid tm' = latest_completed_xid tm\<rbrakk> \<Longrightarrow>
   txn_history (m', tm') S E"

definition history_inv :: "txn_manager \<Rightarrow> timestamp set \<Rightarrow> timestamp set \<Rightarrow> bool" where
  "history_inv tm S E \<longleftrightarrow> tm_inv tm \<and> (\<forall>x\<in>S. issued (timestamp_counter tm) x) \<and> E \<subseteq> S \<and> set (xips tm) = S - E \<and>
     (\<forall>x\<in>E. ts_bits x \<le> ts_bits (latest_completed_xid tm)) \<and>
     (latest_completed_xid tm \<in> E \<or> E = {} \<and> latest_completed_xid tm = ts_default)"

text \<open>The end of a transaction, with or without a commit timestamp.\<close>

lemma history_inv_finish:
  assumes inv: "history_inv tm S E" and x: "x \<in> S - E"
  shows "history_inv (finish_xid x tm) S (insert x E)"
proof -
  have tm: "tm_inv tm" and run: "x \<in> set (xips tm)" using inv x by (simp_all add: history_inv_def)
  note f = finish_xid_inv [OF tm run]
  have small: "ts_small x" "ts_small (latest_completed_xid tm)" using tm_inv_xip_small [OF tm run] tm_inv_latest_small [OF tm] .
  let ?l = "latest_completed_xid tm" and ?l' = "latest_completed_xid (finish_xid x tm)"
  have l: "?l' = (if ts_bits ?l < ts_bits x then x else ?l)" using small by (simp add: finish_xid_def ts_lt_small)
  have up: "ts_bits ?l \<le> ts_bits ?l'" "ts_bits x \<le> ts_bits ?l'" by (auto simp: l)
  have "0 < ts_bits x" using inv x by (auto simp: history_inv_def issued_def)
  moreover have "ts_bits ts_default = 0" by code_simp
  ultimately have "?l = ts_default \<Longrightarrow> ?l' = x" by (simp add: l)
  then have "?l' \<in> insert x E" using inv by (auto simp: history_inv_def l)
  moreover have "\<forall>y\<in>insert x E. ts_bits y \<le> ts_bits ?l'"
    using inv up by (auto simp: history_inv_def intro: order_trans)
  moreover have "set (xips (finish_xid x tm)) = S - insert x E" using inv f(2) by (auto simp: history_inv_def)
  ultimately show ?thesis using inv x f(1) by (auto simp: history_inv_def)
qed

lemma history_inv_tick:
  assumes "history_inv tm S E" "timestamp_counter tm < ts_limit"
  shows "history_inv (tm\<lparr>timestamp_counter := timestamp_counter tm + 1\<rparr>) S E"
proof -
  have "issued (timestamp_counter tm) x \<Longrightarrow> issued (timestamp_counter tm + 1) x" for x
    using word_less_Suc [OF assms(2)] by (auto intro: issued_mono)
  then show ?thesis using assms word_less_Suc [OF assms(2)] word_Suc_le [OF assms(2)]
    by (auto simp: history_inv_def tm_inv_def)
qed

lemma commit_section_manager:
  "commit_section t (m, tm) = Inr (ts, t', (m', tm')) \<Longrightarrow>
    tm' = finish_xid (start_timestamp t) (tm\<lparr>timestamp_counter := timestamp_counter tm + 1\<rparr>)"
  by (auto simp: commit_section_def Let_def res_bind_eq_Inr split: if_splits)

lemma history_inv_start:
  assumes inv: "history_inv tm S E" and lt: "timestamp_counter tm < ts_limit" and st: "start_transaction mode tm = (t, tm')"
  shows "history_inv tm' (insert (start_timestamp t) S) E"
proof -
  have tm: "tm_inv tm" using inv by (simp add: history_inv_def)
  note i = start_transaction_inv [OF tm lt st] and f = start_transaction_fields [OF st]
  have new: "start_timestamp t \<notin> S" using inv lt by (auto simp: history_inv_def issued_def f(1))
  have "issued (timestamp_counter tm') x" if "x \<in> S" for x
    using inv that word_less_Suc [OF lt] by (auto simp: history_inv_def f(2) intro: issued_mono)
  moreover have "issued (timestamp_counter tm') (start_timestamp t)"
    using i(1,2) by (simp add: tm_inv_def)
  ultimately show ?thesis using inv new i(1,2) f(5) by (auto simp: history_inv_def)
qed

lemma history_inv_holds: "txn_history s S E \<Longrightarrow> history_inv (snd s) S E"
proof (induction rule: txn_history.induct)
  case history_new
  have "xips txn_manager_new = []" "latest_completed_xid txn_manager_new = ts_default" by (simp_all add: txn_manager_new_def)
  then show ?case by (simp add: history_inv_def)
next
  case (history_start m tm S E mode t tm')
  then show ?case using history_inv_start by simp
next
  case (history_commit m tm S E t ts t' m' tm')
  then show ?case
    using history_inv_finish [OF history_inv_tick] commit_section_manager [OF history_commit(4)] by simp
next
  case (history_abort m tm S E t nodes t' tm')
  then show ?case using history_inv_finish by (auto simp: abort_section_def)
next
  case (history_other m tm S E tm' m')
  then show ?case by (simp add: history_inv_def tm_inv_def)
qed

section \<open>Snapshots\<close>

text \<open>
  C25: the snapshot of a transaction tells exactly which transactions are in progress. After any history of starts, commits and aborts,
  in both modes, a snapshot can be taken, and it takes another transaction to be in progress, be it one that has started or one that is still to
  start, exactly when that transaction has not committed or aborted yet. Its own transaction is the exception: to the snapshot
  it is in progress exactly when no transaction that started after it has ended. The condition is on start
  timestamps, which is what the memtable asks about.
\<close>
theorem record_snapshot_exact:
  assumes history: "txn_history (m, tm) S E" and lt: "timestamp_counter tm < ts_limit"
  shows "\<exists>s. record_snapshot tm t = Inr s \<and>
    (\<forall>x. x \<noteq> start_timestamp t \<and> (x \<in> S \<or> ts_small x \<and> timestamp_counter tm \<le> ts_bits x) \<longrightarrow>
       (is_xid_in_progress s x \<longleftrightarrow> x \<notin> E)) \<and>
    (start_timestamp t \<in> S - E \<longrightarrow>
       (is_xid_in_progress s (start_timestamp t) \<longleftrightarrow> (\<forall>x\<in>E. ts_bits x < ts_bits (start_timestamp t))))"
proof -
  have inv: "history_inv tm S E" using history_inv_holds [OF history] by simp
  then have tm: "tm_inv tm" and c: "timestamp_counter tm \<le> ts_limit" and ini: "\<forall>x\<in>S. issued (timestamp_counter tm) x"
    and latest: "latest_completed_xid tm \<in> E \<or> E = {} \<and> latest_completed_xid tm = ts_default"
      "\<forall>x\<in>E. ts_bits x \<le> ts_bits (latest_completed_xid tm)" and run: "set (xips tm) = S - E" "E \<subseteq> S"
    by (auto simp: history_inv_def tm_inv_def)
  obtain s where s: "record_snapshot tm t = Inr s" using record_snapshot_classifies [OF tm _ lt] tm_inv_latest_small [OF tm] by blast
  have prog: "is_xid_in_progress s x \<longleftrightarrow> ts_bits (latest_completed_xid tm) < ts_bits x \<or> x \<in> S - E \<and> x \<noteq> start_timestamp t"
    if "ts_small x" for x
    using record_snapshot_classifies [OF tm that lt, of t] s run by simp
  have zero: "ts_bits ts_default = 0" by code_simp
  have below: "ts_bits (latest_completed_xid tm) < timestamp_counter tm"
    using latest(1) run(2) ini tm zero by (auto simp: issued_def tm_inv_def)
  have "is_xid_in_progress s x \<longleftrightarrow> x \<notin> E"
    if "x \<noteq> start_timestamp t" "x \<in> S \<or> ts_small x \<and> timestamp_counter tm \<le> ts_bits x" for x
    using that(2)
  proof
    assume x: "x \<in> S"
    then have "ts_small x" using ini c issued_small by blast
    then show ?thesis using prog [of x] x that(1) latest(2) by auto
  next
    assume x: "ts_small x \<and> timestamp_counter tm \<le> ts_bits x"
    then have "x \<notin> E" using run(2) ini by (auto simp: issued_def not_less [symmetric])
    then show ?thesis using prog [of x] x below by auto
  qed
  moreover have "is_xid_in_progress s (start_timestamp t) \<longleftrightarrow> (\<forall>x\<in>E. ts_bits x < ts_bits (start_timestamp t))"
    if "start_timestamp t \<in> S - E"
  proof -
    have i: "issued (timestamp_counter tm) (start_timestamp t)" using that ini by blast
    then have "is_xid_in_progress s (start_timestamp t) \<longleftrightarrow> ts_bits (latest_completed_xid tm) < ts_bits (start_timestamp t)"
      using prog [OF issued_small [OF i c]] by blast
    also have "\<dots> \<longleftrightarrow> (\<forall>x\<in>E. ts_bits x < ts_bits (start_timestamp t))"
      using latest i zero by (auto simp: issued_def intro: le_less_trans)
    finally show ?thesis .
  qed
  ultimately show ?thesis using s by blast
qed

text \<open>Two transactions start, in different modes, and the second one aborts; the first one then takes its snapshot.\<close>

theorem record_snapshot_exact_witness:
  "\<exists>(t1 :: (nat, nat) txn) tm1 (t2 :: (nat, nat) txn) tm2 s.
     start_transaction FastCommit txn_manager_new = (t1, tm1) \<and> start_transaction Normal tm1 = (t2, tm2) \<and>
     record_snapshot (snd (snd (abort_section t2 tm2))) t1 = Inr s \<and>
     \<not> is_xid_in_progress s (Timestamp 2) \<and> is_xid_in_progress s (Timestamp 3) \<and> \<not> is_xid_in_progress s (Timestamp 1)"
proof -
  obtain t1 :: "(nat, nat) txn" and tm1 where s1: "start_transaction FastCommit txn_manager_new = (t1, tm1)"
    by (cases "start_transaction FastCommit txn_manager_new :: (nat, nat) txn \<times> txn_manager")
  obtain t2 :: "(nat, nat) txn" and tm2 where s2: "start_transaction Normal tm1 = (t2, tm2)"
    by (cases "start_transaction Normal tm1 :: (nat, nat) txn \<times> txn_manager")
  obtain nodes t2' tm3 where ab: "abort_section t2 tm2 = (nodes, t2', tm3)" by (metis prod_cases3)
  note f1 = start_transaction_fields [OF s1] and f2 = start_transaction_fields [OF s2]
  have lim: "(1 :: u64) < ts_limit" "(2 :: u64) < ts_limit" "(3 :: u64) < ts_limit"
    by (simp_all add: word_less_nat_alt unat_ts_limit)
  have c: "timestamp_counter txn_manager_new = 1" "timestamp_counter tm1 = 2" "timestamp_counter tm3 = 3"
    using ab by (auto simp: abort_section_def f2(2) f1(2) txn_manager_new_def)
  have n: "start_timestamp t1 = Timestamp 1" "start_timestamp t2 = Timestamp 2"
    using lim by (simp_all add: f1(1) f2(1) c ts_new_commit_small)
  have "txn_history (memtable_new :: (nat, nat) memtable, tm1) {Timestamp 1} {}"
    using history_start [OF history_new _ s1] c lim n by simp
  from history_start [OF this _ s2] have "txn_history (memtable_new :: (nat, nat) memtable, tm2) {Timestamp 2, Timestamp 1} {}"
    using c lim n by simp
  from history_abort [OF this _ ab] have "txn_history (memtable_new :: (nat, nat) memtable, tm3) {Timestamp 2, Timestamp 1} {Timestamp 2}"
    using n by simp
  from record_snapshot_exact [OF this, of t1] obtain s where s: "record_snapshot tm3 t1 = Inr s"
    "\<And>x. x \<noteq> Timestamp 1 \<and> (x \<in> {Timestamp 2, Timestamp 1} \<or> ts_small x \<and> 3 \<le> ts_bits x) \<Longrightarrow> is_xid_in_progress s x \<longleftrightarrow> x \<notin> {Timestamp 2}"
    "is_xid_in_progress s (Timestamp 1) \<longleftrightarrow> (\<forall>x\<in>{Timestamp 2}. ts_bits x < 1)"
    using c lim n by auto
  have "\<not> is_xid_in_progress s (Timestamp 2)" "is_xid_in_progress s (Timestamp 3)" "\<not> is_xid_in_progress s (Timestamp 1)"
    using s(2) [of "Timestamp 2"] s(2) [of "Timestamp 3"] s(3) lim by (simp_all add: ts_small_def)
  then show ?thesis using s1 s2 ab s(1) by (metis snd_conv)
qed

end
