(* ===== verification/Segment.thy ===== *)
theory Segment
  imports Log_Record
begin

text \<open>
  One file of the write-ahead log, \<open>Segment\<close> of \<open>src/src/wal/segment.rs\<close>: the writing end. A
  record is cut into chunks that do not cross page boundaries; a chunk is a type byte, its length,
  its bytes and a checksum of these. The current page is kept in memory and written to the end of
  the file by \<open>flush_page\<close>.

  The file behind the handle is the field \<open>seg_file\<close>, the bytes it holds, and \<open>seg_synced\<close> is how
  many of them are known to be on the disk. Positions and sizes (\<open>usize\<close>, and log positions, which
  are \<open>u64\<close>) are natural numbers; failures of the file system are not modelled.
\<close>

section \<open>Constants and chunk types\<close>

definition SEGMENT_PAGE_SIZE :: nat where
  "SEGMENT_PAGE_SIZE = 0x10000"

definition CHECKSUM_SIZE :: nat where
  "CHECKSUM_SIZE = 4"

definition RECORD_HEADER_SIZE :: nat where
  "RECORD_HEADER_SIZE = 3 + CHECKSUM_SIZE"

lemma header_size [simp]: "RECORD_HEADER_SIZE = 7" "CHECKSUM_SIZE = 4"
  by (simp_all add: RECORD_HEADER_SIZE_def CHECKSUM_SIZE_def)

lemma page_size_large: "7 < SEGMENT_PAGE_SIZE" "SEGMENT_PAGE_SIZE = 65536"
  by (simp_all add: SEGMENT_PAGE_SIZE_def)

lemma page_size_pos [simp]: "0 < SEGMENT_PAGE_SIZE"
  using page_size_large(1) by simp

datatype record_header_type = HNone | HFull | HFirst | HMiddle | HLast | HError

fun header_code :: "record_header_type \<Rightarrow> u8" where
  "header_code HNone = 0"
| "header_code HFull = 1"
| "header_code HFirst = 2"
| "header_code HMiddle = 3"
| "header_code HLast = 4"
| "header_code HError = 5"

definition header_from :: "u8 \<Rightarrow> record_header_type" where
  "header_from v =
     (if v = 0 then HNone else if v = 1 then HFull else if v = 2 then HFirst
      else if v = 3 then HMiddle else if v = 4 then HLast else HError)"

lemma header_from_code [simp]: "header_from (header_code t) = t"
  by (cases t) (simp_all add: header_from_def)

datatype wal_sync_method = OpenSyncData | OpenSyncAll | SyncData | SyncAll | NoSync

section \<open>The segment\<close>

record segment =
  segno :: nat
  seg_file :: bytes
  seg_synced :: nat
  sync_method :: wal_sync_method
  page :: bytes
  page_allocated :: nat
  page_flushed :: nat
  page_start :: nat
  capacity :: nat

definition check_capacity :: "nat \<Rightarrow> unit res" where
  "check_capacity cap =
     (if RECORD_HEADER_SIZE < cap then Inr ()
      else Inl (Err (InvalidArgument ''segment capacity is smalle than record header size'')))"

definition zero_page :: bytes where
  "zero_page = replicate SEGMENT_PAGE_SIZE 0"

text \<open>
  \<open>create\<close> opens the file for writing and creates it when there is none; it does not truncate.
  \<open>existing\<close> is what the file holds if it is there.
\<close>

definition segment_create ::
  "nat \<Rightarrow> bytes option \<Rightarrow> nat \<Rightarrow> wal_sync_method \<Rightarrow> segment res" where
  "segment_create no existing cap method =
     res_bind (check_capacity cap) (\<lambda>_.
       Inr \<lparr>segno = no, seg_file = (case existing of None \<Rightarrow> [] | Some b \<Rightarrow> b), seg_synced = 0,
         sync_method = method, page = zero_page, page_allocated = 0, page_flushed = 0,
         page_start = 0, capacity = cap\<rparr>)"

definition segment_open ::
  "nat \<Rightarrow> bytes option \<Rightarrow> nat \<Rightarrow> wal_sync_method \<Rightarrow> segment res" where
  "segment_open no existing cap method =
     res_bind (check_capacity cap) (\<lambda>_.
       case existing of
         None \<Rightarrow> Inl (Err Io)
       | Some content \<Rightarrow>
           let file_size = length content
           in if cap < file_size
              then Inl (Err (InvalidArgument ''invalid segment capacity''))
              else let padding = (if file_size mod SEGMENT_PAGE_SIZE \<noteq> 0
                         then SEGMENT_PAGE_SIZE - file_size mod SEGMENT_PAGE_SIZE else 0)
                   in Inr \<lparr>segno = no, seg_file = content @ replicate padding 0, seg_synced = 0,
                        sync_method = method, page = zero_page, page_allocated = 0,
                        page_flushed = 0, page_start = file_size + padding, capacity = cap\<rparr>)"

section \<open>Flushing\<close>

text \<open>
  \<open>SyncData\<close> and \<open>SyncAll\<close> sync after the write; with the two \<open>OpenSync\<close> methods the file was
  opened so that every write is synchronous.
\<close>

definition synced_after :: "segment \<Rightarrow> nat" where
  "synced_after s = (if sync_method s = NoSync then seg_synced s else length (seg_file s))"

definition flush_page :: "bool \<Rightarrow> segment \<Rightarrow> segment" where
  "flush_page force s =
     (let reset = (force \<or> SEGMENT_PAGE_SIZE \<le> page_allocated s + RECORD_HEADER_SIZE);
          s1 = (if reset then s\<lparr>page_allocated := SEGMENT_PAGE_SIZE\<rparr> else s);
          s2 = s1\<lparr>seg_file := seg_file s1 @ slice (page s1) (page_flushed s1) (page_allocated s1)\<rparr>;
          s3 = s2\<lparr>seg_synced := synced_after s2, page_flushed := page_allocated s2\<rparr>
      in if reset
         then s3\<lparr>page := zero_page, page_allocated := 0, page_flushed := 0,
                page_start := page_start s3 + SEGMENT_PAGE_SIZE\<rparr>
         else s3)"

section \<open>Positions and capacity\<close>

definition segment_start :: "segment \<Rightarrow> log_pointer" where
  "segment_start s = (segno s - 1) * capacity s"

definition current_lsn :: "segment \<Rightarrow> log_pointer" where
  "current_lsn s = segment_start s + (page_start s + page_allocated s)"

definition flushed_lsn :: "segment \<Rightarrow> log_pointer" where
  "flushed_lsn s = segment_start s + (page_start s + page_flushed s)"

definition sufficient_capacity :: "segment \<Rightarrow> nat \<Rightarrow> bool res" where
  "sufficient_capacity s record_size =
     (if capacity s < page_start s
      then Inl (Panic ''assertion failed: self.capacity >= self.page_start'')
      else if capacity s = page_start s then Inr False
      else let remaining_pages = (capacity s - page_start s) div SEGMENT_PAGE_SIZE;
               remaining = SEGMENT_PAGE_SIZE - page_allocated s;
               remaining = (if 0 < remaining_pages
                 then remaining + (SEGMENT_PAGE_SIZE - RECORD_HEADER_SIZE) * (remaining_pages - 1)
                 else remaining)
           in Inr (record_size \<le> remaining))"

definition dirty :: "segment \<Rightarrow> bool" where
  "dirty s \<longleftrightarrow> page_allocated s \<noteq> page_flushed s"

section \<open>Appending\<close>

definition page_write :: "bytes \<Rightarrow> nat \<Rightarrow> bytes \<Rightarrow> bytes" where
  "page_write pg i xs = take i pg @ xs @ drop (i + length xs) pg"

fun next_type :: "record_header_type \<Rightarrow> bool \<Rightarrow> record_header_type" where
  "next_type HNone last_chunk = (if last_chunk then HFull else HFirst)"
| "next_type HFirst last_chunk = (if last_chunk then HLast else HMiddle)"
| "next_type HMiddle last_chunk = (if last_chunk then HLast else HMiddle)"
| "next_type _ last_chunk = HNone"

text \<open>The body of the loop after the chunk has been cut: type, length, data, checksum.\<close>

definition write_chunk ::
  "wire \<Rightarrow> record_header_type \<Rightarrow> bytes \<Rightarrow> segment \<Rightarrow> segment" where
  "write_chunk w ty chunk s =
     (let record_start = page_allocated s;
          p1 = page_write (page s) record_start [header_code ty];
          p2 = page_write p1 (record_start + 1) (put_u16 w (of_nat (length chunk)));
          a2 = record_start + 1 + 2;
          p3 = page_write p2 a2 chunk;
          a3 = a2 + length chunk;
          checksum = crc32 w (slice p3 record_start a3);
          p4 = page_write p3 a3 (put_u32 w checksum)
      in s\<lparr>page := p4, page_allocated := a3 + CHECKSUM_SIZE\<rparr>)"

text \<open>The loop of \<open>append\<close>; the second argument is what is left of the record.\<close>

definition room_for_chunk :: "segment \<Rightarrow> segment" where
  "room_for_chunk s =
     (if SEGMENT_PAGE_SIZE - page_allocated s \<le> RECORD_HEADER_SIZE then flush_page True s else s)"

lemma room_for_chunk_pos: "7 < SEGMENT_PAGE_SIZE - page_allocated (room_for_chunk s)"
  using page_size_large(1) by (simp add: room_for_chunk_def flush_page_def Let_def)

lemma chunk_pos: "r \<noteq> [] \<Longrightarrow>
  0 < min (length r) (SEGMENT_PAGE_SIZE - page_allocated (room_for_chunk s) - 7)"
  using room_for_chunk_pos [of s] by (cases r) simp_all

function append_loop ::
  "wire \<Rightarrow> bytes \<Rightarrow> record_header_type \<Rightarrow> segment \<Rightarrow> segment" where
  "append_loop w r ty s =
     (if r = [] then s
      else let s1 = room_for_chunk s;
               chunk_size =
                 min (length r) (SEGMENT_PAGE_SIZE - page_allocated s1 - RECORD_HEADER_SIZE);
               ty' = next_type ty (chunk_size = length r)
           in append_loop w (drop chunk_size r) ty' (write_chunk w ty' (take chunk_size r) s1))"
  by pat_completeness auto
termination
proof (relation "measure (\<lambda>(w, r, ty, s). length r)")
  fix w r ty s s1 chunk_size ty'
  assume "r \<noteq> ([] :: bytes)" "s1 = room_for_chunk s"
    "chunk_size = min (length r) (SEGMENT_PAGE_SIZE - page_allocated s1 - RECORD_HEADER_SIZE)"
  with chunk_pos [of r s]
  show "((w, drop chunk_size r, ty', write_chunk w ty' (take chunk_size r) s1), w, r, ty, s)
      \<in> measure (\<lambda>(w, r, ty, s). length r)"
    by simp
qed simp

declare append_loop.simps [simp del]

definition append :: "wire \<Rightarrow> bytes \<Rightarrow> segment \<Rightarrow> (log_pointer option \<times> segment) res" where
  "append w r s =
     res_bind (sufficient_capacity s (length r)) (\<lambda>ok.
       if \<not> ok then Inr (None, s)
       else let s' = append_loop w r HNone s in Inr (Some (current_lsn s'), s'))"

section \<open>Well-formed segments\<close>

text \<open>
  The file ends where the page was last flushed, pages start at multiples of the page size, and
  the part of the page that is not allocated is zero.
\<close>

definition seg_wf :: "segment \<Rightarrow> bool" where
  "seg_wf s \<longleftrightarrow>
     length (page s) = SEGMENT_PAGE_SIZE \<and> page_flushed s \<le> page_allocated s \<and>
     page_allocated s \<le> SEGMENT_PAGE_SIZE \<and>
     length (seg_file s) = page_start s + page_flushed s \<and>
     SEGMENT_PAGE_SIZE dvd page_start s \<and>
     drop (page_allocated s) (page s) = replicate (SEGMENT_PAGE_SIZE - page_allocated s) 0 \<and>
     seg_synced s \<le> length (seg_file s) \<and> 1 \<le> segno s"

text \<open>What has been appended: the file and the part of the page that is not flushed.\<close>

definition stream :: "segment \<Rightarrow> bytes" where
  "stream s = seg_file s @ slice (page s) (page_flushed s) (page_allocated s)"

lemma length_stream: "seg_wf s \<Longrightarrow> length (stream s) = page_start s + page_allocated s"
  by (simp add: seg_wf_def stream_def)

lemma current_lsn_stream: "seg_wf s \<Longrightarrow> current_lsn s = segment_start s + length (stream s)"
  by (simp add: current_lsn_def length_stream)

lemma flushed_lsn_file: "seg_wf s \<Longrightarrow> flushed_lsn s = segment_start s + length (seg_file s)"
  by (simp add: flushed_lsn_def seg_wf_def)

lemma segment_create_wf:
  assumes "segment_create no existing cap method = Inr s" and "existing \<in> {None, Some []}" "1 \<le> no"
  shows "seg_wf s \<and> stream s = [] \<and> segno s = no \<and> capacity s = cap \<and> sync_method s = method"
  using assms page_size_large(1)
  by (auto simp: segment_create_def res_bind_eq_Inr seg_wf_def stream_def zero_page_def slice_def)

definition page_pad :: "nat \<Rightarrow> bytes" where
  "page_pad n = (if n mod SEGMENT_PAGE_SIZE = 0 then []
     else replicate (SEGMENT_PAGE_SIZE - n mod SEGMENT_PAGE_SIZE) 0)"

lemma dvd_add_pad:
  "SEGMENT_PAGE_SIZE dvd n + length (page_pad n)"
proof -
  have "n mod SEGMENT_PAGE_SIZE \<le> SEGMENT_PAGE_SIZE"
    using mod_less_divisor [OF page_size_pos, of n] by simp
  then have "n + (SEGMENT_PAGE_SIZE - n mod SEGMENT_PAGE_SIZE)
      = n div SEGMENT_PAGE_SIZE * SEGMENT_PAGE_SIZE + SEGMENT_PAGE_SIZE"
    using div_mult_mod_eq [of n SEGMENT_PAGE_SIZE] by linarith
  then show ?thesis
    by (auto simp: page_pad_def)
qed

lemma segment_open_wf:
  assumes "segment_open no (Some content) cap method = Inr s" and "1 \<le> no"
  shows "seg_wf s \<and> stream s = content @ page_pad (length content) \<and> segno s = no \<and>
    capacity s = cap \<and> sync_method s = method \<and> length content \<le> cap"
  using assms dvd_add_pad [of "length content"]
  by (auto simp: segment_open_def res_bind_eq_Inr Let_def seg_wf_def stream_def zero_page_def
      slice_def page_pad_def split: if_splits)

section \<open>Flushing on streams\<close>

definition flush_resets :: "bool \<Rightarrow> segment \<Rightarrow> bool" where
  "flush_resets force s \<longleftrightarrow> force \<or> SEGMENT_PAGE_SIZE \<le> page_allocated s + 7"

lemma slice_split:
  "i \<le> j \<Longrightarrow> j \<le> k \<Longrightarrow> k \<le> length xs \<Longrightarrow> slice xs i k = slice xs i j @ slice xs j k"
proof -
  assume "i \<le> j" "j \<le> k" "k \<le> length xs"
  then have "take (k - i) (drop i xs) = take ((j - i) + (k - j)) (drop i xs)"
    by simp
  then show ?thesis
    using \<open>i \<le> j\<close> by (simp only: take_add slice_def drop_drop) simp
qed

lemma slice_same [simp]: "slice xs i i = []"
  by (simp add: slice_def)

lemma flush_page_parts:
  assumes wf: "seg_wf s"
  shows "seg_file (flush_page force s) = stream s @
      (if flush_resets force s then replicate (SEGMENT_PAGE_SIZE - page_allocated s) 0 else [])"
    and "stream (flush_page force s) = seg_file (flush_page force s)"
proof -
  have sl: "slice (page s) (page_flushed s) SEGMENT_PAGE_SIZE
      = slice (page s) (page_flushed s) (page_allocated s)
        @ replicate (SEGMENT_PAGE_SIZE - page_allocated s) 0"
    using wf slice_split [of "page_flushed s" "page_allocated s" SEGMENT_PAGE_SIZE "page s"]
    by (simp add: seg_wf_def slice_def)
  show "seg_file (flush_page force s) = stream s @
      (if flush_resets force s then replicate (SEGMENT_PAGE_SIZE - page_allocated s) 0 else [])"
    using sl by (simp add: flush_page_def flush_resets_def stream_def Let_def)
  then show "stream (flush_page force s) = seg_file (flush_page force s)"
    by (simp add: flush_page_def stream_def Let_def)
qed

lemma flush_page_fields [simp]:
  "segno (flush_page force s) = segno s" "capacity (flush_page force s) = capacity s"
  "sync_method (flush_page force s) = sync_method s"
  "page_flushed (flush_page force s) = page_allocated (flush_page force s)"
  by (simp_all add: flush_page_def Let_def)

lemma flush_page_allocated:
  "page_allocated (flush_page force s) = (if flush_resets force s then 0 else page_allocated s)"
  "page_start (flush_page force s) =
     (if flush_resets force s then page_start s + SEGMENT_PAGE_SIZE else page_start s)"
  by (simp_all add: flush_page_def flush_resets_def Let_def)

lemma flush_page_synced:
  "sync_method s \<noteq> NoSync \<Longrightarrow>
     seg_synced (flush_page force s) = length (seg_file (flush_page force s))"
  by (simp add: flush_page_def synced_after_def Let_def)

lemma flush_page_wf:
  assumes "seg_wf s"
  shows "seg_wf (flush_page force s)"
proof -
  have "seg_synced (flush_page force s) \<le> length (seg_file (flush_page force s))"
    using assms by (simp add: flush_page_def synced_after_def Let_def seg_wf_def)
  moreover have "length (seg_file (flush_page force s))
      = page_start (flush_page force s) + page_flushed (flush_page force s)"
    using assms length_stream [OF assms]
    by (simp add: flush_page_parts(1) [OF assms] flush_page_allocated seg_wf_def)
  moreover have "length (page (flush_page force s)) = SEGMENT_PAGE_SIZE \<and>
      page_allocated (flush_page force s) \<le> SEGMENT_PAGE_SIZE \<and>
      SEGMENT_PAGE_SIZE dvd page_start (flush_page force s) \<and>
      drop (page_allocated (flush_page force s)) (page (flush_page force s))
        = replicate (SEGMENT_PAGE_SIZE - page_allocated (flush_page force s)) 0"
    using assms by (auto simp: flush_page_def Let_def seg_wf_def zero_page_def)
  ultimately show ?thesis
    using assms by (simp add: seg_wf_def)
qed

section \<open>Appending on streams\<close>

text \<open>The bytes of one chunk, and of what is left of a record when the page is filled up to \<open>a\<close>.\<close>

definition frame :: "wire \<Rightarrow> record_header_type \<Rightarrow> bytes \<Rightarrow> bytes" where
  "frame w ty c =
     (let h = header_code ty # put_u16 w (of_nat (length c)) @ c in h @ put_u32 w (crc32 w h))"

definition pad_of :: "nat \<Rightarrow> bytes" where
  "pad_of a = (if SEGMENT_PAGE_SIZE - a \<le> 7 then replicate (SEGMENT_PAGE_SIZE - a) 0 else [])"

definition chunk_start :: "nat \<Rightarrow> nat" where
  "chunk_start a = (if SEGMENT_PAGE_SIZE - a \<le> 7 then 0 else a)"

definition chunk_len :: "nat \<Rightarrow> bytes \<Rightarrow> nat" where
  "chunk_len a r = min (length r) (SEGMENT_PAGE_SIZE - chunk_start a - 7)"

lemma chunk_start_room: "7 < SEGMENT_PAGE_SIZE - chunk_start a"
  using page_size_large(1) by (simp add: chunk_start_def)

lemma chunk_len_pos: "r \<noteq> [] \<Longrightarrow> 0 < chunk_len a r"
  using chunk_start_room [of a] by (cases r) (simp_all add: chunk_len_def)

function enc :: "wire \<Rightarrow> nat \<Rightarrow> record_header_type \<Rightarrow> bytes \<Rightarrow> bytes" where
  "enc w a ty r =
     (if r = [] then []
      else let n = chunk_len a r; ty' = next_type ty (n = length r)
           in pad_of a @ frame w ty' (take n r) @ enc w (chunk_start a + n + 7) ty' (drop n r))"
  by pat_completeness auto
termination
proof (relation "measure (\<lambda>(w, a, ty, r). length r)")
  fix w a ty r n ty'
  assume "r \<noteq> ([] :: bytes)" "n = chunk_len a r"
  with chunk_len_pos [of r a]
  show "((w, chunk_start a + n + 7, ty', drop n r), w, a, ty, r)
      \<in> measure (\<lambda>(w, a, ty, r). length r)"
    by simp
qed simp

declare enc.simps [simp del]

lemma enc_Nil [simp]: "enc w a ty [] = []"
  by (simp add: enc.simps)

lemma page_write_append:
  "length xs = i \<Longrightarrow> length ys = length zs \<Longrightarrow> page_write (xs @ ys @ rest) i zs = xs @ zs @ rest"
  by (simp add: page_write_def)

context wire_format begin

lemma length_frame [simp]: "length (frame w ty c) = length c + 7"
  by (simp add: frame_def Let_def)

lemma write_chunk_page:
  assumes pg: "page s = pre @ replicate (length c + 7 + k) 0" and pre: "length pre = page_allocated s"
  shows "write_chunk w ty c s =
    s\<lparr>page := pre @ frame w ty c @ replicate k 0, page_allocated := page_allocated s + length c + 7\<rparr>"
proof -
  let ?h = "header_code ty # put_u16 w (of_nat (length c)) @ c"
  have zeros: "replicate (length c + 7 + k) (0 :: u8)
      = replicate 1 0 @ replicate 2 0 @ replicate (length c) 0 @ replicate 4 0 @ replicate k 0"
  proof -
    have "length c + 7 + k = 1 + (2 + (length c + (4 + k)))"
      by simp
    then show ?thesis
      by (simp only: replicate_add)
  qed
  have p1: "page_write (page s) (page_allocated s) [header_code ty]
      = (pre @ [header_code ty]) @ replicate 2 0 @ replicate (length c) 0 @ replicate 4 0 @ replicate k 0"
    unfolding pg zeros
    by (subst page_write_append [of pre _ "replicate 1 0"]) (simp_all add: pre)
  have p2: "page_write ((pre @ [header_code ty]) @ replicate 2 0 @ replicate (length c) 0 @ replicate 4 0 @ replicate k 0)
        (page_allocated s + 1) (put_u16 w (of_nat (length c)))
      = (pre @ header_code ty # put_u16 w (of_nat (length c))) @ replicate (length c) 0 @ replicate 4 0 @ replicate k 0"
    by (subst page_write_append [of "pre @ [header_code ty]" _ "replicate 2 0"]) (simp_all add: pre)
  have p3: "page_write ((pre @ header_code ty # put_u16 w (of_nat (length c))) @ replicate (length c) 0 @ replicate 4 0 @ replicate k 0)
        (page_allocated s + 1 + 2) c
      = (pre @ ?h) @ replicate 4 0 @ replicate k 0"
    by (subst page_write_append [of "pre @ header_code ty # put_u16 w (of_nat (length c))" _ "replicate (length c) 0"])
      (simp_all add: pre)
  have sl: "slice ((pre @ ?h) @ replicate 4 0 @ replicate k 0) (page_allocated s)
      (page_allocated s + 1 + 2 + length c) = ?h"
  proof -
    have "length ?h = 3 + length c"
      by simp
    then have "take (3 + length c) (?h @ replicate 4 0 @ replicate k 0) = ?h"
      by (metis append_eq_conv_conj)
    then show ?thesis
      by (simp add: slice_def pre)
  qed
  have p4: "page_write ((pre @ ?h) @ replicate 4 0 @ replicate k 0)
        (page_allocated s + 1 + 2 + length c) (put_u32 w (crc32 w ?h))
      = pre @ frame w ty c @ replicate k 0"
    by (subst page_write_append [of "pre @ ?h" _ "replicate 4 0"])
      (simp_all add: pre frame_def Let_def)
  show ?thesis
    unfolding write_chunk_def Let_def p1 p2 p3 sl p4 by simp
qed

lemma write_chunk_wf:
  assumes wf: "seg_wf s" and fit: "page_allocated s + length c + 7 \<le> SEGMENT_PAGE_SIZE"
  shows "seg_wf (write_chunk w ty c s) \<and>
    stream (write_chunk w ty c s) = stream s @ frame w ty c \<and>
    page_allocated (write_chunk w ty c s) = page_allocated s + length c + 7 \<and>
    page_start (write_chunk w ty c s) = page_start s \<and> seg_file (write_chunk w ty c s) = seg_file s \<and>
    segno (write_chunk w ty c s) = segno s \<and> capacity (write_chunk w ty c s) = capacity s \<and>
    sync_method (write_chunk w ty c s) = sync_method s"
proof -
  let ?pre = "take (page_allocated s) (page s)"
  let ?k = "SEGMENT_PAGE_SIZE - page_allocated s - (length c + 7)"
  have pre: "length ?pre = page_allocated s"
    using wf by (simp add: seg_wf_def)
  have "page s = ?pre @ drop (page_allocated s) (page s)"
    by simp
  also have "drop (page_allocated s) (page s) = replicate (length c + 7 + ?k) 0"
    using wf fit by (simp add: seg_wf_def)
  finally have pg: "page s = ?pre @ replicate (length c + 7 + ?k) 0" .
  have w: "write_chunk w ty c s =
    s\<lparr>page := ?pre @ frame w ty c @ replicate ?k 0, page_allocated := page_allocated s + length c + 7\<rparr>"
    by (rule write_chunk_page [OF pg pre])
  have sl: "slice (?pre @ frame w ty c @ replicate ?k 0) (page_flushed s) (page_allocated s + length c + 7)
      = slice (page s) (page_flushed s) (page_allocated s) @ frame w ty c"
    using wf fit by (simp add: slice_def seg_wf_def take_drop min_absorb1)
  have ln: "length (frame w ty c) = length c + 7"
    by simp
  show ?thesis
    unfolding w using wf fit sl ln pre
    by (simp add: seg_wf_def stream_def del: length_take)
qed

lemma room_for_chunk_wf:
  assumes "seg_wf s"
  shows "seg_wf (room_for_chunk s)" "stream (room_for_chunk s) = stream s @ pad_of (page_allocated s)"
    "page_allocated (room_for_chunk s) = chunk_start (page_allocated s)"
    "segno (room_for_chunk s) = segno s" "capacity (room_for_chunk s) = capacity s"
    "sync_method (room_for_chunk s) = sync_method s"
  using assms flush_page_wf [OF assms, of True] flush_page_parts [OF assms, of True]
  by (simp_all add: room_for_chunk_def pad_of_def chunk_start_def flush_page_allocated
      flush_resets_def)

lemma append_loop_stream:
  "seg_wf s \<Longrightarrow> seg_wf (append_loop w r ty s) \<and>
     stream (append_loop w r ty s) = stream s @ enc w (page_allocated s) ty r \<and>
     segno (append_loop w r ty s) = segno s \<and> capacity (append_loop w r ty s) = capacity s \<and>
     sync_method (append_loop w r ty s) = sync_method s"
proof (induction w \<equiv> w r ty s rule: append_loop.induct)
  case (1 r ty s)
  show ?case
  proof (cases "r = []")
    case True
    with 1 show ?thesis by (simp add: append_loop.simps)
  next
    case False
    define s1 where "s1 = room_for_chunk s"
    define n where "n = chunk_len (page_allocated s) r"
    define ty' where "ty' = next_type ty (n = length r)"
    define s2 where "s2 = write_chunk w ty' (take n r) s1"
    note room = room_for_chunk_wf [OF 1(2), folded s1_def]
    have n: "n = min (length r) (SEGMENT_PAGE_SIZE - page_allocated s1 - RECORD_HEADER_SIZE)"
      by (simp add: n_def chunk_len_def room)
    have fit: "page_allocated s1 + length (take n r) + 7 \<le> SEGMENT_PAGE_SIZE"
      using chunk_start_room [of "page_allocated s"] n by (simp add: room)
    have ln: "length (take n r) = n"
      using n by simp
    have s2: "seg_wf s2 \<and> stream s2 = stream s1 @ frame w ty' (take n r) \<and>
        page_allocated s2 = page_allocated s1 + n + 7 \<and> segno s2 = segno s1 \<and>
        capacity s2 = capacity s1 \<and> sync_method s2 = sync_method s1"
      using write_chunk_wf [OF room(1) fit, of ty'] unfolding s2_def ln by blast
    have eq: "append_loop w r ty s = append_loop w (drop n r) ty' s2"
      unfolding s2_def ty'_def n s1_def using False
      by (subst append_loop.simps) (simp add: Let_def)
    have IH: "seg_wf (append_loop w (drop n r) ty' s2) \<and>
        stream (append_loop w (drop n r) ty' s2) = stream s2 @ enc w (page_allocated s2) ty' (drop n r) \<and>
        segno (append_loop w (drop n r) ty' s2) = segno s2 \<and>
        capacity (append_loop w (drop n r) ty' s2) = capacity s2 \<and>
        sync_method (append_loop w (drop n r) ty' s2) = sync_method s2"
      using 1(1) [OF False s1_def n ty'_def] s2 unfolding s2_def by blast
    have e: "enc w (page_allocated s) ty r = pad_of (page_allocated s) @ frame w ty' (take n r) @
        enc w (chunk_start (page_allocated s) + n + 7) ty' (drop n r)"
      unfolding ty'_def n_def using False by (subst enc.simps) (simp add: Let_def)
    show ?thesis
      unfolding eq e using IH s2 room by simp
  qed
qed

lemma append_stream:
  assumes "seg_wf s" and "append w r s = Inr (p, s')"
  shows "seg_wf s'" and "segno s' = segno s" and "capacity s' = capacity s"
    and "sync_method s' = sync_method s"
    and "p \<noteq> None \<Longrightarrow> stream s' = stream s @ enc w (page_allocated s) HNone r"
    and "p = None \<Longrightarrow> s' = s"
    and "p = None \<or> p = Some (current_lsn s')"
  using assms append_loop_stream [OF assms(1), of r HNone]
  by (auto simp: append_def res_bind_eq_Inr Let_def split: if_splits)

end

section \<open>How much fits\<close>

text \<open>
  \<open>m\<close> pages follow the current one. A page of which at most seven bytes are left holds no chunk.
\<close>

definition usable :: "nat \<Rightarrow> nat" where
  "usable a = (if SEGMENT_PAGE_SIZE - a \<le> 7 then 0 else SEGMENT_PAGE_SIZE - a - 7)"

lemma usable_full [simp]: "usable SEGMENT_PAGE_SIZE = 0"
  by (simp add: usable_def)

lemma chunk_end:
  "chunk_len a r < length r \<Longrightarrow> chunk_start a + chunk_len a r + 7 = SEGMENT_PAGE_SIZE"
  using chunk_start_room [of a] by (auto simp: chunk_len_def min_def split: if_splits)

context wire_format begin

lemma enc_step:
  "r \<noteq> [] \<Longrightarrow> enc w a ty r = pad_of a
     @ frame w (next_type ty (chunk_len a r = length r)) (take (chunk_len a r) r)
     @ enc w (chunk_start a + chunk_len a r + 7) (next_type ty (chunk_len a r = length r))
         (drop (chunk_len a r) r)"
  by (subst enc.simps) (simp add: Let_def)

lemma chunk_len_le: "chunk_len a r \<le> length r"
  by (simp add: chunk_len_def)

lemma length_enc_le:
  "\<lbrakk>a \<le> SEGMENT_PAGE_SIZE; length r \<le> usable a + (SEGMENT_PAGE_SIZE - 7) * m\<rbrakk> \<Longrightarrow>
     length (enc w a ty r) \<le> (SEGMENT_PAGE_SIZE - a) + SEGMENT_PAGE_SIZE * m"
proof (induction "length r" arbitrary: a ty r m rule: less_induct)
  case less
  show ?case
  proof (cases "r = []")
    case False
    let ?n = "chunk_len a r"
    have n0: "0 < ?n" by (rule chunk_len_pos [OF False])
    have take: "length (take ?n r) = ?n" using chunk_len_le [of a r] by simp
    have len: "length (enc w a ty r) = length (pad_of a) + (?n + 7)
        + length (enc w (chunk_start a + ?n + 7) (next_type ty (?n = length r)) (drop ?n r))"
      by (simp only: enc_step [OF False] length_append length_frame take)
    show ?thesis
    proof (cases "?n = length r")
      case True
      have "length (pad_of a) + (?n + 7) \<le> (SEGMENT_PAGE_SIZE - a) + SEGMENT_PAGE_SIZE * m"
      proof (cases "SEGMENT_PAGE_SIZE - a \<le> 7")
        case full: True
        then have "m \<noteq> 0" using less.prems(2) \<open>r \<noteq> []\<close> by (cases m) (auto simp: usable_def)
        then obtain k where k: "m = Suc k" by (cases m) auto
        have "?n + 7 \<le> SEGMENT_PAGE_SIZE"
          using chunk_start_room [of a] full by (simp add: chunk_len_def chunk_start_def)
        then show ?thesis using full k by (simp add: pad_of_def)
      next
        case False
        then show ?thesis by (simp add: chunk_len_def chunk_start_def pad_of_def)
      qed
      then show ?thesis using len True by simp
    next
      case False
      with chunk_len_le [of a r] have lt: "?n < length r" by simp
      note ce = chunk_end [OF lt]
      have IH: "length (enc w SEGMENT_PAGE_SIZE ty' (drop ?n r)) \<le> SEGMENT_PAGE_SIZE * k"
        if "length r - ?n \<le> (SEGMENT_PAGE_SIZE - 7) * k" for k ty'
        using less.hyps [of "drop ?n r" SEGMENT_PAGE_SIZE k ty'] that n0 lt by simp
      show ?thesis
      proof (cases "SEGMENT_PAGE_SIZE - a \<le> 7")
        case full: True
        then have "m \<noteq> 0" using less.prems(2) lt by (cases m) (auto simp: usable_def)
        then obtain k where k: "m = Suc k" by (cases m) auto
        have n: "?n = SEGMENT_PAGE_SIZE - 7" "?n + 7 = SEGMENT_PAGE_SIZE"
          using ce full by (simp_all add: chunk_start_def)
        have "length r - ?n \<le> (SEGMENT_PAGE_SIZE - 7) * k"
          using less.prems(2) full k n by (simp add: usable_def)
        from IH [OF this] show ?thesis
          using len full k n(2) ce by (simp add: pad_of_def)
      next
        case part: False
        have n: "?n = SEGMENT_PAGE_SIZE - a - 7" "?n + 7 = SEGMENT_PAGE_SIZE - a"
          using ce part by (simp_all add: chunk_start_def)
        have "length r - ?n \<le> (SEGMENT_PAGE_SIZE - 7) * m"
          using less.prems(2) part n by (simp add: usable_def)
        from IH [OF this, of "next_type ty (?n = length r)"] show ?thesis
          using len part n(2) ce by (simp add: pad_of_def)
      qed
    qed
  qed simp
qed

lemma append_within_capacity:
  assumes wf: "seg_wf s" and cap: "SEGMENT_PAGE_SIZE dvd capacity s"
    and room: "sufficient_capacity s (length r + 7) = Inr True" and ap: "append w r s = Inr (Some p, s')"
  shows "length (stream s') \<le> capacity s"
proof -
  let ?m = "(capacity s - page_start s) div SEGMENT_PAGE_SIZE"
  have st: "stream s' = stream s @ enc w (page_allocated s) HNone r"
    using append_stream(5) [OF wf ap] by simp
  have al: "page_allocated s \<le> SEGMENT_PAGE_SIZE" "SEGMENT_PAGE_SIZE dvd page_start s"
    using wf by (simp_all add: seg_wf_def)
  have lt: "page_start s < capacity s"
    using room by (auto simp: sufficient_capacity_def split: if_splits)
  have "SEGMENT_PAGE_SIZE dvd capacity s - page_start s"
    using cap al(2) by (rule dvd_diff_nat)
  then have m: "SEGMENT_PAGE_SIZE * ?m = capacity s - page_start s"
    by simp
  have "?m \<noteq> 0" using m lt by (metis mult_0_right zero_less_diff less_irrefl)
  then obtain k where k: "?m = Suc k" by (cases ?m) auto
  have "length r + 7 \<le> SEGMENT_PAGE_SIZE - page_allocated s + (SEGMENT_PAGE_SIZE - 7) * k"
    using room lt k by (simp add: sufficient_capacity_def Let_def)
  then have "length r \<le> usable (page_allocated s) + (SEGMENT_PAGE_SIZE - 7) * k"
    by (auto simp: usable_def)
  from length_enc_le [OF al(1) this]
  have "length (enc w (page_allocated s) HNone r)
      \<le> SEGMENT_PAGE_SIZE - page_allocated s + SEGMENT_PAGE_SIZE * k" .
  moreover have "SEGMENT_PAGE_SIZE + SEGMENT_PAGE_SIZE * k = capacity s - page_start s"
    using m k by simp
  ultimately show ?thesis
    using st length_stream [OF wf] al(1) lt by simp
qed

end

end
