(* ===== verification/Segment_Read.thy ===== *)
theory Segment_Read
  imports Segment
begin

text \<open>
  The reading end of a log file, \<open>SegmentView\<close> of \<open>src/src/wal/segment.rs\<close>. The memory map of
  the file is its content. The reader follows the chunks of a record, checks their checksums and
  skips the rest of a page where it meets a zero type byte.
\<close>

section \<open>The view\<close>

type_synonym segment_view = "bytes option"

definition view_open :: "bytes option \<Rightarrow> nat \<Rightarrow> segment_view res" where
  "view_open existing cap =
     res_bind (check_capacity cap) (\<lambda>_.
       case existing of
         None \<Rightarrow> Inl (Err Io)
       | Some content \<Rightarrow>
           if cap < length content
           then Inl (Err (InvalidArgument ''invalid segment capacity''))
           else Inr (if length content = 0 then None else Some content))"

definition eof_error :: fault where
  "eof_error = Err (DataCorrupted ''unexpected EOF when reading WAL segment'')"

lemma skip_measure:
  "\<not> n \<le> p + 7 \<Longrightarrow> n - Suc (p + SEGMENT_PAGE_SIZE - Suc p mod SEGMENT_PAGE_SIZE) < n - p"
  using mod_less_divisor [OF page_size_pos, of "Suc p"] by linarith

text \<open>The loop: \<open>p\<close> is the position, \<open>buffer\<close> what has been read of the record.\<close>

function read_loop ::
  "wire \<Rightarrow> bytes \<Rightarrow> nat \<Rightarrow> bool \<Rightarrow> bytes \<Rightarrow> (bytes \<times> nat) option res" where
  "read_loop w mmap p started buffer =
     (if length mmap \<le> p + RECORD_HEADER_SIZE then Inl eof_error
      else let rec_start = p; rec_type = header_from (mmap ! p); p1 = p + 1
           in case rec_type of
                HNone \<Rightarrow>
                  (let p2 = p1 + (SEGMENT_PAGE_SIZE - p1 mod SEGMENT_PAGE_SIZE)
                   in if length mmap \<le> p2 + RECORD_HEADER_SIZE \<and> \<not> started then Inr None
                      else read_loop w mmap p2 started buffer)
              | HError \<Rightarrow> Inl (Err (DataCorrupted ''invalid record type in segment''))
              | _ \<Rightarrow>
                  (let chunk_length = unat (get_u16 w (slice mmap p1 (p1 + 2))); p2 = p1 + 2;
                       end_pos = p2 + chunk_length + CHECKSUM_SIZE
                   in if length mmap < end_pos
                      then Inl (Err (DataCorrupted ''segment is truncated''))
                      else let chunk = slice mmap rec_start (end_pos - CHECKSUM_SIZE);
                               checksum_file = get_u32 w (slice mmap (end_pos - CHECKSUM_SIZE) end_pos)
                           in if crc32 w chunk \<noteq> checksum_file
                              then Inl (Err (DataCorrupted
                                     ''record is corrupted (checksum does not match)''))
                              else let buffer' = buffer @ drop (p2 - rec_start) chunk
                                   in if rec_type = HFull \<or> rec_type = HLast
                                      then Inr (Some (buffer', end_pos))
                                      else read_loop w mmap end_pos True buffer'))"
  by pat_completeness auto
termination
  by (relation "measure (\<lambda>(w, mmap, p, started, buffer). length mmap - p)")
    (auto simp: skip_measure)

declare read_loop.simps [simp del]

definition read_record ::
  "wire \<Rightarrow> segment_view \<Rightarrow> nat \<Rightarrow> (bytes \<times> nat) option res" where
  "read_record w view offset =
     (case view of
        None \<Rightarrow> Inr None
      | Some mmap \<Rightarrow>
          if length mmap \<le> offset + RECORD_HEADER_SIZE then Inr None
          else map_sum id (map_option (\<lambda>(buffer, p). (buffer, p - offset)))
                 (read_loop w mmap offset False []))"

section \<open>Reading what was written\<close>

lemma slice_mid:
  "length xs = i \<Longrightarrow> j = i + length ys \<Longrightarrow> slice (xs @ ys @ zs) i j = ys"
  by (simp add: slice_def)

context wire_format begin

lemma read_frame:
  assumes ty: "ty \<noteq> HNone" "ty \<noteq> HError" and len: "length c < 2 ^ 16"
  shows "read_loop w (xs @ frame w ty c @ zs) (length xs) started buffer =
    (if c = [] \<and> zs = [] then Inl eof_error
     else if ty = HFull \<or> ty = HLast then Inr (Some (buffer @ c, length xs + length c + 7))
     else read_loop w (xs @ frame w ty c @ zs) (length xs + length c + 7) True (buffer @ c))"
proof (cases "c = [] \<and> zs = []")
  case True
  then show ?thesis
    by (subst read_loop.simps) simp
next
  case False
  define mm where "mm = xs @ frame w ty c @ zs"
  let ?h = "header_code ty # put_u16 w (of_nat (length c)) @ c"
  let ?p = "length xs"
  have fr: "frame w ty c = ?h @ put_u32 w (crc32 w ?h)"
    by (simp add: frame_def Let_def)
  have more: "\<not> length mm \<le> ?p + RECORD_HEADER_SIZE"
    using False by (cases c; cases zs) (simp_all add: mm_def)
  have hd: "mm ! ?p = header_code ty"
    by (simp add: mm_def fr nth_append)
  have "slice mm (?p + 1) (?p + 1 + 2) = put_u16 w (of_nat (length c))"
    unfolding mm_def fr
    using slice_mid [of "xs @ [header_code ty]" "?p + 1" "?p + 1 + 2"
        "put_u16 w (of_nat (length c))" "c @ put_u32 w (crc32 w ?h) @ zs"]
    by simp
  then have cl: "unat (get_u16 w (slice mm (?p + 1) (?p + 1 + 2))) = length c"
    using len get_put_u16 [of "of_nat (length c)" "[]"]
    by (simp add: unsigned_of_nat take_bit_eq_mod)
  have ch: "slice mm ?p (?p + 1 + 2 + length c) = ?h"
    unfolding mm_def fr
    using slice_mid [of xs ?p "?p + 1 + 2 + length c" ?h "put_u32 w (crc32 w ?h) @ zs"] by simp
  have ck: "slice mm (?p + 1 + 2 + length c) (?p + 1 + 2 + length c + 4) = put_u32 w (crc32 w ?h)"
    unfolding mm_def fr
    using slice_mid [of "xs @ ?h" "?p + 1 + 2 + length c" "?p + 1 + 2 + length c + 4"
        "put_u32 w (crc32 w ?h)" zs] by simp
  have en: "\<not> length mm < ?p + 1 + 2 + length c + 4"
    by (simp add: mm_def)
  have dr: "drop 3 ?h = c"
    by simp
  have sub: "?p + 1 + 2 + length c + CHECKSUM_SIZE - CHECKSUM_SIZE = ?p + 1 + 2 + length c"
    "?p + 1 + 2 - ?p = 3"
    by simp_all
  have arith: "?p + 1 + 2 + length c + 4 = ?p + length c + 7"
    by simp
  have e: "?p + 1 + 2 + length c + 4 = 7 + (?p + length c)" "?p + 1 + 2 + length c = 3 + (?p + length c)"
    by simp_all
  have "read_loop w mm ?p started buffer =
      (if ty = HFull \<or> ty = HLast then Inr (Some (buffer @ c, ?p + 1 + 2 + length c + 4))
       else read_loop w mm (?p + 1 + 2 + length c + 4) True (buffer @ c))"
    using ty by (subst read_loop.simps)
      (cases ty, simp_all add: more [simplified] hd cl [simplified] ch [unfolded e]
        ck [unfolded e(1), unfolded e(2)] en [simplified] Let_def header_from_def)
  then show ?thesis
    using False by (simp only: mm_def arith if_False simp_thms)
qed

lemma read_skip:
  assumes b: "mm ! p = 0" and len: "p + 7 < length mm"
    and nx: "p2 = p + 1 + (SEGMENT_PAGE_SIZE - (p + 1) mod SEGMENT_PAGE_SIZE)"
  shows "read_loop w mm p started buffer =
    (if length mm \<le> p2 + 7 \<and> \<not> started then Inr None else read_loop w mm p2 started buffer)"
  using len by (subst read_loop.simps) (simp add: b header_from_def Let_def nx)

end

section \<open>Records\<close>

lemma next_type_cases:
  assumes "ty \<in> {HNone, HFirst, HMiddle}"
  shows "next_type ty True \<in> {HFull, HLast}" "next_type ty False \<in> {HFirst, HMiddle}"
  using assms by auto

lemma pad_skip_position:
  assumes pre: "length pre = q * SEGMENT_PAGE_SIZE + a" and a: "a + 1 < SEGMENT_PAGE_SIZE"
  shows "length pre + 1 + (SEGMENT_PAGE_SIZE - (length pre + 1) mod SEGMENT_PAGE_SIZE)
    = length pre + (SEGMENT_PAGE_SIZE - a)"
proof -
  have "(length pre + 1) mod SEGMENT_PAGE_SIZE = (q * SEGMENT_PAGE_SIZE + (a + 1)) mod SEGMENT_PAGE_SIZE"
    using pre by simp
  also have "\<dots> = a + 1"
    using a by (simp only: mod_mult_self3 mod_less)
  finally show ?thesis using a by simp
qed

context wire_format begin

text \<open>
  A record is read back at the position where its encoding starts, whatever follows. The position
  must not be the last byte of a page: there the reader skips a page too many.
\<close>

lemma read_enc:
  "\<lbrakk>r \<noteq> []; ty \<in> {HNone, HFirst, HMiddle}; length pre = q * SEGMENT_PAGE_SIZE + a;
    a \<le> SEGMENT_PAGE_SIZE; a \<noteq> SEGMENT_PAGE_SIZE - 1\<rbrakk> \<Longrightarrow>
   read_loop w (pre @ enc w a ty r @ rest) (length pre) st buf =
     Inr (Some (buf @ r, length pre + length (enc w a ty r)))"
proof (induction "length r" arbitrary: r ty pre q a st buf rule: less_induct)
  case less
  let ?n = "chunk_len a r"
  let ?ty = "next_type ty (?n = length r)"
  let ?c = "take ?n r"
  let ?e = "enc w (chunk_start a + ?n + 7) ?ty (drop ?n r)"
  let ?mm = "pre @ enc w a ty r @ rest"
  note es = enc_step [OF less.prems(1), of a ty]
  have n0: "0 < ?n" by (rule chunk_len_pos [OF less.prems(1)])
  have lc: "length ?c = ?n" using chunk_len_le [of a r] by simp
  have c: "?c \<noteq> []" using n0 less.prems(1) by auto
  have mm: "?mm = (pre @ pad_of a) @ frame w ?ty ?c @ (?e @ rest)"
    unfolding es by (simp only: append_assoc)
  have skip: "read_loop w ?mm (length pre) st buf = read_loop w ?mm (length (pre @ pad_of a)) st buf"
  proof (cases "pad_of a = []")
    case False
    then have a1: "a + 1 < SEGMENT_PAGE_SIZE" and pd: "pad_of a = replicate (SEGMENT_PAGE_SIZE - a) 0"
      using less.prems(4,5) page_size_large(1) by (auto simp: pad_of_def split: if_splits)
    note pos = pad_skip_position [OF less.prems(3) a1]
    have z: "?mm ! length pre = 0"
      unfolding mm using a1 by (simp add: pd nth_append)
    have lt: "length pre + (SEGMENT_PAGE_SIZE - a) + 7 < length ?mm"
      unfolding mm length_append length_frame lc pd length_replicate using n0 by linarith
    have l1: "length pre + 7 < length ?mm"
      using lt by linarith
    have l2: "\<not> length ?mm \<le> length pre + (SEGMENT_PAGE_SIZE - a) + 7"
      using lt by linarith
    have "length (pre @ pad_of a) = length pre + (SEGMENT_PAGE_SIZE - a)"
      by (simp add: pd)
    then show ?thesis
      using read_skip [OF z l1 refl, of st buf] l2 by (simp only: pos simp_thms if_False)
  qed simp
  have tyn: "?ty \<noteq> HNone" "?ty \<noteq> HError"
    using less.prems(2) by (auto split: if_splits)
  have "chunk_len a r < SEGMENT_PAGE_SIZE"
    using chunk_start_room [of a] by (auto simp: chunk_len_def)
  then have small: "length ?c < 2 ^ 16"
    using lc page_size_large(2) by simp
  have fr: "read_loop w ?mm (length (pre @ pad_of a)) st buf =
      (if ?ty = HFull \<or> ?ty = HLast
       then Inr (Some (buf @ ?c, length (pre @ pad_of a) + length ?c + 7))
       else read_loop w ?mm (length (pre @ pad_of a) + length ?c + 7) True (buf @ ?c))"
    unfolding mm using read_frame [OF tyn small, of "pre @ pad_of a" "?e @ rest" st buf] c
    by (simp only: simp_thms if_False)
  have le: "length (enc w a ty r) = length (pad_of a) + (?n + 7) + length ?e"
    unfolding es by (simp only: length_append length_frame lc)
  show ?case
  proof (cases "?n = length r")
    case True
    then have "?ty \<in> {HFull, HLast}" "?e = []" "?c = r"
      using next_type_cases(1) [OF less.prems(2)] by simp_all
    then show ?thesis
      unfolding skip fr le by (auto simp: True)
  next
    case False
    then have lt: "?n < length r" using chunk_len_le [of a r] by simp
    have ty': "?ty \<in> {HFirst, HMiddle}" "\<not> (?ty = HFull \<or> ?ty = HLast)"
      using False next_type_cases(2) [OF less.prems(2)] by auto
    let ?pre' = "(pre @ pad_of a) @ frame w ?ty ?c"
    have ce: "chunk_start a + ?n + 7 = SEGMENT_PAGE_SIZE"
      by (rule chunk_end [OF lt])
    have lp: "length ?pre' = length (pre @ pad_of a) + length ?c + 7"
      by (simp add: lc)
    have "\<exists>q'. length ?pre' = q' * SEGMENT_PAGE_SIZE + SEGMENT_PAGE_SIZE"
    proof (cases "SEGMENT_PAGE_SIZE - a \<le> 7")
      case True
      then have "length ?pre' = Suc q * SEGMENT_PAGE_SIZE + SEGMENT_PAGE_SIZE"
        using ce less.prems(3,4) lc by (simp add: lp chunk_start_def pad_of_def del: length_take)
      then show ?thesis ..
    next
      case False
      then have "length ?pre' = q * SEGMENT_PAGE_SIZE + SEGMENT_PAGE_SIZE"
        using ce less.prems(3,4) lc by (simp add: lp chunk_start_def pad_of_def del: length_take)
      then show ?thesis ..
    qed
    then obtain q' where q': "length ?pre' = q' * SEGMENT_PAGE_SIZE + SEGMENT_PAGE_SIZE" ..
    have dr: "drop ?n r \<noteq> []" "length (drop ?n r) < length r"
      using lt n0 by auto
    have tyin: "?ty \<in> {HNone, HFirst, HMiddle}"
      using ty'(1) by blast
    have "read_loop w (?pre' @ enc w SEGMENT_PAGE_SIZE ?ty (drop ?n r) @ rest) (length ?pre') True (buf @ ?c)
        = Inr (Some ((buf @ ?c) @ drop ?n r,
            length ?pre' + length (enc w SEGMENT_PAGE_SIZE ?ty (drop ?n r))))"
      by (rule less.hyps [OF dr(2) dr(1) tyin q' order_refl]) (use page_size_large(1) in simp)
    moreover have "?mm = ?pre' @ enc w SEGMENT_PAGE_SIZE ?ty (drop ?n r) @ rest"
      unfolding mm ce by (simp only: append_assoc)
    ultimately show ?thesis
      using ty'(2) lc lp unfolding skip fr le ce by (simp add: add.assoc del: length_take)
  qed
qed

lemma read_loop_enc:
  assumes "r \<noteq> []" and "length pre mod SEGMENT_PAGE_SIZE = a mod SEGMENT_PAGE_SIZE"
    and "a \<le> SEGMENT_PAGE_SIZE" and "a \<noteq> SEGMENT_PAGE_SIZE - 1"
  shows "read_loop w (pre @ enc w a HNone r @ rest) (length pre) False [] =
    Inr (Some (r, length pre + length (enc w a HNone r)))"
proof -
  have enc0: "enc w SEGMENT_PAGE_SIZE HNone r = enc w 0 HNone r"
    using page_size_large(1)
    by (simp only: enc_step [OF assms(1)])
      (simp add: chunk_len_def chunk_start_def pad_of_def)
  define a' where "a' = a mod SEGMENT_PAGE_SIZE"
  have same: "enc w a HNone r = enc w a' HNone r"
    using assms(3) enc0 by (cases "a = SEGMENT_PAGE_SIZE") (simp_all add: a'_def)
  have a': "a' \<le> SEGMENT_PAGE_SIZE" "a' \<noteq> SEGMENT_PAGE_SIZE - 1"
    using assms(3,4) page_size_large(1)
    by (cases "a = SEGMENT_PAGE_SIZE"; simp add: a'_def)+
  have pre: "length pre = length pre div SEGMENT_PAGE_SIZE * SEGMENT_PAGE_SIZE + a'"
    using assms(2) div_mult_mod_eq [of "length pre" SEGMENT_PAGE_SIZE] by (simp add: a'_def)
  show ?thesis
    using read_enc [OF assms(1) _ pre a', of HNone rest False "[]"] same by simp
qed

end

section \<open>The layout of a segment\<close>

text \<open>
  A segment is a sequence of records and of paddings up to the end of a page; \<open>lay w n items\<close> is
  its content from position \<open>n\<close> on.
\<close>

datatype item = Rec bytes | Pad

fun lay :: "wire \<Rightarrow> nat \<Rightarrow> item list \<Rightarrow> bytes" where
  "lay w n [] = []"
| "lay w n (Rec r # items) =
     enc w (n mod SEGMENT_PAGE_SIZE) HNone r
       @ lay w (n + length (enc w (n mod SEGMENT_PAGE_SIZE) HNone r)) items"
| "lay w n (Pad # items) = page_pad n @ lay w (n + length (page_pad n)) items"

fun items_ok :: "wire \<Rightarrow> nat \<Rightarrow> item list \<Rightarrow> bool" where
  "items_ok w n [] \<longleftrightarrow> True"
| "items_ok w n (Rec r # items) \<longleftrightarrow> r \<noteq> [] \<and>
     (let n' = n + length (enc w (n mod SEGMENT_PAGE_SIZE) HNone r)
      in n' mod SEGMENT_PAGE_SIZE \<noteq> SEGMENT_PAGE_SIZE - 1 \<and> items_ok w n' items)"
| "items_ok w n (Pad # items) \<longleftrightarrow> items_ok w (n + length (page_pad n)) items"

text \<open>The records, each with the position where it ends.\<close>

fun ends :: "wire \<Rightarrow> nat \<Rightarrow> item list \<Rightarrow> (nat \<times> bytes) list" where
  "ends w n [] = []"
| "ends w n (Rec r # items) =
     (let n' = n + length (enc w (n mod SEGMENT_PAGE_SIZE) HNone r) in (n', r) # ends w n' items)"
| "ends w n (Pad # items) = ends w (n + length (page_pad n)) items"

lemma lay_append: "lay w n (is @ js) = lay w n is @ lay w (n + length (lay w n is)) js"
  by (induction w n "is" rule: lay.induct) (simp_all add: add.assoc)

lemma items_ok_append:
  "items_ok w n (is @ js) \<longleftrightarrow> items_ok w n is \<and> items_ok w (n + length (lay w n is)) js"
  by (induction w n "is" rule: lay.induct) (auto simp: add.assoc Let_def)

lemma ends_append: "ends w n (is @ js) = ends w n is @ ends w (n + length (lay w n is)) js"
  by (induction w n "is" rule: lay.induct) (simp_all add: add.assoc Let_def)

lemma page_pad_end: "(n + length (page_pad n)) mod SEGMENT_PAGE_SIZE = 0"
  using dvd_add_pad [of n] by simp

lemma page_pad_aligned: "n mod SEGMENT_PAGE_SIZE = 0 \<Longrightarrow> page_pad n = []"
  by (simp add: page_pad_def)

lemma page_pad_skip:
  assumes "n mod SEGMENT_PAGE_SIZE \<noteq> 0" and "n mod SEGMENT_PAGE_SIZE \<noteq> SEGMENT_PAGE_SIZE - 1"
  shows "n + 1 + (SEGMENT_PAGE_SIZE - (n + 1) mod SEGMENT_PAGE_SIZE) = n + length (page_pad n)"
proof -
  have "n mod SEGMENT_PAGE_SIZE + 1 < SEGMENT_PAGE_SIZE"
    using mod_less_divisor [OF page_size_pos, of n] assms(2) by linarith
  moreover have "length (replicate n ()) = n div SEGMENT_PAGE_SIZE * SEGMENT_PAGE_SIZE + n mod SEGMENT_PAGE_SIZE"
    by simp
  ultimately show ?thesis
    using pad_skip_position [of "replicate n ()" "n div SEGMENT_PAGE_SIZE" "n mod SEGMENT_PAGE_SIZE"] assms(1)
    by (simp add: page_pad_def)
qed

context wire_format begin

lemma length_enc_pos: "r \<noteq> [] \<Longrightarrow> 7 < length (enc w a ty r)"
  using chunk_len_pos [of r a] chunk_len_le [of a r] by (simp add: enc_step)

text \<open>Without records in what follows, the reader finds the end.\<close>

lemma lay_pads: "ends w n items = [] \<Longrightarrow> lay w n items = [] \<or> lay w n items = page_pad n"
proof (induction items arbitrary: n)
  case (Cons i items)
  then have i: "i = Pad" and e: "ends w (n + length (page_pad n)) items = []"
    by (cases i; simp add: Let_def)+
  from Cons.IH [OF e] page_pad_aligned [OF page_pad_end [of n]] show ?case
    by (auto simp: i)
qed simp

lemma read_end:
  assumes "ends w (length pre) items = []" and "view = Some (pre @ lay w (length pre) items)"
  shows "read_record w view (length pre) = Inr None"
proof (cases "length (pre @ lay w (length pre) items) \<le> length pre + 7")
  case True
  then show ?thesis
    by (simp add: read_record_def assms(2))
next
  case False
  let ?n = "length pre"
  let ?mm = "pre @ page_pad ?n"
  have l: "lay w ?n items = page_pad ?n"
    using lay_pads [OF assms(1)] False by auto
  have m: "?n mod SEGMENT_PAGE_SIZE \<noteq> 0" "?n mod SEGMENT_PAGE_SIZE \<noteq> SEGMENT_PAGE_SIZE - 1"
    using False l by (auto simp: page_pad_def split: if_splits)
  have z: "?mm ! ?n = 0" and lt: "?n + 7 < length ?mm"
    using False l m(1) by (auto simp: page_pad_def nth_append)
  have "read_loop w ?mm ?n False [] = Inr None"
    using read_skip [OF z lt refl, of False "[]"] by (simp only: page_pad_skip [OF m]) simp
  then show ?thesis
    using lt by (simp add: read_record_def assms(2) l)
qed

lemma read_skip_pad:
  assumes "length pre mod SEGMENT_PAGE_SIZE \<noteq> SEGMENT_PAGE_SIZE - 1"
    and long: "7 < length rest"
  shows "read_loop w (pre @ page_pad (length pre) @ rest) (length pre) False [] =
    read_loop w (pre @ page_pad (length pre) @ rest) (length pre + length (page_pad (length pre))) False []"
proof (cases "length pre mod SEGMENT_PAGE_SIZE = 0")
  case True
  then show ?thesis
    by (simp add: page_pad_aligned)
next
  case False
  let ?n = "length pre"
  let ?mm = "pre @ page_pad ?n @ rest"
  have z: "?mm ! ?n = 0"
    using False by (simp add: page_pad_def nth_append)
  have lt: "?n + 7 < length ?mm"
    using long by simp
  have "\<not> length ?mm \<le> ?n + length (page_pad ?n) + 7"
    using long by simp
  then show ?thesis
    using read_skip [OF z lt refl, of False "[]"]
    by (simp only: page_pad_skip [OF False assms(1)] simp_thms if_False)
qed

text \<open>The reader returns the first record that follows, and the position where it ends.\<close>

lemma read_loop_first:
  "\<lbrakk>items_ok w (length pre) items; length pre mod SEGMENT_PAGE_SIZE \<noteq> SEGMENT_PAGE_SIZE - 1;
    ends w (length pre) items = (e, r) # later; mm = pre @ lay w (length pre) items\<rbrakk> \<Longrightarrow>
   \<exists>js pre'. read_loop w mm (length pre) False [] = Inr (Some (r, e)) \<and> length pre + 7 < e \<and>
     e \<le> length mm \<and> mm = pre' @ lay w e js \<and> length pre' = e \<and> ends w e js = later \<and>
     items_ok w e js \<and> e mod SEGMENT_PAGE_SIZE \<noteq> SEGMENT_PAGE_SIZE - 1"
proof (induction items arbitrary: pre)
  case (Cons i items)
  show ?case
  proof (cases i)
    case (Rec r')
    let ?a = "length pre mod SEGMENT_PAGE_SIZE"
    let ?e = "enc w ?a HNone r'"
    have r: "r' = r" "r \<noteq> []" and e: "e = length pre + length ?e" and m: "later = ends w e items"
      using Cons.prems(1,3) by (auto simp: Rec Let_def)
    have v: "mm = pre @ ?e @ lay w e items"
      using Cons.prems(4) e by (simp add: Rec)
    have a: "?a \<le> SEGMENT_PAGE_SIZE"
      using mod_less_divisor [OF page_size_pos, of "length pre"] by simp
    have "read_loop w mm (length pre) False [] = Inr (Some (r', length pre + length ?e))"
      unfolding v by (rule read_loop_enc [OF _ _ a Cons.prems(2)]) (use r in simp_all)
    then have "read_loop w mm (length pre) False [] = Inr (Some (r, e))"
      using r e by simp
    moreover have "length pre + 7 < e"
      using e length_enc_pos [of r' ?a] r by simp
    moreover have "items_ok w e items" "e mod SEGMENT_PAGE_SIZE \<noteq> SEGMENT_PAGE_SIZE - 1"
      using Cons.prems(1) e by (simp_all add: Rec Let_def)
    moreover have "mm = (pre @ ?e) @ lay w e items" "length (pre @ ?e) = e"
      using v e by simp_all
    ultimately show ?thesis
      using m e by (intro exI [of _ items] exI [of _ "pre @ ?e"]) simp
  next
    case Pad
    let ?n = "length pre"
    let ?pre = "pre @ page_pad ?n"
    have l: "length ?pre = ?n + length (page_pad ?n)" by simp
    have al: "length ?pre mod SEGMENT_PAGE_SIZE \<noteq> SEGMENT_PAGE_SIZE - 1"
      using page_pad_end [of ?n] page_size_large(1) l by simp
    have v: "mm = ?pre @ lay w (length ?pre) items"
      using Cons.prems(4) by (simp add: Pad)
    have en: "ends w (length ?pre) items = (e, r) # later" and ok: "items_ok w (length ?pre) items"
      using Cons.prems(1,3) by (simp_all add: Pad)
    obtain js pre' where IH: "read_loop w mm (length ?pre) False [] = Inr (Some (r, e))"
        "length ?pre + 7 < e" "e \<le> length mm" "mm = pre' @ lay w e js" "length pre' = e"
        "ends w e js = later" "items_ok w e js" "e mod SEGMENT_PAGE_SIZE \<noteq> SEGMENT_PAGE_SIZE - 1"
      using Cons.IH [OF ok al en v] by blast
    have long: "7 < length (lay w (length ?pre) items)"
      using IH(2,3) arg_cong [OF v, of length] unfolding length_append by linarith
    have v': "mm = pre @ page_pad ?n @ lay w (length ?pre) items"
      using v by simp
    have "read_loop w mm ?n False [] = Inr (Some (r, e))"
      using read_skip_pad [OF Cons.prems(2) long] IH(1)
      unfolding length_append v' [unfolded length_append, symmetric] by simp
    then show ?thesis
      using IH l by (intro exI [of _ js] exI [of _ pre']) simp
  qed
qed simp

lemma read_first:
  assumes "items_ok w (length pre) items" "length pre mod SEGMENT_PAGE_SIZE \<noteq> SEGMENT_PAGE_SIZE - 1"
    and "ends w (length pre) items = (e, r) # later" and mm: "mm = pre @ lay w (length pre) items"
  obtains js pre' where "read_record w (Some mm) (length pre) = Inr (Some (r, e - length pre))"
    "length pre + 7 < e" "e \<le> length mm" "mm = pre' @ lay w e js" "length pre' = e"
    "ends w e js = later" "items_ok w e js" "e mod SEGMENT_PAGE_SIZE \<noteq> SEGMENT_PAGE_SIZE - 1"
proof -
  obtain js pre' where a: "read_loop w mm (length pre) False [] = Inr (Some (r, e))"
    "length pre + 7 < e" "e \<le> length mm" "mm = pre' @ lay w e js" "length pre' = e"
    "ends w e js = later" "items_ok w e js" "e mod SEGMENT_PAGE_SIZE \<noteq> SEGMENT_PAGE_SIZE - 1"
    using read_loop_first [OF assms] by blast
  have "read_record w (Some mm) (length pre) = Inr (Some (r, e - length pre))"
    using a(1-3) by (simp add: read_record_def)
  with a show ?thesis by (intro that) simp_all
qed

end

end
