(* ===== verification/Wal.thy ===== *)
theory Wal
  imports Segment_Read
begin

text \<open>
  The write-ahead log, \<open>Wal\<close> and \<open>SegmentCreator\<close> of \<open>src/src/wal.rs\<close> and \<open>WalReader\<close> of
  \<open>src/src/wal/reader.rs\<close>: a directory of segment files named by their number in hexadecimal, of
  which the last is open for appending.

  A directory is the list of its entries in the order \<open>read_dir\<close> returns them. \<open>wal_files\<close> holds
  the entries other than the open segment, whose content is in the segment itself; \<open>wal_dir\<close> puts
  the two together. Locks are not modelled: every operation holds the lock of the open segment from
  beginning to end, so operations of several threads are one after the other.
\<close>

section \<open>File names\<close>

definition hex_digit :: "nat \<Rightarrow> char" where
  "hex_digit d = ''0123456789ABCDEF'' ! d"

fun hex_string :: "nat \<Rightarrow> string" where
  "hex_string n = (if n < 16 then [hex_digit n] else hex_string (n div 16) @ [hex_digit (n mod 16)])"

declare hex_string.simps [simp del]

text \<open>\<open>format!("{:08X}", segno)\<close>.\<close>

definition segno_to_name :: "nat \<Rightarrow> string" where
  "segno_to_name n =
     (let h = hex_string n in replicate (8 - length h) (CHR ''0'') @ h)"

definition hex_value :: "char \<Rightarrow> nat option" where
  "hex_value c =
     (let n = of_char c :: nat
      in if 48 \<le> n \<and> n \<le> 57 then Some (n - 48)
         else if 65 \<le> n \<and> n \<le> 70 then Some (n - 55)
         else if 97 \<le> n \<and> n \<le> 102 then Some (n - 87) else None)"

text \<open>
  \<open>u32::from_str_radix(s, 16)\<close>: an optional plus sign, at least one digit, no overflow.
\<close>

fun hex_digits_value :: "nat \<Rightarrow> string \<Rightarrow> nat option" where
  "hex_digits_value acc [] = Some acc"
| "hex_digits_value acc (c # cs) =
     (case hex_value c of
        None \<Rightarrow> None
      | Some d \<Rightarrow> if 16 * acc + d < 2 ^ 32 then hex_digits_value (16 * acc + d) cs else None)"

definition from_str_radix16 :: "string \<Rightarrow> nat option" where
  "from_str_radix16 s =
     (let digits = (case s of [] \<Rightarrow> [] | c # cs \<Rightarrow> if c = CHR ''+'' then cs else c # cs)
      in if digits = [] then None else hex_digits_value 0 digits)"

definition filename_to_segno :: "string \<Rightarrow> nat res" where
  "filename_to_segno name =
     (case from_str_radix16 name of
        Some n \<Rightarrow> Inr n
      | None \<Rightarrow> Inl (Err (WrongObjectType ''unexpected segment in wal directory'')))"

section \<open>Directories\<close>

datatype dir_entry = RegularFile bytes | OtherObject

type_synonym directory = "(string \<times> dir_entry) list"

datatype path_object = Missing | NotADirectory | Directory directory

fun dir_set :: "string \<Rightarrow> bytes \<Rightarrow> directory \<Rightarrow> directory" where
  "dir_set name content [] = [(name, RegularFile content)]"
| "dir_set name content ((n, e) # dir) =
     (if n = name then (n, RegularFile content) # dir else (n, e) # dir_set name content dir)"

definition dir_file :: "directory \<Rightarrow> string \<Rightarrow> bytes option" where
  "dir_file dir name =
     (case map_of dir name of Some (RegularFile content) \<Rightarrow> Some content | _ \<Rightarrow> None)"

section \<open>Segment creator\<close>

record segment_creator =
  last_segno :: nat
  sc_capacity :: nat
  sc_sync_method :: wal_sync_method

definition creator_open_segment :: "segment_creator \<Rightarrow> directory \<Rightarrow> nat \<Rightarrow> segment res" where
  "creator_open_segment sc dir no =
     segment_open no (dir_file dir (segno_to_name no)) (sc_capacity sc) (sc_sync_method sc)"

definition next_segment ::
  "segment_creator \<Rightarrow> directory \<Rightarrow> (segment \<times> segment_creator) res" where
  "next_segment sc dir =
     (let sc' = sc\<lparr>last_segno := last_segno sc + 1\<rparr>
      in res_bind (segment_create (last_segno sc') (dir_file dir (segno_to_name (last_segno sc')))
             (sc_capacity sc') (sc_sync_method sc'))
           (\<lambda>seg. Inr (seg, sc')))"

section \<open>The log\<close>

record wal_options =
  segment_capacity :: nat
  wal_sync_method :: wal_sync_method

definition wal_options_default :: wal_options where
  "wal_options_default = \<lparr>segment_capacity = 16 * 1024 * 1024, wal_sync_method = SyncData\<rparr>"

record wal =
  wal_files :: directory
  wal_capacity :: nat
  creator :: segment_creator
  open_segment :: segment

definition wal_dir :: "wal \<Rightarrow> directory" where
  "wal_dir wal =
     dir_set (segno_to_name (segno (open_segment wal))) (seg_file (open_segment wal)) (wal_files wal)"

fun scan_segments :: "directory \<Rightarrow> nat \<Rightarrow> nat res" where
  "scan_segments [] last_no = Inr last_no"
| "scan_segments ((name, e) # dir) last_no =
     (case e of
        OtherObject \<Rightarrow> Inl (Err (WrongObjectType ''unexpected segment in wal directory''))
      | RegularFile content \<Rightarrow>
          res_bind (filename_to_segno name) (\<lambda>no.
            scan_segments dir (if last_no < no then no else last_no)))"

definition wal_open :: "path_object \<Rightarrow> wal_options \<Rightarrow> wal res" where
  "wal_open path options =
     res_bind (case path of
          Missing \<Rightarrow> Inr []
        | NotADirectory \<Rightarrow> Inl (Err (WrongObjectType ''exists but is not a directory''))
        | Directory dir \<Rightarrow> Inr dir) (\<lambda>dir.
     res_bind (scan_segments dir 0) (\<lambda>last_no.
     let sc = \<lparr>last_segno = last_no, sc_capacity = segment_capacity options,
               sc_sync_method = wal_sync_method options\<rparr>
     in res_bind (if last_no = 0 then next_segment sc dir
                  else res_bind (creator_open_segment sc dir last_no) (\<lambda>seg. Inr (seg, sc)))
          (\<lambda>(seg, sc').
             Inr \<lparr>wal_files = dir, wal_capacity = segment_capacity options, creator = sc',
               open_segment = seg\<rparr>)))"

text \<open>
  The head of \<open>append\<close> and \<open>append_all\<close>: when the record does not fit, what is dirty is flushed and
  the next segment becomes the open one.
\<close>

definition wal_room :: "wal \<Rightarrow> nat \<Rightarrow> wal res" where
  "wal_room wal len =
     res_bind (sufficient_capacity (open_segment wal) len) (\<lambda>ok.
       if ok then Inr wal
       else let seg = (if dirty (open_segment wal) then flush_page True (open_segment wal)
                       else open_segment wal);
                dir = wal_dir (wal\<lparr>open_segment := seg\<rparr>)
            in res_bind (next_segment (creator wal) dir) (\<lambda>(seg', sc').
                 Inr (wal\<lparr>wal_files := dir, creator := sc', open_segment := seg'\<rparr>)))"

definition wal_append :: "wire \<Rightarrow> bytes \<Rightarrow> wal \<Rightarrow> ((log_pointer \<times> log_pointer) \<times> wal) res" where
  "wal_append w r wal =
     res_bind (wal_room wal (length r)) (\<lambda>wal1.
       let start_pos = current_lsn (open_segment wal1)
       in res_bind (append w r (open_segment wal1)) (\<lambda>(p, seg).
            case p of
              Some end_pos \<Rightarrow> Inr ((start_pos, end_pos), wal1\<lparr>open_segment := seg\<rparr>)
            | None \<Rightarrow> Inl (Panic ''internal error: entered unreachable code'')))"

fun wal_append_all :: "wire \<Rightarrow> bytes list \<Rightarrow> wal \<Rightarrow> wal res" where
  "wal_append_all w [] wal = Inr wal"
| "wal_append_all w (r # rs) wal =
     res_bind (wal_room wal (length r)) (\<lambda>wal1.
     res_bind (append w r (open_segment wal1)) (\<lambda>(p, seg).
       wal_append_all w rs (wal1\<lparr>open_segment := seg\<rparr>)))"

definition wal_flush :: "log_pointer option \<Rightarrow> wal \<Rightarrow> wal" where
  "wal_flush lsn wal =
     (case lsn of
        Some l \<Rightarrow>
          if l \<le> flushed_lsn (open_segment wal) then wal
          else wal\<lparr>open_segment := flush_page False (open_segment wal)\<rparr>
      | None \<Rightarrow> wal\<lparr>open_segment := flush_page False (open_segment wal)\<rparr>)"

definition wal_current_lsn :: "wal \<Rightarrow> log_pointer" where
  "wal_current_lsn wal = current_lsn (open_segment wal)"

section \<open>The reader\<close>

record wal_reader =
  start_segno :: nat
  start_pos :: log_pointer
  rd_capacity :: nat
  segments :: "segment_view list"

fun collect_segments ::
  "directory \<Rightarrow> nat \<Rightarrow> nat \<Rightarrow> nat \<Rightarrow> (nat \<times> segment_view) list
    \<Rightarrow> (nat \<times> (nat \<times> segment_view) list) res" where
  "collect_segments [] cap first_no last_no acc = Inr (last_no, acc)"
| "collect_segments ((name, e) # dir) cap first_no last_no acc =
     (case e of
        OtherObject \<Rightarrow> Inl (Err (WrongObjectType ''unexpected segment in wal directory''))
      | RegularFile content \<Rightarrow>
          res_bind (filename_to_segno name) (\<lambda>no.
            if first_no \<le> no
            then res_bind (view_open (Some content) cap) (\<lambda>view.
                   collect_segments dir cap first_no (if last_no < no then no else last_no)
                     (acc @ [(no, view)]))
            else collect_segments dir cap first_no last_no acc))"

definition reader_open :: "directory \<Rightarrow> nat \<Rightarrow> log_pointer \<Rightarrow> wal_reader res" where
  "reader_open dir cap pos =
     (if cap = 0 then Inl (Panic ''attempt to divide by zero'')
      else let first_no = pos div cap + 1
           in res_bind (collect_segments dir cap first_no first_no []) (\<lambda>(last_no, segs).
                if length segs \<noteq> last_no - first_no + 1
                then Inl (Err (WrongObjectType ''missing segments in wal directory''))
                else Inr \<lparr>start_segno = first_no, start_pos = pos, rd_capacity = cap,
                       segments = map snd (sort_key fst segs)\<rparr>))"

definition wal_get_reader :: "log_pointer \<Rightarrow> wal \<Rightarrow> wal_reader res" where
  "wal_get_reader pos wal = reader_open (wal_dir wal) (wal_capacity wal) pos"

definition pos_to_segment :: "wal_reader \<Rightarrow> log_pointer \<Rightarrow> segment_view option" where
  "pos_to_segment rd pos =
     (let no = pos div rd_capacity rd + 1
      in if no < start_segno rd then None
         else let index = no - start_segno rd
              in if length (segments rd) \<le> index then None else Some (segments rd ! index))"

lemma next_segment_offset:
  "0 < c \<Longrightarrow> (pos + c - pos mod c) mod c = (0 :: nat)"
proof -
  assume c: "0 < c"
  have "pos = pos div c * c + pos mod c" and "pos mod c < c"
    using c by simp_all
  then have "pos + c - pos mod c = pos div c * c + c"
    by linarith
  then show ?thesis by simp
qed

function reader_read_record ::
  "wire \<Rightarrow> wal_reader \<Rightarrow> log_pointer \<Rightarrow> (log_pointer \<times> bytes) option res" where
  "reader_read_record w rd pos =
     (if rd_capacity rd = 0 then Inl (Panic ''attempt to divide by zero'')
      else case pos_to_segment rd pos of
        None \<Rightarrow> Inr None
      | Some segment \<Rightarrow>
          let segment_offset = pos mod rd_capacity rd
          in (case read_record w segment segment_offset of
                Inl e \<Rightarrow> Inl e
              | Inr (Some (recbuf, len)) \<Rightarrow> Inr (Some (pos + len, recbuf))
              | Inr None \<Rightarrow>
                  if segment_offset = 0 then Inr None
                  else reader_read_record w rd (pos + (rd_capacity rd - segment_offset))))"
  by pat_completeness auto

termination
  by (relation "measure (\<lambda>(w, rd, pos). pos mod rd_capacity rd)") (simp_all add: next_segment_offset)

declare reader_read_record.simps [simp del]

text \<open>The iterator: its state is the next position.\<close>

definition reader_next ::
  "wire \<Rightarrow> wal_reader \<Rightarrow> log_pointer \<Rightarrow> (log_pointer \<times> bytes) res option \<times> log_pointer" where
  "reader_next w rd next_pos =
     (case reader_read_record w rd next_pos of
        Inl e \<Rightarrow> (Some (Inl e), next_pos)
      | Inr None \<Rightarrow> (None, next_pos)
      | Inr (Some (new_pos, recbuf)) \<Rightarrow> (Some (Inr (new_pos, recbuf)), new_pos))"

section \<open>Records\<close>

text \<open>
  \<open>bincode\<close> turns a \<open>FullLogRecord\<close>, a transaction id and a payload, into bytes and back.
\<close>

record 'k log_codec =
  ser_full :: "timestamp \<Rightarrow> 'k log_record \<Rightarrow> bytes"
  de_full :: "bytes \<Rightarrow> (timestamp \<times> 'k log_record) option"

definition get_full_record :: "'k log_codec \<Rightarrow> timestamp \<Rightarrow> 'k log_record \<Rightarrow> bytes" where
  "get_full_record lc xid rec = ser_full lc xid rec"

definition wal_append_record ::
  "wire \<Rightarrow> 'k log_codec \<Rightarrow> timestamp \<Rightarrow> 'k log_record \<Rightarrow> wal
    \<Rightarrow> ((log_pointer \<times> log_pointer) \<times> wal) res" where
  "wal_append_record w lc xid rec wal = wal_append w (get_full_record lc xid rec) wal"

definition is_invalid_lsn :: "log_pointer \<Rightarrow> bool" where
  "is_invalid_lsn lsn \<longleftrightarrow> lsn = 0"

definition read_checkpoint_record ::
  "wire \<Rightarrow> 'k log_codec \<Rightarrow> log_pointer \<Rightarrow> wal \<Rightarrow> 'k checkpoint_log option res" where
  "read_checkpoint_record w lc pos wal =
     (if \<not> is_invalid_lsn pos
      then res_bind (wal_get_reader pos wal) (\<lambda>reader.
           res_bind (reader_read_record w reader pos) (\<lambda>found.
             case found of
               None \<Rightarrow> Inl (Err (DataCorrupted ''cannot load the checkpoint log record''))
             | Some (_, recbuf) \<Rightarrow>
                 (case de_full lc recbuf of
                    Some (_, WalCheckpoint ckpt_log) \<Rightarrow> Inr (Some ckpt_log)
                  | Some _ \<Rightarrow> Inl (Err (DataCorrupted
                      ''last checkpoint pos points to non checkpoint record''))
                  | None \<Rightarrow> Inl (Err (DataCorrupted
                      ''cannot deserialize the checkpoint log record'')))))
      else Inr None)"

section \<open>File names and numbers\<close>

lemma hex_value_digit: "d < 16 \<Longrightarrow> hex_value (hex_digit d) = Some d"
proof -
  assume "d < 16"
  then have "d \<in> set [0..<16]" by simp
  moreover have "\<forall>d\<in>set [0..<16]. hex_value (hex_digit d) = Some d"
    by code_simp
  ultimately show ?thesis by blast
qed

lemma hex_digit_not_plus: "d < 16 \<Longrightarrow> hex_digit d \<noteq> CHR ''+''"
proof -
  assume "d < 16"
  then have "d \<in> set [0..<16]" by simp
  moreover have "\<forall>d\<in>set [0..<16]. hex_digit d \<noteq> CHR ''+''"
    by code_simp
  ultimately show ?thesis by blast
qed

lemma hex_digits_value_append:
  "hex_digits_value acc (cs @ ds) =
     (case hex_digits_value acc cs of None \<Rightarrow> None | Some a \<Rightarrow> hex_digits_value a ds)"
  by (induction cs arbitrary: acc) (auto split: option.splits)

lemma hex_string_value: "n < 2 ^ 32 \<Longrightarrow> hex_digits_value 0 (hex_string n) = Some n"
proof (induction n rule: hex_string.induct)
  case (1 n)
  show ?case
  proof (cases "n < 16")
    case True
    with 1(2) show ?thesis by (simp add: hex_string.simps hex_value_digit)
  next
    case False
    have small: "n div 16 < 2 ^ 32"
      using 1(2) div_le_dividend [of n 16] by linarith
    have "16 * (n div 16) + n mod 16 = n"
      using mult_div_mod_eq [of 16 n] by simp
    with False 1(2) show ?thesis
      by (simp add: hex_string.simps [of n] hex_digits_value_append 1(1) [OF False small] hex_value_digit)
  qed
qed

lemma hex_digits_value_zeros: "hex_digits_value 0 (replicate k (CHR ''0'') @ cs) = hex_digits_value 0 cs"
  by (induction k) (simp_all add: hex_value_def)

lemma hd_hex_string: "hex_string n \<noteq> [] \<and> hd (hex_string n) \<noteq> CHR ''+''"
proof (induction n rule: hex_string.induct)
  case (1 n)
  then show ?case
    by (cases "n < 16") (simp_all add: hex_string.simps [of n] hex_digit_not_plus)
qed

lemma segno_name_roundtrip:
  assumes "n < 2 ^ 32"
  shows "filename_to_segno (segno_to_name n) = Inr n"
proof -
  let ?s = "segno_to_name n"
  have v: "hex_digits_value 0 ?s = Some n"
    by (simp add: segno_to_name_def Let_def hex_digits_value_zeros hex_string_value [OF assms])
  have "?s \<noteq> []" "hd ?s \<noteq> CHR ''+''"
    using hd_hex_string [of n] by (auto simp: segno_to_name_def Let_def hd_append)
  then obtain c cs where "?s = c # cs" "c \<noteq> CHR ''+''"
    by (cases ?s) auto
  then show ?thesis
    using v by (simp add: filename_to_segno_def from_str_radix16_def)
qed

lemma segno_to_name_inj:
  "m < 2 ^ 32 \<Longrightarrow> n < 2 ^ 32 \<Longrightarrow> segno_to_name m = segno_to_name n \<longleftrightarrow> m = n"
  by (metis segno_name_roundtrip sum.inject(2))

end
