(* ===== verification/Wal_Replay.thy ===== *)
theory Wal_Replay
  imports Wal "HOL-Library.Multiset"
begin

text \<open>
  What the log promises: a reader that starts at position 0 returns the appended records, in order
  and with the end positions \<open>append\<close> returned, whatever order the directory lists its files in.
  Two things can go wrong in the code and are conditions of the theorem: a record that ends one byte
  before the end of a page hides its successor from the reader, and a record that is let into a
  segment it does not fit makes the file larger than the reader accepts.
\<close>

section \<open>The reader on a laid out log\<close>

definition view_of :: "bytes \<Rightarrow> segment_view" where
  "view_of c = (if length c = 0 then None else Some c)"

definition reader_on :: "wire \<Rightarrow> nat \<Rightarrow> item list list \<Rightarrow> wal_reader" where
  "reader_on w cap segs =
     \<lparr>start_segno = 1, start_pos = 0, rd_capacity = cap,
      segments = map (\<lambda>items. view_of (lay w 0 items)) segs\<rparr>"

fun shift_ends :: "nat \<Rightarrow> (nat \<times> bytes) list \<Rightarrow> (log_pointer \<times> bytes) list" where
  "shift_ends k [] = []"
| "shift_ends k ((e, r) # es) = (k + e, r) # shift_ends k es"

lemma shift_ends_append [simp]: "shift_ends k (xs @ ys) = shift_ends k xs @ shift_ends k ys"
  by (induction k xs rule: shift_ends.induct) simp_all

lemma shift_ends_Nil_iff [simp]: "shift_ends k xs = [] \<longleftrightarrow> xs = []"
  by (cases xs) auto

text \<open>The records of a log whose first segment has index \<open>i\<close>, with their end positions.\<close>

fun log_ends :: "wire \<Rightarrow> nat \<Rightarrow> nat \<Rightarrow> item list list \<Rightarrow> (log_pointer \<times> bytes) list" where
  "log_ends w cap i [] = []"
| "log_ends w cap i (items # segs) =
     shift_ends (i * cap) (ends w 0 items) @ log_ends w cap (Suc i) segs"

lemma log_ends_append:
  "log_ends w cap i (xs @ ys) = log_ends w cap i xs @ log_ends w cap (i + length xs) ys"
  by (induction xs arbitrary: i) simp_all

definition log_shape :: "wire \<Rightarrow> nat \<Rightarrow> item list list \<Rightarrow> bool" where
  "log_shape w cap segs \<longleftrightarrow>
     SEGMENT_PAGE_SIZE dvd cap \<and> 7 < cap \<and>
     (\<forall>items\<in>set segs. items_ok w 0 items \<and> length (lay w 0 items) \<le> cap) \<and>
     (\<forall>items\<in>set (butlast segs). ends w 0 items \<noteq> [])"

text \<open>The first \<open>n\<close> results of the iterator.\<close>

fun reader_take ::
  "wire \<Rightarrow> wal_reader \<Rightarrow> nat \<Rightarrow> log_pointer \<Rightarrow> (log_pointer \<times> bytes) res option list" where
  "reader_take w rd 0 pos = []"
| "reader_take w rd (Suc n) pos =
     (let (x, pos') = reader_next w rd pos in x # reader_take w rd n pos')"

context wire_format begin

lemma div_mod_segment:
  "off < cap \<Longrightarrow> (i * cap + off) div cap = i \<and> (i * cap + off) mod cap = (off :: nat)"
  by simp

lemma read_beyond:
  assumes "0 < cap" and "length segs \<le> i"
  shows "reader_read_record w (reader_on w cap segs) (i * cap) = Inr None"
  using assms by (subst reader_read_record.simps)
    (simp add: reader_on_def pos_to_segment_def)

lemma read_in_segment:
  assumes "off < cap" and "i < length segs"
  shows "reader_read_record w (reader_on w cap segs) (i * cap + off) =
    (case read_record w (view_of (lay w 0 (segs ! i))) off of
       Inl e \<Rightarrow> Inl e
     | Inr (Some (recbuf, len)) \<Rightarrow> Inr (Some (i * cap + off + len, recbuf))
     | Inr None \<Rightarrow> if off = 0 then Inr None
         else reader_read_record w (reader_on w cap segs) (Suc i * cap))"
proof -
  have e: "i * cap + off + (cap - off) = Suc i * cap"
    using assms(1) by simp
  have c: "cap \<noteq> 0" using assms(1) by simp
  show ?thesis
    using assms c by (subst reader_read_record.simps)
      (simp only: reader_on_def pos_to_segment_def wal_reader.simps Let_def div_mod_segment
        [OF assms(1)] length_map nth_map e, simp)
qed

lemma read_step_end:
  assumes "7 < cap" and i: "i < length segs" and c: "lay w 0 (segs ! i) = pre @ lay w (length pre) js"
    and none: "ends w (length pre) js = []" and le: "length pre \<le> cap" and pos: "pre \<noteq> [] \<or> i = length segs - 1"
  shows "reader_read_record w (reader_on w cap segs) (i * cap + length pre) =
    (if pre = [] then Inr None else reader_read_record w (reader_on w cap segs) (Suc i * cap))"
proof (cases "length pre = cap")
  case True
  then show ?thesis using assms(1) by (auto simp: add.commute)
next
  case False
  with le have lt: "length pre < cap" by simp
  have "read_record w (view_of (lay w 0 (segs ! i))) (length pre) = Inr None"
  proof (cases "lay w 0 (segs ! i) = []")
    case True
    then show ?thesis by (simp add: view_of_def read_record_def)
  next
    case False
    then have "view_of (lay w 0 (segs ! i)) = Some (pre @ lay w (length pre) js)"
      using c by (simp add: view_of_def)
    from read_end [OF none this] show ?thesis .
  qed
  then show ?thesis
    using read_in_segment [OF lt i] by simp
qed

lemma read_step_record:
  assumes i: "i < length segs" and c: "lay w 0 (segs ! i) = pre @ lay w (length pre) js"
    and ok: "items_ok w (length pre) js" "length pre mod SEGMENT_PAGE_SIZE \<noteq> SEGMENT_PAGE_SIZE - 1"
    and en: "ends w (length pre) js = (e, r) # later" and le: "length (lay w 0 (segs ! i)) \<le> cap"
  obtains js' pre' where
    "reader_read_record w (reader_on w cap segs) (i * cap + length pre) = Inr (Some (i * cap + e, r))"
    "lay w 0 (segs ! i) = pre' @ lay w e js'" "length pre' = e" "ends w e js' = later"
    "items_ok w e js'" "e mod SEGMENT_PAGE_SIZE \<noteq> SEGMENT_PAGE_SIZE - 1" "e \<le> cap" "0 < e"
proof -
  obtain js' pre' where rf: "read_record w (Some (lay w 0 (segs ! i))) (length pre)
        = Inr (Some (r, e - length pre))"
      "length pre + 7 < e" "e \<le> length (lay w 0 (segs ! i))" "lay w 0 (segs ! i) = pre' @ lay w e js'"
      "length pre' = e" "ends w e js' = later" "items_ok w e js'"
      "e mod SEGMENT_PAGE_SIZE \<noteq> SEGMENT_PAGE_SIZE - 1"
    by (rule read_first [OF ok en c])
  have lt: "length pre < cap" and ne: "view_of (lay w 0 (segs ! i)) = Some (lay w 0 (segs ! i))"
    using rf(2,3) le by (auto simp: view_of_def)
  have "reader_read_record w (reader_on w cap segs) (i * cap + length pre) = Inr (Some (i * cap + e, r))"
    using read_in_segment [OF lt i] rf(1,2) by (simp add: ne)
  then show ?thesis
    using that rf le by simp
qed

lemma nth_butlast_ends:
  "log_shape w cap segs \<Longrightarrow> Suc i < length segs \<Longrightarrow> ends w 0 (segs ! i) \<noteq> []"
  unfolding log_shape_def using nth_mem [of i "butlast segs"] by (auto simp: nth_butlast)

text \<open>From any position between two records on, the iterator returns the rest of the log.\<close>

lemma replay_from:
  assumes shape: "log_shape w cap segs"
  shows "\<lbrakk>i < length segs; lay w 0 (segs ! i) = pre @ lay w (length pre) js;
    items_ok w (length pre) js; length pre mod SEGMENT_PAGE_SIZE \<noteq> SEGMENT_PAGE_SIZE - 1;
    length pre \<le> cap; pre = [] \<longrightarrow> js = segs ! i;
    shift_ends (i * cap) (ends w (length pre) js) @ log_ends w cap (Suc i) (drop (Suc i) segs) = log\<rbrakk> \<Longrightarrow>
    reader_take w (reader_on w cap segs) (Suc (length log)) (i * cap + length pre) =
      map (\<lambda>x. Some (Inr x)) log @ [None]"
proof (induction log arbitrary: i pre js)
  case Nil
  let ?rd = "reader_on w cap segs"
  have cap: "7 < cap" "0 < cap" using shape by (auto simp: log_shape_def)
  have none: "ends w (length pre) js = []" using Nil.prems(7) by simp
  have later: "log_ends w cap (Suc i) (drop (Suc i) segs) = []" using Nil.prems(7) by simp
  have "reader_read_record w ?rd (i * cap + length pre) = Inr None"
  proof (cases "pre = []")
    case True
    then have "i = length segs - 1"
      using none Nil.prems(1,6) nth_butlast_ends [OF shape, of i] by force
    with read_step_end [OF cap(1) Nil.prems(1,2) none Nil.prems(5)] True show ?thesis by simp
  next
    case False
    have "reader_read_record w ?rd (Suc i * cap) = Inr None"
    proof (cases "Suc i < length segs")
      case True
      then have d: "drop (Suc i) segs = segs ! Suc i # drop (Suc (Suc i)) segs"
        by (rule Cons_nth_drop_Suc [symmetric])
      have e: "ends w 0 (segs ! Suc i) = []" using later unfolding d by simp
      then have "Suc i = length segs - 1"
        using True nth_butlast_ends [OF shape, of "Suc i"] by fastforce
      with read_step_end [OF cap(1) True, of "[]" "segs ! Suc i"] e show ?thesis by simp
    next
      case False
      then show ?thesis using read_beyond [OF cap(2), of segs "Suc i"] by simp
    qed
    then show ?thesis
      using read_step_end [OF cap(1) Nil.prems(1,2) none Nil.prems(5)] False by simp
  qed
  then show ?case by (simp add: reader_next_def)
next
  case (Cons x log)
  let ?rd = "reader_on w cap segs"
  have cap: "7 < cap" "0 < cap" using shape by (auto simp: log_shape_def)
  have seg: "items_ok w 0 (segs ! j)" "length (lay w 0 (segs ! j)) \<le> cap" if "j < length segs" for j
    using shape that nth_mem [of j segs] by (auto simp: log_shape_def)
  have found: ?case
    if j: "j < length segs" and c: "lay w 0 (segs ! j) = q @ lay w (length q) ks"
      and ok: "items_ok w (length q) ks" "length q mod SEGMENT_PAGE_SIZE \<noteq> SEGMENT_PAGE_SIZE - 1"
      and eq: "reader_read_record w ?rd (i * cap + length pre) = reader_read_record w ?rd (j * cap + length q)"
      and en: "ends w (length q) ks = (e, r) # later"
      and log: "x # log = shift_ends (j * cap) (ends w (length q) ks) @ log_ends w cap (Suc j) (drop (Suc j) segs)"
    for j q ks e r later
  proof -
    obtain js' pre' where st: "reader_read_record w ?rd (j * cap + length q) = Inr (Some (j * cap + e, r))"
        "lay w 0 (segs ! j) = pre' @ lay w e js'" "length pre' = e" "ends w e js' = later"
        "items_ok w e js'" "e mod SEGMENT_PAGE_SIZE \<noteq> SEGMENT_PAGE_SIZE - 1" "e \<le> cap" "0 < e"
      by (rule read_step_record [OF j c ok en seg(2) [OF j]])
    have x: "x = (j * cap + e, r)"
      and rest: "shift_ends (j * cap) later @ log_ends w cap (Suc j) (drop (Suc j) segs) = log"
      using log en by simp_all
    have "reader_take w ?rd (Suc (length log)) (j * cap + length pre') =
        map (\<lambda>x. Some (Inr x)) log @ [None]"
      by (rule Cons.IH [where js = js']) (use st j rest in auto)
    then show ?case
      using eq st(1,3) by (simp add: reader_next_def x)
  qed
  show ?case
  proof (cases "ends w (length pre) js")
    case (Cons y later)
    obtain e r where y: "y = (e, r)" by (cases y)
    show ?thesis
      by (rule found [OF Cons.prems(1,2,3,4) refl Cons [unfolded y]]) (use Cons.prems(7) in simp)
  next
    case Nil
    have suc: "Suc i < length segs"
    proof (rule ccontr)
      assume "\<not> Suc i < length segs"
      then have "drop (Suc i) segs = []" by simp
      then show False using Cons.prems(7) Nil by simp
    qed
    then have d: "drop (Suc i) segs = segs ! Suc i # drop (Suc (Suc i)) segs"
      by (rule Cons_nth_drop_Suc [symmetric])
    have pre: "pre \<noteq> []"
      using Nil Cons.prems(6) nth_butlast_ends [OF shape suc] by auto
    have eq: "reader_read_record w ?rd (i * cap + length pre) = reader_read_record w ?rd (Suc i * cap + length ([] :: bytes))"
      using read_step_end [OF cap(1) Cons.prems(1,2) Nil Cons.prems(5)] pre by simp
    have log: "x # log = shift_ends (Suc i * cap) (ends w (length ([] :: bytes)) (segs ! Suc i))
        @ log_ends w cap (Suc (Suc i)) (drop (Suc (Suc i)) segs)"
      using Cons.prems(7) Nil unfolding d by simp
    have "ends w 0 (segs ! Suc i) \<noteq> []"
    proof
      assume e: "ends w 0 (segs ! Suc i) = []"
      then have "\<not> Suc (Suc i) < length segs"
        using nth_butlast_ends [OF shape, of "Suc i"] by blast
      then show False using log e by simp
    qed
    then obtain e r later where en: "ends w (length ([] :: bytes)) (segs ! Suc i) = (e, r) # later"
      by (cases "ends w 0 (segs ! Suc i)") auto
    show ?thesis
      by (rule found [OF suc _ _ _ eq en log]) (use seg [OF suc] page_size_large(1) in simp_all)
  qed
qed

lemma replay_all:
  assumes "log_shape w cap segs" and "segs \<noteq> []"
  shows "reader_take w (reader_on w cap segs) (Suc (length (log_ends w cap 0 segs))) 0 =
    map (\<lambda>x. Some (Inr x)) (log_ends w cap 0 segs) @ [None]"
proof -
  obtain items rest where s: "segs = items # rest" using assms(2) by (cases segs) auto
  have ok: "items_ok w 0 items" using assms(1) by (simp add: log_shape_def s)
  have "reader_take w (reader_on w cap segs) (Suc (length (log_ends w cap 0 segs)))
      (0 * cap + length ([] :: bytes)) = map (\<lambda>x. Some (Inr x)) (log_ends w cap 0 segs) @ [None]"
    by (rule replay_from [OF assms(1), where js = items])
      (use ok page_size_large(1) in \<open>simp_all add: s\<close>)
  then show ?thesis by simp
qed

end

section \<open>Opening the reader\<close>

text \<open>The directory of a log: segment \<open>i + 1\<close> under its name.\<close>

definition dir_of :: "bytes list \<Rightarrow> directory" where
  "dir_of cs = map (\<lambda>i. (segno_to_name (Suc i), RegularFile (cs ! i))) [0..<length cs]"

lemma dir_of_snoc:
  "dir_of (cs @ [c]) = dir_of cs @ [(segno_to_name (Suc (length cs)), RegularFile c)]"
  by (simp add: dir_of_def nth_append)

lemma fst_dir_of: "n \<in> fst ` set (dir_of cs) \<longleftrightarrow> (\<exists>i<length cs. n = segno_to_name (Suc i))"
  by (auto simp: dir_of_def image_iff)

lemma dir_set_fresh: "n \<notin> fst ` set dir \<Longrightarrow> dir_set n c dir = dir @ [(n, RegularFile c)]"
  by (induction n c dir rule: dir_set.induct) auto

lemma dir_file_fresh: "n \<notin> fst ` set dir \<Longrightarrow> dir_file dir n = None"
  by (simp add: dir_file_def map_of_eq_None_iff [THEN iffD2])

definition good_entry :: "nat \<Rightarrow> string \<times> dir_entry \<Rightarrow> bool" where
  "good_entry cap x \<longleftrightarrow> (\<exists>no c. filename_to_segno (fst x) = Inr no \<and> 1 \<le> no \<and>
     snd x = RegularFile c \<and> length c \<le> cap)"

definition entry_segment :: "string \<times> dir_entry \<Rightarrow> nat \<times> segment_view" where
  "entry_segment x = (projr (filename_to_segno (fst x)),
     (case snd x of RegularFile c \<Rightarrow> view_of c | OtherObject \<Rightarrow> None))"

lemma collect_good:
  "\<lbrakk>7 < cap; \<forall>x\<in>set dir. good_entry cap x\<rbrakk> \<Longrightarrow>
     collect_segments dir cap first_no last_no acc =
       (let found = filter (\<lambda>x. first_no \<le> fst (entry_segment x)) dir
        in Inr (fold (\<lambda>x m. max m (fst (entry_segment x))) found last_no, acc @ map entry_segment found))"
proof (induction dir arbitrary: last_no acc)
  case (Cons x dir)
  obtain name e where x: "x = (name, e)" by (cases x)
  obtain no c where g: "filename_to_segno name = Inr no" "1 \<le> no" "e = RegularFile c" "length c \<le> cap"
    using Cons.prems(2) by (auto simp: good_entry_def x)
  have v: "view_open (Some c) cap = Inr (view_of c)"
    using g(4) Cons.prems(1) by (simp add: view_open_def check_capacity_def view_of_def)
  have m: "(if last_no < no then no else last_no) = max last_no no"
    by (simp add: max_def)
  have t: "\<forall>x\<in>set dir. good_entry cap x"
    using Cons.prems(2) by simp
  have es: "entry_segment (name, RegularFile c) = (no, view_of c)"
    by (simp add: entry_segment_def g)
  show ?case
    using Cons.IH [OF Cons.prems(1) t] g v m
    by (cases "first_no \<le> no") (simp_all add: x es Let_def)
qed simp

lemma fold_max:
  "fold (\<lambda>x m. max m (f x)) xs (m :: nat) = Max (insert m (f ` set xs))"
proof (induction xs arbitrary: m)
  case (Cons x xs)
  then show ?case
    by (cases "xs = []") (simp_all add: max.assoc)
qed simp

text \<open>The entries of a directory that lists the segments \<open>cs\<close>.\<close>

lemma dir_segments:
  assumes small: "length cs < 2 ^ 32" and perm: "mset dir = mset (dir_of cs)"
  shows "mset (map entry_segment dir) = mset (map (\<lambda>i. (Suc i, view_of (cs ! i))) [0..<length cs])"
    "(\<forall>c\<in>set cs. length c \<le> cap) \<Longrightarrow> \<forall>x\<in>set dir. good_entry cap x"
proof -
  have num: "filename_to_segno (segno_to_name (Suc i)) = Inr (Suc i)" if "i < length cs" for i
    using that small by (intro segno_name_roundtrip) simp
  have "map entry_segment (dir_of cs) = map (\<lambda>i. (Suc i, view_of (cs ! i))) [0..<length cs]"
    using num by (auto simp: dir_of_def entry_segment_def)
  then show "mset (map entry_segment dir) = mset (map (\<lambda>i. (Suc i, view_of (cs ! i))) [0..<length cs])"
    using perm by (metis mset_map)
  show "(\<forall>c\<in>set cs. length c \<le> cap) \<Longrightarrow> \<forall>x\<in>set dir. good_entry cap x"
    using num mset_eq_setD [OF perm] by (auto simp: dir_of_def good_entry_def)
qed

lemma filter_upt_ge: "i \<le> n \<Longrightarrow> filter (\<lambda>j. i \<le> j) [0..<n] = [i..<n]"
proof (induction n)
  case (Suc n)
  then show ?case by (cases "i \<le> n") auto
qed simp

text \<open>A reader that starts in segment \<open>i + 1\<close> opens this segment and all later ones.\<close>

lemma reader_open_at:
  assumes cap: "7 < cap" and small: "length cs < 2 ^ 32" and i: "pos div cap = i" "i < length cs"
    and fits: "\<forall>c\<in>set cs. length c \<le> cap" and perm: "mset dir = mset (dir_of cs)"
  shows "reader_open dir cap pos =
    Inr \<lparr>start_segno = Suc i, start_pos = pos, rd_capacity = cap, segments = map view_of (drop i cs)\<rparr>"
proof -
  let ?n = "length cs" and ?f = "\<lambda>j. (Suc j, view_of (cs ! j))"
  define found where "found = filter (\<lambda>x. Suc i \<le> fst (entry_segment x)) dir"
  have "map entry_segment found = filter (\<lambda>y. Suc i \<le> fst y) (map entry_segment dir)"
    by (simp add: found_def filter_map o_def)
  then have "mset (map entry_segment found) = mset (filter (\<lambda>y. Suc i \<le> fst y) (map ?f [0..<?n]))"
    using dir_segments(1) [OF small perm] by (metis mset_filter)
  then have pm: "mset (map entry_segment found) = mset (map ?f [i..<?n])"
    using i(2) by (simp add: filter_map o_def filter_upt_ge)
  have "entry_segment ` set found = ?f ` {i..<?n}"
    using mset_eq_setD [OF pm] by simp
  then have fs: "fst ` entry_segment ` set found = Suc ` {i..<?n}"
    by (simp add: image_image)
  have "insert (Suc i) (Suc ` {i..<?n}) = Suc ` {i..<?n}" using i(2) by auto
  moreover have "Max (Suc ` {i..<?n}) = ?n"
    using i(2) by (intro Max_eqI) (auto intro: image_eqI [of _ _ "?n - 1"] simp: Suc_le_eq)
  ultimately have mx: "fold (\<lambda>x m. max m (fst (entry_segment x))) found (Suc i) = ?n"
    using fold_max [of "\<lambda>x. fst (entry_segment x)" found "Suc i"] fs by (simp add: image_image)
  have "inj_on fst (set (map entry_segment found))"
    using mset_eq_setD [OF pm] by (auto simp: inj_on_def)
  then have sk: "sort_key fst (map entry_segment found) = map ?f [i..<?n]"
    by (rule sort_key_inj_key_eq [OF pm]) (simp add: sorted_map sorted_wrt_iff_nth_less)
  have len: "length found = ?n - i" using arg_cong [OF pm, of size] by simp
  have "map snd (map ?f [i..<?n]) = map view_of (drop i cs)"
    by (intro nth_equalityI) simp_all
  then show ?thesis
    using cap mx sk len i collect_good [OF cap dir_segments(2) [OF small perm fits], of "Suc i" "Suc i" "[]"]
    by (simp add: reader_open_def Let_def flip: found_def)
qed

lemma reader_open_dir:
  assumes "7 < cap" "length cs < 2 ^ 32" "cs \<noteq> []" "\<forall>c\<in>set cs. length c \<le> cap" "mset dir = mset (dir_of cs)"
  shows "reader_open dir cap 0 =
    Inr \<lparr>start_segno = 1, start_pos = 0, rd_capacity = cap, segments = map view_of cs\<rparr>"
  using reader_open_at [of cap cs 0 0 dir] assms by simp

section \<open>Appending keeps the log laid out\<close>

text \<open>
  \<open>holds_log w wal segs\<close>: the files of the log and the open segment are laid out as the items
  \<open>segs\<close>, one list for each segment, the last for the open one.
\<close>

definition holds_log :: "wire \<Rightarrow> wal \<Rightarrow> item list list \<Rightarrow> bool" where
  "holds_log w wal segs \<longleftrightarrow>
     segs \<noteq> [] \<and> log_shape w (wal_capacity wal) segs \<and>
     seg_wf (open_segment wal) \<and> stream (open_segment wal) = lay w 0 (last segs) \<and>
     segno (open_segment wal) = length segs \<and> capacity (open_segment wal) = wal_capacity wal \<and>
     last_segno (creator wal) = length segs \<and> sc_capacity (creator wal) = wal_capacity wal \<and>
     wal_files wal = dir_of (map (lay w 0) (butlast segs))"

definition synced :: "segment \<Rightarrow> bool" where
  "synced s \<longleftrightarrow> sync_method s = NoSync \<or> seg_synced s = length (seg_file s)"

lemma holds_logD:
  assumes "holds_log w wal segs"
  shows "segs \<noteq> []" "log_shape w (wal_capacity wal) segs" "seg_wf (open_segment wal)"
    "stream (open_segment wal) = lay w 0 (last segs)" "segno (open_segment wal) = length segs"
    "capacity (open_segment wal) = wal_capacity wal" "last_segno (creator wal) = length segs"
    "sc_capacity (creator wal) = wal_capacity wal"
    "wal_files wal = dir_of (map (lay w 0) (butlast segs))"
    "SEGMENT_PAGE_SIZE dvd wal_capacity wal" "7 < wal_capacity wal"
    "items_ok w 0 (last segs)" "length (lay w 0 (last segs)) \<le> wal_capacity wal"
  using assms by (auto simp: holds_log_def log_shape_def)

lemma log_shape_snoc:
  "log_shape w cap (xs @ [items]) \<longleftrightarrow> SEGMENT_PAGE_SIZE dvd cap \<and> 7 < cap \<and>
     items_ok w 0 items \<and> length (lay w 0 items) \<le> cap \<and>
     (\<forall>it\<in>set xs. items_ok w 0 it \<and> length (lay w 0 it) \<le> cap \<and> ends w 0 it \<noteq> [])"
  by (auto simp: log_shape_def)

lemma log_shape_last:
  assumes "log_shape w cap segs" "segs \<noteq> []" "items_ok w 0 items" "length (lay w 0 items) \<le> cap"
  shows "log_shape w cap (butlast segs @ [items])"
  using assms by (auto simp: log_shape_def dest: in_set_butlastD)

text \<open>The name of a segment that does not exist yet is not in the directory.\<close>

lemma name_fresh:
  assumes "length cs \<le> k" "Suc k < 2 ^ 32"
  shows "segno_to_name (Suc k) \<notin> fst ` set (dir_of cs)"
proof
  assume "segno_to_name (Suc k) \<in> fst ` set (dir_of cs)"
  then obtain i where "i < length cs" "segno_to_name (Suc k) = segno_to_name (Suc i)"
    by (auto simp: fst_dir_of)
  then show False
    using assms segno_to_name_inj [of "Suc k" "Suc i"] by simp
qed

lemma wal_dir_holds:
  assumes "holds_log w wal segs" and "length segs < 2 ^ 32"
  shows "wal_dir wal = dir_of (map (lay w 0) (butlast segs) @ [seg_file (open_segment wal)])"
proof -
  note h = holds_logD [OF assms(1)]
  obtain k where k: "length segs = Suc k"
    using h(1) by (cases "length segs") auto
  have "segno_to_name (Suc k) \<notin> fst ` set (dir_of (map (lay w 0) (butlast segs)))"
    by (rule name_fresh) (use k assms(2) in simp_all)
  then show ?thesis
    by (simp add: wal_dir_def h(5,9) k dir_set_fresh dir_of_snoc)
qed

lemma page_pad_alloc:
  assumes "seg_wf s"
  shows "page_pad (length (stream s)) =
    (if page_allocated s = 0 then [] else replicate (SEGMENT_PAGE_SIZE - page_allocated s) 0)"
proof -
  have "length (stream s) mod SEGMENT_PAGE_SIZE = page_allocated s mod SEGMENT_PAGE_SIZE"
    using assms length_stream [OF assms] by (auto simp: seg_wf_def elim!: dvdE)
  moreover have "page_allocated s \<le> SEGMENT_PAGE_SIZE"
    using assms by (simp add: seg_wf_def)
  ultimately show ?thesis
    by (cases "page_allocated s = SEGMENT_PAGE_SIZE") (auto simp: page_pad_def)
qed

lemma padded_length:
  assumes "SEGMENT_PAGE_SIZE dvd cap" "n \<le> cap"
  shows "n + length (page_pad n) \<le> cap"
proof (cases "n mod SEGMENT_PAGE_SIZE = 0")
  case False
  obtain k where k: "cap = SEGMENT_PAGE_SIZE * k" using assms(1) by (rule dvdE)
  define q where "q = n div SEGMENT_PAGE_SIZE"
  have n: "n = q * SEGMENT_PAGE_SIZE + n mod SEGMENT_PAGE_SIZE"
    by (simp add: q_def)
  have "n \<noteq> cap" using False assms(1) by auto
  with assms(2) have "n < k * SEGMENT_PAGE_SIZE" by (simp add: k mult.commute)
  then have "q < k" by (simp add: q_def less_mult_imp_div_less)
  then have "Suc q * SEGMENT_PAGE_SIZE \<le> cap" by (simp only: k mult.commute [of SEGMENT_PAGE_SIZE] mult_le_mono1 Suc_leI)
  moreover have "n + (SEGMENT_PAGE_SIZE - n mod SEGMENT_PAGE_SIZE) = Suc q * SEGMENT_PAGE_SIZE"
    using n mod_less_divisor [OF page_size_pos, of n] by simp
  ultimately show ?thesis using False by (simp add: page_pad_def)
qed (simp add: page_pad_aligned assms(2))

lemma lay_pad: "lay w 0 (items @ [Pad]) = lay w 0 items @ page_pad (length (lay w 0 items))"
  by (simp add: lay_append)

lemma flush_pads:
  assumes "seg_wf s" and "stream s = lay w 0 items" and "force \<longrightarrow> dirty s"
  shows "stream (flush_page force s) = lay w 0 items \<or>
    stream (flush_page force s) = lay w 0 (items @ [Pad])"
proof (cases "flush_resets force s")
  case True
  have "page_allocated s \<noteq> 0"
    using True assms(1,3) page_size_large(1) by (auto simp: flush_resets_def dirty_def seg_wf_def)
  then show ?thesis
    using True flush_page_parts [OF assms(1), of force] page_pad_alloc [OF assms(1)] assms(2)
    by (simp add: lay_pad)
qed (use flush_page_parts [OF assms(1), of force] assms(2) in simp)

lemma ends_pad [simp]: "ends w 0 (items @ [Pad]) = ends w 0 items"
  by (simp add: ends_append)

lemma items_ok_pad [simp]: "items_ok w 0 (items @ [Pad]) = items_ok w 0 items"
  by (simp add: items_ok_append)

lemma wal_flush_holds:
  assumes h: "holds_log w wal segs"
  obtains segs' where "holds_log w (wal_flush lsn wal) segs'" "length segs' = length segs"
    "log_ends w cap 0 segs' = log_ends w cap 0 segs"
proof -
  note d = holds_logD [OF h]
  define s where "s = open_segment wal"
  have st: "stream s = lay w 0 (last segs)" and wf: "seg_wf s"
    using d(3,4) by (simp_all add: s_def)
  have pad: "items_ok w 0 (last segs @ [Pad])" "length (lay w 0 (last segs @ [Pad])) \<le> wal_capacity wal"
    using d(12) padded_length [OF d(10,13)] by (simp_all add: lay_pad)
  obtain items where it: "stream (flush_page False s) = lay w 0 items" "items_ok w 0 items"
    "length (lay w 0 items) \<le> wal_capacity wal" "ends w 0 items = ends w 0 (last segs)"
    using flush_pads [OF wf st, of False] d(12,13) pad ends_pad by blast
  let ?segs = "butlast segs @ [items]"
  have "segs = butlast segs @ [last segs]"
    using d(1) by simp
  then have e: "log_ends w cap 0 ?segs = log_ends w cap 0 segs"
    using it(4) by (metis log_ends.simps log_ends_append)
  have hs: "holds_log w (wal\<lparr>open_segment := flush_page False s\<rparr>) ?segs"
    using d it(1) flush_page_wf [OF wf, of False] log_shape_last [OF d(2,1) it(2,3)]
    by (simp add: holds_log_def s_def)
  have len: "length ?segs = length segs"
    using d(1) by simp
  show ?thesis
  proof (cases "wal_flush lsn wal = wal")
    case True
    then show ?thesis using that [of segs] h by simp
  next
    case False
    then have "wal_flush lsn wal = wal\<lparr>open_segment := flush_page False s\<rparr>"
      by (auto simp: wal_flush_def s_def split: option.splits if_splits)
    then show ?thesis using that [of ?segs] hs e len by simp
  qed
qed

lemma enc_alloc:
  assumes "a \<le> SEGMENT_PAGE_SIZE"
  shows "enc w a HNone r = enc w (a mod SEGMENT_PAGE_SIZE) HNone r"
proof (cases "a = SEGMENT_PAGE_SIZE")
  case True
  have "enc w SEGMENT_PAGE_SIZE HNone r = enc w 0 HNone r"
    using page_size_large(1) by (subst (1 2) enc.simps)
      (simp add: chunk_len_def chunk_start_def pad_of_def)
  then show ?thesis by (simp add: True)
qed (use assms in simp)

text \<open>A record that may go into a segment finds its current page inside the capacity.\<close>

lemma sufficient_inside:
  assumes wf: "seg_wf s" and cap: "SEGMENT_PAGE_SIZE dvd capacity s"
    and room: "sufficient_capacity s n = Inr True" and n: "0 < n"
  shows "page_start s + page_allocated s < capacity s"
proof -
  let ?m = "(capacity s - page_start s) div SEGMENT_PAGE_SIZE"
  have lt: "page_start s < capacity s"
    using room by (auto simp: sufficient_capacity_def split: if_splits)
  have "SEGMENT_PAGE_SIZE dvd capacity s - page_start s"
    using cap wf by (auto simp: seg_wf_def intro: dvd_diff_nat)
  then have m: "SEGMENT_PAGE_SIZE * ?m = capacity s - page_start s"
    by simp
  have m0: "0 < ?m" using m lt by (metis mult_0_right zero_less_diff neq0_conv)
  have al: "page_allocated s \<le> SEGMENT_PAGE_SIZE"
    using wf by (simp add: seg_wf_def)
  show ?thesis
  proof (cases "page_allocated s = SEGMENT_PAGE_SIZE")
    case True
    then have "n \<le> (SEGMENT_PAGE_SIZE - 7) * (?m - 1)"
      using room lt m0 by (simp add: sufficient_capacity_def Let_def)
    with n have "?m \<noteq> 1" by auto
    with m0 have "SEGMENT_PAGE_SIZE * 2 \<le> SEGMENT_PAGE_SIZE * ?m" by (intro mult_le_mono2) linarith
    then show ?thesis using m True page_size_pos lt by linarith
  next
    case False
    have "SEGMENT_PAGE_SIZE * 1 \<le> SEGMENT_PAGE_SIZE * ?m" using m0 by (intro mult_le_mono2) simp
    then show ?thesis using m False al lt by linarith
  qed
qed

context wire_format begin

text \<open>The record appended to the open segment, when it fits.\<close>

lemma append_holds:
  assumes h: "holds_log w wal segs"
    and ap: "append w r (open_segment wal) = Inr (Some b, seg)"
    and r: "r \<noteq> []" and odd: "b mod SEGMENT_PAGE_SIZE \<noteq> SEGMENT_PAGE_SIZE - 1"
    and fit: "b \<le> (current_lsn (open_segment wal) div wal_capacity wal + 1) * wal_capacity wal"
    and le: "length segs \<le> k"
  obtains segs' where "holds_log w (wal\<lparr>open_segment := seg\<rparr>) segs'" "length segs' = length segs"
    "log_ends w (wal_capacity wal) 0 segs' = log_ends w (wal_capacity wal) 0 segs @ [(b, r)]"
proof -
  note d = holds_logD [OF h]
  define s where "s = open_segment wal"
  define cap where "cap = wal_capacity wal"
  have st: "stream s = lay w 0 (last segs)" and wf: "seg_wf s" and cs: "capacity s = cap"
    using d(3,4,6) by (simp_all add: s_def cap_def)
  note a = append_stream [OF wf ap [folded s_def]]
  have suf: "sufficient_capacity s (length r) = Inr True"
    using ap by (auto simp: append_def res_bind_eq_Inr s_def split: if_splits)
  let ?n = "length (stream s)"
  have n: "?n = page_start s + page_allocated s" by (rule length_stream [OF wf])
  have inside: "?n < cap"
    using sufficient_inside [OF wf _ suf] d(10) r cs n by (simp add: cap_def)
  have md: "?n mod SEGMENT_PAGE_SIZE = page_allocated s mod SEGMENT_PAGE_SIZE"
    using wf n by (auto simp: seg_wf_def elim!: dvdE)
  have e: "stream seg = stream s @ enc w (?n mod SEGMENT_PAGE_SIZE) HNone r"
    using a(5) enc_alloc [of "page_allocated s" w r] wf md by (simp add: seg_wf_def)
  have ss: "segment_start s = (length segs - 1) * cap"
    using d(5) cs by (simp add: segment_start_def s_def)
  have ssg: "segment_start seg = segment_start s"
    using a(2,3) by (simp add: segment_start_def)
  have b: "b = (length segs - 1) * cap + length (stream seg)"
    using a(7) current_lsn_stream [OF a(1)] ss ssg by simp
  have "current_lsn s div cap = length segs - 1"
    using current_lsn_stream [OF wf] ss inside by simp
  then have small: "length (stream seg) \<le> cap"
    using fit b by (simp add: s_def [symmetric] cap_def [symmetric])
  have "SEGMENT_PAGE_SIZE dvd cap" using d(10) by (simp add: cap_def)
  then have "b mod SEGMENT_PAGE_SIZE = length (stream seg) mod SEGMENT_PAGE_SIZE"
    using b by (auto elim!: dvdE simp: mult.left_commute)
  with odd have odd': "length (stream seg) mod SEGMENT_PAGE_SIZE \<noteq> SEGMENT_PAGE_SIZE - 1"
    by simp
  let ?items = "last segs @ [Rec r]"
  have lay: "stream seg = lay w 0 ?items"
    using e st by (simp add: lay_append)
  have ok: "items_ok w 0 ?items"
    using d(12) r odd' e st by (simp add: items_ok_append Let_def)
  let ?segs = "butlast segs @ [?items]"
  have hs: "holds_log w (wal\<lparr>open_segment := seg\<rparr>) ?segs"
    using d a(1-3) lay log_shape_last [OF d(2,1) ok] small
    by (simp add: holds_log_def s_def cap_def)
  have "ends w 0 ?items = ends w 0 (last segs) @ [(length (stream seg), r)]"
    using e st by (simp add: ends_append Let_def)
  then have "log_ends w cap 0 ?segs = log_ends w cap 0 (butlast segs @ [last segs]) @ [(b, r)]"
    using b by (simp add: log_ends_append)
  then have le: "log_ends w (wal_capacity wal) 0 ?segs = log_ends w (wal_capacity wal) 0 segs @ [(b, r)]"
    using d(1) by (simp add: cap_def)
  show ?thesis
    by (rule that [OF hs _ le]) (use d(1) in simp)
qed

end

lemma sufficient_capacity_cong:
  "\<lbrakk>capacity s = capacity s'; page_start s = page_start s'; page_allocated s = page_allocated s'\<rbrakk> \<Longrightarrow>
     sufficient_capacity s n = sufficient_capacity s' n"
  by (simp add: sufficient_capacity_def)

context wire_format begin

lemma wal_room_holds:
  assumes h: "holds_log w wal segs" and room: "wal_room wal n = Inr wal1"
    and suf: "sufficient_capacity (open_segment wal1) n = Inr True"
    and no: "segno (open_segment wal1) < 2 ^ 32"
  obtains segs1 where "holds_log w wal1 segs1" "wal_capacity wal1 = wal_capacity wal"
    "log_ends w cap 0 segs1 = log_ends w cap 0 segs"
proof (cases "wal1 = wal")
  case True
  then show ?thesis using that h by blast
next
  case False
  note d = holds_logD [OF h]
  define s where "s = open_segment wal"
  define s' where "s' = (if dirty s then flush_page True s else s)"
  let ?wal = "wal\<lparr>open_segment := s'\<rparr>"
  let ?nsegs = "length segs"
  have st: "stream s = lay w 0 (last segs)" and wf: "seg_wf s"
    using d(3,4) by (simp_all add: s_def)
  obtain ok where ok: "sufficient_capacity s n = Inr ok"
    using room by (auto simp: wal_room_def res_bind_eq_Inr s_def)
  have nok: "\<not> ok"
    using room False ok by (auto simp: wal_room_def s_def)
  obtain seg sc where nx: "next_segment (creator wal) (wal_dir ?wal) = Inr (seg, sc)"
    and w1: "wal1 = wal\<lparr>wal_files := wal_dir ?wal, creator := sc, open_segment := seg\<rparr>"
  proof -
    have "wal_room wal n = res_bind (next_segment (creator wal) (wal_dir ?wal)) (\<lambda>(seg', sc').
        Inr (wal\<lparr>wal_files := wal_dir ?wal, creator := sc', open_segment := seg'\<rparr>))"
      using ok nok by (simp add: wal_room_def s_def s'_def Let_def)
    then have "res_bind (next_segment (creator wal) (wal_dir ?wal)) (\<lambda>(seg', sc').
        Inr (wal\<lparr>wal_files := wal_dir ?wal, creator := sc', open_segment := seg'\<rparr>)) = Inr wal1"
      using room by (simp only:)
    then obtain x where x: "next_segment (creator wal) (wal_dir ?wal) = Inr x"
      "(case x of (seg', sc') \<Rightarrow>
        Inr (wal\<lparr>wal_files := wal_dir ?wal, creator := sc', open_segment := seg'\<rparr>)) = (Inr wal1 :: wal res)"
      unfolding res_bind_eq_Inr by blast
    show ?thesis
      by (rule that [of "fst x" "snd x"]) (use x in \<open>simp_all add: case_prod_beta\<close>)
  qed
  have pad: "items_ok w 0 (last segs @ [Pad])" "length (lay w 0 (last segs @ [Pad])) \<le> wal_capacity wal"
    using d(12) padded_length [OF d(10,13)] by (simp_all add: lay_pad)
  have on_file: "stream s' = seg_file s'"
    using flush_page_parts(2) [OF wf] by (auto simp: s'_def dirty_def stream_def)
  obtain items where it: "stream s' = lay w 0 items" "items_ok w 0 items"
    "length (lay w 0 items) \<le> wal_capacity wal" "ends w 0 items = ends w 0 (last segs)"
  proof (cases "dirty s")
    case True
    then show ?thesis
      using that flush_pads [OF wf st, of True] d(12,13) pad ends_pad unfolding s'_def by metis
  next
    case False
    then show ?thesis
      using that [of "last segs"] st d(12,13) by (simp add: s'_def)
  qed
  let ?segs' = "butlast segs @ [items]"
  have hw: "holds_log w ?wal ?segs'"
    using d it(1) wf flush_page_wf [OF wf, of True] log_shape_last [OF d(2,1) it(2,3)]
    by (auto simp: holds_log_def s_def s'_def)
  have seg_no: "segno seg = Suc ?nsegs" and sc: "last_segno sc = Suc ?nsegs" "sc_capacity sc = wal_capacity wal"
    using nx d(7,8) by (auto simp: next_segment_def segment_create_def res_bind_eq_Inr Let_def)
  have lim: "Suc ?nsegs < 2 ^ 32"
    using no seg_no by (simp add: w1)
  have wd: "wal_dir ?wal = dir_of (map (lay w 0) ?segs')"
    using wal_dir_holds [OF hw] lim d(1) on_file it(1) by simp
  have "dir_file (wal_dir ?wal) (segno_to_name (Suc ?nsegs)) = None"
    unfolding wd by (rule dir_file_fresh, rule name_fresh) (use lim d(1) in simp_all)
  then have new: "segment_create (Suc ?nsegs) None (wal_capacity wal) (sc_sync_method (creator wal)) = Inr seg"
    using nx d(7,8) by (auto simp: next_segment_def res_bind_eq_Inr Let_def)
  have sw: "seg_wf seg" "stream seg = []" "capacity seg = wal_capacity wal"
    using segment_create_wf [OF new] by simp_all
  have nonempty: "ends w 0 items \<noteq> []"
  proof
    assume "ends w 0 items = []"
    then have "lay w 0 (last segs) = []"
      using lay_pads [of 0 "last segs"] it(4) by (auto simp: page_pad_def)
    then have "page_start s = 0 \<and> page_allocated s = 0"
      using length_stream [OF wf] st by simp
    moreover have "page_start seg = 0 \<and> page_allocated seg = 0"
      using length_stream [OF sw(1)] sw(2) by simp
    ultimately have "sufficient_capacity s n = sufficient_capacity seg n"
      by (intro sufficient_capacity_cong) (use d(6) sw(3) in \<open>simp_all add: s_def\<close>)
    then show False
      using ok nok suf by (simp add: w1)
  qed
  have sh: "log_shape w (wal_capacity wal) (?segs' @ [[]])"
    using holds_logD(2) [OF hw] nonempty unfolding log_shape_snoc by auto
  have "holds_log w wal1 (?segs' @ [[]])"
    using sw seg_no sc sh wd d(1) by (simp add: holds_log_def w1 butlast_append)
  moreover have "segs = butlast segs @ [last segs]"
    using d(1) by simp
  then have "log_ends w cap 0 (?segs' @ [[]]) = log_ends w cap 0 segs"
    using it(4) by (metis (no_types, lifting) append.right_neutral ends.simps(1) log_ends.simps
        log_ends_append shift_ends.simps(1))
  ultimately show ?thesis
    using that [of "?segs' @ [[]]"] by (simp add: w1)
qed

end


section \<open>Histories\<close>

text \<open>A history of the log: the operations, and the records appended with the positions returned.\<close>

datatype wal_op = OpAppend bytes | OpFlush "log_pointer option"

fun wal_run ::
  "wire \<Rightarrow> wal_op list \<Rightarrow> wal \<Rightarrow> ((bytes \<times> log_pointer \<times> log_pointer) list \<times> wal) res" where
  "wal_run w [] wal = Inr ([], wal)"
| "wal_run w (OpFlush lsn # ops) wal = wal_run w ops (wal_flush lsn wal)"
| "wal_run w (OpAppend r # ops) wal =
     res_bind (wal_append w r wal) (\<lambda>((a, b), wal').
     res_bind (wal_run w ops wal') (\<lambda>(log, wal''). Inr ((r, a, b) # log, wal'')))"

text \<open>
  The record does not end one byte before the end of a page, nor beyond the segment it starts in.
\<close>

definition fits_in :: "nat \<Rightarrow> bytes \<times> log_pointer \<times> log_pointer \<Rightarrow> bool" where
  "fits_in cap x \<longleftrightarrow> (case x of (r, a, b) \<Rightarrow> r \<noteq> [] \<and>
     b mod SEGMENT_PAGE_SIZE \<noteq> SEGMENT_PAGE_SIZE - 1 \<and> b \<le> (a div cap + 1) * cap)"

lemma append_loop_segno [simp]: "segno (append_loop w r ty s) = segno s"
proof (induction w r ty s rule: append_loop.induct)
  case (1 w r ty s)
  then show ?case
    by (subst append_loop.simps) (simp add: Let_def write_chunk_def room_for_chunk_def)
qed

definition numbered :: "wal \<Rightarrow> bool" where
  "numbered wal \<longleftrightarrow> last_segno (creator wal) = segno (open_segment wal)"

lemma wal_room_numbered:
  "wal_room wal n = Inr wal1 \<Longrightarrow> numbered wal \<Longrightarrow>
     numbered wal1 \<and> segno (open_segment wal) \<le> segno (open_segment wal1)"
  by (auto simp: wal_room_def res_bind_eq_Inr Let_def next_segment_def segment_create_def
      numbered_def split: if_splits)

lemma wal_append_parts:
  assumes "wal_append w r wal = Inr ((a, b), wal')"
  obtains wal1 seg where "wal_room wal (length r) = Inr wal1" "a = current_lsn (open_segment wal1)"
    "append w r (open_segment wal1) = Inr (Some b, seg)" "wal' = wal1\<lparr>open_segment := seg\<rparr>"
    "segno (open_segment wal') = segno (open_segment wal1)"
    "sufficient_capacity (open_segment wal1) (length r) = Inr True"
proof -
  obtain wal1 seg where p: "wal_room wal (length r) = Inr wal1" "a = current_lsn (open_segment wal1)"
    "append w r (open_segment wal1) = Inr (Some b, seg)" "wal' = wal1\<lparr>open_segment := seg\<rparr>"
    using assms by (auto simp: wal_append_def res_bind_eq_Inr Let_def split: option.splits)
  moreover have "segno seg = segno (open_segment wal1)"
    "sufficient_capacity (open_segment wal1) (length r) = Inr True"
    using p(3) by (auto simp: append_def res_bind_eq_Inr Let_def split: if_splits)
  ultimately show ?thesis
    by (intro that) simp_all
qed

lemma wal_append_numbered:
  assumes "wal_append w r wal = Inr ((a, b), wal')" "numbered wal"
  shows "numbered wal' \<and> segno (open_segment wal) \<le> segno (open_segment wal')"
  by (rule wal_append_parts [OF assms(1)])
    (use wal_room_numbered assms(2) in \<open>fastforce simp: numbered_def\<close>)

lemma wal_flush_fields [simp]:
  "wal_capacity (wal_flush lsn wal) = wal_capacity wal" "creator (wal_flush lsn wal) = creator wal"
  "segno (open_segment (wal_flush lsn wal)) = segno (open_segment wal)"
  by (auto simp: wal_flush_def split: option.splits)

lemma wal_run_numbered:
  "wal_run w ops wal = Inr (log, wal') \<Longrightarrow> numbered wal \<Longrightarrow>
     segno (open_segment wal) \<le> segno (open_segment wal')"
proof (induction w ops wal arbitrary: log rule: wal_run.induct)
  case (2 w lsn ops wal)
  then show ?case by (auto simp: numbered_def)
next
  case (3 w r ops wal)
  then show ?case
    using wal_append_numbered by (fastforce simp: res_bind_eq_Inr dest: order.trans)
qed simp

context wire_format begin

lemma wal_append_holds:
  assumes h: "holds_log w wal segs" and ap: "wal_append w r wal = Inr ((a, b), wal')"
    and fit: "fits_in (wal_capacity wal) (r, a, b)" and no: "segno (open_segment wal') < 2 ^ 32"
  obtains segs' where "holds_log w wal' segs'" "wal_capacity wal' = wal_capacity wal"
    "log_ends w (wal_capacity wal) 0 segs' = log_ends w (wal_capacity wal) 0 segs @ [(b, r)]"
proof -
  obtain wal1 seg where p: "wal_room wal (length r) = Inr wal1" "a = current_lsn (open_segment wal1)"
    "append w r (open_segment wal1) = Inr (Some b, seg)" "wal' = wal1\<lparr>open_segment := seg\<rparr>"
    "segno (open_segment wal') = segno (open_segment wal1)"
    "sufficient_capacity (open_segment wal1) (length r) = Inr True"
    by (rule wal_append_parts [OF ap])
  have no1: "segno (open_segment wal1) < 2 ^ 32"
    using no p(5) by simp
  obtain segs1 where h1: "holds_log w wal1 segs1" "wal_capacity wal1 = wal_capacity wal"
    "log_ends w (wal_capacity wal) 0 segs1 = log_ends w (wal_capacity wal) 0 segs"
    by (rule wal_room_holds [OF h p(1,6) no1])
  have r: "r \<noteq> []" "b mod SEGMENT_PAGE_SIZE \<noteq> SEGMENT_PAGE_SIZE - 1"
    "b \<le> (current_lsn (open_segment wal1) div wal_capacity wal1 + 1) * wal_capacity wal1"
    using fit p(2) h1(2) by (simp_all add: fits_in_def)
  obtain segs' where h2: "holds_log w (wal1\<lparr>open_segment := seg\<rparr>) segs'" "length segs' = length segs1"
    "log_ends w (wal_capacity wal1) 0 segs' = log_ends w (wal_capacity wal1) 0 segs1 @ [(b, r)]"
    by (rule append_holds [OF h1(1) p(3) r order_refl])
  show ?thesis
    by (rule that [of segs']) (use h1 h2 p(4) in simp_all)
qed

lemma wal_run_holds:
  "\<lbrakk>wal_run w ops wal = Inr (log, wal'); holds_log w wal segs;
    \<forall>x\<in>set log. fits_in (wal_capacity wal) x; segno (open_segment wal') < 2 ^ 32\<rbrakk> \<Longrightarrow>
   \<exists>segs'. holds_log w wal' segs' \<and> wal_capacity wal' = wal_capacity wal \<and>
     log_ends w (wal_capacity wal) 0 segs' =
       log_ends w (wal_capacity wal) 0 segs @ map (\<lambda>(r, a, b). (b, r)) log"
proof (induction w \<equiv> w ops wal arbitrary: log segs rule: wal_run.induct)
  case (1 wal)
  then show ?case by auto
next
  case (2 lsn ops wal)
  obtain segs1 where h: "holds_log w (wal_flush lsn wal) segs1"
    "log_ends w (wal_capacity wal) 0 segs1 = log_ends w (wal_capacity wal) 0 segs"
    by (rule wal_flush_holds [OF 2(3)])
  have run: "wal_run w ops (wal_flush lsn wal) = Inr (log, wal')"
    using 2(2) by simp
  show ?case
    using 2(1) [OF run h(1)] 2(4,5) h(2) by simp
next
  case (3 r ops wal)
  obtain a b wal1 log1 where ap: "wal_append w r wal = Inr ((a, b), wal1)"
    and run: "wal_run w ops wal1 = Inr (log1, wal')" and log: "log = (r, a, b) # log1"
    using 3(2) by (auto simp: res_bind_eq_Inr)
  have "numbered wal"
    using holds_logD(5,7) [OF 3(3)] by (simp add: numbered_def)
  then have "segno (open_segment wal1) < 2 ^ 32"
    using wal_append_numbered [OF ap] wal_run_numbered [OF run] 3(5) by simp
  then have no: "segno (open_segment wal1) < 2 ^ 32" .
  have f1: "fits_in (wal_capacity wal) (r, a, b)"
    using 3(4) unfolding log by simp
  obtain segs1 where h: "holds_log w wal1 segs1" "wal_capacity wal1 = wal_capacity wal"
    "log_ends w (wal_capacity wal) 0 segs1 = log_ends w (wal_capacity wal) 0 segs @ [(b, r)]"
    by (rule wal_append_holds [OF 3(3) ap f1 no])
  have fit: "\<forall>x\<in>set log1. fits_in (wal_capacity wal1) x"
    using 3(4) h(2) unfolding log by simp
  obtain segs' where "holds_log w wal' segs'" "wal_capacity wal' = wal_capacity wal1"
    "log_ends w (wal_capacity wal1) 0 segs' =
       log_ends w (wal_capacity wal1) 0 segs1 @ map (\<lambda>(r, a, b). (b, r)) log1"
    using 3(1) [OF ap refl refl run h(1) fit 3(5)] by blast
  then show ?case
    using h by (intro exI [of _ segs']) (simp add: log)
qed

end

lemma clean_after_flush: "\<not> dirty (flush_page force s)"
  by (simp add: dirty_def flush_page_def Let_def)

context wire_format begin

lemma wal_open_holds:
  assumes "SEGMENT_PAGE_SIZE dvd segment_capacity options" and "wal_open Missing options = Inr wal0"
  shows "holds_log w wal0 [[]] \<and> wal_capacity wal0 = segment_capacity options"
proof -
  obtain seg where c: "segment_create 1 None (segment_capacity options) (wal_sync_method options) = Inr seg"
    and w0: "wal0 = \<lparr>wal_files = [], wal_capacity = segment_capacity options,
      creator = \<lparr>last_segno = 1, sc_capacity = segment_capacity options,
        sc_sync_method = wal_sync_method options\<rparr>, open_segment = seg\<rparr>"
    using assms(2) by (auto simp: wal_open_def next_segment_def res_bind_eq_Inr Let_def dir_file_def)
  have "7 < segment_capacity options"
    using c by (auto simp: segment_create_def check_capacity_def split: if_splits)
  then show ?thesis
    using segment_create_wf [OF c] assms(1) w0
    by (simp add: holds_log_def log_shape_def dir_of_def)
qed

text \<open>When nothing is left in the page of the open segment, the files hold the whole log.\<close>

lemma clean_log_dir:
  assumes h: "holds_log w wal segs" and clean: "\<not> dirty (open_segment wal)"
    and number: "segno (open_segment wal) < 2 ^ 32"
  shows "wal_dir wal = dir_of (map (lay w 0) segs)"
proof -
  note d = holds_logD [OF h]
  have "seg_file (open_segment wal) = lay w 0 (last segs)"
    using d(4) clean by (simp add: stream_def dirty_def)
  moreover have "map (lay w 0) (butlast segs) @ [lay w 0 (last segs)] = map (lay w 0) segs"
    using d(1) by (metis append_butlast_last_id list.simps(8,9) map_append)
  ultimately show ?thesis using wal_dir_holds [OF h] number d(5) by simp
qed

lemma clean_log_replays:
  assumes h: "holds_log w wal segs" and clean: "\<not> dirty (open_segment wal)"
    and number: "segno (open_segment wal) < 2 ^ 32" and listing: "mset dir = mset (wal_dir wal)"
  defines "log \<equiv> log_ends w (wal_capacity wal) 0 segs"
  shows "\<exists>rd. reader_open dir (wal_capacity wal) 0 = Inr rd \<and>
    reader_take w rd (Suc (length log)) 0 = map (\<lambda>x. Some (Inr x)) log @ [None]"
proof -
  note d = holds_logD [OF h]
  have "reader_open dir (wal_capacity wal) 0 = Inr \<lparr>start_segno = 1, start_pos = 0, rd_capacity = wal_capacity wal,
      segments = map view_of (map (lay w 0) segs)\<rparr>"
  proof (rule reader_open_dir)
    show "length (map (lay w 0) segs) < 2 ^ 32" using number d(5) by simp
    show "\<forall>c\<in>set (map (lay w 0) segs). length c \<le> wal_capacity wal"
      using d(2) by (simp add: log_shape_def)
  qed (use d listing clean_log_dir [OF h clean number] in simp_all)
  then have "reader_open dir (wal_capacity wal) 0 = Inr (reader_on w (wal_capacity wal) segs)"
    by (simp add: reader_on_def o_def)
  then show ?thesis using replay_all [OF d(2,1)] by (simp add: log_def)
qed

lemma replays_history:
  assumes cap: "SEGMENT_PAGE_SIZE dvd segment_capacity options"
    and start: "wal_open Missing options = Inr wal0"
    and run: "wal_run w ops wal0 = Inr (log, wal)"
    and fit: "\<forall>x\<in>set log. fits_in (segment_capacity options) x"
    and number: "segno (open_segment wal) < 2 ^ 32"
    and listing: "mset dir = mset (wal_dir (wal_flush None wal))"
  shows "\<exists>rd. reader_open dir (segment_capacity options) 0 = Inr rd \<and>
    reader_take w rd (Suc (length log)) 0 = map (\<lambda>(r, a, b). Some (Inr (b, r))) log @ [None]"
proof -
  note h0 = wal_open_holds [OF cap start]
  obtain segs1 where h1: "holds_log w wal segs1" "wal_capacity wal = segment_capacity options"
    "log_ends w (segment_capacity options) 0 segs1 = map (\<lambda>(r, a, b). (b, r)) log"
    using wal_run_holds [OF run conjunct1 [OF h0]] h0 fit number by auto
  obtain segs where h: "holds_log w (wal_flush None wal) segs"
    "log_ends w (wal_capacity wal) 0 segs = log_ends w (wal_capacity wal) 0 segs1"
    by (rule wal_flush_holds [OF h1(1)])
  have "\<not> dirty (open_segment (wal_flush None wal))" by (simp add: wal_flush_def clean_after_flush)
  from clean_log_replays [OF h(1) this _ listing] show ?thesis
    using number h(2) h1(2,3) by (simp add: case_prod_unfold o_def del: reader_take.simps)
qed

lemma first_append:
  assumes "segment_create no None cap m = Inr s" "1 \<le> no" "r \<noteq> []" "SEGMENT_PAGE_SIZE \<le> cap"
    and "length r \<le> SEGMENT_PAGE_SIZE"
  obtains s' where "append w r s = Inr (Some (current_lsn s'), s')" "seg_wf s'" "stream s' = enc w 0 HNone r"
    "segno s' = no" "capacity s' = cap"
proof -
  have s: "s = \<lparr>segno = no, seg_file = [], seg_synced = 0, sync_method = m, page = zero_page,
      page_allocated = 0, page_flushed = 0, page_start = 0, capacity = cap\<rparr>"
    using assms(1) by (auto simp: segment_create_def res_bind_eq_Inr)
  have wf: "seg_wf s" "stream s = []"
    using segment_create_wf [OF assms(1) _ assms(2)] by simp_all
  have "length r \<le> SEGMENT_PAGE_SIZE + (SEGMENT_PAGE_SIZE - 7) * (cap div SEGMENT_PAGE_SIZE - 1)"
    using assms(5) by (rule trans_le_add1)
  moreover have "0 < cap"
    using assms(4) page_size_pos by linarith
  ultimately have "sufficient_capacity s (length r) = Inr True"
    using assms(5) by (simp add: sufficient_capacity_def s Let_def)
  then have ap: "append w r s = Inr (Some (current_lsn (append_loop w r HNone s)), append_loop w r HNone s)"
    by (simp add: append_def Let_def)
  have fields: "page_allocated s = 0" "segno s = no" "capacity s = cap"
    by (simp_all add: s)
  from append_stream [OF wf(1) ap] show ?thesis
    by (intro that [OF ap]) (simp_all add: wf(2) fields)
qed

lemma enc_single: "r \<noteq> [] \<Longrightarrow> length r \<le> SEGMENT_PAGE_SIZE - 7 \<Longrightarrow> enc w 0 HNone r = frame w HFull r"
  using page_size_large(1) by (simp add: enc_step chunk_len_def chunk_start_def pad_of_def)

lemma wal_open_default:
  "\<exists>wal0 log wal. wal_open Missing wal_options_default = Inr wal0 \<and>
     wal_run w [OpAppend [7, 8], OpFlush None] wal0 = Inr (log, wal) \<and> log = [([7, 8], 0, 9)] \<and>
     segno (open_segment wal) = 1"
proof -
  let ?cap = "segment_capacity wal_options_default"
  have cap: "SEGMENT_PAGE_SIZE \<le> ?cap" "7 < ?cap"
    by (simp_all add: wal_options_default_def SEGMENT_PAGE_SIZE_def)
  obtain s where s: "segment_create 1 None ?cap SyncData = Inr s"
    using cap(2) by (simp add: segment_create_def check_capacity_def)
  have r: "([7, 8] :: bytes) \<noteq> []" "length ([7, 8] :: bytes) \<le> SEGMENT_PAGE_SIZE"
    using page_size_large(1) by simp_all
  obtain s' where s': "append w [7, 8] s = Inr (Some (current_lsn s'), s')" "seg_wf s'"
      "stream s' = enc w 0 HNone [7, 8]" "segno s' = 1" "capacity s' = ?cap"
    by (rule first_append [OF s order_refl r(1) cap(1) r(2)])
  have l: "current_lsn s' = 9"
    using current_lsn_stream [OF s'(2)] s'(3-5) enc_single [OF r(1)] page_size_large(2)
    by (simp add: segment_start_def)
  let ?wal = "\<lparr>wal_files = [], wal_capacity = ?cap, creator = \<lparr>last_segno = 1, sc_capacity = ?cap,
    sc_sync_method = SyncData\<rparr>, open_segment = s\<rparr>"
  have w0: "wal_open Missing wal_options_default = Inr ?wal"
    using s by (simp add: wal_open_def next_segment_def dir_file_def wal_options_default_def)
  have "sufficient_capacity s 2 = Inr True"
    using s'(1) by (auto simp: append_def res_bind_eq_Inr numeral_2_eq_2 split: if_splits)
  moreover have "current_lsn s = 0"
    using s by (auto simp: segment_create_def res_bind_eq_Inr current_lsn_def segment_start_def)
  ultimately have "wal_append w [7, 8] ?wal = Inr ((0, 9), ?wal\<lparr>open_segment := s'\<rparr>)"
    using s'(1) l by (simp add: wal_append_def wal_room_def numeral_2_eq_2)
  then show ?thesis
    using w0 s'(4) by (simp add: wal_flush_def)
qed

end

text \<open>
  C16: the log is replayed as it was written. After any history of appends and flushes that starts
  with an empty directory, and a flush, a reader opened at position 0 on the files, listed in any
  order, returns exactly the appended records, in order, each with the end position its append
  returned, and then ends.
\<close>
theorem wal_replays_history:
  "\<lbrakk>wire_ok w; SEGMENT_PAGE_SIZE dvd segment_capacity options; wal_open Missing options = Inr wal0;
    wal_run w ops wal0 = Inr (log, wal); \<forall>x\<in>set log. fits_in (segment_capacity options) x;
    segno (open_segment wal) < 2 ^ 32; mset dir = mset (wal_dir (wal_flush None wal))\<rbrakk> \<Longrightarrow>
   \<exists>rd. reader_open dir (segment_capacity options) 0 = Inr rd \<and>
     reader_take w rd (Suc (length log)) 0 = map (\<lambda>(r, a, b). Some (Inr (b, r))) log @ [None]"
  by (rule wire_format.replays_history) (simp_all add: wire_format_iff)

theorem wal_replays_history_witness:
  "\<exists>wal0 wal rd. wal_open Missing wal_options_default = Inr wal0 \<and>
     wal_run std_wire [OpAppend [7, 8], OpFlush None] wal0 = Inr ([([7, 8], 0, 9)], wal) \<and>
     reader_open (wal_dir (wal_flush None wal)) (segment_capacity wal_options_default) 0 = Inr rd \<and>
     reader_take std_wire rd 2 0 = [Some (Inr (9, [7, 8])), None]"
proof -
  obtain wal0 log wal where w0: "wal_open Missing wal_options_default = Inr wal0"
    and run: "wal_run std_wire [OpAppend [7, 8], OpFlush None] wal0 = Inr (log, wal)"
    and log: "log = [([7, 8], 0, 9)]" and no: "segno (open_segment wal) = 1"
    using std.wal_open_default by blast
  have cap: "SEGMENT_PAGE_SIZE dvd segment_capacity wal_options_default"
    by (simp add: wal_options_default_def SEGMENT_PAGE_SIZE_def)
  have fit: "\<forall>x\<in>set log. fits_in (segment_capacity wal_options_default) x"
    by (simp add: log fits_in_def wal_options_default_def SEGMENT_PAGE_SIZE_def)
  have "segno (open_segment wal) < 2 ^ 32"
    by (simp add: no)
  from wal_replays_history [OF std_wire_ok cap w0 run fit this refl]
  show ?thesis
    using w0 run by (auto simp: log numeral_2_eq_2)
qed

text \<open>
  C30: a segment never grows beyond its capacity when a record with seven bytes to spare is let in:
  if \<open>sufficient_capacity\<close> holds for the length of the record and a chunk header more, everything
  appended, chunk headers and skipped page ends included, stays within the capacity.
\<close>
theorem append_stays_within_capacity:
  "\<lbrakk>wire_ok w; seg_wf s; SEGMENT_PAGE_SIZE dvd capacity s;
    sufficient_capacity s (length r + 7) = Inr True; append w r s = Inr (Some p, s')\<rbrakk> \<Longrightarrow>
   seg_wf s' \<and> p = segment_start s + length (stream s') \<and> length (stream s') \<le> capacity s"
  using wire_format.append_within_capacity [of w s r p s'] wire_format.append_stream(1-3,7) [of w s r "Some p" s']
    current_lsn_stream [of s']
  by (simp add: wire_format_iff segment_start_def)

definition one_page_segment :: segment where
  "one_page_segment = \<lparr>segno = 1, seg_file = [], seg_synced = 0,
     sync_method = SyncData, page = zero_page, page_allocated = 0, page_flushed = 0, page_start = 0,
     capacity = SEGMENT_PAGE_SIZE\<rparr>"

lemma first_segment:
  "segment_create 1 None SEGMENT_PAGE_SIZE SyncData = Inr one_page_segment"
  using page_size_large(1) by (simp add: segment_create_def check_capacity_def one_page_segment_def)

theorem append_stays_within_capacity_witness:
  "\<exists>s p s'. segment_create 1 None SEGMENT_PAGE_SIZE SyncData = Inr s \<and>
     append std_wire [1, 2, 3] s = Inr (Some p, s') \<and> length (stream s') \<le> SEGMENT_PAGE_SIZE"
proof -
  have wf: "seg_wf one_page_segment"
    using segment_create_wf [OF first_segment] by simp
  have len: "length ([1, 2, 3] :: bytes) \<le> SEGMENT_PAGE_SIZE"
    using page_size_large(1) by simp
  obtain s' where ap: "append std_wire [1, 2, 3] one_page_segment = Inr (Some (current_lsn s'), s')"
    by (rule std.first_append [OF first_segment order_refl _ order_refl len]) simp_all
  have c: "SEGMENT_PAGE_SIZE dvd capacity one_page_segment"
    by (simp add: one_page_segment_def)
  have "sufficient_capacity one_page_segment (length ([1, 2, 3] :: bytes) + 7) = Inr True"
    using page_size_large(2) by (simp add: one_page_segment_def sufficient_capacity_def)
  from append_stays_within_capacity [OF std_wire_ok wf c this ap] show ?thesis
    using first_segment ap by (auto simp: one_page_segment_def)
qed

text \<open>
  C31: without the seven bytes this fails. The capacity check counts neither the header of the chunk
  that fills the current page nor a skipped page end, so a segment of one page accepts a record of up
  to a full page; the file that results is larger than the capacity, and every later attempt to read
  the log is refused with an error.
\<close>
theorem overfull_segment_rejected:
  "\<lbrakk>wire_ok w; segment_create no None SEGMENT_PAGE_SIZE method = Inr s; 1 \<le> no;
    SEGMENT_PAGE_SIZE - 7 < length r; length r \<le> SEGMENT_PAGE_SIZE\<rbrakk> \<Longrightarrow>
   \<exists>p s'. append w r s = Inr (Some p, s') \<and>
     view_open (Some (seg_file (flush_page False s'))) SEGMENT_PAGE_SIZE =
       Inl (Err (InvalidArgument ''invalid segment capacity''))"
proof -
  assume asm: "wire_ok w" "segment_create no None SEGMENT_PAGE_SIZE method = Inr s" "1 \<le> no"
    "SEGMENT_PAGE_SIZE - 7 < length r" "length r \<le> SEGMENT_PAGE_SIZE"
  then have w: "wire_format w" by (simp add: wire_format_iff)
  have r: "r \<noteq> []" using asm(4) by auto
  obtain s' where s': "append w r s = Inr (Some (current_lsn s'), s')" "seg_wf s'" "stream s' = enc w 0 HNone r"
    by (rule wire_format.first_append [OF w asm(2,3) r order_refl asm(5)])
  have c: "chunk_len 0 r = SEGMENT_PAGE_SIZE - 7" and cs: "chunk_start 0 = 0"
    using asm(4) page_size_large(1) by (simp_all add: chunk_len_def chunk_start_def)
  have ce: "chunk_start 0 + chunk_len 0 r + 7 = SEGMENT_PAGE_SIZE"
    using page_size_large(1) by (simp add: c cs)
  have d: "drop (SEGMENT_PAGE_SIZE - 7) r \<noteq> []" using asm(4) by simp
  have "SEGMENT_PAGE_SIZE < length (enc w 0 HNone r)"
    using wire_format.length_enc_pos [OF w d, where a = SEGMENT_PAGE_SIZE and ty = HFirst]
      wire_format.length_frame [OF w] asm(4,5) page_size_large(1)
    unfolding wire_format.enc_step [OF w r, of 0 HNone] ce unfolding c by auto
  then have "SEGMENT_PAGE_SIZE < length (seg_file (flush_page False s'))"
    using flush_page_parts(1) [OF s'(2), of False] s'(3) by simp
  then show ?thesis
    using s'(1) page_size_large(1) by (auto simp: view_open_def check_capacity_def)
qed

theorem overfull_segment_rejected_witness:
  "\<exists>s p s'. segment_create 1 None SEGMENT_PAGE_SIZE SyncData = Inr s \<and>
     append std_wire (replicate SEGMENT_PAGE_SIZE 1) s = Inr (Some p, s') \<and>
     view_open (Some (seg_file (flush_page False s'))) SEGMENT_PAGE_SIZE =
       Inl (Err (InvalidArgument ''invalid segment capacity''))"
  using overfull_segment_rejected [OF std_wire_ok first_segment order_refl,
      of "replicate SEGMENT_PAGE_SIZE 1"] first_segment by auto

end
