(* ===== verification/Wal_Safety.thy ===== *)
theory Wal_Safety
  imports Wal_Replay
begin

text \<open>
  What becomes of the log when the process stops at any moment: what is durable after a flush, and
  what a reader makes of a file whose end was not written. Also the record the reader loses.
\<close>

section \<open>Durability\<close>

lemma synced_flush: "synced s \<Longrightarrow> synced (flush_page force s)"
  by (cases "sync_method s = NoSync") (simp_all add: synced_def flush_page_synced)

lemma synced_append_loop: "synced s \<Longrightarrow> synced (append_loop w r ty s)"
proof (induction w r ty s rule: append_loop.induct)
  case (1 w r ty s)
  have "synced (room_for_chunk s)"
    using 1(2) synced_flush by (simp add: room_for_chunk_def)
  moreover have "synced (write_chunk w ty' c s') = synced s'" for ty' c s'
    by (simp add: synced_def write_chunk_def Let_def)
  ultimately show ?case
    using 1 by (subst append_loop.simps) (simp add: Let_def)
qed

lemma append_loop_sync_method [simp]: "sync_method (append_loop w r ty s) = sync_method s"
proof (induction w r ty s rule: append_loop.induct)
  case (1 w r ty s)
  then show ?case
    by (subst append_loop.simps) (simp add: Let_def write_chunk_def room_for_chunk_def)
qed

text \<open>
  The invariant of a log: its open segment is the newest, well-formed and synced up to its end, and
  no file of the directory has a larger number.
\<close>

definition wal_safe :: "wal \<Rightarrow> bool" where
  "wal_safe wal \<longleftrightarrow> numbered wal \<and> seg_wf (open_segment wal) \<and> synced (open_segment wal) \<and>
     sync_method (open_segment wal) = sc_sync_method (creator wal) \<and>
     (\<forall>k. last_segno (creator wal) < k \<longrightarrow> k < 2 ^ 32 \<longrightarrow>
        segno_to_name k \<notin> fst ` set (wal_files wal))"

lemma fst_dir_set: "fst ` set (dir_set n c dir) = insert n (fst ` set dir)"
  by (induction n c dir rule: dir_set.induct) auto

lemma wal_safe_open:
  assumes "wal_open Missing options = Inr wal"
  shows "wal_safe wal" "sc_sync_method (creator wal) = wal_sync_method options"
    "wal_capacity wal = segment_capacity options" "capacity (open_segment wal) = segment_capacity options"
    "sc_capacity (creator wal) = segment_capacity options"
proof -
  obtain seg where c: "segment_create 1 None (segment_capacity options) (wal_sync_method options) = Inr seg"
    and w: "wal = \<lparr>wal_files = [], wal_capacity = segment_capacity options,
      creator = \<lparr>last_segno = 1, sc_capacity = segment_capacity options,
        sc_sync_method = wal_sync_method options\<rparr>, open_segment = seg\<rparr>"
    using assms by (auto simp: wal_open_def next_segment_def res_bind_eq_Inr Let_def dir_file_def)
  have "synced seg"
    using c by (auto simp: segment_create_def res_bind_eq_Inr synced_def)
  then show "wal_safe wal" "sc_sync_method (creator wal) = wal_sync_method options"
    "wal_capacity wal = segment_capacity options" "capacity (open_segment wal) = segment_capacity options"
    "sc_capacity (creator wal) = segment_capacity options"
    using segment_create_wf [OF c] by (simp_all add: wal_safe_def numbered_def w)
qed

lemma wal_safe_flush: "wal_safe wal \<Longrightarrow> wal_safe (wal_flush lsn wal)"
  using flush_page_wf [of "open_segment wal" False] synced_flush [of "open_segment wal" False]
  by (auto simp: wal_safe_def wal_flush_def numbered_def split: option.splits)

lemma wal_safe_room:
  assumes "wal_safe wal" "wal_room wal n = Inr wal1" "segno (open_segment wal1) < 2 ^ 32"
  shows "wal_safe wal1 \<and> sc_sync_method (creator wal1) = sc_sync_method (creator wal) \<and>
    sc_capacity (creator wal1) = sc_capacity (creator wal) \<and>
    (capacity (open_segment wal) = sc_capacity (creator wal) \<longrightarrow>
       capacity (open_segment wal1) = sc_capacity (creator wal))"
proof (cases "wal1 = wal")
  case False
  define seg where "seg = (if dirty (open_segment wal) then flush_page True (open_segment wal) else open_segment wal)"
  define dir where "dir = wal_dir (wal\<lparr>open_segment := seg\<rparr>)"
  let ?no = "Suc (last_segno (creator wal))"
  obtain seg' sc' where nx: "next_segment (creator wal) dir = Inr (seg', sc')"
    and w1: "wal1 = wal\<lparr>wal_files := dir, creator := sc', open_segment := seg'\<rparr>"
    using assms(2) False
    by (auto simp: wal_room_def res_bind_eq_Inr Let_def seg_def dir_def split: if_splits)
  have sc: "sc' = (creator wal)\<lparr>last_segno := ?no\<rparr>" and no: "segno seg' = ?no"
    and cr: "segment_create ?no (dir_file dir (segno_to_name ?no)) (sc_capacity (creator wal))
      (sc_sync_method (creator wal)) = Inr seg'"
    using nx by (auto simp: next_segment_def res_bind_eq_Inr Let_def segment_create_def)
  have lim: "?no < 2 ^ 32"
    using assms(3) no by (simp add: w1)
  have fs: "fst ` set dir = insert (segno_to_name (last_segno (creator wal))) (fst ` set (wal_files wal))"
    using assms(1) by (simp add: dir_def wal_dir_def fst_dir_set seg_def wal_safe_def numbered_def)
  have free: "segno_to_name k \<notin> fst ` set dir" if "last_segno (creator wal) < k" "k < 2 ^ 32" for k
    using assms(1) that fs segno_to_name_inj [of k "last_segno (creator wal)"]
    by (auto simp: wal_safe_def)
  have new: "dir_file dir (segno_to_name ?no) = None"
    by (rule dir_file_fresh) (use free lim in simp)
  have "synced seg'"
    using cr by (auto simp: new segment_create_def res_bind_eq_Inr synced_def)
  then show ?thesis
    using segment_create_wf [OF cr] free new by (simp add: wal_safe_def numbered_def w1 sc no)
qed (use assms in simp)

lemma wal_safe_append:
  assumes "wire_ok w" "wal_safe wal" "wal_append w r wal = Inr ((a, b), wal')"
    and "segno (open_segment wal') < 2 ^ 32"
  shows "wal_safe wal' \<and> sc_sync_method (creator wal') = sc_sync_method (creator wal) \<and>
    sc_capacity (creator wal') = sc_capacity (creator wal) \<and>
    (capacity (open_segment wal) = sc_capacity (creator wal) \<longrightarrow>
       capacity (open_segment wal') = sc_capacity (creator wal))"
proof -
  have wf: "wire_format w" using assms(1) by (simp add: wire_format_iff)
  obtain wal1 seg where p: "wal_room wal (length r) = Inr wal1" "a = current_lsn (open_segment wal1)"
    "append w r (open_segment wal1) = Inr (Some b, seg)" "wal' = wal1\<lparr>open_segment := seg\<rparr>"
    "segno (open_segment wal') = segno (open_segment wal1)"
    "sufficient_capacity (open_segment wal1) (length r) = Inr True"
    by (rule wal_append_parts [OF assms(3)])
  have s1: "wal_safe wal1 \<and> sc_sync_method (creator wal1) = sc_sync_method (creator wal) \<and>
    sc_capacity (creator wal1) = sc_capacity (creator wal) \<and>
    (capacity (open_segment wal) = sc_capacity (creator wal) \<longrightarrow>
       capacity (open_segment wal1) = sc_capacity (creator wal))"
    by (rule wal_safe_room [OF assms(2) p(1)]) (use assms(4) p(5) in simp)
  have "seg = append_loop w r HNone (open_segment wal1)"
    using p(3,6) by (simp add: append_def Let_def)
  then have "synced seg"
    using s1 synced_append_loop by (simp add: wal_safe_def)
  moreover have "seg_wf (open_segment wal1)" using s1 by (simp add: wal_safe_def)
  note wire_format.append_stream(1-4) [OF wf this p(3)]
  ultimately show ?thesis
    using s1 p(4) by (auto simp: wal_safe_def numbered_def)
qed

lemma wal_safe_run:
  "\<lbrakk>wire_ok w; wal_run w ops wal = Inr (log, wal'); wal_safe wal; segno (open_segment wal') < 2 ^ 32\<rbrakk> \<Longrightarrow>
    wal_safe wal' \<and> sc_sync_method (creator wal') = sc_sync_method (creator wal) \<and>
    sc_capacity (creator wal') = sc_capacity (creator wal) \<and>
    (capacity (open_segment wal) = sc_capacity (creator wal) \<longrightarrow>
       capacity (open_segment wal') = sc_capacity (creator wal))"
proof (induction w ops wal arbitrary: log rule: wal_run.induct)
  case (2 w lsn ops wal)
  have "capacity (open_segment (wal_flush lsn wal)) = capacity (open_segment wal)"
    by (auto simp: wal_flush_def split: option.splits)
  then show ?case using 2 wal_safe_flush [OF 2(4), of lsn] by simp
next
  case (3 w r ops wal)
  obtain a b wal1 log1 where ap: "wal_append w r wal = Inr ((a, b), wal1)"
    and run: "wal_run w ops wal1 = Inr (log1, wal')"
    using 3(3) by (auto simp: res_bind_eq_Inr)
  have "numbered wal" using 3(4) by (simp add: wal_safe_def)
  then have "segno (open_segment wal1) < 2 ^ 32"
    using wal_append_numbered [OF ap] wal_run_numbered [OF run] 3(5) by simp
  note s1 = wal_safe_append [OF 3(2,4) ap this]
  show ?case
    using 3(1) [OF ap refl refl 3(2) run _ 3(5)] s1 by auto
qed simp

text \<open>After a flush up to the end of what was appended, all of it is on the disk.\<close>

lemma flush_durable:
  assumes wf: "seg_wf (open_segment wal)" and sy: "synced (open_segment wal)"
    and m: "sync_method (open_segment wal) \<noteq> NoSync"
  defines "s \<equiv> open_segment (wal_flush (Some (current_lsn (open_segment wal))) wal)"
  shows "seg_synced s = length (seg_file s) \<and> segment_start s = segment_start (open_segment wal) \<and>
    (\<exists>pad. seg_file s = stream (open_segment wal) @ pad)"
proof (cases "current_lsn (open_segment wal) \<le> flushed_lsn (open_segment wal)")
  case True
  then have "s = open_segment wal" by (simp add: s_def wal_flush_def)
  moreover have "page_allocated (open_segment wal) = page_flushed (open_segment wal)"
    using True wf by (simp add: current_lsn_def flushed_lsn_def seg_wf_def)
  ultimately show ?thesis
    using sy m by (simp add: synced_def stream_def)
next
  case False
  then have "s = flush_page False (open_segment wal)" by (simp add: s_def wal_flush_def)
  then show ?thesis
    using flush_page_synced [OF m] flush_page_parts(1) [OF wf, of False] by (simp add: segment_start_def)
qed

section \<open>Torn files\<close>

text \<open>
  Reading a prefix of a file gives what reading the file gives, or an error, or the end of the log.
\<close>

lemma slice_take: "j \<le> k \<Longrightarrow> slice (take k xs) i j = slice xs i j"
  by (simp add: slice_def drop_take min_def)

lemma read_loop_none:
  assumes "header_from (mm ! p) = HNone"
  shows "read_loop w mm p st buf =
    (let p2 = p + 1 + (SEGMENT_PAGE_SIZE - (p + 1) mod SEGMENT_PAGE_SIZE)
     in if length mm \<le> p + 7 then Inl eof_error
        else if length mm \<le> p2 + 7 \<and> \<not> st then Inr None else read_loop w mm p2 st buf)"
  using assms by (subst read_loop.simps) (simp add: Let_def)

lemma read_loop_error:
  assumes "header_from (mm ! p) = HError"
  shows "\<exists>e. read_loop w mm p st buf = Inl e"
  using assms by (subst read_loop.simps) (simp add: Let_def)

definition chunk_end_at :: "wire \<Rightarrow> bytes \<Rightarrow> nat \<Rightarrow> nat" where
  "chunk_end_at w mm p = p + 3 + unat (get_u16 w (slice mm (p + 1) (p + 3))) + 4"

lemma read_loop_chunk:
  assumes "header_from (mm ! p) \<notin> {HNone, HError}"
  shows "read_loop w mm p st buf =
    (let q = chunk_end_at w mm p; chunk = slice mm p (q - 4); buf' = buf @ drop 3 chunk
     in if length mm \<le> p + 7 then Inl eof_error
        else if length mm < q then Inl (Err (DataCorrupted ''segment is truncated''))
        else if crc32 w chunk \<noteq> get_u32 w (slice mm (q - 4) q)
             then Inl (Err (DataCorrupted ''record is corrupted (checksum does not match)''))
        else if header_from (mm ! p) = HFull \<or> header_from (mm ! p) = HLast
             then Inr (Some (buf', q)) else read_loop w mm q True buf')"
proof -
  have e: "p + 1 + 2 = p + 3" "p + 3 - p = 3"
    by simp_all
  show ?thesis
    using assms unfolding chunk_end_at_def
    by (subst read_loop.simps, cases "header_from (mm ! p)")
      (simp_all only: Let_def e header_size record_header_type.simps insert_iff empty_iff simp_thms if_False if_True)
qed

definition torn_result :: "'a option res \<Rightarrow> 'a option res \<Rightarrow> bool" where
  "torn_result x y \<longleftrightarrow> x = y \<or> x = Inr None \<or> (\<exists>e. x = Inl e)"

lemma torn_result_simps [simp]: "torn_result (Inl e) y" "torn_result (Inr None) y" "torn_result y y"
  by (simp_all add: torn_result_def)

lemma read_loop_take: "torn_result (read_loop w (take k mm) p st buf) (read_loop w mm p st buf)"
proof (induction "length mm - p" arbitrary: p st buf rule: less_induct)
  case less
  show ?case
  proof (cases "length (take k mm) \<le> p + 7")
    case True
    then show ?thesis by (subst read_loop.simps) simp
  next
    case False
    then have l: "\<not> length mm \<le> p + 7" and k: "p + 7 < k" by simp_all
    have hd: "take k mm ! p = mm ! p" using k by simp
    consider "header_from (mm ! p) = HNone" | "header_from (mm ! p) = HError"
      | "header_from (mm ! p) \<notin> {HNone, HError}" by blast
    then show ?thesis
    proof cases
      case 1
      define p2 where "p2 = p + 1 + (SEGMENT_PAGE_SIZE - (p + 1) mod SEGMENT_PAGE_SIZE)"
      have hdt: "header_from (take k mm ! p) = HNone" using 1 hd by simp
      note eqs = read_loop_none [OF 1, of w st buf, folded p2_def]
        read_loop_none [OF hdt, of w st buf, folded p2_def]
      have "length mm - p2 < length mm - p"
        using l by (simp add: p2_def skip_measure)
      note IH = less [OF this, of st buf]
      show ?thesis
        unfolding eqs Let_def using IH l False by auto
    next
      case 2
      then obtain e where "read_loop w (take k mm) p st buf = Inl e"
        using read_loop_error [of "take k mm" p w st buf] hd by auto
      then show ?thesis by simp
    next
      case 3
      define q where "q = chunk_end_at w mm p"
      have q: "chunk_end_at w (take k mm) p = q" "p < q"
        using k by (simp_all add: q_def chunk_end_at_def slice_take)
      have hdt: "header_from (take k mm ! p) \<notin> {HNone, HError}" using 3 hd by simp
      note eqs = read_loop_chunk [OF 3, of w st buf, folded q_def]
        read_loop_chunk [OF hdt, of w st buf, unfolded q(1) hd]
      have "length mm - q < length mm - p" using l q(2) by linarith
      note IH = less [OF this, of True]
      show ?thesis
      proof (cases "length (take k mm) < q")
        case True
        then show ?thesis unfolding eqs Let_def using False by simp
      next
        case F: False
        then have "q \<le> k" "\<not> length mm < q" by simp_all
        moreover have "slice (take k mm) p (q - 4) = slice mm p (q - 4)"
          "slice (take k mm) (q - 4) q = slice mm (q - 4) q"
          using \<open>q \<le> k\<close> by (simp_all add: slice_take)
        ultimately show ?thesis
          unfolding eqs Let_def using False F l IH by simp
      qed
    qed
  qed
qed

lemma read_record_take:
  "torn_result (read_record w (view_of (take k mm)) p) (read_record w (view_of mm) p)"
proof (cases "length (take k mm) \<le> p + 7")
  case True
  then show ?thesis by (simp add: read_record_def view_of_def)
next
  case False
  then have "view_of (take k mm) = Some (take k mm)" "view_of mm = Some mm"
    by (auto simp: view_of_def)
  moreover have "\<not> length mm \<le> p + 7" using False by simp
  moreover have "torn_result (read_loop w (take k mm) p False []) (read_loop w mm p False [])"
    by (rule read_loop_take)
  ultimately show ?thesis
    using False by (auto simp: read_record_def torn_result_def)
qed

lemma wal_run_keeps_number:
  "wal_run w ops wal = Inr (log, wal') \<Longrightarrow> numbered wal \<Longrightarrow> numbered wal'"
proof (induction w ops wal arbitrary: log rule: wal_run.induct)
  case (2 w lsn ops wal)
  then show ?case by (simp add: numbered_def)
next
  case (3 w r ops wal)
  then show ?case
    using wal_append_numbered by (fastforce simp: res_bind_eq_Inr)
qed simp

context wire_format begin

lemma read_placed:
  assumes r: "r \<noteq> []" and al: "length pre mod SEGMENT_PAGE_SIZE = al mod SEGMENT_PAGE_SIZE" "al \<le> SEGMENT_PAGE_SIZE"
    "al \<noteq> SEGMENT_PAGE_SIZE - 1"
  shows "read_record w (view_of (pre @ enc w al HNone r @ rest)) (length pre) =
    Inr (Some (r, length (enc w al HNone r)))"
proof -
  have l: "7 < length (enc w al HNone r)" by (rule length_enc_pos [OF r])
  then have "view_of (pre @ enc w al HNone r @ rest) = Some (pre @ enc w al HNone r @ rest)"
    by (auto simp: view_of_def)
  then show ?thesis using read_loop_enc [OF r al, of rest] l by (simp add: read_record_def)
qed

text \<open>Where a record lies once it has been appended and flushed.\<close>

lemma record_placed:
  assumes start: "wal_open Missing options = Inr wal0" and run: "wal_run w ops wal0 = Inr (log, wal)"
    and ap: "wal_append w r wal = Inr ((a, b), wal1)" and r: "r \<noteq> []"
    and cap: "SEGMENT_PAGE_SIZE dvd segment_capacity options"
    and odd: "a mod SEGMENT_PAGE_SIZE \<noteq> SEGMENT_PAGE_SIZE - 1"
    and no: "segno (open_segment wal1) < 2 ^ 32" and sync: "wal_sync_method options \<noteq> NoSync"
  obtains pre al pad where
    "seg_file (open_segment (wal_flush (Some b) wal1)) = pre @ enc w al HNone r @ pad"
    "seg_synced (open_segment (wal_flush (Some b) wal1)) = length (seg_file (open_segment (wal_flush (Some b) wal1)))"
    "a = segment_start (open_segment (wal_flush (Some b) wal1)) + length pre" "b = a + length (enc w al HNone r)"
    "length pre mod SEGMENT_PAGE_SIZE = al mod SEGMENT_PAGE_SIZE" "al \<le> SEGMENT_PAGE_SIZE" "al \<noteq> SEGMENT_PAGE_SIZE - 1"
proof -
  have w: "wire_ok w" using wire_format_axioms by (simp add: wire_format_iff)
  note s0 = wal_safe_open [OF start]
  have "numbered wal"
    using wal_run_keeps_number [OF run] s0(1) by (simp add: wal_safe_def)
  from wal_append_numbered [OF ap this] no have no0: "segno (open_segment wal) < 2 ^ 32" by simp
  have s: "wal_safe wal" "sc_sync_method (creator wal) = wal_sync_method options"
    "sc_capacity (creator wal) = segment_capacity options"
    "capacity (open_segment wal) = segment_capacity options"
    using wal_safe_run [OF w run s0(1) no0] s0 by simp_all
  have s1: "wal_safe wal1" "sc_sync_method (creator wal1) = wal_sync_method options"
    using wal_safe_append [OF w s(1) ap no] s by simp_all
  obtain wal2 seg where p: "wal_room wal (length r) = Inr wal2" "a = current_lsn (open_segment wal2)"
    "append w r (open_segment wal2) = Inr (Some b, seg)" "wal1 = wal2\<lparr>open_segment := seg\<rparr>"
    "segno (open_segment wal1) = segno (open_segment wal2)"
    by (rule wal_append_parts [OF ap])
  have s2: "wal_safe wal2" "capacity (open_segment wal2) = segment_capacity options"
    using wal_safe_room [OF s(1) p(1)] no p(5) s by simp_all
  then have wf: "seg_wf (open_segment wal2)" by (simp add: wal_safe_def)
  note ast = append_stream [OF wf p(3)]
  define pre where "pre = stream (open_segment wal2)"
  define al where "al = page_allocated (open_segment wal2)"
  define start1 where "start1 = segment_start (open_segment wal2)"
  have st: "stream seg = pre @ enc w al HNone r" using ast(5) by (simp add: pre_def al_def)
  have a: "a = start1 + length pre"
    using p(2) current_lsn_stream [OF wf] by (simp add: start1_def pre_def)
  have ss: "segment_start seg = start1" using ast(2,3) by (simp add: segment_start_def start1_def)
  have b: "b = start1 + length (stream seg)" "b = current_lsn seg"
    using ast(7) current_lsn_stream [OF ast(1)] ss by simp_all
  have al: "al \<le> SEGMENT_PAGE_SIZE" "length pre mod SEGMENT_PAGE_SIZE = al mod SEGMENT_PAGE_SIZE"
    using wf length_stream [OF wf] by (auto simp: seg_wf_def al_def pre_def elim!: dvdE)
  have "SEGMENT_PAGE_SIZE dvd start1"
    using cap s2(2) by (simp add: start1_def segment_start_def)
  then have "a mod SEGMENT_PAGE_SIZE = al mod SEGMENT_PAGE_SIZE"
    using al(2) a by (auto elim!: dvdE)
  then have al': "al \<noteq> SEGMENT_PAGE_SIZE - 1"
    using odd page_size_large(1) by auto
  have m: "sync_method (open_segment wal1) \<noteq> NoSync" and wf1: "seg_wf (open_segment wal1)" "synced (open_segment wal1)"
    using s1 sync by (simp_all add: wal_safe_def)
  have bb: "b = current_lsn (open_segment wal1)" using b(2) p(4) by simp
  obtain pad where pad: "seg_file (open_segment (wal_flush (Some b) wal1)) = stream seg @ pad"
    "seg_synced (open_segment (wal_flush (Some b) wal1)) = length (seg_file (open_segment (wal_flush (Some b) wal1)))"
    "segment_start (open_segment (wal_flush (Some b) wal1)) = start1"
    using flush_durable [OF wf1 m] p(4) ss by (auto simp: bb)
  show ?thesis
    by (rule that [of pre al pad]) (use pad st a b(1) al al' in simp_all)
qed

end

text \<open>
  C29: a torn write is noticed. When only a prefix of a segment's file is there, reading at any
  position gives what it gives on the whole file, or an error, or the end of the log; it never gives
  another record.
\<close>
theorem torn_write_detected:
  "read_record w (view_of (take k content)) p = read_record w (view_of content) p \<or>
   read_record w (view_of (take k content)) p = Inr None \<or>
   (\<exists>e. read_record w (view_of (take k content)) p = Inl e)"
  using read_record_take [of w k content p] by (simp add: torn_result_def)

text \<open>
  C32: a record can get lost to the reader. When the record before it ends one byte before the end
  of a page, the reader meets the zero byte there, steps over it to the page boundary and from there
  over the whole next page; a record on that page is not found, though it is in the file.
\<close>
theorem record_after_short_page_lost:
  "\<lbrakk>wire_ok w; seg_wf s; page_allocated s = SEGMENT_PAGE_SIZE - 1; r \<noteq> [];
    length r \<le> SEGMENT_PAGE_SIZE - 7; append w r s = Inr (Some p, s')\<rbrakk> \<Longrightarrow>
   read_record w (view_of (stream s')) (length (stream s)) = Inr None"
proof -
  assume asm: "wire_ok w" "seg_wf s" "page_allocated s = SEGMENT_PAGE_SIZE - 1" "r \<noteq> []"
    "length r \<le> SEGMENT_PAGE_SIZE - 7" "append w r s = Inr (Some p, s')"
  then have w: "wire_format w" by (simp add: wire_format_iff)
  have len: "length (enc w (SEGMENT_PAGE_SIZE - 1) HNone r) = 1 + (length r + 7)"
    and e: "\<exists>tl. enc w (SEGMENT_PAGE_SIZE - 1) HNone r = 0 # tl"
    using wire_format.enc_step [OF w asm(4), of "SEGMENT_PAGE_SIZE - 1" HNone] asm(5) page_size_large(1)
      wire_format.length_frame [OF w]
    by (simp_all add: pad_of_def chunk_len_def chunk_start_def)
  let ?n = "length (stream s)"
  let ?mm = "stream s @ enc w (SEGMENT_PAGE_SIZE - 1) HNone r"
  have st: "stream s' = ?mm"
    using wire_format.append_stream(5) [OF w asm(2,6)] asm(3) by simp
  have n: "?n = page_start s + (SEGMENT_PAGE_SIZE - 1)" and d: "SEGMENT_PAGE_SIZE dvd page_start s"
    using length_stream [OF asm(2)] asm(2,3) by (simp_all add: seg_wf_def)
  have "(?n + 1) mod SEGMENT_PAGE_SIZE = 0"
    using n d page_size_large(1) by simp
  then have p2: "?n + 1 + (SEGMENT_PAGE_SIZE - (?n + 1) mod SEGMENT_PAGE_SIZE) = ?n + 1 + SEGMENT_PAGE_SIZE"
    by simp
  have z: "?mm ! ?n = 0" using e by auto
  have lt: "?n + 7 < length ?mm" using len asm(4) by (cases r) simp_all
  have le: "length ?mm \<le> ?n + 1 + SEGMENT_PAGE_SIZE + 7"
    unfolding length_append len using asm(5) by linarith
  have "read_loop w ?mm ?n False [] = Inr None"
    using wire_format.read_skip [OF w z lt refl, of False "[]"] le by (simp only: p2) simp
  then show ?thesis
    using lt by (simp add: read_record_def view_of_def st)
qed


lemma short_page_segment:
  obtains p s p' s' where "append std_wire (replicate (SEGMENT_PAGE_SIZE - 8) 1) one_page_segment = Inr (Some p, s)"
    "seg_wf s" "page_allocated s = SEGMENT_PAGE_SIZE - 1" "append std_wire [2] s = Inr (Some p', s')"
proof -
  let ?r = "replicate (SEGMENT_PAGE_SIZE - 8) (1 :: u8)"
  have r: "?r \<noteq> []" "length ?r \<le> SEGMENT_PAGE_SIZE" "length ?r \<le> SEGMENT_PAGE_SIZE - 7"
    using page_size_large(2) by auto
  obtain s where s: "append std_wire ?r one_page_segment = Inr (Some (current_lsn s), s)" "seg_wf s"
      "stream s = enc std_wire 0 HNone ?r" "segno s = 1" "capacity s = SEGMENT_PAGE_SIZE"
    by (rule std.first_append [OF first_segment order_refl r(1) order_refl r(2)])
  have l: "page_start s + page_allocated s = SEGMENT_PAGE_SIZE - 1"
    using length_stream [OF s(2)] s(3) std.enc_single [OF r(1,3)] page_size_large(2) by simp
  have "page_start s = 0"
  proof (rule ccontr)
    assume "page_start s \<noteq> 0"
    then have "SEGMENT_PAGE_SIZE \<le> page_start s"
      using s(2) by (auto simp: seg_wf_def intro: dvd_imp_le)
    then show False using l page_size_pos by linarith
  qed
  then have al: "page_allocated s = SEGMENT_PAGE_SIZE - 1" "page_start s = 0" using l by simp_all
  have "sufficient_capacity s 1 = Inr True"
    using al s(5) page_size_large(2) by (simp add: sufficient_capacity_def)
  then have "append std_wire [2] s = Inr (Some (current_lsn (append_loop std_wire [2] HNone s)),
      append_loop std_wire [2] HNone s)"
    by (simp add: append_def Let_def)
  with s(1,2) al(1) show ?thesis by (rule that)
qed

theorem record_after_short_page_lost_witness:
  "\<exists>s p s'. page_allocated s = SEGMENT_PAGE_SIZE - 1 \<and> append std_wire [2] s = Inr (Some p, s') \<and>
     read_record std_wire (view_of (stream s')) (length (stream s)) = Inr None"
proof -
  obtain p s p' s' where s: "seg_wf s" "page_allocated s = SEGMENT_PAGE_SIZE - 1"
    "append std_wire [2] s = Inr (Some p', s')"
    by (rule short_page_segment)
  have "length ([2] :: bytes) \<le> SEGMENT_PAGE_SIZE - 7"
    using page_size_large(2) by simp
  from record_after_short_page_lost [OF std_wire_ok s(1,2) _ this s(3)] s show ?thesis by blast
qed

lemma append_end: "wal_append w r wal = Inr ((a, b), wal') \<Longrightarrow> b = current_lsn (open_segment wal')"
  by (auto simp: wal_append_def append_def res_bind_eq_Inr Let_def split: option.splits if_splits)

context wire_format begin

lemma second_append:
  assumes s: "seg_wf s" "length (stream s) = n" "n + 8 < SEGMENT_PAGE_SIZE - 8" "segno s = 1"
    "SEGMENT_PAGE_SIZE \<le> capacity s"
  shows "sufficient_capacity s 1 = Inr True" "\<exists>s'. append w [x] s = Inr (Some (n + 8), s') \<and> segno s' = 1 \<and>
      seg_wf s' \<and> length (stream s') = n + 8"
proof -
  have l: "page_start s + page_allocated s = n" using length_stream [OF s(1)] s(2) by simp
  have "page_start s = 0"
  proof (rule ccontr)
    assume "page_start s \<noteq> 0"
    then have "SEGMENT_PAGE_SIZE \<le> page_start s" using s(1) by (auto simp: seg_wf_def intro: dvd_imp_le)
    then show False using l s(3) by linarith
  qed
  then have al: "page_allocated s = n" "page_start s = 0" using l by simp_all
  show "sufficient_capacity s 1 = Inr True"
    using al s(3,5) page_size_pos by (simp add: sufficient_capacity_def Let_def) linarith
  then have ap: "append w [x] s = Inr (Some (current_lsn (append_loop w [x] HNone s)), append_loop w [x] HNone s)"
    by (simp add: append_def Let_def)
  note st = append_stream [OF s(1) ap]
  have "chunk_start n = n" "pad_of n = []" "chunk_len n [x] = 1"
    using s(3) by (auto simp: chunk_len_def chunk_start_def pad_of_def)
  then have "enc w n HNone [x] = frame w HFull [x]" using enc_step [of "[x]" n HNone] by simp
  then have "length (stream (append_loop w [x] HNone s)) = n + 8"
    using st(5) s(2) al by (simp add: length_frame)
  then show "\<exists>s'. append w [x] s = Inr (Some (n + 8), s') \<and> segno s' = 1 \<and>
      seg_wf s' \<and> length (stream s') = n + 8"
    using ap st(1-3) s(4) current_lsn_stream [OF st(1)] by (simp add: segment_start_def)
qed

end

text \<open>Two records in a new log with the default options.\<close>

lemma two_records:
  obtains wal0 wal1 wal2 where "wal_open Missing wal_options_default = Inr wal0"
    "wal_append std_wire [7, 8] wal0 = Inr ((0, 9), wal1)" "wal_append std_wire [9] wal1 = Inr ((9, 17), wal2)"
    "segno (open_segment wal2) = 1" "seg_wf (open_segment wal2)" "length (stream (open_segment wal2)) = 17"
    "segno (open_segment wal1) = 1"
proof -
  let ?cap = "segment_capacity wal_options_default"
  obtain wal0 log wal where w: "wal_open Missing wal_options_default = Inr wal0"
      "wal_run std_wire [OpAppend [7, 8], OpFlush None] wal0 = Inr (log, wal)" "log = [([7, 8], 0, 9)]"
      "segno (open_segment wal) = 1"
    using std.wal_open_default by blast
  then obtain wal1 where ap: "wal_append std_wire [7, 8] wal0 = Inr ((0, 9), wal1)" "segno (open_segment wal1) = 1"
    by (auto simp: res_bind_eq_Inr)
  note s0 = wal_safe_open [OF w(1)]
  have s1: "seg_wf (open_segment wal1)" "capacity (open_segment wal1) = ?cap"
    using wal_safe_append [OF std_wire_ok s0(1) ap(1)] ap(2) s0 by (simp_all add: wal_safe_def)
  have c9: "current_lsn (open_segment wal1) = 9" using append_end [OF ap(1)] by simp
  then have l: "length (stream (open_segment wal1)) = 9"
    using current_lsn_stream [OF s1(1)] ap(2) by (simp add: segment_start_def)
  have pg: "9 + 8 < SEGMENT_PAGE_SIZE - 8" "SEGMENT_PAGE_SIZE \<le> capacity (open_segment wal1)"
    using page_size_large(2) s1(2) by (simp_all add: wal_options_default_def SEGMENT_PAGE_SIZE_def)
  have "sufficient_capacity (open_segment wal1) 1 = Inr True"
    by (rule std.second_append(1) [OF s1(1) l pg(1) ap(2) pg(2)])
  then obtain wal2 where ap2: "wal_append std_wire [9] wal1 = Inr ((9, 17), wal2)" "segno (open_segment wal2) = 1"
    "seg_wf (open_segment wal2)" "length (stream (open_segment wal2)) = 17"
    using std.second_append(2) [OF s1(1) l pg(1) ap(2) pg(2), of 9] c9
    by (auto simp: wal_append_def wal_room_def)
  show ?thesis by (rule that [OF w(1) ap(1) ap2 ap(2)])
qed

end
