(* ===== verification/Wal_Crash.thy ===== *)
theory Wal_Crash
  imports Wal_Safety "HOL-Library.Sublist"
begin

text \<open>
  What a crash leaves of a log and what opening the log again makes of it. The files of a log only grow
  at their end: what was in a file stays its beginning, whatever is appended and flushed later. A
  crash leaves the closed segments, which were synced before the next one was opened, and of the open segment
  what was synced, followed by anything (a torn write). Opening the directory again goes on in the last segment,
  padded to a page, and a reader that starts at the position of a flushed record still finds it.
\<close>

section \<open>Files grow at their end\<close>

definition listed :: "bytes list \<Rightarrow> wal \<Rightarrow> bool" where
  "listed cs wal \<longleftrightarrow> cs \<noteq> [] \<and> segno (open_segment wal) = length cs \<and>
     wal_files wal = dir_of (butlast cs) \<and> last cs = seg_file (open_segment wal)"

definition grown :: "bytes list \<Rightarrow> bytes list \<Rightarrow> bool" where
  "grown cs cs' \<longleftrightarrow> length cs \<le> length cs' \<and> (\<forall>i<length cs. prefix (cs ! i) (cs' ! i))"

lemma grown_refl [simp]: "grown cs cs"
  by (simp add: grown_def)

lemma grown_trans: "grown a b \<Longrightarrow> grown b c \<Longrightarrow> grown a c"
  unfolding grown_def by (meson less_le_trans order_trans prefix_order.trans)

lemma grown_snoc: "grown cs (cs @ ds)"
  by (simp add: grown_def nth_append)

lemma listed_dir:
  assumes "listed cs wal" "length cs < 2 ^ 32"
  shows "wal_dir wal = dir_of cs"
proof -
  obtain k where k: "length cs = Suc k" using assms(1) by (cases "length cs") (auto simp: listed_def)
  have "segno_to_name (Suc k) \<notin> fst ` set (dir_of (butlast cs))"
    by (rule name_fresh) (use k assms(2) in simp_all)
  then have "wal_dir wal = dir_of (butlast cs @ [last cs])"
    using assms(1) k by (simp add: wal_dir_def listed_def dir_set_fresh dir_of_snoc)
  then show ?thesis using assms(1) append_butlast_last_id by (metis listed_def)
qed

lemma listed_write:
  assumes l: "listed cs wal" and p: "prefix (seg_file (open_segment wal)) (seg_file s)"
    and n: "segno s = segno (open_segment wal)"
  shows "listed (butlast cs @ [seg_file s]) (wal\<lparr>open_segment := s\<rparr>) \<and> grown cs (butlast cs @ [seg_file s])"
proof -
  have ne: "cs \<noteq> []" using l by (simp add: listed_def)
  have "prefix (cs ! i) ((butlast cs @ [seg_file s]) ! i)" if "i < length cs" for i
  proof (cases "i < length (butlast cs)")
    case True
    then show ?thesis by (simp add: nth_append nth_butlast)
  next
    case False
    then have "i = length cs - 1" using that by simp
    then show ?thesis using l p ne by (simp add: nth_append listed_def last_conv_nth)
  qed
  then show ?thesis using l n ne by (simp add: listed_def grown_def)
qed

lemma flush_page_grows: "prefix (seg_file s) (seg_file (flush_page force s))"
  by (simp add: flush_page_def Let_def)

lemma append_loop_grows: "prefix (seg_file s) (seg_file (append_loop w r ty s))"
proof (induction w r ty s rule: append_loop.induct)
  case (1 w r ty s)
  have "prefix (seg_file s) (seg_file (room_for_chunk s))"
    using flush_page_grows by (simp add: room_for_chunk_def)
  then show ?case
    using 1 by (subst append_loop.simps) (auto simp: Let_def write_chunk_def intro: prefix_order.trans)
qed

lemma flush_page_segno [simp]: "segno (flush_page force s) = segno s"
  by (simp add: flush_page_def Let_def)

lemma listed_flush: "listed cs wal \<Longrightarrow> \<exists>cs'. listed cs' (wal_flush lsn wal) \<and> grown cs cs'"
  using listed_write [of cs wal "flush_page False (open_segment wal)"] flush_page_grows [of "open_segment wal" False]
  by (auto simp: wal_flush_def split: option.splits)

lemma listed_room:
  assumes l: "listed cs wal" and nb: "numbered wal" and r: "wal_room wal n = Inr wal1"
    and no: "segno (open_segment wal1) < 2 ^ 32"
  shows "\<exists>cs'. listed cs' wal1 \<and> grown cs cs'"
proof (cases "wal1 = wal")
  case False
  define s where "s = (if dirty (open_segment wal) then flush_page True (open_segment wal) else open_segment wal)"
  define wal0 where "wal0 = wal\<lparr>open_segment := s\<rparr>"
  define cs0 where "cs0 = butlast cs @ [seg_file s]"
  obtain seg sc where nx: "next_segment (creator wal) (wal_dir wal0) = Inr (seg, sc)"
    and w1: "wal1 = wal\<lparr>wal_files := wal_dir wal0, creator := sc, open_segment := seg\<rparr>"
    using r False by (auto simp: wal_room_def res_bind_eq_Inr Let_def s_def wal0_def split: if_splits)
  have s: "segno s = segno (open_segment wal)" "prefix (seg_file (open_segment wal)) (seg_file s)"
    using flush_page_grows by (simp_all add: s_def)
  have l0: "listed cs0 wal0" "grown cs cs0" using listed_write [OF l s(2,1)] by (simp_all add: wal0_def cs0_def)
  have seg_no: "segno seg = Suc (length cs0)"
    using nx nb l0(1) s(1) by (auto simp: next_segment_def segment_create_def res_bind_eq_Inr Let_def numbered_def listed_def wal0_def)
  have lim: "Suc (length cs0) < 2 ^ 32" using no seg_no by (simp add: w1)
  have d: "wal_dir wal0 = dir_of cs0" using listed_dir [OF l0(1)] lim by simp
  have "dir_file (dir_of cs0) (segno_to_name (Suc (length cs0))) = None"
    by (rule dir_file_fresh, rule name_fresh) (use lim in simp_all)
  then have "seg_file seg = []"
    using nx seg_no by (auto simp: next_segment_def segment_create_def res_bind_eq_Inr Let_def d)
  then have "listed (cs0 @ [[]]) wal1" using seg_no d by (simp add: listed_def w1)
  then show ?thesis using grown_trans [OF l0(2) grown_snoc] by blast
qed (use l in auto)

lemma listed_append:
  assumes l: "listed cs wal" and nb: "numbered wal" and a: "wal_append w r wal = Inr (p, wal1)"
    and no: "segno (open_segment wal1) < 2 ^ 32"
  shows "\<exists>cs'. listed cs' wal1 \<and> grown cs cs'"
proof -
  obtain wal2 seg where p: "wal_room wal (length r) = Inr wal2" "append w r (open_segment wal2) = Inr (Some (snd p), seg)"
    "wal1 = wal2\<lparr>open_segment := seg\<rparr>" "segno (open_segment wal1) = segno (open_segment wal2)"
    "sufficient_capacity (open_segment wal2) (length r) = Inr True"
    by (rule wal_append_parts [of w r wal "fst p" "snd p" wal1]) (use a in simp_all)
  obtain cs' where cs': "listed cs' wal2" "grown cs cs'" using listed_room [OF l nb p(1)] no p(4) by auto
  have s: "seg = append_loop w r HNone (open_segment wal2)" using p(2,5) by (simp add: append_def Let_def)
  show ?thesis
    using listed_write [OF cs'(1), of seg] append_loop_grows grown_trans [OF cs'(2)] by (auto simp: p(3) s)
qed

lemma listed_run:
  "\<lbrakk>wal_run w ops wal = Inr (log, wal'); listed cs wal; numbered wal; segno (open_segment wal') < 2 ^ 32\<rbrakk> \<Longrightarrow>
    \<exists>cs'. listed cs' wal' \<and> grown cs cs'"
proof (induction w ops wal arbitrary: log cs rule: wal_run.induct)
  case (2 w lsn ops wal)
  obtain cs1 where "listed cs1 (wal_flush lsn wal)" "grown cs cs1" using listed_flush [OF 2(3)] by blast
  moreover have "numbered (wal_flush lsn wal)" using 2(4) by (simp add: numbered_def)
  ultimately show ?case using 2 grown_trans by (metis wal_run.simps(2))
next
  case (3 w r ops wal)
  obtain a b wal1 log1 where ap: "wal_append w r wal = Inr ((a, b), wal1)"
    and run: "wal_run w ops wal1 = Inr (log1, wal')"
    using 3(2) by (auto simp: res_bind_eq_Inr)
  note n1 = wal_append_numbered [OF ap 3(4)]
  then have no: "segno (open_segment wal1) < 2 ^ 32"
    using wal_run_numbered [OF run] 3(5) by simp
  obtain cs1 where "listed cs1 wal1" "grown cs cs1" using listed_append [OF 3(3,4) ap no] by blast
  then show ?case using 3(1) [OF ap refl refl run _ conjunct1 [OF n1] 3(5)] grown_trans by blast
qed auto

lemma listed_open: "wal_open Missing options = Inr wal0 \<Longrightarrow> listed [[]] wal0"
  by (auto simp: wal_open_def next_segment_def res_bind_eq_Inr Let_def dir_file_def segment_create_def listed_def dir_of_def)

section \<open>Opening a log again\<close>

lemma mset_dir_set:
  "\<lbrakk>distinct (map fst dir); n \<in> fst ` set dir\<rbrakk> \<Longrightarrow>
    mset (dir_set n c dir) = image_mset (\<lambda>(m, e). (m, if m = n then RegularFile c else e)) (mset dir)"
proof (induction n c dir rule: dir_set.induct)
  case (2 name c n e dir)
  show ?case
  proof (cases "n = name")
    case True
    then have "name \<notin> fst ` set dir" using 2(2) by simp
    then have "image_mset (\<lambda>(m, e). (m, if m = name then RegularFile c else e)) (mset dir) = image_mset id (mset dir)"
      by (intro image_mset_cong) (auto simp: image_iff)
    then show ?thesis using True by simp
  next
    case False
    then show ?thesis using 2 by auto
  qed
qed simp

lemma distinct_dir_of: "length cs < 2 ^ 32 \<Longrightarrow> distinct (map fst (dir_of cs))"
  by (auto simp: dir_of_def distinct_map inj_on_def segno_to_name_inj)

lemma dir_of_update_last:
  assumes "cs \<noteq> []" "length cs < 2 ^ 32"
  shows "image_mset (\<lambda>(m, e). (m, if m = segno_to_name (length cs) then RegularFile c else e)) (mset (dir_of cs)) =
    mset (dir_of (butlast cs @ [c]))"
proof -
  obtain xs x where cs: "cs = xs @ [x]" using assms(1) by (metis rev_exhaust)
  have "segno_to_name (Suc i) \<noteq> segno_to_name (Suc (length xs))" if "i < length xs" for i
    using that assms(2) segno_to_name_inj [of "Suc i" "Suc (length xs)"] by (simp add: cs)
  then have "map (\<lambda>(m, e). (m, if m = segno_to_name (Suc (length xs)) then RegularFile c else e)) (dir_of xs) = dir_of xs"
    by (auto simp: dir_of_def)
  then have "image_mset (\<lambda>(m, e). (m, if m = segno_to_name (Suc (length xs)) then RegularFile c else e)) (mset (dir_of xs)) =
      mset (dir_of xs)"
    by (metis mset_map)
  then show ?thesis by (simp add: cs dir_of_snoc)
qed

lemma scan_good:
  "\<forall>x\<in>set dir. good_entry cap x \<Longrightarrow>
    scan_segments dir m = Inr (fold (\<lambda>x m. max m (fst (entry_segment x))) dir m)"
proof (induction dir arbitrary: m)
  case (Cons x dir)
  obtain name e where x: "x = (name, e)" by (cases x)
  obtain no c where g: "filename_to_segno name = Inr no" "e = RegularFile c"
    using Cons.prems by (auto simp: good_entry_def x)
  have "(if m < no then no else m) = max m no" by (simp add: max_def)
  then show ?case using Cons g by (simp add: x entry_segment_def)
qed simp

lemma wal_reopen:
  assumes cap: "7 < segment_capacity options" and small: "length cs < 2 ^ 32" and ne: "cs \<noteq> []"
    and fits: "\<forall>c\<in>set cs. length c \<le> segment_capacity options" and perm: "mset dir = mset (dir_of cs)"
  obtains wal where "wal_open (Directory dir) options = Inr wal" "wal_capacity wal = segment_capacity options"
    "mset (wal_dir wal) = mset (dir_of (butlast cs @ [last cs @ page_pad (length (last cs))]))"
    "wal_current_lsn wal = (length cs - 1) * segment_capacity options + length (last cs @ page_pad (length (last cs)))"
proof -
  let ?cap = "segment_capacity options" and ?n = "length cs"
  let ?last = "last cs @ page_pad (length (last cs))"
  have pm: "mset (map entry_segment dir) = mset (map (\<lambda>i. (Suc i, view_of (cs ! i))) [0..<?n])"
    by (rule dir_segments(1) [OF small perm])
  have "fst ` entry_segment ` set dir = Suc ` {0..<?n}"
    using mset_eq_setD [OF pm] by (simp add: image_image)
  moreover have "Max (insert 0 (Suc ` {0..<?n})) = ?n"
    using ne by (intro Max_eqI) (auto intro: image_eqI [of _ _ "?n - 1"] simp: Suc_le_eq)
  ultimately have "fold (\<lambda>x m. max m (fst (entry_segment x))) dir 0 = ?n"
    using fold_max [of "\<lambda>x. fst (entry_segment x)" dir 0] by (simp add: image_image)
  then have scan: "scan_segments dir 0 = Inr ?n"
    using scan_good [OF dir_segments(2) [OF small perm fits], of 0] by simp
  have "mset (map fst dir) = mset (map fst (dir_of cs))" using perm by (metis mset_map)
  then have dist: "distinct (map fst dir)" using distinct_dir_of [OF small] mset_eq_imp_distinct_iff by blast
  have mem: "(segno_to_name ?n, RegularFile (last cs)) \<in> set dir"
    using ne by (auto simp: mset_eq_setD [OF perm] dir_of_def last_conv_nth intro: image_eqI [of _ _ "?n - 1"])
  then have df: "dir_file dir (segno_to_name ?n) = Some (last cs)" and nm: "segno_to_name ?n \<in> fst ` set dir"
    using dist by (force simp: dir_file_def map_of_eq_Some_iff)+
  have len: "length (last cs) \<le> ?cap" using fits ne by simp
  then obtain seg where seg: "segment_open ?n (Some (last cs)) ?cap (wal_sync_method options) = Inr seg"
    "seg_file seg = ?last" "segno seg = ?n" "capacity seg = ?cap" "page_allocated seg = 0" "page_start seg = length ?last"
    using cap by (auto simp: segment_open_def check_capacity_def Let_def page_pad_def)
  define wal where "wal = \<lparr>wal_files = dir, wal_capacity = ?cap, creator = \<lparr>last_segno = ?n, sc_capacity = ?cap,
      sc_sync_method = wal_sync_method options\<rparr>, open_segment = seg\<rparr>"
  have "wal_open (Directory dir) options = Inr wal"
    using scan df seg(1) ne by (simp add: wal_open_def creator_open_segment_def wal_def Let_def)
  moreover have "mset (wal_dir wal) = mset (dir_of (butlast cs @ [?last]))"
    using mset_dir_set [OF dist nm] dir_of_update_last [OF ne small] perm seg(2,3) by (simp add: wal_dir_def wal_def)
  moreover have "wal_current_lsn wal = (?n - 1) * ?cap + length ?last"
    using seg by (simp add: wal_current_lsn_def current_lsn_def segment_start_def wal_def)
  ultimately show ?thesis using that [of wal] by (simp add: wal_def)
qed

context wire_format begin

text \<open>A record that lies at position \<open>a\<close> in the files is read from the log that is opened on them.\<close>

lemma reopened_read:
  assumes cap: "SEGMENT_PAGE_SIZE dvd segment_capacity options" "7 < segment_capacity options"
    and small: "length cs < 2 ^ 32" and fits: "\<forall>c\<in>set cs. length c \<le> segment_capacity options"
    and perm: "mset dir = mset (dir_of cs)" and i: "i < length cs"
    and pre: "prefix (pre @ enc w al HNone r) (cs ! i)" "a = i * segment_capacity options + length pre" and r: "r \<noteq> []"
    and al: "length pre mod SEGMENT_PAGE_SIZE = al mod SEGMENT_PAGE_SIZE" "al \<le> SEGMENT_PAGE_SIZE" "al \<noteq> SEGMENT_PAGE_SIZE - 1"
  shows "\<exists>wal rd. wal_open (Directory dir) options = Inr wal \<and> wal_get_reader a wal = Inr rd \<and>
    reader_read_record w rd a = Inr (Some (a + length (enc w al HNone r), r)) \<and> a \<le> wal_current_lsn wal"
proof -
  let ?cap = "segment_capacity options"
  define cs' where "cs' = butlast cs @ [last cs @ page_pad (length (last cs))]"
  have ne: "cs \<noteq> []" using i by auto
  obtain wal where w: "wal_open (Directory dir) options = Inr wal" "wal_capacity wal = ?cap"
    "mset (wal_dir wal) = mset (dir_of cs')" "wal_current_lsn wal = (length cs - 1) * ?cap + length (last cs')"
    using wal_reopen [OF cap(2) small ne fits perm] unfolding cs'_def by (metis last_snoc)
  have l': "length cs' = length cs" using ne by (simp add: cs'_def)
  have grow: "prefix (cs ! i) (cs' ! i)"
    using i ne by (cases "i < length cs - 1") (auto simp: cs'_def nth_append nth_butlast last_conv_nth not_less less_Suc_eq le_less_Suc_eq
      dest: le_antisym)
  have fits': "\<forall>c\<in>set cs'. length c \<le> ?cap"
    using fits padded_length [OF cap(1), of "length (last cs)"] ne by (auto simp: cs'_def dest: in_set_butlastD)
  obtain rest where rest: "cs' ! i = pre @ enc w al HNone r @ rest"
    using pre(1) grow by (metis append.assoc prefix_def prefix_order.trans)
  have lens: "length pre + length (enc w al HNone r) \<le> ?cap"
    using fits' rest i l' by (metis append.assoc length_append le_add1 le_trans nth_mem)
  have e: "7 < length (enc w al HNone r)" by (rule length_enc_pos [OF r])
  have lt: "length pre < ?cap" using lens e by linarith
  have dm: "a div ?cap = i" "a mod ?cap = length pre" using div_mod_segment [OF lt, of i] pre(2) by simp_all
  have rd: "wal_get_reader a wal = Inr \<lparr>start_segno = Suc i, start_pos = a, rd_capacity = ?cap, segments = map view_of (drop i cs')\<rparr>"
    unfolding wal_get_reader_def w(2)
    by (rule reader_open_at [OF cap(2) _ dm(1) _ fits' w(3)]) (use small i l' in simp_all)
  have "reader_read_record w \<lparr>start_segno = Suc i, start_pos = a, rd_capacity = ?cap, segments = map view_of (drop i cs')\<rparr> a =
      Inr (Some (a + length (enc w al HNone r), r))"
    using read_placed [OF r al, of rest] i l' cap(2) dm
    by (subst reader_read_record.simps) (simp add: pos_to_segment_def rest)
  moreover have "a \<le> wal_current_lsn wal"
  proof (cases "i = length cs - 1")
    case True
    then have "last cs' = cs' ! i" using l' ne by (metis last_conv_nth length_greater_0_conv)
    then show ?thesis using True rest by (simp add: w(4) pre(2))
  next
    case False
    then have "Suc i \<le> length cs - 1" using i by simp
    then have "Suc i * ?cap \<le> (length cs - 1) * ?cap" by (rule mult_le_mono1)
    then show ?thesis using lt by (simp add: w(4) pre(2))
  qed
  ultimately show ?thesis using w(1) rd by blast
qed

end

section \<open>A crash\<close>

text \<open>
  The directory after a crash: the closed segments as they are, the open segment with some content. Of the open segment
  at least what was synced is there.
\<close>

definition crash_dir :: "wal \<Rightarrow> bytes \<Rightarrow> directory" where
  "crash_dir wal content = dir_set (segno_to_name (segno (open_segment wal))) content (wal_files wal)"

definition survives :: "segment \<Rightarrow> bytes \<Rightarrow> bool" where
  "survives s content \<longleftrightarrow> prefix (take (seg_synced s) (seg_file s)) content"

definition dir_fits :: "nat \<Rightarrow> directory \<Rightarrow> bool" where
  "dir_fits cap dir \<longleftrightarrow> (\<forall>(n, e)\<in>set dir. \<forall>c. e = RegularFile c \<longrightarrow> length c \<le> cap)"

lemma crash_listed:
  assumes l: "listed cs wal" and sv: "survives (open_segment wal) content"
    and sy: "seg_synced (open_segment wal) = length (seg_file (open_segment wal))" and no: "length cs < 2 ^ 32"
  shows "crash_dir wal content = dir_of (butlast cs @ [content])" "grown cs (butlast cs @ [content])"
proof -
  let ?s = "(open_segment wal)\<lparr>seg_file := content\<rparr>"
  have "prefix (seg_file (open_segment wal)) (seg_file ?s)" using sv sy by (simp add: survives_def)
  from listed_write [OF l this] have n: "listed (butlast cs @ [content]) (wal\<lparr>open_segment := ?s\<rparr>)"
    "grown cs (butlast cs @ [content])" by simp_all
  have "crash_dir wal content = wal_dir (wal\<lparr>open_segment := ?s\<rparr>)" by (simp add: crash_dir_def wal_dir_def)
  then show "crash_dir wal content = dir_of (butlast cs @ [content])" "grown cs (butlast cs @ [content])"
    using listed_dir [OF n(1)] n(2) no l by (simp_all add: listed_def)
qed

context wire_format begin

lemma flushed_record_after_restart:
  assumes start: "wal_open Missing options = Inr wal0" and run: "wal_run w ops wal0 = Inr (log, wal)"
    and ap: "wal_append w r wal = Inr ((a, b), wal1)" and r: "r \<noteq> []"
    and cap: "SEGMENT_PAGE_SIZE dvd segment_capacity options"
    and odd: "a mod SEGMENT_PAGE_SIZE \<noteq> SEGMENT_PAGE_SIZE - 1"
    and sync: "wal_sync_method options \<noteq> NoSync"
    and later: "wal_run w ops' (wal_flush (Some b) wal1) = Inr (log', wal2)" and no: "segno (open_segment wal2) < 2 ^ 32"
    and dir: "mset dir = mset (crash_dir wal2 content)" "survives (open_segment wal2) content"
      "dir_fits (segment_capacity options) dir"
  shows "\<exists>wal3 rd. wal_open (Directory dir) options = Inr wal3 \<and> wal_get_reader a wal3 = Inr rd \<and>
    reader_read_record w rd a = Inr (Some (b, r)) \<and> a \<le> wal_current_lsn wal3"
proof -
  define walf where "walf = wal_flush (Some b) wal1"
  have w: "wire_ok w" using wire_format_axioms by (simp add: wire_format_iff)
  note s0 = wal_safe_open [OF start]
  have nb0: "numbered wal0" using s0(1) by (simp add: wal_safe_def)
  have nb: "numbered wal" by (rule wal_run_keeps_number [OF run nb0])
  note nb1 = wal_append_numbered [OF ap nb]
  have nbf: "numbered walf" using nb1 by (simp add: walf_def numbered_def)
  note nb2 = wal_run_numbered [OF later [folded walf_def] nbf]
  have no1: "segno (open_segment wal1) < 2 ^ 32" "segno (open_segment walf) < 2 ^ 32" "segno (open_segment wal) < 2 ^ 32"
    using no nb1 nb2 by (simp_all add: walf_def)
  have sf: "wal_safe walf" "sc_sync_method (creator walf) = wal_sync_method options"
    "capacity (open_segment walf) = segment_capacity options" "7 < segment_capacity options"
  proof -
    have s: "wal_safe wal" "sc_sync_method (creator wal) = wal_sync_method options"
      "sc_capacity (creator wal) = segment_capacity options" "capacity (open_segment wal) = segment_capacity options"
      using wal_safe_run [OF w run s0(1) no1(3)] s0 by simp_all
    have s1: "wal_safe wal1" "sc_sync_method (creator wal1) = wal_sync_method options"
      "capacity (open_segment wal1) = segment_capacity options"
      using wal_safe_append [OF w s(1) ap no1(1)] s by simp_all
    show "wal_safe walf" "sc_sync_method (creator walf) = wal_sync_method options"
      using wal_safe_flush [OF s1(1)] s1(2) by (simp_all add: walf_def)
    show "capacity (open_segment walf) = segment_capacity options"
      using s1(3) by (auto simp: walf_def wal_flush_def)
    show "7 < segment_capacity options"
      using start by (auto simp: wal_open_def next_segment_def res_bind_eq_Inr Let_def segment_create_def check_capacity_def split: if_splits)
  qed
  obtain pre al pad where p: "seg_file (open_segment walf) = pre @ enc w al HNone r @ pad"
    "a = segment_start (open_segment walf) + length pre" "b = a + length (enc w al HNone r)"
    "length pre mod SEGMENT_PAGE_SIZE = al mod SEGMENT_PAGE_SIZE" "al \<le> SEGMENT_PAGE_SIZE" "al \<noteq> SEGMENT_PAGE_SIZE - 1"
    unfolding walf_def by (rule record_placed [OF start run ap r cap odd no1(1) sync])
  obtain cs where "listed cs wal" using listed_run [OF run listed_open [OF start] nb0] no1(3) by blast
  then obtain cs0 where "listed cs0 wal1" using listed_append [OF _ nb ap no1(1)] by blast
  then obtain cs1 where l1: "listed cs1 walf" using listed_flush unfolding walf_def by blast
  obtain cs2 where l2: "listed cs2 wal2" "grown cs1 cs2" using listed_run [OF later [folded walf_def] l1 nbf no] by blast
  have "wal_safe wal2" "sc_sync_method (creator wal2) = wal_sync_method options"
    using wal_safe_run [OF w later [folded walf_def] sf(1) no] sf(2) by simp_all
  then have "seg_synced (open_segment wal2) = length (seg_file (open_segment wal2))"
    using sync by (auto simp: wal_safe_def synced_def)
  note c = crash_listed [OF l2(1) dir(2) this]
  define cs3 where "cs3 = butlast cs2 @ [content]"
  have l3: "length cs3 = length cs2" "length cs2 < 2 ^ 32" using l2(1) no by (simp_all add: cs3_def listed_def)
  have perm: "mset dir = mset (dir_of cs3)" and g: "grown cs1 cs3"
    using dir(1) c l3 grown_trans [OF l2(2)] by (simp_all add: cs3_def)
  have fits: "\<forall>c\<in>set cs3. length c \<le> segment_capacity options"
    using dir(3) mset_eq_setD [OF perm] by (force simp: dir_fits_def dir_of_def in_set_conv_nth)
  define i where "i = length cs1 - 1"
  have i: "i < length cs1" "cs1 ! i = pre @ enc w al HNone r @ pad" "segno (open_segment walf) = Suc i"
    using l1 p(1) by (auto simp: listed_def i_def last_conv_nth)
  have pr: "prefix (pre @ enc w al HNone r) (cs3 ! i)"
    using g i(1,2) unfolding grown_def by (metis append.assoc prefixI prefix_order.trans)
  have a: "a = i * segment_capacity options + length pre" using p(2) i(3) sf(3) by (simp add: segment_start_def)
  have i3: "i < length cs3" using g i(1) by (simp add: grown_def)
  have small: "length cs3 < 2 ^ 32" using l3 by simp
  show ?thesis
    using reopened_read [OF cap sf(4) small fits perm i3 pr a r p(4-6)] unfolding p(3) .
qed

end

section \<open>Properties\<close>

text \<open>
  C17: a record that was appended and flushed survives a crash. Take any history of appends and flushes of a new log
  with a sync method other than \<open>NoSync\<close>, a record for whose end position \<open>flush\<close> has returned, and any
  history after that. Let the process stop, leaving of the open file at least what was synced and after it
  anything, and the files in any order in the directory. Then the log opens on the directory, and a reader that the log
  gives out for the position of the record reads the record there. Two cases in which the code loses the record are
  excluded: its position must not be the last byte of a page, where a reader skips the next page
  (\<open>Wal_Safety\<close>), and no file may be larger than the capacity, which both the log and the reader check when
  they open a file (\<open>Wal_Replay\<close>).
\<close>
theorem flushed_record_survives_crash:
  "\<lbrakk>wire_ok w; wal_open Missing options = Inr wal0; wal_run w ops wal0 = Inr (log, wal);
    wal_append w r wal = Inr ((a, b), wal1); r \<noteq> []; SEGMENT_PAGE_SIZE dvd segment_capacity options;
    a mod SEGMENT_PAGE_SIZE \<noteq> SEGMENT_PAGE_SIZE - 1; wal_sync_method options \<noteq> NoSync;
    wal_run w ops' (wal_flush (Some b) wal1) = Inr (log', wal2); segno (open_segment wal2) < 2 ^ 32;
    mset dir = mset (crash_dir wal2 content); survives (open_segment wal2) content; dir_fits (segment_capacity options) dir\<rbrakk> \<Longrightarrow>
   \<exists>wal3 rd. wal_open (Directory dir) options = Inr wal3 \<and> wal_get_reader a wal3 = Inr rd \<and>
     reader_read_record w rd a = Inr (Some (b, r)) \<and> a \<le> wal_current_lsn wal3"
  unfolding wire_format_iff [symmetric] by (rule wire_format.flushed_record_after_restart)

text \<open>Two records in a new log with the default options, and what a flush leaves in the file.\<close>

lemma two_listed:
  assumes "wal_open Missing options = Inr wal0" "wal_append w r wal0 = Inr ((a, b), wal1)"
    "wal_append w r' wal1 = Inr ((a', b'), wal2)" "segno (open_segment wal1) = 1" "segno (open_segment wal2) = 1"
  shows "listed [seg_file (open_segment (wal_flush lsn wal2))] (wal_flush lsn wal2)"
proof -
  have nb: "numbered wal0" "numbered wal1"
    using wal_safe_open(1) [OF assms(1)] wal_append_numbered [OF assms(2)] by (simp_all add: wal_safe_def)
  obtain cs1 where "listed cs1 wal1" using listed_append [OF listed_open [OF assms(1)] nb(1) assms(2)] assms(4) by auto
  then obtain cs2 where "listed cs2 wal2" using listed_append [OF _ nb(2) assms(3)] assms(5) by auto
  then obtain cs where "listed cs (wal_flush lsn wal2)" using listed_flush by blast
  then show ?thesis using assms(5) by (cases cs) (auto simp: listed_def)
qed

lemma two_flushed:
  assumes "seg_wf (open_segment wal2)" "length (stream (open_segment wal2)) = 17"
  shows "length (seg_file (open_segment (wal_flush lsn wal2))) \<le> 17"
proof -
  have "17 + 7 < SEGMENT_PAGE_SIZE" using page_size_large(2) by simp
  moreover have "page_start (open_segment wal2) + page_allocated (open_segment wal2) = 17" using length_stream [OF assms(1)] assms(2) by simp
  ultimately have "\<not> flush_resets False (open_segment wal2)" by (simp add: flush_resets_def)
  then have "length (seg_file (flush_page False (open_segment wal2))) = 17"
    using flush_page_parts(1) [OF assms(1), of False] assms(2) by simp
  then show ?thesis using assms by (auto simp: wal_flush_def stream_def split: option.split)
qed

text \<open>The second record survives, with three bytes of a torn write behind it.\<close>

theorem flushed_record_survives_crash_witness:
  "\<exists>wal0 wal1 wal2 wal3 rd. wal_open Missing wal_options_default = Inr wal0 \<and>
     wal_append std_wire [7, 8] wal0 = Inr ((0, 9), wal1) \<and> wal_append std_wire [9] wal1 = Inr ((9, 17), wal2) \<and>
     wal_open (Directory (crash_dir (wal_flush (Some 17) wal2) (seg_file (open_segment (wal_flush (Some 17) wal2)) @ [1, 2, 3])))
       wal_options_default = Inr wal3 \<and>
     wal_get_reader 9 wal3 = Inr rd \<and> reader_read_record std_wire rd 9 = Inr (Some (17, [9]))"
proof -
  obtain wal0 wal1 wal2 where w: "wal_open Missing wal_options_default = Inr wal0"
    "wal_append std_wire [7, 8] wal0 = Inr ((0, 9), wal1)" "wal_append std_wire [9] wal1 = Inr ((9, 17), wal2)"
    "segno (open_segment wal2) = 1" "seg_wf (open_segment wal2)" "length (stream (open_segment wal2)) = 17"
    "segno (open_segment wal1) = 1"
    by (rule two_records)
  define wal' where "wal' = wal_flush (Some 17) wal2"
  let ?content = "seg_file (open_segment wal') @ [1, 2, 3]"
  have cap: "SEGMENT_PAGE_SIZE dvd segment_capacity wal_options_default" "20 \<le> segment_capacity wal_options_default"
    "wal_sync_method wal_options_default \<noteq> NoSync"
    by (simp_all add: wal_options_default_def SEGMENT_PAGE_SIZE_def)
  have odd: "(9 :: nat) mod SEGMENT_PAGE_SIZE \<noteq> SEGMENT_PAGE_SIZE - 1" by (simp add: SEGMENT_PAGE_SIZE_def)
  have run: "wal_run std_wire [OpAppend [7, 8]] wal0 = Inr ([([7, 8], 0, 9)], wal1)" using w(2) by simp
  have "listed [seg_file (open_segment wal')] wal'" unfolding wal'_def by (rule two_listed [OF w(1-3,7,4)])
  then have "wal_files wal' = []" by (simp add: listed_def dir_of_def)
  then have df: "dir_fits (segment_capacity wal_options_default) (crash_dir wal' ?content)"
    using two_flushed [OF w(5,6), of "Some 17"] cap(2) by (simp add: dir_fits_def crash_dir_def wal'_def)
  have a: "wal_run std_wire [] (wal_flush (Some 17) wal2) = Inr ([], wal')" "segno (open_segment wal') < 2 ^ 32"
    "survives (open_segment wal') ?content"
    using w(4) by (simp_all add: wal'_def survives_def take_is_prefix prefix_prefix)
  from flushed_record_survives_crash [OF std_wire_ok w(1) run w(3) _ cap(1) odd cap(3) a(1,2) refl a(3) df]
  show ?thesis using w(1-3) unfolding wal'_def by blast
qed

end
