(* ===== verification/Checkpoint.thy ===== *)
theory Checkpoint
  imports Wal
begin

text \<open>
  The manifest file and the checkpoint manager, \<open>src/src/wal/checkpoint.rs\<close>. The file holds the
  encoded manifest and its checksum. Writing it does not truncate the file, so what an older and
  longer content left behind stays. The clock is an argument.
\<close>

section \<open>The manifest\<close>

datatype db_state = Shutdowned | Shutdowning | InCrashRecovery | InProduction

record manifest =
  mf_db_state :: db_state
  mf_last_checkpoint_pos :: log_pointer
  mf_prev_checkpoint_pos :: log_pointer
  mf_min_xip :: timestamp
  mf_time :: nat

definition manifest_default :: "nat \<Rightarrow> manifest" where
  "manifest_default now =
     \<lparr>mf_db_state = Shutdowned, mf_last_checkpoint_pos = 0, mf_prev_checkpoint_pos = 0,
      mf_min_xip = ts_default, mf_time = now\<rparr>"

text \<open>\<open>bincode::serialize\<close> and \<open>deserialize\<close> at \<open>Manifest\<close>.\<close>

record manifest_codec =
  ser_manifest :: "manifest \<Rightarrow> bytes"
  de_manifest :: "bytes \<Rightarrow> manifest option"

datatype manifest_path = NoManifest | NotARegularFile | ManifestFile bytes

definition read_manifest_file ::
  "wire \<Rightarrow> manifest_codec \<Rightarrow> manifest_path \<Rightarrow> manifest option res" where
  "read_manifest_file w mc path =
     (case path of
        NoManifest \<Rightarrow> Inr None
      | NotARegularFile \<Rightarrow> Inl (Err (WrongObjectType ''exists but is not a regular file''))
      | ManifestFile content \<Rightarrow>
          if length content < 4 then Inl (Err (DataCorrupted ''master record is corrupted''))
          else let buffer = take (length content - 4) content;
                   crc_file = get_u32 w (drop (length content - 4) content)
               in if crc32 w buffer \<noteq> crc_file
                  then Inl (Err (DataCorrupted ''master record is corrupted (checksum does not match)''))
                  else (case de_manifest mc buffer of
                          Some m \<Rightarrow> Inr (Some m)
                        | None \<Rightarrow> Inl (Err (DataCorrupted ''cannot deserialize the master record''))))"

text \<open>The file is opened for writing, created when missing, and overwritten from its beginning.\<close>

definition write_manifest_file ::
  "wire \<Rightarrow> manifest_codec \<Rightarrow> manifest \<Rightarrow> manifest_path \<Rightarrow> manifest_path res" where
  "write_manifest_file w mc m path =
     (let buffer = ser_manifest mc m; new = buffer @ put_u32 w (crc32 w buffer)
      in case path of
           NoManifest \<Rightarrow> Inr (ManifestFile new)
         | NotARegularFile \<Rightarrow> Inl (Err Io)
         | ManifestFile old \<Rightarrow> Inr (ManifestFile (new @ drop (length new) old)))"

section \<open>The checkpoint manager\<close>

record checkpoint_manager =
  manifest_file :: manifest_path
  manifest_rec :: manifest

definition ckpt_read_manifest ::
  "wire \<Rightarrow> manifest_codec \<Rightarrow> nat \<Rightarrow> checkpoint_manager \<Rightarrow> checkpoint_manager res" where
  "ckpt_read_manifest w mc now cm =
     res_bind (read_manifest_file w mc (manifest_file cm)) (\<lambda>found.
       case found of
         Some m \<Rightarrow> Inr (cm\<lparr>manifest_rec := m\<rparr>)
       | None \<Rightarrow>
           let m = manifest_default now
           in res_bind (write_manifest_file w mc m (manifest_file cm)) (\<lambda>path.
                Inr (cm\<lparr>manifest_file := path, manifest_rec := m\<rparr>)))"

definition ckpt_open ::
  "wire \<Rightarrow> manifest_codec \<Rightarrow> nat \<Rightarrow> manifest_path \<Rightarrow> checkpoint_manager res" where
  "ckpt_open w mc now path =
     ckpt_read_manifest w mc now \<lparr>manifest_file = path, manifest_rec = manifest_default now\<rparr>"

definition create_checkpoint ::
  "wire \<Rightarrow> manifest_codec \<Rightarrow> nat \<Rightarrow> timestamp \<Rightarrow> log_pointer \<Rightarrow> checkpoint_manager
    \<Rightarrow> checkpoint_manager res" where
  "create_checkpoint w mc now min_xip_val checkpoint cm =
     (let m = (manifest_rec cm)\<lparr>mf_time := now, mf_min_xip := min_xip_val,
            mf_prev_checkpoint_pos := mf_last_checkpoint_pos (manifest_rec cm),
            mf_last_checkpoint_pos := checkpoint\<rparr>
      in res_bind (write_manifest_file w mc m (manifest_file cm)) (\<lambda>path.
           Inr (cm\<lparr>manifest_file := path, manifest_rec := m\<rparr>)))"

definition set_db_state ::
  "wire \<Rightarrow> manifest_codec \<Rightarrow> nat \<Rightarrow> db_state \<Rightarrow> checkpoint_manager \<Rightarrow> checkpoint_manager res" where
  "set_db_state w mc now st cm =
     (let m = (manifest_rec cm)\<lparr>mf_db_state := st, mf_time := now\<rparr>
      in res_bind (write_manifest_file w mc m (manifest_file cm)) (\<lambda>path.
           Inr (cm\<lparr>manifest_file := path, manifest_rec := m\<rparr>)))"

section \<open>What a manager writes, a later one reads\<close>

text \<open>
  What the code relies on: decoding inverts encoding, and all manifests have encodings of one
  length, since every field of the structure has a fixed width. Positions and times are natural
  numbers here and 64-bit words there, so this is said of manifests whose numbers fit.
\<close>

definition manifest_fits :: "manifest \<Rightarrow> bool" where
  "manifest_fits m \<longleftrightarrow> mf_last_checkpoint_pos m < 2 ^ 64 \<and> mf_prev_checkpoint_pos m < 2 ^ 64 \<and>
     mf_time m < 2 ^ 64"


lemma manifest_default_fits: "now < 2 ^ 64 \<Longrightarrow> manifest_fits (manifest_default now)"
  by (simp add: manifest_fits_def manifest_default_def)

locale manifest_format = wire_format w for w :: wire +
  fixes mc :: manifest_codec and len :: nat
  assumes de_ser [simp]: "manifest_fits m \<Longrightarrow> de_manifest mc (ser_manifest mc m) = Some m"
    and len_ser [simp]: "manifest_fits m \<Longrightarrow> length (ser_manifest mc m) = len"
begin

definition holds_manifest :: "manifest_path \<Rightarrow> manifest \<Rightarrow> bool" where
  "holds_manifest path m \<longleftrightarrow> manifest_fits m \<and>
     path = ManifestFile (ser_manifest mc m @ put_u32 w (crc32 w (ser_manifest mc m)))"

lemma read_holds: "holds_manifest path m \<Longrightarrow> read_manifest_file w mc path = Inr (Some m)"
  by (simp add: holds_manifest_def read_manifest_file_def)

lemma write_holds:
  assumes "path = NoManifest \<or> holds_manifest path m0" and "manifest_fits m"
  obtains path' where "write_manifest_file w mc m path = Inr path'" "holds_manifest path' m"
  using assms by (auto simp: write_manifest_file_def holds_manifest_def Let_def)

definition in_step :: "checkpoint_manager \<Rightarrow> bool" where
  "in_step cm \<longleftrightarrow> holds_manifest (manifest_file cm) (manifest_rec cm)"

lemma open_in_step:
  assumes "path = NoManifest \<or> holds_manifest path m0" and "now < 2 ^ 64"
  shows "\<exists>cm. ckpt_open w mc now path = Inr cm \<and> in_step cm \<and>
    manifest_rec cm = (if path = NoManifest then manifest_default now else m0)"
proof (cases "path = NoManifest")
  case True
  obtain path' where "write_manifest_file w mc (manifest_default now) NoManifest = Inr path'"
    "holds_manifest path' (manifest_default now)"
    by (rule write_holds [OF disjI1 [OF refl] manifest_default_fits [OF assms(2)]])
  then show ?thesis
    using True by (simp add: ckpt_open_def ckpt_read_manifest_def read_manifest_file_def in_step_def)
next
  case False
  then show ?thesis
    using assms read_holds by (simp add: ckpt_open_def ckpt_read_manifest_def in_step_def)
qed

lemma create_in_step:
  assumes "in_step cm" "now < 2 ^ 64" "pos < 2 ^ 64"
  shows "\<exists>cm'. create_checkpoint w mc now x pos cm = Inr cm' \<and> in_step cm' \<and>
    mf_last_checkpoint_pos (manifest_rec cm') = pos \<and>
    mf_prev_checkpoint_pos (manifest_rec cm') = mf_last_checkpoint_pos (manifest_rec cm) \<and>
    mf_db_state (manifest_rec cm') = mf_db_state (manifest_rec cm) \<and> mf_min_xip (manifest_rec cm') = x"
proof -
  define m where "m = (manifest_rec cm)\<lparr>mf_time := now, mf_min_xip := x,
    mf_prev_checkpoint_pos := mf_last_checkpoint_pos (manifest_rec cm), mf_last_checkpoint_pos := pos\<rparr>"
  obtain path where "write_manifest_file w mc m (manifest_file cm) = Inr path" "holds_manifest path m"
    using write_holds [of "manifest_file cm" "manifest_rec cm" m] assms
    by (auto simp: in_step_def holds_manifest_def manifest_fits_def m_def)
  then show ?thesis
    by (simp add: create_checkpoint_def Let_def in_step_def flip: m_def) (simp add: m_def)
qed

lemma set_state_in_step:
  assumes "in_step cm" "now < 2 ^ 64"
  shows "\<exists>cm'. set_db_state w mc now st cm = Inr cm' \<and> in_step cm' \<and>
    manifest_rec cm' = (manifest_rec cm)\<lparr>mf_db_state := st, mf_time := now\<rparr>"
proof -
  define m where "m = (manifest_rec cm)\<lparr>mf_db_state := st, mf_time := now\<rparr>"
  obtain path where "write_manifest_file w mc m (manifest_file cm) = Inr path" "holds_manifest path m"
    using write_holds [of "manifest_file cm" "manifest_rec cm" m] assms
    by (auto simp: in_step_def holds_manifest_def manifest_fits_def m_def)
  then show ?thesis
    by (simp add: set_db_state_def Let_def in_step_def flip: m_def)
qed

lemma reopen_in_step:
  "in_step cm \<Longrightarrow> ckpt_open w mc now (manifest_file cm) = Inr cm"
  by (simp add: in_step_def ckpt_open_def ckpt_read_manifest_def read_holds)

end

section \<open>Histories of a manager\<close>

text \<open>The manager from its opening on: checkpoints, changes of state, and restarts of the process.\<close>

datatype ckpt_op =
    CkptCreate nat timestamp log_pointer
  | CkptState nat db_state
  | CkptReopen nat

fun ckpt_run ::
  "wire \<Rightarrow> manifest_codec \<Rightarrow> ckpt_op list \<Rightarrow> checkpoint_manager \<Rightarrow> checkpoint_manager res" where
  "ckpt_run w mc [] cm = Inr cm"
| "ckpt_run w mc (CkptCreate now x pos # ops) cm =
     res_bind (create_checkpoint w mc now x pos cm) (ckpt_run w mc ops)"
| "ckpt_run w mc (CkptState now st # ops) cm =
     res_bind (set_db_state w mc now st cm) (ckpt_run w mc ops)"
| "ckpt_run w mc (CkptReopen now # ops) cm =
     res_bind (ckpt_open w mc now (manifest_file cm)) (ckpt_run w mc ops)"

fun last_checkpoint :: "ckpt_op list \<Rightarrow> log_pointer \<Rightarrow> log_pointer" where
  "last_checkpoint [] p = p"
| "last_checkpoint (CkptCreate now x pos # ops) p = last_checkpoint ops pos"
| "last_checkpoint (CkptState now st # ops) p = last_checkpoint ops p"
| "last_checkpoint (CkptReopen now # ops) p = last_checkpoint ops p"

fun ckpt_op_fits :: "ckpt_op \<Rightarrow> bool" where
  "ckpt_op_fits (CkptCreate now x pos) \<longleftrightarrow> now < 2 ^ 64 \<and> pos < 2 ^ 64"
| "ckpt_op_fits (CkptState now st) \<longleftrightarrow> now < 2 ^ 64"
| "ckpt_op_fits (CkptReopen now) \<longleftrightarrow> True"

definition manifest_codec_ok :: "manifest_codec \<Rightarrow> nat \<Rightarrow> bool" where
  "manifest_codec_ok mc len \<longleftrightarrow>
     (\<forall>m. manifest_fits m \<longrightarrow> de_manifest mc (ser_manifest mc m) = Some m \<and> length (ser_manifest mc m) = len)"

lemma manifest_format_iff: "manifest_format w mc len \<longleftrightarrow> wire_ok w \<and> manifest_codec_ok mc len"
  by (auto simp: manifest_format_def manifest_format_axioms_def manifest_codec_ok_def wire_format_iff)

context manifest_format begin

lemma run_in_step:
  "in_step cm \<Longrightarrow> \<forall>op\<in>set ops. ckpt_op_fits op \<Longrightarrow> \<exists>cm'. ckpt_run w mc ops cm = Inr cm' \<and> in_step cm' \<and>
     mf_last_checkpoint_pos (manifest_rec cm') = last_checkpoint ops (mf_last_checkpoint_pos (manifest_rec cm))"
proof (induction ops arbitrary: cm)
  case (Cons op ops)
  show ?case
  proof (cases op)
    case (CkptCreate now x pos)
    then show ?thesis
      using create_in_step [OF Cons.prems(1), of now pos x] Cons.IH Cons.prems(2) by fastforce
  next
    case (CkptState now st)
    then show ?thesis
      using set_state_in_step [OF Cons.prems(1), of now st] Cons.IH Cons.prems(2) by fastforce
  next
    case (CkptReopen now)
    then show ?thesis
      using reopen_in_step [OF Cons.prems(1), of now] Cons.IH [OF Cons.prems(1)] Cons.prems(2) by simp
  qed
qed simp

end

section \<open>An instance and the theorem\<close>

fun db_state_code :: "db_state \<Rightarrow> nat" where
  "db_state_code Shutdowned = 0"
| "db_state_code Shutdowning = 1"
| "db_state_code InCrashRecovery = 2"
| "db_state_code InProduction = 3"

definition db_state_of :: "nat \<Rightarrow> db_state" where
  "db_state_of n = (if n = 0 then Shutdowned else if n = 1 then Shutdowning
     else if n = 2 then InCrashRecovery else InProduction)"

lemma db_state_of_code [simp]: "db_state_of (db_state_code s) = s"
  by (cases s) (simp_all add: db_state_of_def)

text \<open>Fixed-width little-endian integers, as \<open>bincode\<close> writes them.\<close>

definition std_manifest_codec :: manifest_codec where
  "std_manifest_codec = \<lparr>
     ser_manifest = (\<lambda>m. le_bytes 4 (db_state_code (mf_db_state m)) @
       le_bytes 8 (mf_last_checkpoint_pos m) @ le_bytes 8 (mf_prev_checkpoint_pos m) @
       le_bytes 8 (unat (ts_bits (mf_min_xip m))) @ le_bytes 8 (mf_time m)),
     de_manifest = (\<lambda>bs. Some \<lparr>mf_db_state = db_state_of (le_value (take 4 bs)),
       mf_last_checkpoint_pos = le_value (take 8 (drop 4 bs)),
       mf_prev_checkpoint_pos = le_value (take 8 (drop 12 bs)),
       mf_min_xip = Timestamp (of_nat (le_value (take 8 (drop 20 bs)))),
       mf_time = le_value (take 8 (drop 28 bs))\<rparr>)\<rparr>"

lemma std_manifest_codec_ok: "manifest_codec_ok std_manifest_codec 36"
proof -
  have "db_state_code s mod 256 ^ 4 = db_state_code s" for s
    by (cases s) simp_all
  moreover have "unat (ts_bits t) mod 256 ^ 8 = unat (ts_bits t)" for t
    using unsigned_less [where ?'a = nat, of "ts_bits t"] by simp
  ultimately show ?thesis
    by (simp add: manifest_codec_ok_def std_manifest_codec_def le_value_bytes manifest_fits_def)
qed

interpretation std_manifest: manifest_format std_wire std_manifest_codec 36
  by (simp add: manifest_format_iff std_wire_ok std_manifest_codec_ok)

text \<open>
  C24: the manifest keeps the last checkpoint over restarts. From an empty directory, after any
  history of checkpoints, changes of state and restarts, every operation has succeeded and the
  manager, and every manager opened on the file it has written, knows the position of the last
  checkpoint.
\<close>
theorem manifest_survives_restarts:
  "\<lbrakk>wire_ok w; manifest_codec_ok mc len; now < 2 ^ 64; \<forall>op\<in>set ops. ckpt_op_fits op\<rbrakk> \<Longrightarrow>
   \<exists>cm0 cm. ckpt_open w mc now NoManifest = Inr cm0 \<and> ckpt_run w mc ops cm0 = Inr cm \<and>
     mf_last_checkpoint_pos (manifest_rec cm) = last_checkpoint ops 0 \<and>
     ckpt_open w mc now' (manifest_file cm) = Inr cm"
proof -
  assume asm: "wire_ok w" "manifest_codec_ok mc len" "now < 2 ^ 64" "\<forall>op\<in>set ops. ckpt_op_fits op"
  then have m: "manifest_format w mc len" by (simp add: manifest_format_iff)
  obtain cm0 where "ckpt_open w mc now NoManifest = Inr cm0" "manifest_format.in_step w mc cm0"
    "manifest_rec cm0 = manifest_default now"
    using manifest_format.open_in_step [OF m, of NoManifest undefined now] asm(3) by auto
  with manifest_format.run_in_step [OF m, of cm0 ops] manifest_format.reopen_in_step [OF m] asm(4)
  show ?thesis by (fastforce simp: manifest_default_def)
qed

theorem manifest_survives_restarts_witness:
  "\<exists>cm0 cm. ckpt_open std_wire std_manifest_codec 5 NoManifest = Inr cm0 \<and>
     ckpt_run std_wire std_manifest_codec [CkptCreate 6 (Timestamp 3) 77, CkptReopen 7,
       CkptState 8 InProduction] cm0 = Inr cm \<and>
     mf_last_checkpoint_pos (manifest_rec cm) = 77 \<and>
     ckpt_open std_wire std_manifest_codec 9 (manifest_file cm) = Inr cm"
  using manifest_survives_restarts [OF std_wire_ok std_manifest_codec_ok, of 5
      "[CkptCreate 6 (Timestamp 3) 77, CkptReopen 7, CkptState 8 InProduction]" 9]
  by (simp del: ckpt_run.simps)

end
