(* ===== verification/Version.thy ===== *)
theory Version
  imports Log_Record "HOL-Library.Multiset"
begin

text \<open>
  Which table files there are: \<open>version.rs\<close> without the parts that read the tables or write the
  log. A version lists the files of every level, level 0 by timestamp with the newest first, the
  others by their smallest key. An edit adds and deletes files (\<open>VersionEdit\<close>, \<open>VersionBuilder\<close>);
  a compaction picks files of one level and the files of the next that overlap them. The theory
  shows that the binary search finds what a linear search finds, that edits keep the order of the
  levels, and that the selection of input files ends with a selection that is closed under overlap.
\<close>

section \<open>Options\<close>

text \<open>The numbers of \<open>DbOptions\<close> (\<open>options.rs\<close>).\<close>

record db_options =
  background_threads :: nat
  max_background_flushes :: nat
  max_background_compactions :: nat
  write_buffer_size :: nat
  gc_freeze_min_age :: nat
  num_levels :: nat
  max_open_files :: nat
  level0_file_num_compaction_trigger :: nat
  max_bytes_for_level_base :: nat
  max_bytes_for_level_multiplier :: nat
  target_file_size_base :: nat
  target_file_size_multiplier :: nat

definition default_db_options :: db_options where
  "default_db_options =
     \<lparr>background_threads = 24, max_background_flushes = 20, max_background_compactions = 4,
      write_buffer_size = 200000, gc_freeze_min_age = 100000, num_levels = 6, max_open_files = 100,
      level0_file_num_compaction_trigger = 4, max_bytes_for_level_base = push_bit 20 256,
      max_bytes_for_level_multiplier = 10, target_file_size_base = push_bit 20 256,
      target_file_size_multiplier = 1\<rparr>"

definition max_file_size_for_level :: "db_options \<Rightarrow> nat \<Rightarrow> nat" where
  "max_file_size_for_level opt level = target_file_size_base opt * target_file_size_multiplier opt ^ level"

section \<open>Edits and versions\<close>

record 'k version_edit =
  ve_min_xip :: "timestamp option"
  ve_add_files :: "(nat \<times> 'k table_file_meta) list"
  ve_deleted :: "(nat \<times> table_file_ref) set"
  ve_mark_compacted :: "(nat \<times> table_file_ref) list"

definition version_edit_new :: "'k version_edit" where
  "version_edit_new = \<lparr>ve_min_xip = None, ve_add_files = [], ve_deleted = {}, ve_mark_compacted = []\<rparr>"

definition set_min_xip :: "timestamp \<Rightarrow> 'k version_edit \<Rightarrow> 'k version_edit" where
  "set_min_xip x e = e\<lparr>ve_min_xip := Some x\<rparr>"

definition add_file :: "nat \<Rightarrow> 'k table_file_meta \<Rightarrow> 'k version_edit \<Rightarrow> 'k version_edit" where
  "add_file level f e = e\<lparr>ve_add_files := ve_add_files e @ [(level, f)]\<rparr>"

definition delete_file :: "nat \<Rightarrow> 'k table_file_meta \<Rightarrow> 'k version_edit \<Rightarrow> 'k version_edit" where
  "delete_file level f e = e\<lparr>ve_deleted := insert (level, file_ref f) (ve_deleted e)\<rparr>"

definition mark_as_being_compacted :: "nat \<Rightarrow> 'k table_file_meta \<Rightarrow> 'k version_edit \<Rightarrow> 'k version_edit" where
  "mark_as_being_compacted level f e = e\<lparr>ve_mark_compacted := ve_mark_compacted e @ [(level, file_ref f)]\<rparr>"

text \<open>
  The compaction score is a quotient of two integers as \<open>f64\<close>; the model keeps the two integers
  (a quotient by zero is at least one, or not a number, and so not below one either).
\<close>

type_synonym score = "nat \<times> nat"

definition score_below_one :: "score \<Rightarrow> bool" where
  "score_below_one s \<longleftrightarrow> fst s < snd s"

record 'k version =
  v_files :: "'k table_file_set"
  v_score :: "score list"

definition version_new :: "nat \<Rightarrow> 'k version" where
  "version_new levels = \<lparr>v_files = replicate levels [], v_score = replicate levels (0, 1)\<rparr>"

definition level_score :: "db_options \<Rightarrow> 'k version \<Rightarrow> nat \<Rightarrow> score" where
  "level_score opt v level =
     (let files = filter (\<lambda>f. \<not> being_compacted f) (v_files v ! level);
          num_files_score = (if level = 0 then (length files, level0_file_num_compaction_trigger opt) else (0, 1));
          level_size = sum_list (map file_size files);
          max_size = max_bytes_for_level_base opt * max_bytes_for_level_multiplier opt ^ level
      in if level = length (v_files v) - 1 then (0, 1)
         else if level > 0 \<and> level_size > 0 then (level_size, max_size)
         else num_files_score)"

definition calculate_compaction_score :: "db_options \<Rightarrow> 'k version \<Rightarrow> 'k version" where
  "calculate_compaction_score opt v = v\<lparr>v_score := map (level_score opt v) [0..<length (v_files v)]\<rparr>"

section \<open>Search in a level\<close>

text \<open>The loop of \<open>find_in_files\<close>, over \<open>first\<close> and \<open>count\<close>.\<close>

function find_first :: "'k::linorder table_file_meta list \<Rightarrow> 'k \<Rightarrow> nat \<Rightarrow> nat \<Rightarrow> nat" where
  "find_first files key pos len =
     (if len > 0 then
        let step = drop_bit 1 len
        in if supremum (files ! (pos + step)) < key
           then find_first files key (pos + (step + 1)) (len - (step + 1))
           else find_first files key pos step
      else pos)"
  by pat_completeness auto
termination
  by (relation "measure (\<lambda>(_, _, _, len). len)") (auto simp: drop_bit_eq_div)

declare find_first.simps [simp del]

definition find_in_files :: "'k::linorder table_file_meta list \<Rightarrow> 'k \<Rightarrow> 'k table_file_meta option" where
  "find_in_files files key =
     (let i = find_first files key 0 (length files) in if i \<ge> length files then None else Some (files ! i))"

text \<open>Position \<open>n\<close> splits the files into those that end before the key and those that reach it.\<close>

definition split_at :: "'k::linorder table_file_meta list \<Rightarrow> 'k \<Rightarrow> nat \<Rightarrow> bool" where
  "split_at files key n \<longleftrightarrow> n \<le> length files \<and> (\<forall>i<n. supremum (files ! i) < key) \<and>
     (\<forall>i<length files. n \<le> i \<longrightarrow> key \<le> supremum (files ! i))"

lemma find_first_result:
  "\<lbrakk>sorted (map supremum files); pos + len \<le> length files; \<forall>i<pos. supremum (files ! i) < key;
    \<forall>i<length files. pos + len \<le> i \<longrightarrow> key \<le> supremum (files ! i)\<rbrakk> \<Longrightarrow>
   split_at files key (find_first files key pos len)"
proof (induction files key pos len rule: find_first.induct)
  case (1 files key pos len)
  show ?case
  proof (cases "len > 0")
    case False
    then have "find_first files key pos len = pos" by (subst find_first.simps) simp
    then show ?thesis using False 1(4-6) by (simp add: split_at_def)
  next
    case True
    define step where "step = drop_bit 1 len"
    have st: "step < len" using True by (simp add: step_def drop_bit_eq_div)
    have mono: "supremum (files ! i) \<le> supremum (files ! j)" if "i \<le> j" "j < length files" for i j
      using 1(3) that by (auto simp: sorted_iff_nth_mono)
    show ?thesis
    proof (cases "supremum (files ! (pos + step)) < key")
      case lt: True
      have "\<forall>i<pos + (step + 1). supremum (files ! i) < key"
      proof (intro allI impI)
        fix i assume "i < pos + (step + 1)"
        then have "supremum (files ! i) \<le> supremum (files ! (pos + step))" using 1(4) st by (intro mono) auto
        then show "supremum (files ! i) < key" using lt by simp
      qed
      then have "split_at files key (find_first files key (pos + (step + 1)) (len - (step + 1)))"
        using 1(3-6) st by (intro 1(1) [OF True step_def lt]) auto
      moreover have "find_first files key pos len = find_first files key (pos + (step + 1)) (len - (step + 1))"
        by (subst find_first.simps) (use True lt in \<open>simp add: step_def Let_def\<close>)
      ultimately show ?thesis by simp
    next
      case ge: False
      have "\<forall>i<length files. pos + step \<le> i \<longrightarrow> key \<le> supremum (files ! i)"
      proof (intro allI impI)
        fix i assume "i < length files" "pos + step \<le> i"
        then have "supremum (files ! (pos + step)) \<le> supremum (files ! i)" by (intro mono)
        then show "key \<le> supremum (files ! i)" using ge by simp
      qed
      then have "split_at files key (find_first files key pos step)"
        using 1(3-6) st by (intro 1(2) [OF True step_def ge]) auto
      moreover have "find_first files key pos len = find_first files key pos step"
        by (subst find_first.simps) (use True ge in \<open>simp add: step_def Let_def\<close>)
      ultimately show ?thesis by simp
    qed
  qed
qed

lemma find_first_split:
  assumes "split_at files key n"
  shows "find (\<lambda>f. key \<le> supremum f) files = (if n < length files then Some (files ! n) else None)"
  using assms by (auto simp: split_at_def find_Some_iff find_None_iff in_set_conv_nth not_le intro!: exI [of _ n])

text \<open>In a level sorted by the largest keys, it is the first file that reaches the key.\<close>

lemma find_in_files_is_find:
  assumes "sorted (map supremum files)"
  shows "find_in_files files key = find (\<lambda>f. key \<le> supremum f) files"
proof -
  have "split_at files key (find_first files key 0 (length files))"
    using find_first_result [of files 0 "length files" key] assms by simp
  from find_first_split [OF this] show ?thesis by (auto simp: find_in_files_def Let_def)
qed

section \<open>Applying an edit\<close>

text \<open>
  \<open>sort_by\<close> of the standard library is a stable sort; for a comparison that is a total order on the
  elements at hand there is only one result.
\<close>

fun insert_by :: "('a \<Rightarrow> 'a \<Rightarrow> ordering) \<Rightarrow> 'a \<Rightarrow> 'a list \<Rightarrow> 'a list" where
  "insert_by cmp x [] = [x]"
| "insert_by cmp x (y # ys) = (if cmp y x = Greater then x # y # ys else y # insert_by cmp x ys)"

definition sort_by :: "('a \<Rightarrow> 'a \<Rightarrow> ordering) \<Rightarrow> 'a list \<Rightarrow> 'a list" where
  "sort_by cmp xs = fold (insert_by cmp) xs []"

fun merge_iters :: "('a \<Rightarrow> 'a \<Rightarrow> ordering) \<Rightarrow> 'a list \<Rightarrow> 'a list \<Rightarrow> 'a list" where
  "merge_iters cmp (a # as) (b # bs) =
     (if cmp a b = Less then a # merge_iters cmp as (b # bs) else b # merge_iters cmp (a # as) bs)"
| "merge_iters cmp as [] = as"
| "merge_iters cmp [] bs = bs"

definition compare_level_files ::
  "nat \<Rightarrow> 'k::linorder table_file_meta \<Rightarrow> 'k table_file_meta \<Rightarrow> ordering" where
  "compare_level_files level a b =
     (if level = 0 then ts_cmp (file_min_xip b) (file_min_xip a) else lin_cmp (infimum a) (infimum b))"

record 'k version_builder =
  vb_added :: "'k table_file_meta list list"
  vb_deleted :: "(nat \<times> table_file_ref) set"
  vb_mark_compacted :: "table_file_ref set list"

definition version_builder_new :: "nat \<Rightarrow> 'k version_builder" where
  "version_builder_new levels =
     \<lparr>vb_added = replicate levels [], vb_deleted = {}, vb_mark_compacted = replicate levels {}\<rparr>"

fun apply_add_files ::
  "(nat \<times> 'k table_file_meta) list \<Rightarrow> 'k table_file_meta list list \<Rightarrow> 'k table_file_meta list list res" where
  "apply_add_files [] added = Inr added"
| "apply_add_files ((level, f) # fs) added =
     (if level < length added then apply_add_files fs (added[level := added ! level @ [f]])
      else Inl (Panic ''assertion failed: *level < self.added.len()''))"

fun apply_marks :: "(nat \<times> table_file_ref) list \<Rightarrow> table_file_ref set list \<Rightarrow> table_file_ref set list res" where
  "apply_marks [] marks = Inr marks"
| "apply_marks ((level, r) # rs) marks =
     (if level < length marks then apply_marks rs (marks[level := insert r (marks ! level)])
      else Inl (Panic ''assertion failed: *level < self.mark_compacted.len()''))"

definition builder_apply :: "'k version_edit \<Rightarrow> 'k version_builder \<Rightarrow> 'k version_builder res" where
  "builder_apply e b =
     res_bind (apply_add_files (ve_add_files e) (vb_added b)) (\<lambda>added.
     res_bind (apply_marks (ve_mark_compacted e) (vb_mark_compacted b)) (\<lambda>marks.
       Inr (b\<lparr>vb_added := added, vb_mark_compacted := marks, vb_deleted := ve_deleted e\<rparr>)))"

definition merge_level ::
  "'k::linorder version_builder \<Rightarrow> 'k table_file_meta list \<Rightarrow> nat \<Rightarrow> 'k table_file_meta list" where
  "merge_level b base_files level =
     filter (\<lambda>f. (level, file_ref f) \<notin> vb_deleted b)
       (merge_iters (compare_level_files level) (sort_by (compare_level_files level) (vb_added b ! level)) base_files)"

definition mark_file :: "table_file_ref set \<Rightarrow> 'k table_file_meta \<Rightarrow> 'k table_file_meta" where
  "mark_file marks f = (if file_ref f \<in> marks then f\<lparr>being_compacted := True\<rparr> else f)"

definition mark_level :: "table_file_ref set \<Rightarrow> 'k table_file_meta list \<Rightarrow> 'k table_file_meta list" where
  "mark_level marks files = map (mark_file marks) files"

definition save_to :: "'k::linorder version_builder \<Rightarrow> 'k version \<Rightarrow> 'k version \<Rightarrow> 'k version res" where
  "save_to b base v =
     (if length (v_files base) \<noteq> length (vb_added b) \<or> length (v_files v) \<noteq> length (vb_added b)
      then Inl (Panic ''assertion failed: base.files.len() == self.added.len()'')
      else Inr (v\<lparr>v_files := map (\<lambda>level. mark_level (vb_mark_compacted b ! level)
             (merge_level b (v_files base ! level) level)) [0..<length (vb_added b)]\<rparr>))"

text \<open>The version an edit makes of \<open>base\<close>, its score included: what \<open>log_and_apply\<close> and
  \<open>register_compaction\<close> both start with.\<close>

definition edit_version :: "db_options \<Rightarrow> 'k::linorder version_edit \<Rightarrow> 'k version \<Rightarrow> 'k version res" where
  "edit_version opt e base =
     res_bind (builder_apply e (version_builder_new (num_levels opt))) (\<lambda>b.
     res_bind (save_to b base (version_new (num_levels opt))) (\<lambda>v.
       Inr (calculate_compaction_score opt v)))"

section \<open>Picking files\<close>

text \<open>\<open>Iterator::max\<close> keeps the last of equal elements.\<close>

fun ts_max :: "timestamp list \<Rightarrow> timestamp option" where
  "ts_max [] = None"
| "ts_max (t # ts) = Some (foldl (\<lambda>m t. if ts_cmp m t = Greater then m else t) t ts)"

definition file_overlaps :: "'k::linorder table_file_meta \<Rightarrow> 'k \<Rightarrow> 'k \<Rightarrow> bool" where
  "file_overlaps f lo hi \<longleftrightarrow> lo \<le> supremum f \<and> infimum f \<le> hi"

definition level0_inputs ::
  "'k::linorder table_file_meta list \<Rightarrow> timestamp \<Rightarrow> 'k \<Rightarrow> 'k \<Rightarrow> 'k table_file_meta list" where
  "level0_inputs files max_ts lo hi =
     rev (fst (fold (\<lambda>f (inputs, stop).
        if stop then (inputs, True)
        else if ts_le (file_min_xip f) max_ts then (inputs @ [f], False)
        else if file_overlaps f lo hi \<and> \<not> being_compacted f then (inputs @ [f], False)
        else (inputs, True)) (rev files) ([], False)))"

definition get_overlapping_inputs ::
  "'k::linorder version \<Rightarrow> nat \<Rightarrow> 'k table_file_meta list \<Rightarrow> 'k \<Rightarrow> 'k \<Rightarrow> 'k table_file_meta list res" where
  "get_overlapping_inputs v level prev_files lo hi =
     (if level \<ge> length (v_files v) then Inl (Panic ''index out of bounds'')
      else if level = 0 then
        (case ts_max (map file_min_xip prev_files) of
           None \<Rightarrow> Inl (Panic ''called Option::unwrap() on a None value'')
         | Some max_ts \<Rightarrow> Inr (level0_inputs (v_files v ! level) max_ts lo hi))
      else Inr (filter (\<lambda>f. file_overlaps f lo hi) (v_files v ! level)))"

definition get_range :: "nat \<Rightarrow> 'k::linorder table_file_meta list \<Rightarrow> ('k \<times> 'k) res" where
  "get_range level files =
     (case files of
        [] \<Rightarrow> Inl (Panic (if level = 0 then ''called Option::unwrap() on a None value'' else ''index out of bounds''))
      | f # fs \<Rightarrow>
          if level = 0
          then Inr (foldl (\<lambda>lo f. if infimum f < lo then infimum f else lo) (infimum f) fs,
                    foldl (\<lambda>hi f. if hi < supremum f then supremum f else hi) (supremum f) fs)
          else Inr (infimum f, supremum (last files)))"

text \<open>The loop of \<open>expand_inputs\<close>; \<open>fuel\<close> bounds its rounds.\<close>

fun expand_loop ::
  "nat \<Rightarrow> 'k::linorder version \<Rightarrow> nat \<Rightarrow> 'k table_file_meta list \<Rightarrow> 'k table_file_meta list res" where
  "expand_loop 0 v level files = Inl Diverges"
| "expand_loop (Suc fuel) v level files =
     (if files = [] then Inr files
      else res_bind (get_range level files) (\<lambda>(lo, hi).
           res_bind (get_overlapping_inputs v level files lo hi) (\<lambda>files'.
             if length files' \<le> length files then Inr files' else expand_loop fuel v level files')))"

definition expand_inputs ::
  "'k::linorder version \<Rightarrow> nat \<Rightarrow> 'k table_file_meta list \<Rightarrow> 'k table_file_meta list option res" where
  "expand_inputs v level files =
     res_bind (expand_loop (length (v_files v ! level) + 2) v level files) (\<lambda>files'.
       Inr (if \<exists>f\<in>set files'. being_compacted f then None else Some files'))"

definition try_inputs ::
  "'k::linorder version \<Rightarrow> nat \<Rightarrow> 'k table_file_meta list
    \<Rightarrow> ('k table_file_meta list \<times> 'k table_file_meta list) option res" where
  "try_inputs v level start_inputs =
     res_bind (get_range level start_inputs) (\<lambda>(lo, hi).
     res_bind (get_overlapping_inputs v (level + 1) [] lo hi) (\<lambda>overlap.
     res_bind (expand_inputs v (level + 1) overlap) (\<lambda>expanded.
       Inr (map_option (Pair start_inputs) expanded))))"

fun pick_loop ::
  "'k::linorder version \<Rightarrow> nat \<Rightarrow> 'k table_file_meta list
    \<Rightarrow> ('k table_file_meta list \<times> 'k table_file_meta list) option res" where
  "pick_loop v level [] = Inr None"
| "pick_loop v level (f # fs) =
     (let try_next = (if level = 0 then Inr None else pick_loop v level fs)
      in res_bind (expand_inputs v level [f]) (\<lambda>expanded.
           case expanded of
             None \<Rightarrow> try_next
           | Some start_inputs \<Rightarrow> res_bind (try_inputs v level start_inputs) (\<lambda>found.
               case found of Some p \<Rightarrow> Inr (Some p) | None \<Rightarrow> try_next)))"

definition try_pick_files_to_compact ::
  "'k::linorder version \<Rightarrow> nat \<Rightarrow> ('k table_file_meta list \<times> 'k table_file_meta list) option res" where
  "try_pick_files_to_compact v level =
     (if \<not> level < length (v_files v) then Inl (Panic ''assertion failed: level < self.files.len()'')
      else if \<not> level + 1 < length (v_files v) then Inl (Panic ''assertion failed: output_level < self.files.len()'')
      else pick_loop v level (sort_by (\<lambda>a b. if level = 0 then ts_cmp (file_min_xip a) (file_min_xip b)
               else ord_reverse (lin_cmp (file_size a) (file_size b)))
             (filter (\<lambda>f. \<not> being_compacted f) (v_files v ! level))))"

section \<open>Compactions and the version set\<close>

record 'k compaction =
  c_level :: nat
  c_inputs :: "'k table_file_meta list \<times> 'k table_file_meta list"
  c_edit :: "'k version_edit"

definition compaction_new ::
  "nat \<Rightarrow> 'k table_file_meta list \<times> 'k table_file_meta list \<Rightarrow> 'k compaction" where
  "compaction_new level inputs = \<lparr>c_level = level, c_inputs = inputs, c_edit = version_edit_new\<rparr>"

definition output_level :: "'k compaction \<Rightarrow> nat" where
  "output_level c = c_level c + 1"

definition delete_inputs :: "'k compaction \<Rightarrow> 'k compaction" where
  "delete_inputs c = c\<lparr>c_edit := fold (delete_file (c_level c + 1)) (snd (c_inputs c))
     (fold (delete_file (c_level c)) (fst (c_inputs c)) (c_edit c))\<rparr>"

record 'k version_set =
  vs_next_file_num :: nat
  vs_min_xip :: timestamp
  vs_min_recovery_point :: log_pointer
  vs_current :: "'k version"
  vs_level0_in_progress :: bool

definition version_set_new :: "db_options \<Rightarrow> 'k version_set" where
  "version_set_new opt =
     \<lparr>vs_next_file_num = 2, vs_min_xip = Timestamp 0, vs_min_recovery_point = 0,
      vs_current = version_new (num_levels opt), vs_level0_in_progress = False\<rparr>"

definition new_file_number :: "'k version_set \<Rightarrow> nat \<times> 'k version_set" where
  "new_file_number vs = (vs_next_file_num vs, vs\<lparr>vs_next_file_num := vs_next_file_num vs + 1\<rparr>)"

definition register_compaction ::
  "db_options \<Rightarrow> 'k::linorder compaction \<Rightarrow> 'k version_set \<Rightarrow> 'k version_set res" where
  "register_compaction opt c vs =
     (let e = fold (mark_as_being_compacted (c_level c + 1)) (snd (c_inputs c))
                (fold (mark_as_being_compacted (c_level c)) (fst (c_inputs c)) version_edit_new);
          vs1 = (if c_level c = 0 then vs\<lparr>vs_level0_in_progress := True\<rparr> else vs)
      in res_bind (edit_version opt e (vs_current vs1)) (\<lambda>v. Inr (vs1\<lparr>vs_current := v\<rparr>)))"

fun pick_level ::
  "'k::linorder version_set \<Rightarrow> (nat \<times> score) list
    \<Rightarrow> (nat \<times> 'k table_file_meta list \<times> 'k table_file_meta list) option res" where
  "pick_level vs [] = Inr None"
| "pick_level vs ((level, sc) # rest) =
     (if vs_level0_in_progress vs \<and> level = 0 then pick_level vs rest
      else if score_below_one sc then pick_level vs rest
      else res_bind (try_pick_files_to_compact (vs_current vs) level) (\<lambda>found.
        case found of Some p \<Rightarrow> Inr (Some (level, p)) | None \<Rightarrow> pick_level vs rest))"

definition pick_compaction ::
  "db_options \<Rightarrow> 'k::linorder version_set \<Rightarrow> ('k compaction option \<times> 'k version_set) res" where
  "pick_compaction opt vs =
     res_bind (pick_level vs (enumerate 0 (v_score (vs_current vs)))) (\<lambda>found.
       case found of
         None \<Rightarrow> Inr (None, vs)
       | Some (level, inputs) \<Rightarrow>
           let c = compaction_new level inputs
           in res_bind (register_compaction opt c vs) (\<lambda>vs'. Inr (Some c, vs')))"

definition recover_version_set :: "db_options \<Rightarrow> 'k checkpoint_log \<Rightarrow> 'k version_set \<Rightarrow> 'k version_set" where
  "recover_version_set opt ck vs =
     vs\<lparr>vs_min_xip := ckpt_min_xip ck, vs_next_file_num := ckpt_next_file_num ck,
        vs_min_recovery_point := ckpt_min_recovery_point ck,
        vs_current := calculate_compaction_score opt ((version_new (num_levels opt))\<lparr>v_files := ckpt_file_set ck\<rparr>)\<rparr>"

section \<open>Stable sorting and merging by a rank\<close>

definition ranks :: "('a \<Rightarrow> 'a \<Rightarrow> ordering) \<Rightarrow> ('a \<Rightarrow> 'r::linorder) \<Rightarrow> 'a set \<Rightarrow> bool" where
  "ranks cmp r S \<longleftrightarrow> (\<forall>a\<in>S. \<forall>b\<in>S. cmp a b = lin_cmp (r a) (r b))"

lemma mset_insert_by [simp]: "mset (insert_by cmp x xs) = add_mset x (mset xs)"
  by (induction xs) auto

lemma set_insert_by [simp]: "set (insert_by cmp x xs) = insert x (set xs)"
  using mset_insert_by [of cmp x xs] by (metis set_mset_add_mset_insert set_mset_mset)

lemma sorted_insert_by:
  "\<lbrakk>ranks cmp r (insert x (set xs)); sorted (map r xs)\<rbrakk> \<Longrightarrow> sorted (map r (insert_by cmp x xs))"
  by (induction xs) (auto simp: ranks_def not_less)

lemma mset_sort_by [simp]: "mset (sort_by cmp xs) = mset xs"
proof -
  have "mset (fold (insert_by cmp) xs acc) = mset xs + mset acc" for acc
    by (induction xs arbitrary: acc) auto
  then show ?thesis by (simp add: sort_by_def)
qed

lemma set_sort_by [simp]: "set (sort_by cmp xs) = set xs"
  using mset_sort_by by (metis set_mset_mset)

lemma sorted_sort_by:
  assumes "ranks cmp r (set xs)"
  shows "sorted (map r (sort_by cmp xs))"
proof -
  have "sorted (map r acc) \<Longrightarrow> ranks cmp r (set xs \<union> set acc) \<Longrightarrow> sorted (map r (fold (insert_by cmp) xs acc))" for acc
  proof (induction xs arbitrary: acc)
    case (Cons x xs)
    have "ranks cmp r (insert x (set acc))" using Cons.prems(2) by (auto simp: ranks_def)
    then have "sorted (map r (insert_by cmp x acc))" using Cons.prems(1) by (rule sorted_insert_by)
    then show ?case using Cons.prems(2) by (simp add: Cons.IH)
  qed simp
  then show ?thesis using assms by (simp add: sort_by_def)
qed

lemma mset_merge_iters [simp]: "mset (merge_iters cmp as bs) = mset as + mset bs"
  by (induction cmp as bs rule: merge_iters.induct) auto

lemma set_merge_iters [simp]: "set (merge_iters cmp as bs) = set as \<union> set bs"
  using mset_merge_iters [of cmp as bs] by (metis set_mset_mset set_mset_union)

lemma sorted_merge_iters:
  "\<lbrakk>ranks cmp r (set as \<union> set bs); sorted (map r as); sorted (map r bs)\<rbrakk> \<Longrightarrow> sorted (map r (merge_iters cmp as bs))"
proof (induction cmp as bs rule: merge_iters.induct)
  case (1 cmp a as b bs)
  then have "cmp a b = lin_cmp (r a) (r b)" by (auto simp: ranks_def)
  then show ?case using 1 by (auto simp: ranks_def not_less)
qed auto

section \<open>The order of the levels\<close>

text \<open>
  \<open>before level f g\<close>: file \<open>f\<close> comes before \<open>g\<close>. On level 0 that is the newer file; on other
  levels the keys of \<open>f\<close> are all smaller.
\<close>

definition before_file :: "nat \<Rightarrow> 'k::linorder table_file_meta \<Rightarrow> 'k table_file_meta \<Rightarrow> bool" where
  "before_file level f g \<longleftrightarrow>
     (if level = 0 then ts_bits (file_min_xip g) < ts_bits (file_min_xip f) else supremum f < infimum g)"

definition file_ok :: "nat \<Rightarrow> 'k::linorder table_file_meta \<Rightarrow> bool" where
  "file_ok level f \<longleftrightarrow> infimum f \<le> supremum f \<and> (level = 0 \<longrightarrow> ts_small (file_min_xip f))"

definition level_ok :: "nat \<Rightarrow> 'k::linorder table_file_meta list \<Rightarrow> bool" where
  "level_ok level fs \<longleftrightarrow> (\<forall>f\<in>set fs. file_ok level f) \<and> sorted_wrt (before_file level) fs \<and>
     distinct (map file_ref fs)"

definition version_ok :: "nat \<Rightarrow> 'k::linorder version \<Rightarrow> bool" where
  "version_ok n v \<longleftrightarrow> length (v_files v) = n \<and> (\<forall>level<n. level_ok level (v_files v ! level))"

definition added_files :: "'k version_edit \<Rightarrow> nat \<Rightarrow> 'k table_file_meta list" where
  "added_files e level = map snd (filter (\<lambda>p. fst p = level) (ve_add_files e))"

definition kept_files :: "'k version_edit \<Rightarrow> 'k version \<Rightarrow> nat \<Rightarrow> 'k table_file_meta list" where
  "kept_files e v level =
     filter (\<lambda>f. (level, file_ref f) \<notin> ve_deleted e) (added_files e level @ v_files v ! level)"

text \<open>What an edit has to bring along: the files that are left have an order.\<close>

definition edit_fits :: "nat \<Rightarrow> 'k::linorder version_edit \<Rightarrow> 'k version \<Rightarrow> bool" where
  "edit_fits n e v \<longleftrightarrow> (\<forall>p\<in>set (ve_add_files e). fst p < n) \<and> (\<forall>p\<in>set (ve_mark_compacted e). fst p < n) \<and>
     (\<forall>level<n. (\<forall>f\<in>set (added_files e level). file_ok level f) \<and> distinct (map file_ref (kept_files e v level)) \<and>
        (\<forall>f\<in>set (kept_files e v level). \<forall>g\<in>set (kept_files e v level).
           f \<noteq> g \<longrightarrow> before_file level f g \<or> before_file level g f))"

lemma apply_add_files_result:
  "\<forall>p\<in>set fs. fst p < length added \<Longrightarrow>
    apply_add_files fs added =
      Inr (map (\<lambda>level. added ! level @ map snd (filter (\<lambda>p. fst p = level) fs)) [0..<length added])"
proof (induction fs arbitrary: added)
  case Nil
  then show ?case by (simp add: map_nth)
next
  case (Cons p fs)
  obtain l f where p: "p = (l, f)" by (cases p)
  show ?case using Cons.prems Cons.IH [of "added[l := added ! l @ [f]]"]
    by (auto simp: p nth_list_update intro!: map_cong)
qed

lemma apply_marks_result:
  "\<forall>p\<in>set rs. fst p < length marks \<Longrightarrow>
    apply_marks rs marks =
      Inr (map (\<lambda>level. marks ! level \<union> {r. (level, r) \<in> set rs}) [0..<length marks])"
proof (induction rs arbitrary: marks)
  case Nil
  then show ?case by (simp add: map_nth)
next
  case (Cons p rs)
  obtain l r where p: "p = (l, r)" by (cases p)
  show ?case using Cons.prems Cons.IH [of "marks[l := insert r (marks ! l)]"]
    by (auto simp: p nth_list_update intro!: map_cong)
qed

definition marks_of :: "'k version_edit \<Rightarrow> nat \<Rightarrow> table_file_ref set" where
  "marks_of e level = {r. (level, r) \<in> set (ve_mark_compacted e)}"

definition new_level :: "'k::linorder version_edit \<Rightarrow> 'k version \<Rightarrow> nat \<Rightarrow> 'k table_file_meta list" where
  "new_level e v level =
     filter (\<lambda>f. (level, file_ref f) \<notin> ve_deleted e)
       (merge_iters (compare_level_files level) (sort_by (compare_level_files level) (added_files e level))
          (v_files v ! level))"

lemma edit_version_result:
  assumes "\<forall>p\<in>set (ve_add_files e). fst p < num_levels opt" "\<forall>p\<in>set (ve_mark_compacted e). fst p < num_levels opt"
    "length (v_files v) = num_levels opt"
  shows "\<exists>v'. edit_version opt e v = Inr v' \<and>
    v_files v' = map (\<lambda>level. mark_level (marks_of e level) (new_level e v level)) [0..<num_levels opt]"
  using assms
  by (auto simp: edit_version_def builder_apply_def version_builder_new_def apply_add_files_result
      apply_marks_result save_to_def version_new_def calculate_compaction_score_def merge_level_def new_level_def
      added_files_def marks_of_def)

lemma mset_new_level: "mset (new_level e v level) = mset (kept_files e v level)"
  by (simp add: new_level_def kept_files_def)

lemma set_new_level: "set (new_level e v level) = set (kept_files e v level)"
  using mset_new_level by (metis set_mset_mset)

text \<open>The rank of a file in its level.\<close>

lemma level0_ranks:
  "\<forall>f\<in>S. ts_small (file_min_xip f) \<Longrightarrow> ranks (compare_level_files 0) (\<lambda>f. - uint (ts_bits (file_min_xip f))) S"
  by (auto simp: ranks_def compare_level_files_def ts_cmp_small lin_cmp_def word_less_def word_uint_eq_iff)

lemma level_ranks: "0 < level \<Longrightarrow> ranks (compare_level_files level) infimum S"
  by (auto simp: ranks_def compare_level_files_def)

lemma sorted_wrt_rank:
  assumes "sorted (map r xs)" "distinct xs" "\<forall>f\<in>set xs. \<forall>g\<in>set xs. f \<noteq> g \<longrightarrow> P f g \<or> P g f"
    "\<forall>f\<in>set xs. \<forall>g\<in>set xs. P f g \<longrightarrow> r f < r g"
  shows "sorted_wrt P xs"
  using assms by (induction xs) (auto, metis leD)

lemma new_level_sorted:
  assumes v: "level_ok level (v_files v ! level)" and a: "\<forall>f\<in>set (added_files e level). file_ok level f"
    and d: "distinct (map file_ref (kept_files e v level))"
    and o: "\<forall>f\<in>set (kept_files e v level). \<forall>g\<in>set (kept_files e v level).
           f \<noteq> g \<longrightarrow> before_file level f g \<or> before_file level g f"
  shows "level_ok level (new_level e v level)"
proof -
  have "distinct (map file_ref (new_level e v level))"
    using d mset_new_level [of e v level] by (metis mset_eq_imp_distinct_iff mset_map)
  moreover from this have dist: "distinct (new_level e v level)" by (simp add: distinct_map)
  moreover have ok: "\<forall>f\<in>set (new_level e v level). file_ok level f"
    using v a by (auto simp: set_new_level kept_files_def level_ok_def)
  moreover have "sorted_wrt (before_file level) (new_level e v level)"
  proof (cases "level = 0")
    case True
    let ?r = "\<lambda>f. - uint (ts_bits (file_min_xip f))"
    have "ranks (compare_level_files 0) ?r (set (added_files e level) \<union> set (v_files v ! level))"
      using v a True by (intro level0_ranks) (auto simp: level_ok_def file_ok_def)
    moreover from this have "ranks (compare_level_files 0) ?r (set (added_files e level))" by (simp add: ranks_def)
    moreover have "sorted (map ?r (v_files v ! level))"
      using v True by (auto simp: level_ok_def sorted_wrt_map before_file_def word_less_def elim: sorted_wrt_mono_rel [rotated])
    ultimately have "sorted (map ?r (new_level e v level))"
      using True unfolding new_level_def
      by (auto intro!: sorted_filter sorted_merge_iters sorted_sort_by simp del: set_merge_iters)
    then show ?thesis
      by (rule sorted_wrt_rank) (use dist o True in \<open>auto simp: set_new_level before_file_def word_less_def\<close>)
  next
    case False
    have "sorted (map infimum (v_files v ! level))"
      using v False unfolding level_ok_def sorted_wrt_map
      by (elim conjE sorted_wrt_mono_rel [rotated]) (auto simp: before_file_def file_ok_def)
    then have "sorted (map infimum (new_level e v level))"
      using False level_ranks [of level] unfolding new_level_def
      by (intro sorted_filter sorted_merge_iters sorted_sort_by) auto
    then show ?thesis
    proof (rule sorted_wrt_rank)
      show "\<forall>f\<in>set (new_level e v level). \<forall>g\<in>set (new_level e v level). before_file level f g \<longrightarrow> infimum f < infimum g"
        using ok False by (auto simp: before_file_def file_ok_def intro: order_le_less_trans)
    qed (use dist o in \<open>simp_all add: set_new_level\<close>)
  qed
  ultimately show ?thesis by (simp add: level_ok_def)
qed

lemma mark_file_simps [simp]:
  "file_ref (mark_file marks f) = file_ref f" "infimum (mark_file marks f) = infimum f"
  "supremum (mark_file marks f) = supremum f" "file_min_xip (mark_file marks f) = file_min_xip f"
  "being_compacted (mark_file marks f) \<longleftrightarrow> file_ref f \<in> marks \<or> being_compacted f"
  "file_size (mark_file marks f) = file_size f"
  by (simp_all add: mark_file_def)

lemma mark_file_order [simp]:
  "file_ok level (mark_file marks f) \<longleftrightarrow> file_ok level f"
  "before_file level (mark_file marks f) (mark_file marks g) \<longleftrightarrow> before_file level f g"
  by (simp_all add: file_ok_def before_file_def)

lemma mark_level_ok [simp]: "level_ok level (mark_level marks fs) \<longleftrightarrow> level_ok level fs"
  by (simp add: level_ok_def mark_level_def sorted_wrt_map o_def)

lemma edit_version_ok:
  assumes v: "version_ok (num_levels opt) v" and e: "edit_fits (num_levels opt) e v"
  shows "\<exists>v'. edit_version opt e v = Inr v' \<and> version_ok (num_levels opt) v' \<and>
    v_files v' = map (\<lambda>level. mark_level (marks_of e level) (new_level e v level)) [0..<num_levels opt]"
proof -
  obtain v' where v': "edit_version opt e v = Inr v'"
    "v_files v' = map (\<lambda>level. mark_level (marks_of e level) (new_level e v level)) [0..<num_levels opt]"
    using edit_version_result [of e opt v] v e by (auto simp: version_ok_def edit_fits_def)
  have "level_ok level (new_level e v level)" if "level < num_levels opt" for level
    using v e that by (intro new_level_sorted) (auto simp: version_ok_def edit_fits_def)
  then show ?thesis using v' by (simp add: version_ok_def)
qed

section \<open>The selection of input files\<close>

definition low_key :: "'k::linorder table_file_meta list \<Rightarrow> 'k" where
  "low_key fs = Min (infimum ` set fs)"

definition high_key :: "'k::linorder table_file_meta list \<Rightarrow> 'k" where
  "high_key fs = Max (supremum ` set fs)"

lemma foldl_min: "foldl (\<lambda>lo f. if infimum f < lo then infimum f else lo) x fs = Min (insert x (infimum ` set fs))"
proof (induction fs arbitrary: x)
  case (Cons f fs)
  have "Min (insert x (infimum ` set (f # fs))) = Min (insert (min (infimum f) x) (infimum ` set fs))"
    by (cases "set fs = {}") (auto simp: min.left_commute min.commute min.assoc)
  then show ?case using Cons.IH by (auto simp: min_def not_less)
qed simp

lemma foldl_max: "foldl (\<lambda>hi f. if hi < supremum f then supremum f else hi) x fs = Max (insert x (supremum ` set fs))"
proof (induction fs arbitrary: x)
  case (Cons f fs)
  have "Max (insert x (supremum ` set (f # fs))) = Max (insert (max x (supremum f)) (supremum ` set fs))"
    by (cases "set fs = {}") (auto simp: max.left_commute max.commute max.assoc)
  then show ?case using Cons.IH by (auto simp: max_def not_less)
qed simp

lemma level_ends:
  assumes "level_ok level fs" "level > 0" "fs \<noteq> []"
  shows "infimum (hd fs) = low_key fs" "supremum (last fs) = high_key fs"
proof -
  have ok: "\<forall>f\<in>set fs. infimum f \<le> supremum f" and s: "sorted_wrt (\<lambda>f g. supremum f < infimum g) fs"
    using assms(1,2) by (auto simp: level_ok_def file_ok_def before_file_def [abs_def])
  have "\<forall>f\<in>set fs. infimum (hd fs) \<le> infimum f"
    using ok s assms(3) by (cases fs) (auto intro: order_trans less_imp_le)
  then show "infimum (hd fs) = low_key fs"
    unfolding low_key_def using assms(3) by (intro Min_eqI [symmetric]) auto
  have "fs = butlast fs @ [last fs]" using assms(3) by simp
  then have "\<forall>f\<in>set (butlast fs). supremum f < infimum (last fs)"
    using s by (metis list.set_intros(1) sorted_wrt_append)
  then have "\<forall>f\<in>set fs. supremum f \<le> supremum (last fs)"
    using ok assms(3) \<open>fs = butlast fs @ [last fs]\<close>
    by (metis Un_iff empty_set less_imp_le list.simps(15) order_refl order_trans set_append singletonD last_in_set)
  then show "supremum (last fs) = high_key fs"
    unfolding high_key_def using assms(3) by (intro Max_eqI [symmetric]) auto
qed

lemma get_range_result:
  assumes "level_ok level fs" "fs \<noteq> []"
  shows "get_range level fs = Inr (low_key fs, high_key fs)"
proof (cases "level = 0")
  case True
  then show ?thesis using assms(2) by (cases fs) (simp_all add: get_range_def foldl_min foldl_max low_key_def high_key_def)
next
  case False
  then show ?thesis using level_ends [OF assms(1) _ assms(2)] assms(2) by (cases fs) (simp_all add: get_range_def)
qed

lemma key_bounds: "f \<in> set fs \<Longrightarrow> low_key fs \<le> infimum f \<and> supremum f \<le> high_key fs"
  by (simp add: low_key_def high_key_def)

text \<open>A selection of a level: some of its files, in its order.\<close>

definition selection :: "'k table_file_meta list \<Rightarrow> 'k table_file_meta list \<Rightarrow> bool" where
  "selection fs sel \<longleftrightarrow> sel = filter (\<lambda>f. f \<in> set sel) fs"

lemma selection_filter [simp]: "selection fs (filter P fs)"
  unfolding selection_def by (rule filter_cong) auto

lemma selection_subset: "selection fs sel \<Longrightarrow> set sel \<subseteq> set fs"
  unfolding selection_def by (metis filter_is_subset)

lemma selection_level_ok:
  assumes "level_ok level fs" "selection fs sel"
  shows "level_ok level sel"
proof -
  have "level_ok level (filter P fs)" for P
    using assms(1) by (auto simp: level_ok_def sorted_wrt_filter distinct_map_filter)
  then show ?thesis using assms(2) by (metis selection_def)
qed

lemma level_ok_distinct: "level_ok level fs \<Longrightarrow> distinct fs"
  by (simp add: level_ok_def distinct_map)

lemma selection_eqI:
  assumes "distinct fs" "selection fs a" "selection fs b" "set a \<subseteq> set b" "length b \<le> length a"
  shows "a = b"
proof -
  have "distinct a" "distinct b" using assms(1-3) by (metis distinct_filter selection_def)+
  then have "card (set b) \<le> card (set a)" using assms(5) by (simp add: distinct_card)
  then have "set a = set b" using assms(4) by (simp add: card_seteq)
  then show ?thesis using assms(2,3) by (simp add: selection_def)
qed

lemma selection_length: "selection fs sel \<Longrightarrow> length sel \<le> length fs"
  unfolding selection_def by (metis length_filter_le)

subsection \<open>Overlapping files\<close>

lemma fold_take_while:
  "fold (\<lambda>f (inputs, stop). if stop then (inputs, True) else if P f then (inputs @ [f], False)
      else if Q f then (inputs @ [f], False) else (inputs, True)) fs (acc, False) =
    (acc @ takeWhile (\<lambda>f. P f \<or> Q f) fs, \<not> (\<forall>f\<in>set fs. P f \<or> Q f))"
proof -
  have "fold (\<lambda>f (inputs, stop). if stop then (inputs, True) else if P f then (inputs @ [f], False)
      else if Q f then (inputs @ [f], False) else (inputs, True)) fs (acc, True) = (acc, True)" for acc
    by (induction fs) auto
  then show ?thesis by (induction fs arbitrary: acc) auto
qed

lemma level0_inputs_takeWhile:
  "level0_inputs fs m lo hi =
     rev (takeWhile (\<lambda>f. ts_le (file_min_xip f) m \<or> file_overlaps f lo hi \<and> \<not> being_compacted f) (rev fs))"
  by (simp add: level0_inputs_def fold_take_while)

lemma ts_max_result:
  assumes "ts \<noteq> []" "\<forall>t\<in>set ts. ts_small t"
  shows "\<exists>m. ts_max ts = Some m \<and> m \<in> set ts \<and> (\<forall>t\<in>set ts. ts_bits t \<le> ts_bits m)"
proof -
  obtain t0 r where ts: "ts = t0 # r" using assms(1) by (cases ts) auto
  have "\<forall>t\<in>insert t0 (set r). ts_small t \<Longrightarrow>
      foldl (\<lambda>m t. if ts_cmp m t = Greater then m else t) t0 r \<in> insert t0 (set r) \<and>
      (\<forall>t\<in>insert t0 (set r). ts_bits t \<le> ts_bits (foldl (\<lambda>m t. if ts_cmp m t = Greater then m else t) t0 r))"
  proof (induction r arbitrary: t0)
    case (Cons t r)
    let ?x = "if ts_cmp t0 t = Greater then t0 else t"
    have x: "ts_bits t0 \<le> ts_bits ?x" "ts_bits t \<le> ts_bits ?x" using Cons.prems by (auto simp: ts_cmp_small lin_cmp_def)
    show ?case using Cons.IH [of ?x] Cons.prems x by (auto intro: order_trans)
  qed simp
  then show ?thesis using assms(2) by (simp add: ts)
qed

definition overlap_set ::
  "nat \<Rightarrow> 'k::linorder table_file_meta list \<Rightarrow> 'k table_file_meta list \<Rightarrow> 'k table_file_meta list" where
  "overlap_set level fs sel =
     (if level = 0 then level0_inputs fs (the (ts_max (map file_min_xip sel))) (low_key sel) (high_key sel)
      else filter (\<lambda>f. file_overlaps f (low_key sel) (high_key sel)) fs)"

lemma selection_suffix: "distinct (a @ b) \<Longrightarrow> selection (a @ b) b"
proof -
  assume "distinct (a @ b)"
  then have "filter (\<lambda>f. f \<in> set b) a = []" by (auto simp: filter_empty_conv)
  then show ?thesis by (simp add: selection_def)
qed

lemma suffix_takeWhile: "\<exists>a. fs = a @ rev (takeWhile P (rev fs))"
  by (metis rev_append rev_rev_ident takeWhile_dropWhile_id)

lemma rev_takeWhile_stop:
  "f \<in> set xs \<Longrightarrow> f \<notin> set (rev (takeWhile P (rev xs))) \<Longrightarrow> \<exists>a g b. xs = a @ g # b \<and> \<not> P g \<and> f \<in> set (a @ [g])"
proof (induction xs rule: rev_induct)
  case (snoc x xs)
  show ?case
  proof (cases "P x")
    case True
    then obtain a g b where "xs = a @ g # b" "\<not> P g" "f \<in> set (a @ [g])" using snoc by auto
    then show ?thesis by (intro exI [of _ a] exI [of _ g] exI [of _ "b @ [x]"]) simp
  next
    case False
    then show ?thesis using snoc.prems(1) by (intro exI [of _ xs] exI [of _ x] exI [of _ "[]"]) simp
  qed
qed simp

lemma overlap_set_result:
  assumes fs: "level_ok level fs" and s: "selection fs sel" "sel \<noteq> []"
  shows "selection fs (overlap_set level fs sel)" "set sel \<subseteq> set (overlap_set level fs sel)"
    "level = 0 \<Longrightarrow> \<exists>a. fs = a @ overlap_set level fs sel"
proof -
  have sub: "set sel \<subseteq> set fs" using s(1) by (rule selection_subset)
  show suffix: "\<exists>a. fs = a @ overlap_set level fs sel" if "level = 0"
    using that suffix_takeWhile by (simp add: overlap_set_def level0_inputs_takeWhile)
  show "selection fs (overlap_set level fs sel)"
  proof (cases "level = 0")
    case True
    then show ?thesis using suffix selection_suffix level_ok_distinct [OF fs] by metis
  qed (simp add: overlap_set_def)
  show "set sel \<subseteq> set (overlap_set level fs sel)"
  proof (cases "level = 0")
    case False
    have "file_overlaps f (low_key sel) (high_key sel)" if "f \<in> set sel" for f
    proof -
      have "infimum f \<le> supremum f" using fs that sub by (auto simp: level_ok_def file_ok_def)
      then show ?thesis using key_bounds [OF that] by (auto simp: file_overlaps_def)
    qed
    then show ?thesis using False sub by (auto simp: overlap_set_def)
  next
    case True
    have small: "\<forall>f\<in>set fs. ts_small (file_min_xip f)" using fs True by (auto simp: level_ok_def file_ok_def)
    then obtain m where m: "ts_max (map file_min_xip sel) = Some m" "m \<in> file_min_xip ` set sel"
      "\<forall>f\<in>set sel. ts_bits (file_min_xip f) \<le> ts_bits m"
      using ts_max_result [of "map file_min_xip sel"] s(2) sub by auto
    have sm: "ts_small m" using m(2) small sub by auto
    let ?P = "\<lambda>f. ts_le (file_min_xip f) m \<or> file_overlaps f (low_key sel) (high_key sel) \<and> \<not> being_compacted f"
    obtain a where a: "fs = a @ rev (takeWhile ?P (rev fs))" using suffix_takeWhile by blast
    show ?thesis
    proof
      fix f assume f: "f \<in> set sel"
      show "f \<in> set (overlap_set level fs sel)"
      proof (rule ccontr)
        assume "f \<notin> set (overlap_set level fs sel)"
        then have "f \<notin> set (rev (takeWhile ?P (rev fs)))"
          using True m(1) by (simp add: overlap_set_def level0_inputs_takeWhile)
        then obtain a g b where g: "fs = a @ g # b" "\<not> ?P g" "f \<in> set (a @ [g])"
          using rev_takeWhile_stop [OF subsetD [OF sub f]] by blast
        have "sorted_wrt (before_file 0) (a @ g # b)" using fs g(1) True by (simp add: level_ok_def)
        then have "f = g \<or> before_file 0 f g" using g(3) by (auto simp: sorted_wrt_append)
        then have "ts_bits (file_min_xip g) \<le> ts_bits m"
          using m(3) f by (auto simp: before_file_def)
        moreover have "g \<in> set fs" using g(1) by simp
        ultimately have "ts_le (file_min_xip g) m" using small sm by (simp add: ts_le_small)
        then show False using g(2) by simp
      qed
    qed
  qed
qed

lemma get_overlapping_result:
  assumes "level_ok level (v_files v ! level)" "level < length (v_files v)"
    "selection (v_files v ! level) sel" "sel \<noteq> []"
  shows "get_overlapping_inputs v level sel (low_key sel) (high_key sel) = Inr (overlap_set level (v_files v ! level) sel)"
proof (cases "level = 0")
  case True
  have "\<forall>t\<in>set (map file_min_xip sel). ts_small t"
    using assms(1) selection_subset [OF assms(3)] True by (auto simp: level_ok_def file_ok_def)
  then obtain m where "ts_max (map file_min_xip sel) = Some m"
    using ts_max_result [of "map file_min_xip sel"] assms(4) by auto
  then show ?thesis using assms(2) True by (simp add: get_overlapping_inputs_def overlap_set_def)
qed (use assms(2) in \<open>simp add: get_overlapping_inputs_def overlap_set_def\<close>)

text \<open>
  The loop returns: a round that goes on has found more files, and there are no more than the level
  has. What it returns overlaps no other file of the level.
\<close>

lemma expand_loop_result:
  "\<lbrakk>level_ok level (v_files v ! level); level < length (v_files v); selection (v_files v ! level) sel;
    length (v_files v ! level) - length sel < fuel\<rbrakk> \<Longrightarrow>
   \<exists>res. expand_loop fuel v level sel = Inr res \<and> selection (v_files v ! level) res \<and> set sel \<subseteq> set res \<and>
     (sel \<noteq> [] \<longrightarrow> res = overlap_set level (v_files v ! level) res) \<and> (sel = [] \<longrightarrow> res = [])"
proof (induction fuel arbitrary: sel)
  case (Suc fuel)
  let ?fs = "v_files v ! level"
  show ?case
  proof (cases "sel = []")
    case True
    then show ?thesis by (simp add: selection_def)
  next
    case False
    let ?o = "overlap_set level ?fs sel"
    note o = overlap_set_result [OF Suc.prems(1,3) False]
    have step: "expand_loop (Suc fuel) v level sel =
        (if length ?o \<le> length sel then Inr ?o else expand_loop fuel v level ?o)"
      using False get_range_result [OF selection_level_ok [OF Suc.prems(1,3)] False]
        get_overlapping_result [OF Suc.prems(1,2,3) False] by simp
    show ?thesis
    proof (cases "length ?o \<le> length sel")
      case True
      then have "sel = ?o"
        using selection_eqI [OF level_ok_distinct [OF Suc.prems(1)] Suc.prems(3) o(1,2)] by blast
      then show ?thesis using step True o(1,2) False by metis
    next
      case more: False
      have ne: "?o \<noteq> []" using more by auto
      have "length ?fs - length ?o < fuel"
        using more Suc.prems(4) selection_length [OF o(1)] by linarith
      then obtain res where "expand_loop fuel v level ?o = Inr res" "selection ?fs res" "set ?o \<subseteq> set res"
        "res = overlap_set level ?fs res"
        using Suc.IH [OF Suc.prems(1,2) o(1)] ne by blast
      then show ?thesis using step more o(2) False by auto
    qed
  qed
qed simp

declare expand_loop.simps [simp del]

text \<open>What a pick returns.\<close>

definition good_inputs ::
  "'k::linorder version \<Rightarrow> nat \<Rightarrow> 'k table_file_meta list \<Rightarrow> 'k table_file_meta list \<Rightarrow> bool" where
  "good_inputs v level ins outs \<longleftrightarrow>
     ins \<noteq> [] \<and> selection (v_files v ! level) ins \<and> selection (v_files v ! (level + 1)) outs \<and>
     (\<forall>f\<in>set ins \<union> set outs. \<not> being_compacted f) \<and>
     (level = 0 \<longrightarrow> (\<exists>newer. v_files v ! 0 = newer @ ins)) \<and>
     (\<forall>g\<in>set (v_files v ! (level + 1)) - set outs.
        supremum g < low_key (ins @ outs) \<or> high_key (ins @ outs) < infimum g)"

lemma closed_apart:
  assumes fs: "level_ok level fs" "0 < level" and g: "g \<in> set fs" "g \<notin> set outs"
    and outs: "outs = [] \<or> outs = overlap_set level fs outs" and sub: "set outs \<subseteq> set fs"
    and ov: "\<forall>f\<in>set fs. file_overlaps f lo hi \<longrightarrow> f \<in> set outs"
    and hit: "outs = [] \<or> (\<exists>f\<in>set outs. file_overlaps f lo hi)"
  shows "supremum g < (if outs = [] then lo else min lo (low_key outs)) \<or>
    (if outs = [] then hi else max hi (high_key outs)) < infimum g"
proof (cases "outs = []")
  case True
  then show ?thesis using ov g by (auto simp: file_overlaps_def not_le)
next
  case False
  obtain f where f: "f \<in> set outs" "file_overlaps f lo hi" using hit False by blast
  have "outs = filter (\<lambda>f. file_overlaps f (low_key outs) (high_key outs)) fs"
    using outs False fs(2) by (metis overlap_set_def less_irrefl)
  then have n: "\<not> file_overlaps g (low_key outs) (high_key outs)" using g by (metis (mono_tags, lifting) filter_set mem_Collect_eq set_filter)
  have n2: "\<not> file_overlaps g lo hi" using ov g by blast
  have gi: "infimum g \<le> supremum g" and fi: "infimum f \<le> supremum f"
    using fs g f(1) sub by (auto simp: level_ok_def file_ok_def)
  note kb = key_bounds [OF f(1)]
  show ?thesis
    using n n2 f(2) gi fi kb False unfolding file_overlaps_def not_le de_Morgan_conj
    by (auto simp: min_less_iff_disj less_max_iff_disj)
qed

lemma hull_append:
  assumes "a \<noteq> []"
  shows "low_key (a @ b) = (if b = [] then low_key a else min (low_key a) (low_key b))"
    "high_key (a @ b) = (if b = [] then high_key a else max (high_key a) (high_key b))"
  using assms by (simp_all add: low_key_def high_key_def image_Un Min.union Max.union)

lemma try_inputs_result:
  assumes v: "version_ok n v" and l: "level + 1 < n"
    and ins: "selection (v_files v ! level) ins" "ins \<noteq> []" "\<forall>f\<in>set ins. \<not> being_compacted f"
    and suffix: "level = 0 \<longrightarrow> (\<exists>newer. v_files v ! 0 = newer @ ins)"
  shows "\<exists>r. try_inputs v level ins = Inr r \<and>
    (\<forall>p. r = Some p \<longrightarrow> fst p = ins \<and> good_inputs v level ins (snd p))"
proof -
  let ?fs = "v_files v ! (level + 1)"
  have lv: "level_ok level (v_files v ! level)" "level_ok (level + 1) ?fs" "length (v_files v) = n"
    using v l by (auto simp: version_ok_def)
  note r = get_range_result [OF selection_level_ok [OF lv(1) ins(1)] ins(2)]
  let ?o = "filter (\<lambda>f. file_overlaps f (low_key ins) (high_key ins)) ?fs"
  have fuel: "length ?fs - length ?o < length ?fs + 2" by simp
  obtain res where res: "expand_loop (length ?fs + 2) v (level + 1) ?o = Inr res" "selection ?fs res"
    "set ?o \<subseteq> set res" "?o \<noteq> [] \<longrightarrow> res = overlap_set (level + 1) ?fs res" "?o = [] \<longrightarrow> res = []"
    using expand_loop_result [OF lv(2) _ selection_filter fuel] lv(3) l by blast
  have step: "try_inputs v level ins = Inr (map_option (Pair ins) (if \<exists>f\<in>set res. being_compacted f then None else Some res))"
    using r res(1) l lv(3) by (simp add: try_inputs_def get_overlapping_inputs_def expand_inputs_def)
  have "supremum g < low_key (ins @ res) \<or> high_key (ins @ res) < infimum g"
    if g: "g \<in> set ?fs" "g \<notin> set res" for g
  proof -
    have hit: "res = [] \<or> (\<exists>f\<in>set res. file_overlaps f (low_key ins) (high_key ins))"
    proof (cases "?o = []")
      case False
      then obtain f where "f \<in> set ?o" by (meson last_in_set)
      then show ?thesis using res(3) by auto
    qed (use res(5) in simp)
    have "supremum g < (if res = [] then low_key ins else min (low_key ins) (low_key res)) \<or>
      (if res = [] then high_key ins else max (high_key ins) (high_key res)) < infimum g"
      using res(3-5) g hit selection_subset [OF res(2)]
      by (intro closed_apart [OF lv(2)]) auto
    then show ?thesis unfolding hull_append [OF ins(2)] .
  qed
  then show ?thesis
    using step ins res(2) suffix by (auto simp: good_inputs_def)
qed

lemma filter_single: "\<lbrakk>distinct xs; f \<in> set xs\<rbrakk> \<Longrightarrow> filter (\<lambda>g. g = f) xs = [f]"
  by (induction xs) (auto simp: filter_empty_conv)

lemma expand_inputs_result:
  assumes v: "version_ok n v" and l: "level < n" and f: "f \<in> set (v_files v ! level)"
  shows "\<exists>r. expand_inputs v level [f] = Inr r \<and>
    (\<forall>ins. r = Some ins \<longrightarrow> selection (v_files v ! level) ins \<and> ins \<noteq> [] \<and> (\<forall>f\<in>set ins. \<not> being_compacted f) \<and>
       (level = 0 \<longrightarrow> (\<exists>newer. v_files v ! 0 = newer @ ins)))"
proof -
  let ?fs = "v_files v ! level"
  have lv: "level_ok level ?fs" "length (v_files v) = n" using v l by (auto simp: version_ok_def)
  have "filter (\<lambda>g. g = f) ?fs = [f]" using filter_single [OF level_ok_distinct [OF lv(1)] f] .
  then have sel: "selection ?fs [f]" by (simp add: selection_def)
  have fuel: "length ?fs - length [f] < length ?fs + 2" by linarith
  have ll: "level < length (v_files v)" using lv(2) l by simp
  obtain res where res: "expand_loop (length ?fs + 2) v level [f] = Inr res" "selection ?fs res"
    "set [f] \<subseteq> set res" "res = overlap_set level ?fs res"
    using expand_loop_result [OF lv(1) ll sel fuel] by (metis list.discI)
  have ne: "res \<noteq> []" using res(3) by auto
  have "level = 0 \<Longrightarrow> \<exists>a. ?fs = a @ res"
    using overlap_set_result(3) [OF lv(1) res(2) ne] res(4) by simp
  then show ?thesis using res ne by (auto simp: expand_inputs_def)
qed

lemma pick_loop_result:
  assumes v: "version_ok n v" and l: "level + 1 < n"
  shows "set fs \<subseteq> set (v_files v ! level) \<Longrightarrow>
    \<exists>r. pick_loop v level fs = Inr r \<and> (\<forall>p. r = Some p \<longrightarrow> good_inputs v level (fst p) (snd p))"
proof (induction fs)
  case (Cons f fs)
  define try_next where "try_next = (if level = 0 then Inr None else pick_loop v level fs)"
  have tn: "\<exists>r. try_next = Inr r \<and> (\<forall>p. r = Some p \<longrightarrow> good_inputs v level (fst p) (snd p))"
    using Cons by (auto simp: try_next_def)
  obtain r where r: "expand_inputs v level [f] = Inr r"
    "\<forall>ins. r = Some ins \<longrightarrow> selection (v_files v ! level) ins \<and> ins \<noteq> [] \<and> (\<forall>f\<in>set ins. \<not> being_compacted f) \<and>
       (level = 0 \<longrightarrow> (\<exists>newer. v_files v ! 0 = newer @ ins))"
    using expand_inputs_result [OF v, of level f] l Cons.prems by auto
  show ?case
  proof (cases r)
    case None
    then show ?thesis using r(1) tn by (simp add: try_next_def)
  next
    case (Some ins)
    then obtain t where t: "try_inputs v level ins = Inr t"
      "\<forall>p. t = Some p \<longrightarrow> fst p = ins \<and> good_inputs v level ins (snd p)"
      using try_inputs_result [OF v l] r(2) by blast
    show ?thesis using Some r(1) t tn by (cases t) (auto simp: try_next_def)
  qed
qed simp

lemma try_pick_result:
  assumes v: "version_ok n v" and l: "level + 1 < n"
  shows "\<exists>r. try_pick_files_to_compact v level = Inr r \<and>
    (\<forall>p. r = Some p \<longrightarrow> good_inputs v level (fst p) (snd p))"
proof -
  have "length (v_files v) = n" using v by (simp add: version_ok_def)
  then show ?thesis
    using l pick_loop_result [OF v l] unfolding try_pick_files_to_compact_def by auto
qed

section \<open>Marking the files of a compaction\<close>

definition mark_edit :: "'k compaction \<Rightarrow> 'k version_edit" where
  "mark_edit c = fold (mark_as_being_compacted (c_level c + 1)) (snd (c_inputs c))
     (fold (mark_as_being_compacted (c_level c)) (fst (c_inputs c)) version_edit_new)"

lemma fold_mark:
  "fold (mark_as_being_compacted level) fs e =
     e\<lparr>ve_mark_compacted := ve_mark_compacted e @ map (\<lambda>f. (level, file_ref f)) fs\<rparr>"
  by (induction fs arbitrary: e) (auto simp: mark_as_being_compacted_def)

lemma mark_edit_eq:
  "mark_edit c = \<lparr>ve_min_xip = None, ve_add_files = [], ve_deleted = {},
     ve_mark_compacted = map (\<lambda>f. (c_level c, file_ref f)) (fst (c_inputs c)) @
       map (\<lambda>f. (c_level c + 1, file_ref f)) (snd (c_inputs c))\<rparr>"
  by (simp add: mark_edit_def fold_mark version_edit_new_def)

lemma level_ok_total:
  "\<lbrakk>level_ok level fs; f \<in> set fs; g \<in> set fs; f \<noteq> g\<rbrakk> \<Longrightarrow> before_file level f g \<or> before_file level g f"
  unfolding level_ok_def by (induction fs) auto

lemma merge_iters_Nil [simp]: "merge_iters cmp [] bs = bs"
  by (cases bs) simp_all

lemma mark_edit_result:
  assumes v: "version_ok (num_levels opt) v" and l: "c_level c + 1 < num_levels opt"
  shows "\<exists>v'. edit_version opt (mark_edit c) v = Inr v' \<and> version_ok (num_levels opt) v' \<and>
    v_files v' = map (\<lambda>level. mark_level (marks_of (mark_edit c) level) (v_files v ! level)) [0..<num_levels opt]"
proof -
  have k: "added_files (mark_edit c) level = []" "kept_files (mark_edit c) v level = v_files v ! level"
    "new_level (mark_edit c) v level = v_files v ! level" for level
    by (simp_all add: added_files_def kept_files_def new_level_def mark_edit_eq sort_by_def)
  have "edit_fits (num_levels opt) (mark_edit c) v"
    using v l level_ok_total unfolding edit_fits_def k
    by (auto simp: version_ok_def level_ok_def mark_edit_eq) blast+
  from edit_version_ok [OF v this] show ?thesis by (simp add: k)
qed

text \<open>
  A checkpoint holds the marks of compactions that were running, and recovery takes them over: when a
  crash stops a compaction, its files stay marked and are never picked again.
\<close>

lemma recovered_marks_block_compaction:
  assumes "level + 1 < length (ckpt_file_set ck)" "\<forall>f\<in>set (ckpt_file_set ck ! level). being_compacted f"
  shows "try_pick_files_to_compact (vs_current (recover_version_set opt ck vs)) level = Inr None"
proof -
  have "filter (\<lambda>f. \<not> being_compacted f) (ckpt_file_set ck ! level) = []"
    using assms(2) by (simp add: filter_empty_conv)
  then show ?thesis
    using assms(1) by (simp add: try_pick_files_to_compact_def recover_version_set_def
        calculate_compaction_score_def sort_by_def)
qed

section \<open>Properties\<close>

text \<open>The score of the last level is zero: it is never compacted.\<close>

definition score_ok :: "nat \<Rightarrow> 'k version \<Rightarrow> bool" where
  "score_ok n v \<longleftrightarrow> length (v_score v) = n \<and> (n > 0 \<longrightarrow> score_below_one (v_score v ! (n - 1)))"

lemma calculate_score_ok: "length (v_files v) = n \<Longrightarrow> score_ok n (calculate_compaction_score opt v)"
  by (auto simp: score_ok_def calculate_compaction_score_def level_score_def score_below_one_def)

text \<open>
  C20: edits keep the levels in order. When the files an edit adds and those it leaves can be
  ordered (different timestamps on level 0, disjoint key ranges elsewhere), applying it succeeds, every
  level holds the files added or there before and not deleted, and is in order again: the newest file
  first on level 0, by disjoint ascending key ranges elsewhere.
\<close>
theorem edit_keeps_version_ok:
  "\<lbrakk>version_ok (num_levels opt) v; edit_fits (num_levels opt) e v\<rbrakk> \<Longrightarrow>
   \<exists>v'. edit_version opt e v = Inr v' \<and> version_ok (num_levels opt) v' \<and> score_ok (num_levels opt) v' \<and>
     (\<forall>level<num_levels opt. mset (v_files v' ! level) =
        image_mset (mark_file (marks_of e level)) (mset (kept_files e v level)))"
proof -
  assume a: "version_ok (num_levels opt) v" "edit_fits (num_levels opt) e v"
  obtain v' where v': "edit_version opt e v = Inr v'" "version_ok (num_levels opt) v'"
    "v_files v' = map (\<lambda>level. mark_level (marks_of e level) (new_level e v level)) [0..<num_levels opt]"
    using edit_version_ok [OF a] by blast
  obtain v0 where v0: "v' = calculate_compaction_score opt v0"
    using v'(1) by (auto simp: edit_version_def res_bind_eq_Inr)
  have "length (v_files v0) = num_levels opt"
    using v'(2) by (simp add: v0 version_ok_def calculate_compaction_score_def)
  then have "score_ok (num_levels opt) v'" unfolding v0 by (rule calculate_score_ok)
  then show ?thesis using v' by (auto simp: mark_level_def mset_new_level)
qed

lemma pick_level_result:
  assumes v: "version_ok n (vs_current vs)" and sc: "\<forall>p\<in>set ls. fst p < n \<and> (fst p + 1 = n \<longrightarrow> score_below_one (snd p))"
  shows "\<exists>r. pick_level vs ls = Inr r \<and>
    (\<forall>level p. r = Some (level, p) \<longrightarrow> level + 1 < n \<and> good_inputs (vs_current vs) level (fst p) (snd p) \<and>
       (level = 0 \<longrightarrow> \<not> vs_level0_in_progress vs))"
  using sc
proof (induction ls)
  case (Cons x ls)
  obtain level s where x: "x = (level, s)" by (cases x)
  show ?case
  proof (cases "vs_level0_in_progress vs \<and> level = 0 \<or> score_below_one s")
    case True
    then show ?thesis using Cons by (auto simp: x)
  next
    case False
    then have "level + 1 < n" using Cons.prems by (auto simp: x)
    then obtain r where "try_pick_files_to_compact (vs_current vs) level = Inr r"
      "\<forall>p. r = Some p \<longrightarrow> good_inputs (vs_current vs) level (fst p) (snd p)"
      using try_pick_result [OF v] by blast
    then show ?thesis using False Cons \<open>level + 1 < n\<close> by (cases r) (auto simp: x)
  qed
qed simp

lemma pick_compaction_result:
  "\<lbrakk>version_ok (num_levels opt) (vs_current vs); score_ok (num_levels opt) (vs_current vs)\<rbrakk> \<Longrightarrow>
   \<exists>r vs'. pick_compaction opt vs = Inr (r, vs') \<and> version_ok (num_levels opt) (vs_current vs') \<and>
     (r = None \<longrightarrow> vs' = vs) \<and>
     (\<forall>c. r = Some c \<longrightarrow> c_level c + 1 < num_levels opt \<and>
        good_inputs (vs_current vs) (c_level c) (fst (c_inputs c)) (snd (c_inputs c)) \<and>
        (c_level c = 0 \<longrightarrow> \<not> vs_level0_in_progress vs \<and> vs_level0_in_progress vs') \<and>
        v_files (vs_current vs') =
          map (\<lambda>level. mark_level (marks_of (mark_edit c) level) (v_files (vs_current vs) ! level)) [0..<num_levels opt])"
proof -
  assume v: "version_ok (num_levels opt) (vs_current vs)" and s: "score_ok (num_levels opt) (vs_current vs)"
  have "\<forall>p\<in>set (enumerate 0 (v_score (vs_current vs))).
      fst p < num_levels opt \<and> (fst p + 1 = num_levels opt \<longrightarrow> score_below_one (snd p))"
  proof
    fix p assume "p \<in> set (enumerate 0 (v_score (vs_current vs)))"
    then have p: "fst p < num_levels opt" "snd p = v_score (vs_current vs) ! fst p"
      using s by (auto simp: score_ok_def in_set_enumerate_eq)
    moreover have "fst p + 1 = num_levels opt \<Longrightarrow> fst p = num_levels opt - 1" by simp
    ultimately show "fst p < num_levels opt \<and> (fst p + 1 = num_levels opt \<longrightarrow> score_below_one (snd p))"
      using s by (auto simp: score_ok_def)
  qed
  from pick_level_result [OF v this] obtain r where
    r: "pick_level vs (enumerate 0 (v_score (vs_current vs))) = Inr r"
    "\<forall>level p. r = Some (level, p) \<longrightarrow> level + 1 < num_levels opt \<and>
       good_inputs (vs_current vs) level (fst p) (snd p) \<and> (level = 0 \<longrightarrow> \<not> vs_level0_in_progress vs)"
    by blast
  show ?thesis
  proof (cases r)
    case None
    then show ?thesis using r(1) v by (simp add: pick_compaction_def)
  next
    case (Some lp)
    obtain level p where lp: "lp = (level, p)" by (cases lp)
    define c where "c = compaction_new level p"
    have c: "c_level c = level" "c_inputs c = p" by (simp_all add: c_def compaction_new_def)
    have g: "level + 1 < num_levels opt" "good_inputs (vs_current vs) level (fst p) (snd p)"
      and z: "level = 0 \<Longrightarrow> \<not> vs_level0_in_progress vs"
      using r(2) [rule_format, of level p] Some lp by auto
    obtain v' where v': "edit_version opt (mark_edit c) (vs_current vs) = Inr v'" "version_ok (num_levels opt) v'"
      "v_files v' = map (\<lambda>level. mark_level (marks_of (mark_edit c) level) (v_files (vs_current vs) ! level)) [0..<num_levels opt]"
      using mark_edit_result [OF v, of c] g(1) c by auto
    have "pick_compaction opt vs =
        Inr (Some c, (if level = 0 then vs\<lparr>vs_level0_in_progress := True\<rparr> else vs)\<lparr>vs_current := v'\<rparr>)"
      using r(1) Some lp v'(1) [unfolded mark_edit_def] c
      by (cases "level = 0") (simp_all add: pick_compaction_def register_compaction_def compaction_new_def c_def Let_def)
    then show ?thesis using v'(2,3) g c z by auto
  qed
qed

text \<open>
  C21: picking a compaction returns. On a version whose levels are in order neither the loop that
  expands the input files nor any index or \<open>unwrap\<close> fails. The files picked are not in another
  compaction, no other file of the output level has a key in their range, files picked on level 0 are
  the oldest of that level, and the new version has them marked.
\<close>
theorem pick_compaction_returns:
  "\<lbrakk>version_ok (num_levels opt) (vs_current vs); score_ok (num_levels opt) (vs_current vs)\<rbrakk> \<Longrightarrow>
   \<exists>r vs'. pick_compaction opt vs = Inr (r, vs') \<and> version_ok (num_levels opt) (vs_current vs') \<and>
     (r = None \<longrightarrow> vs' = vs) \<and>
     (\<forall>c. r = Some c \<longrightarrow> c_level c + 1 < num_levels opt \<and>
        good_inputs (vs_current vs) (c_level c) (fst (c_inputs c)) (snd (c_inputs c)) \<and>
        (c_level c = 0 \<longrightarrow> \<not> vs_level0_in_progress vs \<and> vs_level0_in_progress vs') \<and>
        v_files (vs_current vs') =
          map (\<lambda>level. mark_level (marks_of (mark_edit c) level) (v_files (vs_current vs) ! level)) [0..<num_levels opt])"
  by (rule pick_compaction_result)

text \<open>A version of three levels: three files on level 0 and two on level 1, as in the code's tests.\<close>

definition demo_file :: "nat \<Rightarrow> u64 \<Rightarrow> nat \<Rightarrow> nat \<Rightarrow> nat table_file_meta" where
  "demo_file n t lo hi = table_file_meta_new (TableFileRef 0 n) 100 (Timestamp t) lo hi"

definition demo_version :: "nat version" where
  "demo_version =
     \<lparr>v_files = [[demo_file 3 30 50 60, demo_file 2 26 20 40, demo_file 1 22 10 30],
                 [demo_file 4 0 10 55, demo_file 5 0 70 80], []],
      v_score = [(2, 1), (0, 1), (0, 1)]\<rparr>"

definition demo_options :: db_options where
  "demo_options = default_db_options\<lparr>num_levels := 3\<rparr>"

definition demo_edit :: "nat version_edit" where
  "demo_edit = delete_file 0 (demo_file 1 22 10 30) (add_file 1 (demo_file 6 0 60 65) version_edit_new)"

lemma demo_file_simps [simp]:
  "file_ref (demo_file n t lo hi) = TableFileRef 0 n" "file_min_xip (demo_file n t lo hi) = Timestamp t"
  "infimum (demo_file n t lo hi) = lo" "supremum (demo_file n t lo hi) = hi" "\<not> being_compacted (demo_file n t lo hi)"
  by (simp_all add: demo_file_def table_file_meta_new_def)

lemma less3: "(\<forall>level<3. P level) \<longleftrightarrow> P 0 \<and> P 1 \<and> P (2 :: nat)"
  by (auto simp: numeral_3_eq_3 numeral_2_eq_2 less_Suc_eq)

lemma demo_num_levels [simp]: "num_levels demo_options = 3"
  by (simp add: demo_options_def default_db_options_def)

lemma demo_version_ok: "version_ok 3 demo_version" "score_ok 3 demo_version"
  by (simp_all add: version_ok_def demo_version_def less3 level_ok_def file_ok_def before_file_def ts_small_def
      ts_limit_def score_ok_def score_below_one_def)

theorem edit_keeps_version_ok_witness:
  "\<exists>v'. edit_version demo_options demo_edit demo_version = Inr v' \<and> version_ok 3 v' \<and>
     mset (v_files v' ! 1) = {#demo_file 4 0 10 55, demo_file 5 0 70 80, demo_file 6 0 60 65#}"
proof -
  have fit: "edit_fits (num_levels demo_options) demo_edit demo_version"
    by (auto simp: edit_fits_def less3 demo_edit_def delete_file_def add_file_def version_edit_new_def
        added_files_def kept_files_def demo_version_def file_ok_def before_file_def)
  have m: "kept_files demo_edit demo_version 1 = [demo_file 6 0 60 65, demo_file 4 0 10 55, demo_file 5 0 70 80]"
    "marks_of demo_edit 1 = {}"
    by (simp_all add: demo_edit_def delete_file_def add_file_def version_edit_new_def added_files_def
        kept_files_def demo_version_def marks_of_def)
  have "mark_file {} = (\<lambda>f :: nat table_file_meta. f)" by (simp add: fun_eq_iff mark_file_def)
  then show ?thesis
    using edit_keeps_version_ok [of demo_options demo_version demo_edit] fit demo_version_ok m
    by (auto simp: less3 add_mset_commute)
qed

lemma demo_levels [simp]:
  "v_files demo_version = [[demo_file 3 30 50 60, demo_file 2 26 20 40, demo_file 1 22 10 30],
     [demo_file 4 0 10 55, demo_file 5 0 70 80], []]"
  by (simp add: demo_version_def)

lemma demo_ts [simp]: "ts_cmp (Timestamp a) (Timestamp b) = lin_cmp a b" "ts_le (Timestamp a) (Timestamp b) \<longleftrightarrow> a \<le> b"
  if "a < 100" "b < 100"
proof -
  have "(100 :: u64) < ts_limit" by (simp add: ts_limit_def)
  then have "ts_small (Timestamp a)" "ts_small (Timestamp b)" using that by (auto simp: ts_small_def)
  then show "ts_cmp (Timestamp a) (Timestamp b) = lin_cmp a b" "ts_le (Timestamp a) (Timestamp b) \<longleftrightarrow> a \<le> b"
    by (simp_all add: ts_cmp_small ts_le_small)
qed

lemma demo_overlap [simp]: "file_overlaps (demo_file n t lo hi) a b \<longleftrightarrow> a \<le> hi \<and> lo \<le> b"
  by (simp add: file_overlaps_def)

lemma demo_expand0:
  "expand_inputs demo_version 0 [demo_file 1 22 10 30] = Inr (Some [demo_file 2 26 20 40, demo_file 1 22 10 30])"
  by (simp add: expand_inputs_def expand_loop.simps get_range_def get_overlapping_inputs_def
      level0_inputs_takeWhile lin_cmp_def)

lemma demo_try0:
  "try_inputs demo_version 0 [demo_file 2 26 20 40, demo_file 1 22 10 30] =
     Inr (Some ([demo_file 2 26 20 40, demo_file 1 22 10 30], [demo_file 4 0 10 55]))"
  by (simp add: try_inputs_def expand_inputs_def expand_loop.simps get_range_def get_overlapping_inputs_def)

theorem pick_compaction_returns_witness:
  "\<exists>c vs'. pick_compaction demo_options ((version_set_new demo_options)\<lparr>vs_current := demo_version\<rparr>) = Inr (Some c, vs') \<and>
     fst (c_inputs c) = [demo_file 2 26 20 40, demo_file 1 22 10 30] \<and> snd (c_inputs c) = [demo_file 4 0 10 55] \<and>
     version_ok 3 (vs_current vs')"
proof -
  let ?vs = "(version_set_new demo_options)\<lparr>vs_current := demo_version\<rparr>"
  obtain r vs' where r: "pick_compaction demo_options ?vs = Inr (r, vs')" "version_ok 3 (vs_current vs')"
    using pick_compaction_returns [of demo_options ?vs] demo_version_ok by auto
  have "v_score demo_version = [(2, 1), (0, 1), (0, 1)]" by (simp add: demo_version_def)
  then have "pick_level ?vs (enumerate 0 (v_score demo_version)) =
      Inr (Some (0, [demo_file 2 26 20 40, demo_file 1 22 10 30], [demo_file 4 0 10 55]))"
    using demo_expand0 demo_try0
    by (simp add: version_set_new_def score_below_one_def try_pick_files_to_compact_def sort_by_def lin_cmp_def Let_def)
  then show ?thesis using r by (auto simp: pick_compaction_def res_bind_eq_Inr Let_def compaction_new_def)
qed

end
