(* ===== verification/Recovery.thy ===== *)
theory Recovery
  imports Wal_Crash Checkpoint Version
begin

text \<open>
  How versions get to disk and back: \<open>log_and_apply\<close> and \<open>finalize_compaction\<close> of \<open>version.rs\<close> write a
  checkpoint record to the log and its position to the manifest; \<open>startup\<close> of \<open>db.rs\<close> reads them. The
  main result is that a database that is opened again after a crash has the version installed last, whatever was
  logged after it.
\<close>

section \<open>Installing a version\<close>

text \<open>
  The checkpoint record of a version set. It is logged under the default timestamp; the lock of the
  checkpoint manager is taken for the write of the manifest only.
\<close>

definition log_and_apply ::
  "wire \<Rightarrow> 'k log_codec \<Rightarrow> manifest_codec \<Rightarrow> db_options \<Rightarrow> nat \<Rightarrow> 'k::linorder version_edit \<Rightarrow> log_pointer
    \<Rightarrow> 'k version_set \<times> wal \<times> checkpoint_manager \<Rightarrow> ('k version_set \<times> wal \<times> checkpoint_manager) res" where
  "log_and_apply w lc mc opt now e min_recovery_point = (\<lambda>(vs, wal, cm).
     let new_min_xip = (case ve_min_xip e of Some x \<Rightarrow> x | None \<Rightarrow> vs_min_xip vs)
     in if ts_lt new_min_xip (vs_min_xip vs)
        then Inl (Panic ''assertion failed: new_min_xip >= self.min_xip'')
        else res_bind (edit_version opt e (vs_current vs)) (\<lambda>new_version.
             let checkpoint_log = create_checkpoint_log new_min_xip min_recovery_point (vs_next_file_num vs)
                   (v_files new_version)
             in res_bind (wal_append_record w lc ts_default checkpoint_log wal)
                  (\<lambda>((checkpoint_pos, checkpoint_lsn), wal1).
                let wal2 = wal_flush (Some checkpoint_lsn) wal1
                in res_bind (create_checkpoint w mc now new_min_xip checkpoint_pos cm) (\<lambda>cm1.
                     Inr (vs\<lparr>vs_current := new_version, vs_min_xip := new_min_xip,
                             vs_min_recovery_point := min_recovery_point\<rparr>, wal2, cm1)))))"

definition finalize_compaction ::
  "wire \<Rightarrow> 'k log_codec \<Rightarrow> manifest_codec \<Rightarrow> db_options \<Rightarrow> nat \<Rightarrow> 'k::linorder compaction
    \<Rightarrow> 'k version_set \<times> wal \<times> checkpoint_manager \<Rightarrow> ('k version_set \<times> wal \<times> checkpoint_manager) res" where
  "finalize_compaction w lc mc opt now c = (\<lambda>(vs, wal, cm).
     let vs1 = (if c_level c = 0 then vs\<lparr>vs_level0_in_progress := False\<rparr> else vs)
     in log_and_apply w lc mc opt now (c_edit c) (vs_min_recovery_point vs1) (vs1, wal, cm))"

section \<open>Startup\<close>

text \<open>
  \<open>clock\<close> gives the time of every write of the manifest. The replay of the log is commented out
  in the code.
\<close>

definition startup ::
  "wire \<Rightarrow> 'k log_codec \<Rightarrow> manifest_codec \<Rightarrow> db_options \<Rightarrow> (nat \<Rightarrow> nat)
    \<Rightarrow> 'k version_set \<times> wal \<times> checkpoint_manager \<Rightarrow> ('k version_set \<times> wal \<times> checkpoint_manager) res" where
  "startup w lc mc opt clock = (\<lambda>(vs, wal, cm).
     res_bind (ckpt_read_manifest w mc (clock 0) cm) (\<lambda>cm1.
     res_bind (read_checkpoint_record w lc (mf_last_checkpoint_pos (manifest_rec cm1)) wal) (\<lambda>checkpoint_log.
       let (vs1, min_recovery_point) =
             (case checkpoint_log of
                Some ck \<Rightarrow> (recover_version_set opt ck vs, ckpt_min_recovery_point ck)
              | None \<Rightarrow> (vs, 0));
           current = wal_current_lsn wal
       in if current < min_recovery_point
          then Inl (Err (DataCorrupted ''invalid redo point in checkpoint record''))
          else let need_recovery = (min_recovery_point < current \<or> mf_db_state (manifest_rec cm1) \<noteq> Shutdowned)
               in res_bind (if need_recovery then set_db_state w mc (clock 1) InCrashRecovery cm1 else Inr cm1) (\<lambda>cm2.
                  res_bind (set_db_state w mc (clock 2) InProduction cm2) (\<lambda>cm3.
                    Inr (vs1, wal, cm3))))))"

section \<open>What is written\<close>

text \<open>The checkpoint record that describes a version set, and the version set a record describes.\<close>

definition checkpoint_of :: "'k version_set \<Rightarrow> 'k checkpoint_log" where
  "checkpoint_of vs = \<lparr>ckpt_min_xip = vs_min_xip vs, ckpt_min_recovery_point = vs_min_recovery_point vs,
     ckpt_next_file_num = vs_next_file_num vs, ckpt_file_set = v_files (vs_current vs)\<rparr>"

lemma recover_checkpoint_of:
  "checkpoint_of (recover_version_set opt ck vs) = ck"
  by (simp add: checkpoint_of_def recover_version_set_def calculate_compaction_score_def)

lemma log_and_apply_parts:
  assumes "log_and_apply w lc mc opt now e mrp (vs, wal, cm) = Inr (vs', wal', cm')"
  obtains a b wal1 where "wal_append w (ser_full lc ts_default (WalCheckpoint (checkpoint_of vs'))) wal = Inr ((a, b), wal1)"
    "wal' = wal_flush (Some b) wal1" "create_checkpoint w mc now (vs_min_xip vs') a cm = Inr cm'"
    "vs_min_recovery_point vs' = mrp" "edit_version opt e (vs_current vs) = Inr (vs_current vs')"
    "\<not> ts_lt (vs_min_xip vs') (vs_min_xip vs)" "vs_next_file_num vs' = vs_next_file_num vs"
    "vs_level0_in_progress vs' = vs_level0_in_progress vs"
proof -
  obtain v a b wal1 where *: "edit_version opt e (vs_current vs) = Inr v"
    "wal_append_record w lc ts_default (create_checkpoint_log (vs_min_xip vs') mrp (vs_next_file_num vs) (v_files v)) wal
       = Inr ((a, b), wal1)" "create_checkpoint w mc now (vs_min_xip vs') a cm = Inr cm'"
    "wal' = wal_flush (Some b) wal1" "\<not> ts_lt (vs_min_xip vs') (vs_min_xip vs)"
    "vs' = vs\<lparr>vs_current := v, vs_min_xip := vs_min_xip vs', vs_min_recovery_point := mrp\<rparr>"
    using assms by (auto simp: log_and_apply_def Let_def res_bind_eq_Inr split: if_splits)
  have "checkpoint_of vs' = \<lparr>ckpt_min_xip = vs_min_xip vs', ckpt_min_recovery_point = mrp,
      ckpt_next_file_num = vs_next_file_num vs, ckpt_file_set = v_files v\<rparr>"
    by (subst *(6)) (simp add: checkpoint_of_def)
  moreover have "vs_current vs' = v \<and> vs_min_recovery_point vs' = mrp \<and> vs_next_file_num vs' = vs_next_file_num vs \<and>
      vs_level0_in_progress vs' = vs_level0_in_progress vs"
    by (subst *(6), subst (2) *(6), subst (3) *(6), subst (4) *(6)) simp
  ultimately show ?thesis
    using that [of a b wal1] * by (simp add: wal_append_record_def get_full_record_def create_checkpoint_log_def)
qed

text \<open>
  The minimum of the running transactions must not go back. After a restart it does: the version set has the minimum
  it was saved with, but the transaction manager starts its timestamps anew.
\<close>

lemma log_and_apply_older:
  "\<lbrakk>ve_min_xip e = Some x; ts_lt x (vs_min_xip vs)\<rbrakk> \<Longrightarrow> log_and_apply w lc mc opt now e mrp (vs, wal, cm) =
     Inl (Panic ''assertion failed: new_min_xip >= self.min_xip'')"
  by (simp add: log_and_apply_def)

lemma calculate_score_files:
  "v_files u = v_files v \<Longrightarrow> calculate_compaction_score opt u = calculate_compaction_score opt v"
  by (simp add: calculate_compaction_score_def level_score_def)

lemma recovered_version:
  assumes "edit_version opt e v0 = Inr (vs_current vs)"
  shows "vs_current (recover_version_set opt (checkpoint_of vs) vs0) = vs_current vs"
proof -
  obtain v where c: "calculate_compaction_score opt v = vs_current vs"
    using assms by (auto simp: edit_version_def res_bind_eq_Inr)
  have "v_files v = v_files (vs_current vs)" by (simp add: calculate_compaction_score_def flip: c)
  then have "calculate_compaction_score opt ((version_new (num_levels opt))\<lparr>v_files := v_files (vs_current vs)\<rparr>) =
      calculate_compaction_score opt v"
    by (intro calculate_score_files) simp
  then show ?thesis
    using c by (simp add: recover_version_set_def checkpoint_of_def)
qed

text \<open>The record of a version set has an encoding and is decoded from it.\<close>

definition record_decodes :: "'k log_codec \<Rightarrow> 'k checkpoint_log \<Rightarrow> bool" where
  "record_decodes lc ck \<longleftrightarrow> (let r = ser_full lc ts_default (WalCheckpoint ck)
     in r \<noteq> [] \<and> de_full lc r = Some (ts_default, WalCheckpoint ck))"

context manifest_format begin

lemma startup_reads:
  assumes cm: "in_step cm" and clock: "\<forall>i. clock i < 2 ^ 64"
    and rd: "read_checkpoint_record w lc (mf_last_checkpoint_pos (manifest_rec cm)) wal = Inr (Some ck)"
    and lsn: "ckpt_min_recovery_point ck \<le> wal_current_lsn wal"
  shows "\<exists>cm'. startup w lc mc opt clock (vs, wal, cm) = Inr (recover_version_set opt ck vs, wal, cm') \<and> in_step cm' \<and>
    mf_db_state (manifest_rec cm') = InProduction \<and>
    mf_last_checkpoint_pos (manifest_rec cm') = mf_last_checkpoint_pos (manifest_rec cm)"
proof -
  have r: "ckpt_read_manifest w mc (clock 0) cm = Inr cm"
    using cm read_holds by (simp add: ckpt_read_manifest_def in_step_def)
  define need where "need \<longleftrightarrow> ckpt_min_recovery_point ck < wal_current_lsn wal \<or> mf_db_state (manifest_rec cm) \<noteq> Shutdowned"
  obtain cm1 where c1: "(if need then set_db_state w mc (clock 1) InCrashRecovery cm else Inr cm) = Inr cm1" "in_step cm1"
    "mf_last_checkpoint_pos (manifest_rec cm1) = mf_last_checkpoint_pos (manifest_rec cm)"
    using set_state_in_step [OF cm, of "clock 1" InCrashRecovery] clock cm by (cases need) auto
  obtain cm2 where c2: "set_db_state w mc (clock 2) InProduction cm1 = Inr cm2" "in_step cm2"
    "manifest_rec cm2 = (manifest_rec cm1)\<lparr>mf_db_state := InProduction, mf_time := clock 2\<rparr>"
    using set_state_in_step [OF c1(2), of "clock 2" InProduction] clock by blast
  have "startup w lc mc opt clock (vs, wal, cm) = Inr (recover_version_set opt ck vs, wal, cm2)"
    using r rd lsn c1(1) c2(1) by (simp add: startup_def Let_def need_def split del: if_split)
  then show ?thesis using c1(3) c2(2,3) by simp
qed

end

section \<open>Properties\<close>

text \<open>
  C6: a version that was installed survives a crash. Take any history of the log and of the manifest, an edit
  that \<open>log_and_apply\<close> installed, and anything logged after it; let the process stop, leaving of the
  open log file at least what was synced and after it anything. Then the log and the manifest open again, startup
  succeeds, and the version set it makes has the files, the compaction scores, the next file number and the minima
  of the version set before the crash. (The position of the checkpoint must not be 0, which the code
  takes for no checkpoint, nor the last byte of a page; no log file may be larger than a segment.)
\<close>
theorem restart_recovers_version:
  "\<lbrakk>wire_ok w; manifest_codec_ok mc len; SEGMENT_PAGE_SIZE dvd segment_capacity options; wal_sync_method options \<noteq> NoSync;
    wal_open Missing options = Inr wal0; wal_run w ops wal0 = Inr (log, wal);
    ckpt_open w mc now NoManifest = Inr cm0; ckpt_run w mc cops cm0 = Inr cm; \<forall>op\<in>set cops. ckpt_op_fits op;
    log_and_apply w lc mc opt now' e mrp (vs, wal, cm) = Inr (vs', wal', cm');
    pos = mf_last_checkpoint_pos (manifest_rec cm'); 0 < pos; pos < 2 ^ 64; mrp \<le> pos;
    pos mod SEGMENT_PAGE_SIZE \<noteq> SEGMENT_PAGE_SIZE - 1; record_decodes lc (checkpoint_of vs');
    wal_run w ops' wal' = Inr (log', wal2); segno (open_segment wal2) < 2 ^ 32;
    mset dir = mset (crash_dir wal2 content); survives (open_segment wal2) content; dir_fits (segment_capacity options) dir;
    now < 2 ^ 64; now' < 2 ^ 64; \<forall>i. clock i < 2 ^ 64\<rbrakk> \<Longrightarrow>
   \<exists>wal3 cm3 vs3 cm4. wal_open (Directory dir) options = Inr wal3 \<and>
     ckpt_open w mc now'' (manifest_file cm') = Inr cm3 \<and>
     startup w lc mc opt clock (version_set_new opt, wal3, cm3) = Inr (vs3, wal3, cm4) \<and>
     checkpoint_of vs3 = checkpoint_of vs' \<and> vs_current vs3 = vs_current vs' \<and>
     mf_db_state (manifest_rec cm4) = InProduction \<and> mf_last_checkpoint_pos (manifest_rec cm4) = pos"
proof -
  assume w: "wire_ok w" and mc: "manifest_codec_ok mc len" and cap: "SEGMENT_PAGE_SIZE dvd segment_capacity options"
    and sync: "wal_sync_method options \<noteq> NoSync" and start: "wal_open Missing options = Inr wal0"
    and run: "wal_run w ops wal0 = Inr (log, wal)" and cm0: "ckpt_open w mc now NoManifest = Inr cm0"
    and cm: "ckpt_run w mc cops cm0 = Inr cm" "\<forall>op\<in>set cops. ckpt_op_fits op"
    and la: "log_and_apply w lc mc opt now' e mrp (vs, wal, cm) = Inr (vs', wal', cm')"
    and pos: "pos = mf_last_checkpoint_pos (manifest_rec cm')" "0 < pos" "pos < 2 ^ 64" "mrp \<le> pos"
      "pos mod SEGMENT_PAGE_SIZE \<noteq> SEGMENT_PAGE_SIZE - 1"
    and codec: "record_decodes lc (checkpoint_of vs')" and later: "wal_run w ops' wal' = Inr (log', wal2)"
    and no: "segno (open_segment wal2) < 2 ^ 32"
    and dir: "mset dir = mset (crash_dir wal2 content)" "survives (open_segment wal2) content"
      "dir_fits (segment_capacity options) dir"
    and clock: "now < 2 ^ 64" "now' < 2 ^ 64" "\<forall>i. clock i < 2 ^ 64"
  have mf: "manifest_format w mc len" and wf: "wire_format w" using w mc by (simp_all add: manifest_format_iff wire_format_iff)
  define r where "r = ser_full lc ts_default (WalCheckpoint (checkpoint_of vs'))"
  have r: "r \<noteq> []" "de_full lc r = Some (ts_default, WalCheckpoint (checkpoint_of vs'))"
    using codec by (simp_all add: record_decodes_def r_def Let_def)
  obtain a b wal1 where p: "wal_append w r wal = Inr ((a, b), wal1)" "wal' = wal_flush (Some b) wal1"
    "create_checkpoint w mc now' (vs_min_xip vs') a cm = Inr cm'" "vs_min_recovery_point vs' = mrp"
    "edit_version opt e (vs_current vs) = Inr (vs_current vs')"
    by (rule log_and_apply_parts [OF la]) (simp add: r_def)
  have "manifest_format.in_step w mc cm0"
    using manifest_format.open_in_step [OF mf, of NoManifest undefined now] clock(1) cm0 by auto
  then have st: "manifest_format.in_step w mc cm"
    using manifest_format.run_in_step [OF mf _ cm(2), of cm0] cm(1) by auto
  have a: "a = pos" using p(3) pos(1) by (auto simp: create_checkpoint_def res_bind_eq_Inr Let_def)
  then have st': "manifest_format.in_step w mc cm'"
    using manifest_format.create_in_step [OF mf st clock(2), of a "vs_min_xip vs'"] pos(3) p(3) by auto
  obtain wal3 rd where w3: "wal_open (Directory dir) options = Inr wal3" "wal_get_reader pos wal3 = Inr rd"
    "reader_read_record w rd pos = Inr (Some (b, r))" "pos \<le> wal_current_lsn wal3"
    using wire_format.flushed_record_after_restart [OF wf start run p(1) r(1) cap _ sync later [unfolded p(2)] no dir] pos(5)
    by (auto simp: a)
  have "read_checkpoint_record w lc (mf_last_checkpoint_pos (manifest_rec cm')) wal3 = Inr (Some (checkpoint_of vs'))"
    using w3(2,3) r(2) pos(2) by (simp add: read_checkpoint_record_def is_invalid_lsn_def flip: pos(1))
  moreover have "ckpt_min_recovery_point (checkpoint_of vs') \<le> wal_current_lsn wal3"
    using pos(4) w3(4) p(4) by (simp add: checkpoint_of_def)
  ultimately obtain cm4 where "startup w lc mc opt clock (version_set_new opt, wal3, cm') =
      Inr (recover_version_set opt (checkpoint_of vs') (version_set_new opt), wal3, cm4)"
    "mf_db_state (manifest_rec cm4) = InProduction" "mf_last_checkpoint_pos (manifest_rec cm4) = pos"
    using manifest_format.startup_reads [OF mf st' clock(3)] pos(1) by metis
  then show ?thesis
    using w3(1) manifest_format.reopen_in_step [OF mf st'] recover_checkpoint_of recovered_version [OF p(5)] by metis
qed

text \<open>A checkpoint as the second record of the log.\<close>

definition demo_edit_xip :: "nat version_edit" where
  "demo_edit_xip = set_min_xip (ts_new Commit 5) version_edit_new"

definition demo_installed :: "nat version_set" where
  "demo_installed = (version_set_new default_db_options)\<lparr>
     vs_current := calculate_compaction_score default_db_options (version_new 6),
     vs_min_xip := ts_new Commit 5, vs_min_recovery_point := 9\<rparr>"

definition demo_ckpt_codec :: "nat log_codec" where
  "demo_ckpt_codec = \<lparr>ser_full = (\<lambda>xid rec. [9]),
     de_full = (\<lambda>bs. Some (ts_default, WalCheckpoint (checkpoint_of demo_installed)))\<rparr>"

lemma edit_new_version:
  assumes "num_levels opt = n" "ve_add_files e = []" "ve_mark_compacted e = []"
  shows "edit_version opt e (version_new n) = Inr (calculate_compaction_score opt (version_new n))"
proof -
  have "merge_level b [] level = []" if "vb_added b ! level = []" for b :: "'a version_builder" and level
    using that by (simp add: merge_level_def sort_by_def)
  then have "map (\<lambda>level. mark_level (vb_mark_compacted b ! level) (merge_level b (replicate n [] ! level) level)) [0..<n] =
      replicate n []" if "vb_added b = replicate n []" for b :: "'a version_builder"
    using that by (intro nth_equalityI) (simp_all add: mark_level_def)
  from this [of "\<lparr>vb_added = replicate n [], vb_deleted = ve_deleted e, vb_mark_compacted = replicate n {}\<rparr>"]
  show ?thesis
    using assms by (simp add: edit_version_def builder_apply_def version_builder_new_def save_to_def version_new_def)
qed

lemma demo_install:
  assumes "wal_append std_wire [9] wal1 = Inr ((9, 17), wal2)" "create_checkpoint std_wire mc 6 (ts_new Commit 5) 9 cm0 = Inr cm'"
  shows "log_and_apply std_wire demo_ckpt_codec mc default_db_options 6 demo_edit_xip 9
    (version_set_new default_db_options, wal1, cm0) = Inr (demo_installed, wal_flush (Some 17) wal2, cm')"
proof -
  have nv: "edit_version default_db_options demo_edit_xip (version_new 6) =
      Inr (calculate_compaction_score default_db_options (version_new 6))"
    by (rule edit_new_version) (simp_all add: default_db_options_def demo_edit_xip_def set_min_xip_def version_edit_new_def)
  have "\<not> ts_lt (ts_new Commit 5) (Timestamp 0)"
    by code_simp
  then show ?thesis
    using nv assms by (simp add: log_and_apply_def version_set_new_def demo_edit_xip_def set_min_xip_def Let_def
        wal_append_record_def get_full_record_def demo_ckpt_codec_def demo_installed_def default_db_options_def)
qed

theorem restart_recovers_version_witness:
  "\<exists>wal0 wal1 cm0 wal' cm' wal3 vs3 cm4. wal_open Missing wal_options_default = Inr wal0 \<and>
     wal_append std_wire [7, 8] wal0 = Inr ((0, 9), wal1) \<and> ckpt_open std_wire std_manifest_codec 5 NoManifest = Inr cm0 \<and>
     log_and_apply std_wire demo_ckpt_codec std_manifest_codec default_db_options 6 demo_edit_xip 9
       (version_set_new default_db_options, wal1, cm0) = Inr (demo_installed, wal', cm') \<and>
     wal_open (Directory (wal_dir wal')) wal_options_default = Inr wal3 \<and>
     startup std_wire demo_ckpt_codec std_manifest_codec default_db_options (\<lambda>_. 7)
       (version_set_new default_db_options, wal3, cm') = Inr (vs3, wal3, cm4) \<and>
     vs_min_xip vs3 = ts_new Commit 5 \<and> mf_last_checkpoint_pos (manifest_rec cm4) = 9"
proof -
  let ?opt = default_db_options and ?w = std_wire and ?mc = std_manifest_codec and ?lc = demo_ckpt_codec
  have page: "9 < SEGMENT_PAGE_SIZE - 1" "17 + 7 < SEGMENT_PAGE_SIZE" using page_size_large(2) by simp_all
  have cap: "SEGMENT_PAGE_SIZE dvd segment_capacity wal_options_default" "17 \<le> segment_capacity wal_options_default"
    "wal_sync_method wal_options_default \<noteq> NoSync"
    by (simp_all add: wal_options_default_def SEGMENT_PAGE_SIZE_def)
  obtain wal0 wal1 wal2 where w: "wal_open Missing wal_options_default = Inr wal0"
    "wal_append ?w [7, 8] wal0 = Inr ((0, 9), wal1)" "wal_append ?w [9] wal1 = Inr ((9, 17), wal2)"
    "segno (open_segment wal2) = 1" "seg_wf (open_segment wal2)" "length (stream (open_segment wal2)) = 17"
    "segno (open_segment wal1) = 1"
    by (rule two_records)
  obtain cm0 where cm0: "ckpt_open ?w ?mc 5 NoManifest = Inr cm0" "std_manifest.in_step cm0"
    using std_manifest.open_in_step [of NoManifest undefined 5] by auto
  obtain cm' where cm': "create_checkpoint ?w ?mc 6 (ts_new Commit 5) 9 cm0 = Inr cm'" "std_manifest.in_step cm'"
    "mf_last_checkpoint_pos (manifest_rec cm') = 9"
    using std_manifest.create_in_step [OF cm0(2), of 6 9 "ts_new Commit 5"] by auto
  define wal' where "wal' = wal_flush (Some 17) wal2"
  have la: "log_and_apply ?w ?lc ?mc ?opt 6 demo_edit_xip 9 (version_set_new ?opt, wal1, cm0) = Inr (demo_installed, wal', cm')"
    unfolding wal'_def by (rule demo_install [OF w(3) cm'(1)])
  have run: "wal_run ?w [OpAppend [7, 8]] wal0 = Inr ([([7, 8], 0, 9)], wal1)" using w(2) by simp
  have "listed [seg_file (open_segment wal')] wal'"
    unfolding wal'_def by (rule two_listed [OF w(1-3,7,4)])
  then have dir: "wal_dir wal' = dir_of [seg_file (open_segment wal')]" by (rule listed_dir) simp
  have seg': "length (seg_file (open_segment wal')) \<le> segment_capacity wal_options_default"
    using two_flushed [OF w(5,6), of "Some 17"] cap(2) by (simp add: wal'_def)
  have a: "wal_run ?w [] wal' = Inr ([], wal')" "segno (open_segment wal') < 2 ^ 32"
    "mset (wal_dir wal') = mset (crash_dir wal' (seg_file (open_segment wal')))"
    "survives (open_segment wal') (seg_file (open_segment wal'))"
    using w(4) by (simp_all add: wal'_def crash_dir_def wal_dir_def survives_def take_is_prefix)
  have df: "dir_fits (segment_capacity wal_options_default) (wal_dir wal')"
    unfolding dir using seg' by (simp add: dir_fits_def dir_of_def)
  have b: "record_decodes ?lc (checkpoint_of demo_installed)"
    by (simp add: record_decodes_def demo_ckpt_codec_def)
  have c: "ckpt_run ?w ?mc [] cm0 = Inr cm0" "\<forall>op\<in>set []. ckpt_op_fits op" "9 = mf_last_checkpoint_pos (manifest_rec cm')"
    "(0 :: nat) < 9" "(9 :: nat) < 2 ^ 64" "(9 :: nat) \<le> 9" "9 mod SEGMENT_PAGE_SIZE \<noteq> SEGMENT_PAGE_SIZE - 1"
    "(5 :: nat) < 2 ^ 64" "(6 :: nat) < 2 ^ 64" "\<forall>i :: nat. (7 :: nat) < 2 ^ 64"
    using cm'(3) page by simp_all
  have "std_manifest.in_step cm' \<Longrightarrow> ckpt_open ?w ?mc 7 (manifest_file cm') = Inr cm'" by (rule std_manifest.reopen_in_step)
  then have "ckpt_open ?w ?mc 7 (manifest_file cm') = Inr cm'" using cm'(2) .
  with restart_recovers_version [OF std_wire_ok std_manifest_codec_ok cap(1,3) w(1) run cm0(1) c(1,2) la c(3-7) b a df c(8-10), of 7]
  obtain wal3 vs3 cm4 where "wal_open (Directory (wal_dir wal')) wal_options_default = Inr wal3"
    "startup ?w ?lc ?mc ?opt (\<lambda>_. 7) (version_set_new ?opt, wal3, cm') = Inr (vs3, wal3, cm4)"
    "checkpoint_of vs3 = checkpoint_of demo_installed" "mf_last_checkpoint_pos (manifest_rec cm4) = 9"
    by auto
  moreover have "vs_min_xip demo_installed = ts_new Commit 5" by (simp add: demo_installed_def)
  ultimately show ?thesis using w(1,2) cm0(1) la by (metis checkpoint_log.select_convs(1) checkpoint_of_def)
qed

end
