(* ===== verification/Data_Block.thy ===== *)
theory Data_Block
  imports Log_Record Ordered_Set
begin

text \<open>
  Data blocks, \<open>src/src/block/data_block.rs\<close>, and the index builder of \<open>block/index.rs\<close>. A block is
  a run of entries, each with the number of bytes its key shares with the key before it, followed by
  the offsets of the restart points (entries that share nothing) and their number.

  A slice whose range is not inside the block panics (\<open>get_slice\<close>). The comparison of keys is an
  argument. The loop of \<open>seek\<close> has the length of the block as fuel: every entry has at least one byte.
\<close>

section \<open>Builder\<close>

record data_block_builder =
  db_buffer :: bytes
  db_restarts :: "nat list"
  restart_interval :: nat
  db_last_key :: "bytes option"
  restart_counter :: nat

definition builder_new :: "nat \<Rightarrow> data_block_builder" where
  "builder_new interval =
     \<lparr>db_buffer = [], db_restarts = [0], restart_interval = interval, db_last_key = None,
      restart_counter = 0\<rparr>"

definition builder_empty :: "data_block_builder \<Rightarrow> bool" where
  "builder_empty b \<longleftrightarrow> length (db_buffer b) = 0"

definition full_len :: "data_block_builder \<Rightarrow> nat" where
  "full_len b = length (db_buffer b) + length (db_restarts b) * 4 + 4"

definition builder_reset :: "data_block_builder \<Rightarrow> data_block_builder" where
  "builder_reset b =
     b\<lparr>db_buffer := [], db_restarts := [0], restart_counter := 0, db_last_key := None\<rparr>"

text \<open>The loop that counts the bytes two keys share at their beginning.\<close>

fun shared_prefix :: "bytes \<Rightarrow> bytes \<Rightarrow> nat" where
  "shared_prefix (x # xs) (y # ys) = (if x = y then Suc (shared_prefix xs ys) else 0)"
| "shared_prefix _ _ = 0"

definition builder_add :: "wire \<Rightarrow> bytes \<Rightarrow> bytes \<Rightarrow> data_block_builder \<Rightarrow> data_block_builder" where
  "builder_add w key val b =
     (let (shared, b1) =
            (if restart_counter b < restart_interval b
             then ((case db_last_key b of Some lk \<Rightarrow> shared_prefix lk key | None \<Rightarrow> 0), b)
             else (0, b\<lparr>db_restarts := db_restarts b @ [length (db_buffer b)], db_last_key := None,
                        restart_counter := 0\<rparr>));
          non_shared = length key - shared
      in b1\<lparr>db_buffer := db_buffer b1 @ put_varint w shared @ put_varint w non_shared
                           @ put_varint w (length val) @ drop shared key @ val,
            db_last_key := Some (case db_last_key b1 of
                Some lk \<Rightarrow> take shared lk @ drop shared key
              | None \<Rightarrow> key),
            restart_counter := restart_counter b1 + 1\<rparr>)"

definition builder_seal :: "wire \<Rightarrow> data_block_builder \<Rightarrow> bytes \<times> data_block_builder" where
  "builder_seal w b =
     (db_buffer b @ concat (map (\<lambda>r. put_u32 w (of_nat r)) (db_restarts b))
        @ put_u32 w (of_nat (length (db_restarts b))),
      b\<lparr>db_buffer := [], db_restarts := []\<rparr>)"

text \<open>The index builder adds the encoding of an \<open>ItemPointer\<close> under a key.\<close>

definition add_item ::
  "wire \<Rightarrow> (item_pointer \<Rightarrow> bytes) \<Rightarrow> bytes \<Rightarrow> item_pointer \<Rightarrow> data_block_builder
    \<Rightarrow> data_block_builder" where
  "add_item w ser_ptr key_buf ptr b = builder_add w key_buf (ser_ptr ptr) b"

section \<open>Iterator\<close>

record data_block_iter =
  blk :: bytes
  it_offset :: nat
  it_value_offset :: nat
  restarts_offset :: nat
  restart_key :: bytes

definition get_slice :: "'a list \<Rightarrow> nat \<Rightarrow> nat \<Rightarrow> 'a list res" where
  "get_slice xs a b =
     (if a \<le> b \<and> b \<le> length xs then Inr (slice xs a b) else Inl (Panic ''range out of bounds''))"

definition num_restarts :: "wire \<Rightarrow> bytes \<Rightarrow> nat res" where
  "num_restarts w contents =
     (if length contents < 4 then Inl (Panic ''attempt to subtract with overflow'')
      else Inr (unat (get_u32 w (drop (length contents - 4) contents))))"

definition iter_new :: "wire \<Rightarrow> bytes \<Rightarrow> data_block_iter res" where
  "iter_new w contents =
     res_bind (num_restarts w contents) (\<lambda>n.
       if length contents < n * 4 + 4 then Inl (Panic ''attempt to subtract with overflow'')
       else Inr \<lparr>blk = contents, it_offset = 0, it_value_offset = 0,
              restarts_offset = length contents - n * 4 - 4, restart_key = []\<rparr>)"

definition get_restart_offset :: "wire \<Rightarrow> data_block_iter \<Rightarrow> nat \<Rightarrow> nat res" where
  "get_restart_offset w it index =
     (let restart = restarts_offset it + 4 * index
      in res_bind (get_slice (blk it) restart (restart + 4)) (\<lambda>bs. Inr (unat (get_u32 w bs))))"

definition next_entry ::
  "wire \<Rightarrow> data_block_iter \<Rightarrow> ((nat \<times> nat \<times> nat \<times> nat) \<times> data_block_iter) res" where
  "next_entry w it =
     (let c = blk it; off = it_offset it
      in res_bind (get_slice c off (length c)) (\<lambda>s1. let (shared, shared_len) = get_varint w s1
      in res_bind (get_slice c (off + shared_len) (length c)) (\<lambda>s2.
         let (non_shared, non_shared_len) = get_varint w s2
      in res_bind (get_slice c (off + (shared_len + non_shared_len)) (length c)) (\<lambda>s3.
         let (value_len, value_len_len) = get_varint w s3;
             header_len = shared_len + non_shared_len + value_len_len;
             value_offset = off + header_len + non_shared
         in Inr ((shared, non_shared, value_len, header_len),
              it\<lparr>it_value_offset := value_offset, it_offset := value_offset + value_len\<rparr>)))))"

definition assemble_key ::
  "nat \<Rightarrow> nat \<Rightarrow> nat \<Rightarrow> data_block_iter \<Rightarrow> data_block_iter res" where
  "assemble_key key_offset shared non_shared it =
     res_bind (get_slice (blk it) key_offset (key_offset + non_shared)) (\<lambda>bs.
       Inr (it\<lparr>restart_key := take shared (restart_key it) @ bs\<rparr>))"

definition iter_reset :: "data_block_iter \<Rightarrow> data_block_iter" where
  "iter_reset it = it\<lparr>it_offset := 0, it_value_offset := 0, restart_key := []\<rparr>"

definition seek_to_restart :: "wire \<Rightarrow> nat \<Rightarrow> data_block_iter \<Rightarrow> data_block_iter res" where
  "seek_to_restart w index it =
     res_bind (get_restart_offset w it index) (\<lambda>offset.
     res_bind (next_entry w (it\<lparr>it_offset := offset\<rparr>))
       (\<lambda>((shared, non_shared, value_len, header_len), it').
          assemble_key (offset + header_len) shared non_shared it'))"

definition iter_next ::
  "wire \<Rightarrow> data_block_iter \<Rightarrow> ((bytes \<times> bytes) option \<times> data_block_iter) res" where
  "iter_next w it =
     (if restarts_offset it \<le> it_offset it then Inr (None, iter_reset it)
      else let current_offset = it_offset it
           in res_bind (next_entry w it) (\<lambda>((shared, non_shared, value_len, header_len), it1).
              res_bind (assemble_key (current_offset + header_len) shared non_shared it1) (\<lambda>it2.
              res_bind (get_slice (blk it2) (it_value_offset it2) (it_value_offset it2 + value_len))
                (\<lambda>val. Inr (Some (restart_key it2, val), it2)))))"

function seek_search ::
  "wire \<Rightarrow> (bytes \<Rightarrow> bytes \<Rightarrow> ordering) \<Rightarrow> bytes \<Rightarrow> nat \<Rightarrow> nat \<Rightarrow> data_block_iter
    \<Rightarrow> (nat \<times> data_block_iter) res" where
  "seek_search w key_comp key low high it =
     (if low < high
      then let mid = (low + high + 1) div 2
           in res_bind (seek_to_restart w mid it) (\<lambda>it'.
                if key_comp (restart_key it') key \<noteq> Less
                then seek_search w key_comp key low (mid - 1) it'
                else seek_search w key_comp key mid high it')
      else Inr (low, it))"
  by pat_completeness auto
termination
  by (relation "measure (\<lambda>(w, kc, key, low, high, it). high - low)") auto

declare seek_search.simps [simp del]

fun seek_scan ::
  "nat \<Rightarrow> wire \<Rightarrow> (bytes \<Rightarrow> bytes \<Rightarrow> ordering) \<Rightarrow> bytes \<Rightarrow> data_block_iter
    \<Rightarrow> data_block_iter res" where
  "seek_scan 0 w key_comp key it = Inl Diverges"
| "seek_scan (Suc fuel) w key_comp key it =
     res_bind (iter_next w it) (\<lambda>(found, it').
       case found of
         None \<Rightarrow> Inr it'
       | Some (k, _) \<Rightarrow>
           if key_comp k key \<noteq> Less then Inr it' else seek_scan fuel w key_comp key it')"

definition iter_seek ::
  "wire \<Rightarrow> (bytes \<Rightarrow> bytes \<Rightarrow> ordering) \<Rightarrow> bytes \<Rightarrow> data_block_iter \<Rightarrow> data_block_iter res" where
  "iter_seek w key_comp key it =
     res_bind (num_restarts w (blk it)) (\<lambda>n.
     let it0 = iter_reset it; high = (if 0 < n then n - 1 else 0)
     in res_bind (seek_search w key_comp key 0 high it0) (\<lambda>(low, it1).
        res_bind (get_restart_offset w it1 low) (\<lambda>offset.
          seek_scan (Suc (length (blk it))) w key_comp key (it1\<lparr>it_offset := offset\<rparr>))))"

definition iter_valid :: "data_block_iter \<Rightarrow> bool" where
  "iter_valid it \<longleftrightarrow> restart_key it \<noteq> [] \<and> 0 < it_value_offset it \<and>
     it_value_offset it \<le> restarts_offset it"

definition iter_current :: "data_block_iter \<Rightarrow> (bytes \<times> bytes) option res" where
  "iter_current it =
     (if iter_valid it
      then res_bind (get_slice (blk it) (it_value_offset it) (it_offset it)) (\<lambda>val.
             Inr (Some (restart_key it, val)))
      else Inr None)"

section \<open>The layout of a block\<close>

text \<open>An entry is laid out with the number of shared bytes; \<open>shared_ok\<close> says that it is right.\<close>

type_synonym entry = "nat \<times> bytes \<times> bytes"

definition entry_bytes :: "wire \<Rightarrow> entry \<Rightarrow> bytes" where
  "entry_bytes w e = (case e of (sh, k, v) \<Rightarrow>
     put_varint w sh @ put_varint w (length k - sh) @ put_varint w (length v) @ drop sh k @ v)"

definition entries_bytes :: "wire \<Rightarrow> entry list \<Rightarrow> bytes" where
  "entries_bytes w es = concat (map (entry_bytes w) es)"

lemma entries_bytes_simps [simp]:
  "entries_bytes w [] = []" "entries_bytes w (e # es) = entry_bytes w e @ entries_bytes w es"
  "entries_bytes w (es @ fs) = entries_bytes w es @ entries_bytes w fs"
  by (simp_all add: entries_bytes_def)

fun shared_ok :: "bytes \<Rightarrow> entry list \<Rightarrow> bool" where
  "shared_ok prev [] \<longleftrightarrow> True"
| "shared_ok prev ((sh, k, v) # es) \<longleftrightarrow>
     sh \<le> length prev \<and> sh \<le> length k \<and> take sh prev = take sh k \<and> shared_ok k es"

definition entry_key :: "entry \<Rightarrow> bytes" where
  "entry_key e = fst (snd e)"

definition entry_val :: "entry \<Rightarrow> bytes" where
  "entry_val e = snd (snd e)"

definition entry_pair :: "entry \<Rightarrow> bytes \<times> bytes" where
  "entry_pair e = snd e"

fun last_key_of :: "bytes \<Rightarrow> entry list \<Rightarrow> bytes" where
  "last_key_of prev [] = prev"
| "last_key_of prev (e # es) = last_key_of (entry_key e) es"

lemma last_key_of_snoc [simp]: "last_key_of prev (es @ [e]) = entry_key e"
  by (induction es arbitrary: prev) simp_all

lemma shared_ok_snoc:
  "shared_ok prev (es @ [(sh, k, v)]) \<longleftrightarrow> shared_ok prev es \<and> sh \<le> length (last_key_of prev es) \<and>
     sh \<le> length k \<and> take sh (last_key_of prev es) = take sh k"
  by (induction prev es rule: shared_ok.induct) (auto simp: entry_key_def)

lemma shared_prefix_ok:
  "shared_prefix xs ys \<le> length xs \<and> shared_prefix xs ys \<le> length ys \<and>
     take (shared_prefix xs ys) xs = take (shared_prefix xs ys) ys"
  by (induction xs ys rule: shared_prefix.induct) auto

definition entry_off :: "wire \<Rightarrow> entry list \<Rightarrow> nat \<Rightarrow> nat" where
  "entry_off w es i = length (entries_bytes w (take i es))"

text \<open>
  \<open>restarts_ok\<close>: the restart points are entries that share nothing, in ascending order, the first
  at the beginning.
\<close>

definition restarts_ok :: "entry list \<Rightarrow> nat list \<Rightarrow> bool" where
  "restarts_ok es idx \<longleftrightarrow> idx \<noteq> [] \<and> hd idx = 0 \<and> sorted idx \<and> (es = [] \<longrightarrow> idx = [0]) \<and>
     (\<forall>i\<in>set idx. (es \<noteq> [] \<longrightarrow> i < length es) \<and> (i < length es \<longrightarrow> fst (es ! i) = 0))"

definition built :: "wire \<Rightarrow> data_block_builder \<Rightarrow> entry list \<Rightarrow> nat list \<Rightarrow> bool" where
  "built w b es idx \<longleftrightarrow> db_buffer b = entries_bytes w es \<and> db_restarts b = map (entry_off w es) idx \<and>
     shared_ok [] es \<and> restarts_ok es idx \<and> (\<forall>i\<in>set idx. i \<le> length es) \<and>
     db_last_key b = (if es = [] then None else Some (last_key_of [] es))"

lemma built_new: "built w (builder_new interval) [] [0]"
  by (simp add: built_def builder_new_def entry_off_def restarts_ok_def)

lemma built_reset: "built w (builder_reset b) [] [0]"
  by (simp add: built_def builder_reset_def entry_off_def restarts_ok_def)

lemma entry_off_snoc: "i \<le> length es \<Longrightarrow> entry_off w (es @ [e]) i = entry_off w es i"
  by (simp add: entry_off_def)

lemma built_add:
  assumes b: "built w b es idx"
  shows "\<exists>sh idx'. built w (builder_add w k v b) (es @ [(sh, k, v)]) idx'"
proof (cases "restart_counter b < restart_interval b")
  case True
  define sh where "sh = (case db_last_key b of Some lk \<Rightarrow> shared_prefix lk k | None \<Rightarrow> 0)"
  have sh: "sh \<le> length (last_key_of [] es) \<and> sh \<le> length k \<and>
      take sh (last_key_of [] es) = take sh k"
    using b shared_prefix_ok [of "last_key_of [] es" k] by (auto simp: sh_def built_def)
  have sh0: "es = [] \<Longrightarrow> sh = 0"
    using b by (simp add: sh_def built_def)
  have bf: "builder_add w k v b = b\<lparr>db_buffer := db_buffer b @ entry_bytes w (sh, k, v),
      db_last_key := Some k, restart_counter := restart_counter b + 1\<rparr>"
  proof -
    have "(case db_last_key b of Some lk \<Rightarrow> take sh lk @ drop sh k | None \<Rightarrow> k) = k"
      using b sh by (auto simp: built_def)
    then show ?thesis
      using True by (simp add: builder_add_def Let_def sh_def [symmetric] entry_bytes_def)
  qed
  have "restarts_ok (es @ [(sh, k, v)]) idx"
    using b sh0 by (auto simp: built_def restarts_ok_def nth_append)
  then have "built w (builder_add w k v b) (es @ [(sh, k, v)]) idx"
    using b sh by (auto simp: built_def bf shared_ok_snoc entry_off_snoc entry_key_def)
  then show ?thesis by blast
next
  case False
  have bf: "builder_add w k v b = b\<lparr>db_buffer := db_buffer b @ entry_bytes w (0, k, v),
      db_restarts := db_restarts b @ [length (db_buffer b)],
      db_last_key := Some k, restart_counter := 1\<rparr>"
    using False by (simp add: builder_add_def entry_bytes_def)
  have "sorted (idx @ [length es])"
    using b by (auto simp: built_def restarts_ok_def sorted_append)
  then have "restarts_ok (es @ [(0, k, v)]) (idx @ [length es])"
    using b by (auto simp: built_def restarts_ok_def nth_append)
  then have "built w (builder_add w k v b) (es @ [(0, k, v)]) (idx @ [length es])"
    using b by (auto simp: built_def bf shared_ok_snoc entry_off_snoc entry_key_def entry_off_def)
  then show ?thesis by blast
qed


section \<open>Reading a block\<close>

definition sealed :: "wire \<Rightarrow> entry list \<Rightarrow> nat list \<Rightarrow> bytes" where
  "sealed w es idx = entries_bytes w es
     @ concat (map (\<lambda>r. put_u32 w (of_nat r)) (map (entry_off w es) idx))
     @ put_u32 w (of_nat (length idx))"

lemma seal_built: "built w b es idx \<Longrightarrow> fst (builder_seal w b) = sealed w es idx"
  by (simp add: builder_seal_def built_def sealed_def)

text \<open>
  The iterator stands before entry \<open>i\<close>; the key it holds is that of the entry before, unless entry
  \<open>i\<close> needs none.
\<close>

definition before :: "wire \<Rightarrow> entry list \<Rightarrow> bytes \<Rightarrow> data_block_iter \<Rightarrow> nat \<Rightarrow> bool" where
  "before w es c it i \<longleftrightarrow> blk it = c \<and> i \<le> length es \<and> it_offset it = entry_off w es i \<and>
     restarts_offset it = length (entries_bytes w es) \<and>
     (i < length es \<longrightarrow> fst (es ! i) = 0 \<or> restart_key it = last_key_of [] (take i es))"

text \<open>The iterator stands at entry \<open>i\<close>, which the last \<open>next\<close> returned.\<close>

definition at_entry :: "wire \<Rightarrow> entry list \<Rightarrow> bytes \<Rightarrow> data_block_iter \<Rightarrow> nat \<Rightarrow> bool" where
  "at_entry w es c it i \<longleftrightarrow> i < length es \<and> before w es c it (Suc i) \<and>
     restart_key it = entry_key (es ! i) \<and>
     it_value_offset it + length (entry_val (es ! i)) = entry_off w es (Suc i) \<and>
     0 < it_value_offset it \<and> slice c (it_value_offset it) (it_offset it) = entry_val (es ! i)"

lemma entry_off_Suc:
  "i < length es \<Longrightarrow> entry_off w es (Suc i) = entry_off w es i + length (entry_bytes w (es ! i))"
  by (simp add: entry_off_def take_Suc_conv_app_nth)

lemma entry_off_le: "i \<le> length es \<Longrightarrow> entry_off w es i \<le> length (entries_bytes w es)"
proof -
  have "length (entries_bytes w (take i es @ drop i es)) = entry_off w es i + length (entries_bytes w (drop i es))"
    by (simp only: entries_bytes_simps length_append entry_off_def)
  then show ?thesis by simp
qed

lemma shared_ok_nth:
  "shared_ok prev es \<Longrightarrow> i < length es \<Longrightarrow> es ! i = (sh, k, v) \<Longrightarrow>
     sh \<le> length k \<and> sh \<le> length (last_key_of prev (take i es)) \<and>
     take sh (last_key_of prev (take i es)) = take sh k"
proof (induction prev es arbitrary: i rule: shared_ok.induct)
  case (2 prev sh' k' v' es)
  then show ?case
    by (cases i) (auto simp: entry_key_def)
qed simp

context wire_format begin

lemma entry_bytes_split:
  "entry_bytes w (sh, k, v) =
     put_varint w sh @ put_varint w (length k - sh) @ put_varint w (length v) @ drop sh k @ v"
  by (simp add: entry_bytes_def)

lemma entry_bytes_pos: "2 < length (entry_bytes w e)"
proof -
  obtain sh k v where e: "e = (sh, k, v)" by (cases e)
  have "0 < length (put_varint w n)" for n by simp
  from this [of sh] this [of "length k - sh"] this [of "length v"] show ?thesis
    unfolding e entry_bytes_split length_append by linarith
qed

lemma next_entry_at:
  assumes c: "blk it = xs @ entry_bytes w (sh, k, v) @ ys" and off: "it_offset it = length xs"
    and sh: "sh \<le> length k"
  defines "hl \<equiv> length (put_varint w sh) + length (put_varint w (length k - sh)) + length (put_varint w (length v))"
  shows "next_entry w it = Inr ((sh, length k - sh, length v, hl),
    it\<lparr>it_value_offset := length xs + hl + (length k - sh),
       it_offset := length xs + length (entry_bytes w (sh, k, v))\<rparr>)"
proof -
  let ?a = "put_varint w sh" and ?b = "put_varint w (length k - sh)" and ?d = "put_varint w (length v)"
  let ?c = "blk it"
  have c': "?c = xs @ ?a @ ?b @ ?d @ drop sh k @ v @ ys"
    using c by (simp add: entry_bytes_split)
  have g1: "get_slice ?c (length xs) (length ?c) = Inr (?a @ ?b @ ?d @ drop sh k @ v @ ys)"
    by (simp add: get_slice_def slice_def c')
  have g2: "get_slice ?c (length xs + length ?a) (length ?c) = Inr (?b @ ?d @ drop sh k @ v @ ys)"
    by (simp add: get_slice_def slice_def c')
  have g3: "get_slice ?c (length xs + (length ?a + length ?b)) (length ?c) = Inr (?d @ drop sh k @ v @ ys)"
  proof -
    have "drop (length xs + (length ?a + length ?b)) ?c = ?d @ drop sh k @ v @ ys"
      unfolding c' drop_length_append by simp
    then show ?thesis
      by (simp add: get_slice_def slice_def) (simp add: c')
  qed
  show ?thesis
    unfolding next_entry_def Let_def off g1 res_bind_Inr get_put_varint case_prod_conv g2 g3
    using sh by (simp add: hl_def entry_bytes_split)
qed

lemma read_entry:
  assumes c: "blk it = xs @ entry_bytes w (sh, k, v) @ ys" and off: "it_offset it = length xs"
    and sh: "sh \<le> length k" "take sh (restart_key it) = take sh k" and lt: "length xs < restarts_offset it"
  shows "\<exists>it'. iter_next w it = Inr (Some (k, v), it') \<and> blk it' = blk it \<and>
    restarts_offset it' = restarts_offset it \<and> restart_key it' = k \<and>
    it_offset it' = length xs + length (entry_bytes w (sh, k, v)) \<and>
    it_value_offset it' + length v = it_offset it' \<and> 0 < it_value_offset it' \<and>
    slice (blk it) (it_value_offset it') (it_offset it') = v"
proof -
  define hl where "hl = length (put_varint w sh) + length (put_varint w (length k - sh)) + length (put_varint w (length v))"
  let ?pre = "put_varint w sh @ put_varint w (length k - sh) @ put_varint w (length v)"
  have hlp: "length ?pre = hl" by (simp add: hl_def)
  have hl0: "0 < hl"
  proof -
    have "0 < length (put_varint w sh)" by simp
    then show ?thesis unfolding hl_def by linarith
  qed
  note ne = next_entry_at [OF c off sh(1), folded hl_def]
  have c': "blk it = (xs @ ?pre) @ drop sh k @ (v @ ys)"
    using c by (simp add: entry_bytes_split)
  have ks: "get_slice (blk it) (length xs + hl) (length xs + hl + (length k - sh)) = Inr (drop sh k)"
    unfolding c' using hlp by (simp add: get_slice_def slice_def)
  have "blk it = ((xs @ ?pre) @ drop sh k) @ v @ ys"
    using c' by simp
  then have vs: "get_slice (blk it) (length xs + hl + (length k - sh)) (length xs + hl + (length k - sh) + length v) = Inr v"
    using hlp by (simp add: get_slice_def slice_def)
  then have sl: "slice (blk it) (length xs + hl + (length k - sh)) (length xs + hl + (length k - sh) + length v) = v"
    by (simp add: get_slice_def split: if_splits)
  have el: "length (entry_bytes w (sh, k, v)) = hl + (length k - sh) + length v"
    using sh(1) by (simp add: entry_bytes_split hl_def)
  show ?thesis
    using lt off ne ks vs sl sh(2) hl0
    by (simp add: iter_next_def assemble_key_def el add.assoc Let_def)
qed

text \<open>What \<open>next\<close> does, standing before an entry or at the end.\<close>

lemma take_nth_drop3: "i < length xs \<Longrightarrow> xs = take i xs @ xs ! i # drop (Suc i) xs"
  by (rule id_take_nth_drop)

lemma iter_next_before:
  assumes b: "before w es c it i" and i: "i < length es" and c: "c = entries_bytes w es @ rest"
    and ok: "shared_ok [] es"
  shows "\<exists>it'. iter_next w it = Inr (Some (entry_pair (es ! i)), it') \<and> at_entry w es c it' i"
proof -
  obtain sh k v where e: "es ! i = (sh, k, v)" by (cases "es ! i")
  have split: "c = entries_bytes w (take i es) @ entry_bytes w (sh, k, v) @ (entries_bytes w (drop (Suc i) es) @ rest)"
    using c arg_cong [OF id_take_nth_drop [OF i], of "entries_bytes w"] e by simp
  note so = shared_ok_nth [OF ok i e]
  have "fst (es ! i) = 0 \<or> restart_key it = last_key_of [] (take i es)"
    using b i by (simp add: before_def)
  then have tk: "take sh (restart_key it) = take sh k"
    using so by (auto simp: e)
  have bs: "blk it = c" "it_offset it = length (entries_bytes w (take i es))"
      "restarts_offset it = length (entries_bytes w es)"
    using b by (simp_all add: before_def entry_off_def)
  have "entry_off w es (Suc i) \<le> length (entries_bytes w es)"
    using i by (intro entry_off_le) simp
  then have lt: "length (entries_bytes w (take i es)) < restarts_offset it"
    using entry_bytes_pos [of "es ! i"] by (simp add: entry_off_Suc [OF i] bs(3)) (simp add: entry_off_def)
  obtain it' where r: "iter_next w it = Inr (Some (k, v), it')" "blk it' = blk it"
      "restarts_offset it' = restarts_offset it" "restart_key it' = k"
      "it_offset it' = length (entries_bytes w (take i es)) + length (entry_bytes w (sh, k, v))"
      "it_value_offset it' + length v = it_offset it'" "0 < it_value_offset it'"
      "slice (blk it) (it_value_offset it') (it_offset it') = v"
    using read_entry [OF trans [OF bs(1) split] bs(2) conjunct1 [OF so] tk lt] by blast
  have off: "it_offset it' = entry_off w es (Suc i)"
    using r(5) by (simp add: entry_off_Suc [OF i] e) (simp add: entry_off_def)
  have "at_entry w es c it' i"
    using i r bs off
    by (simp add: at_entry_def before_def e entry_key_def entry_val_def take_Suc_conv_app_nth)
  then show ?thesis
    using r(1) by (auto simp: e entry_pair_def)
qed

lemma iter_next_end:
  "before w es c it (length es) \<Longrightarrow> iter_next w it = Inr (None, iter_reset it)"
  by (simp add: before_def iter_next_def entry_off_def)

lemma current_at_entry:
  assumes "at_entry w es c it i" "c = entries_bytes w es @ rest"
  shows "iter_current it = Inr (if entry_key (es ! i) = [] then None else Some (entry_pair (es ! i)))"
proof -
  have "entry_off w es (Suc i) \<le> length (entries_bytes w es)"
    using assms(1) by (intro entry_off_le) (simp add: at_entry_def)
  then show ?thesis
    using assms by (auto simp: iter_current_def iter_valid_def at_entry_def before_def get_slice_def
        entry_pair_def entry_key_def entry_val_def)
qed

end


section \<open>Seeking\<close>

lemma concat_chunks:
  assumes "\<And>x. length (f x) = n"
  shows "drop (n * j) (concat (map f xs)) = concat (map f (drop j xs))"
    and "length (concat (map f xs)) = n * length xs"
proof -
  show "drop (n * j) (concat (map f xs)) = concat (map f (drop j xs))"
  proof (induction xs arbitrary: j)
    case (Cons x xs)
    then show ?case by (cases j) (simp_all add: assms)
  qed simp
  show "length (concat (map f xs)) = n * length xs"
    by (induction xs) (simp_all add: assms)
qed

text \<open>Once a key is not below the target, no later key is.\<close>

definition rises :: "(bytes \<Rightarrow> bytes \<Rightarrow> ordering) \<Rightarrow> bytes \<Rightarrow> entry list \<Rightarrow> bool" where
  "rises kc key es \<longleftrightarrow> (\<forall>i j. i \<le> j \<longrightarrow> j < length es \<longrightarrow> kc (entry_key (es ! i)) key \<noteq> Less \<longrightarrow>
     kc (entry_key (es ! j)) key \<noteq> Less)"

definition offsets_fit :: "wire \<Rightarrow> entry list \<Rightarrow> nat list \<Rightarrow> bool" where
  "offsets_fit w es idx \<longleftrightarrow> length (entries_bytes w es) < 2 ^ 32 \<and> length idx < 2 ^ 32"

lemma unat_of_nat_u32: "n < 2 ^ 32 \<Longrightarrow> unat (of_nat n :: u32) = n"
  by (simp add: unsigned_of_nat take_bit_eq_mod)

context wire_format begin

lemma length_sealed: "length (sealed w es idx) = length (entries_bytes w es) + 4 * length idx + 4"
  by (simp add: sealed_def concat_chunks(2))

lemma num_restarts_sealed:
  assumes "offsets_fit w es idx"
  shows "num_restarts w (sealed w es idx) = Inr (length idx)"
proof -
  have "drop (length (sealed w es idx) - 4) (sealed w es idx) = put_u32 w (of_nat (length idx))"
    unfolding length_sealed by (simp add: sealed_def concat_chunks(2))
  then show ?thesis
    using assms by (simp add: num_restarts_def length_sealed unat_of_nat_u32 offsets_fit_def)
qed

lemma iter_new_sealed:
  assumes "offsets_fit w es idx" and "restarts_ok es idx"
  shows "\<exists>it. iter_new w (sealed w es idx) = Inr it \<and> before w es (sealed w es idx) it 0"
proof -
  have "es \<noteq> [] \<Longrightarrow> fst (es ! 0) = 0"
    using assms(2) by (cases idx) (auto simp: restarts_ok_def)
  then show ?thesis
    by (auto simp: iter_new_def num_restarts_sealed [OF assms(1)] length_sealed before_def entry_off_def)
qed

lemma restart_offset_sealed:
  assumes fit: "offsets_fit w es idx" and j: "j < length idx" "idx ! j \<le> length es"
    and it: "blk it = sealed w es idx" "restarts_offset it = length (entries_bytes w es)"
  shows "get_restart_offset w it j = Inr (entry_off w es (idx ! j))"
proof -
  let ?f = "\<lambda>r. put_u32 w (of_nat r)"
  let ?rs = "map (entry_off w es) idx"
  have d: "drop (4 * j) (concat (map ?f ?rs)) = ?f (entry_off w es (idx ! j)) @ concat (map ?f (drop (Suc j) ?rs))"
    using concat_chunks(1) [of ?f 4 j ?rs] j by (simp add: Cons_nth_drop_Suc [symmetric] drop_map)
  have l: "4 * j \<le> length (concat (map ?f ?rs))" "4 * j + 4 \<le> length (concat (map ?f ?rs))"
    using j by (simp_all add: concat_chunks(2))
  have "drop (length (entries_bytes w es) + 4 * j) (sealed w es idx)
      = ?f (entry_off w es (idx ! j)) @ concat (map ?f (drop (Suc j) ?rs)) @ put_u32 w (of_nat (length idx))"
    unfolding sealed_def drop_length_append using d l by (simp add: drop_append)
  then have "get_slice (blk it) (restarts_offset it + 4 * j) (restarts_offset it + 4 * j + 4)
      = Inr (?f (entry_off w es (idx ! j)))"
    using l j by (simp add: get_slice_def slice_def it length_sealed)
  moreover have "entry_off w es (idx ! j) < 2 ^ 32"
    using entry_off_le [OF j(2), of w] fit by (simp add: offsets_fit_def)
  ultimately show ?thesis
    by (simp add: get_restart_offset_def Let_def unat_of_nat_u32)
qed

lemma entries_bytes_long: "length es \<le> length (entries_bytes w es)"
proof (induction es)
  case (Cons e es)
  then show ?case using entry_bytes_pos [of e] by simp
qed simp

lemma seek_to_restart_sealed:
  assumes fit: "offsets_fit w es idx" and ro: "restarts_ok es idx" and ok: "shared_ok [] es"
    and j: "j < length idx" and ne: "es \<noteq> []"
    and it: "blk it = sealed w es idx" "restarts_offset it = length (entries_bytes w es)"
  shows "\<exists>it'. seek_to_restart w j it = Inr it' \<and> restart_key it' = entry_key (es ! (idx ! j)) \<and>
    blk it' = sealed w es idx \<and> restarts_offset it' = length (entries_bytes w es)"
proof -
  let ?i = "idx ! j"
  have i: "?i < length es" "fst (es ! ?i) = 0"
    using ro j ne nth_mem [OF j] by (auto simp: restarts_ok_def)
  obtain k v where e: "es ! ?i = (0, k, v)" using i(2) by (cases "es ! ?i") auto
  define xs where "xs = entries_bytes w (take ?i es)"
  define hl where "hl = length (put_varint w 0) + length (put_varint w (length k - 0)) + length (put_varint w (length v))"
  have split: "sealed w es idx = xs @ entry_bytes w (0, k, v) @ (entries_bytes w (drop (Suc ?i) es)
      @ concat (map (\<lambda>r. put_u32 w (of_nat r)) (map (entry_off w es) idx)) @ put_u32 w (of_nat (length idx)))"
    using arg_cong [OF id_take_nth_drop [OF i(1)], of "entries_bytes w"] e by (simp add: sealed_def xs_def)
  have off: "get_restart_offset w it j = Inr (length xs)"
    using restart_offset_sealed [OF fit j less_imp_le [OF i(1)] it] by (simp add: xs_def entry_off_def)
  have ne: "next_entry w (it\<lparr>it_offset := length xs\<rparr>) = Inr ((0, length k - 0, length v, hl),
      it\<lparr>it_offset := length xs, it_value_offset := length xs + hl + (length k - 0),
         it_offset := length xs + length (entry_bytes w (0, k, v))\<rparr>)"
    unfolding hl_def by (rule next_entry_at) (use it(1) split in simp_all)
  have "sealed w es idx = (xs @ put_varint w 0 @ put_varint w (length k) @ put_varint w (length v)) @ k @
      (v @ entries_bytes w (drop (Suc ?i) es)
      @ concat (map (\<lambda>r. put_u32 w (of_nat r)) (map (entry_off w es) idx)) @ put_u32 w (of_nat (length idx)))"
    using split by (simp add: entry_bytes_split)
  then have "get_slice (sealed w es idx) (length xs + hl) (length xs + hl + length k) = Inr k"
    by (simp add: get_slice_def slice_def hl_def)
  then show ?thesis
    using off ne it by (simp add: seek_to_restart_def assemble_key_def e entry_key_def)
qed

lemma seek_search_sealed:
  assumes fit: "offsets_fit w es idx" and ro: "restarts_ok es idx" and ok: "shared_ok [] es" and ne: "es \<noteq> []"
    and mono: "rises kc key es"
  shows "\<lbrakk>low \<le> high; high < length idx; low = 0 \<or> kc (entry_key (es ! (idx ! low))) key = Less;
      blk it = sealed w es idx; restarts_offset it = length (entries_bytes w es)\<rbrakk> \<Longrightarrow>
    \<exists>l it'. seek_search w kc key low high it = Inr (l, it') \<and> l < length idx \<and>
      (l = 0 \<or> kc (entry_key (es ! (idx ! l))) key = Less) \<and>
      blk it' = sealed w es idx \<and> restarts_offset it' = length (entries_bytes w es)"
proof (induction "high - low" arbitrary: low high it rule: less_induct)
  case less
  show ?case
  proof (cases "low < high")
    case False
    then show ?thesis using less.prems by (subst seek_search.simps) simp
  next
    case True
    define mid where "mid = (low + high + 1) div 2"
    have mid: "low < mid" "mid \<le> high" using True by (auto simp: mid_def)
    then have ml: "mid < length idx" using less.prems(2) by simp
    obtain it' where it': "seek_to_restart w mid it = Inr it'" "restart_key it' = entry_key (es ! (idx ! mid))"
      "blk it' = sealed w es idx" "restarts_offset it' = length (entries_bytes w es)"
      using seek_to_restart_sealed [OF fit ro ok ml ne less.prems(4,5)] by blast
    have step: "seek_search w kc key low high it =
        (if kc (restart_key it') key \<noteq> Less then seek_search w kc key low (mid - 1) it'
         else seek_search w kc key mid high it')"
    proof -
      have "Suc (low + high) div 2 = mid" by (simp add: mid_def)
      then show ?thesis
        using True it'(1) by (subst seek_search.simps) (simp add: Let_def)
    qed
    show ?thesis
    proof (cases "kc (restart_key it') key = Less")
      case True
      then show ?thesis
        using less.hyps [of high mid it'] mid less.prems(2) it' step by simp
    next
      case False
      have "mid - 1 - low < high - low" "low \<le> mid - 1" "mid - 1 < length idx"
        using mid ml by linarith+
      then show ?thesis
        using less.hyps [of "mid - 1" low it'] less.prems(3) it' step False by simp
    qed
  qed
qed

lemma seek_scan_before:
  assumes c: "c = entries_bytes w es @ rest" and ok: "shared_ok [] es"
  shows "\<lbrakk>before w es c it i; length es - i < fuel\<rbrakk> \<Longrightarrow>
    \<exists>it'. seek_scan fuel w kc key it = Inr it' \<and>
      ((\<exists>j. i \<le> j \<and> j < length es \<and> kc (entry_key (es ! j)) key \<noteq> Less \<and>
          (\<forall>m. i \<le> m \<longrightarrow> m < j \<longrightarrow> kc (entry_key (es ! m)) key = Less) \<and> at_entry w es c it' j) \<or>
       (\<forall>m. i \<le> m \<longrightarrow> m < length es \<longrightarrow> kc (entry_key (es ! m)) key = Less) \<and>
         iter_current it' = Inr None)"
proof (induction fuel arbitrary: it i)
  case (Suc fuel)
  show ?case
  proof (cases "i < length es")
    case True
    obtain it1 where it1: "iter_next w it = Inr (Some (entry_pair (es ! i)), it1)" "at_entry w es c it1 i"
      using iter_next_before [OF Suc.prems(1) True c ok] by blast
    obtain k v where kv: "entry_pair (es ! i) = (k, v)" "entry_key (es ! i) = k"
      by (cases "es ! i") (simp add: entry_pair_def entry_key_def)
    show ?thesis
    proof (cases "kc k key = Less")
      case False
      then have "seek_scan (Suc fuel) w kc key it = Inr it1"
        using it1(1) kv by simp
      then show ?thesis
        using it1(2) True False kv by (intro exI [of _ it1]) (auto intro!: exI [of _ i])
    next
      case less: True
      then have st: "seek_scan (Suc fuel) w kc key it = seek_scan fuel w kc key it1"
        using it1(1) kv by simp
      have wit: ?thesis if "seek_scan fuel w kc key it1 = Inr x"
        "((\<exists>j. i \<le> j \<and> j < length es \<and> kc (entry_key (es ! j)) key \<noteq> Less \<and>
          (\<forall>m. i \<le> m \<longrightarrow> m < j \<longrightarrow> kc (entry_key (es ! m)) key = Less) \<and> at_entry w es c x j) \<or>
         (\<forall>m. i \<le> m \<longrightarrow> m < length es \<longrightarrow> kc (entry_key (es ! m)) key = Less) \<and>
           iter_current x = Inr None)" for x
        by (rule exI [of _ x]) (use st that in \<open>simp only: simp_thms\<close>)
      have b1: "before w es c it1 (Suc i)" using it1(2) by (simp add: at_entry_def)
      have f1: "length es - Suc i < fuel" using Suc.prems(2) True by simp
      obtain it' where it': "seek_scan fuel w kc key it1 = Inr it'"
        "(\<exists>j. Suc i \<le> j \<and> j < length es \<and> kc (entry_key (es ! j)) key \<noteq> Less \<and>
          (\<forall>m. Suc i \<le> m \<longrightarrow> m < j \<longrightarrow> kc (entry_key (es ! m)) key = Less) \<and> at_entry w es c it' j) \<or>
         (\<forall>m. Suc i \<le> m \<longrightarrow> m < length es \<longrightarrow> kc (entry_key (es ! m)) key = Less) \<and>
           iter_current it' = Inr None"
        using Suc.IH [OF b1 f1] by blast
      have here: "kc (entry_key (es ! i)) key = Less" using less kv by simp
      from it'(2) show ?thesis
      proof (elim disjE exE conjE)
        fix j
        assume j: "Suc i \<le> j" "j < length es" "kc (entry_key (es ! j)) key \<noteq> Less"
          "\<forall>m. Suc i \<le> m \<longrightarrow> m < j \<longrightarrow> kc (entry_key (es ! m)) key = Less" "at_entry w es c it' j"
        have "\<forall>m. i \<le> m \<longrightarrow> m < j \<longrightarrow> kc (entry_key (es ! m)) key = Less"
          using j(4) here by (metis Suc_leI le_neq_implies_less)
        then show ?thesis
          using wit [OF it'(1)] j Suc_leD by blast
      next
        assume n: "\<forall>m. Suc i \<le> m \<longrightarrow> m < length es \<longrightarrow> kc (entry_key (es ! m)) key = Less"
          "iter_current it' = Inr None"
        have "\<forall>m. i \<le> m \<longrightarrow> m < length es \<longrightarrow> kc (entry_key (es ! m)) key = Less"
          using n(1) here by (metis Suc_leI le_neq_implies_less)
        then show ?thesis
          using wit [OF it'(1)] n(2) by blast
      qed
    qed
  next
    case False
    then have "i = length es" using Suc.prems(1) by (simp add: before_def)
    then have "iter_next w it = Inr (None, iter_reset it)"
      using iter_next_end Suc.prems(1) by blast
    then show ?thesis
      using False by (simp add: iter_current_def iter_valid_def iter_reset_def)
  qed
qed simp

text \<open>\<open>seek\<close> finds the first entry that is not below the key.\<close>

lemma iter_seek_sealed:
  assumes fit: "offsets_fit w es idx" and ro: "restarts_ok es idx" and ok: "shared_ok [] es"
    and mono: "rises kc key es"
    and it: "blk it = sealed w es idx" "restarts_offset it = length (entries_bytes w es)"
  shows "\<exists>it'. iter_seek w kc key it = Inr it' \<and>
    ((\<exists>j<length es. kc (entry_key (es ! j)) key \<noteq> Less \<and>
        (\<forall>m<j. kc (entry_key (es ! m)) key = Less) \<and> at_entry w es (sealed w es idx) it' j) \<or>
     (\<forall>m<length es. kc (entry_key (es ! m)) key = Less) \<and> iter_current it' = Inr None)"
proof -
  let ?c = "sealed w es idx"
  have idx: "idx \<noteq> []" "idx ! 0 = 0" using ro by (auto simp: restarts_ok_def hd_conv_nth)
  have "\<exists>l it1. seek_search w kc key 0 (length idx - 1) (iter_reset it) = Inr (l, it1) \<and> l < length idx \<and>
      (l = 0 \<or> (es \<noteq> [] \<and> kc (entry_key (es ! (idx ! l))) key = Less)) \<and>
      blk it1 = ?c \<and> restarts_offset it1 = length (entries_bytes w es)"
  proof (cases "es = []")
    case True
    then have "length idx - 1 = 0" using ro by (simp add: restarts_ok_def)
    then show ?thesis
      using idx it by (subst seek_search.simps) (simp add: iter_reset_def)
  next
    case False
    have "length idx - 1 < length idx" using idx(1) by simp
    moreover have "blk (iter_reset it) = ?c" "restarts_offset (iter_reset it) = length (entries_bytes w es)"
      using it by (simp_all add: iter_reset_def)
    ultimately show ?thesis
      using seek_search_sealed [OF fit ro ok False mono, of 0 "length idx - 1" "iter_reset it"] False by simp
  qed
  then obtain l it1 where l: "seek_search w kc key 0 (length idx - 1) (iter_reset it) = Inr (l, it1)"
    "l < length idx" "l = 0 \<or> (es \<noteq> [] \<and> kc (entry_key (es ! (idx ! l))) key = Less)"
    "blk it1 = ?c" "restarts_offset it1 = length (entries_bytes w es)"
    by blast
  define i0 where "i0 = idx ! l"
  have mem: "idx ! l \<in> set idx" using l(2) by simp
  have i0: "i0 \<le> length es" "i0 < length es \<longrightarrow> fst (es ! i0) = 0"
    using ro mem idx(2) l(3) by (auto simp: restarts_ok_def i0_def less_imp_le)
  have ro_l: "get_restart_offset w it1 l = Inr (entry_off w es i0)"
    unfolding i0_def by (rule restart_offset_sealed [OF fit l(2) _ l(4,5)]) (use i0 i0_def in simp)
  define it2 where "it2 = it1\<lparr>it_offset := entry_off w es i0\<rparr>"
  have b: "before w es ?c it2 i0"
    using i0 l(4,5) by (simp add: before_def it2_def)
  have c: "?c = entries_bytes w es @ (concat (map (\<lambda>r. put_u32 w (of_nat r)) (map (entry_off w es) idx))
     @ put_u32 w (of_nat (length idx)))"
    by (simp add: sealed_def)
  have fuel: "length es - i0 < Suc (length ?c)"
    using entries_bytes_long [of es] by (simp add: length_sealed)
  have low: "kc (entry_key (es ! m)) key = Less" if "m < i0" for m
  proof (rule ccontr)
    assume no: "kc (entry_key (es ! m)) key \<noteq> Less"
    have "l \<noteq> 0" using that idx(2) by (cases l) (auto simp: i0_def)
    then have less: "kc (entry_key (es ! i0)) key = Less" and ne: "es \<noteq> []"
      using l(3) by (auto simp: i0_def)
    have "i0 < length es" using ro mem ne by (auto simp: restarts_ok_def i0_def)
    with mono no less that show False unfolding rises_def by (meson less_imp_le)
  qed
  have seek: "iter_seek w kc key it = seek_scan (Suc (length ?c)) w kc key it2"
    using idx(1) l(1) ro_l by (simp add: iter_seek_def it(1) num_restarts_sealed [OF fit] Let_def it2_def
        del: seek_scan.simps)
  obtain it' where it': "seek_scan (Suc (length ?c)) w kc key it2 = Inr it'"
    "(\<exists>j. i0 \<le> j \<and> j < length es \<and> kc (entry_key (es ! j)) key \<noteq> Less \<and>
          (\<forall>m. i0 \<le> m \<longrightarrow> m < j \<longrightarrow> kc (entry_key (es ! m)) key = Less) \<and> at_entry w es ?c it' j) \<or>
     (\<forall>m. i0 \<le> m \<longrightarrow> m < length es \<longrightarrow> kc (entry_key (es ! m)) key = Less) \<and> iter_current it' = Inr None"
    using seek_scan_before [OF c ok b fuel] by blast
  have all: "kc (entry_key (es ! m)) key = Less"
    if "\<forall>m. i0 \<le> m \<longrightarrow> m < n \<longrightarrow> kc (entry_key (es ! m)) key = Less" "m < n" for m n
    using that low [of m] by (cases "m < i0") auto
  show ?thesis
    using it' all by (intro exI [of _ it']) (auto simp: seek)
qed

end


section \<open>A block that was built is read back\<close>

definition add_all :: "wire \<Rightarrow> (bytes \<times> bytes) list \<Rightarrow> data_block_builder \<Rightarrow> data_block_builder" where
  "add_all w kvs b = fold (\<lambda>(k, v). builder_add w k v) kvs b"

definition build_block :: "wire \<Rightarrow> nat \<Rightarrow> (bytes \<times> bytes) list \<Rightarrow> bytes" where
  "build_block w interval kvs = fst (builder_seal w (add_all w kvs (builder_new interval)))"

text \<open>\<open>sealed_of w c kvs\<close>: the bytes \<open>c\<close> are a sealed block of the entries \<open>kvs\<close>. Its offsets are 32 bits
  wide, so \<open>block_of\<close> bounds its length.\<close>

definition sealed_of :: "wire \<Rightarrow> bytes \<Rightarrow> (bytes \<times> bytes) list \<Rightarrow> bool" where
  "sealed_of w c kvs \<longleftrightarrow>
     (\<exists>es idx. c = sealed w es idx \<and> shared_ok [] es \<and> restarts_ok es idx \<and> map entry_pair es = kvs)"

definition block_of :: "wire \<Rightarrow> bytes \<Rightarrow> (bytes \<times> bytes) list \<Rightarrow> bool" where
  "block_of w c kvs \<longleftrightarrow> length c < 2 ^ 32 \<and> sealed_of w c kvs"

text \<open>\<open>builder_holds w b kvs\<close>: the builder \<open>b\<close> has been given the entries \<open>kvs\<close> since it was reset.\<close>

definition builder_holds :: "wire \<Rightarrow> data_block_builder \<Rightarrow> (bytes \<times> bytes) list \<Rightarrow> bool" where
  "builder_holds w b kvs \<longleftrightarrow> (\<exists>es idx. built w b es idx \<and> map entry_pair es = kvs)"

lemma builder_holds_new: "builder_holds w (builder_new interval) []"
  unfolding builder_holds_def using built_new by fastforce

lemma builder_holds_reset: "builder_holds w (builder_reset b) []"
  unfolding builder_holds_def using built_reset by fastforce

lemma builder_holds_add:
  "builder_holds w b kvs \<Longrightarrow> builder_holds w (builder_add w k v b) (kvs @ [(k, v)])"
  unfolding builder_holds_def using built_add by (fastforce simp: entry_pair_def)

lemma builder_holds_seal:
  "builder_holds w b kvs \<Longrightarrow> sealed_of w (fst (builder_seal w b)) kvs"
  unfolding builder_holds_def sealed_of_def using seal_built [of w b] built_def [of w b] by metis

lemma builder_holds_add_all:
  "builder_holds w b kvs \<Longrightarrow> builder_holds w (add_all w kvs' b) (kvs @ kvs')"
proof (induction kvs' arbitrary: b kvs)
  case (Cons kv kvs')
  then show ?case
    using Cons.IH [OF builder_holds_add [OF Cons.prems, of "fst kv" "snd kv"]]
    by (simp add: add_all_def case_prod_beta)
qed (simp add: add_all_def)

lemma build_block_of:
  "length (build_block w interval kvs) < 2 ^ 32 \<Longrightarrow> block_of w (build_block w interval kvs) kvs"
  using builder_holds_seal [OF builder_holds_add_all [OF builder_holds_new], of w kvs interval]
  by (simp add: build_block_def block_of_def)

text \<open>The results of calling \<open>next\<close> \<open>n\<close> times.\<close>

fun iter_take :: "wire \<Rightarrow> nat \<Rightarrow> data_block_iter \<Rightarrow> (bytes \<times> bytes) option list res" where
  "iter_take w 0 it = Inr []"
| "iter_take w (Suc n) it =
     res_bind (iter_next w it) (\<lambda>(x, it'). res_bind (iter_take w n it') (\<lambda>xs. Inr (x # xs)))"

lemma entry_pair_key [simp]: "fst (entry_pair e) = entry_key e"
  by (simp add: entry_pair_def entry_key_def)

lemma find_first:
  assumes "j < length xs" "P (xs ! j)" "\<forall>m<j. \<not> P (xs ! m)"
  shows "find P xs = Some (xs ! j)"
  using assms by (auto simp: find_Some_iff)

context wire_format begin

lemma block_of_sealed:
  assumes "block_of w c kvs"
  obtains es idx where "c = sealed w es idx" "offsets_fit w es idx"
    "restarts_ok es idx" "shared_ok [] es" "map entry_pair es = kvs"
proof -
  obtain es idx where b: "c = sealed w es idx" "shared_ok [] es" "restarts_ok es idx" "map entry_pair es = kvs"
    using assms unfolding block_of_def sealed_of_def by blast
  have "offsets_fit w es idx"
    using assms unfolding block_of_def b(1) length_sealed offsets_fit_def by linarith
  with that b show ?thesis by blast
qed

lemma builder_empty_iff: "builder_holds w b kvs \<Longrightarrow> builder_empty b \<longleftrightarrow> kvs = []"
proof -
  assume "builder_holds w b kvs"
  then obtain es where es: "db_buffer b = entries_bytes w es" "map entry_pair es = kvs"
    unfolding builder_holds_def built_def by blast
  have "entry_bytes w e \<noteq> []" for e by (cases e) (simp add: entry_bytes_def)
  then have "entries_bytes w es = [] \<longleftrightarrow> es = []"
    by (cases es) simp_all
  with es show ?thesis by (auto simp: builder_empty_def)
qed

lemma iter_take_from:
  assumes c: "c = entries_bytes w es @ rest" and ok: "shared_ok [] es"
  shows "before w es c it i \<Longrightarrow>
    iter_take w (Suc (length es - i)) it = Inr (map (\<lambda>e. Some (entry_pair e)) (drop i es) @ [None])"
proof (induction "length es - i" arbitrary: it i)
  case 0
  then have "i = length es" by (simp add: before_def)
  then show ?case using iter_next_end 0(2) by simp
next
  case (Suc n)
  then have i: "i < length es" and n: "length es - i = Suc (length es - Suc i)" by simp_all
  obtain it' where it': "iter_next w it = Inr (Some (entry_pair (es ! i)), it')" "at_entry w es c it' i"
    using iter_next_before [OF Suc.prems i c ok] by blast
  have b: "before w es c it' (Suc i)" using it'(2) by (simp add: at_entry_def)
  have "iter_take w (Suc (length es - Suc i)) it' = Inr (map (\<lambda>e. Some (entry_pair e)) (drop (Suc i) es) @ [None])"
    using Suc(1) [OF _ b] Suc(2) by simp
  then show ?case
    unfolding n using it'(1) i by (subst iter_take.simps) (simp add: Cons_nth_drop_Suc [symmetric])
qed

lemma block_scan:
  assumes "block_of w c kvs"
  shows "\<exists>it. iter_new w c = Inr it \<and>
    iter_take w (Suc (length kvs)) it = Inr (map Some kvs @ [None])"
proof -
  obtain es idx where b: "c = sealed w es idx" "offsets_fit w es idx"
    "restarts_ok es idx" "shared_ok [] es" "map entry_pair es = kvs"
    by (rule block_of_sealed [OF assms])
  obtain it where it: "iter_new w (sealed w es idx) = Inr it" "before w es (sealed w es idx) it 0"
    using iter_new_sealed [OF b(2,3)] by blast
  have l: "length kvs = length es" using b(5) by auto
  have "map (\<lambda>e. Some (entry_pair e)) es = map Some kvs"
    using b(5) by auto
  then show ?thesis
    using iter_take_from [OF _ b(4) it(2)] it(1) b(1) l by (simp add: sealed_def)
qed

lemma sorted_rises:
  assumes ord: "cmp_order kc P" and keys: "\<forall>e\<in>set es. P (entry_key e)" "P key"
    and srt: "sorted_wrt (\<lambda>a b. kc a b = Less) (map entry_key es)"
  shows "rises kc key es"
  unfolding rises_def
proof (intro allI impI)
  fix i j
  assume ij: "i \<le> j" "j < length es" "kc (entry_key (es ! i)) key \<noteq> Less"
  have P: "P (entry_key (es ! i))" "P (entry_key (es ! j))"
    using keys(1) ij by simp_all
  show "kc (entry_key (es ! j)) key \<noteq> Less"
  proof (cases "i = j")
    case False
    then have "kc (entry_key (es ! i)) (entry_key (es ! j)) = Less"
      using srt ij by (simp add: sorted_wrt_iff_nth_less)
    then show ?thesis
      using cmp_order.cmp_less_trans [OF ord P(1,2) keys(2)] ij(3) by blast
  qed (use ij in simp)
qed

lemma block_seek:
  assumes blk: "block_of w c kvs"
    and ord: "cmp_order kc P" and keys: "\<forall>k\<in>set (map fst kvs). P k" "P key"
    and srt: "sorted_wrt (\<lambda>a b. kc a b = Less) (map fst kvs)"
    and it: "iter_new w c = Inr it"
  shows "\<exists>it'. iter_seek w kc key it = Inr it' \<and>
    iter_current it' = Inr (case find (\<lambda>kv. kc (fst kv) key \<noteq> Less) kvs of
      None \<Rightarrow> None | Some (k, v) \<Rightarrow> if k = [] then None else Some (k, v))"
proof -
  obtain es idx where b: "c = sealed w es idx" "offsets_fit w es idx"
    "restarts_ok es idx" "shared_ok [] es" "map entry_pair es = kvs"
    by (rule block_of_sealed [OF blk])
  have mk: "map fst kvs = map entry_key es" using b(5) by auto
  have ris: "rises kc key es"
    by (rule sorted_rises [OF ord _ keys(2)]) (use keys(1) srt mk in auto)
  have bf: "before w es (sealed w es idx) it 0"
    using iter_new_sealed [OF b(2,3)] it b(1) by auto
  have at: "blk it = sealed w es idx" "restarts_offset it = length (entries_bytes w es)"
    using bf by (simp_all add: before_def)
  obtain it' where it': "iter_seek w kc key it = Inr it'"
    "(\<exists>j<length es. kc (entry_key (es ! j)) key \<noteq> Less \<and>
        (\<forall>m<j. kc (entry_key (es ! m)) key = Less) \<and> at_entry w es (sealed w es idx) it' j) \<or>
     (\<forall>m<length es. kc (entry_key (es ! m)) key = Less) \<and> iter_current it' = Inr None"
    using iter_seek_sealed [OF b(2-4) ris at] by blast
  have nth: "kvs ! j = entry_pair (es ! j)" "length kvs = length es" if "j < length es" for j
    using b(5) that by auto
  from it'(2) show ?thesis
  proof (elim disjE exE conjE)
    fix j
    assume j: "j < length es" "kc (entry_key (es ! j)) key \<noteq> Less"
      "\<forall>m<j. kc (entry_key (es ! m)) key = Less" "at_entry w es (sealed w es idx) it' j"
    have "find (\<lambda>kv. kc (fst kv) key \<noteq> Less) kvs = Some (entry_pair (es ! j))"
      using find_first [of j kvs "\<lambda>kv. kc (fst kv) key \<noteq> Less"] j(1-3) nth by simp
    moreover have "iter_current it' = Inr (if entry_key (es ! j) = [] then None else Some (entry_pair (es ! j)))"
      by (rule current_at_entry [OF j(4)]) (simp add: sealed_def)
    ultimately show ?thesis
      using it'(1) by (cases "entry_pair (es ! j)") (auto simp: entry_key_def entry_pair_def)
  next
    assume n: "\<forall>m<length es. kc (entry_key (es ! m)) key = Less" "iter_current it' = Inr None"
    have "find (\<lambda>kv. kc (fst kv) key \<noteq> Less) kvs = None"
    proof -
      have "kc (entry_key e) key = Less" if "e \<in> set es" for e
        using n(1) that unfolding in_set_conv_nth by blast
      then show ?thesis
        unfolding find_None_iff b(5) [symmetric] by (force simp: entry_pair_def entry_key_def)
    qed
    then show ?thesis using it'(1) n(2) by simp
  qed
qed

end

text \<open>
  C33: scanning a block gives the entries it was built from. Whatever the keys, values and the
  restart interval, \<open>next\<close> on a sealed block returns every added pair in order and then ends.
\<close>
theorem data_block_scan:
  "\<lbrakk>wire_ok w; length (build_block w interval kvs) < 2 ^ 32\<rbrakk> \<Longrightarrow>
   \<exists>it. iter_new w (build_block w interval kvs) = Inr it \<and>
     iter_take w (Suc (length kvs)) it = Inr (map Some kvs @ [None])"
  by (rule wire_format.block_scan) (simp_all add: wire_format_iff build_block_of)

definition demo_block :: "(bytes \<times> bytes) list" where
  "demo_block = [([1, 2], [10]), ([1, 2, 3], [11]), ([1, 4], []), ([5], [12, 13])]"

lemma demo_block_length: "length (build_block std_wire 2 demo_block) < 2 ^ 32"
proof -
  have v: "length (put_varint std_wire n) = 1" if "n < 128" for n
    using that by (simp add: std_wire_def leb_encode.simps)
  have "length (build_block std_wire 2 demo_block) < 100"
    by (simp add: build_block_def add_all_def demo_block_def builder_new_def builder_add_def
        builder_seal_def Let_def v del: leb_encode.simps)
  then show ?thesis by simp
qed

theorem data_block_scan_witness:
  "\<exists>it. iter_new std_wire (build_block std_wire 2 demo_block) = Inr it \<and>
     iter_take std_wire 5 it = Inr (map Some demo_block @ [None])"
  using data_block_scan [OF std_wire_ok demo_block_length]
  by (simp add: demo_block_def numeral_eq_Suc del: iter_take.simps)

text \<open>
  C34: seeking in a block. When the keys were added in ascending order of a lawful comparison, the
  restart points and the scan after them lead \<open>seek\<close> to the first entry that is not below the key;
  \<open>current\<close> then returns that entry, or nothing when there is none, or when its key is empty: an
  iterator at an entry with the empty key counts as invalid.
\<close>
theorem data_block_seek:
  "\<lbrakk>wire_ok w; length (build_block w interval kvs) < 2 ^ 32; cmp_order kc P;
    \<forall>k\<in>set (map fst kvs). P k; P key; sorted_wrt (\<lambda>a b. kc a b = Less) (map fst kvs);
    iter_new w (build_block w interval kvs) = Inr it\<rbrakk> \<Longrightarrow>
   \<exists>it'. iter_seek w kc key it = Inr it' \<and>
     iter_current it' = Inr (case find (\<lambda>kv. kc (fst kv) key \<noteq> Less) kvs of
       None \<Rightarrow> None | Some (k, v) \<Rightarrow> if k = [] then None else Some (k, v))"
  by (rule wire_format.block_seek [where P = P]) (simp_all add: wire_format_iff build_block_of)

text \<open>\<open><[u8]>::cmp\<close>, the lexicographic order of byte strings.\<close>

fun bytes_cmp :: "bytes \<Rightarrow> bytes \<Rightarrow> ordering" where
  "bytes_cmp [] [] = Equal"
| "bytes_cmp [] (y # ys) = Less"
| "bytes_cmp (x # xs) [] = Greater"
| "bytes_cmp (x # xs) (y # ys) =
     (if x < y then Less else if y < x then Greater else bytes_cmp xs ys)"

interpretation bytes_order: cmp_order bytes_cmp "\<lambda>_. True"
proof
  fix a b :: bytes
  show "bytes_cmp a b = Equal \<longleftrightarrow> a = b"
    by (induction a b rule: bytes_cmp.induct) auto
  show "bytes_cmp b a = ord_reverse (bytes_cmp a b)"
    by (induction a b rule: bytes_cmp.induct) auto
next
  fix a b c :: bytes
  show "bytes_cmp a b = Less \<Longrightarrow> bytes_cmp b c = Less \<Longrightarrow> bytes_cmp a c = Less"
  proof (induction a b arbitrary: c rule: bytes_cmp.induct)
    case (2 y ys)
    then show ?case by (cases c) (auto split: if_splits)
  next
    case (4 x xs y ys)
    then show ?case by (cases c) (auto split: if_splits)
  qed auto
qed

theorem data_block_seek_witness:
  "\<exists>it it'. iter_new std_wire (build_block std_wire 2 demo_block) = Inr it \<and>
     iter_seek std_wire bytes_cmp [1, 3] it = Inr it' \<and> iter_current it' = Inr (Some ([1, 4], []))"
proof -
  obtain it where it: "iter_new std_wire (build_block std_wire 2 demo_block) = Inr it"
    using std.block_scan [OF build_block_of [OF demo_block_length]] by blast
  have srt: "sorted_wrt (\<lambda>a b. bytes_cmp a b = Less) (map fst demo_block)"
    by (simp add: demo_block_def)
  have "find (\<lambda>kv. bytes_cmp (fst kv) [1, 3] \<noteq> Less) demo_block = Some ([1, 4], [])"
    by (simp add: demo_block_def)
  then show ?thesis
    using data_block_seek [OF std_wire_ok demo_block_length bytes_order.cmp_order_axioms _ _ srt it, of "[1, 3]"] it
    by auto
qed

end
