(* ===== verification/Bloom.thy ===== *)
theory Bloom
  imports Log_Record
begin

unbundle bit_operations_syntax

text \<open>
  The Bloom filter of \<open>src/src/block/filter_policy.rs\<close>: the builder, the portable reader, and the
  reader for AVX2, whose 256-bit registers are lists of eight 32-bit lanes. An index outside a slice
  panics. The hash \<open>xx::hash64\<close> is a field of the record \<open>wire\<close>.
\<close>

section \<open>Builder\<close>

definition FILTER_METADATA_SIZE :: nat where
  "FILTER_METADATA_SIZE = 1"

definition FILTER_STEP :: u32 where
  "FILTER_STEP = 0x9e3779b9"

record bits_builder =
  millibits_per_key :: nat
  num_probes :: nat
  hash_entries :: "u64 list"

definition choose_num_probes :: "nat \<Rightarrow> nat" where
  "choose_num_probes b =
     (if b \<le> 2080 then 1
      else if b \<le> 3580 then 2
      else if b \<le> 5100 then 3
      else if b \<le> 6640 then 4
      else if b \<le> 8300 then 5
      else if b \<le> 10070 then 6
      else if b \<le> 11720 then 7
      else if b \<le> 14001 then 8
      else if b \<le> 16050 then 9
      else if b \<le> 18300 then 10
      else if b \<le> 22001 then 11
      else if b \<le> 25501 then 12
      else if 50000 < b then 24
      else (b - 1) div 2000 - 1)"

definition bits_builder_new :: "nat \<Rightarrow> bits_builder" where
  "bits_builder_new millibits =
     \<lparr>millibits_per_key = millibits, num_probes = choose_num_probes millibits, hash_entries = []\<rparr>"

definition calculate_space :: "bits_builder \<Rightarrow> nat \<Rightarrow> nat" where
  "calculate_space b entries =
     (let cachelines = (if 0 < millibits_per_key b \<and> 0 < entries
            then (entries * millibits_per_key b + 511999) div 512000 else 0)
      in cachelines * 64 + FILTER_METADATA_SIZE)"

definition prepare_hash :: "u32 \<Rightarrow> u32 \<Rightarrow> u32" where
  "prepare_hash h1 len =
     (let product = ucast h1 * (ucast (drop_bit 6 len) :: u64)
      in push_bit 6 (ucast (drop_bit 32 product)))"

text \<open>The loop of \<open>add_hash_prepared\<close> on the slice it is given.\<close>

fun add_hash_prepared :: "u32 \<Rightarrow> nat \<Rightarrow> bytes \<Rightarrow> bytes res" where
  "add_hash_prepared h 0 data = Inr data"
| "add_hash_prepared h (Suc n) data =
     (let bitpos = drop_bit (32 - 9) h; i = unat (drop_bit 3 bitpos)
      in if i < length data
         then add_hash_prepared (h * FILTER_STEP) n
                (data[i := data ! i OR push_bit (unat (bitpos AND 7)) 1])
         else Inl (Panic ''index out of bounds''))"

text \<open>A function applied to \<open>&mut data[offset..]\<close>.\<close>

definition on_suffix :: "nat \<Rightarrow> ('a list \<Rightarrow> 'a list res) \<Rightarrow> 'a list \<Rightarrow> 'a list res" where
  "on_suffix off f data =
     (if off \<le> length data
      then res_bind (f (drop off data)) (\<lambda>d. Inr (take off data @ d))
      else Inl (Panic ''range start index out of range''))"

text \<open>Upper and lower half of a hash, and what \<open>add_all_entries\<close> keeps of an entry.\<close>

definition hash_hi :: "u64 \<Rightarrow> u32" where
  "hash_hi h = ucast (drop_bit 32 h)"

definition hash_lo :: "u64 \<Rightarrow> u32" where
  "hash_lo h = ucast (h AND 0xffffffff)"

definition hash_offset :: "nat \<Rightarrow> u64 \<Rightarrow> u32 \<times> u32" where
  "hash_offset len h = (hash_hi h, prepare_hash (hash_lo h) (of_nat len))"

definition BUFFER_MASK :: nat where
  "BUFFER_MASK = 7"

definition add_offset :: "nat \<Rightarrow> u32 \<times> u32 \<Rightarrow> bytes \<Rightarrow> bytes res" where
  "add_offset probes ho data =
     on_suffix (unat (snd ho)) (add_hash_prepared (fst ho) probes) data"

fun add_rest :: "nat \<Rightarrow> nat \<Rightarrow> nat \<Rightarrow> u64 list \<Rightarrow> (u32 \<times> u32) list \<Rightarrow> bytes
    \<Rightarrow> ((u32 \<times> u32) list \<times> bytes) res" where
  "add_rest probes len i [] buf data = Inr (buf, data)"
| "add_rest probes len i (h # hs) buf data =
     (let j = i AND BUFFER_MASK
      in if j < length buf
         then res_bind (add_offset probes (buf ! j) data) (\<lambda>data'.
                add_rest probes len (Suc i) hs (buf[j := hash_offset len h]) data')
         else Inl (Panic ''index out of bounds''))"

fun add_buffered :: "nat \<Rightarrow> (u32 \<times> u32) list \<Rightarrow> bytes \<Rightarrow> bytes res" where
  "add_buffered probes [] data = Inr data"
| "add_buffered probes (ho # hos) data =
     res_bind (add_offset probes ho data) (add_buffered probes hos)"

definition add_all_entries :: "nat \<Rightarrow> bytes \<Rightarrow> bits_builder \<Rightarrow> (bytes \<times> bits_builder) res" where
  "add_all_entries len data b =
     (let hashes = hash_entries b;
          (first, rest) = (if BUFFER_MASK < length hashes
             then (take (BUFFER_MASK + 1) hashes, drop (BUFFER_MASK + 1) hashes)
             else (hashes, []));
          buf = map (hash_offset len) first
      in res_bind (add_rest (num_probes b) len 0 rest buf data) (\<lambda>(buf', data').
         res_bind (add_buffered (num_probes b) buf' data') (\<lambda>data''.
           Inr (data'', b\<lparr>hash_entries := []\<rparr>))))"

definition bits_add_key :: "wire \<Rightarrow> bytes \<Rightarrow> bits_builder \<Rightarrow> bits_builder" where
  "bits_add_key w key b = b\<lparr>hash_entries := hash_entries b @ [hash64 w key]\<rparr>"

definition bits_seal :: "bits_builder \<Rightarrow> (bytes \<times> bits_builder) res" where
  "bits_seal b =
     (let space = calculate_space b (length (hash_entries b));
          data = replicate space 0;
          data_len = space - FILTER_METADATA_SIZE
      in if space < FILTER_METADATA_SIZE
         then Inl (Panic ''assertion failed: space >= FAST_LOCAL_BLOOM_FILTER_METADATA_SIZE'')
         else res_bind (if 0 < data_len then add_all_entries data_len data b else Inr (data, b))
           (\<lambda>(data', b').
             if data_len < length data'
             then Inr (data'[data_len := of_nat (num_probes b)], b')
             else Inl (Panic ''index out of bounds'')))"

section \<open>Readers\<close>

fun hash_may_match_prepared :: "u32 \<Rightarrow> nat \<Rightarrow> bytes \<Rightarrow> bool res" where
  "hash_may_match_prepared h 0 data = Inr True"
| "hash_may_match_prepared h (Suc n) data =
     (let bitpos = drop_bit (32 - 9) h; i = unat (drop_bit 3 bitpos)
      in if i < length data
         then if data ! i AND push_bit (unat (bitpos AND 7)) 1 = 0 then Inr False
              else hash_may_match_prepared (h * FILTER_STEP) n data
         else Inl (Panic ''index out of bounds''))"

text \<open>
  The AVX2 reader. A lane operation of the instruction set is a map over the lanes:
  \<open>_mm256_loadu_si256\<close> reads eight little-endian words, \<open>_mm256_permutevar8x32_epi32\<close> picks the lane
  named by the low three bits of each index, \<open>_mm256_srai_epi32 (hv, 31)\<close> spreads the sign bit, and
  \<open>_mm256_blendv_epi8\<close> takes a byte of its second operand where the top bit of the selector's byte is
  set, which on such a selector is a choice per lane. Reading fewer than 64 bytes is undefined.
\<close>

definition load_lane :: "bytes \<Rightarrow> nat \<Rightarrow> u32" where
  "load_lane data i = ucast (data ! (4 * i)) OR push_bit 8 (ucast (data ! (4 * i + 1)))
     OR push_bit 16 (ucast (data ! (4 * i + 2))) OR push_bit 24 (ucast (data ! (4 * i + 3)))"

definition loadu_si256 :: "nat \<Rightarrow> bytes \<Rightarrow> u32 list" where
  "loadu_si256 k data = map (\<lambda>i. load_lane data (8 * k + i)) [0..<8]"

definition permutevar8x32 :: "u32 list \<Rightarrow> u32 list \<Rightarrow> u32 list" where
  "permutevar8x32 a idx = map (\<lambda>i. a ! unat (i AND 7)) idx"

definition srai31 :: "u32 \<Rightarrow> u32" where
  "srai31 x = (if bit x 31 then - 1 else 0)"

definition blendv :: "u32 list \<Rightarrow> u32 list \<Rightarrow> u32 list \<Rightarrow> u32 list" where
  "blendv a b sel = map2 (\<lambda>(x, y) s. (x AND NOT s) OR (y AND s)) (zip a b) sel"

definition sllv :: "u32 \<Rightarrow> u32 \<Rightarrow> u32" where
  "sllv x k = (if unat k < 32 then push_bit (unat k) x else 0)"

definition testc :: "u32 list \<Rightarrow> u32 list \<Rightarrow> bool" where
  "testc a b \<longleftrightarrow> list_all2 (\<lambda>x y. NOT x AND y = 0) a b"

definition avx_multipliers :: "u32 list" where
  "avx_multipliers = [0x00000001, 0x9e3779b9, 0xe35e67b1, 0x734297e9, 0x35fbe861, 0xdeb7c719,
     0x448b211, 0x3459b749]"

definition avx_round :: "u32 \<Rightarrow> nat \<Rightarrow> bytes \<Rightarrow> bool" where
  "avx_round h rem_probes data =
     (let hv = map ((*) h) avx_multipliers;
          word_addrs = map (drop_bit 28) hv;
          lower = permutevar8x32 (loadu_si256 0 data) word_addrs;
          upper = permutevar8x32 (loadu_si256 1 data) word_addrs;
          vv = blendv lower upper (map srai31 hv);
          k_selector = map (\<lambda>i. drop_bit 31 (i - of_nat rem_probes)) [0, 1, 2, 3, 4, 5, 6, 7];
          bit_addrs = map (\<lambda>x. drop_bit 27 (push_bit 4 x)) hv;
          bit_mask = map2 sllv k_selector bit_addrs
      in testc vv bit_mask)"

function avx_loop :: "u32 \<Rightarrow> nat \<Rightarrow> bytes \<Rightarrow> bool" where
  "avx_loop h rem_probes data =
     (let t = avx_round h rem_probes data
      in if rem_probes \<le> 8 then t
         else if \<not> t then False
         else avx_loop (h * 0xab25f4c1) (rem_probes - 8) data)"
  by pat_completeness auto
termination
  by (relation "measure (\<lambda>(h, r, d). r)") auto

declare avx_loop.simps [simp del]

definition hash_may_match_prepared_avx2 :: "u32 \<Rightarrow> nat \<Rightarrow> bytes \<Rightarrow> bool res" where
  "hash_may_match_prepared_avx2 h2 probes data =
     (if length data < 64 then Inl Undefined else Inr (avx_loop h2 probes data))"

record bits_reader =
  reader_data :: bytes
  reader_num_probes :: nat

definition get_filter_bits_reader :: "bytes \<Rightarrow> bits_reader res" where
  "get_filter_bits_reader data =
     (let full_len = length data
      in if full_len < FILTER_METADATA_SIZE then Inl (Panic ''attempt to subtract with overflow'')
         else let data_len = full_len - FILTER_METADATA_SIZE
              in Inr \<lparr>reader_data = take data_len data, reader_num_probes = unat (data ! data_len)\<rparr>)"

definition may_match :: "wire \<Rightarrow> bytes \<Rightarrow> bits_reader \<Rightarrow> bool res" where
  "may_match w key r =
     (let h = hash64 w key;
          offset = prepare_hash (hash_lo h) (of_nat (length (reader_data r)))
      in if unat offset \<le> length (reader_data r)
         then hash_may_match_prepared (hash_hi h) (reader_num_probes r)
                (drop (unat offset) (reader_data r))
         else Inl (Panic ''range start index out of range''))"

section \<open>Probe positions\<close>

text \<open>A probe addresses one of the 512 bits of a 64-byte line.\<close>

definition filter_bit :: "bytes \<Rightarrow> nat \<Rightarrow> bool" where
  "filter_bit data p \<longleftrightarrow> bit (data ! (p div 8)) (p mod 8)"

definition probe_bit :: "u32 \<Rightarrow> nat" where
  "probe_bit h = unat h div 2 ^ 23"

fun probe_bits :: "u32 \<Rightarrow> nat \<Rightarrow> nat set" where
  "probe_bits h 0 = {}"
| "probe_bits h (Suc n) = insert (probe_bit h) (probe_bits (h * FILTER_STEP) n)"

lemma probe_bit_less [simp]: "probe_bit h < 512"
proof -
  have "unat h < 2 ^ 32" using unsigned_less [of h] by simp
  then show ?thesis by (simp add: probe_bit_def less_mult_imp_div_less)
qed

lemma probe_bits_less: "p \<in> probe_bits h n \<Longrightarrow> p < 512"
  by (induction h n rule: probe_bits.induct) auto

lemma unat_drop: "unat (drop_bit n h) = unat h div 2 ^ n" for h :: "'a::len word"
  by (simp add: unsigned_drop_bit_eq take_bit_nat_eq_self)
     (simp only: drop_bit_eq_div)

lemma probe_byte: "unat (drop_bit 3 (drop_bit (32 - 9) h)) = probe_bit h div 8" for h :: u32
  by (simp add: unat_drop probe_bit_def div_mult2_eq [symmetric])

lemma probe_byte_less [simp]: "probe_bit h div 8 < 64"
  using probe_bit_less [of h] by linarith

lemma nat_and_7: "(n :: nat) AND 7 = n mod 8"
  using take_bit_eq_mask [of 3 n] by (simp add: take_bit_eq_mod mask_eq_exp_minus_1)

lemma probe_mod: "unat (drop_bit (32 - 9) h AND 7) = probe_bit h mod 8" for h :: u32
  by (simp add: unsigned_and_eq unat_drop probe_bit_def nat_and_7)

lemma filter_bit_set:
  assumes "q < 8 * length data" "p < 8 * length data"
  shows "filter_bit (data[p div 8 := data ! (p div 8) OR push_bit (p mod 8) 1]) q
     \<longleftrightarrow> filter_bit data q \<or> q = p"
proof (cases "q div 8 = p div 8")
  case True
  have "q = p \<longleftrightarrow> q mod 8 = p mod 8" using True by (metis div_mult_mod_eq)
  then show ?thesis
    using True assms by (auto simp: filter_bit_def bit_simps)
next
  case False
  then show ?thesis using assms by (auto simp: filter_bit_def)
qed

lemma and_push_bit_eq_0: "x AND push_bit k 1 = 0 \<longleftrightarrow> \<not> bit x k" for x :: "'a::len word"
  by (simp add: push_bit_of_1 and_exp_eq_0_iff_not_bit)

text \<open>\<open>marks N f S\<close>: on \<open>N\<close> bytes, \<open>f\<close> sets the bits of \<open>S\<close> and no others.\<close>

definition marks :: "nat \<Rightarrow> (bytes \<Rightarrow> bytes res) \<Rightarrow> nat set \<Rightarrow> bool" where
  "marks N f S \<longleftrightarrow> (\<forall>data. length data = N \<longrightarrow> (\<exists>d. f data = Inr d \<and> length d = N \<and>
     (\<forall>q < 8 * N. filter_bit d q \<longleftrightarrow> filter_bit data q \<or> q \<in> S)))"

lemma marks_Inr: "marks N Inr {}"
  by (simp add: marks_def)

lemma marks_bind:
  assumes "marks N f S" "marks N g T"
  shows "marks N (\<lambda>d. res_bind (f d) g) (S \<union> T)"
  unfolding marks_def
proof (intro allI impI)
  fix data :: bytes
  assume "length data = N"
  then obtain d where d: "f data = Inr d" "length d = N"
    "\<forall>q < 8 * N. filter_bit d q \<longleftrightarrow> filter_bit data q \<or> q \<in> S"
    using assms(1) unfolding marks_def by blast
  obtain e where "g d = Inr e" "length e = N"
    "\<forall>q < 8 * N. filter_bit e q \<longleftrightarrow> filter_bit d q \<or> q \<in> T"
    using assms(2) d(2) unfolding marks_def by blast
  then show "\<exists>e. res_bind (f data) g = Inr e \<and> length e = N \<and>
      (\<forall>q < 8 * N. filter_bit e q \<longleftrightarrow> filter_bit data q \<or> q \<in> S \<union> T)"
    using d by auto
qed

lemma marks_set_bit:
  "p < 8 * N \<Longrightarrow>
   marks N (\<lambda>data. Inr (data[p div 8 := data ! (p div 8) OR push_bit (p mod 8) 1])) {p}"
  by (simp add: marks_def filter_bit_set del: push_bit_of_1)

lemma marks_cong:
  "marks N f S \<Longrightarrow> (\<And>data. length data = N \<Longrightarrow> g data = f data) \<Longrightarrow> marks N g S"
  by (simp add: marks_def)

text \<open>Bytes with the same bits are the same; so what a function marks determines its result.\<close>

lemma filter_bit_ext:
  assumes "length xs = length ys" "\<forall>q < 8 * length xs. filter_bit xs q \<longleftrightarrow> filter_bit ys q"
  shows "xs = ys"
proof (rule nth_equalityI [OF assms(1)])
  fix i assume i: "i < length xs"
  show "xs ! i = ys ! i"
  proof (rule bit_word_eqI)
    fix n assume n: "n < LENGTH(8)"
    then have "8 * i + n < 8 * length xs" using i by simp
    then have "filter_bit xs (8 * i + n) \<longleftrightarrow> filter_bit ys (8 * i + n)" using assms(2) by blast
    then show "bit (xs ! i) n \<longleftrightarrow> bit (ys ! i) n" using n by (simp add: filter_bit_def)
  qed
qed

lemma marks_eq:
  assumes f: "marks N f S" and g: "marks N g S" and l: "length data = N"
  shows "f data = g data"
proof -
  obtain d e where d: "f data = Inr d" "length d = N" "g data = Inr e" "length e = N"
      "\<forall>q < 8 * N. filter_bit d q \<longleftrightarrow> filter_bit data q \<or> q \<in> S"
      "\<forall>q < 8 * N. filter_bit e q \<longleftrightarrow> filter_bit data q \<or> q \<in> S"
    using f g l unfolding marks_def by blast
  have "d = e" by (rule filter_bit_ext) (use d in simp_all)
  then show ?thesis using d(1,3) by simp
qed

lemma marks_add_hash:
  "64 \<le> N \<Longrightarrow> marks N (add_hash_prepared h n) (probe_bits h n)"
proof (induction n arbitrary: h)
  case 0
  show ?case using marks_Inr by (simp add: marks_def)
next
  case (Suc n)
  have p: "probe_bit h < 8 * N" using probe_bit_less [of h] Suc.prems by linarith
  have "marks N (\<lambda>d. res_bind (Inr (d[probe_bit h div 8 := d ! (probe_bit h div 8) OR
      push_bit (probe_bit h mod 8) 1])) (add_hash_prepared (h * FILTER_STEP) n))
      ({probe_bit h} \<union> probe_bits (h * FILTER_STEP) n)"
    by (rule marks_bind [OF marks_set_bit [OF p] Suc.IH [OF Suc.prems]])
  then have "marks N (add_hash_prepared h (Suc n)) ({probe_bit h} \<union> probe_bits (h * FILTER_STEP) n)"
  proof (rule marks_cong)
    fix data :: bytes assume "length data = N"
    then have "probe_bit h div 8 < length data"
      using probe_byte_less [of h] Suc.prems by linarith
    then show "add_hash_prepared h (Suc n) data =
        res_bind (Inr (data[probe_bit h div 8 := data ! (probe_bit h div 8) OR
          push_bit (probe_bit h mod 8) 1])) (add_hash_prepared (h * FILTER_STEP) n)"
      unfolding add_hash_prepared.simps Let_def probe_byte probe_mod by simp
  qed
  then show ?case by (simp only: probe_bits.simps insert_is_Un [symmetric])
qed

lemma may_match_prepared_bits:
  assumes "64 \<le> length data"
  shows "hash_may_match_prepared h n data = Inr (\<forall>p\<in>probe_bits h n. filter_bit data p)"
proof (induction n arbitrary: h)
  case (Suc n)
  have "probe_bit h div 8 < length data"
    using assms probe_byte_less [of h] by linarith
  then show ?case
    unfolding hash_may_match_prepared.simps Let_def probe_byte probe_mod and_push_bit_eq_0
    by (simp add: Suc.IH filter_bit_def)
qed simp

section \<open>Lines\<close>

lemma unat_prepare_hash:
  "unat (prepare_hash h1 len) = 64 * (unat h1 * (unat len div 64) div 2 ^ 32)"
proof -
  define L where "L = unat len div 64"
  have len: "unat len < 2 ^ 32" and h: "unat h1 < 2 ^ 32"
    using unsigned_less [of len] unsigned_less [of h1] by simp_all
  have L: "L < 2 ^ 26" using len by (simp add: L_def less_mult_imp_div_less)
  have uL: "unat (drop_bit 6 len) = L"
    by (simp add: L_def unat_drop)
  have prod: "unat h1 * L < 2 ^ 58"
  proof -
    have "unat h1 * L \<le> 2 ^ 32 * L" using h by simp
    also have "\<dots> < 2 ^ 32 * 2 ^ 26" using L by simp
    finally show ?thesis by simp
  qed
  have q: "unat h1 * L div 2 ^ 32 < 2 ^ 26" using prod by (simp add: less_mult_imp_div_less)
  have "unat (ucast h1 * (ucast (drop_bit 6 len) :: u64)) = unat h1 * L"
    using prod h L by (simp add: unat_mult_lem [THEN iffD1] uL unsigned_ucast_eq take_bit_nat_eq_self
        unat_word_ariths take_bit_nat_def)
  then have "unat (ucast (drop_bit 32 (ucast h1 * (ucast (drop_bit 6 len) :: u64))) :: u32)
      = unat h1 * L div 2 ^ 32"
    using q by (simp add: unsigned_ucast_eq unat_drop take_bit_nat_eq_self)
  moreover have "unat (push_bit 6 x) = 64 * unat x" if "unat x < 2 ^ 26" for x :: u32
    using that by (simp add: push_bit_eq_mult unat_word_ariths mult.commute)
  ultimately show ?thesis
    using q by (simp add: prepare_hash_def Let_def L_def del: push_bit_numeral)
qed

text \<open>The bits that entries set in a filter: each its probes, in the line its low half names.\<close>

definition bits_of :: "nat \<Rightarrow> (u32 \<times> u32) list \<Rightarrow> nat set" where
  "bits_of probes hos = (\<Union>ho\<in>set hos. (+) (8 * unat (snd ho)) ` probe_bits (fst ho) probes)"

lemma bits_of_simps [simp]:
  "bits_of probes [] = {}"
  "bits_of probes (ho # hos) = (+) (8 * unat (snd ho)) ` probe_bits (fst ho) probes \<union> bits_of probes hos"
  "bits_of probes (hos @ hos') = bits_of probes hos \<union> bits_of probes hos'"
  by (auto simp: bits_of_def)

text \<open>A filter's data is a positive number of lines; the lines start inside it.\<close>

definition lines_ok :: "nat \<Rightarrow> bool" where
  "lines_ok len \<longleftrightarrow> 0 < len \<and> 64 dvd len"

lemma prepare_hash_line:
  assumes "lines_ok len"
  shows "unat (prepare_hash h1 (of_nat len)) + 64 \<le> len"
proof -
  obtain c where c: "len = 64 * c" "0 < c" using assms by (auto simp: lines_ok_def)
  define L where "L = unat (of_nat len :: u32) div 64"
  have "unat (of_nat len :: u32) \<le> len"
    by (simp add: unat_of_nat take_bit_nat_eq_self_iff)
  then have Lc: "L \<le> c" using c by (simp add: L_def div_le_mono [of _ "64 * c" 64, simplified])
  have "unat h1 * L div 2 ^ 32 < c"
  proof (cases "L = 0")
    case False
    have "unat h1 < 2 ^ 32" using unsigned_less [of h1] by simp
    then have "unat h1 * L < 2 ^ 32 * L" using False by simp
    then have "unat h1 * L div 2 ^ 32 < L" by (simp add: less_mult_imp_div_less mult.commute)
    then show ?thesis using Lc by simp
  qed (use c in simp)
  moreover have "unat (prepare_hash h1 (of_nat len)) = 64 * (unat h1 * L div 2 ^ 32)"
    by (simp add: unat_prepare_hash L_def)
  ultimately show ?thesis using c(1) by linarith
qed

lemma filter_bit_drop:
  assumes "off \<le> length data"
  shows "filter_bit (drop off data) q \<longleftrightarrow> filter_bit data (8 * off + q)"
  using assms by (simp add: filter_bit_def)

lemma marks_on_suffix:
  assumes m: "marks (N - off) f S" and off: "off \<le> N" and S: "\<forall>q\<in>S. q < 8 * (N - off)"
  shows "marks N (on_suffix off f) ((+) (8 * off) ` S)"
  unfolding marks_def
proof (intro allI impI)
  fix data :: bytes
  assume l: "length data = N"
  then obtain d where d: "f (drop off data) = Inr d" "length d = N - off"
      "\<forall>q < 8 * (N - off). filter_bit d q \<longleftrightarrow> filter_bit (drop off data) q \<or> q \<in> S"
    using m off unfolding marks_def by (metis length_drop)
  have "filter_bit (take off data @ d) q \<longleftrightarrow> filter_bit data q \<or> q \<in> (+) (8 * off) ` S"
    if q: "q < 8 * N" for q
  proof (cases "q div 8 < off")
    case True
    then have "q < 8 * off" by linarith
    then show ?thesis using True l off by (auto simp: filter_bit_def nth_append)
  next
    case False
    then obtain r where r: "q = 8 * off + r" using nat_le_iff_add [of "8 * off" q] by auto
    have "filter_bit (take off data @ d) q \<longleftrightarrow> filter_bit d r"
      using l off by (simp add: r filter_bit_def nth_append)
    also have "\<dots> \<longleftrightarrow> filter_bit (drop off data) r \<or> r \<in> S"
      using d(3) q r by auto
    finally show ?thesis
      using filter_bit_drop [of off data r] l off by (auto simp: r)
  qed
  then show "\<exists>d. on_suffix off f data = Inr d \<and> length d = N \<and>
      (\<forall>q < 8 * N. filter_bit d q \<longleftrightarrow> filter_bit data q \<or> q \<in> (+) (8 * off) ` S)"
    using d l off by (auto simp: on_suffix_def)
qed

lemma marks_add_offset:
  assumes "unat (snd ho) + 64 \<le> N"
  shows "marks N (add_offset probes ho) ((+) (8 * unat (snd ho)) ` probe_bits (fst ho) probes)"
proof -
  have "marks N (on_suffix (unat (snd ho)) (add_hash_prepared (fst ho) probes))
      ((+) (8 * unat (snd ho)) ` probe_bits (fst ho) probes)"
  proof (rule marks_on_suffix [OF marks_add_hash])
    show "\<forall>q\<in>probe_bits (fst ho) probes. q < 8 * (N - unat (snd ho))"
      using assms probe_bits_less by fastforce
  qed (use assms in simp_all)
  then show ?thesis by (rule marks_cong) (simp add: add_offset_def)
qed

definition in_lines :: "nat \<Rightarrow> (u32 \<times> u32) list \<Rightarrow> bool" where
  "in_lines N hos \<longleftrightarrow> (\<forall>ho\<in>set hos. unat (snd ho) + 64 \<le> N)"

lemma marks_add_buffered:
  "in_lines N hos \<Longrightarrow> marks N (add_buffered probes hos) (bits_of probes hos)"
proof (induction hos)
  case Nil
  then show ?case using marks_Inr by (simp add: marks_def)
next
  case (Cons ho hos)
  have "marks N (add_buffered probes hos) (bits_of probes hos)"
    using Cons by (simp add: in_lines_def)
  then show ?case
    using marks_bind [OF marks_add_offset [of ho N probes]] Cons.prems by (simp add: in_lines_def)
qed

text \<open>
  The pipeline holds back eight entries: what \<open>add_rest\<close> has set, together with what is still in
  the buffer, is what was there before, with the entries it consumed.
\<close>

lemma add_rest_marks:
  assumes "length buf = 8" "in_lines N buf" "in_lines N (map (hash_offset len) hs)" "length data = N"
  shows "\<exists>buf' data'. add_rest probes len i hs buf data = Inr (buf', data') \<and> in_lines N buf' \<and>
    length data' = N \<and>
    (\<forall>q < 8 * N. filter_bit data' q \<or> q \<in> bits_of probes buf' \<longleftrightarrow>
       filter_bit data q \<or> q \<in> bits_of probes buf \<union> bits_of probes (map (hash_offset len) hs))"
  using assms
proof (induction hs arbitrary: i buf data)
  case (Cons h hs)
  define j where "j = i AND BUFFER_MASK"
  have j: "j < length buf" using Cons.prems(1) by (simp add: j_def BUFFER_MASK_def nat_and_7)
  have in_j: "unat (snd (buf ! j)) + 64 \<le> N" using Cons.prems(2) j by (simp add: in_lines_def)
  obtain data1 where d1: "add_offset probes (buf ! j) data = Inr data1" "length data1 = N"
    "\<forall>q < 8 * N. filter_bit data1 q \<longleftrightarrow> filter_bit data q \<or>
       q \<in> (+) (8 * unat (snd (buf ! j))) ` probe_bits (fst (buf ! j)) probes"
    using marks_add_offset [OF in_j, of probes] Cons.prems(4) unfolding marks_def by blast
  let ?buf = "buf[j := hash_offset len h]"
  have lines: "in_lines N ?buf" "in_lines N (map (hash_offset len) hs)"
    using Cons.prems(2,3) set_update_subset_insert [of buf j "hash_offset len h"]
    by (auto simp: in_lines_def)
  obtain buf' data' where r: "add_rest probes len (Suc i) hs ?buf data1 = Inr (buf', data')"
    "in_lines N buf'" "length data' = N"
    "\<forall>q < 8 * N. filter_bit data' q \<or> q \<in> bits_of probes buf' \<longleftrightarrow> filter_bit data1 q \<or>
       q \<in> bits_of probes ?buf \<union> bits_of probes (map (hash_offset len) hs)"
    using Cons.IH [of ?buf data1 "Suc i"] Cons.prems(1) lines d1(2) by auto
  have buf: "buf = take j buf @ buf ! j # drop (Suc j) buf"
    and upd: "?buf = take j buf @ hash_offset len h # drop (Suc j) buf"
    using j by (simp_all add: id_take_nth_drop [symmetric] upd_conv_take_nth_drop)
  have "bits_of probes buf = bits_of probes (take j buf) \<union> bits_of probes (drop (Suc j) buf) \<union>
      (+) (8 * unat (snd (buf ! j))) ` probe_bits (fst (buf ! j)) probes"
    by (subst buf) (simp add: Un_ac)
  moreover have "bits_of probes ?buf = bits_of probes (take j buf) \<union> bits_of probes (drop (Suc j) buf) \<union>
      bits_of probes [hash_offset len h]"
    by (subst upd) (simp add: Un_ac)
  ultimately show ?case
    using r d1 j by (auto simp: j_def [symmetric])
qed simp

lemma marks_all_entries:
  assumes "lines_ok len" "len \<le> N"
  shows "marks N (\<lambda>data. res_bind (add_all_entries len data b) (\<lambda>(d, b'). Inr d))
           (bits_of (num_probes b) (map (hash_offset len) (hash_entries b)))"
  unfolding marks_def
proof (intro allI impI)
  fix data :: bytes
  assume l: "length data = N"
  let ?hs = "hash_entries b" and ?n = "num_probes b"
  have lines: "in_lines N (map (hash_offset len) hs)" for hs
    using assms prepare_hash_line [OF assms(1)]
    by (auto simp: in_lines_def hash_offset_def intro: order_trans)
  define first where "first = (if 7 < length ?hs then take 8 ?hs else ?hs)"
  define rest where "rest = (if 7 < length ?hs then drop 8 ?hs else [])"
  have split: "?hs = first @ rest" by (simp add: first_def rest_def)
  obtain buf' data' where r: "add_rest ?n len 0 rest (map (hash_offset len) first) data = Inr (buf', data')"
    "in_lines N buf'" "length data' = N"
    "\<forall>q < 8 * N. filter_bit data' q \<or> q \<in> bits_of ?n buf' \<longleftrightarrow> filter_bit data q \<or>
       q \<in> bits_of ?n (map (hash_offset len) first) \<union> bits_of ?n (map (hash_offset len) rest)"
  proof (cases "rest = []")
    case True
    then show ?thesis using that [of "map (hash_offset len) first" data] lines l by simp
  next
    case False
    then have "length first = 8" by (auto simp: first_def rest_def split: if_splits)
    then show ?thesis
      using that add_rest_marks [of "map (hash_offset len) first" N len rest data ?n 0] lines l by auto
  qed
  obtain d where d: "add_buffered ?n buf' data' = Inr d" "length d = N"
    "\<forall>q < 8 * N. filter_bit d q \<longleftrightarrow> filter_bit data' q \<or> q \<in> bits_of ?n buf'"
    using marks_add_buffered [OF r(2), of ?n] r(3) unfolding marks_def by blast
  have "add_all_entries len data b = Inr (d, b\<lparr>hash_entries := []\<rparr>)"
    using r(1) d(1)
    by (cases "7 < length ?hs") (simp_all add: add_all_entries_def BUFFER_MASK_def first_def rest_def Let_def)
  then show "\<exists>d. res_bind (add_all_entries len data b) (\<lambda>(d, b'). Inr d) = Inr d \<and> length d = N \<and>
      (\<forall>q < 8 * N. filter_bit d q \<longleftrightarrow>
         filter_bit data q \<or> q \<in> bits_of ?n (map (hash_offset len) ?hs))"
    using d r(4) by (simp add: split)
qed

section \<open>The filter as a whole\<close>

lemma choose_num_probes_range: "1 \<le> choose_num_probes m \<and> choose_num_probes m \<le> 24"
proof -
  have "11 \<le> (m - 1) div 2000 - 1" "(m - 1) div 2000 - 1 \<le> 24" if "25501 < m" "m \<le> 50000"
    using that div_le_mono [of 24000 "m - 1" 2000] div_le_mono [of "m - 1" 49999 2000] by simp_all
  then show ?thesis by (auto simp: choose_num_probes_def)
qed

lemma bits_add_keys:
  "fold (bits_add_key w) keys b = b\<lparr>hash_entries := hash_entries b @ map (hash64 w) keys\<rparr>"
  by (induction keys arbitrary: b) (simp_all add: bits_add_key_def)

definition line_bytes :: "nat \<Rightarrow> nat \<Rightarrow> nat" where
  "line_bytes millibits entries =
     (if 0 < millibits \<and> 0 < entries then (entries * millibits + 511999) div 512000 * 64 else 0)"

lemma calculate_space_lines: "calculate_space b n = line_bytes (millibits_per_key b) n + 1"
  by (simp add: calculate_space_def line_bytes_def FILTER_METADATA_SIZE_def)

lemma line_bytes_ok: "0 < m \<Longrightarrow> 0 < n \<Longrightarrow> lines_ok (line_bytes m n)"
proof -
  assume "0 < m" "0 < n"
  then have "1 \<le> n * m" by (simp add: Suc_leI)
  then have "512000 \<le> n * m + 511999" by simp
  then have "0 < (n * m + 511999) div 512000" by (simp add: div_greater_zero_iff)
  then show ?thesis using \<open>0 < m\<close> \<open>0 < n\<close> by (simp add: lines_ok_def line_bytes_def)
qed

lemma filter_bit_replicate: "q < 8 * n \<Longrightarrow> \<not> filter_bit (replicate n 0) q"
  by (simp add: filter_bit_def)

lemma filter_bit_update_last:
  "q < 8 * n \<Longrightarrow> filter_bit (d[n := x]) q \<longleftrightarrow> filter_bit d q"
  by (simp add: filter_bit_def)

lemma filter_bit_take: "q < 8 * n \<Longrightarrow> filter_bit (take n d) q \<longleftrightarrow> filter_bit d q"
  by (simp add: filter_bit_def)

lemma seal_bits:
  assumes m: "0 < millibits_per_key b" and ne: "hash_entries b \<noteq> []" and n: "num_probes b < 256"
  defines "len \<equiv> line_bytes (millibits_per_key b) (length (hash_entries b))"
  shows "\<exists>data b' r. bits_seal b = Inr (data, b') \<and> get_filter_bits_reader data = Inr r \<and>
     length (reader_data r) = len \<and> reader_num_probes r = num_probes b \<and>
     (\<forall>q < 8 * len. filter_bit (reader_data r) q \<longleftrightarrow>
        q \<in> bits_of (num_probes b) (map (hash_offset len) (hash_entries b)))"
proof -
  have lok: "lines_ok len" using line_bytes_ok m ne by (simp add: len_def)
  obtain d b' where d: "add_all_entries len (replicate (Suc len) 0) b = Inr (d, b')" "length d = Suc len"
    "\<forall>q < 8 * Suc len. filter_bit d q \<longleftrightarrow> filter_bit (replicate (Suc len) 0) q \<or>
       q \<in> bits_of (num_probes b) (map (hash_offset len) (hash_entries b))"
  proof -
    have "marks (Suc len) (\<lambda>data. res_bind (add_all_entries len data b) (\<lambda>(d, b'). Inr d))
        (bits_of (num_probes b) (map (hash_offset len) (hash_entries b)))"
      by (rule marks_all_entries [OF lok]) simp
    from this [unfolded marks_def, rule_format, of "replicate (Suc len) 0"] show ?thesis
      using that by (auto simp: res_bind_eq_Inr)
  qed
  have sp: "calculate_space b (length (hash_entries b)) = Suc len"
    by (simp add: calculate_space_lines len_def)
  have "bits_seal b = Inr (d[len := of_nat (num_probes b)], b')"
    using lok d(1,2) by (simp add: bits_seal_def sp FILTER_METADATA_SIZE_def lines_ok_def)
  moreover have "get_filter_bits_reader (d[len := of_nat (num_probes b)]) =
      Inr \<lparr>reader_data = take len d, reader_num_probes = num_probes b\<rparr>"
    using d(2) n by (simp add: get_filter_bits_reader_def FILTER_METADATA_SIZE_def unat_of_nat
        take_bit_nat_eq_self)
  ultimately show ?thesis
    using d(2,3) filter_bit_replicate [of _ "Suc len"] by (auto simp: filter_bit_take)
qed

lemma may_match_bits:
  assumes "lines_ok (length (reader_data r))"
  shows "may_match w key r = Inr (\<forall>q \<in> bits_of (reader_num_probes r)
     [hash_offset (length (reader_data r)) (hash64 w key)]. filter_bit (reader_data r) q)"
proof -
  let ?d = "reader_data r"
  define off where "off = unat (prepare_hash (hash_lo (hash64 w key)) (of_nat (length ?d)))"
  have off: "off + 64 \<le> length ?d"
    using prepare_hash_line [OF assms] by (simp add: off_def)
  have "may_match w key r = hash_may_match_prepared (hash_hi (hash64 w key)) (reader_num_probes r) (drop off ?d)"
    using off by (simp add: may_match_def off_def [symmetric])
  also have "\<dots> = Inr (\<forall>p\<in>probe_bits (hash_hi (hash64 w key)) (reader_num_probes r). filter_bit (drop off ?d) p)"
    using off by (intro may_match_prepared_bits) simp
  finally show ?thesis
    using off by (simp add: hash_offset_def off_def [symmetric] filter_bit_drop)
qed

definition bloom_seal :: "wire \<Rightarrow> nat \<Rightarrow> bytes list \<Rightarrow> (bytes \<times> bits_builder) res" where
  "bloom_seal w millibits keys = bits_seal (fold (bits_add_key w) keys (bits_builder_new millibits))"

lemma bloom_reads:
  assumes "0 < millibits" "keys \<noteq> []"
  shows "\<exists>data b' r. bloom_seal w millibits keys = Inr (data, b') \<and>
     get_filter_bits_reader data = Inr r \<and>
     (\<forall>key. \<exists>ans. may_match w key r = Inr ans \<and> (key \<in> set keys \<longrightarrow> ans))"
proof -
  define b where "b = fold (bits_add_key w) keys (bits_builder_new millibits)"
  define len where "len = line_bytes millibits (length keys)"
  have b: "millibits_per_key b = millibits" "hash_entries b = map (hash64 w) keys" "num_probes b < 256"
    using choose_num_probes_range [of millibits]
    by (simp_all add: b_def bits_add_keys bits_builder_new_def)
  have lok: "lines_ok len" using assms line_bytes_ok by (simp add: len_def)
  obtain data b' r where r: "bits_seal b = Inr (data, b')" "get_filter_bits_reader data = Inr r"
     "length (reader_data r) = len" "reader_num_probes r = num_probes b"
     "\<forall>q < 8 * len. filter_bit (reader_data r) q \<longleftrightarrow>
        q \<in> bits_of (num_probes b) (map (hash_offset len) (hash_entries b))"
    using seal_bits [of b] assms b by (auto simp: len_def)
  have "filter_bit (reader_data r) q"
    if k: "key \<in> set keys" and q: "q \<in> bits_of (num_probes b) [hash_offset len (hash64 w key)]" for key q
  proof -
    have "q < 8 * len"
      using q prepare_hash_line [OF lok, of "hash_lo (hash64 w key)"]
      by (auto simp: hash_offset_def dest!: probe_bits_less)
    moreover have "q \<in> bits_of (num_probes b) (map (hash_offset len) (hash_entries b))"
      using k q by (auto simp: bits_of_def b(2))
    ultimately show ?thesis using r(5) by blast
  qed
  then show ?thesis
    using r(1,2,3,4) may_match_bits [of r w] lok by (auto simp: bloom_seal_def b_def [symmetric])
qed

section \<open>The AVX2 reader\<close>

text \<open>The eight multipliers are the powers of the step, and a round's factor is its eighth power.\<close>

lemma avx_multipliers_powers: "avx_multipliers = map (\<lambda>i. FILTER_STEP ^ i) [0, 1, 2, 3, 4, 5, 6, 7]"
  by (simp add: avx_multipliers_def FILTER_STEP_def)

lemma avx_step: "(0xab25f4c1 :: u32) = FILTER_STEP ^ 8"
  by (simp add: FILTER_STEP_def)

lemma probe_bits_powers: "probe_bits h n = (\<lambda>k. probe_bit (h * FILTER_STEP ^ k)) ` {..<n}"
proof (induction n arbitrary: h)
  case (Suc n)
  have "(\<lambda>k. probe_bit (h * FILTER_STEP ^ k)) ` {..<Suc n}
      = insert (probe_bit h) ((\<lambda>k. probe_bit (h * FILTER_STEP ^ Suc k)) ` {..<n})"
    by (simp add: lessThan_Suc_eq_insert_0 image_image)
  also have "\<dots> = probe_bits h (Suc n)"
    using Suc [of "h * FILTER_STEP"] by (simp add: mult.assoc)
  finally show ?case by simp
qed simp

lemma probe_bits_add:
  "probe_bits h (m + n) = probe_bits h m \<union> probe_bits (h * FILTER_STEP ^ m) n"
  by (induction m arbitrary: h) (simp_all add: mult.assoc)

lemma bit_load_lane:
  assumes "k < 32"
  shows "bit (load_lane data i) k = bit (data ! (4 * i + k div 8)) (k mod 8)"
proof -
  consider "k < 8" | "8 \<le> k \<and> k < 16" | "16 \<le> k \<and> k < 24" | "24 \<le> k"
    by linarith
  then show ?thesis
  proof cases
    case 1
    then show ?thesis by (simp add: load_lane_def bit_simps)
  next
    case 2
    then have "k div 8 = 1" "k mod 8 = k - 8" by presburger+
    with 2 assms show ?thesis by (auto simp: load_lane_def bit_simps dest: bit_imp_le_length)
  next
    case 3
    then have "k div 8 = 2" "k mod 8 = k - 16" by presburger+
    with 3 assms show ?thesis by (auto simp: load_lane_def bit_simps dest: bit_imp_le_length)
  next
    case 4
    then have "k div 8 = 3" "k mod 8 = k - 24" using assms by presburger+
    with 4 assms show ?thesis by (auto simp: load_lane_def bit_simps dest: bit_imp_le_length)
  qed
qed

text \<open>One lane: the word it selects and the bit it tests are those of the probe.\<close>

lemma lane_select:
  assumes "length data \<ge> 64"
  shows "(loadu_si256 0 data ! unat (drop_bit 28 x AND 7) AND NOT (srai31 x))
      OR (loadu_si256 1 data ! unat (drop_bit 28 x AND 7) AND srai31 x)
    = load_lane data (probe_bit x div 32)" (is "?l = _")
proof -
  define p where "p = probe_bit x"
  have p: "p < 512" "unat (drop_bit 28 x AND 7) = p div 32 mod 8"
    by (simp add: p_def) (simp add: p_def unsigned_and_eq unat_drop nat_and_7 probe_bit_def div_mult2_eq [symmetric])
  have "bit x 31 \<longleftrightarrow> 2 ^ 31 \<le> unat x"
  proof -
    have "bit x 31 \<longleftrightarrow> odd (unat x div 2 ^ 31)"
      using bit_iff_odd [of "unat x" 31] by (simp add: bit_unsigned_iff)
    moreover have "unat x div 2 ^ 31 < 2"
      using unsigned_less [of x, where ?'a = nat] by (simp add: less_mult_imp_div_less)
    moreover have "odd q \<longleftrightarrow> 0 < q" if "q < 2" for q :: nat
      using less_2_cases [OF that] by auto
    ultimately show ?thesis by (simp add: div_greater_zero_iff)
  qed
  also have "\<dots> \<longleftrightarrow> 256 \<le> p"
    using unsigned_less [of x, where ?'a = nat] by (auto simp: p_def probe_bit_def less_eq_div_iff_mult_less_eq)
  finally have b: "bit x 31 \<longleftrightarrow> 256 \<le> p" .
  have l: "loadu_si256 k data ! (p div 32 mod 8) = load_lane data (8 * k + p div 32 mod 8)" for k
    by (simp add: loadu_si256_def)
  show ?thesis
  proof (cases "256 \<le> p")
    case True
    then have "8 \<le> p div 32" "p div 32 < 16"
      using p(1) div_le_mono [of 256 p 32] by (simp_all add: less_mult_imp_div_less)
    then have "8 + p div 32 mod 8 = p div 32" by (simp add: le_mod_geq)
    then show ?thesis using True b l [of 1] by (simp add: p(2) srai31_def p_def [symmetric])
  next
    case False
    then have "p div 32 mod 8 = p div 32" by simp
    then show ?thesis using False b l [of 0] by (simp add: p(2) srai31_def p_def [symmetric])
  qed
qed

lemma k_selector_lane:
  assumes "i < 8" "rem < 2 ^ 31"
  shows "drop_bit 31 (of_nat i - of_nat rem :: u32) = (if i < rem then 1 else 0)"
proof -
  have u: "unat (of_nat i :: u32) = i" "unat (of_nat rem :: u32) = rem"
    using assms by (simp_all add: unat_of_nat take_bit_nat_eq_self)
  have "unat (of_nat i - of_nat rem :: u32) div 2 ^ 31 = (if i < rem then 1 else 0)"
  proof (cases "i < rem")
    case True
    then have "unat (of_nat i - of_nat rem :: u32) = i + 2 ^ 32 - rem"
      using u by (simp add: unat_sub_if')
    moreover have "(i + 2 ^ 32 - rem) div 2 ^ 31 = 1"
      by (rule div_nat_eqI) (use True assms in simp_all)
    ultimately show ?thesis using True by simp
  next
    case False
    then have "unat (of_nat i - of_nat rem :: u32) = i - rem"
      using u by (simp add: unat_sub_if' word_le_nat_alt)
    then show ?thesis using False assms(1) by simp
  qed
  then show ?thesis by (simp add: word_unat_eq_iff unat_drop split: if_splits)
qed

lemma bit_addr_lane: "unat (drop_bit 27 (push_bit 4 x)) = probe_bit x mod 32" for x :: u32
proof -
  have "unat (push_bit 4 x) = unat x * 16 mod 2 ^ 32"
    by (simp add: push_bit_eq_mult unat_word_ariths)
  then have "unat (drop_bit 27 (push_bit 4 x)) = unat x * 16 mod 2 ^ 32 div 2 ^ 27"
    by (simp add: unat_drop del: push_bit_numeral)
  also have "unat x * 16 mod 2 ^ 32 = (unat x mod 2 ^ 28) * 16"
    using mult_mod_left [of "unat x" "2 ^ 28" 16] by simp
  also have "\<dots> div 2 ^ 27 = unat x mod (2 ^ 23 * 32) div 2 ^ 23"
    using div_mult_mult2 [of 16 "unat x mod 2 ^ 28" "2 ^ 23"] by simp
  also have "\<dots> = probe_bit x mod 32"
    unfolding probe_bit_def mod_mult2_eq by simp
  finally show ?thesis .
qed

lemma not_and_push_bit_eq_0: "NOT x AND push_bit k 1 = 0 \<longleftrightarrow> bit x k"
  if "k < LENGTH('a)" for x :: "'a::len word"
  using that by (simp only: and_push_bit_eq_0) (simp add: bit_not_iff)

lemma filter_bit_lane: "filter_bit data p \<longleftrightarrow> bit (load_lane data (p div 32)) (p mod 32)"
proof -
  have "p = p mod 32 + 4 * (p div 32) * 8" by simp
  then have "p div 8 = 4 * (p div 32) + p mod 32 div 8"
    by (metis add.commute div_mult_self1 zero_neq_numeral)
  moreover have "p mod 32 mod 8 = p mod 8" by (simp add: mod_mod_cancel)
  ultimately show ?thesis by (simp add: filter_bit_def bit_load_lane)
qed

lemma avx_lane:
  assumes "64 \<le> length data" "rem < 2 ^ 31" "i < 8"
  shows "NOT ((permutevar8x32 (loadu_si256 0 data) [drop_bit 28 x] ! 0 AND NOT (srai31 x))
        OR (permutevar8x32 (loadu_si256 1 data) [drop_bit 28 x] ! 0 AND srai31 x))
      AND sllv (drop_bit 31 (of_nat i - of_nat rem)) (drop_bit 27 (push_bit 4 x)) = 0
    \<longleftrightarrow> (i < rem \<longrightarrow> filter_bit data (probe_bit x))"
proof -
  have "sllv (drop_bit 31 (of_nat i - of_nat rem)) (drop_bit 27 (push_bit 4 x)) =
      (if i < rem then push_bit (probe_bit x mod 32) 1 else 0)"
    unfolding k_selector_lane [OF assms(3,2)] sllv_def bit_addr_lane by simp
  then show ?thesis
    using lane_select [OF assms(1), of x]
    by (simp add: permutevar8x32_def filter_bit_lane not_and_push_bit_eq_0 del: push_bit_of_1)
qed

lemma avx_round_bits:
  assumes "64 \<le> length data" "rem < 2 ^ 31"
  shows "avx_round h rem data \<longleftrightarrow> (\<forall>p\<in>probe_bits h (min 8 rem). filter_bit data p)"
proof -
  let ?x = "\<lambda>i. h * FILTER_STEP ^ i"
  have lanes: "[0..<8] = [0, 1, 2, 3, 4, 5, 6, 7]"
    by (simp add: upt_conv_Cons)
  have hv: "map ((*) h) avx_multipliers = map ?x [0..<8]"
    by (simp add: avx_multipliers_powers lanes)
  have ks: "[0, 1, 2, 3, 4, 5, 6, 7] = map (of_nat :: nat \<Rightarrow> u32) [0..<8]"
    by (simp add: lanes)
  have "avx_round h rem data \<longleftrightarrow> (\<forall>i<8. i < rem \<longrightarrow> filter_bit data (probe_bit (?x i)))"
    unfolding avx_round_def Let_def hv ks testc_def list_all2_conv_all_nth
    using avx_lane [OF assms]
    by (simp add: blendv_def permutevar8x32_def del: upt_rec_numeral push_bit_numeral)
  also have "\<dots> \<longleftrightarrow> (\<forall>p\<in>probe_bits h (min 8 rem). filter_bit data p)"
    by (auto simp: probe_bits_powers)
  finally show ?thesis .
qed

lemma avx_loop_bits:
  assumes "64 \<le> length data" "n < 2 ^ 31"
  shows "avx_loop h n data \<longleftrightarrow> (\<forall>p\<in>probe_bits h n. filter_bit data p)"
  using assms
proof (induction h n data rule: avx_loop.induct)
  case (1 h n data)
  show ?case
  proof (cases "n \<le> 8")
    case True
    then show ?thesis using avx_round_bits [OF 1(2,3), of h] by (simp add: avx_loop.simps [of h])
  next
    case False
    have "probe_bits h n = probe_bits h 8 \<union> probe_bits (h * 0xab25f4c1) (n - 8)"
      using probe_bits_add [of h 8 "n - 8"] False unfolding avx_step by simp
    then show ?thesis
      using False 1 avx_round_bits [OF 1(2,3), of h] by (subst avx_loop.simps) (auto simp: Let_def)
  qed
qed

text \<open>
  C37: the AVX2 reader is the portable one. On at least one line of data and up to 255 probes (the
  number is one byte of the filter), the vector code returns what the loop over single bits returns.
\<close>
theorem avx2_reader_is_portable:
  "\<lbrakk>64 \<le> length data; probes \<le> 255\<rbrakk> \<Longrightarrow>
   hash_may_match_prepared_avx2 h probes data = hash_may_match_prepared h probes data"
  by (simp add: hash_may_match_prepared_avx2_def avx_loop_bits may_match_prepared_bits)

theorem avx2_reader_is_portable_witness:
  "hash_may_match_prepared_avx2 0xdeadbeef 13 (replicate 64 255)
     = hash_may_match_prepared 0xdeadbeef 13 (replicate 64 255)"
  using avx2_reader_is_portable [of "replicate 64 255" 13 "0xdeadbeef"] by simp

section \<open>Properties\<close>

text \<open>
  C35: a Bloom filter has no false negatives. For every positive number of bits per key, every
  non-empty list of keys and every hash function, sealing and reading the filter succeed, a lookup
  never leaves the data, and a key that was added matches.
\<close>
theorem bloom_no_false_negative:
  "\<lbrakk>0 < millibits; keys \<noteq> []\<rbrakk> \<Longrightarrow>
   \<exists>data b' r. bloom_seal w millibits keys = Inr (data, b') \<and> get_filter_bits_reader data = Inr r \<and>
     (\<forall>key. \<exists>ans. may_match w key r = Inr ans \<and> (key \<in> set keys \<longrightarrow> ans))"
  by (rule bloom_reads)

theorem bloom_no_false_negative_witness:
  "\<exists>data b' r. bloom_seal std_wire 10000 [[97], [98, 99]] = Inr (data, b') \<and>
     get_filter_bits_reader data = Inr r \<and> may_match std_wire [98, 99] r = Inr True"
  using bloom_no_false_negative [of 10000 "[[97], [98, 99]]" std_wire] by fastforce

text \<open>
  C36: the buffered insertion is the plain one. \<open>add_all_entries\<close>, which holds back eight hashed
  entries to spread the memory accesses, writes the same filter as adding the entries one by one.
\<close>
theorem add_all_entries_unbuffered:
  "\<lbrakk>lines_ok len; len \<le> length data\<rbrakk> \<Longrightarrow>
   res_bind (add_all_entries len data b) (\<lambda>(d, b'). Inr d)
     = add_buffered (num_probes b) (map (hash_offset len) (hash_entries b)) data"
  using prepare_hash_line [of len]
  by (intro marks_eq [OF marks_all_entries marks_add_buffered refl])
     (auto simp: in_lines_def hash_offset_def intro: order_trans)

theorem add_all_entries_unbuffered_witness:
  "res_bind (add_all_entries 128 (replicate 129 0) (bits_builder_new 10000\<lparr>hash_entries := [7, 2 ^ 40 + 9]\<rparr>))
       (\<lambda>(d, b'). Inr d)
     = add_buffered 6 [hash_offset 128 7, hash_offset 128 (2 ^ 40 + 9)] (replicate 129 0)"
  using add_all_entries_unbuffered [of 128 "replicate 129 0"
      "bits_builder_new 10000\<lparr>hash_entries := [7, 2 ^ 40 + 9]\<rparr>"]
  by (simp add: lines_ok_def bits_builder_new_def choose_num_probes_def)

text \<open>
  C38: zero bits per key. A policy built with no bits per key makes a filter of one byte, on
  which every lookup panics with an index out of bounds.
\<close>
theorem zero_bits_filter_panics:
  "\<exists>data b' r. bloom_seal w 0 keys = Inr (data, b') \<and> get_filter_bits_reader data = Inr r \<and>
     may_match w key r = Inl (Panic ''index out of bounds'')"
proof -
  define b where "b = fold (bits_add_key w) keys (bits_builder_new 0)"
  have b: "millibits_per_key b = 0" "num_probes b = 1"
    by (simp_all add: b_def bits_add_keys bits_builder_new_def choose_num_probes_def)
  have "bits_seal b = Inr ([1], b)"
    by (simp add: bits_seal_def calculate_space_lines line_bytes_def b FILTER_METADATA_SIZE_def)
  moreover have "hash_may_match_prepared h (Suc 0) [] = Inl (Panic ''index out of bounds'')" for h
    by (simp add: Let_def)
  ultimately show ?thesis
    by (simp add: bloom_seal_def b_def [symmetric] get_filter_bits_reader_def FILTER_METADATA_SIZE_def
        may_match_def unat_prepare_hash del: hash_may_match_prepared.simps)
qed

end
