(* ===== verification/Filter_Block.thy ===== *)
theory Filter_Block
  imports Bloom
begin

text \<open>
  The filter block of a table, \<open>src/src/block/filter.rs\<close>. Its builder and reader reach the filter
  through the traits \<open>FilterPolicy\<close>, \<open>FilterBitsBuilder\<close> and \<open>FilterBitsReader\<close>: the record
  \<open>filter_policy\<close> holds their functions, the locale \<open>filter_contract\<close> what a table relies on, and
  the Bloom filter is the interpretation.
\<close>

section \<open>The traits\<close>

record 'b filter_policy =
  fp_builder :: 'b
  fp_add_key :: "bytes \<Rightarrow> 'b \<Rightarrow> 'b"
  fp_seal :: "'b \<Rightarrow> (bytes \<times> 'b) res"
  fp_may_match :: "bytes \<Rightarrow> bytes \<Rightarrow> bool res"

definition bloom_policy :: "wire \<Rightarrow> nat \<Rightarrow> bits_builder filter_policy" where
  "bloom_policy w millibits =
     \<lparr>fp_builder = bits_builder_new millibits, fp_add_key = bits_add_key w, fp_seal = bits_seal,
      fp_may_match = (\<lambda>data key. res_bind (get_filter_bits_reader data) (may_match w key))\<rparr>"

section \<open>Builder and reader\<close>

record 'b filter_block_builder =
  filter_bits :: 'b
  num_added :: nat

definition filter_builder_new :: "'b filter_policy \<Rightarrow> 'b filter_block_builder" where
  "filter_builder_new p = \<lparr>filter_bits = fp_builder p, num_added = 0\<rparr>"

definition filter_start_block :: "nat \<Rightarrow> 'b filter_block_builder \<Rightarrow> 'b filter_block_builder" where
  "filter_start_block block_offset fb = fb"

definition filter_add ::
  "'b filter_policy \<Rightarrow> bytes \<Rightarrow> 'b filter_block_builder \<Rightarrow> 'b filter_block_builder" where
  "filter_add p key fb =
     fb\<lparr>filter_bits := fp_add_key p key (filter_bits fb), num_added := num_added fb + 1\<rparr>"

definition filter_seal ::
  "'b filter_policy \<Rightarrow> 'b filter_block_builder \<Rightarrow> (bytes \<times> 'b filter_block_builder) res" where
  "filter_seal p fb =
     (if 0 < num_added fb
      then res_bind (fp_seal p (filter_bits fb)) (\<lambda>(data, b). Inr (data, fb\<lparr>filter_bits := b\<rparr>))
      else Inr ([], fb))"

record 'b filter_block_reader =
  fr_policy :: "'b filter_policy"
  fr_block :: bytes

definition create_filter_block_reader :: "'b filter_policy \<Rightarrow> bytes \<Rightarrow> 'b filter_block_reader" where
  "create_filter_block_reader p block = \<lparr>fr_policy = p, fr_block = block\<rparr>"

definition key_may_match :: "bytes \<Rightarrow> 'b filter_block_reader \<Rightarrow> bool res" where
  "key_may_match key fr = fp_may_match (fr_policy fr) (fr_block fr) key"

section \<open>What a table relies on\<close>

locale filter_contract =
  fixes p :: "'b filter_policy"
  assumes sealed_filter: "keys \<noteq> [] \<Longrightarrow>
    \<exists>data b. fp_seal p (fold (fp_add_key p) keys (fp_builder p)) = Inr (data, b) \<and> data \<noteq> [] \<and>
      (\<forall>key. \<exists>ans. fp_may_match p data key = Inr ans \<and> (key \<in> set keys \<longrightarrow> ans))"
begin

lemma filter_add_keys:
  "fold (filter_add p) keys (filter_builder_new p) =
     \<lparr>filter_bits = fold (fp_add_key p) keys (fp_builder p), num_added = length keys\<rparr>"
  by (induction keys rule: rev_induct) (simp_all add: filter_builder_new_def filter_add_def)

text \<open>A sealed filter block is empty when no key was added, and else it answers for every key.\<close>

lemma filter_block_sound:
  "\<exists>data fb. filter_seal p (fold (filter_add p) keys (filter_builder_new p)) = Inr (data, fb) \<and>
     (data = [] \<longleftrightarrow> keys = []) \<and>
     (keys \<noteq> [] \<longrightarrow> (\<forall>key. \<exists>ans. key_may_match key (create_filter_block_reader p data) = Inr ans \<and>
        (key \<in> set keys \<longrightarrow> ans)))"
proof (cases "keys = []")
  case True
  then show ?thesis by (simp add: filter_seal_def filter_builder_new_def)
next
  case False
  then show ?thesis
    using sealed_filter [OF False]
    by (auto simp: filter_add_keys filter_seal_def key_may_match_def create_filter_block_reader_def)
qed

end

lemma bloom_filter_contract: "0 < millibits \<Longrightarrow> filter_contract (bloom_policy w millibits)"
proof
  fix keys :: "bytes list"
  assume "0 < millibits" "keys \<noteq> []"
  then obtain data b' r where r: "bloom_seal w millibits keys = Inr (data, b')"
      "get_filter_bits_reader data = Inr r"
      "\<forall>key. \<exists>ans. may_match w key r = Inr ans \<and> (key \<in> set keys \<longrightarrow> ans)"
    using bloom_reads by blast
  moreover have "data \<noteq> []"
    using r(2) by (auto simp: get_filter_bits_reader_def FILTER_METADATA_SIZE_def)
  ultimately show "\<exists>data b. fp_seal (bloom_policy w millibits)
        (fold (fp_add_key (bloom_policy w millibits)) keys (fp_builder (bloom_policy w millibits))) =
      Inr (data, b) \<and> data \<noteq> [] \<and>
      (\<forall>key. \<exists>ans. fp_may_match (bloom_policy w millibits) data key = Inr ans \<and> (key \<in> set keys \<longrightarrow> ans))"
    by (simp add: bloom_policy_def bloom_seal_def)
qed

text \<open>The default policy: ten bits per key.\<close>

definition default_filter_policy :: "wire \<Rightarrow> bits_builder filter_policy" where
  "default_filter_policy w = bloom_policy w 10000"

interpretation bloom: filter_contract "default_filter_policy w"
  unfolding default_filter_policy_def by (rule bloom_filter_contract) simp

end
