(* ===== verification/Cache.thy ===== *)
theory Cache
  imports Prelude
begin

text \<open>
  The caches of \<open>src/src/utils/cache.rs\<close>. \<open>LruCache\<close> comes from the crate \<open>lru\<close>: its functions are
  the fields of the record \<open>lru\<close>, and the locale \<open>lru_contract\<close> states what its documentation says of
  them. Which entry \<open>put\<close> evicts is left open. The locale \<open>lossy_map\<close> is what the clients of a
  \<open>ShardedCache\<close> rely on: a lookup finds the last value inserted, or nothing.

  A lock around a shard makes each operation atomic, so a concurrent history is a sequence of them.
\<close>

section \<open>The crate \<open>lru\<close>\<close>

type_synonym cache_id = u32
type_synonym 'k cache_key = "cache_id \<times> 'k"

record ('k, 'v, 'c) lru =
  lru_new :: "nat \<Rightarrow> 'c"
  lru_put :: "'k \<Rightarrow> 'v \<Rightarrow> 'c \<Rightarrow> 'v option \<times> 'c"
  lru_get :: "'k \<Rightarrow> 'c \<Rightarrow> 'v option \<times> 'c"
  lru_pop :: "'k \<Rightarrow> 'c \<Rightarrow> 'v option \<times> 'c"
  lru_len :: "'c \<Rightarrow> nat"
  lru_cap :: "'c \<Rightarrow> nat"

text \<open>\<open>peek\<close> is the content of a cache, \<open>good\<close> an invariant of the crate's own data.\<close>

locale lru_contract =
  fixes l :: "('k, 'v, 'c) lru" and peek :: "'c \<Rightarrow> 'k \<Rightarrow> 'v option" and good :: "'c \<Rightarrow> bool"
  assumes good_new: "good (lru_new l n)"
    and peek_new: "peek (lru_new l n) k = None"
    and good_put: "good c \<Longrightarrow> good (snd (lru_put l k v c))"
    and put_old: "good c \<Longrightarrow> fst (lru_put l k v c) = peek c k"
    and put_bound: "good c \<Longrightarrow> peek (snd (lru_put l k v c)) j = Some x \<Longrightarrow> ((peek c)(k \<mapsto> v)) j = Some x"
    and good_get: "good c \<Longrightarrow> good (snd (lru_get l k c))"
    and get_value: "good c \<Longrightarrow> fst (lru_get l k c) = peek c k"
    and peek_get: "good c \<Longrightarrow> peek (snd (lru_get l k c)) j = peek c j"
    and good_pop: "good c \<Longrightarrow> good (snd (lru_pop l k c))"
    and pop_value: "good c \<Longrightarrow> fst (lru_pop l k c) = peek c k"
    and peek_pop: "good c \<Longrightarrow> peek (snd (lru_pop l k c)) j = ((peek c)(k := None)) j"

section \<open>\<open>Cache\<close>\<close>

record 'c cache =
  cache_lru :: 'c
  cache_last_id :: cache_id

definition cache_new :: "('k cache_key, 'v, 'c) lru \<Rightarrow> nat \<Rightarrow> 'c cache res" where
  "cache_new l cap =
     (if cap = 0 then Inl (Panic ''assertion failed: capacity > 0'')
      else Inr \<lparr>cache_lru = lru_new l cap, cache_last_id = 0\<rparr>)"

text \<open>\<open>self.last_id += 1\<close> overflows at the last identifier.\<close>

definition cache_get_id :: "'c cache \<Rightarrow> (cache_id \<times> 'c cache) res" where
  "cache_get_id c =
     (if cache_last_id c = - 1 then Inl (Panic ''attempt to add with overflow'')
      else Inr (cache_last_id c + 1, c\<lparr>cache_last_id := cache_last_id c + 1\<rparr>))"

definition cache_len :: "('k cache_key, 'v, 'c) lru \<Rightarrow> 'c cache \<Rightarrow> nat" where
  "cache_len l c = lru_len l (cache_lru c)"

definition cache_capacity :: "('k cache_key, 'v, 'c) lru \<Rightarrow> 'c cache \<Rightarrow> nat" where
  "cache_capacity l c = lru_cap l (cache_lru c)"

definition cache_insert ::
  "('k cache_key, 'v, 'c) lru \<Rightarrow> cache_id \<Rightarrow> 'k \<Rightarrow> 'v \<Rightarrow> 'c cache \<Rightarrow> 'v option \<times> 'c cache" where
  "cache_insert l i key v c =
     (let (old, c') = lru_put l (i, key) v (cache_lru c) in (old, c\<lparr>cache_lru := c'\<rparr>))"

definition cache_get ::
  "('k cache_key, 'v, 'c) lru \<Rightarrow> cache_id \<Rightarrow> 'k \<Rightarrow> 'c cache \<Rightarrow> 'v option \<times> 'c cache" where
  "cache_get l i key c =
     (let (v, c') = lru_get l (i, key) (cache_lru c) in (v, c\<lparr>cache_lru := c'\<rparr>))"

definition cache_remove ::
  "('k cache_key, 'v, 'c) lru \<Rightarrow> cache_id \<Rightarrow> 'k \<Rightarrow> 'c cache \<Rightarrow> 'v option \<times> 'c cache" where
  "cache_remove l i key c =
     (let (v, c') = lru_pop l (i, key) (cache_lru c) in (v, c\<lparr>cache_lru := c'\<rparr>))"

section \<open>\<open>ShardedCache\<close>\<close>

text \<open>The hasher is an argument: the 32-bit hash of an identifier and a key.\<close>

record 'c sharded_cache =
  num_shards :: nat
  shards :: "'c list"
  sc_last_id :: cache_id

definition sharded_new :: "('k cache_key, 'v, 'c) lru \<Rightarrow> nat \<Rightarrow> nat \<Rightarrow> 'c sharded_cache res" where
  "sharded_new l n cap =
     (if cap = 0 then Inl (Panic ''assertion failed: capacity > 0'')
      else Inr \<lparr>num_shards = n, shards = map (\<lambda>_. lru_new l (cap div n)) [0..<n], sc_last_id = 1\<rparr>)"

text \<open>\<open>fetch_add\<close> wraps.\<close>

definition sharded_get_id :: "'c sharded_cache \<Rightarrow> cache_id \<times> 'c sharded_cache" where
  "sharded_get_id sc = (sc_last_id sc, sc\<lparr>sc_last_id := sc_last_id sc + 1\<rparr>)"

definition get_shard ::
  "('k cache_key \<Rightarrow> u32) \<Rightarrow> 'c sharded_cache \<Rightarrow> cache_id \<Rightarrow> 'k \<Rightarrow> nat res" where
  "get_shard hash sc i key =
     (if num_shards sc = 0
      then Inl (Panic ''attempt to calculate the remainder with a divisor of zero'')
      else Inr (unat (hash (i, key)) mod num_shards sc))"

text \<open>An operation on the locked shard of a key.\<close>

definition with_shard ::
  "('k cache_key \<Rightarrow> u32) \<Rightarrow> cache_id \<Rightarrow> 'k \<Rightarrow> ('c \<Rightarrow> 'v option \<times> 'c) \<Rightarrow> 'c sharded_cache
    \<Rightarrow> ('v option \<times> 'c sharded_cache) res" where
  "with_shard hash i key f sc =
     res_bind (get_shard hash sc i key) (\<lambda>s.
       if s < length (shards sc)
       then let (v, c) = f (shards sc ! s) in Inr (v, sc\<lparr>shards := (shards sc)[s := c]\<rparr>)
       else Inl (Panic ''index out of bounds''))"

definition sharded_insert ::
  "('k cache_key, 'v, 'c) lru \<Rightarrow> ('k cache_key \<Rightarrow> u32) \<Rightarrow> cache_id \<Rightarrow> 'k \<Rightarrow> 'v
    \<Rightarrow> 'c sharded_cache \<Rightarrow> ('v option \<times> 'c sharded_cache) res" where
  "sharded_insert l hash i key v sc = with_shard hash i key (lru_put l (i, key) v) sc"

definition sharded_get ::
  "('k cache_key, 'v, 'c) lru \<Rightarrow> ('k cache_key \<Rightarrow> u32) \<Rightarrow> cache_id \<Rightarrow> 'k
    \<Rightarrow> 'c sharded_cache \<Rightarrow> ('v option \<times> 'c sharded_cache) res" where
  "sharded_get l hash i key sc = with_shard hash i key (lru_get l (i, key)) sc"

definition sharded_remove ::
  "('k cache_key, 'v, 'c) lru \<Rightarrow> ('k cache_key \<Rightarrow> u32) \<Rightarrow> cache_id \<Rightarrow> 'k
    \<Rightarrow> 'c sharded_cache \<Rightarrow> ('v option \<times> 'c sharded_cache) res" where
  "sharded_remove l hash i key sc = with_shard hash i key (lru_pop l (i, key)) sc"

section \<open>A lossy map\<close>

text \<open>
  What the clients of a shared cache rely on. \<open>view\<close> is the content; other threads may drop entries
  between two operations, never change them.
\<close>

locale lossy_map =
  fixes get :: "'k \<Rightarrow> 's \<Rightarrow> ('v option \<times> 's) res"
    and insert :: "'k \<Rightarrow> 'v \<Rightarrow> 's \<Rightarrow> ('v option \<times> 's) res"
    and view :: "'s \<Rightarrow> 'k \<Rightarrow> 'v option" and good :: "'s \<Rightarrow> bool"
  assumes get_view: "good s \<Longrightarrow> \<exists>s'. get k s = Inr (view s k, s') \<and> good s' \<and> view s' \<subseteq>\<^sub>m view s"
    and insert_view: "good s \<Longrightarrow>
      \<exists>s'. insert k v s = Inr (view s k, s') \<and> good s' \<and> view s' \<subseteq>\<^sub>m (view s)(k \<mapsto> v)"
begin

text \<open>A cache whose entries all satisfy \<open>P\<close> keeps them so, whatever is inserted in accord with \<open>P\<close>.\<close>

definition coherent :: "('k \<Rightarrow> 'v \<Rightarrow> bool) \<Rightarrow> 's \<Rightarrow> bool" where
  "coherent P s \<longleftrightarrow> good s \<and> (\<forall>k v. view s k = Some v \<longrightarrow> P k v)"

lemma coherent_get:
  assumes "coherent P s"
  shows "\<exists>r s'. get k s = Inr (r, s') \<and> coherent P s' \<and> (\<forall>v. r = Some v \<longrightarrow> P k v)"
proof -
  obtain s' where "get k s = Inr (view s k, s')" "good s'" "view s' \<subseteq>\<^sub>m view s"
    using get_view assms unfolding coherent_def by blast
  then show ?thesis
    using assms unfolding coherent_def map_le_def by (metis domI)
qed

lemma coherent_insert:
  assumes "coherent P s" "P k v"
  shows "\<exists>r s'. insert k v s = Inr (r, s') \<and> coherent P s'"
proof -
  obtain s' where s': "insert k v s = Inr (view s k, s')" "good s'" "view s' \<subseteq>\<^sub>m (view s)(k \<mapsto> v)"
    using insert_view assms unfolding coherent_def by blast
  have "P j x" if "view s' j = Some x" for j x
  proof -
    have "((view s)(k \<mapsto> v)) j = Some x" using s'(3) that unfolding map_le_def by (metis domI)
    then show ?thesis using assms unfolding coherent_def by (auto split: if_splits)
  qed
  with s' show ?thesis unfolding coherent_def by blast
qed

end

text \<open>The content of a sharded cache: an entry counts in the shard its key belongs to.\<close>

definition sharded_view ::
  "('c \<Rightarrow> 'k cache_key \<Rightarrow> 'v option) \<Rightarrow> ('k cache_key \<Rightarrow> u32) \<Rightarrow> 'c sharded_cache
    \<Rightarrow> 'k cache_key \<Rightarrow> 'v option" where
  "sharded_view peek hash sc k = peek (shards sc ! (unat (hash k) mod num_shards sc)) k"

definition sharded_good :: "('c \<Rightarrow> bool) \<Rightarrow> 'c sharded_cache \<Rightarrow> bool" where
  "sharded_good good sc \<longleftrightarrow> 0 < num_shards sc \<and> length (shards sc) = num_shards sc \<and>
     (\<forall>c\<in>set (shards sc). good c)"

lemma with_shard_Inr:
  "sharded_good good sc \<Longrightarrow> with_shard hash i key f sc =
     (let s = unat (hash (i, key)) mod num_shards sc; (v, c) = f (shards sc ! s)
      in Inr (v, sc\<lparr>shards := (shards sc)[s := c]\<rparr>))"
  by (simp add: with_shard_def get_shard_def sharded_good_def Let_def)

text \<open>One operation on a shard that may drop entries and sets at most the one of its key.\<close>

lemma sharded_step:
  assumes g: "sharded_good good sc"
    and f: "\<And>c. good c \<Longrightarrow> fst (f c) = peek c k \<and> good (snd (f c)) \<and>
        peek (snd (f c)) \<subseteq>\<^sub>m (peek c)(k := y c)"
    and k: "k = (i, key)"
  shows "\<exists>sc' c. with_shard hash i key f sc = Inr (sharded_view peek hash sc k, sc') \<and>
    sharded_good good sc' \<and> c \<in> set (shards sc) \<and> sharded_view peek hash sc k = peek c k \<and>
    sharded_view peek hash sc' \<subseteq>\<^sub>m (sharded_view peek hash sc)(k := y c)"
proof -
  define s where "s = unat (hash k) mod num_shards sc"
  define c where "c = shards sc ! s"
  define sc' where "sc' = sc\<lparr>shards := (shards sc)[s := snd (f c)]\<rparr>"
  have s: "s < length (shards sc)" using g by (simp add: s_def sharded_good_def)
  have c: "c \<in> set (shards sc)" "good c" using s g by (simp_all add: c_def sharded_good_def)
  have v: "sharded_view peek hash sc k = peek c k"
    by (simp add: sharded_view_def c_def s_def)
  have "with_shard hash i key f sc = Inr (sharded_view peek hash sc k, sc')"
    using f [OF c(2)] by (simp add: with_shard_Inr [OF g] v k [symmetric] Let_def s_def [symmetric]
        c_def [symmetric] sc'_def case_prod_beta)
  moreover have "sharded_good good sc'"
    using g f [OF c(2)] set_update_subset_insert [of "shards sc" s "snd (f c)"]
    by (auto simp: sharded_good_def sc'_def)
  moreover have "sharded_view peek hash sc' j = ((sharded_view peek hash sc)(k := y c)) j"
    if "sharded_view peek hash sc' j = Some x" for j x
  proof (cases "unat (hash j) mod num_shards sc = s")
    case True
    then have p: "peek (snd (f c)) j = Some x" using that s by (simp add: sharded_view_def sc'_def)
    then have "((peek c)(k := y c)) j = Some x"
      using f [OF c(2)] unfolding map_le_def by (metis domI)
    then show ?thesis
      using True that by (auto simp: sharded_view_def c_def split: if_splits)
  next
    case False
    then have "j \<noteq> k" by (auto simp: s_def)
    then show ?thesis using False by (simp add: sharded_view_def sc'_def)
  qed
  ultimately show ?thesis using c(1) v unfolding map_le_def by blast
qed

lemma sharded_get_view:
  assumes l: "lru_contract l peek good" and g: "sharded_good good sc"
  shows "\<exists>sc'. sharded_get l hash i key sc = Inr (sharded_view peek hash sc (i, key), sc') \<and>
    sharded_good good sc' \<and> sharded_view peek hash sc' \<subseteq>\<^sub>m sharded_view peek hash sc"
  using sharded_step [OF g, where f = "lru_get l (i, key)" and k = "(i, key)"
      and y = "\<lambda>c. peek c (i, key)" and i = i and key = key and hash = hash and peek = peek]
  by (auto simp: sharded_get_def lru_contract.good_get [OF l] lru_contract.get_value [OF l]
      lru_contract.peek_get [OF l] map_le_def)

lemma sharded_insert_view:
  assumes l: "lru_contract l peek good" and g: "sharded_good good sc"
  shows "\<exists>sc'. sharded_insert l hash i key v sc = Inr (sharded_view peek hash sc (i, key), sc') \<and>
    sharded_good good sc' \<and>
    sharded_view peek hash sc' \<subseteq>\<^sub>m (sharded_view peek hash sc)((i, key) \<mapsto> v)"
proof -
  have "peek (snd (lru_put l (i, key) v c)) \<subseteq>\<^sub>m (peek c)((i, key) \<mapsto> v)" if "good c" for c
    unfolding map_le_def
  proof
    fix j assume "j \<in> dom (peek (snd (lru_put l (i, key) v c)))"
    then obtain x where "peek (snd (lru_put l (i, key) v c)) j = Some x" by blast
    then show "peek (snd (lru_put l (i, key) v c)) j = ((peek c)((i, key) \<mapsto> v)) j"
      using lru_contract.put_bound [OF l that, of "(i, key)" v j x] by simp
  qed
  then show ?thesis
    using sharded_step [OF g, where f = "lru_put l (i, key) v" and k = "(i, key)"
        and y = "\<lambda>c. Some v" and i = i and key = key and hash = hash and peek = peek]
    by (auto simp: sharded_insert_def lru_contract.good_put [OF l] lru_contract.put_old [OF l])
qed

lemma sharded_remove_view:
  assumes l: "lru_contract l peek good" and g: "sharded_good good sc"
  shows "\<exists>sc'. sharded_remove l hash i key sc = Inr (sharded_view peek hash sc (i, key), sc') \<and>
    sharded_good good sc' \<and>
    sharded_view peek hash sc' \<subseteq>\<^sub>m (sharded_view peek hash sc)((i, key) := None)"
  using sharded_step [OF g, where f = "lru_pop l (i, key)" and k = "(i, key)"
      and y = "\<lambda>c. None" and i = i and key = key and hash = hash and peek = peek]
  by (auto simp: sharded_remove_def lru_contract.good_pop [OF l] lru_contract.pop_value [OF l]
      lru_contract.peek_pop [OF l] map_le_def)

lemma sharded_lossy_map:
  "lru_contract l peek good \<Longrightarrow>
   lossy_map (\<lambda>(i, k). sharded_get l hash i k) (\<lambda>(i, k). sharded_insert l hash i k)
     (sharded_view peek hash) (sharded_good good)"
  by unfold_locales (auto simp: sharded_get_view sharded_insert_view split: prod.splits)

lemma sharded_new_good:
  assumes l: "lru_contract l peek good" and "0 < n" "0 < cap"
  shows "\<exists>sc. sharded_new l n cap = Inr sc \<and> sharded_good good sc \<and> sharded_view peek hash sc = Map.empty"
  using assms lru_contract.good_new [OF l] lru_contract.peek_new [OF l]
  by (auto simp: sharded_new_def sharded_good_def sharded_view_def fun_eq_iff)

section \<open>The documented cache, as an instance\<close>

text \<open>
  Entries with the most recently used first; \<open>put\<close> drops the last one when the cache is full.
\<close>

datatype ('k, 'v) lru_list = LruList (ll_cap: nat) (ll_entries: "('k \<times> 'v) list")

definition ll_put :: "'k \<Rightarrow> 'v \<Rightarrow> ('k, 'v) lru_list \<Rightarrow> 'v option \<times> ('k, 'v) lru_list" where
  "ll_put k v c = (map_of (ll_entries c) k,
     LruList (ll_cap c) (take (ll_cap c) ((k, v) # filter (\<lambda>e. fst e \<noteq> k) (ll_entries c))))"

definition ll_get :: "'k \<Rightarrow> ('k, 'v) lru_list \<Rightarrow> 'v option \<times> ('k, 'v) lru_list" where
  "ll_get k c = (case map_of (ll_entries c) k of
       None \<Rightarrow> (None, c)
     | Some v \<Rightarrow> (Some v, LruList (ll_cap c) ((k, v) # filter (\<lambda>e. fst e \<noteq> k) (ll_entries c))))"

definition ll_pop :: "'k \<Rightarrow> ('k, 'v) lru_list \<Rightarrow> 'v option \<times> ('k, 'v) lru_list" where
  "ll_pop k c = (map_of (ll_entries c) k,
     LruList (ll_cap c) (filter (\<lambda>e. fst e \<noteq> k) (ll_entries c)))"

definition std_lru :: "('k, 'v, ('k, 'v) lru_list) lru" where
  "std_lru = \<lparr>lru_new = (\<lambda>n. LruList n []), lru_put = ll_put, lru_get = ll_get, lru_pop = ll_pop,
     lru_len = length \<circ> ll_entries, lru_cap = ll_cap\<rparr>"

definition ll_peek :: "('k, 'v) lru_list \<Rightarrow> 'k \<Rightarrow> 'v option" where
  "ll_peek c = map_of (ll_entries c)"

lemma map_of_filter_key: "map_of (filter (\<lambda>e. fst e \<noteq> k) es) j = (if j = k then None else map_of es j)"
  by (induction es) auto

lemma map_of_take: "map_of (take n es) j = Some x \<Longrightarrow> map_of es j = Some x"
  by (metis append_take_drop_id map_add_Some_iff map_of_append)

definition ll_good :: "('k, 'v) lru_list \<Rightarrow> bool" where
  "ll_good c \<longleftrightarrow> distinct (map fst (ll_entries c))"

lemma distinct_filter_key:
  "distinct (map fst es) \<Longrightarrow> distinct (map fst ((k, v) # filter (\<lambda>e. fst e \<noteq> k) es))"
  by (auto simp: distinct_map_filter)

lemma ll_put_good: "ll_good c \<Longrightarrow> ll_good (snd (ll_put k v c))"
  using distinct_filter_key [of "ll_entries c" k v]
  unfolding ll_good_def ll_put_def snd_conv lru_list.sel take_map [symmetric] by (rule distinct_take)

lemma ll_put_bound:
  assumes "ll_good c" "ll_peek (snd (ll_put k v c)) j = Some x"
  shows "((ll_peek c)(k \<mapsto> v)) j = Some x"
proof -
  have "map_of ((k, v) # filter (\<lambda>e. fst e \<noteq> k) (ll_entries c)) j = Some x"
    using assms unfolding ll_peek_def ll_put_def
    by (metis lru_list.sel(2) snd_conv map_of_take)
  then show ?thesis by (simp add: ll_peek_def map_of_filter_key split: if_splits)
qed

interpretation std_lru: lru_contract std_lru ll_peek ll_good
proof
  fix c :: "('a, 'b) lru_list" and k j :: 'a and v x :: 'b
  assume g: "ll_good c"
  show "ll_good (snd (lru_put std_lru k v c))" using g by (simp add: std_lru_def ll_put_good)
  show "((ll_peek c)(k \<mapsto> v)) j = Some x" if "ll_peek (snd (lru_put std_lru k v c)) j = Some x"
    using g that by (intro ll_put_bound) (simp_all add: std_lru_def)
  show "ll_good (snd (lru_get std_lru k c))"
    using g distinct_filter_key [of "ll_entries c" k]
    by (auto simp: std_lru_def ll_get_def ll_good_def split: option.splits)
  show "ll_good (snd (lru_pop std_lru k c))"
    using g by (auto simp: std_lru_def ll_pop_def ll_good_def distinct_map_filter)
qed (auto simp: std_lru_def ll_good_def ll_peek_def ll_put_def ll_get_def ll_pop_def map_of_filter_key
    split: option.splits)

interpretation std_sharded: lossy_map "\<lambda>(i, k). sharded_get std_lru hash i k"
  "\<lambda>(i, k). sharded_insert std_lru hash i k" "sharded_view ll_peek hash" "sharded_good ll_good"
  by (rule sharded_lossy_map [OF std_lru.lru_contract_axioms])

section \<open>Properties\<close>

text \<open>A history of operations on a sharded cache, and what it returns.\<close>

datatype ('k, 'v) cache_op =
    CGet cache_id 'k
  | CInsert cache_id 'k 'v
  | CRemove cache_id 'k
  | CGetId

fun cache_run ::
  "('k cache_key, 'v, 'c) lru \<Rightarrow> ('k cache_key \<Rightarrow> u32) \<Rightarrow> ('k, 'v) cache_op list
    \<Rightarrow> 'c sharded_cache \<Rightarrow> 'c sharded_cache res" where
  "cache_run l hash [] sc = Inr sc"
| "cache_run l hash (op # ops) sc =
     res_bind (case op of
         CGet i k \<Rightarrow> res_bind (sharded_get l hash i k sc) (\<lambda>(r, sc'). Inr sc')
       | CInsert i k v \<Rightarrow> res_bind (sharded_insert l hash i k v sc) (\<lambda>(r, sc'). Inr sc')
       | CRemove i k \<Rightarrow> res_bind (sharded_remove l hash i k sc) (\<lambda>(r, sc'). Inr sc')
       | CGetId \<Rightarrow> Inr (snd (sharded_get_id sc)))
     (cache_run l hash ops)"

text \<open>The map that never forgets.\<close>

fun ideal_step :: "('k, 'v) cache_op \<Rightarrow> ('k cache_key \<Rightarrow> 'v option) \<Rightarrow> 'k cache_key \<Rightarrow> 'v option" where
  "ideal_step (CGet i k) m = m"
| "ideal_step (CInsert i k v) m = m((i, k) \<mapsto> v)"
| "ideal_step (CRemove i k) m = m((i, k) := None)"
| "ideal_step CGetId m = m"

lemma map_le_upd: "m \<subseteq>\<^sub>m m' \<Longrightarrow> m(k := y) \<subseteq>\<^sub>m m'(k := y)"
  by (auto simp: map_le_def)

lemma cache_step_refines:
  assumes l: "lru_contract l peek good" and g: "sharded_good good sc"
    and m: "sharded_view peek hash sc \<subseteq>\<^sub>m m"
  shows "\<exists>sc'. cache_run l hash [op] sc = Inr sc' \<and> sharded_good good sc' \<and>
    sharded_view peek hash sc' \<subseteq>\<^sub>m ideal_step op m"
proof (cases op)
  case (CGet i k)
  then show ?thesis using sharded_get_view [OF l g, of hash i k] m by (auto intro: map_le_trans)
next
  case (CInsert i k v)
  then show ?thesis
    using sharded_insert_view [OF l g, of hash i k v] map_le_upd [OF m, of "(i, k)" "Some v"]
    by (auto intro: map_le_trans)
next
  case (CRemove i k)
  then show ?thesis
    using sharded_remove_view [OF l g, of hash i k] map_le_upd [OF m, of "(i, k)" None]
    by (auto intro: map_le_trans)
next
  case CGetId
  have "sharded_view peek hash (snd (sharded_get_id sc)) = sharded_view peek hash sc"
    by (simp add: fun_eq_iff sharded_get_id_def sharded_view_def)
  then show ?thesis using CGetId g m by (simp add: sharded_get_id_def sharded_good_def)
qed

lemma cache_run_Cons:
  "cache_run l hash (op # ops) sc = res_bind (cache_run l hash [op] sc) (cache_run l hash ops)"
  by (simp add: res_bind_def split: sum.splits)

lemma cache_run_refines:
  assumes l: "lru_contract l peek good"
  shows "\<lbrakk>sharded_good good sc; sharded_view peek hash sc \<subseteq>\<^sub>m m\<rbrakk> \<Longrightarrow>
    \<exists>sc'. cache_run l hash ops sc = Inr sc' \<and> sharded_good good sc' \<and>
      sharded_view peek hash sc' \<subseteq>\<^sub>m fold ideal_step ops m"
proof (induction ops arbitrary: sc m)
  case (Cons op ops)
  obtain sc1 where "cache_run l hash [op] sc = Inr sc1" "sharded_good good sc1"
      "sharded_view peek hash sc1 \<subseteq>\<^sub>m ideal_step op m"
    using cache_step_refines [OF l Cons.prems] by blast
  then show ?case
    using Cons.IH unfolding cache_run_Cons [of l hash op ops] by simp
qed simp

text \<open>
  C39: the sharded cache is a lossy map. After any sequence of lookups, insertions, removals and
  requests for an identifier on a new cache, with any hash function and any eviction policy, a lookup
  succeeds and finds nothing or the value the last insertion under that identifier and key gave.
\<close>
theorem sharded_cache_refines_map:
  "\<lbrakk>lru_contract l peek good; 0 < n; 0 < cap\<rbrakk> \<Longrightarrow>
   \<exists>sc0 sc r sc'. sharded_new l n cap = Inr sc0 \<and> cache_run l hash ops sc0 = Inr sc \<and>
     sharded_get l hash i k sc = Inr (r, sc') \<and>
     (r = None \<or> r = fold ideal_step ops Map.empty (i, k))"
proof -
  assume l: "lru_contract l peek good" and n: "0 < n" "0 < cap"
  obtain sc0 where sc0: "sharded_new l n cap = Inr sc0" "sharded_good good sc0"
      "sharded_view peek hash sc0 = Map.empty"
    using sharded_new_good [OF l n] by blast
  obtain sc where sc: "cache_run l hash ops sc0 = Inr sc" "sharded_good good sc"
      "sharded_view peek hash sc \<subseteq>\<^sub>m fold ideal_step ops Map.empty"
    using cache_run_refines [OF l sc0(2), of hash Map.empty ops] sc0(3) by auto
  obtain sc' where g: "sharded_get l hash i k sc = Inr (sharded_view peek hash sc (i, k), sc')"
    using sharded_get_view [OF l sc(2)] by blast
  have "sharded_view peek hash sc (i, k) = None \<or>
      sharded_view peek hash sc (i, k) = fold ideal_step ops Map.empty (i, k)"
    using sc(3) unfolding map_le_def by blast
  with sc0(1) sc(1) g show ?thesis by blast
qed

theorem sharded_cache_refines_map_witness:
  "\<exists>sc0 sc r sc'. sharded_new std_lru 2 2 = Inr sc0 \<and>
     cache_run std_lru (\<lambda>(i, k :: nat). i) [CInsert 1 5 ''a'', CInsert 1 6 ''b'', CInsert 1 6 ''c''] sc0 = Inr sc \<and>
     sharded_get std_lru (\<lambda>(i, k). i) 1 6 sc = Inr (r, sc') \<and> r = Some ''c''"
proof -
  let ?hash = "\<lambda>(i, k :: nat). i" and ?ops = "[CInsert 1 5 ''a'', CInsert 1 6 ''b'', CInsert 1 6 ''c'']"
  obtain sc0 sc r sc' where *: "sharded_new std_lru 2 2 = Inr sc0" "cache_run std_lru ?hash ?ops sc0 = Inr sc"
      "sharded_get std_lru ?hash 1 6 sc = Inr (r, sc')"
      "r = None \<or> r = fold ideal_step ?ops Map.empty (1, 6)"
    using sharded_cache_refines_map [OF std_lru.lru_contract_axioms, of 2 2 ?hash ?ops 1 6] by auto
  have "r \<noteq> None"
    using *(1-3) by (auto simp: sharded_new_def std_lru_def sharded_insert_def sharded_get_def
        with_shard_def get_shard_def ll_put_def ll_get_def)
  then show ?thesis using * by auto
qed

end
