(* ===== verification/Block_Table.thy ===== *)
theory Block_Table
  imports Data_Block Filter_Block Cache "HOL-Library.List_Lexorder"
begin

text \<open>
  Table files, \<open>src/src/table/block_table.rs\<close>: the builder, the reader with its block cache and its
  iterator, and \<open>RandomAccess\<close> for bytes in memory (\<open>utils/random_access.rs\<close>), which is also what a
  file gives. Keys and values are encoded by \<open>bincode\<close>, the functions of the record \<open>table_codec\<close>; the
  implementations specialised to keys that are bytes come next to the default ones. Failures of the
  file system are not modelled. The recursion of \<open>next\<close> has fuel.
\<close>

section \<open>Parameters\<close>

record ('k, 'v) table_codec =
  ser_key :: "'k \<Rightarrow> bytes"
  de_key :: "bytes \<Rightarrow> 'k option"
  ser_val :: "'v \<Rightarrow> bytes"
  de_val :: "bytes \<Rightarrow> 'v option"
  ser_ptr :: "item_pointer \<Rightarrow> bytes"
  de_ptr :: "bytes \<Rightarrow> item_pointer option"

definition unwrap :: "'a option \<Rightarrow> 'a res" where
  "unwrap x = (case x of None \<Rightarrow> Inl (Panic ''called `Option::unwrap()` on a `None` value'') | Some a \<Rightarrow> Inr a)"

lemma unwrap_Some [simp, res_simps]: "unwrap (Some a) = Inr a"
  by (simp add: unwrap_def)

text \<open>
  The closure \<open>cmp\<close> compares decoded keys. It panics on bytes that do not decode; no such key is in a
  block the builder wrote, and the comparison is \<open>Equal\<close> there.
\<close>

definition codec_cmp :: "('k::linorder, 'v) table_codec \<Rightarrow> bytes \<Rightarrow> bytes \<Rightarrow> ordering" where
  "codec_cmp c a b = (case (de_key c a, de_key c b) of
       (Some ka, Some kb) \<Rightarrow> lin_cmp ka kb
     | _ \<Rightarrow> Equal)"

text \<open>The operations of a shared block cache.\<close>

record ('k, 'v, 's) cache_ops =
  op_new_id :: "'s \<Rightarrow> cache_id \<times> 's"
  op_get :: "cache_id \<times> 'k \<Rightarrow> 's \<Rightarrow> ('v option \<times> 's) res"
  op_insert :: "cache_id \<times> 'k \<Rightarrow> 'v \<Rightarrow> 's \<Rightarrow> ('v option \<times> 's) res"

definition sharded_ops ::
  "('k cache_key, 'v, 'c) lru \<Rightarrow> ('k cache_key \<Rightarrow> u32) \<Rightarrow> ('k, 'v, 'c sharded_cache) cache_ops" where
  "sharded_ops l hash =
     \<lparr>op_new_id = sharded_get_id, op_get = (\<lambda>(i, k). sharded_get l hash i k),
      op_insert = (\<lambda>(i, k). sharded_insert l hash i k)\<rparr>"

section \<open>Builder\<close>

definition BLOCK_TABLE_MAGIC_NUMBER :: u32 where
  "BLOCK_TABLE_MAGIC_NUMBER = 0xb10cba5e"

definition BLOCK_TRAILER_LENGTH :: nat where
  "BLOCK_TRAILER_LENGTH = 4"

definition TABLE_FOOTER_LENGTH :: nat where
  "TABLE_FOOTER_LENGTH = 40"

datatype table_footer = TableFooter (footer_index: item_pointer) (footer_filter: "item_pointer option")

record 'b table_options =
  block_size :: nat
  block_restart_interval :: nat
  opt_policy :: "'b filter_policy"

definition table_options_default :: "wire \<Rightarrow> bits_builder table_options" where
  "table_options_default w =
     \<lparr>block_size = 4096, block_restart_interval = 16, opt_policy = default_filter_policy w\<rparr>"

record ('k, 'b) table_builder =
  tb_options :: "'b table_options"
  block_builder :: data_block_builder
  index_builder :: data_block_builder
  tb_filter :: "'b filter_block_builder option"
  tb_out :: bytes
  out_offset :: nat
  tb_last_key :: "'k option"

definition table_builder_new :: "'b table_options \<Rightarrow> ('k, 'b) table_builder" where
  "table_builder_new opts =
     \<lparr>tb_options = opts, block_builder = builder_new (block_restart_interval opts),
      index_builder = builder_new (block_restart_interval opts),
      tb_filter = Some (filter_builder_new (opt_policy opts)),
      tb_out = [], out_offset = 0, tb_last_key = None\<rparr>"

definition need_flush :: "bytes \<Rightarrow> bytes \<Rightarrow> ('k, 'b) table_builder \<Rightarrow> bool" where
  "need_flush key val tb \<longleftrightarrow>
     block_size (tb_options tb) < full_len (block_builder tb) + length key + length val"

definition write_block ::
  "wire \<Rightarrow> bytes \<Rightarrow> ('k, 'b) table_builder \<Rightarrow> (item_pointer \<times> ('k, 'b) table_builder) res" where
  "write_block w buf tb =
     (let crc = crc32 w buf; offset = out_offset tb; len = length buf;
          tb1 = tb\<lparr>tb_out := tb_out tb @ buf, out_offset := out_offset tb + length buf\<rparr>;
          tb2 = tb1\<lparr>tb_out := tb_out tb1 @ put_u32 w crc, out_offset := out_offset tb1 + 4\<rparr>
      in if offset + length buf + BLOCK_TRAILER_LENGTH \<noteq> out_offset tb2
         then Inl (Panic ''assertion failed: `(left == right)`'')
         else Inr (ItemPointer offset len, tb2))"

definition table_flush ::
  "wire \<Rightarrow> ('k, 'b) table_builder \<Rightarrow> (item_pointer option \<times> ('k, 'b) table_builder) res" where
  "table_flush w tb =
     (if builder_empty (block_builder tb) then Inr (None, tb)
      else let (buf, bb) = builder_seal w (block_builder tb);
               tb1 = tb\<lparr>block_builder := builder_reset bb\<rparr>
           in res_bind (write_block w buf tb1) (\<lambda>(ptr, tb2). Inr (Some ptr, tb2)))"

text \<open>An index entry is added when a block was written and a last key is known.\<close>

definition index_add ::
  "wire \<Rightarrow> ('k, 'v) table_codec \<Rightarrow> item_pointer option \<Rightarrow> ('k, 'b) table_builder \<Rightarrow> ('k, 'b) table_builder" where
  "index_add w c ptr tb = (case (ptr, tb_last_key tb) of
       (Some p, Some last_key) \<Rightarrow>
         tb\<lparr>index_builder := add_item w (ser_ptr c) (ser_key c last_key) p (index_builder tb)\<rparr>
     | _ \<Rightarrow> tb)"

definition add_raw ::
  "wire \<Rightarrow> ('k, 'v) table_codec \<Rightarrow> bytes \<Rightarrow> bytes \<Rightarrow> ('k, 'b) table_builder \<Rightarrow> ('k, 'b) table_builder res" where
  "add_raw w c key val tb =
     res_bind (if need_flush key val tb
       then res_bind (table_flush w tb) (\<lambda>(ptr, tb1).
              let tb2 = index_add w c ptr tb1
              in Inr (tb2\<lparr>tb_filter := map_option (filter_start_block (out_offset tb2)) (tb_filter tb2)\<rparr>))
       else Inr tb)
     (\<lambda>tb'. Inr (tb'\<lparr>tb_filter := map_option (filter_add (opt_policy (tb_options tb')) key) (tb_filter tb'),
                     block_builder := builder_add w key val (block_builder tb')\<rparr>))"

definition table_add ::
  "wire \<Rightarrow> ('k, 'v) table_codec \<Rightarrow> 'k \<Rightarrow> 'v \<Rightarrow> ('k, 'b) table_builder \<Rightarrow> ('k, 'b) table_builder res" where
  "table_add w c key val tb =
     res_bind (add_raw w c (ser_key c key) (ser_val c val) tb) (\<lambda>tb'.
       Inr (tb'\<lparr>tb_last_key := Some key\<rparr>))"

definition table_size_hint :: "('k, 'b) table_builder \<Rightarrow> nat" where
  "table_size_hint tb = out_offset tb + full_len (block_builder tb) + TABLE_FOOTER_LENGTH"

definition toc_bytes :: "wire \<Rightarrow> table_footer \<Rightarrow> bytes" where
  "toc_bytes w footer =
     put_u32 w BLOCK_TABLE_MAGIC_NUMBER
     @ put_u64 w (of_nat (item_offset (footer_index footer)))
     @ put_u64 w (of_nat (item_length (footer_index footer)))
     @ (case footer_filter footer of
          Some p \<Rightarrow> put_u64 w (of_nat (item_offset p)) @ put_u64 w (of_nat (item_length p))
        | None \<Rightarrow> put_u64 w 0 @ put_u64 w 0)"

definition write_toc ::
  "wire \<Rightarrow> table_footer \<Rightarrow> ('k, 'b) table_builder \<Rightarrow> ('k, 'b) table_builder res" where
  "write_toc w footer tb =
     (let toc0 = toc_bytes w footer; toc = toc0 @ put_u32 w (crc32 w toc0);
          tb1 = tb\<lparr>tb_out := tb_out tb @ toc\<rparr>
      in if length toc \<noteq> TABLE_FOOTER_LENGTH then Inl (Panic ''assertion failed: `(left == right)`'')
         else Inr (tb1\<lparr>out_offset := out_offset tb1 + length toc\<rparr>))"

definition table_finish ::
  "wire \<Rightarrow> ('k, 'v) table_codec \<Rightarrow> ('k, 'b) table_builder \<Rightarrow> ('k, 'b) table_builder res" where
  "table_finish w c tb =
     res_bind (table_flush w tb) (\<lambda>(ptr, tb1).
     let tb2 = index_add w c ptr tb1
     in res_bind (case tb_filter tb2 of
          Some fb \<Rightarrow> res_bind (filter_seal (opt_policy (tb_options tb2)) fb) (\<lambda>(filter_block, fb').
            res_bind (write_block w filter_block (tb2\<lparr>tb_filter := Some fb'\<rparr>)) (\<lambda>(p, tb3). Inr (Some p, tb3)))
        | None \<Rightarrow> Inr (None, tb2)) (\<lambda>(filter_ptr, tb3).
     let (index_block, ib) = builder_seal w (index_builder tb3);
         tb4 = tb3\<lparr>index_builder := builder_reset ib\<rparr>
     in res_bind (write_block w index_block tb4) (\<lambda>(index_ptr, tb5).
          write_toc w (TableFooter index_ptr filter_ptr) tb5)))"

section \<open>Reader\<close>

text \<open>\<open>read_at\<close> overwrites the beginning of a buffer and returns how many bytes it read.\<close>

definition read_at :: "bytes \<Rightarrow> bytes \<Rightarrow> nat \<Rightarrow> bytes \<times> nat" where
  "read_at src dst off =
     (if length src < off then (dst, 0)
      else let remaining = length src - off;
               to_read = (if remaining < length dst then remaining else length dst)
           in (slice src off (off + to_read) @ drop to_read dst, to_read))"

definition read_footer :: "wire \<Rightarrow> bytes \<Rightarrow> nat \<Rightarrow> table_footer res" where
  "read_footer w reader reader_size =
     (if reader_size < TABLE_FOOTER_LENGTH then Inl (Panic ''attempt to subtract with overflow'')
      else let footer_buf = fst (read_at reader (replicate TABLE_FOOTER_LENGTH 0)
                                  (reader_size - TABLE_FOOTER_LENGTH));
               footer = take (TABLE_FOOTER_LENGTH - 4) footer_buf;
               crc_file = get_u32 w (drop (TABLE_FOOTER_LENGTH - 4) footer_buf)
           in if crc32 w footer \<noteq> crc_file then Inl (Err (DataCorrupted ''checksum does not match''))
              else if get_u32 w footer \<noteq> BLOCK_TABLE_MAGIC_NUMBER
              then Inl (Err (DataCorrupted ''table magic number does not match''))
              else let index_ptr = ItemPointer (unat (get_u64 w (drop 4 footer))) (unat (get_u64 w (drop 12 footer)));
                       filter_offset = get_u64 w (drop 20 footer);
                       filter_length = get_u64 w (drop 28 footer);
                       filter_ptr = (if 0 < filter_length
                         then Some (ItemPointer (unat filter_offset) (unat filter_length)) else None)
                   in Inr (TableFooter index_ptr filter_ptr))"

definition read_block :: "wire \<Rightarrow> bytes \<Rightarrow> item_pointer \<Rightarrow> bytes res" where
  "read_block w reader p =
     (let contents = fst (read_at reader (replicate (item_length p + BLOCK_TRAILER_LENGTH) 0) (item_offset p));
          trailer = drop (item_length p) contents;
          contents' = take (item_length p) contents
      in if crc32 w contents' \<noteq> get_u32 w trailer
         then Inl (Err (DataCorrupted ''block checksum does not match''))
         else Inr contents')"

record 'b table_reader =
  tr_reader :: bytes
  tr_size :: nat
  tr_toc :: table_footer
  tr_index :: bytes
  tr_filter :: "'b filter_block_reader option"
  tr_cache_id :: cache_id

definition table_open ::
  "wire \<Rightarrow> (nat, bytes, 's) cache_ops \<Rightarrow> 'b table_options \<Rightarrow> bytes \<Rightarrow> nat \<Rightarrow> 's \<Rightarrow> ('b table_reader \<times> 's) res" where
  "table_open w ops opts reader reader_size cs =
     (let (i, cs') = op_new_id ops cs
      in res_bind (read_footer w reader reader_size) (\<lambda>footer.
         res_bind (read_block w reader (footer_index footer)) (\<lambda>index_block.
         res_bind (case footer_filter footer of
             Some p \<Rightarrow> res_bind (read_block w reader p) (\<lambda>fb. Inr (Some fb))
           | None \<Rightarrow> Inr None) (\<lambda>filter_block.
         Inr (\<lparr>tr_reader = reader, tr_size = reader_size, tr_toc = footer, tr_index = index_block,
               tr_filter = map_option (create_filter_block_reader (opt_policy opts)) filter_block,
               tr_cache_id = i\<rparr>, cs')))))"

definition get_block ::
  "wire \<Rightarrow> (nat, bytes, 's) cache_ops \<Rightarrow> 'b table_reader \<Rightarrow> item_pointer \<Rightarrow> bool \<Rightarrow> 's \<Rightarrow> (bytes \<times> 's) res" where
  "get_block w ops rd p for_compaction cs =
     res_bind (op_get ops (tr_cache_id rd, item_offset p) cs) (\<lambda>(found, cs1).
       case found of
         Some block \<Rightarrow> Inr (block, cs1)
       | None \<Rightarrow> res_bind (read_block w (tr_reader rd) p) (\<lambda>block.
           if \<not> for_compaction
           then res_bind (op_insert ops (tr_cache_id rd, item_offset p) block cs1) (\<lambda>(_, cs2). Inr (block, cs2))
           else Inr (block, cs1)))"

definition filter_allows :: "bytes \<Rightarrow> 'b table_reader \<Rightarrow> bool res" where
  "filter_allows key_buf rd =
     (case tr_filter rd of Some fr \<Rightarrow> key_may_match key_buf fr | None \<Rightarrow> Inr True)"

text \<open>A new iterator over a block, \<open>seek\<close>, and \<open>current\<close>.\<close>

definition seek_block ::
  "wire \<Rightarrow> (bytes \<Rightarrow> bytes \<Rightarrow> ordering) \<Rightarrow> bytes \<Rightarrow> bytes \<Rightarrow> (bytes \<times> bytes) option res" where
  "seek_block w kc block key_buf =
     res_bind (iter_new w block) (\<lambda>it. res_bind (iter_seek w kc key_buf it) iter_current)"

definition table_get ::
  "wire \<Rightarrow> ('k::linorder, 'v) table_codec \<Rightarrow> (nat, bytes, 's) cache_ops \<Rightarrow> 'b table_reader \<Rightarrow> 'k
    \<Rightarrow> 's \<Rightarrow> ('v option \<times> 's) res" where
  "table_get w c ops rd key cs =
     (let key_buf = ser_key c key
      in res_bind (filter_allows key_buf rd) (\<lambda>may.
         if \<not> may then Inr (None, cs)
         else res_bind (seek_block w (codec_cmp c) (tr_index rd) key_buf) (\<lambda>cur.
           case cur of
             None \<Rightarrow> Inr (None, cs)
           | Some (k, ptr_buf) \<Rightarrow> res_bind (unwrap (de_key c k)) (\<lambda>last_key.
               if \<not> key \<le> last_key then Inr (None, cs)
               else res_bind (unwrap (de_ptr c ptr_buf)) (\<lambda>p.
                 res_bind (get_block w ops rd p False cs) (\<lambda>(block, cs').
                 res_bind (seek_block w (codec_cmp c) block key_buf) (\<lambda>cur'.
                   case cur' of
                     None \<Rightarrow> Inr (None, cs')
                   | Some (kb, value_buf) \<Rightarrow> res_bind (unwrap (de_key c kb)) (\<lambda>k'.
                       if k' = key then res_bind (unwrap (de_val c value_buf)) (\<lambda>v. Inr (Some v, cs'))
                       else Inr (None, cs')))))))))"

text \<open>The implementation for keys and values that are bytes.\<close>

definition table_get_bytes ::
  "wire \<Rightarrow> (bytes \<Rightarrow> item_pointer option) \<Rightarrow> (nat, bytes, 's) cache_ops \<Rightarrow> 'b table_reader \<Rightarrow> bytes
    \<Rightarrow> 's \<Rightarrow> (bytes option \<times> 's) res" where
  "table_get_bytes w de_p ops rd key cs =
     res_bind (filter_allows key rd) (\<lambda>may.
       if \<not> may then Inr (None, cs)
       else res_bind (seek_block w bytes_cmp (tr_index rd) key) (\<lambda>cur.
         case cur of
           None \<Rightarrow> Inr (None, cs)
         | Some (last_key, ptr_buf) \<Rightarrow>
             if bytes_cmp key last_key = Greater then Inr (None, cs)
             else res_bind (unwrap (de_p ptr_buf)) (\<lambda>p.
               res_bind (get_block w ops rd p False cs) (\<lambda>(block, cs').
               res_bind (seek_block w bytes_cmp block key) (\<lambda>cur'.
                 case cur' of
                   None \<Rightarrow> Inr (None, cs')
                 | Some (key_buf, value_buf) \<Rightarrow>
                     if key_buf = key then Inr (Some value_buf, cs') else Inr (None, cs'))))))"

section \<open>Iterator\<close>

record table_iter =
  ti_block :: "data_block_iter option"
  ti_index :: data_block_iter
  ti_compaction :: bool

definition table_iter_new :: "wire \<Rightarrow> 'b table_reader \<Rightarrow> bool \<Rightarrow> table_iter res" where
  "table_iter_new w rd for_compaction =
     res_bind (iter_new w (tr_index rd)) (\<lambda>it.
       Inr \<lparr>ti_block = None, ti_index = it, ti_compaction = for_compaction\<rparr>)"

definition load_block ::
  "wire \<Rightarrow> (nat, bytes, 's) cache_ops \<Rightarrow> 'b table_reader \<Rightarrow> item_pointer \<Rightarrow> table_iter \<Rightarrow> 's
    \<Rightarrow> (table_iter \<times> 's) res" where
  "load_block w ops rd p it cs =
     res_bind (get_block w ops rd p (ti_compaction it) cs) (\<lambda>(block, cs').
     res_bind (iter_new w block) (\<lambda>bi. Inr (it\<lparr>ti_block := Some bi\<rparr>, cs')))"

definition get_next_block ::
  "wire \<Rightarrow> ('k, 'v) table_codec \<Rightarrow> (nat, bytes, 's) cache_ops \<Rightarrow> 'b table_reader \<Rightarrow> table_iter \<Rightarrow> 's
    \<Rightarrow> (bool \<times> table_iter \<times> 's) res" where
  "get_next_block w c ops rd it cs =
     res_bind (iter_next w (ti_index it)) (\<lambda>(found, ix).
       let it1 = it\<lparr>ti_index := ix\<rparr>
       in case found of
            Some (_, ptr_buf) \<Rightarrow> res_bind (unwrap (de_ptr c ptr_buf)) (\<lambda>p.
              res_bind (load_block w ops rd p it1 cs) (\<lambda>(it2, cs'). Inr (True, it2, cs')))
          | None \<Rightarrow> Inr (False, it1, cs))"

fun table_next ::
  "nat \<Rightarrow> wire \<Rightarrow> ('k, 'v) table_codec \<Rightarrow> (nat, bytes, 's) cache_ops \<Rightarrow> 'b table_reader \<Rightarrow> table_iter
    \<Rightarrow> 's \<Rightarrow> (('k \<times> 'v) option \<times> table_iter \<times> 's) res" where
  "table_next 0 w c ops rd it cs = Inl Diverges"
| "table_next (Suc fuel) w c ops rd it cs =
     (let from_next_block = (\<lambda>it cs.
        res_bind (get_next_block w c ops rd it cs) (\<lambda>(more, it', cs').
          if more then table_next fuel w c ops rd it' cs' else Inr (None, it', cs')))
      in case ti_block it of
           None \<Rightarrow> from_next_block it cs
         | Some bi \<Rightarrow> res_bind (iter_next w bi) (\<lambda>(found, bi').
             case found of
               Some (key_buf, value_buf) \<Rightarrow>
                 res_bind (unwrap (de_key c key_buf)) (\<lambda>k.
                 res_bind (unwrap (de_val c value_buf)) (\<lambda>v.
                   Inr (Some (k, v), it\<lparr>ti_block := Some bi'\<rparr>, cs)))
             | None \<Rightarrow> from_next_block (it\<lparr>ti_block := None\<rparr>) cs))"

declare table_next.simps [simp del]

end
