(* ===== verification/Table_Build.thy ===== *)
theory Table_Build
  imports Block_Table
begin

text \<open>
  What the table builder writes: the entries in groups, each group a sealed block, then the filter
  block, the index block with the last key of every group, and the footer. \<open>table_file\<close> is this
  layout; \<open>build_table_file\<close> shows that adding entries and finishing gives it.
\<close>

section \<open>Layout\<close>

definition frame :: "wire \<Rightarrow> bytes \<Rightarrow> bytes" where
  "frame w b = b @ put_u32 w (crc32 w b)"

definition frames :: "wire \<Rightarrow> bytes list \<Rightarrow> bytes" where
  "frames w bs = concat (map (frame w) bs)"

lemma frames_simps [simp]:
  "frames w [] = []" "frames w (b # bs) = frame w b @ frames w bs"
  "frames w (bs @ bs') = frames w bs @ frames w bs'"
  by (simp_all add: frames_def)

fun layout :: "nat \<Rightarrow> bytes list \<Rightarrow> item_pointer list" where
  "layout off [] = []"
| "layout off (b # bs) = ItemPointer off (length b) # layout (off + length b + 4) bs"

lemma length_layout [simp]: "length (layout off bs) = length bs"
  by (induction off bs rule: layout.induct) simp_all

definition enc :: "('k, 'v) table_codec \<Rightarrow> 'k \<times> 'v \<Rightarrow> bytes \<times> bytes" where
  "enc c kv = (ser_key c (fst kv), ser_val c (snd kv))"

definition index_entries ::
  "('k, 'v) table_codec \<Rightarrow> ('k \<times> 'v) list list \<Rightarrow> item_pointer list \<Rightarrow> (bytes \<times> bytes) list" where
  "index_entries c gs ps = map (\<lambda>(g, p). (ser_key c (fst (last g)), ser_ptr c p)) (zip gs ps)"

definition filter_of ::
  "('k, 'v) table_codec \<Rightarrow> 'b filter_policy \<Rightarrow> ('k \<times> 'v) list \<Rightarrow> 'b filter_block_builder" where
  "filter_of c p kvs = fold (filter_add p) (map (ser_key c \<circ> fst) kvs) (filter_builder_new p)"

lemma map_start_block [simp]: "map_option (filter_start_block n) f = f"
  by (cases f) (simp_all add: filter_start_block_def)

text \<open>The state of a builder that has been given \<open>kvs\<close>: \<open>gs\<close> are written as the blocks \<open>bs\<close>.\<close>

definition tb_inv ::
  "wire \<Rightarrow> ('k, 'v) table_codec \<Rightarrow> 'b filter_policy \<Rightarrow> ('k, 'b) table_builder \<Rightarrow> ('k \<times> 'v) list
    \<Rightarrow> ('k \<times> 'v) list list \<Rightarrow> ('k \<times> 'v) list \<Rightarrow> bytes list \<Rightarrow> bool" where
  "tb_inv w c p tb kvs gs cur bs \<longleftrightarrow> kvs = concat gs @ cur \<and> [] \<notin> set gs \<and>
     builder_holds w (block_builder tb) (map (enc c) cur) \<and>
     tb_last_key tb = (if kvs = [] then None else Some (fst (last kvs))) \<and>
     list_all2 (\<lambda>b g. sealed_of w b (map (enc c) g)) bs gs \<and>
     tb_out tb = frames w bs \<and> out_offset tb = length (tb_out tb) \<and>
     builder_holds w (index_builder tb) (index_entries c gs (layout 0 bs)) \<and>
     tb_filter tb = Some (filter_of c p kvs) \<and> opt_policy (tb_options tb) = p"

lemma tb_inv_new: "tb_inv w c (opt_policy opts) (table_builder_new opts) [] [] [] []"
  by (simp add: tb_inv_def table_builder_new_def builder_holds_new index_entries_def filter_of_def)

lemma write_block_result:
  "write_block w buf tb = Inr (ItemPointer (out_offset tb) (length buf),
     tb\<lparr>tb_out := tb_out tb @ frame w buf, out_offset := out_offset tb + length buf + 4\<rparr>)"
  by (simp add: write_block_def Let_def BLOCK_TRAILER_LENGTH_def frame_def)

lemma index_entries_snoc:
  "length gs = length ps \<Longrightarrow> index_entries c (gs @ [g]) (ps @ [p]) =
     index_entries c gs ps @ [(ser_key c (fst (last g)), ser_ptr c p)]"
  by (simp add: index_entries_def)

definition table_add_all ::
  "wire \<Rightarrow> ('k, 'v) table_codec \<Rightarrow> ('k \<times> 'v) list \<Rightarrow> ('k, 'b) table_builder \<Rightarrow> ('k, 'b) table_builder res" where
  "table_add_all w c kvs tb =
     fold (\<lambda>(k, v) r. res_bind r (table_add w c k v)) kvs (Inr tb)"

definition table_build ::
  "wire \<Rightarrow> ('k, 'v) table_codec \<Rightarrow> 'b table_options \<Rightarrow> ('k \<times> 'v) list \<Rightarrow> bytes res" where
  "table_build w c opts kvs =
     res_bind (table_add_all w c kvs (table_builder_new opts)) (\<lambda>tb.
     res_bind (table_finish w c tb) (\<lambda>tb'. Inr (tb_out tb')))"

text \<open>The file of the entries \<open>concat gs\<close>.\<close>

definition table_file ::
  "wire \<Rightarrow> ('k, 'v) table_codec \<Rightarrow> 'b filter_policy \<Rightarrow> bytes \<Rightarrow> ('k \<times> 'v) list list \<Rightarrow> bytes list
    \<Rightarrow> bytes \<Rightarrow> bytes \<Rightarrow> bool" where
  "table_file w c p file gs bs filt idx \<longleftrightarrow> [] \<notin> set gs \<and>
     list_all2 (\<lambda>b g. sealed_of w b (map (enc c) g)) bs gs \<and>
     (\<exists>fb. filter_seal p (filter_of c p (concat gs)) = Inr (filt, fb)) \<and>
     sealed_of w idx (index_entries c gs (layout 0 bs)) \<and>
     (\<exists>toc. toc = toc_bytes w (TableFooter
          (ItemPointer (length (frames w (bs @ [filt]))) (length idx))
          (Some (ItemPointer (length (frames w bs)) (length filt)))) \<and>
        file = frames w (bs @ [filt, idx]) @ toc @ put_u32 w (crc32 w toc))"

context wire_format begin

lemma length_frame [simp]: "length (frame w b) = length b + 4"
  by (simp add: frame_def)

lemma layout_snoc:
  "layout off (bs @ [b]) = layout off bs @ [ItemPointer (off + length (frames w bs)) (length b)]"
  by (induction off bs rule: layout.induct) (simp_all add: add_ac)

lemma flush_index:
  assumes inv: "tb_inv w c p tb kvs gs cur bs"
  shows "\<exists>ptr tb1 gs' bs'. table_flush w tb = Inr (ptr, tb1) \<and>
    tb_inv w c p (index_add w c ptr tb1) kvs gs' [] bs'"
proof (cases "cur = []")
  case True
  then have "builder_empty (block_builder tb)"
    using inv builder_empty_iff by (fastforce simp: tb_inv_def)
  then show ?thesis
    using inv True by (auto simp: table_flush_def index_add_def)
next
  case False
  obtain buf bb where seal: "builder_seal w (block_builder tb) = (buf, bb)" by fastforce
  have h: "builder_holds w (block_builder tb) (map (enc c) cur)" using inv by (simp add: tb_inv_def)
  then have ne: "\<not> builder_empty (block_builder tb)" using False builder_empty_iff by fastforce
  have sealed: "sealed_of w buf (map (enc c) cur)" using builder_holds_seal [OF h] seal by simp
  define ptr where "ptr = ItemPointer (out_offset tb) (length buf)"
  define tb1 where "tb1 = tb\<lparr>block_builder := builder_reset bb, tb_out := tb_out tb @ frame w buf,
      out_offset := out_offset tb + length buf + 4\<rparr>"
  have fl: "table_flush w tb = Inr (Some ptr, tb1)"
    using ne by (simp add: table_flush_def seal write_block_result ptr_def tb1_def)
  have lk: "tb_last_key tb = Some (fst (last cur))"
    using inv False by (simp add: tb_inv_def)
  define tb2 where "tb2 = tb1\<lparr>index_builder := builder_add w (ser_key c (fst (last cur))) (ser_ptr c ptr)
      (index_builder tb)\<rparr>"
  have ix: "index_add w c (Some ptr) tb1 = tb2"
    using lk by (simp add: index_add_def tb1_def tb2_def add_item_def)
  have len: "length gs = length bs"
    using inv list_all2_lengthD by (fastforce simp: tb_inv_def)
  have "builder_holds w (index_builder tb2) (index_entries c gs (layout 0 bs) @ [(ser_key c (fst (last cur)), ser_ptr c ptr)])"
    unfolding tb2_def using inv by (simp add: tb_inv_def builder_holds_add)
  then have idx: "builder_holds w (index_builder tb2) (index_entries c (gs @ [cur]) (layout 0 (bs @ [buf])))"
    using inv len by (simp add: layout_snoc index_entries_snoc ptr_def tb_inv_def)
  have "list_all2 (\<lambda>b g. sealed_of w b (map (enc c) g)) (bs @ [buf]) (gs @ [cur])"
    using inv sealed by (intro list_all2_appendI) (simp_all add: tb_inv_def)
  then have "tb_inv w c p tb2 kvs (gs @ [cur]) [] (bs @ [buf])"
    using inv False idx builder_holds_reset [of w bb] unfolding tb_inv_def
    by (simp add: tb2_def tb1_def)
  with fl ix show ?thesis by metis
qed

lemma table_add_inv:
  assumes inv: "tb_inv w c p tb kvs gs cur bs"
  shows "\<exists>tb' gs' cur' bs'. table_add w c k v tb = Inr tb' \<and> tb_inv w c p tb' (kvs @ [(k, v)]) gs' cur' bs'"
proof -
  let ?k = "ser_key c k" and ?v = "ser_val c v"
  obtain tb0 gs0 cur0 bs0 where tb0: "tb_inv w c p tb0 kvs gs0 cur0 bs0"
    "table_add w c k v tb = Inr (tb0\<lparr>tb_filter := map_option (filter_add (opt_policy (tb_options tb0)) ?k) (tb_filter tb0),
       block_builder := builder_add w ?k ?v (block_builder tb0), tb_last_key := Some k\<rparr>)"
  proof (cases "need_flush ?k ?v tb")
    case True
    obtain ptr tb1 gs' bs' where fl: "table_flush w tb = Inr (ptr, tb1)"
      "tb_inv w c p (index_add w c ptr tb1) kvs gs' [] bs'"
      using flush_index [OF inv] by blast
    then show ?thesis
      using that [OF fl(2)] True fl(1) by (simp add: table_add_def add_raw_def Let_def)
  next
    case False
    then show ?thesis using that [OF inv] by (simp add: table_add_def add_raw_def)
  qed
  have "tb_inv w c p (tb0\<lparr>tb_filter := map_option (filter_add (opt_policy (tb_options tb0)) ?k) (tb_filter tb0),
       block_builder := builder_add w ?k ?v (block_builder tb0), tb_last_key := Some k\<rparr>)
     (kvs @ [(k, v)]) gs0 (cur0 @ [(k, v)]) bs0"
    using tb0(1) builder_holds_add [of w "block_builder tb0" "map (enc c) cur0" ?k ?v] unfolding tb_inv_def
    by (simp add: filter_of_def enc_def)
  with tb0(2) show ?thesis by blast
qed

lemma table_add_all_inv:
  "tb_inv w c p tb kvs gs cur bs \<Longrightarrow>
     \<exists>tb' gs' cur' bs'. table_add_all w c kvs' tb = Inr tb' \<and> tb_inv w c p tb' (kvs @ kvs') gs' cur' bs'"
proof (induction kvs' arbitrary: tb kvs gs cur bs)
  case (Cons kv kvs')
  obtain tb1 gs1 cur1 bs1 where tb1: "table_add w c (fst kv) (snd kv) tb = Inr tb1"
    "tb_inv w c p tb1 (kvs @ [kv]) gs1 cur1 bs1"
    using table_add_inv [OF Cons.prems, of "fst kv" "snd kv"] by auto
  then show ?case
    using Cons.IH [OF tb1(2)] by (simp add: table_add_all_def case_prod_beta)
qed (auto simp: table_add_all_def)

lemma length_toc [simp]: "length (toc_bytes w footer) = 36"
  by (simp add: toc_bytes_def split: option.splits)

lemma table_finish_file:
  assumes inv: "tb_inv w c p tb kvs gs cur bs" and fc: "filter_contract p"
  shows "\<exists>tb' gs' bs' filt idx. table_finish w c tb = Inr tb' \<and> concat gs' = kvs \<and>
    table_file w c p (tb_out tb') gs' bs' filt idx"
proof -
  obtain ptr tb1 gs' bs' where fl: "table_flush w tb = Inr (ptr, tb1)"
    "tb_inv w c p (index_add w c ptr tb1) kvs gs' [] bs'"
    using flush_index [OF inv] by blast
  define tb2 where "tb2 = index_add w c ptr tb1"
  have inv2: "tb_inv w c p tb2 kvs gs' [] bs'" using fl(2) by (simp add: tb2_def)
  obtain filt fb where filt: "filter_seal p (filter_of c p kvs) = Inr (filt, fb)"
    using filter_contract.filter_block_sound [OF fc, of "map (ser_key c \<circ> fst) kvs"]
    by (auto simp: filter_of_def)
  obtain idx ib where idx: "builder_seal w (index_builder tb2) = (idx, ib)" by fastforce
  define toc where "toc = toc_bytes w (TableFooter
      (ItemPointer (length (frames w (bs' @ [filt]))) (length idx))
      (Some (ItemPointer (length (frames w bs')) (length filt))))"
  have out: "tb_out tb2 = frames w bs'" "out_offset tb2 = length (frames w bs')"
    "tb_filter tb2 = Some (filter_of c p kvs)" "opt_policy (tb_options tb2) = p" "concat gs' = kvs"
    using inv2 by (simp_all add: tb_inv_def)
  obtain tb' where tb': "table_finish w c tb = Inr tb'"
    "tb_out tb' = frames w (bs' @ [filt, idx]) @ toc @ put_u32 w (crc32 w toc)"
    unfolding table_finish_def fl(1) res_bind_Inr case_prod_conv Let_def tb2_def [symmetric] out(3)
    by (simp add: out filt idx write_block_result write_toc_def Let_def TABLE_FOOTER_LENGTH_def
        add_ac) (simp add: toc_def add_ac)
  have "sealed_of w idx (index_entries c gs' (layout 0 bs'))"
    using builder_holds_seal [of w "index_builder tb2" "index_entries c gs' (layout 0 bs')"] inv2 idx
    by (simp add: tb_inv_def)
  then have "table_file w c p (tb_out tb') gs' bs' filt idx"
    using inv2 filt unfolding table_file_def tb'(2) toc_def tb_inv_def by auto
  with tb'(1) out(5) show ?thesis by blast
qed

lemma build_table_file:
  assumes "filter_contract (opt_policy opts)"
  shows "\<exists>file gs bs filt idx. table_build w c opts kvs = Inr file \<and> concat gs = kvs \<and>
    table_file w c (opt_policy opts) file gs bs filt idx"
proof -
  obtain tb gs cur bs where tb: "table_add_all w c kvs (table_builder_new opts) = Inr tb"
    "tb_inv w c (opt_policy opts) tb kvs gs cur bs"
    using table_add_all_inv [OF tb_inv_new [of w c opts], of kvs] by auto
  show ?thesis
    using table_finish_file [OF tb(2) assms] unfolding table_build_def tb(1) res_bind_Inr by fastforce
qed

end

end
