(* ===== verification/Table_Read.thy ===== *)
theory Table_Read
  imports Table_Build
begin

text \<open>
  Reading a table file back. The reader relies on three contracts: an encoding that is inverted by
  its decoder (\<open>table_format\<close>), a filter without false negatives (\<open>filter_contract\<close>) and a cache that
  returns what was inserted (\<open>lossy_map\<close>); the locale \<open>table_reading\<close> puts them together. Its two main
  lemmas, a lookup and an iteration, become the properties at the end.
\<close>

section \<open>The encoding\<close>

definition codec_ok :: "('k, 'v) table_codec \<Rightarrow> bool" where
  "codec_ok c \<longleftrightarrow> (\<forall>k. de_key c (ser_key c k) = Some k) \<and> (\<forall>v. de_val c (ser_val c v) = Some v) \<and>
     (\<forall>q. item_offset q < 2 ^ 64 \<and> item_length q < 2 ^ 64 \<longrightarrow> de_ptr c (ser_ptr c q) = Some q)"

locale table_format = wire_format w for w +
  fixes c :: "('k::linorder, 'v) table_codec"
  assumes de_ser_key [simp]: "de_key c (ser_key c k) = Some k"
    and de_ser_val [simp]: "de_val c (ser_val c v) = Some v"
    and de_ser_ptr: "item_offset q < 2 ^ 64 \<Longrightarrow> item_length q < 2 ^ 64 \<Longrightarrow> de_ptr c (ser_ptr c q) = Some q"

lemma table_format_iff: "table_format w c \<longleftrightarrow> wire_ok w \<and> codec_ok c"
  by (auto simp: table_format_def table_format_axioms_def wire_format_iff codec_ok_def)

definition is_key :: "('k, 'v) table_codec \<Rightarrow> bytes \<Rightarrow> bool" where
  "is_key c b \<longleftrightarrow> (\<exists>k. b = ser_key c k)"

section \<open>Lists in ascending order\<close>

lemma find_map_of:
  assumes "sorted_wrt (<) (map fst (kvs :: ('k::linorder \<times> 'v) list))"
  shows "(case find (\<lambda>kv. \<not> fst kv < key) kvs of
      None \<Rightarrow> None | Some (k, v) \<Rightarrow> if k = key then Some v else None) = map_of kvs key"
  using assms
proof (induction kvs)
  case (Cons kv kvs)
  have "map_of kvs key = None" if "key < fst kv"
    using Cons.prems that by (auto simp: map_of_eq_None_iff dest: order.strict_trans)
  then show ?case using Cons by (cases kv) (auto simp: not_less_iff_gr_or_eq)
qed simp

lemma sorted_concat_nth:
  assumes "sorted_wrt (<) (map fst (concat gs :: ('k::linorder \<times> 'v) list))" "i < j" "j < length gs"
    "x \<in> set (gs ! i)" "y \<in> set (gs ! j)"
  shows "fst x < fst y"
proof -
  have "concat gs = concat (take j gs @ gs ! j # drop (Suc j) gs)"
    using id_take_nth_drop [OF assms(3)] by (rule arg_cong)
  then have "concat gs = concat (take j gs) @ gs ! j @ concat (drop (Suc j) gs)" by simp
  then have "\<forall>a\<in>set (concat (take j gs)). \<forall>b\<in>set (gs ! j). fst a < fst b"
    using assms(1) by (auto simp: sorted_wrt_append)
  moreover have "gs ! i \<in> set (take j gs)"
    using assms(2,3) nth_mem [of i "take j gs"] by simp
  ultimately show ?thesis using assms(4,5) by auto
qed

lemma sorted_group:
  "sorted_wrt (<) (map fst (concat gs :: ('k::linorder \<times> 'v) list)) \<Longrightarrow> g \<in> set gs \<Longrightarrow>
     sorted_wrt (<) (map fst g)"
  by (induction gs) (auto simp: sorted_wrt_append)

lemma sorted_le_last:
  "sorted_wrt (<) (map fst (g :: ('k::linorder \<times> 'v) list)) \<Longrightarrow> x \<in> set g \<Longrightarrow> fst x \<le> fst (last g)"
  by (induction g rule: rev_induct) (auto simp: sorted_wrt_append)

lemma sorted_map_of_iff:
  "sorted_wrt (<) (map fst (kvs :: ('k::linorder \<times> 'v) list)) \<Longrightarrow> map_of kvs k = Some v \<longleftrightarrow> (k, v) \<in> set kvs"
  by (rule map_of_eq_Some_iff) (simp add: strict_sorted_iff)

text \<open>The group whose last key is the first not below \<open>key\<close> decides the lookup.\<close>

lemma map_of_group:
  assumes s: "sorted_wrt (<) (map fst (concat gs :: ('k::linorder \<times> 'v) list))" and i: "i < length gs"
    and ge: "key \<le> fst (last (gs ! i))" and lt: "\<forall>m<i. fst (last (gs ! m)) < key" and ne: "[] \<notin> set gs"
  shows "map_of (concat gs) key = map_of (gs ! i) key"
proof -
  have gi: "gs ! i \<in> set gs" and si: "sorted_wrt (<) (map fst (gs ! i))"
    using i sorted_group [OF s] by simp_all
  have "(key, v) \<in> set (concat gs) \<longleftrightarrow> (key, v) \<in> set (gs ! i)" for v
  proof
    assume "(key, v) \<in> set (concat gs)"
    then obtain g where "g \<in> set gs" "(key, v) \<in> set g" by auto
    then obtain j where j: "j < length gs" "(key, v) \<in> set (gs ! j)"
      by (metis in_set_conv_nth)
    have "\<not> j < i"
      using sorted_le_last [OF sorted_group [OF s] j(2)] j(1) lt by fastforce
    moreover have "\<not> i < j"
    proof
      assume ij: "i < j"
      have "last (gs ! i) \<in> set (gs ! i)" using ne gi by (metis last_in_set)
      then show False using sorted_concat_nth [OF s ij j(1) _ j(2)] ge by fastforce
    qed
    ultimately have "j = i" by simp
    then show "(key, v) \<in> set (gs ! i)" using j(2) by simp
  qed (use gi in auto)
  then show ?thesis
    using sorted_map_of_iff [OF s, of key] sorted_map_of_iff [OF si, of key]
    by (metis not_Some_eq)
qed

lemma sorted_last_keys:
  assumes "sorted_wrt (<) (map fst (concat gs :: ('k::linorder \<times> 'v) list))" "[] \<notin> set gs"
  shows "sorted_wrt (<) (map (fst \<circ> last) gs)"
  unfolding sorted_wrt_iff_nth_less
proof (intro allI impI)
  fix i j assume ij: "i < j" "j < length (map (fst \<circ> last) gs)"
  have "last (gs ! i) \<in> set (gs ! i)" "last (gs ! j) \<in> set (gs ! j)"
    using assms(2) ij by (metis last_in_set length_map nth_mem order.strict_trans)+
  then show "map (fst \<circ> last) gs ! i < map (fst \<circ> last) gs ! j"
    using sorted_concat_nth [OF assms(1), of i j] ij by simp
qed

section \<open>Reading bytes\<close>

lemma read_at_mid: "length dst = length x \<Longrightarrow> read_at (pre @ x @ post) dst (length pre) = (x, length x)"
  by (simp add: read_at_def)

context wire_format begin

lemma read_block_frame:
  "read_block w (pre @ frame w b @ post) (ItemPointer (length pre) (length b)) = Inr b"
  using read_at_mid [of "replicate (length b + 4) 0" "frame w b" pre post]
  by (simp add: read_block_def BLOCK_TRAILER_LENGTH_def Let_def) (simp add: frame_def)

lemma layout_nth:
  "i < length bs \<Longrightarrow> layout off bs ! i = ItemPointer (off + length (frames w (take i bs))) (length (bs ! i))"
  by (induction off bs arbitrary: i rule: layout.induct) (auto simp: less_Suc_eq_0_disj add_ac)

lemma frames_split:
  "i < length bs \<Longrightarrow> frames w bs = frames w (take i bs) @ frame w (bs ! i) @ frames w (drop (Suc i) bs)"
  by (metis frames_simps(2,3) id_take_nth_drop)

lemma read_block_layout:
  "i < length bs \<Longrightarrow> read_block w (frames w bs @ rest) (layout 0 bs ! i) = Inr (bs ! i)"
  using read_block_frame [of "frames w (take i bs)" "bs ! i" "frames w (drop (Suc i) bs) @ rest"]
  by (subst frames_split) (simp_all add: layout_nth)

lemma layout_offset_inj:
  assumes "i < length bs" "j < length bs" "item_offset (layout 0 bs ! i) = item_offset (layout 0 bs ! j)"
  shows "i = j"
proof -
  have mono: "m < n \<Longrightarrow> n \<le> length bs \<Longrightarrow> length (frames w (take m bs)) < length (frames w (take n bs))" for m n
    by (induction n) (auto simp: take_Suc_conv_app_nth less_Suc_eq)
  have "length (frames w (take i bs)) = length (frames w (take j bs))"
    using assms by (simp add: layout_nth)
  then show ?thesis using mono [of i j] mono [of j i] assms(1,2) by (cases i j rule: linorder_cases) simp_all
qed

definition file_footer :: "bytes list \<Rightarrow> bytes \<Rightarrow> bytes \<Rightarrow> table_footer" where
  "file_footer bs filt idx = TableFooter
     (ItemPointer (length (frames w (bs @ [filt]))) (length idx))
     (Some (ItemPointer (length (frames w bs)) (length filt)))"

lemma of_nat_u64: "n < 2 ^ 64 \<Longrightarrow> unat (of_nat n :: u64) = n"
  by (simp add: unat_of_nat take_bit_nat_eq_self)

lemma read_footer_toc:
  assumes "length pre < 2 ^ 32" "ft = TableFooter (ItemPointer a b) (Some (ItemPointer x y))"
    "a < 2 ^ 64" "b < 2 ^ 64" "x < 2 ^ 64" "y < 2 ^ 64"
  shows "read_footer w (pre @ toc_bytes w ft @ put_u32 w (crc32 w (toc_bytes w ft)))
     (length (pre @ toc_bytes w ft @ put_u32 w (crc32 w (toc_bytes w ft))))
    = Inr (TableFooter (ItemPointer a b) (if 0 < y then Some (ItemPointer x y) else None))"
proof -
  let ?t = "toc_bytes w ft"
  have r: "read_at (pre @ ?t @ put_u32 w (crc32 w ?t)) (replicate 40 0) (length pre)
      = (?t @ put_u32 w (crc32 w ?t), 40)"
    using read_at_mid [of "replicate 40 0" "?t @ put_u32 w (crc32 w ?t)" pre "[]"] by simp
  have t: "get_u32 w ?t = BLOCK_TABLE_MAGIC_NUMBER" "get_u64 w (drop 4 ?t) = of_nat a"
    "get_u64 w (drop 12 ?t) = of_nat b" "get_u64 w (drop 20 ?t) = of_nat x" "get_u64 w (drop 28 ?t) = of_nat y"
    by (simp_all add: toc_bytes_def assms(2))
  have "(0 :: u64) < of_nat y \<longleftrightarrow> 0 < y"
    using of_nat_u64 [OF assms(6)] by (metis unat_0 word_less_nat_alt)
  then show ?thesis
    using assms(3-6) by (simp add: read_footer_def TABLE_FOOTER_LENGTH_def r t of_nat_u64)
qed

end

section \<open>The reader\<close>

text \<open>\<open>reads w c p rd gs bs\<close>: the reader \<open>rd\<close> is open on the file of the groups \<open>gs\<close>.\<close>

definition reads ::
  "wire \<Rightarrow> ('k, 'v) table_codec \<Rightarrow> 'b filter_policy \<Rightarrow> 'b table_reader \<Rightarrow> ('k \<times> 'v) list list
    \<Rightarrow> bytes list \<Rightarrow> bool" where
  "reads w c p rd gs bs \<longleftrightarrow> (\<exists>filt. table_file w c p (tr_reader rd) gs bs filt (tr_index rd) \<and>
     length (tr_reader rd) < 2 ^ 32 \<and>
     tr_filter rd = (if filt = [] then None else Some (create_filter_block_reader p filt)))"

text \<open>
  What the cache may hold: \<open>tbl\<close> gives the blocks of the files that are open, by identifier; an entry
  under such an identifier is a block of that file.
\<close>

definition block_entry :: "(cache_id \<Rightarrow> bytes list option) \<Rightarrow> cache_id \<times> nat \<Rightarrow> bytes \<Rightarrow> bool" where
  "block_entry tbl = (\<lambda>(j, off) b. \<forall>bs. tbl j = Some bs \<longrightarrow>
     (\<exists>i<length bs. off = item_offset (layout 0 bs ! i) \<and> b = bs ! i))"

definition ascending :: "('k::linorder, 'v) table_codec \<Rightarrow> ('k \<times> 'v) list \<Rightarrow> bool" where
  "ascending c kvs \<longleftrightarrow> sorted_wrt (<) (map fst kvs) \<and> (\<forall>kv\<in>set kvs. ser_key c (fst kv) \<noteq> [])"

lemma find_nth:
  assumes "find P xs = Some y"
  obtains i where "i < length xs" "xs ! i = y" "P y" "\<forall>m<i. \<not> P (xs ! m)"
  using assms by (auto simp: find_Some_iff)

context wire_format begin

lemma table_file_lengths:
  assumes f: "table_file w c p file gs bs filt idx" and l: "length file < 2 ^ 32"
  shows "length idx < 2 ^ 32" "length gs = length bs" "i < length bs \<Longrightarrow> block_of w (bs ! i) (map (enc c) (gs ! i))"
    "block_of w idx (index_entries c gs (layout 0 bs))" "length (frames w (bs @ [filt])) < 2 ^ 32"
    "length filt < 2 ^ 32" "length (frames w bs) < 2 ^ 32"
proof -
  obtain toc where toc: "file = frames w (bs @ [filt, idx]) @ toc"
    using f by (auto simp: table_file_def)
  show ll: "length idx < 2 ^ 32" "length (frames w (bs @ [filt])) < 2 ^ 32" "length filt < 2 ^ 32"
      "length (frames w bs) < 2 ^ 32"
    using l by (simp_all add: toc)
  show lg: "length gs = length bs"
    using f list_all2_lengthD by (fastforce simp: table_file_def)
  show "block_of w idx (index_entries c gs (layout 0 bs))"
    using f ll(1) by (simp add: table_file_def block_of_def)
  assume i: "i < length bs"
  have "length (bs ! i) < 2 ^ 32"
    using ll(4) by (subst (asm) frames_split [OF i]) simp
  then show "block_of w (bs ! i) (map (enc c) (gs ! i))"
    using f i by (simp add: table_file_def block_of_def list_all2_conv_all_nth)
qed

lemma table_open_reads:
  assumes f: "table_file w c (opt_policy opts) file gs bs filt idx" and l: "length file < 2 ^ 32"
  shows "\<exists>rd. table_open w ops opts file (length file) cs = Inr (rd, snd (op_new_id ops cs)) \<and>
    reads w c (opt_policy opts) rd gs bs \<and> tr_cache_id rd = fst (op_new_id ops cs)"
proof -
  let ?fi = "ItemPointer (length (frames w (bs @ [filt]))) (length idx)"
  let ?ff = "ItemPointer (length (frames w bs)) (length filt)"
  define ft where "ft = TableFooter ?fi (Some ?ff)"
  note ll = table_file_lengths [OF f l]
  have fl: "file = frames w (bs @ [filt, idx]) @ toc_bytes w ft @ put_u32 w (crc32 w (toc_bytes w ft))"
    using f by (auto simp: table_file_def ft_def)
  have pre: "length (frames w (bs @ [filt, idx])) < 2 ^ 32"
    using l by (simp add: fl)
  have foot: "read_footer w file (length file) =
      Inr (TableFooter ?fi (if 0 < length filt then Some ?ff else None))"
    using read_footer_toc [OF pre ft_def] ll by (simp only: fl) simp
  have ri: "read_block w file ?fi = Inr idx"
    using read_block_frame [of "frames w (bs @ [filt])" idx "toc_bytes w ft @ put_u32 w (crc32 w (toc_bytes w ft))"]
    by (simp add: fl)
  have rf: "read_block w file ?ff = Inr filt"
    using read_block_frame [of "frames w bs" filt "frame w idx @ toc_bytes w ft @ put_u32 w (crc32 w (toc_bytes w ft))"]
    by (simp add: fl)
  define rd where "rd = \<lparr>tr_reader = file, tr_size = length file,
      tr_toc = TableFooter ?fi (if 0 < length filt then Some ?ff else None), tr_index = idx,
      tr_filter = (if filt = [] then None else Some (create_filter_block_reader (opt_policy opts) filt)),
      tr_cache_id = fst (op_new_id ops cs)\<rparr>"
  have "reads w c (opt_policy opts) rd gs bs"
    unfolding reads_def rd_def using f l by (intro exI [of _ filt]) simp
  moreover have "table_open w ops opts file (length file) cs = Inr (rd, snd (op_new_id ops cs))"
    unfolding table_open_def Let_def case_prod_beta foot res_bind_Inr table_footer.sel ri
    by (cases "filt = []") (simp_all add: rf rd_def)
  ultimately show ?thesis by (auto simp: rd_def)
qed

lemma reads_block:
  assumes r: "reads w c p rd gs bs" and i: "i < length bs"
  shows "read_block w (tr_reader rd) (layout 0 bs ! i) = Inr (bs ! i)"
    "block_of w (bs ! i) (map (enc c) (gs ! i))"
    "item_offset (layout 0 bs ! i) < 2 ^ 64" "item_length (layout 0 bs ! i) < 2 ^ 64"
proof -
  obtain filt where f: "table_file w c p (tr_reader rd) gs bs filt (tr_index rd)"
    "length (tr_reader rd) < 2 ^ 32"
    using r by (auto simp: reads_def)
  then obtain toc where fl: "tr_reader rd = frames w bs @ toc" by (auto simp: table_file_def)
  show "read_block w (tr_reader rd) (layout 0 bs ! i) = Inr (bs ! i)"
    unfolding fl by (rule read_block_layout [OF i])
  show "block_of w (bs ! i) (map (enc c) (gs ! i))"
    by (rule table_file_lengths(3) [OF f i])
  have "length (frames w (take i bs)) + length (bs ! i) < 2 ^ 32"
    using table_file_lengths(7) [OF f] by (subst (asm) frames_split [OF i]) simp
  then show "item_offset (layout 0 bs ! i) < 2 ^ 64" "item_length (layout 0 bs ! i) < 2 ^ 64"
    by (simp_all add: layout_nth [OF i])
qed

lemma seek_block_result:
  assumes "block_of w b kvs" "cmp_order kc P" "\<forall>k\<in>set (map fst kvs). P k" "P key"
    "sorted_wrt (\<lambda>a b. kc a b = Less) (map fst kvs)" "\<forall>kv\<in>set kvs. fst kv \<noteq> []"
  shows "seek_block w kc b key = Inr (find (\<lambda>kv. kc (fst kv) key \<noteq> Less) kvs)"
proof -
  obtain it where it: "iter_new w b = Inr it" using block_scan [OF assms(1)] by blast
  obtain it' where it': "iter_seek w kc key it = Inr it'"
    "iter_current it' = Inr (case find (\<lambda>kv. kc (fst kv) key \<noteq> Less) kvs of
       None \<Rightarrow> None | Some (k, v) \<Rightarrow> if k = [] then None else Some (k, v))"
    using block_seek [OF assms(1-5) it] by blast
  have "fst kv \<noteq> []" if "find (\<lambda>kv. kc (fst kv) key \<noteq> Less) kvs = Some kv" for kv
    using that assms(6) by (metis find_nth nth_mem)
  then show ?thesis
    using it it' by (auto simp: seek_block_def split: option.splits)
qed

end

context table_format begin

lemma codec_cmp_ser [simp]: "codec_cmp c (ser_key c a) (ser_key c b) = lin_cmp a b"
  by (simp add: codec_cmp_def)

lemma ser_key_inj: "ser_key c a = ser_key c b \<longleftrightarrow> a = b"
  by (metis de_ser_key option.inject)

lemma codec_order: "cmp_order (codec_cmp c) (is_key c)"
  by unfold_locales (auto simp: is_key_def ser_key_inj lin_cmp_def split: if_splits)

lemma seek_entries:
  assumes blk: "block_of w b es" and k: "map fst es = map (ser_key c) ks"
    and s: "sorted_wrt (<) ks" and ne: "\<forall>k\<in>set ks. ser_key c k \<noteq> []"
  shows "seek_block w (codec_cmp c) b (ser_key c key) =
    Inr (find (\<lambda>kv. codec_cmp c (fst kv) (ser_key c key) \<noteq> Less) es)"
proof (rule seek_block_result [OF blk codec_order])
  show "\<forall>k\<in>set (map fst es). is_key c k" unfolding k by (auto simp: is_key_def)
  show "is_key c (ser_key c key)" by (auto simp: is_key_def)
  show "sorted_wrt (\<lambda>a b. codec_cmp c a b = Less) (map fst es)"
    unfolding k using s by (simp add: sorted_wrt_map)
  show "\<forall>kv\<in>set es. fst kv \<noteq> []"
    using ne k by (metis image_eqI imageE list.set_map)
qed

lemma find_enc:
  "find (\<lambda>kv. codec_cmp c (fst kv) (ser_key c key) \<noteq> Less) (map (enc c) kvs) =
     map_option (enc c) (find (\<lambda>kv. \<not> fst kv < key) kvs)"
  by (induction kvs) (auto simp: enc_def)

end

section \<open>Lookup and iteration over the contracts\<close>

locale table_reading =
  table_format w c + filter_contract p + lossy_map "op_get ops" "op_insert ops" view good
  for w and c :: "('k::linorder, 'v) table_codec" and p :: "'b filter_policy"
    and ops :: "(nat, bytes, 's) cache_ops" and view and good
begin

lemma get_block_result:
  assumes r: "reads w c p rd gs bs" and t: "tbl (tr_cache_id rd) = Some bs" and i: "i < length bs" and cs: "coherent (block_entry tbl) cs"
  shows "\<exists>cs'. get_block w ops rd (layout 0 bs ! i) for_compaction cs = Inr (bs ! i, cs') \<and>
    coherent (block_entry tbl) cs'"
proof -
  let ?k = "(tr_cache_id rd, item_offset (layout 0 bs ! i))"
  obtain x cs1 where g: "op_get ops ?k cs = Inr (x, cs1)" "coherent (block_entry tbl) cs1"
    "\<forall>v. x = Some v \<longrightarrow> block_entry tbl ?k v"
    using coherent_get [OF cs, of ?k] by blast
  show ?thesis
  proof (cases x)
    case None
    have "block_entry tbl ?k (bs ! i)" using i t by (auto simp: block_entry_def)
    then obtain y cs2 where "op_insert ops ?k (bs ! i) cs1 = Inr (y, cs2)" "coherent (block_entry tbl) cs2"
      using coherent_insert [OF g(2)] by blast
    then show ?thesis
      using None g(1,2) reads_block(1) [OF r i] by (simp add: get_block_def)
  next
    case (Some b)
    then have "block_entry tbl ?k b" using g(3) by blast
    then obtain j where j: "j < length bs" "item_offset (layout 0 bs ! i) = item_offset (layout 0 bs ! j)" "b = bs ! j"
      using t unfolding block_entry_def by auto
    have "j = i" using layout_offset_inj [OF i j(1,2)] by simp
    then have "b = bs ! i" using j(3) by simp
    then show ?thesis using Some g(1,2) by (simp add: get_block_def)
  qed
qed

lemma filter_allows_result:
  assumes r: "reads w c p rd gs bs"
  shows "\<exists>ans. filter_allows (ser_key c key) rd = Inr ans \<and>
    (map_of (concat gs) key \<noteq> None \<longrightarrow> ans)"
proof -
  obtain filt where f: "table_file w c p (tr_reader rd) gs bs filt (tr_index rd)"
    "tr_filter rd = (if filt = [] then None else Some (create_filter_block_reader p filt))"
    using r by (auto simp: reads_def)
  let ?ks = "map (ser_key c \<circ> fst) (concat gs)"
  obtain fb where seal: "filter_seal p (fold (filter_add p) ?ks (filter_builder_new p)) = Inr (filt, fb)"
    using f(1) by (auto simp: table_file_def filter_of_def)
  obtain data fb' where d: "filter_seal p (fold (filter_add p) ?ks (filter_builder_new p)) = Inr (data, fb')"
    "data = [] \<longleftrightarrow> ?ks = []"
    "?ks \<noteq> [] \<longrightarrow> (\<forall>key. \<exists>ans. key_may_match key (create_filter_block_reader p data) = Inr ans \<and>
        (key \<in> set ?ks \<longrightarrow> ans))"
    using filter_block_sound [of ?ks] by blast
  have "data = filt" using d(1) seal by simp
  then have e: "filt = [] \<longleftrightarrow> ?ks = []" and
    a: "?ks \<noteq> [] \<Longrightarrow> \<exists>ans. key_may_match (ser_key c key) (create_filter_block_reader p filt) = Inr ans \<and>
      (ser_key c key \<in> set ?ks \<longrightarrow> ans)"
    using d(2,3) by blast+
  have k: "ser_key c key \<in> set ?ks" if "map_of (concat gs) key \<noteq> None"
    using that by (force dest: map_of_SomeD)
  show ?thesis
  proof (cases "filt = []")
    case False
    then show ?thesis using a e k by (auto simp: filter_allows_def f(2) simp del: set_map)
  qed (auto simp: filter_allows_def f(2))
qed

lemma index_keys:
  assumes r: "reads w c p rd gs bs"
  shows "block_of w (tr_index rd) (index_entries c gs (layout 0 bs))" "length gs = length bs"
    "map fst (index_entries c gs (layout 0 bs)) = map (ser_key c) (map (fst \<circ> last) gs)"
    "i < length bs \<Longrightarrow> index_entries c gs (layout 0 bs) ! i = (ser_key c (fst (last (gs ! i))), ser_ptr c (layout 0 bs ! i))"
    "[] \<notin> set gs"
proof -
  obtain filt where f: "table_file w c p (tr_reader rd) gs bs filt (tr_index rd)"
    "length (tr_reader rd) < 2 ^ 32"
    using r by (auto simp: reads_def)
  note t = table_file_lengths [OF f]
  show "block_of w (tr_index rd) (index_entries c gs (layout 0 bs))" and l: "length gs = length bs"
    by (rule t(4), rule t(2))
  show "map fst (index_entries c gs (layout 0 bs)) = map (ser_key c) (map (fst \<circ> last) gs)"
    by (rule nth_equalityI) (simp_all add: index_entries_def l)
  show "i < length bs \<Longrightarrow> index_entries c gs (layout 0 bs) ! i = (ser_key c (fst (last (gs ! i))), ser_ptr c (layout 0 bs ! i))"
    by (simp add: index_entries_def l)
  show "[] \<notin> set gs" using f(1) by (simp add: table_file_def)
qed

lemma table_lookup:
  assumes r: "reads w c p rd gs bs" and t: "tbl (tr_cache_id rd) = Some bs" and cs: "coherent (block_entry tbl) cs"
    and asc: "ascending c (concat gs)"
  shows "\<exists>cs'. table_get w c ops rd key cs = Inr (map_of (concat gs) key, cs') \<and>
    coherent (block_entry tbl) cs'"
proof -
  note ix = index_keys [OF r]
  have srt: "sorted_wrt (<) (map fst (concat gs))" using asc by (simp add: ascending_def)
  obtain ans where ans: "filter_allows (ser_key c key) rd = Inr ans"
    "map_of (concat gs) key \<noteq> None \<longrightarrow> ans"
    using filter_allows_result [OF r] by blast
  let ?es = "index_entries c gs (layout 0 bs)"
  let ?P = "\<lambda>kv. codec_cmp c (fst kv) (ser_key c key) \<noteq> Less"
  have last_in: "last g \<in> set (concat gs)" if "g \<in> set gs" for g
    using that ix(5) by (metis last_in_set UN_I set_concat)
  have sk: "seek_block w (codec_cmp c) (tr_index rd) (ser_key c key) = Inr (find ?P ?es)"
    by (rule seek_entries [OF ix(1,3) sorted_last_keys [OF srt ix(5)]])
      (use asc last_in in \<open>auto simp: ascending_def\<close>)
  have cmp: "?P (?es ! i) \<longleftrightarrow> \<not> fst (last (gs ! i)) < key" if "i < length bs" for i
    using that by (simp add: ix(4))
  have le: "length ?es = length bs" by (simp add: index_entries_def ix(2))
  show ?thesis
  proof (cases "ans")
    case False
    then show ?thesis using ans cs by (auto simp: table_get_def)
  next
    case True
    show ?thesis
    proof (cases "find ?P ?es")
      case None
      have all_less: "fst (last (gs ! i)) < key" if "i < length bs" for i
      proof -
        have "?es ! i \<in> set ?es" using that le by simp
        then have "\<not> ?P (?es ! i)" using None unfolding find_None_iff by blast
        then show ?thesis using cmp [OF that] by blast
      qed
      have "fst kv \<noteq> key" if "kv \<in> set (concat gs)" for kv
      proof -
        obtain g where "g \<in> set gs" "kv \<in> set g" using \<open>kv \<in> set (concat gs)\<close> by auto
        then have "fst kv \<le> fst (last g)" by (rule sorted_le_last [OF sorted_group [OF srt]])
        moreover have "fst (last g) < key"
          using \<open>g \<in> set gs\<close> all_less ix(2) by (metis in_set_conv_nth)
        ultimately show ?thesis by simp
      qed
      then have "map_of (concat gs) key = None" by (auto simp: map_of_eq_None_iff)
      then show ?thesis using None True ans cs by (simp add: table_get_def sk)
    next
      case (Some e)
      obtain i where i': "i < length ?es" "?es ! i = e" "?P e" "\<forall>m<i. \<not> ?P (?es ! m)"
        by (rule find_nth [OF Some])
      note i = i'(1) [unfolded le] i'(2-4)
      have ge: "key \<le> fst (last (gs ! i))" using cmp [OF i(1)] i(2,3) by simp
      have lt: "\<forall>m<i. fst (last (gs ! m)) < key"
      proof (intro allI impI)
        fix m assume "m < i"
        then show "fst (last (gs ! m)) < key" using cmp [of m] i(1,4) by simp
      qed
      note rb = reads_block [OF r i(1)]
      obtain cs' where gb: "get_block w ops rd (layout 0 bs ! i) False cs = Inr (bs ! i, cs')"
        "coherent (block_entry tbl) cs'"
        using get_block_result [OF r t i(1) cs] by blast
      have gi: "gs ! i \<in> set gs" using i(1) ix(2) by simp
      have sg: "sorted_wrt (<) (map fst (gs ! i))" by (rule sorted_group [OF srt gi])
      have "seek_block w (codec_cmp c) (bs ! i) (ser_key c key) =
          Inr (map_option (enc c) (find (\<lambda>kv. \<not> fst kv < key) (gs ! i)))"
        unfolding find_enc [symmetric]
        by (rule seek_entries [OF rb(2) _ sg]) (use asc gi in \<open>auto simp: enc_def ascending_def\<close>)
      then show ?thesis
        using Some True ans(1) gb ge i(2) find_map_of [OF sg, of key]
          map_of_group [OF srt _ ge lt ix(5)] i(1) ix(2,4) de_ser_ptr [OF rb(3,4)]
        by (auto simp: table_get_def sk enc_def split: option.splits)
    qed
  qed
qed

end

section \<open>Iteration\<close>

text \<open>An iterator over a block that stands before entry \<open>j\<close>.\<close>

definition iter_at :: "wire \<Rightarrow> bytes \<Rightarrow> (bytes \<times> bytes) list \<Rightarrow> data_block_iter \<Rightarrow> nat \<Rightarrow> bool" where
  "iter_at w b kvs it j \<longleftrightarrow> (\<exists>es idx. b = sealed w es idx \<and> shared_ok [] es \<and> map entry_pair es = kvs \<and>
     before w es b it j)"

definition table_iter_next ::
  "wire \<Rightarrow> ('k, 'v) table_codec \<Rightarrow> (nat, bytes, 's) cache_ops \<Rightarrow> 'b table_reader \<Rightarrow> table_iter
    \<Rightarrow> 's \<Rightarrow> (('k \<times> 'v) option \<times> table_iter \<times> 's) res" where
  "table_iter_next w c ops rd = table_next (length (tr_index rd) + 2) w c ops rd"

text \<open>Any number of calls of \<open>next\<close>, and of \<open>get\<close>, with the cache passed along.\<close>

fun table_take ::
  "wire \<Rightarrow> ('k, 'v) table_codec \<Rightarrow> (nat, bytes, 's) cache_ops \<Rightarrow> 'b table_reader \<Rightarrow> nat \<Rightarrow> table_iter
    \<Rightarrow> 's \<Rightarrow> ('k \<times> 'v) option list res" where
  "table_take w c ops rd 0 it cs = Inr []"
| "table_take w c ops rd (Suc n) it cs =
     res_bind (table_iter_next w c ops rd it cs) (\<lambda>(x, it', cs').
       res_bind (table_take w c ops rd n it' cs') (\<lambda>xs. Inr (x # xs)))"

fun table_gets ::
  "wire \<Rightarrow> ('k::linorder, 'v) table_codec \<Rightarrow> (nat, bytes, 's) cache_ops \<Rightarrow> 'b table_reader \<Rightarrow> 'k list
    \<Rightarrow> 's \<Rightarrow> 'v option list res" where
  "table_gets w c ops rd [] cs = Inr []"
| "table_gets w c ops rd (k # ks) cs =
     res_bind (table_get w c ops rd k cs) (\<lambda>(x, cs').
       res_bind (table_gets w c ops rd ks cs') (\<lambda>xs. Inr (x # xs)))"

context wire_format begin

lemma iter_at_new: "block_of w b kvs \<Longrightarrow> \<exists>it. iter_new w b = Inr it \<and> iter_at w b kvs it 0"
proof -
  assume "block_of w b kvs"
  then obtain es idx where e: "b = sealed w es idx" "offsets_fit w es idx" "restarts_ok es idx"
    "shared_ok [] es" "map entry_pair es = kvs"
    by (rule block_of_sealed)
  then show ?thesis using iter_new_sealed [OF e(2,3)] unfolding iter_at_def by blast
qed

lemma iter_at_next:
  assumes "iter_at w b kvs it j" "j < length kvs"
  shows "\<exists>it'. iter_next w it = Inr (Some (kvs ! j), it') \<and> iter_at w b kvs it' (Suc j)"
proof -
  obtain es idx where e: "b = sealed w es idx" "shared_ok [] es" "map entry_pair es = kvs" "before w es b it j"
    using assms(1) unfolding iter_at_def by blast
  have j: "j < length es" using assms(2) e(3) by auto
  have "b = entries_bytes w es @ drop (length (entries_bytes w es)) b" by (simp add: e(1) sealed_def)
  then obtain it' where "iter_next w it = Inr (Some (entry_pair (es ! j)), it')" "at_entry w es b it' j"
    using iter_next_before [OF e(4) j _ e(2)] by blast
  then show ?thesis using e j unfolding iter_at_def at_entry_def by auto
qed

lemma iter_at_end:
  assumes "iter_at w b kvs it (length kvs)"
  shows "\<exists>it'. iter_next w it = Inr (None, it') \<and> iter_at w b kvs it' 0"
proof -
  obtain es idx where e: "b = sealed w es idx" "shared_ok [] es" "map entry_pair es = kvs"
    "before w es b it (length kvs)"
    using assms(1) unfolding iter_at_def by blast
  have l: "length kvs = length es" using e(3) by auto
  have "before w es b (iter_reset it) 0"
    using e(4) by (simp add: before_def iter_reset_def entry_off_def)
  then show ?thesis using e iter_next_end [of es b it] l unfolding iter_at_def by auto
qed

end

text \<open>\<open>scan_at w c rd gs bs it rest\<close>: the iterator has \<open>rest\<close> still to return.\<close>

definition index_at ::
  "wire \<Rightarrow> ('k, 'v) table_codec \<Rightarrow> 'b table_reader \<Rightarrow> ('k \<times> 'v) list list \<Rightarrow> bytes list \<Rightarrow> table_iter
    \<Rightarrow> nat \<Rightarrow> bool" where
  "index_at w c rd gs bs it i \<longleftrightarrow> i \<le> length bs \<and>
     iter_at w (tr_index rd) (index_entries c gs (layout 0 bs)) (ti_index it) i"

definition block_at ::
  "wire \<Rightarrow> ('k, 'v) table_codec \<Rightarrow> ('k \<times> 'v) list \<Rightarrow> bytes \<Rightarrow> data_block_iter \<Rightarrow> nat \<Rightarrow> bool" where
  "block_at w c g b bi j \<longleftrightarrow> j \<le> length g \<and> iter_at w b (map (enc c) g) bi j"

definition scan_at ::
  "wire \<Rightarrow> ('k, 'v) table_codec \<Rightarrow> 'b table_reader \<Rightarrow> ('k \<times> 'v) list list \<Rightarrow> bytes list \<Rightarrow> table_iter
    \<Rightarrow> ('k \<times> 'v) list \<Rightarrow> bool" where
  "scan_at w c rd gs bs it rest \<longleftrightarrow> (\<exists>i. index_at w c rd gs bs it i \<and>
     (case ti_block it of
        None \<Rightarrow> rest = concat (drop i gs)
      | Some bi \<Rightarrow> \<exists>g b j. block_at w c g b bi j \<and> rest = drop j g @ concat (drop i gs)))"

context table_reading begin

lemma get_next_block_some:
  assumes r: "reads w c p rd gs bs" and t: "tbl (tr_cache_id rd) = Some bs" and cs: "coherent (block_entry tbl) cs"
    and ix: "index_at w c rd gs bs it i" and i: "i < length bs"
  shows "\<exists>it' cs' bi. get_next_block w c ops rd it cs = Inr (True, it', cs') \<and>
    coherent (block_entry tbl) cs' \<and> index_at w c rd gs bs it' (Suc i) \<and>
    ti_block it' = Some bi \<and> block_at w c (gs ! i) (bs ! i) bi 0"
proof -
  note rb = reads_block [OF r i] and ik = index_keys [OF r]
  let ?es = "index_entries c gs (layout 0 bs)"
  have le: "length ?es = length bs" by (simp add: index_entries_def ik(2))
  obtain x where x: "iter_next w (ti_index it) = Inr (Some (?es ! i), x)" "iter_at w (tr_index rd) ?es x (Suc i)"
    using iter_at_next [of "tr_index rd" ?es "ti_index it" i] ix i le unfolding index_at_def by auto
  obtain cs' where g: "get_block w ops rd (layout 0 bs ! i) (ti_compaction it) cs = Inr (bs ! i, cs')"
    "coherent (block_entry tbl) cs'"
    using get_block_result [OF r t i cs] by blast
  obtain bi where bi: "iter_new w (bs ! i) = Inr bi" "iter_at w (bs ! i) (map (enc c) (gs ! i)) bi 0"
    using iter_at_new [OF rb(2)] by blast
  show ?thesis
    using x g bi ik(4) [OF i] de_ser_ptr [OF rb(3,4)] i
    by (simp add: get_next_block_def load_block_def index_at_def block_at_def Let_def)
qed

lemma get_next_block_none:
  assumes r: "reads w c p rd gs bs" and ix: "index_at w c rd gs bs it (length bs)"
  shows "\<exists>it'. get_next_block w c ops rd it cs = Inr (False, it', cs) \<and>
    index_at w c rd gs bs it' 0 \<and> ti_block it' = ti_block it"
proof -
  have le: "length (index_entries c gs (layout 0 bs)) = length bs"
    by (simp add: index_entries_def index_keys(2) [OF r])
  obtain x where "iter_next w (ti_index it) = Inr (None, x)"
    "iter_at w (tr_index rd) (index_entries c gs (layout 0 bs)) x 0"
    using iter_at_end [of "tr_index rd" "index_entries c gs (layout 0 bs)" "ti_index it"] ix le
    unfolding index_at_def by auto
  then show ?thesis by (simp add: get_next_block_def index_at_def Let_def)
qed

lemma next_in_block:
  assumes "ti_block it = Some bi" "block_at w c g b bi j" "j < length g" "index_at w c rd gs bs it i"
  shows "\<exists>it'. table_next (Suc n) w c ops rd it cs = Inr (Some (g ! j), it', cs) \<and>
    scan_at w c rd gs bs it' (drop (Suc j) g @ concat (drop i gs))"
proof -
  obtain bi' where bi': "iter_next w bi = Inr (Some (enc c (g ! j)), bi')"
    "iter_at w b (map (enc c) g) bi' (Suc j)"
    using iter_at_next [of b "map (enc c) g" bi j] assms(2,3) unfolding block_at_def by auto
  have "block_at w c g b bi' (Suc j)" using bi'(2) assms(3) by (simp add: block_at_def)
  then have "scan_at w c rd gs bs (it\<lparr>ti_block := Some bi'\<rparr>) (drop (Suc j) g @ concat (drop i gs))"
    using assms(4) unfolding scan_at_def index_at_def by auto
  moreover have "table_next (Suc n) w c ops rd it cs = Inr (Some (g ! j), it\<lparr>ti_block := Some bi'\<rparr>, cs)"
    using assms(1) bi'(1) by (simp add: table_next.simps enc_def)
  ultimately show ?thesis by blast
qed

text \<open>Both ways to the next block are the same.\<close>

lemma next_from_block:
  assumes r: "reads w c p rd gs bs" and t: "tbl (tr_cache_id rd) = Some bs" and cs: "coherent (block_entry tbl) cs"
    and ix: "index_at w c rd gs bs it i" and none: "ti_block it = None"
    and nx: "\<And>m it' cs'. get_next_block w c ops rd it cs = Inr (m, it', cs') \<Longrightarrow>
      table_next (Suc (Suc n)) w c ops rd it0 cs0 =
        (if m then table_next (Suc n) w c ops rd it' cs' else Inr (None, it', cs'))"
  shows "\<exists>x it' cs'. table_next (Suc (Suc n)) w c ops rd it0 cs0 = Inr (x, it', cs') \<and>
    coherent (block_entry tbl) cs' \<and>
    (case concat (drop i gs) of
       [] \<Rightarrow> x = None \<and> scan_at w c rd gs bs it' (concat gs)
     | kv # rest \<Rightarrow> x = Some kv \<and> scan_at w c rd gs bs it' rest)"
proof (cases "i < length bs")
  case True
  obtain it' cs' bi where g: "get_next_block w c ops rd it cs = Inr (True, it', cs')"
    "coherent (block_entry tbl) cs'" "index_at w c rd gs bs it' (Suc i)"
    "ti_block it' = Some bi" "block_at w c (gs ! i) (bs ! i) bi 0"
    using get_next_block_some [OF r t cs ix True] by blast
  have i: "i < length gs" using True index_keys(2) [OF r] by simp
  have ne: "gs ! i \<noteq> []" using nth_mem [OF i] index_keys(5) [OF r] by metis
  obtain it'' where n: "table_next (Suc n) w c ops rd it' cs' = Inr (Some (gs ! i ! 0), it'', cs')"
    "scan_at w c rd gs bs it'' (drop (Suc 0) (gs ! i) @ concat (drop (Suc i) gs))"
    using next_in_block [OF g(4,5) _ g(3)] ne by blast
  have "concat (drop i gs) = gs ! i ! 0 # drop (Suc 0) (gs ! i) @ concat (drop (Suc i) gs)"
    using ne by (simp add: Cons_nth_drop_Suc [OF i, symmetric]) (cases "gs ! i"; simp)
  then show ?thesis using nx [OF g(1)] n g(2) by simp
next
  case False
  then have i: "i = length bs" using ix by (simp add: index_at_def)
  obtain it' where g: "get_next_block w c ops rd it cs = Inr (False, it', cs)"
    "index_at w c rd gs bs it' 0" "ti_block it' = None"
    using get_next_block_none [OF r, of it cs] ix none i by auto
  have "scan_at w c rd gs bs it' (concat gs)" using g(2,3) by (auto simp: scan_at_def)
  moreover have "drop i gs = []" using i index_keys(2) [OF r] by simp
  ultimately show ?thesis using nx [OF g(1)] cs by simp
qed

lemma next_result:
  assumes r: "reads w c p rd gs bs" and t: "tbl (tr_cache_id rd) = Some bs" and cs: "coherent (block_entry tbl) cs"
    and sc: "scan_at w c rd gs bs it rest"
  shows "\<exists>x it' cs'. table_iter_next w c ops rd it cs = Inr (x, it', cs') \<and>
    coherent (block_entry tbl) cs' \<and>
    (case rest of
       [] \<Rightarrow> x = None \<and> scan_at w c rd gs bs it' (concat gs)
     | kv # rest' \<Rightarrow> x = Some kv \<and> scan_at w c rd gs bs it' rest')"
proof -
  obtain i where ix: "index_at w c rd gs bs it i" and bl: "case ti_block it of
        None \<Rightarrow> rest = concat (drop i gs)
      | Some bi \<Rightarrow> \<exists>g b j. block_at w c g b bi j \<and> rest = drop j g @ concat (drop i gs)"
    using sc unfolding scan_at_def by blast
  define n where "n = length (tr_index rd)"
  have f: "table_iter_next w c ops rd it cs = table_next (Suc (Suc n)) w c ops rd it cs"
    by (simp add: table_iter_next_def n_def)
  show ?thesis
  proof (cases "ti_block it")
    case None
    then have "rest = concat (drop i gs)" using bl by simp
    then show ?thesis
      unfolding f using next_from_block [OF r t cs ix None, of n it cs] None
      by (simp add: table_next.simps(2) [where fuel = "Suc n"])
  next
    case (Some bi)
    then obtain g b j where g: "block_at w c g b bi j" "rest = drop j g @ concat (drop i gs)"
      using bl by auto
    show ?thesis
    proof (cases "j < length g")
      case True
      then have "rest = g ! j # drop (Suc j) g @ concat (drop i gs)"
        by (simp add: g(2) Cons_nth_drop_Suc)
      then show ?thesis
        unfolding f using next_in_block [OF Some g(1) True ix, of "Suc n" cs] cs by auto
    next
      case False
      then have j: "j = length g" using g(1) by (simp add: block_at_def)
      obtain bi' where e: "iter_next w bi = Inr (None, bi')"
        using iter_at_end [of b "map (enc c) g" bi] g(1) j unfolding block_at_def by auto
      let ?it = "it\<lparr>ti_block := None\<rparr>"
      have ix': "index_at w c rd gs bs ?it i" using ix by (simp add: index_at_def)
      have "rest = concat (drop i gs)" using g(2) j by simp
      then show ?thesis
        unfolding f using next_from_block [OF r t cs ix', of n it cs] Some e
        by (simp add: table_next.simps(2) [where fuel = "Suc n"])
    qed
  qed
qed

lemma take_result:
  assumes r: "reads w c p rd gs bs" and t: "tbl (tr_cache_id rd) = Some bs"
  shows "\<lbrakk>coherent (block_entry tbl) cs; scan_at w c rd gs bs it rest\<rbrakk> \<Longrightarrow>
    \<exists>it' cs'. scan_at w c rd gs bs it' (concat gs) \<and> coherent (block_entry tbl) cs' \<and>
      table_take w c ops rd (length rest + Suc m) it cs =
        res_bind (table_take w c ops rd m it' cs') (\<lambda>ys. Inr (map Some rest @ None # ys))"
proof (induction rest arbitrary: it cs)
  case Nil
  obtain it1 cs1 where "table_iter_next w c ops rd it cs = Inr (None, it1, cs1)"
    "coherent (block_entry tbl) cs1" "scan_at w c rd gs bs it1 (concat gs)"
    using next_result [OF r t Nil] by auto
  then show ?case by (intro exI [of _ it1] exI [of _ cs1]) simp
next
  case (Cons kv rest)
  obtain it1 cs1 where n: "table_iter_next w c ops rd it cs = Inr (Some kv, it1, cs1)"
    "coherent (block_entry tbl) cs1" "scan_at w c rd gs bs it1 rest"
    using next_result [OF r t Cons.prems] by auto
  obtain it' cs' where "scan_at w c rd gs bs it' (concat gs)" "coherent (block_entry tbl) cs'"
      "table_take w c ops rd (length rest + Suc m) it1 cs1 =
        res_bind (table_take w c ops rd m it' cs') (\<lambda>ys. Inr (map Some rest @ None # ys))"
    using Cons.IH [OF n(2,3)] by blast
  then show ?case
    using n(1) by (intro exI [of _ it'] exI [of _ cs']) (simp add: res_bind_def split: sum.splits)
qed

lemma table_iteration:
  assumes r: "reads w c p rd gs bs" and t: "tbl (tr_cache_id rd) = Some bs" and cs: "coherent (block_entry tbl) cs"
  shows "\<exists>it. table_iter_new w rd for_compaction = Inr it \<and>
    table_take w c ops rd (2 * Suc (length (concat gs))) it cs =
      Inr (map Some (concat gs) @ [None] @ map Some (concat gs) @ [None])"
proof -
  obtain ix where ix: "iter_new w (tr_index rd) = Inr ix"
    "iter_at w (tr_index rd) (index_entries c gs (layout 0 bs)) ix 0"
    using iter_at_new [OF index_keys(1) [OF r]] by blast
  define it where "it = \<lparr>ti_block = None, ti_index = ix, ti_compaction = for_compaction\<rparr>"
  have sc: "scan_at w c rd gs bs it (concat gs)"
    using ix(2) by (auto simp: scan_at_def index_at_def it_def)
  let ?n = "length (concat gs)"
  obtain it1 cs1 where 1: "scan_at w c rd gs bs it1 (concat gs)" "coherent (block_entry tbl) cs1"
    "table_take w c ops rd (?n + Suc (?n + Suc 0)) it cs =
        res_bind (table_take w c ops rd (?n + Suc 0) it1 cs1) (\<lambda>ys. Inr (map Some (concat gs) @ None # ys))"
    using take_result [OF r t cs sc] by blast
  obtain it2 cs2 where 2: "table_take w c ops rd (?n + Suc 0) it1 cs1 =
        res_bind (table_take w c ops rd 0 it2 cs2) (\<lambda>ys. Inr (map Some (concat gs) @ None # ys))"
    using take_result [OF r t 1(2,1)] by blast
  have "2 * Suc ?n = ?n + Suc (?n + Suc 0)" by simp
  then have "table_take w c ops rd (2 * Suc ?n) it cs =
      Inr (map Some (concat gs) @ [None] @ map Some (concat gs) @ [None])"
    by (simp only: 1(3) 2 table_take.simps(1) res_bind_Inr) simp
  then show ?thesis
    using ix(1) by (simp add: table_iter_new_def it_def del: table_take.simps)
qed

lemma table_gets_result:
  assumes r: "reads w c p rd gs bs" and t: "tbl (tr_cache_id rd) = Some bs" and asc: "ascending c (concat gs)"
  shows "coherent (block_entry tbl) cs \<Longrightarrow>
    table_gets w c ops rd keys cs = Inr (map (map_of (concat gs)) keys)"
proof (induction keys arbitrary: cs)
  case (Cons k keys)
  then show ?case using table_lookup [OF r t Cons.prems asc, of k] by auto
qed simp

end

section \<open>The contracts of the model's own definitions\<close>

text \<open>\<open>bincode\<close> on 64-bit integers: eight little-endian bytes, and two of them for an \<open>ItemPointer\<close>.\<close>

definition std_table_codec :: "(u64, u64) table_codec" where
  "std_table_codec = \<lparr>
     ser_key = (\<lambda>k. le_bytes 8 (unat k)), de_key = (\<lambda>bs. Some (of_nat (le_value (take 8 bs)))),
     ser_val = (\<lambda>v. le_bytes 8 (unat v)), de_val = (\<lambda>bs. Some (of_nat (le_value (take 8 bs)))),
     ser_ptr = (\<lambda>q. le_bytes 8 (item_offset q) @ le_bytes 8 (item_length q)),
     de_ptr = (\<lambda>bs. Some (ItemPointer (le_value (take 8 bs)) (le_value (drop 8 bs))))\<rparr>"

lemma std_u64_roundtrip: "of_nat (le_value (le_bytes 8 (unat k))) = (k :: u64)"
proof -
  have "unat k < 256 ^ 8" using unsigned_less [of k, where ?'a = nat] by simp
  then show ?thesis by (simp add: le_value_bytes)
qed

lemma std_table_codec_ok: "codec_ok std_table_codec"
proof -
  have "le_value (le_bytes 8 n) = n" if "n < 2 ^ 64" for n
    using that by (simp add: le_value_bytes)
  then show ?thesis
    by (simp add: codec_ok_def std_table_codec_def std_u64_roundtrip item_pointer.expand)
qed

interpretation std_table: table_format std_wire std_table_codec
  using std_wire_ok std_table_codec_ok by (simp add: table_format_iff)

abbreviation std_block_cache :: "(nat, bytes, (nat cache_key, bytes) lru_list sharded_cache) cache_ops" where
  "std_block_cache \<equiv> sharded_ops std_lru (\<lambda>(i, off). i + of_nat off)"

lemma sharded_ops_lossy:
  "lru_contract l peek good \<Longrightarrow> lossy_map (op_get (sharded_ops l hash)) (op_insert (sharded_ops l hash))
     (sharded_view peek hash) (sharded_good good)"
  using sharded_lossy_map [of l peek good hash] by (simp add: sharded_ops_def)

interpretation std_reading: table_reading std_wire std_table_codec "default_filter_policy std_wire"
  std_block_cache "sharded_view ll_peek (\<lambda>(i, off). i + of_nat off)" "sharded_good ll_good"
  by (intro table_reading.intro std_table.table_format_axioms bloom.filter_contract_axioms
      sharded_ops_lossy std_lru.lru_contract_axioms)

section \<open>Properties\<close>

text \<open>The identifier the cache gives next is not in use.\<close>

definition fresh_id ::
  "(nat, bytes, 's) cache_ops \<Rightarrow> ('s \<Rightarrow> cache_id \<times> nat \<Rightarrow> bytes option) \<Rightarrow> ('s \<Rightarrow> bool) \<Rightarrow> 's \<Rightarrow> bool" where
  "fresh_id ops view good cs \<longleftrightarrow> good (snd (op_new_id ops cs)) \<and>
     (\<forall>off. view (snd (op_new_id ops cs)) (fst (op_new_id ops cs), off) = None)"

lemma fresh_coherent:
  assumes "lossy_map (op_get ops) (op_insert ops) view good" "fresh_id ops view good cs"
    "tr_cache_id rd = fst (op_new_id ops cs)"
  shows "lossy_map.coherent view good (block_entry [tr_cache_id rd \<mapsto> bs]) (snd (op_new_id ops cs))"
  using assms by (auto simp: lossy_map.coherent_def block_entry_def fresh_id_def)

lemma build_and_open:
  assumes w: "wire_ok w" and fc: "filter_contract (opt_policy opts)"
    and f: "table_build w c opts kvs = Inr f" and l: "length f < 2 ^ 32"
  shows "\<exists>rd gs bs. concat gs = kvs \<and> reads w c (opt_policy opts) rd gs bs \<and>
    tr_cache_id rd = fst (op_new_id ops cs) \<and>
    table_open w ops opts f (length f) cs = Inr (rd, snd (op_new_id ops cs))"
proof -
  have w: "wire_format w" using w by (simp add: wire_format_iff)
  obtain f' gs bs filt idx where "table_build w c opts kvs = Inr f'" and g: "concat gs = kvs" and
    f': "table_file w c (opt_policy opts) f' gs bs filt idx"
    using wire_format.build_table_file [OF w fc] by blast
  then have "f' = f" using f by simp
  then show ?thesis
    using wire_format.table_open_reads [OF w f' [unfolded \<open>f' = f\<close>] l, of ops cs] g by blast
qed

text \<open>
  C22: a table file is the map of its entries. A table built from entries in ascending order of
  their keys opens, and every sequence of lookups returns what the entries say, through filter,
  index, blocks and a cache that may hold blocks of other tables and forget its own.
\<close>
theorem table_get_is_map_of:
  "\<lbrakk>wire_ok w; codec_ok c; filter_contract (opt_policy opts); lossy_map (op_get ops) (op_insert ops) view good;
    fresh_id ops view good cs; ascending c kvs; table_build w c opts kvs = Inr f; length f < 2 ^ 32\<rbrakk> \<Longrightarrow>
   \<exists>rd cs'. table_open w ops opts f (length f) cs = Inr (rd, cs') \<and>
     table_gets w c ops rd keys cs' = Inr (map (map_of kvs) keys)"
proof -
  assume a: "wire_ok w" "codec_ok c" "filter_contract (opt_policy opts)"
    "lossy_map (op_get ops) (op_insert ops) view good" "fresh_id ops view good cs" "ascending c kvs"
    "table_build w c opts kvs = Inr f" "length f < 2 ^ 32"
  obtain rd gs bs where kvs: "concat gs = kvs" and rd: "table_open w ops opts f (length f) cs = Inr (rd, snd (op_new_id ops cs))"
    "reads w c (opt_policy opts) rd gs bs" "tr_cache_id rd = fst (op_new_id ops cs)"
    using build_and_open [OF a(1,3,7,8), where ops = ops and cs = cs] by (elim exE conjE) (rule that; assumption)
  have t: "table_reading w c (opt_policy opts) ops view good"
    using a(1-4) by (simp add: table_reading_def table_format_iff)
  show ?thesis
    using table_reading.table_gets_result [OF t rd(2) _ _ fresh_coherent [OF a(4,5) rd(3)], of bs keys] rd(1) a(6) kvs
    by simp
qed

text \<open>
  C23: iterating over a table file. The iterator returns the entries in order and then ends; the
  call after the end starts over from the first entry.
\<close>
theorem table_scan_roundtrip:
  "\<lbrakk>wire_ok w; codec_ok c; filter_contract (opt_policy opts); lossy_map (op_get ops) (op_insert ops) view good;
    fresh_id ops view good cs; table_build w c opts (kvs :: ('k::linorder \<times> 'v) list) = Inr f;
    length f < 2 ^ 32\<rbrakk> \<Longrightarrow>
   \<exists>rd cs' it. table_open w ops opts f (length f) cs = Inr (rd, cs') \<and>
     table_iter_new w rd for_compaction = Inr it \<and>
     table_take w c ops rd (2 * Suc (length kvs)) it cs' =
       Inr (map Some kvs @ [None] @ map Some kvs @ [None])"
proof -
  assume a: "wire_ok w" "codec_ok c" "filter_contract (opt_policy opts)"
    "lossy_map (op_get ops) (op_insert ops) view good" "fresh_id ops view good cs"
    "table_build w c opts kvs = Inr f" "length f < 2 ^ 32"
  obtain rd gs bs where kvs: "concat gs = kvs" and rd: "table_open w ops opts f (length f) cs = Inr (rd, snd (op_new_id ops cs))"
    "reads w c (opt_policy opts) rd gs bs" "tr_cache_id rd = fst (op_new_id ops cs)"
    using build_and_open [OF a(1,3,6,7), where ops = ops and cs = cs] by (elim exE conjE) (rule that; assumption)
  have t: "table_reading w c (opt_policy opts) ops view good"
    using a(1-4) by (simp add: table_reading_def table_format_iff)
  show ?thesis
    using table_reading.table_iteration [OF t rd(2) _ fresh_coherent [OF a(4,5) rd(3)], of bs for_compaction] rd(1) kvs
    by (auto simp del: table_take.simps)
qed

definition demo_entries :: "(u64 \<times> u64) list" where
  "demo_entries = [(1, 10), (2, 20), (300, 30)]"

lemma bits_seal_length:
  assumes "0 < millibits_per_key b" "hash_entries b \<noteq> []" "num_probes b < 256"
  shows "\<exists>data b'. bits_seal b = Inr (data, b') \<and>
    length data = line_bytes (millibits_per_key b) (length (hash_entries b)) + 1"
proof -
  obtain data b' r where d: "bits_seal b = Inr (data, b')" "get_filter_bits_reader data = Inr r"
    "length (reader_data r) = line_bytes (millibits_per_key b) (length (hash_entries b))"
    using seal_bits [OF assms] by blast
  then have "length data = length (reader_data r) + 1"
    by (cases data) (auto simp: get_filter_bits_reader_def FILTER_METADATA_SIZE_def Let_def)
  then show ?thesis using d(1,3) by simp
qed

lemma demo_filter:
  "\<exists>data fb. filter_seal (default_filter_policy std_wire)
      (filter_add (default_filter_policy std_wire) a (filter_add (default_filter_policy std_wire) b
        (filter_add (default_filter_policy std_wire) d (filter_builder_new (default_filter_policy std_wire)))))
     = Inr (data, fb) \<and> length data = 65"
  using bits_seal_length [of "bits_add_key std_wire a (bits_add_key std_wire b (bits_add_key std_wire d (bits_builder_new 10000)))"]
  by (auto simp: default_filter_policy_def bloom_policy_def filter_seal_def filter_add_def filter_builder_new_def
      bits_add_key_def bits_builder_new_def choose_num_probes_def line_bytes_def)

lemma std_varint_small: "n < 128 \<Longrightarrow> length (put_varint std_wire n) = 1"
  by (simp add: std_wire_def leb_encode.simps)

lemma std_codec_length [simp]:
  "length (ser_key std_table_codec k) = 8" "length (ser_val std_table_codec v) = 8"
  "length (ser_ptr std_table_codec q) = 16"
  by (simp_all add: std_table_codec_def)

lemma builder_add_length:
  assumes "length k < 128" "length v < 128"
  shows "length (db_buffer (builder_add std_wire k v b)) \<le> length (db_buffer b) + 3 + length k + length v"
    "length (db_restarts (builder_add std_wire k v b)) \<le> Suc (length (db_restarts b))"
proof -
  have "shared_prefix lk k < 128" for lk using shared_prefix_ok [of lk k] assms(1) by linarith
  then show "length (db_buffer (builder_add std_wire k v b)) \<le> length (db_buffer b) + 3 + length k + length v"
    "length (db_restarts (builder_add std_wire k v b)) \<le> Suc (length (db_restarts b))"
    using assms by (auto simp: builder_add_def Let_def std_varint_small less_imp_diff_less split: option.splits)
qed

lemma builder_seal_length:
  "length (fst (builder_seal std_wire b)) = length (db_buffer b) + 4 * length (db_restarts b) + 4"
  by (simp add: builder_seal_def length_concat comp_def sum_list_triv)

lemma add_no_flush:
  "\<not> need_flush (ser_key c k) (ser_val c v) tb \<Longrightarrow> table_add w c k v tb =
     Inr (tb\<lparr>tb_filter := map_option (filter_add (opt_policy (tb_options tb)) (ser_key c k)) (tb_filter tb),
             block_builder := builder_add w (ser_key c k) (ser_val c v) (block_builder tb), tb_last_key := Some k\<rparr>)"
  by (simp add: table_add_def add_raw_def)

text \<open>Three entries fit into one block of a small file.\<close>

lemma demo_table:
  "\<exists>f. table_build std_wire std_table_codec (table_options_default std_wire) demo_entries = Inr f \<and>
     length f < 2 ^ 32"
proof -
  let ?c = std_table_codec and ?p = "default_filter_policy std_wire" and ?add = "builder_add std_wire"
  let ?k = "ser_key ?c" and ?v = "ser_val ?c"
  define b0 where "b0 = builder_new 16"
  define b1 where "b1 = ?add (?k 1) (?v 10) b0"
  define b2 where "b2 = ?add (?k 2) (?v 20) b1"
  define b3 where "b3 = ?add (?k 300) (?v 30) b2"
  have l0: "length (db_buffer b0) = 0" "length (db_restarts b0) = 1"
    by (simp_all add: b0_def builder_new_def)
  have l1: "length (db_buffer b1) \<le> 19" "length (db_restarts b1) \<le> 2"
    using builder_add_length [of "?k 1" "?v 10" b0] l0 by (simp_all add: b1_def)
  have l2: "length (db_buffer b2) \<le> 38" "length (db_restarts b2) \<le> 3"
    using builder_add_length [of "?k 2" "?v 20" b1] l1 by (simp_all add: b2_def)
  have l3: "length (db_buffer b3) \<le> 57" "length (db_restarts b3) \<le> 4"
    using builder_add_length [of "?k 300" "?v 30" b2] l2 by (simp_all add: b3_def)
  have "builder_holds std_wire b3 [(?k 1, ?v 10), (?k 2, ?v 20), (?k 300, ?v 30)]"
    using builder_holds_add [OF builder_holds_add [OF builder_holds_add [OF builder_holds_new [of std_wire 16]]]]
    by (simp add: b0_def b1_def b2_def b3_def)
  then have ne: "\<not> builder_empty b3" using std.builder_empty_iff by fastforce
  obtain buf b3' where s3: "builder_seal std_wire b3 = (buf, b3')" by fastforce
  have lb: "length buf \<le> 77" using builder_seal_length [of b3] s3 l3 by simp
  define ix where "ix = ?add (?k 300) (ser_ptr ?c (ItemPointer 0 (length buf))) b0"
  have lix: "length (db_buffer ix) \<le> 27" "length (db_restarts ix) \<le> 2"
    using builder_add_length [of "?k 300" "ser_ptr ?c (ItemPointer 0 (length buf))" b0] l0 by (simp_all add: ix_def)
  obtain idx ix' where si: "builder_seal std_wire ix = (idx, ix')" by fastforce
  have li: "length idx \<le> 39" using builder_seal_length [of ix] si lix by simp
  obtain data fb where fs: "filter_seal ?p (filter_add ?p (?k 300) (filter_add ?p (?k 2) (filter_add ?p (?k 1)
      (filter_builder_new ?p)))) = Inr (data, fb)" "length data = 65"
    using demo_filter by blast
  define tb where "tb = \<lparr>tb_options = table_options_default std_wire, block_builder = b3, index_builder = b0,
      tb_filter = Some (filter_add ?p (?k 300) (filter_add ?p (?k 2) (filter_add ?p (?k 1) (filter_builder_new ?p)))),
      tb_out = [], out_offset = 0, tb_last_key = Some (300 :: u64)\<rparr>"
  have add: "table_add_all std_wire ?c demo_entries (table_builder_new (table_options_default std_wire)) = Inr tb"
    using l0 l1 l2 by (simp add: table_add_all_def demo_entries_def add_no_flush need_flush_def full_len_def
        table_builder_new_def table_options_default_def b0_def [symmetric] b1_def [symmetric]
        b2_def [symmetric] b3_def [symmetric] tb_def)
  obtain tb' where fin: "table_finish std_wire ?c tb = Inr tb'" "length (tb_out tb') \<le> 300"
    using ne lb li fs(2)
    by (simp add: table_finish_def table_flush_def tb_def s3 write_block_result index_add_def add_item_def
        ix_def [symmetric] fs(1) si write_toc_def Let_def TABLE_FOOTER_LENGTH_def table_options_default_def)
  show ?thesis
    using fin by (simp add: table_build_def add)
qed

text \<open>A new block cache: two shards of eight blocks.\<close>

definition demo_cache :: "(nat cache_key, bytes) lru_list sharded_cache" where
  "demo_cache = \<lparr>num_shards = 2, shards = [LruList 8 [], LruList 8 []], sc_last_id = 1\<rparr>"

lemma demo_cache_new: "sharded_new std_lru 2 16 = Inr demo_cache"
  by (simp add: sharded_new_def demo_cache_def std_lru_def upt_rec)

lemma demo_cache_fresh:
  "fresh_id std_block_cache (sharded_view ll_peek (\<lambda>(i, off). i + of_nat off)) (sharded_good ll_good) demo_cache"
proof -
  have "[LruList 8 [], LruList 8 []] ! (n mod 2) = (LruList 8 [] :: (nat cache_key, bytes) lru_list)" for n
    by (cases "n mod 2") (auto simp: nth_Cons split: nat.splits)
  then show ?thesis
    by (simp add: fresh_id_def sharded_ops_def sharded_get_id_def sharded_good_def demo_cache_def ll_good_def
        sharded_view_def ll_peek_def)
qed

lemma demo_ascending: "ascending std_table_codec demo_entries"
  by (simp add: ascending_def demo_entries_def std_table_codec_def le_bytes_def)

theorem table_get_is_map_of_witness:
  "\<exists>f rd cs'. table_build std_wire std_table_codec (table_options_default std_wire) demo_entries = Inr f \<and>
     table_open std_wire std_block_cache (table_options_default std_wire) f (length f) demo_cache = Inr (rd, cs') \<and>
     table_gets std_wire std_table_codec std_block_cache rd [300, 1, 7, 300] cs' =
       Inr [Some 30, Some 10, None, Some 30]"
proof -
  obtain f where f: "table_build std_wire std_table_codec (table_options_default std_wire) demo_entries = Inr f"
    "length f < 2 ^ 32"
    using demo_table by blast
  have fc: "filter_contract (opt_policy (table_options_default std_wire))"
    by (simp add: table_options_default_def bloom.filter_contract_axioms)
  have m: "map (map_of demo_entries) [300, 1, 7, 300] = [Some 30, Some 10, None, Some 30]"
    by (simp add: demo_entries_def)
  show ?thesis
    using table_get_is_map_of [OF std_wire_ok std_table_codec_ok fc std_reading.lossy_map_axioms
        demo_cache_fresh demo_ascending f, of "[300, 1, 7, 300]"] f(1)
    unfolding m by blast
qed

theorem table_scan_roundtrip_witness:
  "\<exists>f rd cs' it. table_build std_wire std_table_codec (table_options_default std_wire) demo_entries = Inr f \<and>
     table_open std_wire std_block_cache (table_options_default std_wire) f (length f) demo_cache = Inr (rd, cs') \<and>
     table_iter_new std_wire rd False = Inr it \<and>
     table_take std_wire std_table_codec std_block_cache rd 8 it cs' =
       Inr [Some (1, 10), Some (2, 20), Some (300, 30), None, Some (1, 10), Some (2, 20), Some (300, 30), None]"
proof -
  obtain f where f: "table_build std_wire std_table_codec (table_options_default std_wire) demo_entries = Inr f"
    "length f < 2 ^ 32"
    using demo_table by blast
  have fc: "filter_contract (opt_policy (table_options_default std_wire))"
    by (simp add: table_options_default_def bloom.filter_contract_axioms)
  have m: "map Some demo_entries @ [None] @ map Some demo_entries @ [None] =
      [Some (1, 10), Some (2, 20), Some (300, 30), None, Some (1, 10), Some (2, 20), Some (300, 30), None]"
    and n: "2 * Suc (length demo_entries) = 8"
    by (simp_all add: demo_entries_def)
  show ?thesis
    using table_scan_roundtrip [OF std_wire_ok std_table_codec_ok fc std_reading.lossy_map_axioms
        demo_cache_fresh f, of False] f(1)
    unfolding m n by blast
qed

section \<open>The specialised implementation\<close>

lemma bytes_cmp_lin: "bytes_cmp a b = lin_cmp a b"
  by (induction a b rule: bytes_cmp.induct) (auto simp: lin_cmp_def)

text \<open>
  The lookup for byte keys is the default one. \<open>get\<close> specialised to keys and values that are bytes
  does what the default \<open>get\<close> does with an encoding that leaves keys and values as they are.
\<close>
theorem specialised_get_is_default:
  "table_get_bytes w de_p ops rd key cs =
   table_get w \<lparr>ser_key = id, de_key = Some, ser_val = id, de_val = Some, ser_ptr = ser_p, de_ptr = de_p\<rparr>
     ops rd key cs"
proof -
  have cmp: "codec_cmp \<lparr>ser_key = id, de_key = Some, ser_val = id, de_val = Some, ser_ptr = ser_p, de_ptr = de_p\<rparr> = bytes_cmp"
    by (simp add: fun_eq_iff codec_cmp_def bytes_cmp_lin)
  have le: "bytes_cmp key k = Greater \<longleftrightarrow> \<not> key \<le> k" for k
    by (simp add: bytes_cmp_lin not_le)
  show ?thesis
    unfolding table_get_bytes_def table_get_def Let_def cmp le
    by (auto intro!: arg_cong2 [where f = res_bind] ext split: option.splits)
qed

text \<open>A file shorter than a footer, as a crash may leave it, is not reported as corrupted.\<close>

lemma short_table_file_panics:
  "length f < TABLE_FOOTER_LENGTH \<Longrightarrow>
     table_open w ops opts f (length f) cs = Inl (Panic ''attempt to subtract with overflow'')"
  by (simp add: table_open_def read_footer_def case_prod_beta)

end
