(* ===== verification/Merging_Iter.thy ===== *)
theory Merging_Iter
  imports Table_Read "HOL-Library.Multiset"
begin

text \<open>
  The trait \<open>TableIterator\<close> of \<open>table.rs\<close> and the merging iterator of \<open>merging_iter.rs\<close>, which a
  compaction reads its input files through. Every input has the timestamp of its file; of the
  versions of a key the iterator keeps one. The locale \<open>table_iterator\<close> is what an iterator
  promises: it returns the entries that are left one by one and then nothing. Table files provide it,
  and over inputs that provide it a merging iterator provides it as well: it returns the stable merge
  of its inputs with the older versions dropped (\<open>newest_only\<close>).
\<close>

section \<open>The trait and the iterator that owns its table\<close>

record ('i, 's, 'k, 'v) iter_ops =
  it_next :: "'i \<Rightarrow> 's \<Rightarrow> (('k \<times> 'v) option \<times> 'i \<times> 's) res"
  it_reset :: "'i \<Rightarrow> 'i"
  it_seek :: "'k \<Rightarrow> 'i \<Rightarrow> 'i"

text \<open>\<open>BlockTableIterator\<close> leaves \<open>reset\<close> and \<open>seek\<close> empty.\<close>

type_synonym 'b owning_iter = "'b table_reader \<times> table_iter"

definition owning_iter_from_table :: "wire \<Rightarrow> 'b table_reader \<Rightarrow> bool \<Rightarrow> 'b owning_iter res" where
  "owning_iter_from_table w table for_compaction =
     res_bind (table_iter_new w table for_compaction) (\<lambda>it. Inr (table, it))"

definition owning_iter_next ::
  "wire \<Rightarrow> ('k, 'v) table_codec \<Rightarrow> (nat, bytes, 's) cache_ops \<Rightarrow> 'b owning_iter \<Rightarrow> 's
    \<Rightarrow> (('k \<times> 'v) option \<times> 'b owning_iter \<times> 's) res" where
  "owning_iter_next w c ops it cs =
     res_bind (table_iter_next w c ops (fst it) (snd it) cs) (\<lambda>(x, t', cs').
       Inr (x, (fst it, t'), cs'))"

definition owning_iter_ops ::
  "wire \<Rightarrow> ('k, 'v) table_codec \<Rightarrow> (nat, bytes, 's) cache_ops \<Rightarrow> ('b owning_iter, 's, 'k, 'v) iter_ops" where
  "owning_iter_ops w c ops =
     \<lparr>it_next = owning_iter_next w c ops, it_reset = (\<lambda>it. it), it_seek = (\<lambda>key it. it)\<rparr>"

section \<open>The merging iterator\<close>

record ('i, 'k, 'v) merging_iter =
  mi_iters :: "(timestamp \<times> 'i) list"
  mi_current :: "('k \<times> 'v) option list"
  mi_pair :: "(timestamp \<times> 'k \<times> 'v) option"
  mi_done :: bool
  mi_drained :: "bool list"

definition merging_iter_new :: "(timestamp \<times> 'i) list \<Rightarrow> ('i, 'k, 'v) merging_iter" where
  "merging_iter_new iters =
     \<lparr>mi_iters = iters, mi_current = replicate (length iters) None, mi_pair = None, mi_done = False,
      mi_drained = replicate (length iters) False\<rparr>"

text \<open>
  \<open>next_with_timestamp\<close> goes over the inputs, fills the empty slots of \<open>current\<close> and keeps a
  reference to the slot with the smallest key; the model keeps that slot's index.
\<close>

definition fill_slot ::
  "('i, 's, 'k, 'v) iter_ops \<Rightarrow> nat \<Rightarrow> ('i, 'k, 'v) merging_iter \<Rightarrow> 's
    \<Rightarrow> (('i, 'k, 'v) merging_iter \<times> 's) res" where
  "fill_slot ops i m s =
     (case mi_current m ! i of
        Some p \<Rightarrow> Inr (m, s)
      | None \<Rightarrow> res_bind (it_next ops (snd (mi_iters m ! i)) s) (\<lambda>(p, it', s').
          Inr (m\<lparr>mi_iters := (mi_iters m)[i := (fst (mi_iters m ! i), it')],
                 mi_current := (mi_current m)[i := p]\<rparr>, s')))"

definition key_at :: "('i, 'k, 'v) merging_iter \<Rightarrow> nat option \<Rightarrow> 'k option" where
  "key_at m slot = (case slot of None \<Rightarrow> None | Some j \<Rightarrow> map_option fst (mi_current m ! j))"

fun scan_slots ::
  "('i, 's, 'k::linorder, 'v) iter_ops \<Rightarrow> nat list \<Rightarrow> ('i, 'k, 'v) merging_iter \<Rightarrow> nat option \<Rightarrow> timestamp
    \<Rightarrow> 's \<Rightarrow> (('i, 'k, 'v) merging_iter \<times> nat option \<times> timestamp \<times> 's) res" where
  "scan_slots ops [] m smallest smallest_ts s = Inr (m, smallest, smallest_ts, s)"
| "scan_slots ops (i # is) m smallest smallest_ts s =
     (if mi_drained m ! i then scan_slots ops is m smallest smallest_ts s
      else res_bind (fill_slot ops i m s) (\<lambda>(m1, s1).
        case mi_current m1 ! i of
          Some (key, _) \<Rightarrow>
            (case key_at m1 smallest of
               Some skey \<Rightarrow>
                 if key < skey then scan_slots ops is m1 (Some i) (fst (mi_iters m1 ! i)) s1
                 else scan_slots ops is m1 smallest smallest_ts s1
             | None \<Rightarrow> scan_slots ops is m1 (Some i) (fst (mi_iters m1 ! i)) s1)
        | None \<Rightarrow> scan_slots ops is (m1\<lparr>mi_drained := (mi_drained m1)[i := True]\<rparr>) smallest smallest_ts s1))"

definition next_with_timestamp ::
  "('i, 's, 'k::linorder, 'v) iter_ops \<Rightarrow> ('i, 'k, 'v) merging_iter \<Rightarrow> 's
    \<Rightarrow> ((timestamp \<times> 'k \<times> 'v) option \<times> ('i, 'k, 'v) merging_iter \<times> 's) res" where
  "next_with_timestamp ops m s =
     res_bind (scan_slots ops [0..<length (mi_current m)] m None ts_default s)
       (\<lambda>(m', smallest, smallest_ts, s').
          case smallest of
            None \<Rightarrow> Inr (None, m', s')
          | Some j \<Rightarrow> (case mi_current m' ! j of
              Some (k, v) \<Rightarrow>
                Inr (Some (smallest_ts, k, v), m'\<lparr>mi_current := (mi_current m')[j := None]\<rparr>, s')
            | None \<Rightarrow> Inr (None, m', s')))"

text \<open>The loop of \<open>next\<close>; \<open>fuel\<close> bounds its rounds, of which there is one for every version of the key.\<close>

definition newer_version :: "timestamp \<Rightarrow> timestamp \<Rightarrow> bool" where
  "newer_version last_ts ts \<longleftrightarrow> \<not> ts_is_invalid ts \<and> ts_lt last_ts ts"

fun merge_versions ::
  "nat \<Rightarrow> ('i, 's, 'k::linorder, 'v) iter_ops \<Rightarrow> ('i, 'k, 'v) merging_iter \<Rightarrow> 's
    \<Rightarrow> (('k \<times> 'v) option \<times> ('i, 'k, 'v) merging_iter \<times> 's) res" where
  "merge_versions 0 ops m s = Inl Diverges"
| "merge_versions (Suc fuel) ops m s =
     (case mi_pair m of
        None \<Rightarrow> Inr (None, m, s)
      | Some (last_ts, last_key, last_value) \<Rightarrow>
          res_bind (next_with_timestamp ops (m\<lparr>mi_pair := None\<rparr>) s) (\<lambda>(found, m1, s1).
            case found of
              Some (ts, k, v) \<Rightarrow>
                if k = last_key then
                  if newer_version last_ts ts then merge_versions fuel ops (m1\<lparr>mi_pair := Some (ts, k, v)\<rparr>) s1
                  else merge_versions fuel ops (m1\<lparr>mi_pair := Some (last_ts, last_key, last_value)\<rparr>) s1
                else Inr (Some (last_key, last_value), m1\<lparr>mi_pair := Some (ts, k, v)\<rparr>, s1)
            | None \<Rightarrow> Inr (Some (last_key, last_value), m1, s1)))"

definition merging_next ::
  "nat \<Rightarrow> ('i, 's, 'k::linorder, 'v) iter_ops \<Rightarrow> ('i, 'k, 'v) merging_iter \<Rightarrow> 's
    \<Rightarrow> (('k \<times> 'v) option \<times> ('i, 'k, 'v) merging_iter \<times> 's) res" where
  "merging_next fuel ops m s =
     (if mi_done m then Inr (None, m, s)
      else res_bind (case mi_pair m of
               Some _ \<Rightarrow> Inr (m, s)
             | None \<Rightarrow> res_bind (next_with_timestamp ops m s) (\<lambda>(p, m1, s1). Inr (m1\<lparr>mi_pair := p\<rparr>, s1)))
             (\<lambda>(m1, s1).
               if mi_pair m1 = None then Inr (None, m1\<lparr>mi_done := True\<rparr>, s1)
               else merge_versions fuel ops m1 s1))"

definition merging_reset ::
  "('i, 's, 'k, 'v) iter_ops \<Rightarrow> ('i, 'k, 'v) merging_iter \<Rightarrow> ('i, 'k, 'v) merging_iter" where
  "merging_reset ops m =
     m\<lparr>mi_iters := map (\<lambda>(ts, it). (ts, it_reset ops it)) (mi_iters m), mi_done := False\<rparr>"

definition merging_seek ::
  "('i, 's, 'k, 'v) iter_ops \<Rightarrow> 'k \<Rightarrow> ('i, 'k, 'v) merging_iter \<Rightarrow> ('i, 'k, 'v) merging_iter" where
  "merging_seek ops key m = m\<lparr>mi_iters := map (\<lambda>(ts, it). (ts, it_seek ops key it)) (mi_iters m)\<rparr>"

section \<open>Reference: the stable merge, with one version per key\<close>

definition tag :: "timestamp \<Rightarrow> ('k \<times> 'v) list \<Rightarrow> (timestamp \<times> 'k \<times> 'v) list" where
  "tag ts q = map (Pair ts) q"

definition tagged :: "timestamp list \<Rightarrow> ('k \<times> 'v) list list \<Rightarrow> (timestamp \<times> 'k \<times> 'v) list" where
  "tagged tss qs = concat (map2 tag tss qs)"

definition merged :: "timestamp list \<Rightarrow> ('k::linorder \<times> 'v) list list \<Rightarrow> (timestamp \<times> 'k \<times> 'v) list" where
  "merged tss qs = sort_key (fst \<circ> snd) (tagged tss qs)"

fun newest_only :: "(timestamp \<times> 'k \<times> 'v) list \<Rightarrow> ('k \<times> 'v) list" where
  "newest_only [] = []"
| "newest_only [x] = [snd x]"
| "newest_only (x # y # r) =
     (if fst (snd y) = fst (snd x)
      then newest_only ((if newer_version (fst x) (fst y) then y else x) # r)
      else snd x # newest_only (y # r))"

section \<open>What an iterator promises\<close>

locale table_iterator =
  fixes nx :: "'i \<Rightarrow> 's \<Rightarrow> (('k::linorder \<times> 'v) option \<times> 'i \<times> 's) res"
    and rest_is :: "'i \<Rightarrow> ('k \<times> 'v) list \<Rightarrow> bool"
    and good :: "'s \<Rightarrow> bool"
  assumes next_some: "\<lbrakk>good s; rest_is it (kv # r)\<rbrakk> \<Longrightarrow>
      \<exists>it' s'. nx it s = Inr (Some kv, it', s') \<and> rest_is it' r \<and> good s'"
    and next_none: "\<lbrakk>good s; rest_is it []\<rbrakk> \<Longrightarrow> \<exists>it' s'. nx it s = Inr (None, it', s') \<and> good s'"

text \<open>An iterator that stays at its end; a table iterator starts over instead.\<close>

locale fused_iterator = table_iterator +
  assumes stays_at_end: "\<lbrakk>good s; rest_is it []\<rbrakk> \<Longrightarrow>
      \<exists>it' s'. nx it s = Inr (None, it', s') \<and> rest_is it' [] \<and> good s'"

text \<open>Slot \<open>i\<close> of a merging iterator still has the entries \<open>q\<close>; all slots have the entries \<open>qs\<close>.\<close>

definition slot_at ::
  "('i \<Rightarrow> ('k \<times> 'v) list \<Rightarrow> bool) \<Rightarrow> ('i, 'k, 'v) merging_iter \<Rightarrow> nat \<Rightarrow> ('k \<times> 'v) list \<Rightarrow> bool" where
  "slot_at rest_is m i q \<longleftrightarrow>
     (if mi_drained m ! i then q = [] \<and> mi_current m ! i = None
      else case mi_current m ! i of
        None \<Rightarrow> rest_is (snd (mi_iters m ! i)) q
      | Some p \<Rightarrow> \<exists>r. q = p # r \<and> rest_is (snd (mi_iters m ! i)) r)"

definition slots_at ::
  "('i \<Rightarrow> ('k \<times> 'v) list \<Rightarrow> bool) \<Rightarrow> ('i, 'k, 'v) merging_iter \<Rightarrow> timestamp list \<Rightarrow> ('k \<times> 'v) list list
    \<Rightarrow> bool" where
  "slots_at rest_is m tss qs \<longleftrightarrow> map fst (mi_iters m) = tss \<and> length qs = length tss \<and>
     length (mi_current m) = length tss \<and> length (mi_drained m) = length tss \<and>
     (\<forall>i<length qs. slot_at rest_is m i (qs ! i))"

lemma slot_at_cong:
  "\<lbrakk>mi_drained a ! i = mi_drained b ! i; mi_current a ! i = mi_current b ! i; mi_iters a ! i = mi_iters b ! i\<rbrakk>
    \<Longrightarrow> slot_at rest_is a i q \<longleftrightarrow> slot_at rest_is b i q"
  by (simp add: slot_at_def cong: option.case_cong)

lemma slot_at_frame:
  "slot_at rest_is (m\<lparr>mi_pair := p\<rparr>) i q \<longleftrightarrow> slot_at rest_is m i q"
  "slot_at rest_is (m\<lparr>mi_done := d\<rparr>) i q \<longleftrightarrow> slot_at rest_is m i q"
  by (rule slot_at_cong; simp)+

text \<open>The slot whose next key is the smallest, the first of those with the same key.\<close>

primrec best_slot :: "('k::linorder \<times> 'v) list list \<Rightarrow> nat \<Rightarrow> nat option" where
  "best_slot qs 0 = None"
| "best_slot qs (Suc i) =
     (case qs ! i of
        [] \<Rightarrow> best_slot qs i
      | p # _ \<Rightarrow> (case best_slot qs i of
          None \<Rightarrow> Some i
        | Some j \<Rightarrow> if fst p < fst (hd (qs ! j)) then Some i else Some j))"

lemma best_slot_None: "best_slot qs n = None \<Longrightarrow> i < n \<Longrightarrow> qs ! i = []"
  by (induction n) (auto simp: less_Suc_eq split: list.splits option.splits if_splits)

lemma best_slot_Some:
  "best_slot qs n = Some j \<Longrightarrow> j < n \<and> qs ! j \<noteq> [] \<and>
     (\<forall>i<n. qs ! i \<noteq> [] \<longrightarrow> fst (hd (qs ! j)) \<le> fst (hd (qs ! i)) \<and>
        (i < j \<longrightarrow> fst (hd (qs ! j)) < fst (hd (qs ! i))))"
proof (induction n arbitrary: j)
  case (Suc n)
  show ?case
  proof (cases "qs ! n")
    case Nil
    then show ?thesis using Suc by (auto simp: less_Suc_eq)
  next
    case (Cons p r)
    show ?thesis
    proof (cases "best_slot qs n")
      case None
      then show ?thesis using Suc.prems Cons by (auto simp: less_Suc_eq dest: best_slot_None)
    next
      case (Some j')
      then show ?thesis using Suc.prems Suc.IH [OF Some] Cons
        by (auto simp: less_Suc_eq split: if_splits)
    qed
  qed
qed simp

lemma sort_key_pop:
  assumes "\<forall>y\<in>set as. f x < f y" "\<forall>y\<in>set bs. f x \<le> f y"
  shows "sort_key f (as @ x # bs) = x # sort_key f (as @ bs)"
proof (rule properties_for_sort_key)
  have no: "filter (\<lambda>y. f x = f y) as = []" using assms(1) by (auto simp: filter_empty_conv)
  show "filter (\<lambda>y. f k = f y) (x # sort_key f (as @ bs)) = filter (\<lambda>y. f k = f y) (as @ x # bs)"
    if "k \<in> set (x # sort_key f (as @ bs))" for k
    using sort_key_stable [of f "f k" "as @ bs"] no by (cases "f k = f x") (auto simp: eq_commute)
  show "sorted (map f (x # sort_key f (as @ bs)))" using assms by (auto intro: less_imp_le)
qed simp

lemma tagged_mem:
  "x \<in> set (tagged tss qs) \<Longrightarrow> \<exists>i. i < length qs \<and> i < length tss \<and> fst x = tss ! i \<and> snd x \<in> set (qs ! i)"
  by (force simp: tagged_def tag_def in_set_zip)

lemma tagged_split:
  assumes "j < length qs" "length qs = length tss" "qs ! j = p # r"
  shows "\<exists>as bs. tagged tss qs = as @ (tss ! j, p) # bs \<and> tagged tss (qs[j := r]) = as @ bs \<and>
    (\<forall>x\<in>set as. \<exists>i<j. snd x \<in> set (qs ! i)) \<and>
    (\<forall>x\<in>set bs. snd x \<in> set r \<or> (\<exists>i<length qs. snd x \<in> set (qs ! i)))"
proof -
  have q: "qs = take j qs @ (p # r) # drop (Suc j) qs"
    using assms(1,3) id_take_nth_drop [of j qs] by simp
  have t: "tss = take j tss @ (tss ! j) # drop (Suc j) tss"
    using assms(1,2) id_take_nth_drop [of j tss] by simp
  let ?a = "tagged (take j tss) (take j qs)" and ?b = "tagged (drop (Suc j) tss) (drop (Suc j) qs)"
  have l: "length (take j tss) = length (take j qs)" using assms(1,2) by simp
  have 1: "tagged tss qs = ?a @ (tss ! j, p) # tag (tss ! j) r @ ?b"
    by (subst t, subst q) (simp add: tagged_def zip_append [OF l] tag_def)
  have 2: "tagged tss (qs[j := r]) = ?a @ tag (tss ! j) r @ ?b"
    by (subst t, subst q) (use assms(1,2) in \<open>simp add: tagged_def zip_append [OF l] tag_def list_update_append\<close>)
  have 3: "\<exists>i<j. snd x \<in> set (qs ! i)" if "x \<in> set ?a" for x
    using tagged_mem [OF that] by auto
  have 4: "\<exists>i<length qs. snd x \<in> set (qs ! i)" if x: "x \<in> set ?b" for x
  proof -
    obtain i where "i < length (drop (Suc j) qs)" "snd x \<in> set (drop (Suc j) qs ! i)"
      using tagged_mem [OF x] by blast
    then show ?thesis by (intro exI [of _ "Suc j + i"]) (auto simp: less_diff_conv add.commute)
  qed
  show ?thesis using 1 2 3 4 by (intro exI [of _ ?a] exI [of _ "tag (tss ! j) r @ ?b"]) (auto simp: tag_def)
qed

text \<open>What is merged starts with the next entry of the best slot.\<close>

lemma length_merged: "length tss = length qs \<Longrightarrow> length (merged tss qs) = length (concat qs)"
  by (auto simp: merged_def tagged_def tag_def length_concat o_def intro!: arg_cong [where f = sum_list] nth_equalityI)

lemma merged_next:
  assumes l: "length qs = length tss" and srt: "\<forall>q\<in>set qs. sorted (map fst q)"
  shows "case best_slot qs (length qs) of
      None \<Rightarrow> merged tss qs = []
    | Some j \<Rightarrow> merged tss qs = (tss ! j, hd (qs ! j)) # merged tss (qs[j := tl (qs ! j)])"
proof (cases "best_slot qs (length qs)")
  case None
  have "tagged tss qs = []"
    using best_slot_None [OF None] by (auto simp: tagged_def tag_def in_set_zip)
  then show ?thesis using None by (simp add: merged_def)
next
  case (Some j)
  note b = best_slot_Some [OF Some]
  then obtain p r where pr: "qs ! j = p # r" by (cases "qs ! j") auto
  obtain as bs where ab: "tagged tss qs = as @ (tss ! j, p) # bs" "tagged tss (qs[j := r]) = as @ bs"
    "\<forall>x\<in>set as. \<exists>i<j. snd x \<in> set (qs ! i)"
    "\<forall>x\<in>set bs. snd x \<in> set r \<or> (\<exists>i<length qs. snd x \<in> set (qs ! i))"
    using tagged_split [OF _ l pr] b by blast
  have hd_le: "fst (hd (qs ! i)) \<le> fst y" if "i < length qs" "y \<in> set (qs ! i)" for i y
    using bspec [OF srt nth_mem [OF that(1)]] that(2) by (cases "qs ! i") auto
  have "merged tss qs = (tss ! j, p) # merged tss (qs[j := r])"
    unfolding merged_def ab(1,2)
  proof (rule sort_key_pop)
    show "\<forall>y\<in>set as. (fst \<circ> snd) (tss ! j, p) < (fst \<circ> snd) y"
    proof
      fix y assume "y \<in> set as"
      then obtain i where i: "i < j" "snd y \<in> set (qs ! i)" using ab(3) by blast
      then have "qs ! i \<noteq> []" by auto
      then have "fst p < fst (hd (qs ! i))" using b i(1) pr by auto
      then show "(fst \<circ> snd) (tss ! j, p) < (fst \<circ> snd) y" using hd_le [of i "snd y"] i b by auto
    qed
    show "\<forall>y\<in>set bs. (fst \<circ> snd) (tss ! j, p) \<le> (fst \<circ> snd) y"
    proof
      fix y assume "y \<in> set bs"
      then consider "snd y \<in> set r" | i where "i < length qs" "snd y \<in> set (qs ! i)" using ab(4) by blast
      then show "(fst \<circ> snd) (tss ! j, p) \<le> (fst \<circ> snd) y"
      proof cases
        case 1
        then show ?thesis using hd_le [of j "snd y"] b pr by auto
      next
        case 2
        then have "qs ! i \<noteq> []" by auto
        then have "fst p \<le> fst (hd (qs ! i))" using b 2(1) pr by auto
        then show ?thesis using hd_le [OF 2] by auto
      qed
    qed
  qed
  then show ?thesis using Some pr by simp
qed

lemma sorted_slots_tl:
  assumes "\<forall>q\<in>set qs. sorted (map fst q)"
  shows "\<forall>q\<in>set (qs[j := tl (qs ! j)]). sorted (map fst q)"
proof (cases "j < length qs")
  case True
  have "sorted (map fst (tl (qs ! j)))"
    using bspec [OF assms nth_mem [OF True]] by (cases "qs ! j") auto
  then show ?thesis using assms set_update_subset_insert [of qs j] by blast
qed (use assms in \<open>simp add: list_update_beyond\<close>)

context table_iterator begin

abbreviation filled :: "('i, 'k, 'v) merging_iter \<Rightarrow> nat \<Rightarrow> bool" where
  "filled m i \<equiv> mi_drained m ! i \<or> mi_current m ! i \<noteq> None"

lemma slot_filled:
  "\<lbrakk>slot_at rest_is m i q; filled m i\<rbrakk> \<Longrightarrow> mi_current m ! i = (case q of [] \<Rightarrow> None | p # _ \<Rightarrow> Some p)"
  by (auto simp: slot_at_def split: if_splits option.splits)

text \<open>Filling slot \<open>i\<close>.\<close>

lemma fill_slot_result:
  assumes s: "good s" and m: "slots_at rest_is m tss qs" and i: "i < length qs" and d: "\<not> mi_drained m ! i"
    and nx: "it_next ops = nx"
  shows "\<exists>m1 s1. fill_slot ops i m s = Inr (m1, s1) \<and> good s1 \<and>
    mi_current m1 ! i = (case qs ! i of [] \<Rightarrow> None | p # _ \<Rightarrow> Some p) \<and>
    (\<forall>j. j \<noteq> i \<longrightarrow> mi_current m1 ! j = mi_current m ! j) \<and> mi_drained m1 = mi_drained m \<and>
    mi_pair m1 = mi_pair m \<and> mi_done m1 = mi_done m \<and>
    (qs ! i \<noteq> [] \<longrightarrow> slots_at rest_is m1 tss qs) \<and>
    (qs ! i = [] \<longrightarrow> slots_at rest_is (m1\<lparr>mi_drained := (mi_drained m1)[i := True]\<rparr>) tss qs)"
proof (cases "mi_current m ! i")
  case (Some p)
  have "slot_at rest_is m i (qs ! i)" using m i by (auto simp: slots_at_def)
  then obtain r where "qs ! i = p # r" using d Some by (auto simp: slot_at_def)
  then show ?thesis using s m Some by (auto simp: fill_slot_def)
next
  case None
  have l: "i < length (mi_iters m)" "i < length (mi_current m)" "i < length (mi_drained m)"
    using m i by (auto simp: slots_at_def)
  have at: "rest_is (snd (mi_iters m ! i)) (qs ! i)"
    using m i d None by (auto simp: slots_at_def slot_at_def)
  define m1 where "m1 it' p = m\<lparr>mi_iters := (mi_iters m)[i := (fst (mi_iters m ! i), it')],
    mi_current := (mi_current m)[i := p]\<rparr>" for it' p
  have keep: "slot_at rest_is (m1 it' p) j (qs ! j)" if "j \<noteq> i" "j < length qs" for it' p j
  proof -
    have "slot_at rest_is (m1 it' p) j (qs ! j) = slot_at rest_is m j (qs ! j)"
      using that(1) by (intro slot_at_cong) (simp_all add: m1_def)
    then show ?thesis using m that(2) by (simp add: slots_at_def)
  qed
  have shape: "map fst (mi_iters (m1 it' p)) = tss" "length (mi_current (m1 it' p)) = length tss" for it' p
    using m l(1) list_update_same_conv [of i "map fst (mi_iters m)" "fst (mi_iters m ! i)"]
    by (auto simp: m1_def slots_at_def map_update)
  show ?thesis
  proof (cases "qs ! i")
    case Nil
    obtain it' s' where n: "nx (snd (mi_iters m ! i)) s = Inr (None, it', s')" "good s'"
      using next_none [OF s, of "snd (mi_iters m ! i)"] at Nil by auto
    define m2 where "m2 = (m1 it' None)\<lparr>mi_drained := (mi_drained m)[i := True]\<rparr>"
    have "slot_at rest_is m2 j (qs ! j)" if "j < length qs" for j
    proof (cases "j = i")
      case True
      then show ?thesis using Nil l by (simp add: slot_at_def m2_def m1_def)
    next
      case False
      then have "slot_at rest_is m2 j (qs ! j) = slot_at rest_is (m1 it' None) j (qs ! j)"
        by (intro slot_at_cong) (simp_all add: m2_def m1_def)
      then show ?thesis using keep [OF False that] by simp
    qed
    then have "slots_at rest_is m2 tss qs"
      using m shape by (simp add: slots_at_def m2_def m1_def)
    then show ?thesis using None n nx Nil l by (auto simp: fill_slot_def m1_def m2_def)
  next
    case (Cons p r)
    obtain it' s' where n: "nx (snd (mi_iters m ! i)) s = Inr (Some p, it', s')" "rest_is it' r" "good s'"
      using next_some [OF s, of "snd (mi_iters m ! i)" p r] at Cons by auto
    have "slot_at rest_is (m1 it' (Some p)) i (qs ! i)"
      using n(2) Cons l d by (auto simp: slot_at_def m1_def)
    then have "\<forall>j<length qs. slot_at rest_is (m1 it' (Some p)) j (qs ! j)"
      using keep [of _ it' "Some p"] by metis
    then have "slots_at rest_is (m1 it' (Some p)) tss qs"
      using m shape by (simp add: slots_at_def) (simp add: m1_def)
    then show ?thesis using None n nx Cons l by (auto simp: fill_slot_def m1_def)
  qed
qed

lemma scan_slots_result:
  assumes nx: "it_next ops = nx"
  shows "\<lbrakk>good s; slots_at rest_is m tss qs; i \<le> length qs; \<forall>j. best_slot qs i = Some j \<longrightarrow> ts = tss ! j;
     \<forall>j<i. filled m j\<rbrakk> \<Longrightarrow>
    \<exists>m' ts' s'. scan_slots ops [i..<length qs] m (best_slot qs i) ts s = Inr (m', best_slot qs (length qs), ts', s') \<and>
      good s' \<and> slots_at rest_is m' tss qs \<and> (\<forall>j. best_slot qs (length qs) = Some j \<longrightarrow> ts' = tss ! j) \<and>
      (\<forall>j<length qs. filled m' j) \<and> mi_pair m' = mi_pair m \<and> mi_done m' = mi_done m"
proof (induction "length qs - i" arbitrary: i m ts s)
  case 0
  then show ?case by auto
next
  case (Suc n)
  have i: "i < length qs" "n = length qs - Suc i" using Suc.hyps(2) by auto
  have up: "[i..<length qs] = i # [Suc i..<length qs]" using i(1) by (rule upt_conv_Cons)
  have key: "key_at m1 (best_slot qs i) = map_option (\<lambda>j. fst (hd (qs ! j))) (best_slot qs i)"
    if "slots_at rest_is m tss qs" "\<forall>j<i. filled m j" "\<forall>j. j \<noteq> i \<longrightarrow> mi_current m1 ! j = mi_current m ! j" for m1
  proof (cases "best_slot qs i")
    case (Some j)
    then have j: "j < i" "qs ! j \<noteq> []" using best_slot_Some by blast+
    have "mi_current m ! j = (case qs ! j of [] \<Rightarrow> None | p # _ \<Rightarrow> Some p)"
      using that(1,2) j(1) i(1) by (intro slot_filled) (auto simp: slots_at_def)
    then have "mi_current m1 ! j = Some (hd (qs ! j))"
      using that(3) j by (cases "qs ! j") auto
    then show ?thesis using Some by (simp add: key_at_def)
  qed (simp add: key_at_def)
  have tss: "fst (mi_iters m1 ! i) = tss ! i" if "slots_at rest_is m1 tss qs" for m1
    using that i(1) by (auto simp: slots_at_def)
  show ?case
  proof (cases "mi_drained m ! i")
    case True
    then have e: "qs ! i = []" using Suc.prems(2) i(1) by (auto simp: slots_at_def slot_at_def)
    then have "\<exists>m' ts' s'. scan_slots ops [Suc i..<length qs] m (best_slot qs (Suc i)) ts s =
        Inr (m', best_slot qs (length qs), ts', s') \<and>
      good s' \<and> slots_at rest_is m' tss qs \<and> (\<forall>j. best_slot qs (length qs) = Some j \<longrightarrow> ts' = tss ! j) \<and>
      (\<forall>j<length qs. filled m' j) \<and> mi_pair m' = mi_pair m \<and> mi_done m' = mi_done m"
      using Suc.prems True i by (intro Suc.hyps(1)) (auto simp: less_Suc_eq)
    then show ?thesis using True e by (simp add: up)
  next
    case False
    obtain m1 s1 where f: "fill_slot ops i m s = Inr (m1, s1)" "good s1"
      "mi_current m1 ! i = (case qs ! i of [] \<Rightarrow> None | p # _ \<Rightarrow> Some p)"
      "\<forall>j. j \<noteq> i \<longrightarrow> mi_current m1 ! j = mi_current m ! j" "mi_drained m1 = mi_drained m"
      "mi_pair m1 = mi_pair m" "mi_done m1 = mi_done m"
      "qs ! i \<noteq> [] \<longrightarrow> slots_at rest_is m1 tss qs"
      "qs ! i = [] \<longrightarrow> slots_at rest_is (m1\<lparr>mi_drained := (mi_drained m1)[i := True]\<rparr>) tss qs"
      using fill_slot_result [OF Suc.prems(1,2) i(1) False nx] by blast
    note key = key [OF Suc.prems(2,5) f(4)]
    define m2 where "m2 = (if qs ! i = [] then m1\<lparr>mi_drained := (mi_drained m1)[i := True]\<rparr> else m1)"
    define ts1 where "ts1 = (if best_slot qs (Suc i) = Some i then tss ! i else ts)"
    have m2: "slots_at rest_is m2 tss qs" using f(8,9) by (auto simp: m2_def)
    have pd: "mi_pair m2 = mi_pair m" "mi_done m2 = mi_done m" using f(6,7) by (simp_all add: m2_def)
    have ln: "i < length (mi_drained m1)" using m2 i(1) by (auto simp: slots_at_def m2_def split: if_splits)
    have fl: "\<forall>j<Suc i. filled m2 j"
      using Suc.prems(5) f(3,4,5) ln by (auto simp: m2_def less_Suc_eq nth_list_update split: list.splits)
    have tsj: "\<forall>j. best_slot qs (Suc i) = Some j \<longrightarrow> ts1 = tss ! j"
      using Suc.prems(4) by (auto simp: ts1_def split: list.splits option.splits if_splits)
    have step: "scan_slots ops [i..<length qs] m (best_slot qs i) ts s =
        scan_slots ops [Suc i..<length qs] m2 (best_slot qs (Suc i)) ts1 s1"
      using False f(1,3) key tss [OF m2] best_slot_Some [of qs i]
      by (cases "qs ! i"; cases "best_slot qs i") (auto simp: up m2_def ts1_def split: if_splits)
    show ?thesis unfolding step
      using Suc.hyps(1) [OF i(2) f(2) m2 _ tsj fl] i(1) pd by simp
  qed
qed

end

context table_iterator begin

definition pending :: "('i, 'k, 'v) merging_iter \<Rightarrow> (timestamp \<times> 'k \<times> 'v) list" where
  "pending m = (case mi_pair m of None \<Rightarrow> [] | Some p \<Rightarrow> [p])"

text \<open>The merging iterator still has \<open>xs\<close> to read from its inputs.\<close>

definition reads_on :: "('i, 'k, 'v) merging_iter \<Rightarrow> (timestamp \<times> 'k \<times> 'v) list \<Rightarrow> bool" where
  "reads_on m xs \<longleftrightarrow> (\<exists>tss qs. slots_at rest_is m tss qs \<and> (\<forall>q\<in>set qs. sorted (map fst q)) \<and> xs = merged tss qs)"

lemma reads_on_pair [simp]: "reads_on (m\<lparr>mi_pair := p\<rparr>) xs \<longleftrightarrow> reads_on m xs"
  "reads_on (m\<lparr>mi_done := d\<rparr>) xs \<longleftrightarrow> reads_on m xs"
  by (simp_all add: reads_on_def slots_at_def slot_at_frame)

lemma next_with_timestamp_result:
  assumes nx: "it_next ops = nx" and s: "good s" and m: "reads_on m xs"
  shows "\<exists>m' s'. next_with_timestamp ops m s = Inr (case xs of [] \<Rightarrow> None | x # _ \<Rightarrow> Some x, m', s') \<and>
    good s' \<and> reads_on m' (tl xs) \<and> mi_pair m' = mi_pair m \<and> mi_done m' = mi_done m"
proof -
  obtain tss qs where q: "slots_at rest_is m tss qs" "\<forall>q\<in>set qs. sorted (map fst q)" "xs = merged tss qs"
    using m unfolding reads_on_def by blast
  have l: "length qs = length tss" "length (mi_current m) = length qs" using q(1) by (auto simp: slots_at_def)
  have "\<exists>m' ts' s'. scan_slots ops [0..<length qs] m (best_slot qs 0) ts_default s =
      Inr (m', best_slot qs (length qs), ts', s') \<and>
    good s' \<and> slots_at rest_is m' tss qs \<and> (\<forall>j. best_slot qs (length qs) = Some j \<longrightarrow> ts' = tss ! j) \<and>
    (\<forall>j<length qs. filled m' j) \<and> mi_pair m' = mi_pair m \<and> mi_done m' = mi_done m"
    using s q(1) by (intro scan_slots_result [OF nx]) auto
  then obtain m' ts' s' where sc: "scan_slots ops [0..<length qs] m None ts_default s =
      Inr (m', best_slot qs (length qs), ts', s')" and
    r: "good s'" "slots_at rest_is m' tss qs" "\<forall>j. best_slot qs (length qs) = Some j \<longrightarrow> ts' = tss ! j"
    "\<forall>j<length qs. filled m' j" "mi_pair m' = mi_pair m" "mi_done m' = mi_done m"
    by auto
  note mn = merged_next [OF l(1) q(2)]
  show ?thesis
  proof (cases "best_slot qs (length qs)")
    case None
    then have "xs = []" using mn q(3) by simp
    moreover have "reads_on m' xs" using r(2) q(2,3) unfolding reads_on_def by blast
    ultimately show ?thesis using None sc r l by (auto simp: next_with_timestamp_def)
  next
    case (Some j)
    then have j: "j < length qs" "qs ! j \<noteq> []" using best_slot_Some by blast+
    then obtain p t where pt: "qs ! j = p # t" by (cases "qs ! j") auto
    have x: "xs = (tss ! j, p) # merged tss (qs[j := t])" using mn Some q(3) pt by simp
    have sj: "slot_at rest_is m' j (p # t)" "filled m' j" using r(2,4) j(1) pt by (auto simp: slots_at_def)
    have cj: "mi_current m' ! j = Some p" using slot_filled [OF sj] by simp
    let ?m = "m'\<lparr>mi_current := (mi_current m')[j := None]\<rparr>"
    have "slot_at rest_is ?m i (qs[j := t] ! i)" if "i < length qs" for i
    proof (cases "i = j")
      case True
      then show ?thesis using sj cj r(2) j(1) by (auto simp: slot_at_def slots_at_def split: if_splits)
    next
      case False
      then have "slot_at rest_is ?m i (qs ! i) = slot_at rest_is m' i (qs ! i)"
        by (intro slot_at_cong) simp_all
      then show ?thesis using False r(2) that by (simp add: slots_at_def)
    qed
    then have "slots_at rest_is ?m tss (qs[j := t])" using r(2) by (auto simp: slots_at_def)
    then have "reads_on ?m (merged tss (qs[j := t]))"
      using sorted_slots_tl [OF q(2), of j] pt unfolding reads_on_def by auto
    then show ?thesis
      using sc Some cj r(1,3,5,6) l x by (auto simp: next_with_timestamp_def split: prod.splits)
  qed
qed

lemma merge_versions_result:
  assumes nx: "it_next ops = nx"
  shows "\<lbrakk>good s; reads_on m xs; mi_pair m = Some x; length xs < fuel\<rbrakk> \<Longrightarrow>
    \<exists>kv m' ys s'. merge_versions fuel ops m s = Inr (Some kv, m', s') \<and> good s' \<and> reads_on m' ys \<and>
      length ys \<le> length xs \<and> mi_done m' = mi_done m \<and>
      newest_only (x # xs) = kv # newest_only (pending m' @ ys)"
proof (induction fuel arbitrary: m xs x s)
  case (Suc fuel)
  obtain lt lk lv where x: "x = (lt, lk, lv)" by (cases x)
  obtain m1 s1 where n: "next_with_timestamp ops (m\<lparr>mi_pair := None\<rparr>) s =
      Inr (case xs of [] \<Rightarrow> None | x # _ \<Rightarrow> Some x, m1, s1)" "good s1" "reads_on m1 (tl xs)"
    "mi_pair m1 = None" "mi_done m1 = mi_done m"
    using next_with_timestamp_result [OF nx Suc.prems(1), of "m\<lparr>mi_pair := None\<rparr>" xs] Suc.prems(2) by auto
  show ?case
  proof (cases xs)
    case Nil
    then show ?thesis using Suc.prems(3) n x by (auto simp: pending_def)
  next
    case (Cons y r)
    obtain ts k v where y: "y = (ts, k, v)" by (cases y)
    define z where "z = (if newer_version lt ts then y else x)"
    show ?thesis
    proof (cases "k = lk")
      case True
      have "\<exists>kv m' ys s'. merge_versions fuel ops (m1\<lparr>mi_pair := Some z\<rparr>) s1 = Inr (Some kv, m', s') \<and> good s' \<and>
          reads_on m' ys \<and> length ys \<le> length r \<and> mi_done m' = mi_done (m1\<lparr>mi_pair := Some z\<rparr>) \<and>
          newest_only (z # r) = kv # newest_only (pending m' @ ys)"
        using n(2,3) Cons Suc.prems(4) by (intro Suc.IH) auto
      moreover have "merge_versions (Suc fuel) ops m s = merge_versions fuel ops (m1\<lparr>mi_pair := Some z\<rparr>) s1"
        using Suc.prems(3) n(1) Cons True by (simp add: x y z_def)
      moreover have "newest_only (x # xs) = newest_only (z # r)" using Cons True by (simp add: x y z_def)
      ultimately show ?thesis using n(5) Cons by fastforce
    next
      case False
      then show ?thesis using Suc.prems(3) n Cons by (auto simp: x y pending_def)
    qed
  qed
qed simp

text \<open>A merging iterator over iterators is an iterator.\<close>

definition merging_rest :: "nat \<Rightarrow> ('i, 'k, 'v) merging_iter \<Rightarrow> ('k \<times> 'v) list \<Rightarrow> bool" where
  "merging_rest fuel m out \<longleftrightarrow> (\<exists>xs. reads_on m xs \<and> length xs < fuel \<and>
     (mi_done m \<longrightarrow> mi_pair m = None \<and> xs = []) \<and> out = newest_only (pending m @ xs))"

lemma merging_next_result:
  assumes nx: "it_next ops = nx" and s: "good s" and m: "merging_rest fuel m out"
  shows "\<exists>m' s'. merging_next fuel ops m s = Inr (case out of [] \<Rightarrow> None | kv # _ \<Rightarrow> Some kv, m', s') \<and>
    good s' \<and> merging_rest fuel m' (tl out)"
proof -
  obtain xs where xs: "reads_on m xs" "length xs < fuel" "mi_done m \<longrightarrow> mi_pair m = None \<and> xs = []"
    "out = newest_only (pending m @ xs)"
    using m unfolding merging_rest_def by blast
  show ?thesis
  proof (cases "mi_done m")
    case True
    then show ?thesis using xs s m by (auto simp: merging_next_def pending_def)
  next
    case False
    have loop: "\<exists>m' s'. merge_versions fuel ops m1 s1 = Inr (case out of [] \<Rightarrow> None | kv # _ \<Rightarrow> Some kv, m', s') \<and>
        good s' \<and> merging_rest fuel m' (tl out)"
      if m1: "good s1" "reads_on m1 ys" "mi_pair m1 = Some x" and len: "length ys \<le> length xs" and done1: "\<not> mi_done m1"
        and out: "out = newest_only (x # ys)" for m1 s1 ys x
    proof -
      have "length ys < fuel" using len xs(2) by simp
      then obtain kv m' zs s' where "merge_versions fuel ops m1 s1 = Inr (Some kv, m', s')" "good s'"
        "reads_on m' zs" "length zs \<le> length ys" "\<not> mi_done m'" "out = kv # newest_only (pending m' @ zs)"
        using merge_versions_result [OF nx m1] done1 out by metis
      then show ?thesis using len xs(2) by (auto simp: merging_rest_def)
    qed
    show ?thesis
    proof (cases "mi_pair m")
      case (Some x)
      then show ?thesis using loop [OF s xs(1) Some] xs(4) False by (simp add: merging_next_def pending_def)
    next
      case None
      obtain m1 s1 where n: "next_with_timestamp ops m s = Inr (case xs of [] \<Rightarrow> None | x # _ \<Rightarrow> Some x, m1, s1)"
        "good s1" "reads_on m1 (tl xs)" "mi_pair m1 = None" "mi_done m1 = mi_done m"
        using next_with_timestamp_result [OF nx s xs(1)] None by auto
      show ?thesis
      proof (cases xs)
        case Nil
        then have "out = []" using xs(4) None by (simp add: pending_def)
        then show ?thesis
          using Nil None False n xs(2) by (auto simp: merging_next_def merging_rest_def pending_def)
      next
        case (Cons x r)
        then show ?thesis
          using loop [OF n(2), of "m1\<lparr>mi_pair := Some x\<rparr>" r x] n False None xs(4)
          by (simp add: merging_next_def pending_def)
      qed
    qed
  qed
qed

lemma merging_iterator: "it_next ops = nx \<Longrightarrow> fused_iterator (merging_next fuel ops) (merging_rest fuel) good"
  by unfold_locales (use merging_next_result in fastforce)+

lemma merging_new:
  assumes "list_all2 rest_is (map snd iters) qs" "\<forall>q\<in>set qs. sorted (map fst q)"
    "length (concat qs) < fuel"
  shows "merging_rest fuel (merging_iter_new iters) (newest_only (merged (map fst iters) qs))"
proof -
  have "slots_at rest_is (merging_iter_new iters) (map fst iters) qs"
    using assms(1) by (auto simp: slots_at_def slot_at_def merging_iter_new_def list_all2_conv_all_nth)
  moreover have "length (merged (map fst iters) qs) = length (concat qs)"
    using list_all2_lengthD [OF assms(1)] by (intro length_merged) simp
  ultimately show ?thesis
    using assms(2,3) unfolding merging_rest_def reads_on_def
    by (intro exI [of _ "merged (map fst iters) qs"]) (auto simp: merging_iter_new_def pending_def)
qed

end

section \<open>Reading an iterator to its end\<close>

fun take_next ::
  "('i \<Rightarrow> 's \<Rightarrow> (('k \<times> 'v) option \<times> 'i \<times> 's) res) \<Rightarrow> nat \<Rightarrow> 'i \<Rightarrow> 's
    \<Rightarrow> (('k \<times> 'v) option list \<times> 's) res" where
  "take_next nx 0 it s = Inr ([], s)"
| "take_next nx (Suc n) it s =
     res_bind (nx it s) (\<lambda>(x, it', s'). res_bind (take_next nx n it' s') (\<lambda>(xs, s''). Inr (x # xs, s'')))"

context table_iterator begin

lemma take_next_result:
  "\<lbrakk>good s; rest_is it out\<rbrakk> \<Longrightarrow>
    \<exists>s'. take_next nx (Suc (length out)) it s = Inr (map Some out @ [None], s') \<and> good s'"
proof (induction out arbitrary: it s)
  case Nil
  then obtain it' s' where "nx it s = Inr (None, it', s')" "good s'" using next_none by blast
  then show ?case by simp
next
  case (Cons kv out)
  obtain it' s' where n: "nx it s = Inr (Some kv, it', s')" "rest_is it' out" "good s'"
    using next_some [OF Cons.prems] by blast
  obtain s'' where "take_next nx (Suc (length out)) it' s' = Inr (map Some out @ [None], s'')" "good s''"
    using Cons.IH [OF n(3,2)] by blast
  then show ?case using n(1) by (simp del: take_next.simps(2) add: take_next.simps(2) [where n = "Suc _"])
qed

end

section \<open>What is kept\<close>

abbreviation key_of :: "timestamp \<times> 'k \<times> 'v \<Rightarrow> 'k" where
  "key_of x \<equiv> fst (snd x)"

lemma newest_only_keys: "fst ` set (newest_only xs) = key_of ` set xs"
  by (induction xs rule: newest_only.induct) auto

lemma newest_only_subset: "set (newest_only xs) \<subseteq> snd ` set xs"
proof (induction xs rule: newest_only.induct)
  case (3 x y r)
  then show ?case by (cases "key_of y = key_of x"; cases "newer_version (fst x) (fst y)") auto
qed auto

lemma length_newest_only: "length (newest_only xs) \<le> length xs"
proof (induction xs rule: newest_only.induct)
  case (3 x y r)
  then show ?case by (cases "key_of y = key_of x"; cases "newer_version (fst x) (fst y)") auto
qed auto

lemma newest_only_sorted: "sorted (map key_of xs) \<Longrightarrow> sorted_wrt (<) (map fst (newest_only xs))"
proof (induction xs rule: newest_only.induct)
  case (3 x y r)
  show ?case
  proof (cases "key_of y = key_of x")
    case True
    then show ?thesis using 3 by simp
  next
    case False
    have "key_of x < k" if "k \<in> fst ` set (newest_only (y # r))" for k
      using that 3(3) False unfolding newest_only_keys by (auto simp: order_less_le)
    then show ?thesis using 3(2) [OF False] 3(3) False by auto
  qed
qed auto

text \<open>When no version of a key is newer than one before it, the first version is kept.\<close>

definition newest_first :: "(timestamp \<times> 'k \<times> 'v) list \<Rightarrow> bool" where
  "newest_first xs \<longleftrightarrow>
     (\<forall>k. sorted_wrt (\<lambda>x y. \<not> newer_version (fst x) (fst y)) (filter (\<lambda>x. key_of x = k) xs))"

lemma newest_first_drop: "newest_first (xs @ y # ys) \<Longrightarrow> newest_first (xs @ ys)"
proof -
  assume n: "newest_first (xs @ y # ys)"
  show ?thesis unfolding newest_first_def
  proof
    fix k
    show "sorted_wrt (\<lambda>x y. \<not> newer_version (fst x) (fst y)) (filter (\<lambda>x. key_of x = k) (xs @ ys))"
      using spec [OF n [unfolded newest_first_def], of k] by (cases "key_of y = k") (simp_all add: sorted_wrt_append)
  qed
qed

lemma newest_only_map_of: "newest_first xs \<Longrightarrow> map_of (newest_only xs) = map_of (map snd xs)"
proof (induction xs rule: newest_only.induct)
  case (3 x y r)
  show ?case
  proof (cases "key_of y = key_of x")
    case True
    then have n: "\<not> newer_version (fst x) (fst y)"
      using 3(3) by (auto simp: newest_first_def dest: spec [of _ "key_of x"])
    have "newest_first (x # r)" using newest_first_drop [of "[x]" y r] 3(3) by simp
    then have "map_of (newest_only (x # r)) = map_of (map snd (x # r))"
      by (rule 3(1) [OF True, unfolded if_not_P [OF n]])
    moreover have "map_of (map snd (x # y # r)) = map_of (map snd (x # r))" using True by (auto simp: fun_eq_iff)
    moreover have "newest_only (x # y # r) = newest_only (x # r)" using True n by simp
    ultimately show ?thesis by (simp only:)
  next
    case False
    have m: "map_of (newest_only (y # r)) = map_of (map snd (y # r))"
      using 3(3) newest_first_drop [of "[]" x "y # r"] by (intro 3(2) [OF False]) simp
    have "map_of (newest_only (x # y # r)) = (map_of (newest_only (y # r)))(key_of x \<mapsto> snd (snd x))"
      using False by simp
    also have "\<dots> = map_of (map snd (x # y # r))" unfolding m by simp
    finally show ?thesis .
  qed
qed auto

lemma map_of_eq_filter:
  "map_of xs k = (case filter (\<lambda>p. fst p = k) xs of [] \<Rightarrow> None | p # _ \<Rightarrow> Some (snd p))"
  by (induction xs) auto

lemma merged_filter:
  "filter (\<lambda>x. key_of x = k) (merged tss qs) = filter (\<lambda>x. key_of x = k) (tagged tss qs)"
  using sort_key_stable [of "fst \<circ> snd" k "tagged tss qs"] by (simp add: merged_def o_def)

lemma tagged_snd: "length tss = length qs \<Longrightarrow> map snd (tagged tss qs) = concat qs"
  by (induction tss qs rule: list_induct2) (auto simp: tagged_def tag_def o_def)

lemma merged_map_of:
  assumes "length tss = length qs"
  shows "map_of (map snd (merged tss qs)) = map_of (concat qs)"
proof
  fix k
  have "filter (\<lambda>p. fst p = k) (map snd (merged tss qs)) = filter (\<lambda>p. fst p = k) (map snd (tagged tss qs))"
    using merged_filter [of k tss qs] by (simp add: filter_map o_def)
  then show "map_of (map snd (merged tss qs)) k = map_of (concat qs) k"
    using tagged_snd [OF assms] by (simp add: map_of_eq_filter)
qed

lemma ts_lt_irrefl [simp]: "\<not> ts_lt t t"
  by (simp add: ts_lt_def ts_cmp_def)

lemma tagged_newest_first:
  "\<lbrakk>length tss = length qs; sorted_wrt (\<lambda>a b. \<not> newer_version a b) tss\<rbrakk> \<Longrightarrow>
    sorted_wrt (\<lambda>x y. \<not> newer_version (fst x) (fst y)) (tagged tss qs)"
proof (induction tss qs rule: list_induct2)
  case (Cons t ts q qs)
  have "sorted_wrt (\<lambda>x y. \<not> newer_version (fst x) (fst y)) (tag t q)"
    by (simp add: tag_def sorted_wrt_map newer_version_def sorted_wrt_iff_nth_less)
  moreover have "\<not> newer_version (fst x) (fst y)" if "x \<in> set (tag t q)" "y \<in> set (tagged ts qs)" for x y
    using that tagged_mem [OF that(2)] Cons.prems by (auto simp: tag_def)
  ultimately show ?case using Cons by (simp add: tagged_def sorted_wrt_append)
qed (simp add: tagged_def)

text \<open>With the inputs in the order newest first, what is kept is what a lookup in that order finds.\<close>

lemma merged_newest_map_of:
  assumes "length tss = length qs" "sorted_wrt (\<lambda>a b. \<not> newer_version a b) tss"
  shows "map_of (newest_only (merged tss qs)) = map_of (concat qs)"
proof -
  have "newest_first (merged tss qs)"
    using tagged_newest_first [OF assms] by (simp add: newest_first_def merged_filter sorted_wrt_filter)
  then show ?thesis using newest_only_map_of merged_map_of [OF assms(1)] by metis
qed

lemma merged_sorted: "sorted_wrt (<) (map fst (newest_only (merged tss qs)))"
  by (rule newest_only_sorted) (use sorted_sort_key [of "fst \<circ> snd" "tagged tss qs"] in \<open>simp add: merged_def o_def\<close>)

section \<open>Table files are iterators\<close>

definition owning_rest ::
  "wire \<Rightarrow> ('k, 'v) table_codec \<Rightarrow> 'b filter_policy \<Rightarrow> (cache_id \<Rightarrow> bytes list option) \<Rightarrow> 'b owning_iter
    \<Rightarrow> ('k \<times> 'v) list \<Rightarrow> bool" where
  "owning_rest w c p tbl it rest \<longleftrightarrow> (\<exists>gs bs. reads w c p (fst it) gs bs \<and>
     tbl (tr_cache_id (fst it)) = Some bs \<and> scan_at w c (fst it) gs bs (snd it) rest)"

context table_reading begin

lemma owning_iterator: "table_iterator (owning_iter_next w c ops) (owning_rest w c p tbl) (coherent (block_entry tbl))"
proof
  fix s it kv r
  assume s: "coherent (block_entry tbl) s" and o: "owning_rest w c p tbl it (kv # r)"
  then obtain gs bs where rd: "reads w c p (fst it) gs bs" "tbl (tr_cache_id (fst it)) = Some bs"
    "scan_at w c (fst it) gs bs (snd it) (kv # r)"
    unfolding owning_rest_def by blast
  then obtain it' s' where "table_iter_next w c ops (fst it) (snd it) s = Inr (Some kv, it', s')"
    "coherent (block_entry tbl) s'" "scan_at w c (fst it) gs bs it' r"
    using next_result [OF rd(1,2) s rd(3)] by auto
  then show "\<exists>it' s'. owning_iter_next w c ops it s = Inr (Some kv, it', s') \<and> owning_rest w c p tbl it' r \<and>
      coherent (block_entry tbl) s'"
    using rd(1,2) by (auto simp: owning_iter_next_def owning_rest_def)
next
  fix s it
  assume s: "coherent (block_entry tbl) s" and o: "owning_rest w c p tbl it []"
  then obtain gs bs where rd: "reads w c p (fst it) gs bs" "tbl (tr_cache_id (fst it)) = Some bs"
    "scan_at w c (fst it) gs bs (snd it) []"
    unfolding owning_rest_def by blast
  then show "\<exists>it' s'. owning_iter_next w c ops it s = Inr (None, it', s') \<and> coherent (block_entry tbl) s'"
    using next_result [OF rd(1,2) s rd(3)] by (auto simp: owning_iter_next_def)
qed

end

interpretation std_table_iter: table_iterator "owning_iter_next std_wire std_table_codec std_block_cache"
  "owning_rest std_wire std_table_codec (default_filter_policy std_wire) tbl"
  "lossy_map.coherent (sharded_view ll_peek (\<lambda>(i, off). i + of_nat off)) (sharded_good ll_good) (block_entry tbl)"
  for tbl
  by (rule std_reading.owning_iterator)

interpretation std_merging_iter: fused_iterator "merging_next fuel (owning_iter_ops std_wire std_table_codec std_block_cache)"
  "table_iterator.merging_rest (owning_rest std_wire std_table_codec (default_filter_policy std_wire) tbl) fuel"
  "lossy_map.coherent (sharded_view ll_peek (\<lambda>(i, off). i + of_nat off)) (sharded_good ll_good) (block_entry tbl)"
  for tbl fuel
  by (rule table_iterator.merging_iterator [OF std_table_iter.table_iterator_axioms]) (simp add: owning_iter_ops_def)

text \<open>
  \<open>reset\<close> rewinds the inputs but leaves \<open>drained\<close> as it is: an iterator that has come to its end
  stays at its end.
\<close>

lemma reset_stays_at_end:
  assumes "\<forall>i<length (mi_current m). mi_drained m ! i" "mi_pair m = None"
  shows "\<exists>m'. merging_next fuel ops (merging_reset ops m) s = Inr (None, m', s)"
proof -
  have "scan_slots ops js (merging_reset ops m) None ts s = Inr (merging_reset ops m, None, ts, s)"
    if "set js \<subseteq> {0..<length (mi_current m)}" for js ts
    using that assms(1) by (induction js) (auto simp: merging_reset_def)
  then show ?thesis
    using assms(2) by (simp add: merging_next_def next_with_timestamp_def merging_reset_def)
qed

section \<open>Properties\<close>

text \<open>
  C19: what a compaction reads. A merging iterator over inputs in ascending order returns the stable
  merge of their entries with one version of every key, in strictly ascending order, and then ends.
  When the inputs come newest first, the entries it returns are those a lookup through the inputs in
  their order finds.
\<close>
theorem merging_iter_is_merge:
  "\<lbrakk>table_iterator (it_next ops) rest_is good; list_all2 rest_is (map snd iters) qs;
    \<forall>q\<in>set qs. sorted (map fst q); length (concat qs) < fuel; good s\<rbrakk> \<Longrightarrow>
   (let out = newest_only (merged (map fst iters) qs)
    in (\<exists>s'. take_next (merging_next fuel ops) (Suc (length out)) (merging_iter_new iters) s =
          Inr (map Some out @ [None], s')) \<and>
       sorted_wrt (<) (map fst out) \<and>
       (sorted_wrt (\<lambda>a b. \<not> newer_version a b) (map fst iters) \<longrightarrow> map_of out = map_of (concat qs)))"
proof -
  assume a: "table_iterator (it_next ops) rest_is good" "list_all2 rest_is (map snd iters) qs"
    "\<forall>q\<in>set qs. sorted (map fst q)" "length (concat qs) < fuel" "good s"
  have l: "length (map fst iters) = length qs" using a(2) by (auto dest: list_all2_lengthD)
  note it = table_iterator.take_next_result [OF fused_iterator.axioms(1) [OF table_iterator.merging_iterator [OF a(1) refl]] a(5)
      table_iterator.merging_new [OF a(1-4)]]
  show ?thesis
    unfolding Let_def using it merged_sorted merged_newest_map_of [OF l] by blast
qed

text \<open>Three inputs: two versions of key 2 with timestamps, an older one without.\<close>

definition demo_list_ops :: "((nat \<times> nat) list, unit, nat, nat) iter_ops" where
  "demo_list_ops = \<lparr>it_next = (\<lambda>q s. Inr (case q of [] \<Rightarrow> (None, [], s) | p # r \<Rightarrow> (Some p, r, s))),
     it_reset = (\<lambda>q. q), it_seek = (\<lambda>k q. q)\<rparr>"

theorem merging_iter_is_merge_witness:
  "\<exists>s'. take_next (merging_next 9 demo_list_ops) 4
      (merging_iter_new [(ts_new Commit 7, [(2, 20), (5, 50)]), (ts_new Commit 4, [(2, 21)]), (ts_default, [(1, 10), (2, 22)])]) ()
     = Inr ([Some (1, 10), Some (2, 20), Some (5, 50), None], s')"
proof -
  let ?iters = "[(ts_new Commit 7, [(2, 20), (5, 50)]), (ts_new Commit 4, [(2, 21)]), (ts_default, [(1, 10), (2, 22)])]"
  have it: "table_iterator (it_next demo_list_ops) (=) (\<lambda>_. True)"
    by unfold_locales (auto simp: demo_list_ops_def)
  have n: "\<not> newer_version (ts_new Commit 7) (ts_new Commit 4)"
    by (simp add: newer_version_def ts_lt_small ts_limit_def)
  have out: "newest_only (merged (map fst ?iters) (map snd ?iters)) = [(1 :: nat, 10), (2, 20), (5, 50 :: nat)]"
    using n by (simp add: merged_def tagged_def tag_def newer_version_def)
  show ?thesis
    using merging_iter_is_merge [OF it, of ?iters "map snd ?iters" 9 "()", unfolded out Let_def]
    by (simp add: list_all2_same eval_nat_numeral del: take_next.simps)
qed

end
