(* ===== verification/Table_Cache.thy ===== *)
theory Table_Cache
  imports Merging_Iter Version
begin

text \<open>
  The table cache of \<open>table.rs\<close> and the parts of \<open>version.rs\<close> that read table files: lookup through the
  levels of a version (\<open>Version::get\<close>) and the input iterator of a compaction. A table is opened when
  the cache of open tables does not have it; every table takes an identifier under which its blocks go
  into the block cache. The locale \<open>id_cache\<close> adds the identifiers to the contract of the block cache,
  the locale \<open>table_store\<close> puts the contracts of both caches, the encoding and the filter together. The
  main result is that a lookup in a version is a lookup in the entries of its files, in their order.
\<close>

section \<open>Opening tables\<close>

type_synonym disk = "table_file_ref \<Rightarrow> bytes option"

record ('k, 'v, 'b, 't, 's) table_env =
  te_wire :: wire
  te_codec :: "('k, 'v) table_codec"
  te_options :: "'b table_options"
  te_tables :: "(table_file_ref, 'b table_reader, 't) cache_ops"
  te_blocks :: "(nat, bytes, 's) cache_ops"

text \<open>\<open>TableCache::new\<close> makes 32 shards.\<close>

definition table_cache_new ::
  "(table_file_ref cache_key, 'b table_reader, 'c) lru \<Rightarrow> db_options \<Rightarrow> 'c sharded_cache res" where
  "table_cache_new l opt = sharded_new l 32 (max_open_files opt)"

definition get_table ::
  "('k, 'v, 'b, 't, 's) table_env \<Rightarrow> disk \<Rightarrow> table_file_ref \<Rightarrow> 't \<times> 's \<Rightarrow> ('b table_reader \<times> 't \<times> 's) res" where
  "get_table env disk r st =
     res_bind (op_get (te_tables env) (0, r) (fst st)) (\<lambda>(found, ts).
       case found of
         Some table \<Rightarrow> Inr (table, ts, snd st)
       | None \<Rightarrow> (case disk r of
             None \<Rightarrow> Inl (Err Io)
           | Some contents \<Rightarrow>
               res_bind (table_open (te_wire env) (te_blocks env) (te_options env) contents (length contents) (snd st))
                 (\<lambda>(table, cs). res_bind (op_insert (te_tables env) (0, r) table ts) (\<lambda>(_, ts').
                   Inr (table, ts', cs)))))"

section \<open>Lookup in a version\<close>

definition get_in_file ::
  "('k::linorder, 'v, 'b, 't, 's) table_env \<Rightarrow> disk \<Rightarrow> 'k table_file_meta \<Rightarrow> 'k \<Rightarrow> 't \<times> 's
    \<Rightarrow> ('v option \<times> 't \<times> 's) res" where
  "get_in_file env disk f key st =
     res_bind (get_table env disk (file_ref f) st) (\<lambda>(table, ts, cs).
     res_bind (table_get (te_wire env) (te_codec env) (te_blocks env) table key cs) (\<lambda>(v, cs').
       Inr (v, ts, cs')))"

fun get_level0 ::
  "('k::linorder, 'v, 'b, 't, 's) table_env \<Rightarrow> disk \<Rightarrow> 'k \<Rightarrow> 'k table_file_meta list \<Rightarrow> 't \<times> 's
    \<Rightarrow> ('v option \<times> 't \<times> 's) res" where
  "get_level0 env disk key [] st = Inr (None, st)"
| "get_level0 env disk key (f # fs) st =
     (if key < infimum f \<or> supremum f < key then get_level0 env disk key fs st
      else res_bind (get_in_file env disk f key st) (\<lambda>(v, st').
        case v of Some _ \<Rightarrow> Inr (v, st') | None \<Rightarrow> get_level0 env disk key fs st'))"

definition get_level ::
  "('k::linorder, 'v, 'b, 't, 's) table_env \<Rightarrow> disk \<Rightarrow> 'k \<Rightarrow> 'k table_file_meta list \<Rightarrow> 't \<times> 's
    \<Rightarrow> ('v option \<times> 't \<times> 's) res" where
  "get_level env disk key files st =
     (case find_in_files files key of
        None \<Rightarrow> Inr (None, st)
      | Some f \<Rightarrow> get_in_file env disk f key st)"

fun get_levels ::
  "('k::linorder, 'v, 'b, 't, 's) table_env \<Rightarrow> disk \<Rightarrow> 'k \<Rightarrow> (nat \<times> 'k table_file_meta list) list \<Rightarrow> 't \<times> 's
    \<Rightarrow> ('v option \<times> 't \<times> 's) res" where
  "get_levels env disk key [] st = Inr (None, st)"
| "get_levels env disk key ((level, files) # rest) st =
     res_bind (if level = 0 then get_level0 env disk key files st else get_level env disk key files st)
       (\<lambda>(v, st'). case v of Some _ \<Rightarrow> Inr (v, st') | None \<Rightarrow> get_levels env disk key rest st')"

definition version_get ::
  "('k::linorder, 'v, 'b, 't, 's) table_env \<Rightarrow> disk \<Rightarrow> 'k version \<Rightarrow> 'k \<Rightarrow> 't \<times> 's
    \<Rightarrow> ('v option \<times> 't \<times> 's) res" where
  "version_get env disk v key st = get_levels env disk key (enumerate 0 (v_files v)) st"

section \<open>The input iterator of a compaction\<close>

fun open_inputs ::
  "('k, 'v, 'b, 't, 's) table_env \<Rightarrow> disk \<Rightarrow> nat \<Rightarrow> 'k table_file_meta list \<Rightarrow> 't \<times> 's
    \<Rightarrow> ((timestamp \<times> 'b owning_iter) list \<times> 't \<times> 's) res" where
  "open_inputs env disk level [] st = Inr ([], st)"
| "open_inputs env disk level (f # fs) st =
     (let t = (if level = 0 then file_min_xip f else ts_default)
      in res_bind (get_table env disk (file_ref f) st) (\<lambda>(table, st1).
         res_bind (owning_iter_from_table (te_wire env) table True) (\<lambda>it.
         res_bind (open_inputs env disk level fs st1) (\<lambda>(iters, st2). Inr ((t, it) # iters, st2)))))"

definition make_input_iterator ::
  "('k, 'v, 'b, 't, 's) table_env \<Rightarrow> disk \<Rightarrow> 'k compaction \<Rightarrow> 't \<times> 's
    \<Rightarrow> (('b owning_iter, 'k, 'v) merging_iter \<times> 't \<times> 's) res" where
  "make_input_iterator env disk c st =
     res_bind (open_inputs env disk (c_level c) (fst (c_inputs c)) st) (\<lambda>(start_iters, st1).
     res_bind (open_inputs env disk (c_level c + 1) (snd (c_inputs c)) st1) (\<lambda>(output_iters, st2).
       Inr (merging_iter_new (start_iters @ output_iters), st2)))"

section \<open>A block cache that gives out identifiers\<close>

locale id_cache =
  lossy_map "op_get ops" "op_insert ops" view good
  for ops :: "('k, 'v, 's) cache_ops" and view and good +
  fixes next_id :: "'s \<Rightarrow> cache_id"
  assumes get_next: "op_get ops k s = Inr (r, s') \<Longrightarrow> next_id s' = next_id s"
    and insert_next: "op_insert ops k v s = Inr (r, s') \<Longrightarrow> next_id s' = next_id s"
    and new_id: "good s \<Longrightarrow> fst (op_new_id ops s) = next_id s \<and> next_id (snd (op_new_id ops s)) = next_id s + 1 \<and>
      good (snd (op_new_id ops s)) \<and> view (snd (op_new_id ops s)) = view s"
begin

text \<open>Between two new identifiers the cache is a lossy map that has given out the ones below \<open>n\<close>.\<close>

definition good_at :: "cache_id \<Rightarrow> 's \<Rightarrow> bool" where
  "good_at n s \<longleftrightarrow> good s \<and> next_id s = n"

lemma lossy_at: "lossy_map (op_get ops) (op_insert ops) view (good_at n)"
  by unfold_locales (metis get_view insert_view get_next insert_next good_at_def)+

end

lemma with_shard_next: "with_shard hash i key f sc = Inr (r, sc') \<Longrightarrow> sc_last_id sc' = sc_last_id sc"
  by (auto simp: with_shard_def res_bind_eq_Inr split: if_splits prod.splits)

lemma sharded_id_cache:
  assumes "lru_contract l peek good"
  shows "id_cache (sharded_ops l hash) (sharded_view peek hash) (sharded_good good) sc_last_id"
proof (intro id_cache.intro sharded_ops_lossy [OF assms] id_cache_axioms.intro)
qed (auto simp: sharded_ops_def sharded_get_def sharded_insert_def sharded_get_id_def
    sharded_good_def sharded_view_def fun_eq_iff dest: with_shard_next split: prod.splits)

section \<open>What is in a file, and what is open\<close>

definition disk_ok ::
  "wire \<Rightarrow> ('k::linorder, 'v) table_codec \<Rightarrow> 'b filter_policy \<Rightarrow> (table_file_ref \<Rightarrow> ('k \<times> 'v) list) \<Rightarrow> disk
    \<Rightarrow> table_file_ref set \<Rightarrow> bool" where
  "disk_ok w c p ents disk R \<longleftrightarrow> (\<forall>r\<in>R. \<exists>fl gs bs filt idx. disk r = Some fl \<and> length fl < 2 ^ 32 \<and>
     table_file w c p fl gs bs filt idx \<and> concat gs = ents r \<and> ascending c (ents r))"

locale table_store =
  reading: table_reading "te_wire env" "te_codec env" "opt_policy (te_options env)" "te_blocks env" view good +
  ids: id_cache "te_blocks env" view good next_id +
  tables: lossy_map "op_get (te_tables env)" "op_insert (te_tables env)" tview tgood
  for env :: "('k::linorder, 'v, 'b, 't, 's) table_env" and view good next_id tview tgood
begin

lemma reading_at: "table_reading (te_wire env) (te_codec env) (opt_policy (te_options env)) (te_blocks env) view (ids.good_at n)"
  by (intro table_reading.intro reading.table_format_axioms reading.filter_contract_axioms ids.lossy_at)

text \<open>
  An open table is one of the tables \<open>R\<close>; its blocks are registered under its identifier, which is below \<open>n\<close>. Identifiers that
  are not given out have no blocks.
\<close>

definition opened ::
  "(table_file_ref \<Rightarrow> ('k \<times> 'v) list) \<Rightarrow> table_file_ref set \<Rightarrow> (cache_id \<Rightarrow> bytes list option) \<Rightarrow> cache_id
    \<Rightarrow> table_file_ref \<Rightarrow> 'b table_reader \<Rightarrow> bool" where
  "opened ents R tbl n r rd \<longleftrightarrow> r \<in> R \<and> (\<exists>gs bs. reads (te_wire env) (te_codec env) (opt_policy (te_options env)) rd gs bs \<and>
     concat gs = ents r \<and> tbl (tr_cache_id rd) = Some bs \<and> tr_cache_id rd < n)"

definition caches_at ::
  "(table_file_ref \<Rightarrow> ('k \<times> 'v) list) \<Rightarrow> table_file_ref set \<Rightarrow> (cache_id \<Rightarrow> bytes list option) \<Rightarrow> cache_id
    \<Rightarrow> 't \<times> 's \<Rightarrow> bool" where
  "caches_at ents R tbl n st \<longleftrightarrow>
     tables.coherent (\<lambda>(i, r) rd. i = 0 \<longrightarrow> opened ents R tbl n r rd) (fst st) \<and>
     lossy_map.coherent view (ids.good_at n) (block_entry tbl) (snd st) \<and>
     (\<forall>i\<ge>n. tbl i = Some [])"

text \<open>\<open>k\<close> more tables can be opened before the identifiers wrap.\<close>

definition room :: "nat \<Rightarrow> cache_id \<Rightarrow> bool" where
  "room k n \<longleftrightarrow> unat n + k < 2 ^ 32"

definition extends ::
  "cache_id \<Rightarrow> (cache_id \<Rightarrow> bytes list option) \<Rightarrow> cache_id \<Rightarrow> (cache_id \<Rightarrow> bytes list option) \<Rightarrow> bool" where
  "extends n tbl n' tbl' \<longleftrightarrow> n \<le> n' \<and> (\<forall>i<n. tbl' i = tbl i)"

lemma extends_refl [simp]: "extends n tbl n tbl"
  by (simp add: extends_def)

lemma extends_trans: "extends n tbl n1 tbl1 \<Longrightarrow> extends n1 tbl1 n2 tbl2 \<Longrightarrow> extends n tbl n2 tbl2"
  by (auto simp: extends_def)

lemma opened_extends: "opened ents R tbl n r rd \<Longrightarrow> extends n tbl n' tbl' \<Longrightarrow> opened ents R tbl' n' r rd"
  unfolding opened_def extends_def by (metis order_less_le_trans)

lemma caches_at_agree:
  assumes c: "caches_at ents R tbl n st" and e: "R \<subseteq> R'" "\<forall>r\<in>R. ents' r = ents r"
  shows "caches_at ents' R' tbl n st"
proof -
  have "opened ents' R' tbl n r rd" if "opened ents R tbl n r rd" for r rd
    using that e by (auto simp: opened_def)
  then show ?thesis using c unfolding caches_at_def tables.coherent_def by fast
qed

lemma room_next: "room (Suc k) n \<Longrightarrow> room k (n + 1) \<and> n < n + 1"
proof -
  assume r: "room (Suc k) n"
  then have "unat (n + 1) = Suc (unat n)" by (simp add: room_def unat_word_ariths)
  then show ?thesis using r by (simp add: room_def word_less_nat_alt)
qed

lemma room_mono: "room k n \<Longrightarrow> j \<le> k \<Longrightarrow> room j n"
  by (simp add: room_def)

text \<open>A new table takes the next identifier.\<close>

lemma new_table_coherent:
  assumes cs: "lossy_map.coherent view (ids.good_at n) (block_entry tbl) cs" and free: "\<forall>i\<ge>n. tbl i = Some []"
    and n: "n < n + 1"
  shows "lossy_map.coherent view (ids.good_at (n + 1)) (block_entry (tbl(n \<mapsto> bs))) (snd (op_new_id (te_blocks env) cs))"
    "fst (op_new_id (te_blocks env) cs) = n"
proof -
  have g: "good cs" "next_id cs = n" and e: "\<forall>k v. view cs k = Some v \<longrightarrow> block_entry tbl k v"
    using cs by (auto simp: lossy_map.coherent_def [OF ids.lossy_at] ids.good_at_def)
  note new = ids.new_id [OF g(1)]
  show "fst (op_new_id (te_blocks env) cs) = n" using new g(2) by simp
  have "block_entry (tbl(n \<mapsto> bs)) k v" if "view cs k = Some v" for k v
  proof -
    obtain i off where k: "k = (i, off)" by (cases k)
    have b: "block_entry tbl k v" using e that by blast
    have "i \<noteq> n" using b free k by (auto simp: block_entry_def)
    then show ?thesis using b by (simp add: k block_entry_def)
  qed
  then show "lossy_map.coherent view (ids.good_at (n + 1)) (block_entry (tbl(n \<mapsto> bs))) (snd (op_new_id (te_blocks env) cs))"
    using new g(2) by (simp add: lossy_map.coherent_def [OF ids.lossy_at] ids.good_at_def)
qed

lemma get_table_result:
  assumes d: "disk_ok (te_wire env) (te_codec env) (opt_policy (te_options env)) ents disk R" and r: "r \<in> R"
    and st: "caches_at ents R tbl n st" and rm: "room (Suc k) n"
  shows "\<exists>rd st' n' tbl'. get_table env disk r st = Inr (rd, st') \<and> caches_at ents R tbl' n' st' \<and> room k n' \<and>
    extends n tbl n' tbl' \<and> opened ents R tbl' n' r rd"
proof -
  let ?P = "\<lambda>tbl n. \<lambda>(i, r) rd. i = 0 \<longrightarrow> opened ents R tbl n r rd"
  have t: "tables.coherent (?P tbl n) (fst st)" and c: "lossy_map.coherent view (ids.good_at n) (block_entry tbl) (snd st)"
    and free: "\<forall>i\<ge>n. tbl i = Some []"
    using st by (simp_all add: caches_at_def)
  obtain x ts where g: "op_get (te_tables env) (0, r) (fst st) = Inr (x, ts)" "tables.coherent (?P tbl n) ts"
    "\<forall>rd. x = Some rd \<longrightarrow> opened ents R tbl n r rd"
    using tables.coherent_get [OF t, of "(0, r)"] by auto
  show ?thesis
  proof (cases x)
    case (Some rd)
    then have "get_table env disk r st = Inr (rd, ts, snd st)" using g(1) by (simp add: get_table_def)
    moreover have "caches_at ents R tbl n (ts, snd st)" using g(2) c free by (simp add: caches_at_def)
    moreover have "room k n" using rm by (auto intro: room_mono)
    ultimately show ?thesis using g(3) Some extends_refl by blast
  next
    case None
    obtain fl gs bs filt idx where f: "disk r = Some fl" "length fl < 2 ^ 32"
      "table_file (te_wire env) (te_codec env) (opt_policy (te_options env)) fl gs bs filt idx" "concat gs = ents r"
      using d r unfolding disk_ok_def by blast
    note nx = room_next [OF rm]
    define tbl' where "tbl' = tbl(n \<mapsto> bs)"
    note new = new_table_coherent [OF c free conjunct2 [OF nx]]
    obtain rd where rd: "table_open (te_wire env) (te_blocks env) (te_options env) fl (length fl) (snd st) =
        Inr (rd, snd (op_new_id (te_blocks env) (snd st)))"
      "reads (te_wire env) (te_codec env) (opt_policy (te_options env)) rd gs bs"
      "tr_cache_id rd = fst (op_new_id (te_blocks env) (snd st))"
      using reading.table_open_reads [OF f(3,2), where ops = "te_blocks env" and cs = "snd st"]
      by (elim exE conjE) (rule that; assumption)
    have ext: "extends n tbl (n + 1) tbl'" using nx by (auto simp: extends_def tbl'_def)
    have id: "tr_cache_id rd = n" using rd(3) new(2) nx by simp
    have op: "opened ents R tbl' (n + 1) r rd"
      using rd(2) f(4) id nx r by (auto simp: opened_def tbl'_def)
    have "tables.coherent (?P tbl' (n + 1)) ts"
      using g(2) opened_extends [OF _ ext] unfolding tables.coherent_def by fastforce
    then obtain y ts' where ins: "op_insert (te_tables env) (0, r) rd ts = Inr (y, ts')"
      "tables.coherent (?P tbl' (n + 1)) ts'"
      using tables.coherent_insert [of "?P tbl' (n + 1)" ts "(0, r)" rd] op by auto
    have "get_table env disk r st = Inr (rd, ts', snd (op_new_id (te_blocks env) (snd st)))"
      using None g(1) f(1) rd(1) ins(1) by (simp add: get_table_def)
    moreover have "caches_at ents R tbl' (n + 1) (ts', snd (op_new_id (te_blocks env) (snd st)))"
      using ins(2) new(1) nx free by (auto simp: caches_at_def tbl'_def)
    ultimately show ?thesis using nx ext op by blast
  qed
qed

lemma get_in_file_result:
  assumes d: "disk_ok (te_wire env) (te_codec env) (opt_policy (te_options env)) ents disk R" and r: "file_ref f \<in> R"
    and st: "caches_at ents R tbl n st" and rm: "room (Suc k) n"
  shows "\<exists>st' n' tbl'. get_in_file env disk f key st = Inr (map_of (ents (file_ref f)) key, st') \<and>
    caches_at ents R tbl' n' st' \<and> room k n' \<and> extends n tbl n' tbl'"
proof -
  obtain rd ts cs n' tbl' where t: "get_table env disk (file_ref f) st = Inr (rd, ts, cs)"
    "caches_at ents R tbl' n' (ts, cs)" "room k n'" "extends n tbl n' tbl'" "opened ents R tbl' n' (file_ref f) rd"
    using get_table_result [OF d r st rm] by (metis prod.collapse)
  obtain gs bs where rd: "reads (te_wire env) (te_codec env) (opt_policy (te_options env)) rd gs bs"
    "concat gs = ents (file_ref f)" "tbl' (tr_cache_id rd) = Some bs"
    using t(5) by (auto simp: opened_def)
  have asc: "ascending (te_codec env) (concat gs)" using d r rd(2) by (auto simp: disk_ok_def)
  have c: "lossy_map.coherent view (ids.good_at n') (block_entry tbl') cs" using t(2) by (simp add: caches_at_def)
  obtain cs' where "table_get (te_wire env) (te_codec env) (te_blocks env) rd key cs = Inr (map_of (concat gs) key, cs')"
    "lossy_map.coherent view (ids.good_at n') (block_entry tbl') cs'"
    using table_reading.table_lookup [OF reading_at rd(1) rd(3) c asc] by blast
  then show ?thesis
    using t rd(2) by (auto simp: get_in_file_def caches_at_def)
qed

end

section \<open>A version as a map\<close>

definition files_entries ::
  "(table_file_ref \<Rightarrow> ('k \<times> 'v) list) \<Rightarrow> 'k table_file_meta list \<Rightarrow> ('k \<times> 'v) list" where
  "files_entries ents fs = concat (map (ents \<circ> file_ref) fs)"

definition version_entries :: "(table_file_ref \<Rightarrow> ('k \<times> 'v) list) \<Rightarrow> 'k version \<Rightarrow> ('k \<times> 'v) list" where
  "version_entries ents v = files_entries ents (concat (v_files v))"

text \<open>The files of \<open>fs\<close> are on disk and hold keys between their smallest and their largest key only.\<close>

definition in_range :: "(table_file_ref \<Rightarrow> ('k::linorder \<times> 'v) list) \<Rightarrow> 'k table_file_meta \<Rightarrow> bool" where
  "in_range ents f \<longleftrightarrow> (\<forall>kv\<in>set (ents (file_ref f)). infimum f \<le> fst kv \<and> fst kv \<le> supremum f)"

definition stored ::
  "(table_file_ref \<Rightarrow> ('k::linorder \<times> 'v) list) \<Rightarrow> table_file_ref set \<Rightarrow> 'k table_file_meta list \<Rightarrow> bool" where
  "stored ents R fs \<longleftrightarrow> (\<forall>f\<in>set fs. file_ref f \<in> R \<and> in_range ents f)"

lemma files_entries_simps:
  "files_entries ents [] = []" "files_entries ents (f # fs) = ents (file_ref f) @ files_entries ents fs"
  "files_entries ents (fs @ gs) = files_entries ents fs @ files_entries ents gs"
  by (simp_all add: files_entries_def)

lemma stored_simps [simp]:
  "stored ents R []" "stored ents R (f # fs) \<longleftrightarrow> file_ref f \<in> R \<and> in_range ents f \<and> stored ents R fs"
  "stored ents R (fs @ gs) \<longleftrightarrow> stored ents R fs \<and> stored ents R gs"
  by (auto simp: stored_def)

lemma files_lookup [simp]:
  "map_of (files_entries ents []) k = None"
  "map_of (files_entries ents (f # fs)) k =
     (case map_of (ents (file_ref f)) k of Some v \<Rightarrow> Some v | None \<Rightarrow> map_of (files_entries ents fs) k)"
  "map_of (files_entries ents (fs @ gs)) k =
     (case map_of (files_entries ents fs) k of Some v \<Rightarrow> Some v | None \<Rightarrow> map_of (files_entries ents gs) k)"
  by (simp_all add: files_entries_simps map_add_def)

lemma out_of_range: "\<lbrakk>in_range ents f; key < infimum f \<or> supremum f < key\<rbrakk> \<Longrightarrow> map_of (ents (file_ref f)) key = None"
  by (force simp: in_range_def map_of_eq_None_iff)

lemma below_level:
  "\<lbrakk>sorted_wrt (before_file level) (f # fs); 0 < level; \<forall>f\<in>set fs. file_ok level f; stored ents R fs; key \<le> supremum f\<rbrakk>
    \<Longrightarrow> map_of (files_entries ents fs) key = None"
proof (induction fs)
  case (Cons g fs)
  then have "key < infimum g" by (auto simp: before_file_def)
  then show ?case using Cons out_of_range [of ents g key] by simp
qed simp

text \<open>On a level of disjoint files only the first file that reaches the key counts.\<close>

lemma level_find:
  "\<lbrakk>sorted_wrt (before_file level) fs; \<forall>f\<in>set fs. file_ok level f; 0 < level; stored ents R fs\<rbrakk> \<Longrightarrow>
    map_of (files_entries ents fs) key =
      (case find (\<lambda>f. key \<le> supremum f) fs of None \<Rightarrow> None | Some f \<Rightarrow> map_of (ents (file_ref f)) key)"
proof (induction fs)
  case (Cons f fs)
  show ?case
  proof (cases "key \<le> supremum f")
    case True
    then show ?thesis using below_level [of level f fs ents R key] Cons.prems
      by (simp split: option.splits)
  next
    case False
    then have "map_of (ents (file_ref f)) key = None" using Cons.prems(4) by (intro out_of_range) auto
    then show ?thesis using False Cons by simp
  qed
qed simp

lemma level_sorted_supremum:
  assumes "sorted_wrt (before_file level) fs" "\<forall>f\<in>set fs. file_ok level f" "0 < level"
  shows "sorted (map supremum fs)"
  unfolding sorted_wrt_map
  by (rule sorted_wrt_mono_rel [OF _ assms(1)]) (use assms(2,3) in \<open>auto simp: before_file_def file_ok_def intro: order_trans less_imp_le\<close>)

context table_store begin

abbreviation files_on_disk :: "(table_file_ref \<Rightarrow> ('k \<times> 'v) list) \<Rightarrow> disk \<Rightarrow> table_file_ref set \<Rightarrow> bool" where
  "files_on_disk ents disk R \<equiv> disk_ok (te_wire env) (te_codec env) (opt_policy (te_options env)) ents disk R"

lemma unchanged: "\<lbrakk>caches_at ents R tbl n st; room k n\<rbrakk> \<Longrightarrow>
    \<exists>n' tbl'. caches_at ents R tbl' n' st \<and> room k n' \<and> extends n tbl n' tbl'"
  using extends_refl by blast

lemma get_level0_result:
  assumes d: "files_on_disk ents disk R"
  shows "\<lbrakk>stored ents R fs; caches_at ents R tbl n st; room (length fs + k) n\<rbrakk> \<Longrightarrow>
    \<exists>st' n' tbl'. get_level0 env disk key fs st = Inr (map_of (files_entries ents fs) key, st') \<and>
      caches_at ents R tbl' n' st' \<and> room k n' \<and> extends n tbl n' tbl'"
proof (induction fs arbitrary: tbl n st)
  case Nil
  then show ?case using unchanged by simp
next
  case (Cons f fs)
  show ?case
  proof (cases "key < infimum f \<or> supremum f < key")
    case True
    then have "map_of (files_entries ents (f # fs)) key = map_of (files_entries ents fs) key"
      using Cons.prems(1) out_of_range [of ents f key] by simp
    moreover have "room (length fs + k) n" using Cons.prems(3) by (rule room_mono) simp
    ultimately show ?thesis using True Cons.IH [of tbl n st] Cons.prems(1,2) by simp
  next
    case False
    obtain st1 n1 tbl1 where g: "get_in_file env disk f key st = Inr (map_of (ents (file_ref f)) key, st1)"
      "caches_at ents R tbl1 n1 st1" "room (length fs + k) n1" "extends n tbl n1 tbl1"
      using get_in_file_result [OF d _ Cons.prems(2), of f "length fs + k" key] Cons.prems(1,3) by auto
    show ?thesis
    proof (cases "map_of (ents (file_ref f)) key")
      case None
      obtain st2 n2 tbl2 where h: "get_level0 env disk key fs st1 = Inr (map_of (files_entries ents fs) key, st2)"
        "caches_at ents R tbl2 n2 st2" "room k n2" "extends n1 tbl1 n2 tbl2"
        using Cons.IH [OF _ g(2,3)] Cons.prems(1) by auto
      have "get_level0 env disk key (f # fs) st = Inr (map_of (files_entries ents (f # fs)) key, st2)"
        using False None g(1) h(1) by simp
      then show ?thesis using h(2,3) extends_trans [OF g(4) h(4)] by blast
    next
      case (Some v)
      have "room k n1" using g(3) by (rule room_mono) simp
      then show ?thesis using False Some g by auto
    qed
  qed
qed

lemma get_level_result:
  assumes d: "files_on_disk ents disk R" and fs: "level_ok level fs" "0 < level" "stored ents R fs"
    and st: "caches_at ents R tbl n st" and rm: "room (length fs + k) n"
  shows "\<exists>st' n' tbl'. get_level env disk key fs st = Inr (map_of (files_entries ents fs) key, st') \<and>
      caches_at ents R tbl' n' st' \<and> room k n' \<and> extends n tbl n' tbl'"
proof -
  have s: "sorted_wrt (before_file level) fs" "\<forall>f\<in>set fs. file_ok level f" using fs(1) by (auto simp: level_ok_def)
  have find: "find_in_files fs key = find (\<lambda>f. key \<le> supremum f) fs"
    by (rule find_in_files_is_find [OF level_sorted_supremum [OF s fs(2)]])
  note m = level_find [OF s fs(2,3), of key]
  show ?thesis
  proof (cases "find (\<lambda>f. key \<le> supremum f) fs")
    case None
    have "room k n" using rm by (rule room_mono) simp
    from unchanged [OF st this] show ?thesis using None find m by (simp add: get_level_def)
  next
    case (Some f)
    then have f: "f \<in> set fs" by (auto simp: find_Some_iff)
    then have "room (Suc k) n" using rm by (cases fs) (auto intro: room_mono)
    then show ?thesis
      using Some find m f fs(3) get_in_file_result [OF d _ st, of f k key] by (auto simp: get_level_def stored_def)
  qed
qed

lemma get_levels_result:
  assumes d: "files_on_disk ents disk R"
  shows "\<lbrakk>\<forall>p\<in>set ls. level_ok (fst p) (snd p) \<and> stored ents R (snd p); caches_at ents R tbl n st;
     room (length (concat (map snd ls)) + k) n\<rbrakk> \<Longrightarrow>
    \<exists>st' n' tbl'. get_levels env disk key ls st = Inr (map_of (files_entries ents (concat (map snd ls))) key, st') \<and>
      caches_at ents R tbl' n' st' \<and> room k n' \<and> extends n tbl n' tbl'"
proof (induction ls arbitrary: tbl n st)
  case Nil
  then show ?case using unchanged by simp
next
  case (Cons p ls)
  obtain level fs where p: "p = (level, fs)" by (cases p)
  let ?rest = "concat (map snd ls)"
  have rm: "room (length fs + (length ?rest + k)) n" using Cons.prems(3) by (simp add: p add.assoc)
  have fs: "level_ok level fs" "stored ents R fs" using Cons.prems(1) by (auto simp: p)
  have "\<exists>st' n' tbl'. (if level = 0 then get_level0 env disk key fs st else get_level env disk key fs st) =
        Inr (map_of (files_entries ents fs) key, st') \<and>
      caches_at ents R tbl' n' st' \<and> room (length ?rest + k) n' \<and> extends n tbl n' tbl'"
    using get_level0_result [OF d fs(2) Cons.prems(2) rm, of key]
      get_level_result [OF d fs(1) _ fs(2) Cons.prems(2) rm, of key] by simp
  then obtain st1 n1 tbl1 where g:
    "(if level = 0 then get_level0 env disk key fs st else get_level env disk key fs st) =
        Inr (map_of (files_entries ents fs) key, st1)"
    "caches_at ents R tbl1 n1 st1" "room (length ?rest + k) n1" "extends n tbl n1 tbl1"
    by blast
  show ?case
  proof (cases "map_of (files_entries ents fs) key")
    case (Some v)
    have "room k n1" using g(3) by (rule room_mono) simp
    then show ?thesis using Some g by (auto simp: p)
  next
    case None
    obtain st2 n2 tbl2 where h: "get_levels env disk key ls st1 = Inr (map_of (files_entries ents ?rest) key, st2)"
      "caches_at ents R tbl2 n2 st2" "room k n2" "extends n1 tbl1 n2 tbl2"
      using Cons.IH [OF _ g(2,3)] Cons.prems(1) by auto
    have "get_levels env disk key (p # ls) st = Inr (map_of (files_entries ents (concat (map snd (p # ls)))) key, st2)"
      using None g(1) h(1) by (simp add: p)
    then show ?thesis using h(2,3) extends_trans [OF g(4) h(4)] by blast
  qed
qed

lemma version_get_result:
  assumes d: "files_on_disk ents disk R" and v: "version_ok m v" "stored ents R (concat (v_files v))"
    and st: "caches_at ents R tbl n st" and rm: "room (length (concat (v_files v)) + k) n"
  shows "\<exists>st' n' tbl'. version_get env disk v key st = Inr (map_of (version_entries ents v) key, st') \<and>
      caches_at ents R tbl' n' st' \<and> room k n' \<and> extends n tbl n' tbl'"
proof -
  have "\<forall>p\<in>set (enumerate 0 (v_files v)). level_ok (fst p) (snd p) \<and> stored ents R (snd p)"
    using v by (auto simp: version_ok_def in_set_enumerate_eq stored_def)
  from get_levels_result [OF d this st, of k key] rm
  show ?thesis by (simp add: version_get_def version_entries_def)
qed

end

section \<open>Opening the inputs of a compaction\<close>

definition source_ts :: "nat \<Rightarrow> 'k table_file_meta \<Rightarrow> timestamp" where
  "source_ts level f = (if level = 0 then file_min_xip f else ts_default)"

context table_reading begin

lemma new_owning_iter:
  assumes r: "reads w c p rd gs bs" and t: "tbl (tr_cache_id rd) = Some bs"
  shows "\<exists>it. owning_iter_from_table w rd for_compaction = Inr it \<and> fst it = rd \<and>
    owning_rest w c p tbl it (concat gs)"
proof -
  obtain ix where ix: "iter_new w (tr_index rd) = Inr ix"
    "iter_at w (tr_index rd) (index_entries c gs (layout 0 bs)) ix 0"
    using iter_at_new [OF index_keys(1) [OF r]] by blast
  define it where "it = \<lparr>ti_block = None, ti_index = ix, ti_compaction = for_compaction\<rparr>"
  have "scan_at w c rd gs bs it (concat gs)"
    using ix(2) by (auto simp: scan_at_def index_at_def it_def)
  then have "owning_rest w c p tbl (rd, it) (concat gs)"
    using r t unfolding owning_rest_def by auto
  then show ?thesis using ix(1) by (simp add: owning_iter_from_table_def table_iter_new_def it_def)
qed

end

context table_store begin

definition input_rest :: "(cache_id \<Rightarrow> bytes list option) \<Rightarrow> cache_id \<Rightarrow> 'b owning_iter \<Rightarrow> ('k \<times> 'v) list \<Rightarrow> bool" where
  "input_rest tbl n it q \<longleftrightarrow>
     owning_rest (te_wire env) (te_codec env) (opt_policy (te_options env)) tbl it q \<and> tr_cache_id (fst it) < n"

lemma input_rest_extends: "input_rest tbl n it q \<Longrightarrow> extends n tbl n' tbl' \<Longrightarrow> input_rest tbl' n' it q"
proof -
  assume i: "input_rest tbl n it q" and e: "extends n tbl n' tbl'"
  have "tr_cache_id (fst it) < n" using i by (simp add: input_rest_def)
  then have "tbl' (tr_cache_id (fst it)) = tbl (tr_cache_id (fst it))" "tr_cache_id (fst it) < n'"
    using e by (auto simp: extends_def)
  then show ?thesis using i by (simp add: input_rest_def owning_rest_def)
qed

lemma open_inputs_result:
  assumes d: "files_on_disk ents disk R"
  shows "\<lbrakk>stored ents R fs; caches_at ents R tbl n st; room (length fs + k) n\<rbrakk> \<Longrightarrow>
    \<exists>iters st' n' tbl'. open_inputs env disk level fs st = Inr (iters, st') \<and>
      caches_at ents R tbl' n' st' \<and> room k n' \<and> extends n tbl n' tbl' \<and>
      map fst iters = map (source_ts level) fs \<and>
      list_all2 (input_rest tbl' n') (map snd iters) (map (ents \<circ> file_ref) fs)"
proof (induction fs arbitrary: tbl n st)
  case Nil
  then show ?case using unchanged by simp
next
  case (Cons f fs)
  obtain rd st1 n1 tbl1 where t: "get_table env disk (file_ref f) st = Inr (rd, st1)" "caches_at ents R tbl1 n1 st1"
    "room (length fs + k) n1" "extends n tbl n1 tbl1" "opened ents R tbl1 n1 (file_ref f) rd"
    using get_table_result [OF d _ Cons.prems(2), of "file_ref f" "length fs + k"] Cons.prems(1,3) by auto
  obtain gs bs where rd: "reads (te_wire env) (te_codec env) (opt_policy (te_options env)) rd gs bs"
    "concat gs = ents (file_ref f)" "tbl1 (tr_cache_id rd) = Some bs" "tr_cache_id rd < n1"
    using t(5) by (auto simp: opened_def)
  obtain it where it: "owning_iter_from_table (te_wire env) rd True = Inr it" "fst it = rd"
    "owning_rest (te_wire env) (te_codec env) (opt_policy (te_options env)) tbl1 it (concat gs)"
    using reading.new_owning_iter [OF rd(1), where tbl = tbl1] rd(3) by blast
  have sf: "stored ents R fs" using Cons.prems(1) by simp
  obtain iters st2 n2 tbl2 where h: "open_inputs env disk level fs st1 = Inr (iters, st2)"
    "caches_at ents R tbl2 n2 st2" "room k n2" "extends n1 tbl1 n2 tbl2" "map fst iters = map (source_ts level) fs"
    "list_all2 (input_rest tbl2 n2) (map snd iters) (map (ents \<circ> file_ref) fs)"
    using Cons.IH [OF sf t(2,3)] by blast
  have "input_rest tbl1 n1 it (ents (file_ref f))" using it(2,3) rd(2,4) by (simp add: input_rest_def)
  then have "input_rest tbl2 n2 it (ents (file_ref f))" using h(4) by (rule input_rest_extends)
  moreover have "open_inputs env disk level (f # fs) st = Inr ((source_ts level f, it) # iters, st2)"
    using t(1) it(1) h(1) by (simp add: source_ts_def Let_def)
  ultimately show ?case
    using h(2,3,5,6) extends_trans [OF t(4) h(4)]
    by (intro exI [of _ "(source_ts level f, it) # iters"] exI [of _ st2] exI [of _ n2] exI [of _ tbl2])
      (simp add: o_def)
qed

definition source_stamps :: "'k compaction \<Rightarrow> timestamp list" where
  "source_stamps c = map (source_ts (c_level c)) (fst (c_inputs c)) @
     map (source_ts (c_level c + 1)) (snd (c_inputs c))"

definition source_entries :: "(table_file_ref \<Rightarrow> ('k \<times> 'v) list) \<Rightarrow> 'k compaction \<Rightarrow> ('k \<times> 'v) list list" where
  "source_entries ents c = map (ents \<circ> file_ref) (fst (c_inputs c) @ snd (c_inputs c))"

abbreviation input_ops :: "('b owning_iter, 's, 'k, 'v) iter_ops" where
  "input_ops \<equiv> owning_iter_ops (te_wire env) (te_codec env) (te_blocks env)"

abbreviation blocks_at :: "(cache_id \<Rightarrow> bytes list option) \<Rightarrow> cache_id \<Rightarrow> 's \<Rightarrow> bool" where
  "blocks_at tbl n \<equiv> lossy_map.coherent view (ids.good_at n) (block_entry tbl)"

lemma input_iterator:
  "table_iterator (it_next input_ops)
     (owning_rest (te_wire env) (te_codec env) (opt_policy (te_options env)) tbl) (blocks_at tbl n)"
  using table_reading.owning_iterator [OF reading_at] by (simp add: owning_iter_ops_def)

text \<open>The iterator a compaction reads returns the newest versions of the entries of its inputs.\<close>

lemma make_input_iterator_result:
  assumes d: "files_on_disk ents disk R" and s: "stored ents R (fst (c_inputs c) @ snd (c_inputs c))"
    and st: "caches_at ents R tbl n st" and rm: "room (length (fst (c_inputs c) @ snd (c_inputs c)) + k) n"
    and fuel: "length (concat (source_entries ents c)) < fuel"
  shows "\<exists>m st' n' tbl' rest_is. make_input_iterator env disk c st = Inr (m, st') \<and> caches_at ents R tbl' n' st' \<and>
    room k n' \<and> extends n tbl n' tbl' \<and>
    fused_iterator (merging_next fuel input_ops) rest_is (blocks_at tbl' n') \<and>
    rest_is m (newest_only (merged (source_stamps c) (source_entries ents c)))"
proof -
  let ?a = "fst (c_inputs c)" and ?b = "snd (c_inputs c)"
  have rm: "room (length ?a + (length ?b + k)) n" using rm by (simp add: add.assoc)
  have s: "stored ents R ?a" "stored ents R ?b" using s by auto
  obtain ia st1 n1 tbl1 where a: "open_inputs env disk (c_level c) ?a st = Inr (ia, st1)"
    "caches_at ents R tbl1 n1 st1" "room (length ?b + k) n1" "extends n tbl n1 tbl1"
    "map fst ia = map (source_ts (c_level c)) ?a"
    "list_all2 (input_rest tbl1 n1) (map snd ia) (map (ents \<circ> file_ref) ?a)"
    using open_inputs_result [OF d s(1) st rm, of "c_level c"] by blast
  obtain ib st2 n2 tbl2 where b: "open_inputs env disk (c_level c + 1) ?b st1 = Inr (ib, st2)"
    "caches_at ents R tbl2 n2 st2" "room k n2" "extends n1 tbl1 n2 tbl2"
    "map fst ib = map (source_ts (c_level c + 1)) ?b"
    "list_all2 (input_rest tbl2 n2) (map snd ib) (map (ents \<circ> file_ref) ?b)"
    using open_inputs_result [OF d s(2) a(2,3), of "c_level c + 1"] by blast
  let ?rest = "owning_rest (te_wire env) (te_codec env) (opt_policy (te_options env)) tbl2"
  have "list_all2 (input_rest tbl2 n2) (map snd ia) (map (ents \<circ> file_ref) ?a)"
    using a(6) b(4) by (auto intro: list_all2_mono input_rest_extends)
  then have "list_all2 (input_rest tbl2 n2) (map snd (ia @ ib)) (source_entries ents c)"
    using b(6) by (simp add: source_entries_def list_all2_appendI)
  then have l: "list_all2 ?rest (map snd (ia @ ib)) (source_entries ents c)"
    by (rule list_all2_mono) (simp add: input_rest_def)
  have "\<forall>q\<in>set (source_entries ents c). sorted (map fst q)"
    using d s by (auto simp: source_entries_def stored_def disk_ok_def ascending_def
        dest: strict_sorted_imp_sorted)
  note mn = table_iterator.merging_new [OF input_iterator l this fuel]
  have "map fst (ia @ ib) = source_stamps c" using a(5) b(5) by (simp add: source_stamps_def)
  moreover have "make_input_iterator env disk c st = Inr (merging_iter_new (ia @ ib), st2)"
    using a(1) b(1) by (simp add: make_input_iterator_def)
  ultimately show ?thesis
    using b(2,3) extends_trans [OF a(4) b(4)] mn table_iterator.merging_iterator [OF input_iterator refl] by metis
qed

end

section \<open>The store\<close>

text \<open>
  Everything that has to fit together: the contracts of caches, encoding and filter, the files on
  disk, the version, and caches from which \<open>k\<close> more tables can be opened.
\<close>

definition store_ok ::
  "('k::linorder, 'v, 'b, 't, 's) table_env \<Rightarrow> ('s \<Rightarrow> cache_id \<times> nat \<Rightarrow> bytes option) \<Rightarrow> ('s \<Rightarrow> bool) \<Rightarrow> ('s \<Rightarrow> cache_id)
    \<Rightarrow> ('t \<Rightarrow> cache_id \<times> table_file_ref \<Rightarrow> 'b table_reader option) \<Rightarrow> ('t \<Rightarrow> bool) \<Rightarrow> nat
    \<Rightarrow> (table_file_ref \<Rightarrow> ('k \<times> 'v) list) \<Rightarrow> table_file_ref set \<Rightarrow> disk \<Rightarrow> 'k version \<Rightarrow> nat \<Rightarrow> 't \<times> 's \<Rightarrow> bool" where
  "store_ok env view good next_id tview tgood levels ents R disk v k st \<longleftrightarrow>
     table_store env view good next_id tview tgood \<and>
     disk_ok (te_wire env) (te_codec env) (opt_policy (te_options env)) ents disk R \<and>
     version_ok levels v \<and> stored ents R (concat (v_files v)) \<and>
     (\<exists>tbl n. table_store.caches_at env view good next_id tview tgood ents R tbl n st \<and> table_store.room k n)"

context table_store begin

definition store_at ::
  "nat \<Rightarrow> (table_file_ref \<Rightarrow> ('k \<times> 'v) list) \<Rightarrow> table_file_ref set \<Rightarrow> disk \<Rightarrow> 'k version \<Rightarrow> nat \<Rightarrow> 't \<times> 's \<Rightarrow> bool" where
  "store_at levels ents R disk v k st \<longleftrightarrow> files_on_disk ents disk R \<and> version_ok levels v \<and>
     stored ents R (concat (v_files v)) \<and> (\<exists>tbl n. caches_at ents R tbl n st \<and> room k n)"

lemma store_ok_iff: "store_ok env view good next_id tview tgood levels ents R disk v k st \<longleftrightarrow> store_at levels ents R disk v k st"
  by (simp add: store_ok_def store_at_def table_store_axioms)

text \<open>Caches without entries are a start.\<close>

lemma new_caches:
  assumes "tgood tc" "tview tc = Map.empty" "good bc" "view bc = Map.empty"
  shows "caches_at ents R (\<lambda>_. Some []) (next_id bc) (tc, bc)"
  using assms by (simp add: caches_at_def tables.coherent_def lossy_map.coherent_def [OF ids.lossy_at] ids.good_at_def)

lemma store_get:
  assumes "store_at levels ents R disk v (length (concat (v_files v)) + k) st"
  shows "\<exists>st'. version_get env disk v key st = Inr (map_of (version_entries ents v) key, st') \<and>
    store_at levels ents R disk v k st'"
  using assms version_get_result unfolding store_at_def by meson

end

section \<open>A store over the model's caches\<close>

text \<open>The least recently used caches, their identifiers and the block encoding fit together.\<close>

abbreviation std_block_hash :: "nat cache_key \<Rightarrow> cache_id" where
  "std_block_hash \<equiv> \<lambda>(i, off). i + of_nat off"

definition std_file_hash :: "table_file_ref cache_key \<Rightarrow> cache_id" where
  "std_file_hash = (\<lambda>(i, r). of_nat (ref_seqnum r))"

definition std_env ::
  "(u64, u64, bits_builder, (table_file_ref cache_key, bits_builder table_reader) lru_list sharded_cache,
    (nat cache_key, bytes) lru_list sharded_cache) table_env" where
  "std_env = \<lparr>te_wire = std_wire, te_codec = std_table_codec, te_options = table_options_default std_wire,
     te_tables = sharded_ops std_lru std_file_hash, te_blocks = std_block_cache\<rparr>"

interpretation std_ids: id_cache std_block_cache "sharded_view ll_peek std_block_hash" "sharded_good ll_good" sc_last_id
  by (rule sharded_id_cache [OF std_lru.lru_contract_axioms])

interpretation std_store: table_store std_env "sharded_view ll_peek std_block_hash" "sharded_good ll_good" sc_last_id
  "sharded_view ll_peek std_file_hash" "sharded_good ll_good"
  by (intro table_store.intro)
    (simp_all add: std_env_def table_options_default_def std_reading.table_reading_axioms std_ids.id_cache_axioms
      sharded_ops_lossy std_lru.lru_contract_axioms)

section \<open>Properties\<close>

text \<open>
  C18: a lookup in a version. It returns what the entries of the files say, level by level and the
  files of a level in their order, so newer files hide older ones: through the table cache, the index of a
  table, its filter, its blocks and the block cache, whatever the caches forget. No step fails, and the
  store is good for further lookups until the identifiers of tables run out.
\<close>
theorem version_get_is_lookup:
  "store_ok env view good next_id tview tgood levels ents R disk v (length (concat (v_files v)) + k) st \<Longrightarrow>
   \<exists>st'. version_get env disk v key st = Inr (map_of (version_entries ents v) key, st') \<and>
     store_ok env view good next_id tview tgood levels ents R disk v k st'"
proof -
  assume s: "store_ok env view good next_id tview tgood levels ents R disk v (length (concat (v_files v)) + k) st"
  then have t: "table_store env view good next_id tview tgood" by (simp add: store_ok_def)
  show ?thesis
    using table_store.store_get [OF t] s by (simp add: table_store.store_ok_iff [OF t])
qed

text \<open>A store with one table file on level 0.\<close>

definition demo_meta :: "nat \<Rightarrow> u64 table_file_meta" where
  "demo_meta n = table_file_meta_new (TableFileRef 0 2) n (Timestamp 26) 1 300"

definition demo_store_version :: "nat \<Rightarrow> u64 version" where
  "demo_store_version n = \<lparr>v_files = [[demo_meta n], [], []], v_score = [(1, 1), (0, 1), (0, 1)]\<rparr>"

lemma demo_store:
  assumes f: "table_build std_wire std_table_codec (table_options_default std_wire) demo_entries = Inr f" "length f < 2 ^ 32"
  shows "\<exists>tc. table_cache_new std_lru demo_options = Inr tc \<and>
    store_ok std_env (sharded_view ll_peek std_block_hash) (sharded_good ll_good) sc_last_id
      (sharded_view ll_peek std_file_hash) (sharded_good ll_good) 3 (\<lambda>_. demo_entries) {TableFileRef 0 2}
      [TableFileRef 0 2 \<mapsto> f] (demo_store_version n) 1000 (tc, demo_cache)"
proof -
  have "(0 :: nat) < 32" "0 < max_open_files demo_options" by (simp_all add: demo_options_def default_db_options_def)
  then obtain tc where tc: "table_cache_new std_lru demo_options = Inr tc" "sharded_good ll_good tc"
    "sharded_view ll_peek std_file_hash tc = (Map.empty :: table_file_ref cache_key \<Rightarrow> bits_builder table_reader option)"
    using sharded_new_good [OF std_lru.lru_contract_axioms, of 32 "max_open_files demo_options" std_file_hash]
    unfolding table_cache_new_def by blast
  obtain bc :: "(nat cache_key, bytes) lru_list sharded_cache" where bc: "sharded_new std_lru 2 16 = Inr bc"
    "sharded_good ll_good bc" "sharded_view ll_peek std_block_hash bc = Map.empty"
    using sharded_new_good [OF std_lru.lru_contract_axioms, of 2 16 std_block_hash] by auto
  have "bc = demo_cache" using bc(1) demo_cache_new by simp
  then have "sharded_good ll_good demo_cache" "sharded_view ll_peek std_block_hash demo_cache = Map.empty"
    using bc(2,3) by simp_all
  then have "std_store.caches_at (\<lambda>_. demo_entries) {TableFileRef 0 2} (\<lambda>_. Some []) (sc_last_id demo_cache) (tc, demo_cache)"
    using std_store.new_caches tc(2,3) by blast
  moreover have "std_store.room 1000 (sc_last_id demo_cache)"
    by (simp add: std_store.room_def demo_cache_def)
  moreover obtain gs bs filt idx where "concat gs = demo_entries"
    "table_file std_wire std_table_codec (opt_policy (table_options_default std_wire)) f gs bs filt idx"
    using std.build_table_file [of "table_options_default std_wire" std_table_codec demo_entries] f(1)
    by (auto simp: table_options_default_def bloom.filter_contract_axioms)
  then have "disk_ok (te_wire std_env) (te_codec std_env) (opt_policy (te_options std_env)) (\<lambda>_. demo_entries)
      [TableFileRef 0 2 \<mapsto> f] {TableFileRef 0 2}"
    using f(2) demo_ascending by (auto simp: disk_ok_def std_env_def)
  moreover have "version_ok 3 (demo_store_version n)"
    by (simp add: version_ok_def demo_store_version_def less3 level_ok_def file_ok_def demo_meta_def
        table_file_meta_new_def ts_small_def ts_limit_def)
  moreover have "stored (\<lambda>_. demo_entries) {TableFileRef 0 2} (concat (v_files (demo_store_version n)))"
    by (simp add: demo_store_version_def demo_meta_def table_file_meta_new_def in_range_def demo_entries_def)
  ultimately show ?thesis using tc(1) std_store.table_store_axioms unfolding store_ok_def by blast
qed

theorem version_get_is_lookup_witness:
  "\<exists>f tc st st'. table_build std_wire std_table_codec (table_options_default std_wire) demo_entries = Inr f \<and>
     table_cache_new std_lru demo_options = Inr tc \<and>
     version_get std_env [TableFileRef 0 2 \<mapsto> f] (demo_store_version 300) 300 (tc, demo_cache) = Inr (Some 30, st) \<and>
     version_get std_env [TableFileRef 0 2 \<mapsto> f] (demo_store_version 300) 7 st = Inr (None, st')"
proof -
  obtain f where f: "table_build std_wire std_table_codec (table_options_default std_wire) demo_entries = Inr f"
    "length f < 2 ^ 32"
    using demo_table by blast
  obtain tc where tc: "table_cache_new std_lru demo_options = Inr tc"
    "store_ok std_env (sharded_view ll_peek std_block_hash) (sharded_good ll_good) sc_last_id
      (sharded_view ll_peek std_file_hash) (sharded_good ll_good) 3 (\<lambda>_. demo_entries) {TableFileRef 0 2}
      [TableFileRef 0 2 \<mapsto> f] (demo_store_version 300) 1000 (tc, demo_cache)"
    using demo_store [OF f] by blast
  have n: "(1000 :: nat) = length (concat (v_files (demo_store_version 300))) + 999"
    "(999 :: nat) = length (concat (v_files (demo_store_version 300))) + 998"
    by (simp_all add: demo_store_version_def)
  have m: "map_of (version_entries (\<lambda>_. demo_entries) (demo_store_version 300)) 300 = Some 30"
    "map_of (version_entries (\<lambda>_. demo_entries) (demo_store_version 300)) 7 = None"
    by (simp_all add: version_entries_def demo_store_version_def files_entries_def demo_entries_def)
  obtain st where s1: "version_get std_env [TableFileRef 0 2 \<mapsto> f] (demo_store_version 300) 300 (tc, demo_cache) = Inr (Some 30, st)"
    "store_ok std_env (sharded_view ll_peek std_block_hash) (sharded_good ll_good) sc_last_id
      (sharded_view ll_peek std_file_hash) (sharded_good ll_good) 3 (\<lambda>_. demo_entries) {TableFileRef 0 2}
      [TableFileRef 0 2 \<mapsto> f] (demo_store_version 300) 999 st"
    using version_get_is_lookup [OF tc(2) [unfolded n(1)], of 300] unfolding m(1) by (elim exE conjE) (rule that; assumption)
  obtain st' where "version_get std_env [TableFileRef 0 2 \<mapsto> f] (demo_store_version 300) 7 st = Inr (None, st')"
    using version_get_is_lookup [OF s1(2) [unfolded n(2)], of 7] unfolding m(2) by (elim exE conjE) (rule that; assumption)
  then show ?thesis using f(1) tc(1) s1(1) by (intro exI conjI)
qed

end
