(* ===== verification/Compaction.thy ===== *)
theory Compaction
  imports Table_Cache
begin

text \<open>
  Compactions: the loop of \<open>Db::start_compaction\<close> (\<open>db.rs\<close>) that reads the merged inputs and writes
  table files of the next level, and the edit that replaces the inputs by the outputs. The main result
  composes the merging iterator, the table files, the two caches and the versions: a lookup returns
  the same before and after the compaction.
\<close>

section \<open>Writing the output files\<close>

text \<open>
  A table file is opened with \<open>write\<close> and \<open>create\<close> but without \<open>truncate\<close>: when a file of that name
  exists, it is overwritten from its start and keeps the rest of its bytes.
\<close>

definition overwrite :: "bytes option \<Rightarrow> bytes \<Rightarrow> bytes" where
  "overwrite old new = new @ drop (length new) (case old of None \<Rightarrow> [] | Some bs \<Rightarrow> bs)"

lemma overwrite_None [simp]: "overwrite None new = new"
  by (simp add: overwrite_def)

text \<open>The inner loop: entries go into the table until it is larger than the level allows.\<close>

fun fill_table ::
  "nat \<Rightarrow> wire \<Rightarrow> ('k, 'v) table_codec \<Rightarrow> nat \<Rightarrow> ('i \<Rightarrow> 's \<Rightarrow> (('k \<times> 'v) option \<times> 'i \<times> 's) res)
    \<Rightarrow> ('k, 'b) table_builder \<Rightarrow> 'k \<Rightarrow> 'i \<Rightarrow> 's \<Rightarrow> (('k, 'b) table_builder \<times> 'k \<times> 'i \<times> 's) res" where
  "fill_table 0 w c max_size nx tb last_key it s = Inl Diverges"
| "fill_table (Suc fuel) w c max_size nx tb last_key it s =
     res_bind (nx it s) (\<lambda>(found, it', s').
       case found of
         None \<Rightarrow> Inr (tb, last_key, it', s')
       | Some (k, v) \<Rightarrow> res_bind (table_add w c k v tb) (\<lambda>tb'.
           if max_size < table_size_hint tb' then Inr (tb', k, it', s')
           else fill_table fuel w c max_size nx tb' k it' s'))"

fun write_outputs ::
  "nat \<Rightarrow> ('k, 'v, 'b, 't, 's) table_env \<Rightarrow> nat \<Rightarrow> ('i \<Rightarrow> 's \<Rightarrow> (('k \<times> 'v) option \<times> 'i \<times> 's) res)
    \<Rightarrow> 'k compaction \<Rightarrow> 'k version_set \<Rightarrow> disk \<Rightarrow> 'i \<Rightarrow> 's
    \<Rightarrow> ('k compaction \<times> 'k version_set \<times> disk \<times> 's) res" where
  "write_outputs 0 env max_size nx c vs disk it s = Inl Diverges"
| "write_outputs (Suc fuel) env max_size nx c vs disk it s =
     res_bind (nx it s) (\<lambda>(found, it1, s1).
       case found of
         None \<Rightarrow> Inr (c, vs, disk, s1)
       | Some (k, v) \<Rightarrow>
           let (num, vs1) = new_file_number vs;
               r = TableFileRef 0 num
           in res_bind (table_add (te_wire env) (te_codec env) k v (table_builder_new (te_options env))) (\<lambda>tb.
              res_bind (fill_table fuel (te_wire env) (te_codec env) max_size nx tb k it1 s1)
                (\<lambda>(tb1, last_key, it2, s2).
              res_bind (table_finish (te_wire env) (te_codec env) tb1) (\<lambda>tb2.
                let contents = overwrite (disk r) (tb_out tb2);
                    f = table_file_meta_new r (length contents) ts_default k last_key
                in write_outputs fuel env max_size nx (c\<lparr>c_edit := add_file (output_level c) f (c_edit c)\<rparr>)
                     vs1 (disk(r \<mapsto> contents)) it2 s2))))"

text \<open>
  \<open>start_compaction\<close> up to \<open>finalize_compaction\<close>, and the edit of the version set that
  \<open>finalize_compaction\<close> hands to \<open>log_and_apply\<close>. \<open>fuel\<close> bounds the loops over the entries of the inputs.
\<close>

definition run_compaction ::
  "nat \<Rightarrow> ('k::linorder, 'v, 'b, 't, 's) table_env \<Rightarrow> db_options \<Rightarrow> 'k compaction \<Rightarrow> 'k version_set \<Rightarrow> disk
    \<Rightarrow> 't \<times> 's \<Rightarrow> ('k compaction \<times> 'k version_set \<times> disk \<times> 't \<times> 's) res" where
  "run_compaction fuel env opt c vs disk st =
     res_bind (make_input_iterator env disk c st) (\<lambda>(citer, ts, cs).
     res_bind (write_outputs fuel env (max_file_size_for_level opt (output_level c))
        (merging_next fuel (owning_iter_ops (te_wire env) (te_codec env) (te_blocks env))) c vs disk citer cs)
        (\<lambda>(c', vs', disk', cs'). Inr (delete_inputs c', vs', disk', ts, cs')))"

section \<open>What the loops write\<close>

text \<open>File \<open>f\<close> has been written and holds \<open>q\<close>.\<close>

definition written ::
  "wire \<Rightarrow> ('k, 'v) table_codec \<Rightarrow> 'b filter_policy \<Rightarrow> disk \<Rightarrow> 'k table_file_meta \<Rightarrow> ('k \<times> 'v) list \<Rightarrow> bool" where
  "written w c p disk f q \<longleftrightarrow> q \<noteq> [] \<and> infimum f = fst (hd q) \<and> supremum f = fst (last q) \<and>
     file_min_xip f = ts_default \<and> \<not> being_compacted f \<and>
     (\<exists>contents gs bs filt idx. disk (file_ref f) = Some contents \<and> file_size f = length contents \<and>
        table_file w c p contents gs bs filt idx \<and> concat gs = q)"

definition unused_refs :: "nat \<Rightarrow> disk \<Rightarrow> bool" where
  "unused_refs n disk \<longleftrightarrow> (\<forall>m\<ge>n. disk (TableFileRef 0 m) = None)"

text \<open>The outcome of writing \<open>out\<close> to new files \<open>news\<close>, in pieces \<open>qs\<close>.\<close>

definition outputs_written ::
  "wire \<Rightarrow> ('k, 'v) table_codec \<Rightarrow> 'b filter_policy \<Rightarrow> nat \<Rightarrow> disk \<Rightarrow> disk \<Rightarrow> ('k \<times> 'v) list
    \<Rightarrow> 'k table_file_meta list \<Rightarrow> ('k \<times> 'v) list list \<Rightarrow> bool" where
  "outputs_written w c p n disk disk' out news qs \<longleftrightarrow> concat qs = out \<and> list_all2 (written w c p disk') news qs \<and>
     map file_ref news = map (TableFileRef 0) [n..<n + length news] \<and>
     (\<forall>r. r \<notin> file_ref ` set news \<longrightarrow> disk' r = disk r)"

context table_store begin

definition holds :: "('k, 'b) table_builder \<Rightarrow> ('k \<times> 'v) list \<Rightarrow> bool" where
  "holds tb kvs \<longleftrightarrow> (\<exists>gs cur bs. tb_inv (te_wire env) (te_codec env) (opt_policy (te_options env)) tb kvs gs cur bs)"

lemma add_holds: "holds tb kvs \<Longrightarrow> \<exists>tb'. table_add (te_wire env) (te_codec env) k v tb = Inr tb' \<and> holds tb' (kvs @ [(k, v)])"
proof -
  assume "holds tb kvs"
  then obtain gs cur bs where "tb_inv (te_wire env) (te_codec env) (opt_policy (te_options env)) tb kvs gs cur bs"
    unfolding holds_def by blast
  from reading.table_add_inv [OF this, of k v] show ?thesis unfolding holds_def by blast
qed

lemma fill_table_result:
  assumes f: "fused_iterator nx rest_is good'"
  shows "\<lbrakk>holds tb kvs; good' s; rest_is it out; length out < fuel; kvs \<noteq> []; last_key = fst (last kvs)\<rbrakk> \<Longrightarrow>
    \<exists>tb' it' s' taken out'. fill_table fuel (te_wire env) (te_codec env) max_size nx tb last_key it s =
        Inr (tb', fst (last (kvs @ taken)), it', s') \<and> out = taken @ out' \<and> holds tb' (kvs @ taken) \<and>
      good' s' \<and> rest_is it' out'"
proof (induction fuel arbitrary: tb kvs s it out last_key)
  case (Suc fuel)
  note it = fused_iterator.axioms(1) [OF f]
  show ?case
  proof (cases out)
    case Nil
    obtain it' s' where "nx it s = Inr (None, it', s')" "rest_is it' []" "good' s'"
      using fused_iterator.stays_at_end [OF f Suc.prems(2)] Suc.prems(3) Nil by blast
    then show ?thesis using Suc.prems Nil by (intro exI [of _ tb] exI [of _ it'] exI [of _ s'] exI [of _ "[]"]) auto
  next
    case (Cons kv rest)
    obtain k v where kv: "kv = (k, v)" by (cases kv)
    obtain it' s' where n: "nx it s = Inr (Some kv, it', s')" "rest_is it' rest" "good' s'"
      using table_iterator.next_some [OF it Suc.prems(2)] Suc.prems(3) Cons by blast
    obtain tb' where tb': "table_add (te_wire env) (te_codec env) k v tb = Inr tb'" "holds tb' (kvs @ [(k, v)])"
      using add_holds [OF Suc.prems(1)] by blast
    show ?thesis
    proof (cases "max_size < table_size_hint tb'")
      case True
      then have "fill_table (Suc fuel) (te_wire env) (te_codec env) max_size nx tb last_key it s =
          Inr (tb', fst (last (kvs @ [kv])), it', s')"
        using n(1) tb'(1) kv by simp
      then show ?thesis using n(2,3) tb'(2) Cons kv
        by (intro exI [of _ tb'] exI [of _ it'] exI [of _ s'] exI [of _ "[kv]"] exI [of _ rest]) auto
    next
      case False
      obtain tb2 it2 s2 taken out' where h: "fill_table fuel (te_wire env) (te_codec env) max_size nx tb' k it' s' =
          Inr (tb2, fst (last ((kvs @ [kv]) @ taken)), it2, s2)" "rest = taken @ out'" "holds tb2 ((kvs @ [kv]) @ taken)"
        "good' s2" "rest_is it2 out'"
        using Suc.IH [OF tb'(2) n(3,2), of k] Suc.prems(4) Cons unfolding kv by force
      have "fill_table (Suc fuel) (te_wire env) (te_codec env) max_size nx tb last_key it s =
          Inr (tb2, fst (last (kvs @ kv # taken)), it2, s2)"
        using n(1) tb'(1) kv False h(1) by simp
      then show ?thesis using h(2-5) Cons
        by (intro exI [of _ tb2] exI [of _ it2] exI [of _ s2] exI [of _ "kv # taken"] exI [of _ out']) auto
    qed
  qed
qed simp

end

context table_store begin

abbreviation outputs_ok ::
  "nat \<Rightarrow> disk \<Rightarrow> disk \<Rightarrow> ('k \<times> 'v) list \<Rightarrow> 'k table_file_meta list \<Rightarrow> ('k \<times> 'v) list list \<Rightarrow> bool" where
  "outputs_ok \<equiv> outputs_written (te_wire env) (te_codec env) (opt_policy (te_options env))"

lemma outputs_ok_Cons:
  assumes h: "outputs_ok (Suc n) disk1 disk' out news qs" and r: "file_ref f = TableFileRef 0 n"
    and f: "written (te_wire env) (te_codec env) (opt_policy (te_options env)) disk1 f q"
    and d: "\<forall>r. r \<noteq> file_ref f \<longrightarrow> disk1 r = disk r"
  shows "outputs_ok n disk disk' (q @ out) (f # news) (q # qs)"
proof -
  have refs: "map file_ref news = map (TableFileRef 0) [Suc n..<Suc n + length news]"
    using h by (simp add: outputs_written_def)
  then have "file_ref f \<notin> set (map file_ref news)" unfolding refs r by auto
  then have nf: "file_ref f \<notin> file_ref ` set news" by simp
  then have "disk' (file_ref f) = disk1 (file_ref f)" using h by (simp add: outputs_written_def)
  then have "written (te_wire env) (te_codec env) (opt_policy (te_options env)) disk' f q"
    using f by (simp add: written_def)
  moreover have "map file_ref (f # news) = map (TableFileRef 0) [n..<n + length (f # news)]"
    using refs r upt_conv_Cons [of n "n + length (f # news)"] by (simp del: upt_Suc)
  ultimately show ?thesis using h d nf by (auto simp: outputs_written_def)
qed

lemma holds_new: "holds (table_builder_new (te_options env)) []"
  unfolding holds_def using tb_inv_new by blast

lemma write_outputs_result:
  assumes f: "fused_iterator nx rest_is good'"
  shows "\<lbrakk>good' s; rest_is it out; length out < fuel; unused_refs (vs_next_file_num vs) disk\<rbrakk> \<Longrightarrow>
    \<exists>disk' s' news qs. write_outputs fuel env max_size nx c vs disk it s =
        Inr (c\<lparr>c_edit := (c_edit c)\<lparr>ve_add_files := ve_add_files (c_edit c) @ map (Pair (output_level c)) news\<rparr>\<rparr>,
             vs\<lparr>vs_next_file_num := vs_next_file_num vs + length news\<rparr>, disk', s') \<and> good' s' \<and>
      outputs_ok (vs_next_file_num vs) disk disk' out news qs"
proof (induction fuel arbitrary: c vs disk it s out)
  case (Suc fuel)
  note ti = fused_iterator.axioms(1) [OF f]
  show ?case
  proof (cases out)
    case Nil
    obtain it' s' where "nx it s = Inr (None, it', s')" "good' s'"
      using table_iterator.next_none [OF ti Suc.prems(1)] Suc.prems(2) Nil by blast
    then show ?thesis using Nil
      by (intro exI [of _ disk] exI [of _ s'] exI [of _ "[]"]) (simp add: outputs_written_def)
  next
    case (Cons kv rest)
    obtain k v where kv: "kv = (k, v)" by (cases kv)
    obtain it1 s1 where n: "nx it s = Inr (Some (k, v), it1, s1)" "rest_is it1 rest" "good' s1"
      using table_iterator.next_some [OF ti Suc.prems(1)] Suc.prems(2) Cons kv by blast
    obtain tb where tb: "table_add (te_wire env) (te_codec env) k v (table_builder_new (te_options env)) = Inr tb"
      "holds tb [(k, v)]"
      using add_holds [OF holds_new, of k v] by auto
    obtain tb1 it2 s2 taken out' where ft: "fill_table fuel (te_wire env) (te_codec env) max_size nx tb k it1 s1 =
          Inr (tb1, fst (last ((k, v) # taken)), it2, s2)" "rest = taken @ out'" "holds tb1 ((k, v) # taken)"
        "good' s2" "rest_is it2 out'"
      using fill_table_result [OF f tb(2) n(3,2), of fuel k max_size] Suc.prems(3) Cons by force
    define q where "q = (k, v) # taken"
    obtain gs cur bs where "tb_inv (te_wire env) (te_codec env) (opt_policy (te_options env)) tb1 q gs cur bs"
      using ft(3) unfolding holds_def q_def by blast
    then obtain tb2 gs' bs' filt idx where fin: "table_finish (te_wire env) (te_codec env) tb1 = Inr tb2" "concat gs' = q"
      "table_file (te_wire env) (te_codec env) (opt_policy (te_options env)) (tb_out tb2) gs' bs' filt idx"
      using reading.table_finish_file [OF _ reading.filter_contract_axioms] by blast
    let ?n = "vs_next_file_num vs"
    define mt where "mt = table_file_meta_new (TableFileRef 0 ?n) (length (tb_out tb2)) ts_default k (fst (last q))"
    define vs1 where "vs1 = vs\<lparr>vs_next_file_num := ?n + 1\<rparr>"
    define c1 where "c1 = c\<lparr>c_edit := add_file (output_level c) mt (c_edit c)\<rparr>"
    define disk1 where "disk1 = disk(TableFileRef 0 ?n \<mapsto> tb_out tb2)"
    have mt: "file_ref mt = TableFileRef 0 ?n"
      "written (te_wire env) (te_codec env) (opt_policy (te_options env)) disk1 mt q"
      using fin(2,3) unfolding written_def mt_def table_file_meta_new_def disk1_def by (auto simp: q_def)
    have un: "unused_refs (vs_next_file_num vs1) disk1"
      using Suc.prems(4) by (auto simp: unused_refs_def vs1_def disk1_def)
    have none: "disk (TableFileRef 0 ?n) = None" using Suc.prems(4) by (simp add: unused_refs_def)
    have len: "length out' < fuel" using Suc.prems(3) Cons ft(2) by simp
    obtain disk' s' news qs where h: "write_outputs fuel env max_size nx c1 vs1 disk1 it2 s2 =
        Inr (c1\<lparr>c_edit := (c_edit c1)\<lparr>ve_add_files := ve_add_files (c_edit c1) @ map (Pair (output_level c1)) news\<rparr>\<rparr>,
             vs1\<lparr>vs_next_file_num := vs_next_file_num vs1 + length news\<rparr>, disk', s')" "good' s'"
      "outputs_ok (vs_next_file_num vs1) disk1 disk' out' news qs"
      using Suc.IH [OF ft(4,5) len un, of c1] by blast
    have step: "write_outputs (Suc fuel) env max_size nx c vs disk it s =
        write_outputs fuel env max_size nx c1 vs1 disk1 it2 s2"
      using n(1) tb(1) ft(1) fin(1) none
      by (simp add: new_file_number_def Let_def c1_def mt_def vs1_def disk1_def q_def)
    have "outputs_ok ?n disk disk' (q @ out') (mt # news) (q # qs)"
      using h(3) mt by (intro outputs_ok_Cons [of ?n disk1]) (auto simp: vs1_def disk1_def)
    moreover have "q @ out' = out" using Cons kv ft(2) by (simp add: q_def)
    ultimately show ?thesis unfolding step h(1) using h(2)
      by (intro exI [of _ disk'] exI [of _ s'] exI [of _ "mt # news"] exI [of _ "q # qs"])
        (simp add: c1_def vs1_def add_file_def output_level_def)
  qed
qed simp

lemma ascending_piece:
  assumes "ascending c (concat qs)" "q \<in> set qs"
  shows "ascending c q"
proof -
  obtain a b where "qs = a @ q # b" using assms(2) by (meson split_list)
  then show ?thesis using assms(1) by (auto simp: ascending_def sorted_wrt_append)
qed

lemma ascending_ends:
  assumes "ascending c q" "kv \<in> set q"
  shows "fst (hd q) \<le> fst kv" "fst kv \<le> fst (last q)"
proof -
  have s: "sorted_wrt (<) (map fst q)" using assms(1) by (simp add: ascending_def)
  show "fst (hd q) \<le> fst kv" using s assms(2) by (cases q) (auto intro: less_imp_le)
  have "q = butlast q @ [last q]" using assms(2) by (cases q rule: rev_cases) auto
  then obtain a l where q: "q = a @ [l]" by blast
  show "fst kv \<le> fst (last q)" using s assms(2) unfolding q by (auto simp: sorted_wrt_append intro: less_imp_le)
qed

lemma outputs_disk_ok:
  assumes d: "files_on_disk ents disk R" and o: "outputs_ok n disk disk' out news qs"
    and fresh: "\<forall>r\<in>R. \<forall>m\<ge>n. r \<noteq> TableFileRef 0 m"
    and asc: "ascending (te_codec env) out"
  shows "\<exists>ents'. (\<forall>r\<in>R. ents' r = ents r) \<and> map (ents' \<circ> file_ref) news = qs \<and>
    stored ents' (R \<union> file_ref ` set news) news \<and>
    ((\<forall>f\<in>set news. file_size f < 2 ^ 32) \<longrightarrow> files_on_disk ents' disk' (R \<union> file_ref ` set news))"
proof -
  let ?new = "file_ref ` set news"
  define ents' where "ents' = (\<lambda>r. case map_of (zip (map file_ref news) qs) r of Some q \<Rightarrow> q | None \<Rightarrow> ents r)"
  have o: "concat qs = out" "list_all2 (written (te_wire env) (te_codec env) (opt_policy (te_options env)) disk') news qs"
    "map file_ref news = map (TableFileRef 0) [n..<n + length news]" "\<forall>r. r \<notin> ?new \<longrightarrow> disk' r = disk r"
    using o by (auto simp: outputs_written_def)
  have len: "length news = length qs" using o(2) by (rule list_all2_lengthD)
  have dist: "distinct (map file_ref news)" unfolding o(3) by (simp add: distinct_map inj_on_def)
  have "ents' (file_ref (news ! i)) = qs ! i" if "i < length news" for i
    using map_of_zip_nth [of "map file_ref news" qs i] dist len that by (simp add: ents'_def)
  then have nth: "map (ents' \<circ> file_ref) news = qs" using len by (intro nth_equalityI) auto
  have wr: "written (te_wire env) (te_codec env) (opt_policy (te_options env)) disk' f (ents' (file_ref f)) \<and>
      ents' (file_ref f) \<in> set qs" if "f \<in> set news" for f
    using that o(2) unfolding nth [symmetric] by (auto simp: list_all2_map2 list_all2_same)
  have pieces: "ascending (te_codec env) (ents' (file_ref f))" if "f \<in> set news" for f
    using asc wr [OF that] ascending_piece unfolding o(1) [symmetric] by blast
  have old: "r \<notin> ?new" if "r \<in> R" for r
  proof
    assume "r \<in> ?new"
    then have "r \<in> set (map (TableFileRef 0) [n..<n + length news])" unfolding o(3) [symmetric] by simp
    then obtain m where "n \<le> m" "r = TableFileRef 0 m" by auto
    then show False using fresh that by blast
  qed
  have keep: "ents' r = ents r" if "r \<notin> ?new" for r
    using that len by (auto simp: ents'_def split: option.splits dest!: map_of_SomeD set_zip_leftD)
  have "\<exists>fl gs bs filt idx. disk' r = Some fl \<and> length fl < 2 ^ 32 \<and>
      table_file (te_wire env) (te_codec env) (opt_policy (te_options env)) fl gs bs filt idx \<and>
      concat gs = ents' r \<and> ascending (te_codec env) (ents' r)"
    if r: "r \<in> R \<union> ?new" and size: "\<forall>f\<in>set news. file_size f < 2 ^ 32" for r
  proof (cases "r \<in> ?new")
    case True
    then obtain f where f: "f \<in> set news" "r = file_ref f" by blast
    show ?thesis using wr [OF f(1)] pieces [OF f(1)] size f unfolding written_def by metis
  next
    case False
    then show ?thesis using d r o(4) keep [OF False] by (auto simp: disk_ok_def)
  qed
  then have "(\<forall>f\<in>set news. file_size f < 2 ^ 32) \<longrightarrow> files_on_disk ents' disk' (R \<union> ?new)" by (simp add: disk_ok_def)
  moreover have "in_range ents' f" if "f \<in> set news" for f
    using wr [OF that] ascending_ends [OF pieces [OF that]] by (auto simp: in_range_def written_def)
  then have "stored ents' (R \<union> ?new) news" by (simp add: stored_def)
  ultimately show ?thesis using nth keep old by blast
qed

end

section \<open>The edit of a compaction\<close>

text \<open>
  What has to hold of the version when the compaction ends. \<open>ins\<close> and \<open>outs\<close> are the files of the
  version with the identifiers of the inputs: no other file of the output level lies in their range,
  and on level 0 all files not in \<open>ins\<close> are newer.
\<close>

definition with_refs :: "table_file_ref set \<Rightarrow> 'k table_file_meta list \<Rightarrow> 'k table_file_meta list" where
  "with_refs I fs = filter (\<lambda>f. file_ref f \<in> I) fs"

definition without_refs :: "table_file_ref set \<Rightarrow> 'k table_file_meta list \<Rightarrow> 'k table_file_meta list" where
  "without_refs I fs = filter (\<lambda>f. file_ref f \<notin> I) fs"

definition unmark :: "'k table_file_meta \<Rightarrow> 'k table_file_meta" where
  "unmark f = f\<lparr>being_compacted := False\<rparr>"

lemma unmark_simps [simp]:
  "file_ref (unmark f) = file_ref f" "infimum (unmark f) = infimum f" "supremum (unmark f) = supremum f"
  "file_min_xip (unmark f) = file_min_xip f"
  by (simp_all add: unmark_def)

definition start_refs :: "'k compaction \<Rightarrow> table_file_ref set" where
  "start_refs c = file_ref ` set (fst (c_inputs c))"

definition output_refs :: "'k compaction \<Rightarrow> table_file_ref set" where
  "output_refs c = file_ref ` set (snd (c_inputs c))"

definition compactable :: "nat \<Rightarrow> 'k::linorder version \<Rightarrow> 'k compaction \<Rightarrow> bool" where
  "compactable n v c \<longleftrightarrow> c_level c + 1 < n \<and>
     (let level = c_level c;
          ins = with_refs (start_refs c) (v_files v ! level);
          outs = with_refs (output_refs c) (v_files v ! (level + 1))
      in map unmark ins = map unmark (fst (c_inputs c)) \<and> map unmark outs = map unmark (snd (c_inputs c)) \<and>
         ins \<noteq> [] \<and>
         (level = 0 \<longrightarrow> v_files v ! 0 = without_refs (start_refs c) (v_files v ! 0) @ ins) \<and>
         (\<forall>g\<in>set (without_refs (output_refs c) (v_files v ! (level + 1))).
            supremum g < low_key (ins @ outs) \<or> high_key (ins @ outs) < infimum g))"

lemma with_refs_mark: "with_refs I (mark_level m fs) = mark_level m (with_refs I fs)"
  "without_refs I (mark_level m fs) = mark_level m (without_refs I fs)"
  by (simp_all add: with_refs_def without_refs_def mark_level_def filter_map o_def)

lemma unmark_mark: "map unmark (mark_level m fs) = map unmark fs"
  by (simp add: mark_level_def unmark_def mark_file_def)

lemma hull_mark: "low_key (mark_level m fs @ mark_level m' gs) = low_key (fs @ gs)"
  "high_key (mark_level m fs @ mark_level m' gs) = high_key (fs @ gs)"
  by (simp_all add: low_key_def high_key_def mark_level_def image_Un image_image)

lemma selection_with_refs:
  assumes "distinct (map file_ref fs)" "selection fs sel"
  shows "with_refs (file_ref ` set sel) fs = sel" "set (without_refs (file_ref ` set sel) fs) = set fs - set sel"
proof -
  have sub: "set sel \<subseteq> set fs" using assms(2) by (rule selection_subset)
  have iff: "file_ref f \<in> file_ref ` set sel \<longleftrightarrow> f \<in> set sel" if "f \<in> set fs" for f
    using assms(1) sub that by (auto simp: distinct_map dest: inj_onD)
  have "with_refs (file_ref ` set sel) fs = filter (\<lambda>f. f \<in> set sel) fs"
    unfolding with_refs_def using iff by (auto intro: filter_cong)
  then show "with_refs (file_ref ` set sel) fs = sel" using assms(2) by (simp add: selection_def)
  show "set (without_refs (file_ref ` set sel) fs) = set fs - set sel"
    using iff by (auto simp: without_refs_def)
qed

text \<open>The version a pick leaves behind, with the inputs marked.\<close>

lemma picked_compactable:
  assumes v: "version_ok n v" and l: "c_level c + 1 < n"
    and g: "good_inputs v (c_level c) (fst (c_inputs c)) (snd (c_inputs c))"
    and v': "v_files v' = map (\<lambda>level. mark_level (m level) (v_files v ! level)) [0..<n]"
  shows "compactable n v' c"
proof -
  let ?l = "c_level c" and ?ins = "fst (c_inputs c)" and ?outs = "snd (c_inputs c)"
  have lv: "distinct (map file_ref (v_files v ! ?l))" "distinct (map file_ref (v_files v ! (?l + 1)))"
    using v l by (auto simp: version_ok_def level_ok_def)
  have sel: "selection (v_files v ! ?l) ?ins" "selection (v_files v ! (?l + 1)) ?outs" "?ins \<noteq> []"
    "\<forall>g\<in>set (v_files v ! (?l + 1)) - set ?outs.
        supremum g < low_key (?ins @ ?outs) \<or> high_key (?ins @ ?outs) < infimum g"
    using g by (auto simp: good_inputs_def)
  have a: "v_files v' ! ?l = mark_level (m ?l) (v_files v ! ?l)"
    "v_files v' ! (?l + 1) = mark_level (m (?l + 1)) (v_files v ! (?l + 1))"
    using v' l by simp_all
  have wi: "with_refs (start_refs c) (v_files v ! ?l) = ?ins"
    and wo: "with_refs (output_refs c) (v_files v ! (?l + 1)) = ?outs"
      "set (without_refs (output_refs c) (v_files v ! (?l + 1))) = set (v_files v ! (?l + 1)) - set ?outs"
    using selection_with_refs [OF lv(1) sel(1)] selection_with_refs [OF lv(2) sel(2)]
    by (simp_all add: start_refs_def output_refs_def)
  have z: "v_files v ! 0 = without_refs (start_refs c) (v_files v ! 0) @ ?ins" if zl: "?l = 0"
  proof -
    obtain newer where nw: "v_files v ! 0 = newer @ ?ins" using g zl unfolding good_inputs_def by blast
    have "without_refs (start_refs c) newer = newer"
      using lv(1) zl nw by (auto simp: without_refs_def start_refs_def filter_id_conv)
    moreover have "without_refs (start_refs c) ?ins = []" by (auto simp: without_refs_def start_refs_def filter_empty_conv)
    ultimately show ?thesis using nw by (simp add: without_refs_def)
  qed
  show ?thesis
    unfolding compactable_def Let_def a with_refs_mark wi wo(1) hull_mark unmark_mark
  proof (intro conjI)
    show "?l = 0 \<longrightarrow> v_files v' ! 0 = without_refs (start_refs c) (v_files v' ! 0) @ mark_level (m ?l) ?ins"
    proof
      assume "?l = 0"
      then show "v_files v' ! 0 = without_refs (start_refs c) (v_files v' ! 0) @ mark_level (m ?l) ?ins"
        using z a(1) by (metis mark_level_def map_append with_refs_mark(2))
    qed
    show "\<forall>g\<in>set (mark_level (m (?l + 1)) (without_refs (output_refs c) (v_files v ! (?l + 1)))).
        supremum g < low_key (?ins @ ?outs) \<or> high_key (?ins @ ?outs) < infimum g"
      using sel(4) wo(2) by (auto simp: mark_level_def)
  qed (use l sel(3) in \<open>simp_all add: mark_level_def\<close>)
qed

text \<open>A flush in the meantime adds a newer file to level 0.\<close>

lemma compactable_flush:
  assumes c: "compactable n v c" and f: "file_ref f \<notin> start_refs c"
    and v': "v_files v' = (v_files v)[0 := f # v_files v ! 0]" and len: "length (v_files v) = n"
  shows "compactable n v' c"
proof (cases "c_level c = 0")
  case True
  then have "v_files v' ! 0 = f # v_files v ! 0" "v_files v' ! (c_level c + 1) = v_files v ! (c_level c + 1)"
    using v' len c by (simp_all add: compactable_def)
  then show ?thesis using c f True by (simp add: compactable_def Let_def with_refs_def without_refs_def)
next
  case False
  then have "v_files v' ! c_level c = v_files v ! c_level c" "v_files v' ! (c_level c + 1) = v_files v ! (c_level c + 1)"
    using v' by simp_all
  then show ?thesis using c False by (simp add: compactable_def Let_def)
qed

section \<open>Lookups before and after\<close>

text \<open>In files with disjoint contents the order does not matter.\<close>

lemma lookup_disjoint:
  assumes "\<forall>f\<in>set fs. \<forall>g\<in>set fs. f \<noteq> g \<longrightarrow> map_of (ents (file_ref f)) k = None \<or> map_of (ents (file_ref g)) k = None"
  shows "map_of (files_entries ents fs) k = Some x \<longleftrightarrow> (\<exists>f\<in>set fs. map_of (ents (file_ref f)) k = Some x)"
  using assms
proof (induction fs)
  case (Cons f fs)
  show ?case
  proof (cases "map_of (ents (file_ref f)) k")
    case None
    then show ?thesis using Cons by auto
  next
    case (Some y)
    have "z = y" if "g \<in> set fs" "map_of (ents (file_ref g)) k = Some z" for g z
      using Cons.prems Some that by (cases "g = f") auto
    then show ?thesis using Some by auto
  qed
qed simp

lemma lookup_permuted:
  assumes "\<forall>f\<in>set fs. \<forall>g\<in>set fs. f \<noteq> g \<longrightarrow> map_of (ents (file_ref f)) k = None \<or> map_of (ents (file_ref g)) k = None"
    and "set fs = set gs"
  shows "map_of (files_entries ents fs) k = map_of (files_entries ents gs) k"
proof (rule option.expand)
  have "map_of (files_entries ents gs) k = Some x \<longleftrightarrow> map_of (files_entries ents fs) k = Some x" for x
    using assms lookup_disjoint [of gs ents k x] lookup_disjoint [of fs ents k x] by simp
  then show "(map_of (files_entries ents fs) k = None) = (map_of (files_entries ents gs) k = None)"
    and "\<And>x y. map_of (files_entries ents fs) k \<noteq> None \<Longrightarrow> map_of (files_entries ents gs) k \<noteq> None \<Longrightarrow>
      the (map_of (files_entries ents fs) k) = the (map_of (files_entries ents gs) k)"
    by (metis not_None_eq, metis option.collapse)
qed

lemma level_disjoint:
  assumes "level_ok level fs" "0 < level" "stored ents R fs" "f \<in> set fs" "g \<in> set fs" "f \<noteq> g"
  shows "map_of (ents (file_ref f)) k = None \<or> map_of (ents (file_ref g)) k = None"
proof -
  have "supremum f < infimum g \<or> supremum g < infimum f"
    using level_ok_total [OF assms(1,4-6)] assms(2) by (simp add: before_file_def)
  moreover have "in_range ents f" "in_range ents g" using assms(3-5) by (auto simp: stored_def)
  ultimately show ?thesis
    using out_of_range [of ents f k] out_of_range [of ents g k]
    by (meson not_less order_le_less_trans order_less_trans)
qed

lemma fold_delete_file:
  "fold (delete_file level) fs e = e\<lparr>ve_deleted := (\<lambda>f. (level, file_ref f)) ` set fs \<union> ve_deleted e\<rparr>"
  by (induction fs arbitrary: e) (auto simp: delete_file_def)

definition compaction_edit :: "'k compaction \<Rightarrow> 'k table_file_meta list \<Rightarrow> 'k version_edit" where
  "compaction_edit c news = \<lparr>ve_min_xip = None, ve_add_files = map (Pair (c_level c + 1)) news,
     ve_deleted = {c_level c} \<times> start_refs c \<union> {c_level c + 1} \<times> output_refs c, ve_mark_compacted = []\<rparr>"

lemma delete_inputs_edit:
  "c_edit c = version_edit_new \<Longrightarrow>
    c_edit (delete_inputs (c\<lparr>c_edit := (c_edit c)\<lparr>ve_add_files := ve_add_files (c_edit c) @ map (Pair (output_level c)) news\<rparr>\<rparr>)) =
      compaction_edit c news"
  by (auto simp: delete_inputs_def fold_delete_file version_edit_new_def compaction_edit_def start_refs_def
      output_refs_def output_level_def)

lemma filter_pair: "filter (\<lambda>p. fst p = level) (map (Pair l) fs) = (if level = l then map (Pair l) fs else [])"
  by (induction fs) auto

lemma compaction_edit_files:
  "added_files (compaction_edit c news) level = (if level = c_level c + 1 then news else [])"
  by (simp add: added_files_def compaction_edit_def filter_pair o_def)

lemma compaction_edit_other_level:
  "level \<noteq> c_level c \<Longrightarrow> level \<noteq> c_level c + 1 \<Longrightarrow>
    new_level (compaction_edit c news) v level = v_files v ! level \<and>
    kept_files (compaction_edit c news) v level = v_files v ! level"
  by (simp add: new_level_def kept_files_def compaction_edit_files sort_by_def)
     (simp add: compaction_edit_def)

lemma compaction_edit_start_level:
  "new_level (compaction_edit c news) v (c_level c) = without_refs (start_refs c) (v_files v ! c_level c)"
  "kept_files (compaction_edit c news) v (c_level c) = without_refs (start_refs c) (v_files v ! c_level c)"
  by (simp_all add: new_level_def kept_files_def compaction_edit_files sort_by_def without_refs_def)
     (simp_all add: compaction_edit_def)

lemma compaction_edit_output_level:
  assumes "\<forall>f\<in>set news. file_ref f \<notin> output_refs c"
  shows "kept_files (compaction_edit c news) v (c_level c + 1) =
    news @ without_refs (output_refs c) (v_files v ! (c_level c + 1))"
proof -
  have d: "(c_level c + 1, r) \<in> ve_deleted (compaction_edit c news) \<longleftrightarrow> r \<in> output_refs c" for r
    by (auto simp: compaction_edit_def)
  show ?thesis using assms
    by (simp only: kept_files_def d compaction_edit_files) (auto simp: without_refs_def filter_id_conv)
qed

text \<open>New files, in pieces of an ascending list, all inside \<open>lo\<close> to \<open>hi\<close>.\<close>

definition news_fit ::
  "(table_file_ref \<Rightarrow> ('k::linorder \<times> 'v) list) \<Rightarrow> 'k \<Rightarrow> 'k \<Rightarrow> 'k table_file_meta list \<Rightarrow> bool" where
  "news_fit ents lo hi news \<longleftrightarrow> distinct (map file_ref news) \<and>
     (\<forall>f\<in>set news. ents (file_ref f) \<noteq> [] \<and> infimum f = fst (hd (ents (file_ref f))) \<and>
        supremum f = fst (last (ents (file_ref f)))) \<and>
     sorted_wrt (<) (map fst (files_entries ents news)) \<and>
     (\<forall>kv\<in>set (files_entries ents news). lo \<le> fst kv \<and> fst kv \<le> hi)"

lemma files_entries_mem: "f \<in> set fs \<Longrightarrow> set (ents (file_ref f)) \<subseteq> set (files_entries ents fs)"
  by (auto simp: files_entries_def)

lemma news_fit_range:
  assumes "news_fit ents lo hi news" "f \<in> set news"
  shows "lo \<le> infimum f" "supremum f \<le> hi" "infimum f \<le> supremum f"
proof -
  let ?q = "ents (file_ref f)"
  have q: "?q \<noteq> []" "infimum f = fst (hd ?q)" "supremum f = fst (last ?q)"
    using assms by (auto simp: news_fit_def)
  have m: "hd ?q \<in> set (files_entries ents news)" "last ?q \<in> set (files_entries ents news)"
    using files_entries_mem [OF assms(2), of ents] q(1) by auto
  then show "lo \<le> infimum f" "supremum f \<le> hi" using assms(1) q by (auto simp: news_fit_def)
  obtain a b where ab: "news = a @ f # b" using assms(2) by (meson split_list)
  have "sorted_wrt (<) (map fst ?q)"
    using assms(1) by (simp add: news_fit_def ab files_entries_simps sorted_wrt_append)
  then show "infimum f \<le> supremum f" using q
    by (cases ?q) (auto simp: order_le_less dest: spec [of _ "last ?q"])
qed

lemma news_fit_before:
  assumes "news_fit ents lo hi (a @ f # b)" "g \<in> set b"
  shows "supremum f < infimum g"
proof -
  have e: "ents (file_ref f) \<noteq> []" "supremum f = fst (last (ents (file_ref f)))"
    "ents (file_ref g) \<noteq> []" "infimum g = fst (hd (ents (file_ref g)))"
    using assms by (auto simp: news_fit_def)
  have "sorted_wrt (<) (map fst (ents (file_ref f)) @ map fst (files_entries ents b))"
    using assms(1) by (simp add: news_fit_def files_entries_simps sorted_wrt_append)
  moreover have "hd (ents (file_ref g)) \<in> set (files_entries ents b)"
    using files_entries_mem [OF assms(2), of ents] e(3) by auto
  ultimately show ?thesis using e by (auto simp: sorted_wrt_append)
qed

lemma news_fit_apart:
  assumes "news_fit ents lo hi news" "f \<in> set news" "g \<in> set news" "f \<noteq> g"
  shows "supremum f < infimum g \<or> supremum g < infimum f"
proof -
  obtain a b where ab: "news = a @ f # b" using assms(2) by (meson split_list)
  then consider "g \<in> set b" | "g \<in> set a" using assms(3,4) by auto
  then show ?thesis
  proof cases
    case 1
    then show ?thesis using news_fit_before assms(1) ab by blast
  next
    case 2
    then obtain c d where "a = c @ g # d" by (meson split_list)
    then show ?thesis using news_fit_before [of ents lo hi c g "d @ f # b" f] assms(1) ab by simp
  qed
qed

lemma compaction_edit_fits:
  assumes v: "version_ok n v" and c: "compactable n v c" and fresh: "\<forall>f\<in>set news. file_ref f \<notin> file_ref ` set (concat (v_files v)) \<union> output_refs c"
    and nf: "news_fit ents (low_key (fst (c_inputs c) @ snd (c_inputs c))) (high_key (fst (c_inputs c) @ snd (c_inputs c))) news"
  shows "edit_fits n (compaction_edit c news) v"
proof -
  let ?l = "c_level c" and ?e = "compaction_edit c news"
  let ?lo = "low_key (fst (c_inputs c) @ snd (c_inputs c))" and ?hi = "high_key (fst (c_inputs c) @ snd (c_inputs c))"
  have l: "?l + 1 < n" using c by (simp add: compactable_def)
  have lv: "level_ok level (v_files v ! level)" if "level < n" for level using v that by (simp add: version_ok_def)
  have kept: "distinct (map file_ref (kept_files ?e v level)) \<and>
      (\<forall>f\<in>set (kept_files ?e v level). \<forall>g\<in>set (kept_files ?e v level).
         f \<noteq> g \<longrightarrow> before_file level f g \<or> before_file level g f)" if level: "level < n" for level
  proof (cases "level = ?l + 1")
    case False
    then have "kept_files ?e v level = v_files v ! level \<or> kept_files ?e v level = without_refs (start_refs c) (v_files v ! level)"
      using compaction_edit_other_level compaction_edit_start_level by metis
    moreover have "distinct (map file_ref (v_files v ! level))" using lv [OF level] by (simp add: level_ok_def)
    ultimately have k: "set (kept_files ?e v level) \<subseteq> set (v_files v ! level)" "distinct (map file_ref (kept_files ?e v level))"
      by (auto simp: without_refs_def distinct_map_filter)
    have "before_file level f g \<or> before_file level g f"
      if "f \<in> set (kept_files ?e v level)" "g \<in> set (kept_files ?e v level)" "f \<noteq> g" for f g
      using that k(1) by (intro level_ok_total [OF lv [OF level]]) auto
    then show ?thesis using k(2) by blast
  next
    case True
    let ?w = "without_refs (output_refs c) (v_files v ! (?l + 1))"
    have k: "kept_files ?e v level = news @ ?w"
      using compaction_edit_output_level [of news c v] fresh True by auto
    have sub: "set ?w \<subseteq> set (v_files v ! (?l + 1))" by (auto simp: without_refs_def)
    have "\<forall>g\<in>set ?w. supremum g < ?lo \<or> ?hi < infimum g"
    proof -
      have "\<forall>g\<in>set ?w. supremum g < low_key (with_refs (start_refs c) (v_files v ! ?l) @ with_refs (output_refs c) (v_files v ! (?l + 1)))
          \<or> high_key (with_refs (start_refs c) (v_files v ! ?l) @ with_refs (output_refs c) (v_files v ! (?l + 1))) < infimum g"
        using c by (simp add: compactable_def Let_def)
      moreover have "low_key fs = low_key gs \<and> high_key fs = high_key gs" if "map unmark fs = map unmark gs" for fs gs :: "'a table_file_meta list"
      proof -
        have "infimum ` set fs = infimum ` set gs" "supremum ` set fs = supremum ` set gs"
          using arg_cong [OF that, of "\<lambda>x. infimum ` set x"] arg_cong [OF that, of "\<lambda>x. supremum ` set x"]
          by (simp_all add: image_image)
        then show ?thesis by (simp add: low_key_def high_key_def)
      qed
      moreover have "map unmark (with_refs (start_refs c) (v_files v ! ?l) @ with_refs (output_refs c) (v_files v ! (?l + 1))) =
          map unmark (fst (c_inputs c) @ snd (c_inputs c))"
        using c by (simp add: compactable_def Let_def)
      ultimately show ?thesis by metis
    qed
    then have cross: "supremum f < infimum g \<or> supremum g < infimum f" if "f \<in> set news" "g \<in> set ?w" for f g
      using news_fit_range [OF nf that(1)] that(2) by (meson order_le_less_trans order_less_le_trans)
    have "distinct (map file_ref (news @ ?w))"
    proof -
      have "distinct (map file_ref ?w)"
        using lv [OF l] by (simp add: level_ok_def without_refs_def distinct_map_filter)
      moreover have "file_ref f \<notin> file_ref ` set ?w" if "f \<in> set news" for f
        using fresh that sub l v by (force simp: version_ok_def)
      ultimately show ?thesis using nf by (auto simp: news_fit_def)
    qed
    moreover have "before_file level f g \<or> before_file level g f"
      if "f \<in> set (news @ ?w)" "g \<in> set (news @ ?w)" "f \<noteq> g" for f g
      using that news_fit_apart [OF nf, of f g] cross level_ok_total [OF lv [OF l], of f g] sub True
      by (auto simp: before_file_def)
    ultimately show ?thesis unfolding k by blast
  qed
  have "\<forall>f\<in>set (added_files ?e level). file_ok level f" for level
    using news_fit_range(3) [OF nf] by (auto simp: compaction_edit_files file_ok_def)
  then show ?thesis using kept l by (auto simp: edit_fits_def compaction_edit_def)
qed

lemma files_entries_refs: "map file_ref fs = map file_ref gs \<Longrightarrow> files_entries ents fs = files_entries ents gs"
  by (metis files_entries_def map_map)

lemma unmark_refs: "map unmark fs = map unmark gs \<Longrightarrow> map file_ref fs = map file_ref gs"
proof -
  assume "map unmark fs = map unmark gs"
  then have "map file_ref (map unmark fs) = map file_ref (map unmark gs)" by (rule arg_cong)
  then show ?thesis by (simp add: o_def)
qed

lemma files_entries_agree:
  "\<lbrakk>stored ents R fs; \<forall>r\<in>R. ents' r = ents r\<rbrakk> \<Longrightarrow> files_entries ents' fs = files_entries ents fs"
  by (induction fs) (auto simp: files_entries_simps)

lemma stored_agree: "\<lbrakk>stored ents R fs; \<forall>r\<in>R. ents' r = ents r\<rbrakk> \<Longrightarrow> stored ents' R fs"
  by (auto simp: stored_def in_range_def)

lemma stored_subset: "\<lbrakk>stored ents R fs; set gs \<subseteq> set fs; R \<subseteq> R'\<rbrakk> \<Longrightarrow> stored ents R' gs"
  by (auto simp: stored_def)

lemma two_levels: "l + 1 < length xs \<Longrightarrow> concat xs = concat (take l xs) @ xs ! l @ xs ! (l + 1) @ concat (drop (l + 2) xs)"
proof -
  assume l: "l + 1 < length xs"
  have "xs = take l xs @ xs ! l # xs ! (l + 1) # drop (l + 2) xs"
    using l by (metis Cons_nth_drop_Suc Suc_eq_plus1 Suc_lessD add_2_eq_Suc' append_take_drop_id)
  then have "concat xs = concat (take l xs @ xs ! l # xs ! (l + 1) # drop (l + 2) xs)" by (rule arg_cong)
  then show ?thesis by simp
qed

lemma set_concat_nth: "i < length xs \<Longrightarrow> set (xs ! i) \<subseteq> set (concat xs)"
  by (metis concat_append concat.simps(2) id_take_nth_drop le_supI1 le_supI2 order_refl set_append)

lemma with_without: "set fs = set (without_refs I fs @ with_refs I fs)" "set fs = set (with_refs I fs @ without_refs I fs)"
  by (auto simp: with_refs_def without_refs_def)

text \<open>The lookups of the start level: first the files that stay, then the inputs.\<close>

lemma start_level_lookup:
  assumes v: "level_ok l fs" "stored ents R fs" and z: "l = 0 \<longrightarrow> fs = without_refs I fs @ with_refs I fs"
  shows "map_of (files_entries ents fs) k = map_of (files_entries ents (without_refs I fs @ with_refs I fs)) k"
proof (cases "l = 0")
  case True
  then show ?thesis using z by simp
next
  case False
  show ?thesis
    using level_disjoint [OF v(1) _ v(2)] False with_without(1) [of fs I] by (intro lookup_permuted) auto
qed

lemma compaction_lookup:
  fixes ents ents' :: "table_file_ref \<Rightarrow> ('k::linorder \<times> 'v) list"
  assumes v: "version_ok n v" "stored ents R (concat (v_files v))" and c: "compactable n v c"
    and v': "version_ok n v'" "v_files v' = map (\<lambda>l. mark_level (marks_of (compaction_edit c news) l) (new_level (compaction_edit c news) v l)) [0..<n]"
    and news: "stored ents' R' news" "R \<subseteq> R'" "\<forall>r\<in>R. ents' r = ents r" "\<forall>f\<in>set news. file_ref f \<notin> output_refs c"
    and m: "map_of (files_entries ents' news) = map_of (files_entries ents (fst (c_inputs c) @ snd (c_inputs c)))"
  shows "map_of (version_entries ents' v') k = map_of (version_entries ents v) k" "stored ents' R' (concat (v_files v'))"
proof -
  let ?l = "c_level c" and ?e = "compaction_edit c news"
  let ?f = "v_files v" and ?f' = "v_files v'"
  define ins where "ins = with_refs (start_refs c) (?f ! ?l)"
  define stay where "stay = without_refs (start_refs c) (?f ! ?l)"
  define outs where "outs = with_refs (output_refs c) (?f ! (?l + 1))"
  define stay1 where "stay1 = without_refs (output_refs c) (?f ! (?l + 1))"
  have l: "?l + 1 < n" using c by (simp add: compactable_def)
  have len: "length ?f = n" "length ?f' = n" using v(1) v'(1) by (simp_all add: version_ok_def)
  have "mark_level (marks_of ?e level) fs = fs" for level and fs :: "'k table_file_meta list"
    by (simp add: marks_of_def compaction_edit_def mark_level_def mark_file_def map_idI)
  then have nl: "?f' ! level = new_level ?e v level" if "level < n" for level using v'(2) that by simp
  have other: "?f' ! level = ?f ! level" if "level < n" "level \<noteq> ?l" "level \<noteq> ?l + 1" for level
    using nl [OF that(1)] compaction_edit_other_level [OF that(2,3)] by simp
  have lv: "level_ok ?l (?f ! ?l)" "level_ok (?l + 1) (?f ! (?l + 1))" "level_ok (?l + 1) (?f' ! (?l + 1))"
    using v(1) v'(1) l by (auto simp: version_ok_def)
  have st: "stored ents R (?f ! level)" if "level < n" for level
    using that len(1) by (intro stored_subset [OF v(2)]) (auto intro: nth_mem)
  have fl: "?f' ! ?l = stay" using nl [of ?l] l by (simp add: compaction_edit_start_level stay_def)
  have fl1: "set (?f' ! (?l + 1)) = set (news @ stay1)"
    using nl [of "?l + 1"] l set_new_level [of ?e v "?l + 1"] compaction_edit_output_level [OF news(4), of v]
    by (simp add: stay1_def)
  have st1: "stored ents' R' (?f' ! (?l + 1))"
    using news(1) stored_subset [OF stored_agree [OF st [OF l] news(3)] _ news(2), of stay1] fl1
    by (auto simp: stored_def stay1_def without_refs_def)
  have inrefs: "map file_ref ins = map file_ref (fst (c_inputs c))" "map file_ref outs = map file_ref (snd (c_inputs c))"
    using c unmark_refs by (auto simp: compactable_def Let_def ins_def outs_def)
  then have "files_entries ents (ins @ outs) = files_entries ents (fst (c_inputs c) @ snd (c_inputs c))"
    by (intro files_entries_refs) simp
  then have m: "map_of (files_entries ents' news) = map_of (files_entries ents (ins @ outs))" using m by simp
  have "?l = 0 \<longrightarrow> ?f ! ?l = stay @ ins" using c by (auto simp: compactable_def Let_def stay_def ins_def)
  then have a: "map_of (files_entries ents (?f ! ?l)) k = map_of (files_entries ents (stay @ ins)) k"
    unfolding stay_def ins_def using l by (intro start_level_lookup [OF lv(1) st]) auto
  have b: "map_of (files_entries ents (?f ! (?l + 1))) k = map_of (files_entries ents (outs @ stay1)) k"
    using level_disjoint [OF lv(2) _ st [OF l]] with_without(2) [of "?f ! (?l + 1)" "output_refs c"]
    unfolding outs_def stay1_def by (intro lookup_permuted) auto
  have "map_of (files_entries ents' (?f' ! (?l + 1))) k = map_of (files_entries ents' (news @ stay1)) k"
    using level_disjoint [OF lv(3) _ st1] fl1 by (intro lookup_permuted) auto
  moreover have "files_entries ents' stay1 = files_entries ents stay1"
    using stored_subset [OF st [OF l], of stay1 R] by (intro files_entries_agree [OF _ news(3)]) (auto simp: stay1_def without_refs_def)
  ultimately have d: "map_of (files_entries ents' (?f' ! (?l + 1))) k =
      (case map_of (files_entries ents (ins @ outs)) k of Some x \<Rightarrow> Some x | None \<Rightarrow> map_of (files_entries ents stay1) k)"
    by (simp add: m cong: option.case_cong)
  have "take ?l ?f' = take ?l ?f" "drop (?l + 2) ?f' = drop (?l + 2) ?f"
    using other len by (auto intro!: nth_equalityI)
  moreover have sub: "set (concat (take ?l ?f)) \<subseteq> set (concat ?f)" "set (concat (drop (?l + 2) ?f)) \<subseteq> set (concat ?f)"
    by (metis concat_append append_take_drop_id set_append Un_upper1, metis concat_append append_take_drop_id set_append Un_upper2)
  have ss: "stored ents R stay" using stored_subset [OF st [of ?l], of stay R] l by (auto simp: stay_def without_refs_def)
  moreover have "files_entries ents' (concat (take ?l ?f)) = files_entries ents (concat (take ?l ?f))"
    "files_entries ents' (concat (drop (?l + 2) ?f)) = files_entries ents (concat (drop (?l + 2) ?f))"
    "files_entries ents' stay = files_entries ents stay"
    using files_entries_agree [OF stored_subset [OF v(2) sub(1) order_refl] news(3)]
      files_entries_agree [OF stored_subset [OF v(2) sub(2) order_refl] news(3)]
      files_entries_agree [OF ss news(3)] by simp_all
  ultimately show "map_of (version_entries ents' v') k = map_of (version_entries ents v) k"
    unfolding version_entries_def two_levels [of ?l ?f, unfolded len, OF l] two_levels [of ?l ?f', unfolded len, OF l]
    using a b d fl by (simp split: option.splits)
  have "stored ents' R' (?f' ! level)" if "level < n" for level
  proof (cases "level = ?l + 1")
    case False
    then have "set (?f' ! level) \<subseteq> set (?f ! level)"
      using other [OF that] fl by (cases "level = ?l") (auto simp: stay_def without_refs_def)
    then show ?thesis using stored_subset [OF stored_agree [OF st [OF that] news(3)] _ news(2)] by blast
  qed (use st1 in simp)
  then have "\<forall>fs\<in>set ?f'. stored ents' R' fs" using len(2) by (simp add: all_set_conv_all_nth)
  then show "stored ents' R' (concat (v_files v'))" by (auto simp: stored_def)
qed

section \<open>A compaction of a store\<close>

context table_store begin

lemma stored_inputs:
  assumes "stored ents R fs" "map unmark gs = map unmark fs"
  shows "stored ents R gs"
  unfolding stored_def
proof
  fix g assume "g \<in> set gs"
  then have "unmark g \<in> unmark ` set fs" using arg_cong [OF assms(2), of set] by auto
  then obtain f where f: "f \<in> set fs" "unmark g = unmark f" by auto
  have "file_ref g = file_ref f" "infimum g = infimum f" "supremum g = supremum f"
    using arg_cong [OF f(2), of file_ref] arg_cong [OF f(2), of infimum] arg_cong [OF f(2), of supremum] by simp_all
  then show "file_ref g \<in> R \<and> in_range ents g" using assms(1) f(1) by (auto simp: stored_def in_range_def)
qed

lemma source_stamps_newest_first:
  assumes v: "version_ok n v" and c: "compactable n v c"
  shows "sorted_wrt (\<lambda>a b. \<not> newer_version a b) (source_stamps c)"
proof -
  have d: "\<not> newer_version a ts_default" for a by (simp add: newer_version_def)
  let ?a = "map (source_ts (c_level c)) (fst (c_inputs c))"
  have "sorted_wrt (\<lambda>a b. \<not> newer_version a b) ?a"
  proof (cases "c_level c = 0")
    case True
    let ?ins = "with_refs (start_refs c) (v_files v ! 0)"
    have ok: "level_ok 0 (v_files v ! 0)" using v c True by (auto simp: version_ok_def compactable_def)
    have u: "map unmark (fst (c_inputs c)) = map unmark ?ins" using c True by (simp add: compactable_def Let_def)
    have "map file_min_xip (map unmark (fst (c_inputs c))) = map file_min_xip (map unmark ?ins)"
      using u by (rule arg_cong)
    then have e: "?a = map file_min_xip ?ins" using True by (simp add: o_def source_ts_def [abs_def])
    have "sorted_wrt (\<lambda>f g. \<not> newer_version (file_min_xip f) (file_min_xip g)) ?ins"
    proof (rule sorted_wrt_mono_rel)
      show "sorted_wrt (before_file 0) ?ins" using ok by (simp add: level_ok_def with_refs_def sorted_wrt_filter)
      fix f g assume "f \<in> set ?ins" "g \<in> set ?ins" "before_file 0 f g"
      moreover from this have "ts_small (file_min_xip f)" "ts_small (file_min_xip g)"
        using ok by (auto simp: level_ok_def file_ok_def with_refs_def)
      ultimately show "\<not> newer_version (file_min_xip f) (file_min_xip g)"
        by (auto simp: newer_version_def before_file_def ts_lt_small dest: less_asym)
    qed
    then show ?thesis unfolding e by (simp add: sorted_wrt_map)
  next
    case False
    then have "?a = replicate (length (fst (c_inputs c))) ts_default"
      by (simp add: source_ts_def [abs_def] map_replicate_const)
    then show ?thesis using d by (simp add: sorted_wrt_iff_nth_less)
  qed
  moreover have "map (source_ts (c_level c + 1)) (snd (c_inputs c)) = replicate (length (snd (c_inputs c))) ts_default"
    by (simp add: source_ts_def [abs_def] map_replicate_const)
  moreover have "sorted_wrt (\<lambda>a b. \<not> newer_version a b) (replicate k ts_default)" for k
    by (induction k) (auto simp: d)
  ultimately show ?thesis using d by (auto simp: source_stamps_def sorted_wrt_append)
qed

lemma compactable_inputs_stored:
  assumes v: "version_ok n v" "stored ents R (concat (v_files v))" and c: "compactable n v c"
  shows "stored ents R (fst (c_inputs c) @ snd (c_inputs c))"
proof -
  let ?ins = "with_refs (start_refs c) (v_files v ! c_level c)"
    and ?outs = "with_refs (output_refs c) (v_files v ! (c_level c + 1))"
  have "set (v_files v ! level) \<subseteq> set (concat (v_files v))" if "level < n" for level
    using that v(1) by (intro set_concat_nth) (simp add: version_ok_def)
  then have "set (v_files v ! c_level c) \<subseteq> set (concat (v_files v))"
    "set (v_files v ! (c_level c + 1)) \<subseteq> set (concat (v_files v))"
    using c by (simp_all add: compactable_def)
  then have "set (?ins @ ?outs) \<subseteq> set (concat (v_files v))"
    unfolding with_refs_def set_append set_filter by blast
  then have "stored ents R (?ins @ ?outs)" by (rule stored_subset [OF v(2) _ order_refl])
  moreover have "map unmark (fst (c_inputs c) @ snd (c_inputs c)) = map unmark (?ins @ ?outs)"
    using c by (simp add: compactable_def Let_def)
  ultimately show ?thesis by (rule stored_inputs)
qed

lemma outputs_unused:
  assumes o: "outputs_ok n disk disk' out news qs" and un: "unused_refs n disk"
  shows "unused_refs (n + length news) disk'"
  unfolding unused_refs_def
proof (intro allI impI)
  fix m assume m: "n + length news \<le> m"
  have "file_ref ` set news = TableFileRef 0 ` {n..<n + length news}"
    using arg_cong [where f = set, OF conjunct1 [OF conjunct2 [OF conjunct2 [OF o [unfolded outputs_written_def]]]]] by simp
  then have "TableFileRef 0 m \<notin> file_ref ` set news" using m by auto
  then show "disk' (TableFileRef 0 m) = None" using o un m by (simp add: outputs_written_def unused_refs_def)
qed

lemma set_merged: "length tss = length qs \<Longrightarrow> set (map snd (merged tss qs)) = set (concat qs)"
  using tagged_snd [of tss qs] by (metis merged_def set_map set_sort)

lemma merged_ascending:
  assumes d: "files_on_disk ents disk R" and s: "stored ents R (fst (c_inputs c) @ snd (c_inputs c))"
  shows "ascending (te_codec env) (newest_only (merged (source_stamps c) (source_entries ents c)))"
proof -
  have "length (source_stamps c) = length (source_entries ents c)"
    by (simp add: source_stamps_def source_entries_def)
  then have "set (newest_only (merged (source_stamps c) (source_entries ents c))) \<subseteq> set (concat (source_entries ents c))"
    using newest_only_subset set_merged by (metis set_map)
  moreover have "\<forall>q\<in>set (source_entries ents c). ascending (te_codec env) q"
    using d s by (auto simp: source_entries_def stored_def disk_ok_def)
  ultimately show ?thesis using merged_sorted by (fastforce simp: ascending_def)
qed

lemma source_entries_range:
  assumes s: "stored ents R (fst (c_inputs c) @ snd (c_inputs c))" and kv: "kv \<in> set (concat (source_entries ents c))"
  shows "low_key (fst (c_inputs c) @ snd (c_inputs c)) \<le> fst kv \<and> fst kv \<le> high_key (fst (c_inputs c) @ snd (c_inputs c))"
proof -
  obtain f where f: "f \<in> set (fst (c_inputs c) @ snd (c_inputs c))" "kv \<in> set (ents (file_ref f))"
    using kv by (auto simp: source_entries_def)
  then have "infimum f \<le> fst kv" "fst kv \<le> supremum f" using s unfolding stored_def in_range_def by blast+
  then show ?thesis using key_bounds [OF f(1)] by (meson order_trans)
qed

lemma run_compaction_result:
  assumes s: "store_at (num_levels opt) ents R disk (vs_current vs) (length (fst (c_inputs c) @ snd (c_inputs c)) + k) st"
    and c: "compactable (num_levels opt) (vs_current vs) c" "c_edit c = version_edit_new"
    and un: "unused_refs (vs_next_file_num vs) disk"
    and fuel: "length (concat (source_entries ents c)) < fuel"
  shows "\<exists>c' vs' disk' st' v' news. run_compaction fuel env opt c vs disk st = Inr (c', vs', disk', st') \<and>
    c_edit c' = compaction_edit c news \<and> vs_current vs' = vs_current vs \<and> unused_refs (vs_next_file_num vs') disk' \<and>
    edit_version opt (c_edit c') (vs_current vs) = Inr v' \<and>
    ((\<forall>f\<in>set news. file_size f < 2 ^ 32) \<longrightarrow>
       (\<exists>ents' R'. store_at (num_levels opt) ents' R' disk' v' k st' \<and>
          map_of (version_entries ents' v') = map_of (version_entries ents (vs_current vs))))"
proof -
  let ?n = "num_levels opt" and ?v = "vs_current vs" and ?num = "vs_next_file_num vs"
  let ?in = "fst (c_inputs c) @ snd (c_inputs c)"
  define out where "out = newest_only (merged (source_stamps c) (source_entries ents c))"
  have v: "version_ok ?n ?v" "stored ents R (concat (v_files ?v))" and d: "files_on_disk ents disk R"
    using s by (simp_all add: store_at_def)
  obtain tbl n where st: "caches_at ents R tbl n st" "room (length ?in + k) n"
    using s unfolding store_at_def by blast
  have inp: "stored ents R ?in" by (rule compactable_inputs_stored [OF v c(1)])
  obtain m ts cs n1 tbl1 rest_is where mi: "make_input_iterator env disk c st = Inr (m, ts, cs)"
    "caches_at ents R tbl1 n1 (ts, cs)" "room k n1"
    "fused_iterator (merging_next fuel input_ops) rest_is (blocks_at tbl1 n1)" "rest_is m out"
    using make_input_iterator_result [OF d inp st fuel] unfolding out_def by (metis prod.collapse)
  have lens: "length (source_stamps c) = length (source_entries ents c)"
    by (simp add: source_stamps_def source_entries_def)
  have len: "length out < fuel"
    using length_newest_only [of "merged (source_stamps c) (source_entries ents c)"] length_merged [OF lens] fuel
    by (simp add: out_def)
  have bl: "blocks_at tbl1 n1 cs" using mi(2) by (simp add: caches_at_def)
  let ?max = "max_file_size_for_level opt (output_level c)"
  obtain disk' cs' news qs where w: "write_outputs fuel env ?max (merging_next fuel input_ops) c vs disk m cs =
        Inr (c\<lparr>c_edit := (c_edit c)\<lparr>ve_add_files := ve_add_files (c_edit c) @ map (Pair (output_level c)) news\<rparr>\<rparr>,
             vs\<lparr>vs_next_file_num := ?num + length news\<rparr>, disk', cs')" "blocks_at tbl1 n1 cs'"
    "outputs_ok ?num disk disk' out news qs"
    using write_outputs_result [OF mi(4) bl mi(5) len un, of ?max c] by blast
  let ?e = "compaction_edit c news"
  let ?c = "delete_inputs (c\<lparr>c_edit := (c_edit c)\<lparr>ve_add_files := ve_add_files (c_edit c) @ map (Pair (output_level c)) news\<rparr>\<rparr>)"
  have ce: "c_edit ?c = ?e" by (rule delete_inputs_edit [OF c(2)])
  let ?vs = "vs\<lparr>vs_next_file_num := ?num + length news\<rparr>"
  have run: "run_compaction fuel env opt c vs disk st = Inr (?c, ?vs, disk', ts, cs')"
    using mi(1) w(1) by (simp add: run_compaction_def)
  have un': "unused_refs (?num + length news) disk'" by (rule outputs_unused [OF w(3) un])
  have fresh: "\<forall>r\<in>R. \<forall>i\<ge>?num. r \<noteq> TableFileRef 0 i"
    using d un unfolding disk_ok_def unused_refs_def by fastforce
  have asc: "ascending (te_codec env) out"
    unfolding out_def by (rule merged_ascending [OF d inp])
  obtain ents' where ents': "\<forall>r\<in>R. ents' r = ents r" "map (ents' \<circ> file_ref) news = qs"
    "stored ents' (R \<union> file_ref ` set news) news"
    "(\<forall>f\<in>set news. file_size f < 2 ^ 32) \<longrightarrow> files_on_disk ents' disk' (R \<union> file_ref ` set news)"
    using outputs_disk_ok [OF d w(3) fresh asc] by blast
  have fe: "files_entries ents' news = out" using ents'(2) w(3) by (simp add: files_entries_def outputs_written_def)
  have wr: "list_all2 (written (te_wire env) (te_codec env) (opt_policy (te_options env)) disk') news qs"
    and refs: "map file_ref news = map (TableFileRef 0) [?num..<?num + length news]"
    using w(3) by (simp_all add: outputs_written_def)
  have new: "file_ref f \<notin> R" if "f \<in> set news" for f
  proof -
    have "file_ref f \<in> set (map file_ref news)" using that by simp
    then obtain i where "?num \<le> i" "file_ref f = TableFileRef 0 i" unfolding refs by auto
    then show ?thesis using fresh by metis
  qed
  have "set out \<subseteq> set (concat (source_entries ents c))"
    using newest_only_subset [of "merged (source_stamps c) (source_entries ents c)"] lens unfolding out_def
    by (metis set_map set_merged)
  then have hull: "\<forall>kv\<in>set out. low_key ?in \<le> fst kv \<and> fst kv \<le> high_key ?in"
    using source_entries_range [OF inp] by blast
  have nf: "news_fit ents' (low_key ?in) (high_key ?in) news"
    unfolding news_fit_def fe
  proof (intro conjI)
    show "distinct (map file_ref news)" unfolding refs by (simp add: distinct_map inj_on_def)
    show "\<forall>f\<in>set news. ents' (file_ref f) \<noteq> [] \<and> infimum f = fst (hd (ents' (file_ref f))) \<and>
        supremum f = fst (last (ents' (file_ref f)))"
      using wr unfolding ents'(2) [symmetric] by (auto simp: list_all2_map2 list_all2_same written_def)
    show "sorted_wrt (<) (map fst out)" using asc by (simp add: ascending_def)
  qed (rule hull)
  have old: "file_ref ` set (concat (v_files ?v)) \<union> output_refs c \<subseteq> R"
    using v(2) inp by (auto simp: stored_def output_refs_def)
  have fit: "edit_fits ?n ?e ?v"
    using new old by (intro compaction_edit_fits [OF v(1) c(1) _ nf]) blast
  obtain v' where v': "edit_version opt ?e ?v = Inr v'" "version_ok ?n v'"
    "v_files v' = map (\<lambda>level. mark_level (marks_of ?e level) (new_level ?e ?v level)) [0..<?n]"
    using edit_version_ok [OF v(1) fit] by blast
  have mo: "map_of (files_entries ents' news) = map_of (files_entries ents ?in)"
    using merged_newest_map_of [OF lens source_stamps_newest_first [OF v(1) c(1)]]
    unfolding fe out_def by (simp only: source_entries_def files_entries_def)
  have nr: "\<forall>f\<in>set news. file_ref f \<notin> output_refs c" using new old by blast
  note look = compaction_lookup [OF v c(1) v'(2,3) ents'(3) _ ents'(1) nr mo]
  have "caches_at ents' (R \<union> file_ref ` set news) tbl1 n1 (ts, cs')"
    using caches_at_agree [of ents R tbl1 n1 "(ts, cs')" "R \<union> file_ref ` set news" ents'] mi(2) w(2) ents'(1)
    by (simp add: caches_at_def)
  then have "store_at ?n ents' (R \<union> file_ref ` set news) disk' v' k (ts, cs')"
    if "\<forall>f\<in>set news. file_size f < 2 ^ 32"
    using that ents'(4) v'(2) look(2) mi(3) unfolding store_at_def by blast
  moreover have "map_of (version_entries ents' v') = map_of (version_entries ents ?v)"
    using look(1) by (simp add: fun_eq_iff)
  ultimately show ?thesis using run ce un' v'(1)
    by (intro exI [of _ ?c] exI [of _ ?vs] exI [of _ disk'] exI [of _ "(ts, cs')"] exI [of _ v'] exI [of _ news]) auto
qed

end

section \<open>Properties\<close>

lemma register_next_file_num: "register_compaction opt c vs = Inr vs' \<Longrightarrow> vs_next_file_num vs' = vs_next_file_num vs"
  unfolding register_compaction_def Let_def res_bind_eq_Inr by (auto split: if_splits)

lemma pick_compaction_new:
  assumes "pick_compaction opt vs = Inr (Some c, vs')"
  shows "c_edit c = version_edit_new" "vs_next_file_num vs' = vs_next_file_num vs"
proof -
  obtain level inputs where "c = compaction_new level inputs" "register_compaction opt c vs = Inr vs'"
    using assms unfolding pick_compaction_def res_bind_eq_Inr Let_def
    by (elim exE conjE) (auto split: option.splits prod.splits simp: res_bind_eq_Inr)
  then show "c_edit c = version_edit_new" "vs_next_file_num vs' = vs_next_file_num vs"
    using register_next_file_num by (simp_all add: compaction_new_def)
qed

lemma concat_marked_refs:
  assumes "length xs = n"
  shows "map file_ref (concat (map (\<lambda>level. mark_level (m level) (xs ! level)) [0..<n])) = map file_ref (concat xs)"
proof -
  have "map (map file_ref) (map (\<lambda>level. mark_level (m level) (xs ! level)) [0..<n]) = map (map file_ref) xs"
    using assms by (intro nth_equalityI) (simp_all add: mark_level_def o_def)
  then show ?thesis by (simp only: map_concat)
qed

text \<open>Marking files changes no entry.\<close>

lemma marked_store:
  assumes s: "store_ok env view good next_id tview tgood n ents R disk v k st"
    and v': "version_ok n v'" "v_files v' = map (\<lambda>level. mark_level (m level) (v_files v ! level)) [0..<n]"
  shows "store_ok env view good next_id tview tgood n ents R disk v' k st" "version_entries ents v' = version_entries ents v"
proof -
  have len: "length (v_files v) = n" using s by (simp add: store_ok_def version_ok_def)
  have "stored ents R (mark_level (m level) (v_files v ! level))" if "level < n" for level
  proof -
    have "stored ents R (v_files v ! level)"
      using s that len set_concat_nth [of level "v_files v"]
      by (intro stored_subset [where gs = "v_files v ! level" and fs = "concat (v_files v)"]) (auto simp: store_ok_def)
    then show ?thesis by (auto simp: stored_def mark_level_def in_range_def)
  qed
  then have "stored ents R (concat (v_files v'))" unfolding v'(2) by (auto simp: stored_def)
  then show "store_ok env view good next_id tview tgood n ents R disk v' k st" using s v'(1) by (simp add: store_ok_def)
  show "version_entries ents v' = version_entries ents v"
    unfolding version_entries_def v'(2) by (rule files_entries_refs [OF concat_marked_refs [OF len]])
qed

text \<open>
  C10: a compaction changes no lookup. The compaction the version set picks reads its inputs, writes
  its output files under unused names and ends; its edit applies to the version with the marked inputs;
  and if every output file is smaller than 4 GiB, as the 32-bit offsets of the table format require, the store with
  the new version is good and a lookup finds in it what it found before.
\<close>
theorem compaction_preserves_lookups:
  "\<lbrakk>store_ok env view good next_id tview tgood (num_levels opt) ents R disk (vs_current vs)
      (length (fst (c_inputs c) @ snd (c_inputs c)) + k) st;
    score_ok (num_levels opt) (vs_current vs); pick_compaction opt vs = Inr (Some c, vs1);
    unused_refs (vs_next_file_num vs) disk;
    length (concat (map (ents \<circ> file_ref) (fst (c_inputs c) @ snd (c_inputs c)))) < fuel\<rbrakk> \<Longrightarrow>
   \<exists>c' vs2 disk' st' v' news. run_compaction fuel env opt c vs1 disk st = Inr (c', vs2, disk', st') \<and>
     c_edit c' = compaction_edit c news \<and> vs_current vs2 = vs_current vs1 \<and>
     unused_refs (vs_next_file_num vs2) disk' \<and>
     edit_version opt (c_edit c') (vs_current vs2) = Inr v' \<and>
     ((\<exists>f\<in>set news. 2 ^ 32 \<le> file_size f) \<or>
      (\<exists>ents' R'. store_ok env view good next_id tview tgood (num_levels opt) ents' R' disk' v' k st' \<and>
         map_of (version_entries ents' v') = map_of (version_entries ents (vs_current vs))))"
proof -
  assume s: "store_ok env view good next_id tview tgood (num_levels opt) ents R disk (vs_current vs)
      (length (fst (c_inputs c) @ snd (c_inputs c)) + k) st"
    and sc: "score_ok (num_levels opt) (vs_current vs)" and p: "pick_compaction opt vs = Inr (Some c, vs1)"
    and un: "unused_refs (vs_next_file_num vs) disk"
    and fuel: "length (concat (map (ents \<circ> file_ref) (fst (c_inputs c) @ snd (c_inputs c)))) < fuel"
  have t: "table_store env view good next_id tview tgood" and v: "version_ok (num_levels opt) (vs_current vs)"
    using s by (simp_all add: store_ok_def)
  have v1: "version_ok (num_levels opt) (vs_current vs1)" "c_level c + 1 < num_levels opt"
    "good_inputs (vs_current vs) (c_level c) (fst (c_inputs c)) (snd (c_inputs c))"
    "v_files (vs_current vs1) =
       map (\<lambda>level. mark_level (marks_of (mark_edit c) level) (v_files (vs_current vs) ! level)) [0..<num_levels opt]"
    using pick_compaction_result [OF v sc] p by auto
  note ms = marked_store [OF s v1(1,4)]
  note nw = pick_compaction_new [OF p]
  have "compactable (num_levels opt) (vs_current vs1) c" by (rule picked_compactable [OF v v1(2-4)])
  then have "\<exists>c' vs2 disk' st' v' news. run_compaction fuel env opt c vs1 disk st = Inr (c', vs2, disk', st') \<and>
     c_edit c' = compaction_edit c news \<and> vs_current vs2 = vs_current vs1 \<and>
     unused_refs (vs_next_file_num vs2) disk' \<and> edit_version opt (c_edit c') (vs_current vs1) = Inr v' \<and>
     ((\<forall>f\<in>set news. file_size f < 2 ^ 32) \<longrightarrow>
       (\<exists>ents' R'. table_store.store_at env view good next_id tview tgood (num_levels opt) ents' R' disk' v' k st' \<and>
         map_of (version_entries ents' v') = map_of (version_entries ents (vs_current vs1))))"
    using table_store.run_compaction_result [OF t, of opt ents R disk vs1 c k st fuel] ms(1) nw un fuel
    by (simp add: table_store.store_ok_iff [OF t] table_store.source_entries_def [OF t])
  then show ?thesis unfolding ms(2) table_store.store_ok_iff [OF t, symmetric]
    by (elim exE conjE) (intro exI conjI, assumption+, auto simp: not_less)
qed

text \<open>The one file of the demonstration store is moved to level 1.\<close>

definition demo_set :: "nat \<Rightarrow> u64 version_set" where
  "demo_set n = (version_set_new demo_options)\<lparr>vs_current := demo_store_version n, vs_next_file_num := 3\<rparr>"

lemma demo_set_pick:
  "\<exists>vs1. pick_compaction demo_options (demo_set n) = Inr (Some (compaction_new 0 ([demo_meta n], [])), vs1)"
proof -
  have v: "vs_current (demo_set n) = demo_store_version n" "\<not> vs_level0_in_progress (demo_set n)"
    by (simp_all add: demo_set_def version_set_new_def)
  have ok: "version_ok (num_levels demo_options) (vs_current (demo_set n))"
    "score_ok (num_levels demo_options) (vs_current (demo_set n))"
    by (simp_all add: v version_ok_def demo_store_version_def less3 level_ok_def file_ok_def demo_meta_def
        table_file_meta_new_def ts_small_def ts_limit_def score_ok_def score_below_one_def)
  obtain r vs1 where r: "pick_compaction demo_options (demo_set n) = Inr (r, vs1)"
    using pick_compaction_result [OF ok] by blast
  have b: "\<not> being_compacted (demo_meta n)" "infimum (demo_meta n) = 1" "supremum (demo_meta n) = 300"
    by (simp_all add: demo_meta_def table_file_meta_new_def)
  have e: "expand_inputs (demo_store_version n) 0 [demo_meta n] = Inr (Some [demo_meta n])"
    using b by (simp add: expand_inputs_def expand_loop.simps get_range_def get_overlapping_inputs_def demo_store_version_def
        level0_inputs_def file_overlaps_def)
  have t: "try_inputs (demo_store_version n) 0 [demo_meta n] = Inr (Some ([demo_meta n], []))"
    using b by (simp add: try_inputs_def expand_inputs_def expand_loop.simps get_range_def get_overlapping_inputs_def
        demo_store_version_def)
  have f: "v_files (demo_store_version n) = [[demo_meta n], [], []]" "v_score (demo_store_version n) = [(1, 1), (0, 1), (0, 1)]"
    by (simp_all add: demo_store_version_def)
  have "pick_level (demo_set n) (enumerate 0 (v_score (vs_current (demo_set n)))) = Inr (Some (0, [demo_meta n], []))"
    using e t v b by (simp add: f score_below_one_def try_pick_files_to_compact_def sort_by_def)
  then show ?thesis using r by (auto simp: pick_compaction_def res_bind_eq_Inr Let_def)
qed

theorem compaction_preserves_lookups_witness:
  "\<exists>f tc vs1 c' vs2 disk' st'. table_build std_wire std_table_codec (table_options_default std_wire) demo_entries = Inr f \<and>
     table_cache_new std_lru demo_options = Inr tc \<and>
     pick_compaction demo_options (demo_set 300) = Inr (Some (compaction_new 0 ([demo_meta 300], [])), vs1) \<and>
     run_compaction 9 std_env demo_options (compaction_new 0 ([demo_meta 300], [])) vs1 [TableFileRef 0 2 \<mapsto> f]
       (tc, demo_cache) = Inr (c', vs2, disk', st')"
proof -
  let ?c = "compaction_new 0 ([demo_meta 300], []) :: u64 compaction"
  obtain f where f: "table_build std_wire std_table_codec (table_options_default std_wire) demo_entries = Inr f"
    "length f < 2 ^ 32"
    using demo_table by blast
  obtain tc where tc: "table_cache_new std_lru demo_options = Inr tc"
    "store_ok std_env (sharded_view ll_peek std_block_hash) (sharded_good ll_good) sc_last_id
      (sharded_view ll_peek std_file_hash) (sharded_good ll_good) 3 (\<lambda>_. demo_entries) {TableFileRef 0 2}
      [TableFileRef 0 2 \<mapsto> f] (demo_store_version 300) 1000 (tc, demo_cache)"
    using demo_store [OF f] by blast
  obtain vs1 where vs1: "pick_compaction demo_options (demo_set 300) = Inr (Some ?c, vs1)"
    using demo_set_pick by blast
  have i: "fst (c_inputs ?c) @ snd (c_inputs ?c) = [demo_meta 300]" by (simp add: compaction_new_def)
  have n: "(1000 :: nat) = length [demo_meta 300] + 999" by simp
  have v: "vs_current (demo_set 300) = demo_store_version 300" "vs_next_file_num (demo_set 300) = 3"
    by (simp_all add: demo_set_def)
  have s: "score_ok 3 (demo_store_version 300)"
    by (simp add: score_ok_def demo_store_version_def score_below_one_def)
  have u: "unused_refs 3 [TableFileRef 0 2 \<mapsto> f]" by (simp add: unused_refs_def)
  have l: "length (concat (map ((\<lambda>_. demo_entries) \<circ> file_ref) [demo_meta 300])) < 9" by (simp add: demo_entries_def)
  obtain c' vs2 disk' st' where "run_compaction 9 std_env demo_options ?c vs1 [TableFileRef 0 2 \<mapsto> f] (tc, demo_cache) =
      Inr (c', vs2, disk', st')"
    using compaction_preserves_lookups [of std_env "sharded_view ll_peek std_block_hash" "sharded_good ll_good" sc_last_id
        "sharded_view ll_peek std_file_hash" "sharded_good ll_good" demo_options "\<lambda>_. demo_entries" "{TableFileRef 0 2}"
        "[TableFileRef 0 2 \<mapsto> f]" "demo_set 300" ?c 999 "(tc, demo_cache)" vs1 9,
        unfolded i v n [symmetric] demo_num_levels, OF tc(2) s vs1 u l]
    by (elim exE conjE) (rule that; assumption)
  then show ?thesis using f(1) tc(1) vs1 by (intro exI conjI)
qed

end
