(* ===== verification/Txn_Commit.thy ===== *)
theory Txn_Commit
  imports Mvcc Wal_Safety
begin

text \<open>
  The end of a transaction, \<open>commit\<close> and \<open>abort\<close> of \<open>transaction/transaction_manager.rs\<close> as a whole,
  \<open>commit_log_records\<close> of \<open>transaction.rs\<close> and \<open>exec_transaction\<close> of \<open>db.rs\<close>: the locked section (from
  \<open>Mvcc\<close>), then the records of the transaction and the commit or abort record go into the write-ahead log,
  and the log is flushed. The log is written after the locked section, so an error of the log comes
  when the transaction is already visible to others; the results here keep the shared state next to
  the outcome of the log. What the log holds after an error of its own is not modelled.
\<close>

section \<open>Commit\<close>

definition commit_log_records :: "wire \<Rightarrow> ('k, 'v) txn \<Rightarrow> wal \<Rightarrow> wal res" where
  "commit_log_records w t wal = wal_append_all w (staged_log_records t) wal"

text \<open>The part of \<open>commit\<close> that writes the log.\<close>

definition commit_log ::
  "wire \<Rightarrow> 'k log_codec \<Rightarrow> ('k, 'v) txn \<Rightarrow> timestamp \<Rightarrow> timestamp \<Rightarrow> wal \<Rightarrow> wal res" where
  "commit_log w lc t commit_ts min_xip_val wal =
     res_bind (commit_log_records w t wal) (\<lambda>wal1.
     res_bind (wal_append_record w lc (start_timestamp t) (create_transaction_commit_log commit_ts min_xip_val) wal1)
       (\<lambda>((_, lsn), wal2). Inr (wal_flush (Some lsn) wal2)))"

definition set_status :: "('k, 'v) txn \<Rightarrow> transaction_status \<Rightarrow> txn_manager \<Rightarrow> txn_manager" where
  "set_status t st tm =
     (if is_fast_commit t
      then tm\<lparr>tm_txn_table := table_set_status (tm_txn_table tm) (start_timestamp t) st\<rparr> else tm)"

definition tm_commit ::
  "wire \<Rightarrow> 'k log_codec \<Rightarrow> ('k, 'v) txn \<Rightarrow> ('k, 'v) shared \<times> wal \<Rightarrow> (('k, 'v) shared \<times> wal res) res" where
  "tm_commit w lc t st =
     res_bind (commit_section t (fst st)) (\<lambda>(commit_ts, t', (m, tm)).
       let min_xip_val = (case cached_min_xip tm of Some x \<Rightarrow> x | None \<Rightarrow> ts_default);
           logged = (if is_readonly t then Inr (snd st) else commit_log w lc t' commit_ts min_xip_val (snd st))
       in case logged of
            Inl e \<Rightarrow> Inr ((m, tm), Inl e)
          | Inr wal' \<Rightarrow> Inr ((m, set_status t Committed tm), Inr wal'))"

section \<open>Abort\<close>

fun rollback_all :: "('k, 'v) txn \<Rightarrow> ('k \<times> nat) list \<Rightarrow> ('k, 'v) memtable \<Rightarrow> ('k, 'v) memtable res" where
  "rollback_all t [] m = Inr m"
| "rollback_all t ((k, a) # rest) m = res_bind (mt_rollback t k m) (rollback_all t rest)"

definition abort_log :: "wire \<Rightarrow> 'k log_codec \<Rightarrow> ('k, 'v) txn \<Rightarrow> wal \<Rightarrow> wal res" where
  "abort_log w lc t wal =
     res_bind (wal_append_record w lc (start_timestamp t) create_transaction_abort_log wal)
       (\<lambda>((_, lsn), wal1). Inr (wal_flush (Some lsn) wal1))"

definition tm_abort ::
  "wire \<Rightarrow> 'k log_codec \<Rightarrow> ('k, 'v) txn \<Rightarrow> ('k, 'v) shared \<times> wal \<Rightarrow> (('k, 'v) shared \<times> wal res) res" where
  "tm_abort w lc t st =
     (let (m, tm) = fst st; (nodes, t', tm1) = abort_section t tm
      in res_bind (rollback_all t' nodes m) (\<lambda>m1.
           case abort_log w lc t' (snd st) of
             Inl e \<Rightarrow> Inr ((m1, tm1), Inl e)
           | Inr wal' \<Rightarrow> Inr ((m1, set_status t Aborted tm1), Inr wal')))"

text \<open>\<open>exec_transaction\<close>: an error of the function aborts, its result is returned after the commit.\<close>

definition exec_transaction ::
  "wire \<Rightarrow> 'k log_codec
    \<Rightarrow> (('k, 'v) shared \<Rightarrow> ('k, 'v) txn \<Rightarrow> ('k, 'v) shared \<times> ('k, 'v) txn \<times> 'r res)
    \<Rightarrow> ('k, 'v) shared \<times> wal \<Rightarrow> (('k, 'v) shared \<times> wal res \<times> 'r res) res" where
  "exec_transaction w lc func st =
     (let (t, tm) = start_transaction Normal (snd (fst st));
          (s1, t1, r) = func (fst (fst st), tm) t
      in res_bind (case r of
             Inl (Err _) \<Rightarrow> tm_abort w lc t1 (s1, snd st)
           | Inl e \<Rightarrow> Inl e
           | Inr _ \<Rightarrow> tm_commit w lc t1 (s1, snd st))
           (\<lambda>(s2, wal'). Inr (s2, wal', (case wal' of Inl e \<Rightarrow> Inl e | Inr _ \<Rightarrow> r))))"

section \<open>The log of a transaction\<close>

text \<open>A record that fits into an empty segment is never refused.\<close>

definition record_fits :: "nat \<Rightarrow> bytes \<Rightarrow> bool" where
  "record_fits cap r \<longleftrightarrow>
     length r \<le> SEGMENT_PAGE_SIZE + (SEGMENT_PAGE_SIZE - RECORD_HEADER_SIZE) * (cap div SEGMENT_PAGE_SIZE - 1)"

lemma fresh_segment_room:
  assumes "segment_create no existing cap m = Inr s" "record_fits cap r"
  shows "sufficient_capacity s (length r) = Inr True"
  using assms
  by (auto simp: segment_create_def res_bind_eq_Inr check_capacity_def sufficient_capacity_def record_fits_def Let_def
      split: if_splits)

lemma wal_room_sufficient:
  assumes "wal_room wal (length r) = Inr wal1" "record_fits (sc_capacity (creator wal)) r"
  shows "sufficient_capacity (open_segment wal1) (length r) = Inr True \<and> sc_capacity (creator wal1) = sc_capacity (creator wal)"
  using assms fresh_segment_room
  by (auto simp: wal_room_def res_bind_eq_Inr next_segment_def Let_def split: if_splits)

lemma append_all_single: "wal_append w r wal = Inr (p, wal') \<Longrightarrow> wal_append_all w [r] wal = Inr wal'"
  by (auto simp: wal_append_def res_bind_eq_Inr Let_def split: option.splits)

lemma append_all_is_run:
  "\<lbrakk>wal_append_all w rs wal = Inr wal'; \<forall>r\<in>set rs. record_fits (sc_capacity (creator wal)) r\<rbrakk> \<Longrightarrow>
    \<exists>log. wal_run w (map OpAppend rs) wal = Inr (log, wal') \<and> map fst log = rs"
proof (induction rs arbitrary: wal)
  case (Cons r rs)
  obtain wal1 p seg where s: "wal_room wal (length r) = Inr wal1" "append w r (open_segment wal1) = Inr (p, seg)"
    "wal_append_all w rs (wal1\<lparr>open_segment := seg\<rparr>) = Inr wal'"
    using Cons.prems(1) by (auto simp: res_bind_eq_Inr)
  have room: "sufficient_capacity (open_segment wal1) (length r) = Inr True"
    "sc_capacity (creator wal1) = sc_capacity (creator wal)"
    using wal_room_sufficient [OF s(1)] Cons.prems(2) by simp_all
  obtain e where e: "p = Some e" using s(2) room(1) by (auto simp: append_def Let_def)
  have ap: "wal_append w r wal = Inr ((current_lsn (open_segment wal1), e), wal1\<lparr>open_segment := seg\<rparr>)"
    using s(1,2) e by (simp add: wal_append_def)
  obtain log where "wal_run w (map OpAppend rs) (wal1\<lparr>open_segment := seg\<rparr>) = Inr (log, wal')" "map fst log = rs"
    using Cons.IH [OF s(3)] Cons.prems(2) room(2) by auto
  then show ?case using ap by auto
qed simp

lemma wal_run_append:
  "wal_run w (ops @ ops') wal = res_bind (wal_run w ops wal) (\<lambda>(log, wal1).
     res_bind (wal_run w ops' wal1) (\<lambda>(log', wal'). Inr (log @ log', wal')))"
proof (induction w ops wal rule: wal_run.induct)
  case (1 w wal)
  show ?case by (cases "wal_run w ops' wal") auto
next
  case (3 w r ops wal)
  show ?case
  proof (cases "wal_append w r wal")
    case (Inr x)
    obtain a b wal1 where x: "x = ((a, b), wal1)" by (metis prod.collapse)
    show ?thesis
      using 3 [OF Inr x [symmetric] refl] Inr x
      by (cases "wal_run w ops wal1"; cases "wal_run w ops' (snd (projr (wal_run w ops wal1)))") auto
  qed simp
qed simp

definition commit_record :: "'k log_codec \<Rightarrow> ('k, 'v) txn \<Rightarrow> timestamp \<Rightarrow> timestamp \<Rightarrow> bytes" where
  "commit_record lc t commit_ts min_xip_val =
     ser_full lc (start_timestamp t) (create_transaction_commit_log commit_ts min_xip_val)"

lemma room_capacity: "wal_room wal n = Inr wal1 \<Longrightarrow> sc_capacity (creator wal1) = sc_capacity (creator wal)"
  by (auto simp: wal_room_def res_bind_eq_Inr next_segment_def Let_def split: if_splits)

lemma append_capacity: "wal_append w r wal = Inr ((a, b), wal') \<Longrightarrow> sc_capacity (creator wal') = sc_capacity (creator wal)"
  by (rule wal_append_parts) (auto dest: room_capacity)

lemma run_capacity: "wal_run w ops wal = Inr (log, wal') \<Longrightarrow> sc_capacity (creator wal') = sc_capacity (creator wal)"
proof (induction w ops wal arbitrary: log rule: wal_run.induct)
  case (3 w r ops wal)
  obtain a b wal1 log1 where s: "wal_append w r wal = Inr ((a, b), wal1)" "wal_run w ops wal1 = Inr (log1, wal')"
    using 3(2) by (auto simp: res_bind_eq_Inr)
  show ?case using 3(1) [OF s(1) refl refl s(2)] append_capacity [OF s(1)] by simp
qed simp_all

lemma commit_log_run:
  assumes c: "commit_log w lc t ts m wal = Inr wal'" and fits: "\<forall>r\<in>set (staged_log_records t). record_fits (sc_capacity (creator wal)) r"
  shows "\<exists>log b wal2. map fst log = staged_log_records t @ [commit_record lc t ts m] \<and>
    wal_run w (map OpAppend (map fst log)) wal = Inr (log, wal2) \<and> wal' = wal_flush (Some b) wal2 \<and>
    b = current_lsn (open_segment wal2)"
proof -
  obtain wal1 a b wal2 where s: "wal_append_all w (staged_log_records t) wal = Inr wal1"
    "wal_append w (commit_record lc t ts m) wal1 = Inr ((a, b), wal2)" "wal' = wal_flush (Some b) wal2"
    using c by (auto simp: commit_log_def commit_log_records_def res_bind_eq_Inr wal_append_record_def
        get_full_record_def commit_record_def)
  obtain log where l: "wal_run w (map OpAppend (staged_log_records t)) wal = Inr (log, wal1)" "map fst log = staged_log_records t"
    using append_all_is_run [OF s(1) fits] by blast
  have "wal_run w (map OpAppend (staged_log_records t) @ [OpAppend (commit_record lc t ts m)]) wal =
      Inr (log @ [(commit_record lc t ts m, a, b)], wal2)"
    using l(1) s(2) by (simp add: wal_run_append)
  then show ?thesis using l(2) s(3) append_end [OF s(2)]
    by (intro exI [of _ "log @ [(commit_record lc t ts m, a, b)]"] exI [of _ b] exI [of _ wal2]) simp
qed

lemma flush_to_end_clean:
  "seg_wf (open_segment wal) \<Longrightarrow> \<not> dirty (open_segment (wal_flush (Some (current_lsn (open_segment wal))) wal))"
  using clean_after_flush by (auto simp: wal_flush_def dirty_def current_lsn_def flushed_lsn_def seg_wf_def)

lemma tm_commit_parts:
  assumes "tm_commit w lc t (s, wal) = Inr (s', Inr wal')" "\<not> is_readonly t"
  obtains ts t' m tm where "commit_section t s = Inr (ts, t', m, tm)" "fst s' = m"
    "commit_log w lc t' ts (case cached_min_xip tm of Some x \<Rightarrow> x | None \<Rightarrow> ts_default) wal = Inr wal'"
proof -
  obtain ts t' m tm where c: "commit_section t s = Inr (ts, t', m, tm)"
    using assms(1) by (auto simp: tm_commit_def res_bind_eq_Inr)
  obtain wal1 where "commit_log w lc t' ts (case cached_min_xip tm of Some x \<Rightarrow> x | None \<Rightarrow> ts_default) wal = Inr wal1"
    using assms c by (cases "commit_log w lc t' ts (case cached_min_xip tm of Some x \<Rightarrow> x | None \<Rightarrow> ts_default) wal")
      (simp_all add: tm_commit_def)
  then show ?thesis using assms c by (intro that [OF c]) (auto simp: tm_commit_def)
qed

context wire_format begin

text \<open>A history, then records and a flush up to the end of the last: the files hold all of it.\<close>

lemma run_flush_durable:
  assumes cap: "SEGMENT_PAGE_SIZE dvd segment_capacity options" and start: "wal_open Missing options = Inr wal0"
    and run: "wal_run w ops wal0 = Inr (log, wal)" and b: "b = current_lsn (open_segment wal)"
    and number: "segno (open_segment wal) < 2 ^ 32" and dir: "mset dir = mset (wal_dir (wal_flush (Some b) wal))"
  shows "(\<forall>x\<in>set log. fits_in (segment_capacity options) x) \<Longrightarrow>
      \<exists>rd. reader_open dir (segment_capacity options) 0 = Inr rd \<and>
        reader_take w rd (Suc (length log)) 0 = map (\<lambda>(r, a, b). Some (Inr (b, r))) log @ [None]"
    and "wal_sync_method options \<noteq> NoSync \<Longrightarrow>
      seg_synced (open_segment (wal_flush (Some b) wal)) = length (seg_file (open_segment (wal_flush (Some b) wal)))"
proof -
  have w: "wire_ok w" using wire_format_axioms by (simp add: wire_format_iff)
  note s0 = wal_safe_open [OF start]
  have s: "wal_safe wal" "sc_sync_method (creator wal) = wal_sync_method options"
    using wal_safe_run [OF w run s0(1) number] s0 by simp_all
  then have wf: "seg_wf (open_segment wal)" by (simp add: wal_safe_def)
  show "wal_sync_method options \<noteq> NoSync \<Longrightarrow>
      seg_synced (open_segment (wal_flush (Some b) wal)) = length (seg_file (open_segment (wal_flush (Some b) wal)))"
    using flush_durable [OF wf] s unfolding b wal_safe_def by auto
  assume fit: "\<forall>x\<in>set log. fits_in (segment_capacity options) x"
  note h0 = wal_open_holds [OF cap start]
  obtain segs1 where h1: "holds_log w wal segs1" "wal_capacity wal = segment_capacity options"
    "log_ends w (segment_capacity options) 0 segs1 = map (\<lambda>(r, a, b). (b, r)) log"
    using wal_run_holds [OF run conjunct1 [OF h0]] h0 fit number by auto
  obtain segs where h: "holds_log w (wal_flush (Some b) wal) segs"
    "log_ends w (wal_capacity wal) 0 segs = log_ends w (wal_capacity wal) 0 segs1"
    by (rule wal_flush_holds [OF h1(1)])
  have "\<not> dirty (open_segment (wal_flush (Some b) wal))" unfolding b by (rule flush_to_end_clean [OF wf])
  from clean_log_replays [OF h(1) this _ dir] show "\<exists>rd. reader_open dir (segment_capacity options) 0 = Inr rd \<and>
        reader_take w rd (Suc (length log)) 0 = map (\<lambda>(r, a, b). Some (Inr (b, r))) log @ [None]"
    using number h(2) h1(2,3) by (simp add: case_prod_unfold o_def del: reader_take.simps)
qed

end

section \<open>Properties\<close>

text \<open>
  C7: a commit that returned is durable. When the commit of a transaction that wrote something
  succeeds, the files of the log hold, after everything logged before, the records of the transaction
  in the order it staged them and then the commit record with the timestamp its versions got,
  in whatever order the directory is listed; and unless syncing is switched off, all of the last file is synced.
  (The condition \<open>fits_in\<close> on where records end excludes the records the reader loses.)
\<close>
theorem commit_is_durable:
  "\<lbrakk>wire_ok w; SEGMENT_PAGE_SIZE dvd segment_capacity options; wal_open Missing options = Inr wal0;
    wal_run w ops wal0 = Inr (log, wal); tm_commit w lc t (s, wal) = Inr (s', Inr wal'); \<not> is_readonly t;
    \<forall>r\<in>set (staged_log_records t). record_fits (segment_capacity options) r;
    segno (open_segment wal') < 2 ^ 32; mset dir = mset (wal_dir wal')\<rbrakk> \<Longrightarrow>
   \<exists>ts t' m tm mx log'. commit_section t s = Inr (ts, t', m, tm) \<and> fst s' = m \<and>
     map fst log' = staged_log_records t @ [commit_record lc t ts mx] \<and>
     (\<exists>wal1. wal_run w (map OpAppend (map fst log')) wal = Inr (log', wal1)) \<and>
     ((\<forall>x\<in>set (log @ log'). fits_in (segment_capacity options) x) \<longrightarrow>
        (\<exists>rd. reader_open dir (segment_capacity options) 0 = Inr rd \<and>
           reader_take w rd (Suc (length (log @ log'))) 0 = map (\<lambda>(r, a, b). Some (Inr (b, r))) (log @ log') @ [None])) \<and>
     (wal_sync_method options \<noteq> NoSync \<longrightarrow> seg_synced (open_segment wal') = length (seg_file (open_segment wal')))"
proof -
  assume w: "wire_ok w" and cap: "SEGMENT_PAGE_SIZE dvd segment_capacity options" and start: "wal_open Missing options = Inr wal0"
    and run: "wal_run w ops wal0 = Inr (log, wal)" and c: "tm_commit w lc t (s, wal) = Inr (s', Inr wal')"
    and ro: "\<not> is_readonly t" and fits: "\<forall>r\<in>set (staged_log_records t). record_fits (segment_capacity options) r"
    and no: "segno (open_segment wal') < 2 ^ 32" and dir: "mset dir = mset (wal_dir wal')"
  have wf: "wire_format w" using w by (simp add: wire_format_iff)
  obtain ts t' m tm where cs: "commit_section t s = Inr (ts, t', m, tm)" "fst s' = m"
    and lg: "commit_log w lc t' ts (case cached_min_xip tm of Some x \<Rightarrow> x | None \<Rightarrow> ts_default) wal = Inr wal'"
    by (rule tm_commit_parts [OF c ro])
  have t': "staged_log_records t' = staged_log_records t" "start_timestamp t' = start_timestamp t"
    using cs(1) ro by (auto simp: commit_section_def res_bind_eq_Inr Let_def split: prod.splits)
  define mx where "mx = (case cached_min_xip tm of Some x \<Rightarrow> x | None \<Rightarrow> ts_default)"
  have sw: "sc_capacity (creator wal) = segment_capacity options"
    using run_capacity [OF run] wal_safe_open(5) [OF start] by simp
  obtain log' b wal2 where l: "map fst log' = staged_log_records t' @ [commit_record lc t' ts mx]"
    "wal_run w (map OpAppend (map fst log')) wal = Inr (log', wal2)" "wal' = wal_flush (Some b) wal2"
    "b = current_lsn (open_segment wal2)"
    using commit_log_run [OF lg [folded mx_def]] fits t'(1) sw by metis
  have "wal_run w (ops @ map OpAppend (map fst log')) wal0 = Inr (log @ log', wal2)"
    using run l(2) by (simp add: wal_run_append)
  note d = wire_format.run_flush_durable [OF wf cap start this l(4) _ dir [unfolded l(3)]]
  have "segno (open_segment wal2) < 2 ^ 32" using no l(3) by simp
  note d = d [OF this]
  have "map fst log' = staged_log_records t @ [commit_record lc t ts mx]"
    using l(1) t' by (simp add: commit_record_def)
  then show ?thesis unfolding l(3) using cs d l(2) by blast
qed

text \<open>A transaction with one staged record.\<close>

definition demo_txn :: "(nat, nat) txn" where
  "demo_txn = (txn_new Normal (ts_new Commit 1) (ts_new Uncommitted 1))\<lparr>is_readonly := False, staged_log_records := [[7, 8]]\<rparr>"

definition demo_log_codec :: "nat log_codec" where
  "demo_log_codec = \<lparr>ser_full = (\<lambda>xid rec. [9]), de_full = (\<lambda>bs. None)\<rparr>"

theorem commit_is_durable_witness:
  "\<exists>wal0 s' wal' rd. wal_open Missing wal_options_default = Inr wal0 \<and>
     tm_commit std_wire demo_log_codec demo_txn ((memtable_new, txn_manager_new), wal0) = Inr (s', Inr wal') \<and>
     reader_open (wal_dir wal') (segment_capacity wal_options_default) 0 = Inr rd \<and>
     reader_take std_wire rd 3 0 = [Some (Inr (9, [7, 8])), Some (Inr (17, [9])), None]"
proof -
  let ?cap = "segment_capacity wal_options_default"
  have cap: "SEGMENT_PAGE_SIZE \<le> ?cap" "7 < ?cap" "SEGMENT_PAGE_SIZE dvd ?cap"
    by (simp_all add: wal_options_default_def SEGMENT_PAGE_SIZE_def)
  obtain wal0 wal1 wal2 where w: "wal_open Missing wal_options_default = Inr wal0"
    and ap: "wal_append std_wire [7, 8] wal0 = Inr ((0, 9), wal1)"
    and ap2: "wal_append std_wire [9] wal1 = Inr ((9, 17), wal2)" "segno (open_segment wal2) = 1"
    by (rule two_records)
  define wal3 where "wal3 = wal_flush (Some 17) wal2"
  have c: "\<exists>s'. tm_commit std_wire demo_log_codec demo_txn ((memtable_new, txn_manager_new), wal0) = Inr (s', Inr wal3)"
    using append_all_single [OF ap] ap2(1) by (simp del: wal_append_all.simps add: tm_commit_def commit_section_def demo_txn_def txn_new_def Let_def wal3_def
        commit_log_def commit_log_records_def wal_append_record_def get_full_record_def demo_log_codec_def)
  then obtain s' where c: "tm_commit std_wire demo_log_codec demo_txn ((memtable_new, txn_manager_new), wal0) = Inr (s', Inr wal3)"
    by blast
  have run: "wal_run std_wire [] wal0 = Inr ([], wal0)" by simp
  have ro: "\<not> is_readonly demo_txn" "staged_log_records demo_txn = [[7, 8]]" by (simp_all add: demo_txn_def)
  have fits: "\<forall>r\<in>set (staged_log_records demo_txn). record_fits ?cap r"
    using page_size_large(2) by (simp add: ro record_fits_def)
  have no: "segno (open_segment wal3) < 2 ^ 32" using ap2(2) by (simp add: wal3_def)
  obtain lg ts mx wal4 where lg: "map fst lg = [[7, 8], commit_record demo_log_codec demo_txn ts mx]"
    "wal_run std_wire (map OpAppend (map fst lg)) wal0 = Inr (lg, wal4)"
    and rd: "(\<forall>x\<in>set lg. fits_in ?cap x) \<longrightarrow> (\<exists>rd. reader_open (wal_dir wal3) ?cap 0 = Inr rd \<and>
       reader_take std_wire rd (Suc (length lg)) 0 = map (\<lambda>(r, a, b). Some (Inr (b, r))) lg @ [None])"
    using commit_is_durable [OF std_wire_ok cap(3) w run c ro(1) fits no refl] unfolding ro(2) append_Nil append_Cons
    by (elim exE conjE) (rule that; assumption)
  have "commit_record demo_log_codec demo_txn ts mx = [9]" by (simp add: commit_record_def demo_log_codec_def)
  then have e: "lg = [([7, 8], 0, 9), ([9], 9, 17)]" using lg ap ap2(1) by simp
  have "\<forall>x\<in>set lg. fits_in ?cap x" by (simp add: e fits_in_def wal_options_default_def SEGMENT_PAGE_SIZE_def)
  then obtain rd where "reader_open (wal_dir wal3) ?cap 0 = Inr rd"
    "reader_take std_wire rd (Suc (length lg)) 0 = map (\<lambda>(r, a, b). Some (Inr (b, r))) lg @ [None]"
    using rd by blast
  moreover have "Suc (length lg) = 3" "map (\<lambda>(r, a, b). Some (Inr (b, r))) lg @ [None] =
      [Some (Inr (9, [7, 8])), Some (Inr (17, [9])), None :: (nat \<times> bytes) res option]"
    by (simp_all add: e)
  ultimately show ?thesis using w c by metis
qed

end
