(* ===== verification/Mem_Gc.thy ===== *)
theory Mem_Gc
  imports Version_List
begin

text \<open>
  Flushing the memtable: \<open>snapshot\<close>, which copies the newest version older than \<open>min_xip\<close> of each
  key into an \<open>ImmutableHashTable\<close> and marks it collected, and \<open>gc\<close>, which then drops what the
  snapshot has collected (\<open>hash_memtable.rs\<close>). The lock-free map is iterated in some order of
  its keys, which is an argument. What other threads do in the middle of \<open>gc\<close>, before its
  \<open>compare_exchange\<close> and between it and the removal of the entry, is an argument too.
\<close>

section \<open>The immutable table\<close>

type_synonym ('k, 'v) imm_table = "('k \<times> 'v option) list"

definition imm_insert ::
  "'k::linorder \<Rightarrow> 'v option \<Rightarrow> ('k, 'v) imm_table \<Rightarrow> ('k, 'v) imm_table" where
  "imm_insert k v t = omap_insert lin_cmp k v t"

definition imm_size :: "('k, 'v) imm_table \<Rightarrow> nat" where
  "imm_size t = length t"

definition imm_get :: "('k::linorder, 'v) imm_table \<Rightarrow> 'k \<Rightarrow> 'v option" where
  "imm_get t k = (case omap_get lin_cmp k t of None \<Rightarrow> None | Some v \<Rightarrow> v)"

definition imm_iter :: "('k, 'v) imm_table \<Rightarrow> ('k \<times> 'v option) list" where
  "imm_iter t = t"

section \<open>Which versions may be collected\<close>

text \<open>The subtraction wraps, as it does in a build without overflow checks.\<close>

definition is_version_safe_for_gc :: "timestamp \<Rightarrow> timestamp \<Rightarrow> u64 \<Rightarrow> bool" where
  "is_version_safe_for_gc version_ts mx freeze_min_age =
     (let hybrid = (let safe_limit = ts_new Commit (ts_raw mx - freeze_min_age);
                        safe_limit' = (if ts_is_invalid safe_limit then ts_inc safe_limit
                                       else safe_limit)
                    in ts_lt (ts_normalize version_ts) safe_limit')
      in case ts_type version_ts of
           Commit \<Rightarrow> ts_lt version_ts mx
         | Uncommitted \<Rightarrow> False
         | Start \<Rightarrow> hybrid
         | StartCommitted \<Rightarrow> hybrid)"

section \<open>Snapshot\<close>

text \<open>The loop over one chain: \<open>Some v\<close> is a record found and marked, \<open>None\<close> is a chain skipped.\<close>

fun snapshot_walk ::
  "nat \<Rightarrow> timestamp \<Rightarrow> u64 \<Rightarrow> vptr \<Rightarrow> ('k, 'v) memtable
    \<Rightarrow> ('v option option \<times> ('k, 'v) memtable) res" where
  "snapshot_walk 0 mx age p m = Inl Diverges"
| "snapshot_walk (Suc fuel) mx age p m =
     (case ptr_addr p of
        None \<Rightarrow> Inr (None, m)
      | Some a \<Rightarrow>
          if is_abort p then Inr (None, m)
          else res_bind (deref m a) (\<lambda>delta.
            if is_version_safe_for_gc (node_timestamp delta) mx age
            then (case try_set_collected mx delta of
                    (False, _) \<Rightarrow> Inr (None, m)
                  | (True, delta') \<Rightarrow> Inr (Some (record_value (node_record delta)),
                      m\<lparr>mt_heap := (mt_heap m)(a \<mapsto> delta')\<rparr>))
            else snapshot_walk fuel mx age (node_next delta) m))"

fun mt_snapshot ::
  "timestamp \<Rightarrow> u64 \<Rightarrow> 'k::linorder list \<Rightarrow> ('k, 'v) memtable \<Rightarrow> ('k, 'v) imm_table
    \<Rightarrow> (('k, 'v) imm_table \<times> ('k, 'v) memtable) res" where
  "mt_snapshot mx age [] m imt = Inr (imt, m)"
| "mt_snapshot mx age (k # ks) m imt =
     (case mt_table m k of
        None \<Rightarrow> mt_snapshot mx age ks m imt
      | Some c \<Rightarrow>
          res_bind (load_cell m c) (\<lambda>p.
          res_bind (snapshot_walk (walk_fuel m) mx age p m) (\<lambda>(value, m').
            case value of
              None \<Rightarrow> mt_snapshot mx age ks m' imt
            | Some v \<Rightarrow> mt_snapshot mx age ks m' (imm_insert k v imt))))"

section \<open>Garbage collection\<close>

text \<open>Hand every node of a chain to the epoch collector.\<close>

fun destroy_chain :: "nat \<Rightarrow> vptr \<Rightarrow> ('k, 'v) memtable \<Rightarrow> ('k, 'v) memtable res" where
  "destroy_chain 0 p m = Inl Diverges"
| "destroy_chain (Suc fuel) p m =
     (case ptr_addr p of
        None \<Rightarrow> Inr m
      | Some a \<Rightarrow> res_bind (deref m a) (\<lambda>n.
          destroy_chain fuel (node_next n) (m\<lparr>mt_garbage := mt_garbage m @ [a]\<rparr>)))"

text \<open>Cut the chain in front of the version that this collector has copied.\<close>

fun gc_detach ::
  "nat \<Rightarrow> timestamp \<Rightarrow> u64 \<Rightarrow> vptr \<Rightarrow> ('k, 'v) memtable \<Rightarrow> ('k, 'v) memtable res" where
  "gc_detach 0 mx age p m = Inl Diverges"
| "gc_detach (Suc fuel) mx age p m =
     (case ptr_addr p of
        None \<Rightarrow> Inr m
      | Some a \<Rightarrow>
          res_bind (deref m a) (\<lambda>delta.
          let next_ptr = node_next delta
          in case ptr_addr next_ptr of
               None \<Rightarrow> gc_detach fuel mx age next_ptr m
             | Some b \<Rightarrow>
                 res_bind (deref m b) (\<lambda>next.
                 if is_version_safe_for_gc (node_timestamp next) mx age
                 then if load_collected next \<noteq> mx then Inr m
                      else destroy_chain (walk_fuel m) next_ptr
                             (m\<lparr>mt_heap := (mt_heap m)(a \<mapsto> delta\<lparr>node_next := null_ptr\<rparr>)\<rparr>)
                 else gc_detach fuel mx age next_ptr m)))"

text \<open>
  The rest of the treatment of one entry: publish the abort pointer, remove the entry and destroy
  its chain. \<open>e1\<close> is what others do before the \<open>compare_exchange\<close>, \<open>e2\<close> between it and the rest.
\<close>

definition gc_remove ::
  "('k, 'v) env \<Rightarrow> ('k, 'v) env \<Rightarrow> 'k \<Rightarrow> nat \<Rightarrow> vptr \<Rightarrow> ('k, 'v) shared
    \<Rightarrow> ('k, 'v) shared res" where
  "gc_remove e1 e2 k c old_head s =
     (let (m1, tm1) = e1 s
      in res_bind (load_cell m1 c) (\<lambda>now.
           if now \<noteq> old_head then Inr (m1, tm1)
           else let (m2, tm2) = e2 (m1\<lparr>mt_cells := (mt_cells m1)(c \<mapsto> abort_ptr old_head)\<rparr>, tm1)
                in res_bind (load_cell m2 c) (\<lambda>delta_ptr.
                     let m3 = m2\<lparr>mt_table := (mt_table m2)(k := None), mt_size := mt_size m2 - 1\<rparr>
                     in res_bind (destroy_chain (walk_fuel m3) delta_ptr m3)
                          (\<lambda>m4. Inr (m4, tm2)))))"

definition gc_entry ::
  "('k, 'v) env \<Rightarrow> ('k, 'v) env \<Rightarrow> timestamp \<Rightarrow> u64 \<Rightarrow> 'k \<Rightarrow> ('k, 'v) shared
    \<Rightarrow> ('k, 'v) shared res" where
  "gc_entry e1 e2 mx age k s =
     (case mt_table (fst s) k of
        None \<Rightarrow> Inr s
      | Some c \<Rightarrow>
          res_bind (load_cell (fst s) c) (\<lambda>old_head.
          if is_abort old_head then Inr s
          else case ptr_addr old_head of
                 None \<Rightarrow> Inr s
               | Some a \<Rightarrow>
                   res_bind (deref (fst s) a) (\<lambda>delta.
                   res_bind (gc_detach (walk_fuel (fst s)) mx age old_head (fst s)) (\<lambda>m'.
                   if \<not> is_version_safe_for_gc (node_timestamp delta) mx age
                   then Inr (m', snd s)
                   else if load_collected delta \<noteq> mx then Inr (m', snd s)
                   else gc_remove e1 e2 k c old_head (m', snd s)))))"

fun mt_gc ::
  "('k \<Rightarrow> ('k, 'v) env \<times> ('k, 'v) env) \<Rightarrow> timestamp \<Rightarrow> u64 \<Rightarrow> 'k list \<Rightarrow> ('k, 'v) shared
    \<Rightarrow> ('k, 'v) shared res" where
  "mt_gc envs mx age [] s = Inr s"
| "mt_gc envs mx age (k # ks) s =
     res_bind (gc_entry (fst (envs k)) (snd (envs k)) mx age k s)
       (mt_gc envs mx age ks)"

text \<open>\<open>clear\<close>, which runs when the memtable is dropped: every chain goes, and every entry.\<close>

fun clear_chains :: "'k list \<Rightarrow> ('k, 'v) memtable \<Rightarrow> ('k, 'v) memtable res" where
  "clear_chains [] m = Inr m"
| "clear_chains (k # ks) m =
     (case mt_table m k of
        None \<Rightarrow> clear_chains ks m
      | Some c \<Rightarrow> res_bind (load_cell m c) (\<lambda>p.
          res_bind (destroy_chain (walk_fuel m) p m) (clear_chains ks)))"

definition mt_clear :: "'k list \<Rightarrow> ('k, 'v) memtable \<Rightarrow> ('k, 'v) memtable res" where
  "mt_clear ks m = res_bind (clear_chains ks m) (\<lambda>m'. Inr (m'\<lparr>mt_table := Map.empty\<rparr>))"

section \<open>Snapshot on lists\<close>

abbreviation safe_node :: "timestamp \<Rightarrow> u64 \<Rightarrow> ('k, 'v) memtable \<Rightarrow> nat \<Rightarrow> bool" where
  "safe_node mx age m a \<equiv> is_version_safe_for_gc (fst (node_version m a)) mx age"

definition collected_by :: "timestamp \<Rightarrow> ('k, 'v) memtable \<Rightarrow> nat \<Rightarrow> bool" where
  "collected_by mx m a \<longleftrightarrow> (\<exists>n. mt_heap m a = Some n \<and> load_collected n = mx)"

definition uncollected :: "('k, 'v) memtable \<Rightarrow> nat \<Rightarrow> bool" where
  "uncollected m a \<longleftrightarrow> (\<exists>n. mt_heap m a = Some n \<and> node_collected n = 0)"

definition mark_collected :: "timestamp \<Rightarrow> nat \<Rightarrow> ('k, 'v) memtable \<Rightarrow> ('k, 'v) memtable" where
  "mark_collected mx a m = (case mt_heap m a of
     Some n \<Rightarrow> m\<lparr>mt_heap := (mt_heap m)(a \<mapsto> snd (try_set_collected mx n))\<rparr> | None \<Rightarrow> m)"

lemma try_set_collected_cases:
  "node_collected n = 0 \<Longrightarrow> try_set_collected c n = (True, n\<lparr>node_collected := ucast (ts_bits c)\<rparr>)"
  "node_collected n \<noteq> 0 \<Longrightarrow> try_set_collected c n = (False, n)"
  by (simp_all add: try_set_collected_def)

lemma snapshot_walk_list:
  assumes "path (mt_heap m) p as" and "length as < fuel" and "\<not> is_abort p" and "no_abort m"
  shows "snapshot_walk fuel mx age p m =
    (case find (safe_node mx age m) as of
       None \<Rightarrow> Inr (None, m)
     | Some a \<Rightarrow> if uncollected m a then Inr (Some (record_value (snd (node_version m a))),
           mark_collected mx a m)
         else Inr (None, m))"
  using assms
proof (induction as arbitrary: p fuel)
  case Nil
  then show ?case by (cases fuel) auto
next
  case (Cons a as)
  then obtain f n where f: "fuel = Suc f" and n: "mt_heap m a = Some n"
    "path (mt_heap m) (node_next n) as" "ptr_addr p = Some a"
    by (cases fuel) auto
  have nv: "node_version m a = (node_timestamp n, node_record n)" using n by (simp add: node_version_def)
  have "\<not> is_abort (node_next n)" using Cons.prems(4) n(1) by (auto simp: no_abort_def)
  with Cons f n have IH: "snapshot_walk f mx age (node_next n) m =
    (case find (safe_node mx age m) as of
       None \<Rightarrow> Inr (None, m)
     | Some a \<Rightarrow> if uncollected m a then Inr (Some (record_value (snd (node_version m a))),
           mark_collected mx a m)
         else Inr (None, m))" by simp
  show ?case
  proof (cases "is_version_safe_for_gc (node_timestamp n) mx age")
    case True
    then show ?thesis
      using f n nv Cons.prems(3)
      by (cases "node_collected n = 0")
         (simp_all add: deref_def try_set_collected_cases uncollected_def mark_collected_def)
  next
    case False
    with f n nv Cons.prems(3) IH show ?thesis by (simp add: deref_def)
  qed
qed

lemma mark_collected_rep:
  assumes "mt_wf m"
  shows "mt_wf (mark_collected mx a m)" and "chain_addrs (mark_collected mx a m) = chain_addrs m"
    and "node_version (mark_collected mx a m) = node_version m"
    and "versions (mark_collected mx a m) = versions m"
    and "mt_table (mark_collected mx a m) = mt_table m"
    and "mt_cells (mark_collected mx a m) = mt_cells m"
    and "no_abort m \<Longrightarrow> no_abort (mark_collected mx a m)"
    and "b \<noteq> a \<Longrightarrow> mt_heap (mark_collected mx a m) b = mt_heap m b"
proof -
  have "mt_wf (mark_collected mx a m) \<and> chain_addrs (mark_collected mx a m) = chain_addrs m \<and>
      node_version (mark_collected mx a m) = node_version m"
  proof (cases "mt_heap m a")
    case None
    with assms show ?thesis by (simp add: mark_collected_def)
  next
    case (Some n)
    let ?n = "snd (try_set_collected mx n)"
    have nn: "node_next ?n = node_next n" "node_record ?n = node_record n"
      "node_timestamp ?n = node_timestamp n" by (simp_all add: try_set_collected_def)
    note u = node_update_rep [OF assms Some nn(1,2)]
    show ?thesis
      using u Some nn(3) by (simp add: mark_collected_def fun_eq_iff) (simp add: node_version_def)
  qed
  then show "mt_wf (mark_collected mx a m)" "chain_addrs (mark_collected mx a m) = chain_addrs m"
    "node_version (mark_collected mx a m) = node_version m" by auto
  then show "versions (mark_collected mx a m) = versions m" by (simp add: versions_def fun_eq_iff)
  show "mt_table (mark_collected mx a m) = mt_table m"
    "mt_cells (mark_collected mx a m) = mt_cells m"
    by (simp_all add: mark_collected_def split: option.splits)
  show "no_abort m \<Longrightarrow> no_abort (mark_collected mx a m)"
    by (auto simp: mark_collected_def no_abort_def try_set_collected_def split: option.splits)
  show "b \<noteq> a \<Longrightarrow> mt_heap (mark_collected mx a m) b = mt_heap m b"
    by (simp add: mark_collected_def split: option.splits)
qed

text \<open>The nodes a snapshot takes: of every chain the first safe version, if nobody has taken it.\<close>

definition taken :: "timestamp \<Rightarrow> u64 \<Rightarrow> ('k, 'v) memtable \<Rightarrow> 'k \<Rightarrow> nat option" where
  "taken mx age m k = (case find (safe_node mx age m) (chain_addrs m k) of
     None \<Rightarrow> None | Some a \<Rightarrow> if uncollected m a then Some a else None)"

lemma find_mem: "find P xs = Some x \<Longrightarrow> x \<in> set xs \<and> P x"
  by (auto simp: find_Some_iff)

lemma taken_mem: "taken mx age m k = Some a \<Longrightarrow> a \<in> set (chain_addrs m k)"
  by (auto simp: taken_def dest: find_mem split: option.splits if_splits)

lemma snapshot_walk_chain:
  assumes "mt_wf m" and "no_abort m" and "mt_table m k = Some c" and "mt_cells m c = Some p"
  shows "snapshot_walk (walk_fuel m) mx age p m =
    (case taken mx age m k of
       None \<Rightarrow> Inr (None, m)
     | Some a \<Rightarrow> Inr (Some (record_value (snd (node_version m a))), mark_collected mx a m))"
proof -
  have r: "mt_rep m (chain_addrs m)" using assms(1) by (simp add: mt_wf_def)
  have "\<not> is_abort p" using assms(2,4) by (auto simp: no_abort_def)
  with snapshot_walk_list [OF rep_path [OF r assms(3,4)], of "walk_fuel m" mx age]
    rep_length [OF r, of k] assms(2)
  show ?thesis
    by (cases "find (safe_node mx age m) (chain_addrs m k)") (simp_all add: taken_def walk_fuel_def)
qed

definition mark_taken ::
  "timestamp \<Rightarrow> u64 \<Rightarrow> 'k \<Rightarrow> ('k, 'v) memtable \<Rightarrow> ('k, 'v) memtable" where
  "mark_taken mx age k m = (case taken mx age m k of None \<Rightarrow> m | Some a \<Rightarrow> mark_collected mx a m)"

definition imm_taken ::
  "timestamp \<Rightarrow> u64 \<Rightarrow> ('k, 'v) memtable \<Rightarrow> 'k::linorder \<Rightarrow> ('k, 'v) imm_table \<Rightarrow> ('k, 'v) imm_table"
where
  "imm_taken mx age m k imt = (case taken mx age m k of
     None \<Rightarrow> imt | Some a \<Rightarrow> imm_insert k (record_value (snd (node_version m a))) imt)"

lemma mt_snapshot_Cons:
  assumes "mt_wf m" and "no_abort m"
  shows "mt_snapshot mx age (k # ks) m imt =
    mt_snapshot mx age ks (mark_taken mx age k m) (imm_taken mx age m k imt)"
proof (cases "mt_table m k")
  case None
  then have "taken mx age m k = None" by (simp add: taken_def chain_addrs_def)
  with None show ?thesis by (simp add: mark_taken_def imm_taken_def)
next
  case (Some c)
  obtain p where p: "mt_cells m c = Some p"
    using rep_cell [OF assms(1) [unfolded mt_wf_def] Some] by blast
  show ?thesis
    using Some p snapshot_walk_chain [OF assms Some p, of mx age]
    by (cases "taken mx age m k") (simp_all add: load_cell_def mark_taken_def imm_taken_def)
qed

lemma mark_taken_rep:
  assumes "mt_wf m"
  shows "mt_wf (mark_taken mx age k m)" and "chain_addrs (mark_taken mx age k m) = chain_addrs m"
    and "node_version (mark_taken mx age k m) = node_version m"
    and "mt_table (mark_taken mx age k m) = mt_table m"
    and "mt_cells (mark_taken mx age k m) = mt_cells m"
    and "no_abort m \<Longrightarrow> no_abort (mark_taken mx age k m)"
    and "\<lbrakk>a \<in> set (chain_addrs m j); j \<noteq> k\<rbrakk> \<Longrightarrow> mt_heap (mark_taken mx age k m) a = mt_heap m a"
proof -
  note c = mark_collected_rep [OF assms]
  show "mt_wf (mark_taken mx age k m)" "chain_addrs (mark_taken mx age k m) = chain_addrs m"
    "node_version (mark_taken mx age k m) = node_version m"
    "mt_table (mark_taken mx age k m) = mt_table m"
    "mt_cells (mark_taken mx age k m) = mt_cells m"
    "no_abort m \<Longrightarrow> no_abort (mark_taken mx age k m)"
    using assms c by (simp_all add: mark_taken_def split: option.splits)
  show "mt_heap (mark_taken mx age k m) a = mt_heap m a"
    if a: "a \<in> set (chain_addrs m j)" "j \<noteq> k"
  proof (cases "taken mx age m k")
    case (Some b)
    then have "b \<in> set (chain_addrs m k)" by (rule taken_mem)
    then have "a \<noteq> b" using rep_disj [OF assms [unfolded mt_wf_def] a(2)] a(1) by auto
    with Some c(8) show ?thesis by (simp add: mark_taken_def)
  qed (simp add: mark_taken_def)
qed

lemma taken_mark_other:
  assumes "mt_wf m" and "j \<noteq> k"
  shows "taken mx age (mark_taken mx age k m) j = taken mx age m j"
proof -
  note r = mark_taken_rep [OF assms(1), where mx = mx and age = age and k = k]
  have "uncollected (mark_taken mx age k m) a = uncollected m a" if "a \<in> set (chain_addrs m j)" for a
    using r(7) [OF that assms(2)] by (simp add: uncollected_def)
  then show ?thesis
    by (cases "find (safe_node mx age m) (chain_addrs m j)")
       (auto simp: taken_def r(2,3) dest: find_mem)
qed

lemma imm_empty_ordered: "lin.ordered (map fst [])"
  by simp

lemma imm_taken_get:
  "omap_get lin_cmp j (imm_taken mx age m k imt) =
     (if j = k \<and> taken mx age m k \<noteq> None
      then Some (record_value (snd (node_version m (the (taken mx age m k)))))
      else omap_get lin_cmp j imt)"
  if "lin.ordered (map fst imt)"
  using lin.omap_get_insert [OF _ _ that] that
  by (cases "taken mx age m k") (simp_all add: imm_taken_def imm_insert_def)

lemma imm_taken_ordered:
  "lin.ordered (map fst imt) \<Longrightarrow> lin.ordered (map fst (imm_taken mx age m k imt))"
  using lin.ordered_omap_insert [where k = k and m = imt]
  by (cases "taken mx age m k") (simp_all add: imm_taken_def imm_insert_def)

lemma mt_snapshot_result:
  assumes "mt_wf m" and "no_abort m" and "distinct ks" and "lin.ordered (map fst imt)"
  shows "\<exists>imt' m'. mt_snapshot mx age ks m imt = Inr (imt', m') \<and> mt_wf m' \<and> no_abort m' \<and>
    chain_addrs m' = chain_addrs m \<and> node_version m' = node_version m \<and>
    mt_table m' = mt_table m \<and> lin.ordered (map fst imt') \<and>
    (\<forall>k. \<forall>a\<in>set (chain_addrs m k). mt_heap m' a =
       mt_heap (if k \<in> set ks then mark_taken mx age k m else m) a) \<and>
    (\<forall>k. omap_get lin_cmp k imt' = (if k \<in> set ks \<and> taken mx age m k \<noteq> None
       then Some (record_value (snd (node_version m (the (taken mx age m k)))))
       else omap_get lin_cmp k imt))"
  using assms
proof (induction ks arbitrary: m imt)
  case Nil
  then show ?case by simp
next
  case (Cons k ks)
  let ?m = "mark_taken mx age k m" and ?i = "imm_taken mx age m k imt"
  note r = mark_taken_rep [OF Cons.prems(1), where mx = mx and age = age and k = k]
  have "distinct ks" using Cons.prems(3) by simp
  from Cons.IH [OF r(1) r(6) [OF Cons.prems(2)] this
      imm_taken_ordered [OF Cons.prems(4), where mx = mx and age = age and m = m and k = k]]
  obtain imt' m' where *: "mt_snapshot mx age ks ?m ?i = Inr (imt', m')" "mt_wf m'" "no_abort m'"
    "chain_addrs m' = chain_addrs ?m" "node_version m' = node_version ?m"
    "mt_table m' = mt_table ?m" "lin.ordered (map fst imt')"
    "\<forall>j. \<forall>a\<in>set (chain_addrs ?m j). mt_heap m' a =
       mt_heap (if j \<in> set ks then mark_taken mx age j ?m else ?m) a"
    "\<forall>j. omap_get lin_cmp j imt' = (if j \<in> set ks \<and> taken mx age ?m j \<noteq> None
       then Some (record_value (snd (node_version ?m (the (taken mx age ?m j)))))
       else omap_get lin_cmp j ?i)"
    by (elim exE conjE) (rule that)
  have nk: "k \<notin> set ks" using Cons.prems(3) by simp
  have "mt_heap m' a = mt_heap (if j \<in> set (k # ks) then mark_taken mx age j m else m) a"
    if a: "a \<in> set (chain_addrs m j)" for a j
  proof (cases "j = k")
    case True
    with *(8) a nk r(2) show ?thesis by simp
  next
    case False
    have "mt_heap m' a = mt_heap (if j \<in> set ks then mark_taken mx age j ?m else ?m) a"
      using *(8) a r(2) by simp
    also have "\<dots> = mt_heap (if j \<in> set ks then mark_taken mx age j m else m) a"
      using r(7) [OF a False] taken_mark_other [OF Cons.prems(1) False, of mx age]
      by (cases "taken mx age m j")
         (auto simp: mark_taken_def [of _ _ j] mark_collected_def split: option.splits)
    finally show ?thesis using False by simp
  qed
  moreover have "omap_get lin_cmp j imt' = (if j \<in> set (k # ks) \<and> taken mx age m j \<noteq> None
       then Some (record_value (snd (node_version m (the (taken mx age m j)))))
       else omap_get lin_cmp j imt)" for j
    using *(9) nk imm_taken_get [OF Cons.prems(4), of j mx age m k]
      taken_mark_other [OF Cons.prems(1), of j k mx age] r(3) by (cases "j = k") auto
  ultimately show ?case
    using * r mt_snapshot_Cons [OF Cons.prems(1,2)] by simp
qed

section \<open>Garbage collection on lists\<close>

lemma destroy_chain_list:
  "\<lbrakk>path (mt_heap m) p as; length as < fuel\<rbrakk> \<Longrightarrow>
     destroy_chain fuel p m = Inr (m\<lparr>mt_garbage := mt_garbage m @ as\<rparr>)"
proof (induction as arbitrary: p fuel m)
  case Nil
  then show ?case by (cases fuel) auto
next
  case (Cons a as)
  then obtain f n where f: "fuel = Suc f" and n: "mt_heap m a = Some n"
    "path (mt_heap m) (node_next n) as" "ptr_addr p = Some a"
    by (cases fuel) auto
  with Cons show ?case by (simp add: deref_def)
qed

lemma gc_detach_none:
  "\<lbrakk>path (mt_heap m) p as; length as < fuel; \<forall>b\<in>set (tl as). \<not> safe_node mx age m b\<rbrakk> \<Longrightarrow>
     gc_detach fuel mx age p m = Inr m"
proof (induction as arbitrary: p fuel)
  case Nil
  then show ?case by (cases fuel) auto
next
  case (Cons a as)
  then obtain f n where f: "fuel = Suc f" and n: "mt_heap m a = Some n"
    "path (mt_heap m) (node_next n) as" "ptr_addr p = Some a"
    by (cases fuel) auto
  show ?case
  proof (cases as)
    case Nil
    with n f Cons show ?thesis by (simp add: deref_def)
  next
    case (Cons b bs)
    with n obtain n' where n': "mt_heap m b = Some n'" "ptr_addr (node_next n) = Some b" by auto
    have "\<not> safe_node mx age m b" "\<forall>b\<in>set (tl as). \<not> safe_node mx age m b"
      using Cons.prems(3) Cons by auto
    with n n' f Cons.IH [OF n(2), of f] Cons.prems(2) show ?thesis
      by (simp add: deref_def node_version_def)
  qed
qed

lemma gc_detach_cut:
  assumes "path (mt_heap m) p (us @ a # b # ws)" and "length (us @ a # b # ws) < fuel"
    and "length (b # ws) \<le> mt_fresh m" and "\<forall>x\<in>set (tl (us @ [a])). \<not> safe_node mx age m x"
    and "safe_node mx age m b" and "mt_heap m a = Some n"
  shows "gc_detach fuel mx age p m =
    (if collected_by mx m b
     then Inr (m\<lparr>mt_heap := (mt_heap m)(a \<mapsto> n\<lparr>node_next := null_ptr\<rparr>),
       mt_garbage := mt_garbage m @ b # ws\<rparr>)
     else Inr m)"
  using assms
proof (induction us arbitrary: p fuel)
  case Nil
  then obtain f x where f: "fuel = Suc f" and x: "mt_heap m b = Some x" "ptr_addr p = Some a"
    "ptr_addr (node_next n) = Some b" "path (mt_heap m) (node_next n) (b # ws)"
    by (cases fuel) auto
  have sf: "is_version_safe_for_gc (node_timestamp x) mx age"
    using Nil.prems(5) x(1) by (simp add: node_version_def)
  show ?case
  proof (cases "load_collected x = mx")
    case False
    with f x sf Nil.prems(6) show ?thesis by (simp add: deref_def collected_by_def)
  next
    case True
    let ?m = "m\<lparr>mt_heap := (mt_heap m)(a \<mapsto> n\<lparr>node_next := null_ptr\<rparr>)\<rparr>"
    have "a \<notin> set (b # ws)" using path_distinct [OF Nil.prems(1)] by simp
    then have "path (mt_heap ?m) (node_next n) (b # ws)"
      by (intro path_cong [OF x(4)]) auto
    moreover have "length (b # ws) < walk_fuel m" using Nil.prems(3) by (simp add: walk_fuel_def)
    ultimately have "destroy_chain (walk_fuel m) (node_next n) ?m =
        Inr (?m\<lparr>mt_garbage := mt_garbage ?m @ b # ws\<rparr>)"
      by (rule destroy_chain_list)
    with True f x sf Nil.prems(6) show ?thesis
      by (simp add: deref_def collected_by_def del: destroy_chain.simps)
  qed
next
  case (Cons u us)
  then obtain f x where f: "fuel = Suc f" and x: "mt_heap m u = Some x" "ptr_addr p = Some u"
    "path (mt_heap m) (node_next x) (us @ a # b # ws)"
    by (cases fuel) auto
  obtain h hs where hs: "us @ [a] = h # hs" by (cases "us @ [a]") auto
  then have "us @ a # b # ws = h # hs @ b # ws" by (metis append_Cons append_Nil append_assoc)
  with x(3) obtain y where y: "mt_heap m h = Some y" "ptr_addr (node_next x) = Some h" by auto
  have "\<not> safe_node mx age m h" using Cons.prems(4) hs by simp
  then have ns: "\<not> is_version_safe_for_gc (node_timestamp y) mx age" by (simp add: node_version_def y(1))
  have "\<forall>x\<in>set (tl (us @ [a])). \<not> safe_node mx age m x"
    using Cons.prems(4) hs by (metis append_Cons list.sel(3) list.set_sel(2) list.distinct(1))
  with Cons.IH [OF x(3), of f] Cons.prems f
  have "gc_detach f mx age (node_next x) m =
    (if collected_by mx m b
     then Inr (m\<lparr>mt_heap := (mt_heap m)(a \<mapsto> n\<lparr>node_next := null_ptr\<rparr>),
       mt_garbage := mt_garbage m @ b # ws\<rparr>)
     else Inr m)" by simp
  with f x y ns show ?case by (simp add: deref_def)
qed

text \<open>What \<open>gc\<close> leaves of a chain: everything in front of the first version that it has collected,
  provided that version is the first safe one of the chain, or the first safe one behind the head.\<close>

definition gc_keep :: "timestamp \<Rightarrow> u64 \<Rightarrow> ('k, 'v) memtable \<Rightarrow> nat list \<Rightarrow> nat list" where
  "gc_keep mx age m as = (case as of
     [] \<Rightarrow> []
   | a # rest \<Rightarrow>
       if safe_node mx age m a \<and> collected_by mx m a then []
       else (case dropWhile (\<lambda>b. \<not> safe_node mx age m b) rest of
               [] \<Rightarrow> as
             | b # _ \<Rightarrow> if collected_by mx m b
                 then a # takeWhile (\<lambda>b. \<not> safe_node mx age m b) rest else as))"

lemma split_first:
  assumes "dropWhile P rest = b # ws"
  shows "rest = takeWhile P rest @ b # ws" and "\<not> P b"
  using assms takeWhile_dropWhile_id [of P rest] dropWhile_eq_Cons_conv [of P rest b ws] by auto

lemma gc_detach_result:
  fixes mx :: timestamp and age :: u64
  assumes r: "mt_rep m A" and c: "mt_table m k = Some c" and p: "mt_cells m c = Some p"
    and A: "A k = a # rest"
  defines "B \<equiv> (case dropWhile (\<lambda>b. \<not> safe_node mx age m b) rest of
      [] \<Rightarrow> a # rest
    | b # _ \<Rightarrow> if collected_by mx m b
        then a # takeWhile (\<lambda>b. \<not> safe_node mx age m b) rest else a # rest)"
  shows "\<exists>m'. gc_detach (walk_fuel m) mx age p m = Inr m' \<and> mt_rep m' (A(k := B)) \<and>
    mt_cells m' = mt_cells m \<and> mt_table m' = mt_table m \<and> mt_size m' = mt_size m \<and>
    node_version m' = node_version m \<and> collected_by mx m' = collected_by mx m"
proof -
  let ?P = "\<lambda>b. \<not> safe_node mx age m b"
  have path: "path (mt_heap m) p (a # rest)" using rep_path [OF r c p] A by simp
  have len: "length (a # rest) < walk_fuel m" using rep_length [OF r, of k] A by (simp add: walk_fuel_def)
  have same: "A(k := a # rest) = A" using A by (simp add: fun_upd_idem)
  show ?thesis
  proof (cases "dropWhile ?P rest")
    case Nil
    then have "\<forall>b\<in>set (tl (a # rest)). \<not> safe_node mx age m b"
      by (simp add: dropWhile_eq_Nil_conv)
    moreover have "B = a # rest" by (simp only: B_def Nil list.case)
    ultimately show ?thesis using gc_detach_none [OF path len] r same by simp
  next
    case (Cons b ws)
    note sp = split_first [OF Cons]
    define us where "us = butlast (a # takeWhile ?P rest)"
    define l where "l = last (a # takeWhile ?P rest)"
    have ul: "us @ [l] = a # takeWhile ?P rest"
      unfolding us_def l_def by (rule append_butlast_last_id) simp
    have all: "a # rest = us @ l # b # ws" using ul sp(1) by (metis append_Cons append_Nil append_assoc)
    have "\<forall>x\<in>set (tl (us @ [l])). \<not> safe_node mx age m x"
      unfolding ul by (auto dest: set_takeWhileD)
    moreover have path': "path (mt_heap m) p (us @ l # b # ws)" using path all by simp
    moreover have "length (us @ l # b # ws) < walk_fuel m" using len all by simp
    moreover from this have "length (b # ws) \<le> mt_fresh m" by (simp add: walk_fuel_def)
    moreover obtain n where n: "mt_heap m l = Some n" using path_in_dom [OF path'] by auto
    moreover have "safe_node mx age m b" using sp(2) by simp
    ultimately have eq: "gc_detach (walk_fuel m) mx age p m =
      (if collected_by mx m b
       then Inr (m\<lparr>mt_heap := (mt_heap m)(l \<mapsto> n\<lparr>node_next := null_ptr\<rparr>),
         mt_garbage := mt_garbage m @ b # ws\<rparr>)
       else Inr m)" by (intro gc_detach_cut)
    show ?thesis
    proof (cases "collected_by mx m b")
      case False
      with eq Cons r same show ?thesis by (simp add: B_def)
    next
      case True
      let ?m = "m\<lparr>mt_heap := (mt_heap m)(l \<mapsto> n\<lparr>node_next := null_ptr\<rparr>),
         mt_garbage := mt_garbage m @ b # ws\<rparr>"
      have "mt_rep ?m (A(k := us @ [l]))" using cut_rep [OF r _ n] A all by simp
      moreover have "node_version ?m = node_version m"
        using n by (simp add: fun_eq_iff node_version_def)
      moreover have "collected_by mx ?m = collected_by mx m"
        using n by (simp add: fun_eq_iff collected_by_def load_collected_def)
      ultimately show ?thesis using True eq Cons ul by (simp add: B_def)
    qed
  qed
qed

lemma gc_entry_alone:
  assumes wf: "mt_wf m" and live: "\<not> entry_dead m k"
  shows "\<exists>m'. gc_entry id id mx age k (m, tm) = Inr (m', tm) \<and> mt_wf m' \<and>
    chain_addrs m' = (chain_addrs m)(k := gc_keep mx age m (chain_addrs m k)) \<and>
    node_version m' = node_version m \<and> collected_by mx m' = collected_by mx m \<and>
    (\<forall>j. \<not> entry_dead m j \<longrightarrow> \<not> entry_dead m' j)"
proof (cases "mt_table m k")
  case None
  then have "chain_addrs m k = []" by (simp add: chain_addrs_def)
  with None wf show ?thesis by (simp add: gc_entry_def gc_keep_def fun_upd_idem)
next
  case (Some c)
  have r: "mt_rep m (chain_addrs m)" using wf by (simp add: mt_wf_def)
  obtain p where p: "mt_cells m c = Some p" using rep_cell [OF r Some] by blast
  have na: "\<not> is_abort p" using live Some p by (simp add: entry_dead_def)
  note path = rep_path [OF r Some p]
  show ?thesis
  proof (cases "chain_addrs m k")
    case Nil
    with path have "ptr_addr p = None" by simp
    with Some p na wf Nil show ?thesis
      by (simp add: gc_entry_def gc_keep_def fun_upd_idem load_cell_def)
  next
    case (Cons a rest)
    with path obtain n where a: "ptr_addr p = Some a" "mt_heap m a = Some n" by auto
    let ?B = "(case dropWhile (\<lambda>b. \<not> safe_node mx age m b) rest of
      [] \<Rightarrow> a # rest
    | b # _ \<Rightarrow> if collected_by mx m b
        then a # takeWhile (\<lambda>b. \<not> safe_node mx age m b) rest else a # rest)"
    from gc_detach_result [OF r Some p Cons, where mx = mx and age = age] obtain m1 where
      m1: "gc_detach (walk_fuel m) mx age p m = Inr m1" "mt_rep m1 ((chain_addrs m)(k := ?B))"
      "mt_cells m1 = mt_cells m" "mt_table m1 = mt_table m" "mt_size m1 = mt_size m"
      "node_version m1 = node_version m" "collected_by mx m1 = collected_by mx m" by blast
    have ed: "entry_dead m1 j = entry_dead m j" for j by (simp only: entry_dead_def m1(3,4))
    show ?thesis
    proof (cases "safe_node mx age m a \<and> collected_by mx m a")
      case False
      then have "gc_entry id id mx age k (m, tm) = Inr (m1, tm)"
        using Some p na a m1(1)
        by (auto simp: gc_entry_def load_cell_def deref_def node_version_def collected_by_def
            simp del: gc_detach.simps)
      moreover have "chain_addrs m1 = (chain_addrs m)(k := ?B)" using rep_chain [OF m1(2)] by simp
      moreover have "gc_keep mx age m (chain_addrs m k) = ?B"
        using False Cons by (auto simp: gc_keep_def)
      ultimately show ?thesis using rep_wf [OF m1(2)] m1(6,7) ed by simp
    next
      case True
      let ?m2 = "m1\<lparr>mt_cells := (mt_cells m1)(c \<mapsto> abort_ptr p),
        mt_table := (mt_table m1)(k := None), mt_size := mt_size m1 - 1\<rparr>"
      have c1: "mt_table m1 k = Some c" "mt_cells m1 c = Some p" using Some p m1(3,4) by simp_all
      have p1: "path (mt_heap m1) p (((chain_addrs m)(k := ?B)) k)" by (rule rep_path [OF m1(2) c1])
      have "path (mt_heap ?m2) (abort_ptr p) (((chain_addrs m)(k := ?B)) k)"
        using path_addr [OF p1, of "abort_ptr p"] by simp
      moreover have "length (((chain_addrs m)(k := ?B)) k) < walk_fuel ?m2"
        using rep_length [OF m1(2), of k] by (simp add: walk_fuel_def)
      ultimately have d: "destroy_chain (walk_fuel ?m2) (abort_ptr p) ?m2 =
          Inr (?m2\<lparr>mt_garbage := mt_garbage ?m2 @ ((chain_addrs m)(k := ?B)) k\<rparr>)"
        by (rule destroy_chain_list)
      let ?m3 = "?m2\<lparr>mt_garbage := mt_garbage ?m2 @ ((chain_addrs m)(k := ?B)) k\<rparr>"
      have "gc_remove id id k c p (m1, tm) = Inr (?m3, tm)"
        using c1 d by (simp add: gc_remove_def load_cell_def del: destroy_chain.simps fun_upd_apply)
          (simp add: Let_def)
      then have "gc_entry id id mx age k (m, tm) = Inr (?m3, tm)"
        using Some p na a m1(1) True
        by (auto simp: gc_entry_def load_cell_def deref_def node_version_def collected_by_def
            simp del: gc_detach.simps)
      moreover have r3: "mt_rep ?m3 (((chain_addrs m)(k := ?B))(k := []))"
        using remove_entry_rep [OF m1(2) c1(1)] by simp
      moreover have "gc_keep mx age m (chain_addrs m k) = []" using True Cons by (simp add: gc_keep_def)
      moreover have "node_version ?m3 = node_version m1" "collected_by mx ?m3 = collected_by mx m1"
        by (simp_all add: fun_eq_iff node_version_def collected_by_def)
      moreover have "\<not> entry_dead ?m3 j" if "\<not> entry_dead m j" for j
      proof (cases "j = k")
        case False
        then have "mt_table m1 j \<noteq> Some c" using rep_inj [OF m1(2) _ c1(1)] by blast
        with False that ed [of j] show ?thesis
          by (cases "mt_table m1 j") (simp_all add: entry_dead_def)
      qed (simp add: entry_dead_def)
      moreover have "chain_addrs ?m3 = (chain_addrs m)(k := [])" using rep_chain [OF r3] by simp
      ultimately show ?thesis using rep_wf [OF r3] m1(6,7) by simp
    qed
  qed
qed

lemma gc_keep_cong:
  assumes "node_version m' = node_version m" and "collected_by mx m' = collected_by mx m"
  shows "gc_keep mx age m' as = gc_keep mx age m as"
  unfolding gc_keep_def assms ..

lemma mt_gc_alone:
  assumes "mt_wf m" and "\<And>k. \<not> entry_dead m k" and "distinct ks"
  shows "\<exists>m'. mt_gc (\<lambda>_. (id, id)) mx age ks (m, tm) = Inr (m', tm) \<and> mt_wf m' \<and>
    node_version m' = node_version m \<and>
    (\<forall>k. chain_addrs m' k =
       (if k \<in> set ks then gc_keep mx age m (chain_addrs m k) else chain_addrs m k))"
  using assms
proof (induction ks arbitrary: m)
  case Nil
  then show ?case by simp
next
  case (Cons k ks)
  from gc_entry_alone [OF Cons.prems(1,2), where k = k and mx = mx and age = age and tm = tm]
  obtain m1 where m1: "gc_entry id id mx age k (m, tm) = Inr (m1, tm)" "mt_wf m1"
    "chain_addrs m1 = (chain_addrs m)(k := gc_keep mx age m (chain_addrs m k))"
    "node_version m1 = node_version m" "collected_by mx m1 = collected_by mx m"
    "\<forall>j. \<not> entry_dead m j \<longrightarrow> \<not> entry_dead m1 j" by blast
  have "distinct ks" "\<And>j. \<not> entry_dead m1 j" using Cons.prems(2,3) m1(6) by auto
  from Cons.IH [OF m1(2) this(2,1)] obtain m2 where
    m2: "mt_gc (\<lambda>_. (id, id)) mx age ks (m1, tm) = Inr (m2, tm)" "mt_wf m2"
    "node_version m2 = node_version m1"
    "\<forall>j. chain_addrs m2 j =
       (if j \<in> set ks then gc_keep mx age m1 (chain_addrs m1 j) else chain_addrs m1 j)" by blast
  have "chain_addrs m2 j = (if j \<in> set (k # ks) then gc_keep mx age m (chain_addrs m j)
      else chain_addrs m j)" for j
    using m2(4) m1(3) gc_keep_cong [OF m1(4,5)] Cons.prems(3) by (cases "j = k") auto
  moreover have "mt_gc (\<lambda>_. (id, id)) mx age (k # ks) (m, tm) = Inr (m2, tm)"
    using m1(1) m2(1) by (simp only: mt_gc.simps fst_conv snd_conv res_bind_Inr)
  moreover have "node_version m2 = node_version m" using m1(4) m2(3) by simp
  ultimately show ?case using m2(2) by blast
qed

section \<open>A flush loses nothing that a running transaction can see\<close>

lemma safe_normal:
  assumes "ts_type ts = Commit \<and> issued c ts \<or> (\<exists>n. ts = uncommitted n)"
    and "c \<le> ts_limit" and "x < ts_limit"
  shows "is_version_safe_for_gc ts (Timestamp x) age \<longleftrightarrow> ts_type ts = Commit \<and> ts_bits ts < x"
  using assms(1)
proof
  assume ts: "ts_type ts = Commit \<and> issued c ts"
  then have "ts_small ts" using assms(2) issued_small by blast
  moreover have "ts_small (Timestamp x)" using assms(3) by (simp add: ts_small_def)
  ultimately show ?thesis using ts by (simp add: is_version_safe_for_gc_def Let_def ts_lt_small)
next
  assume "\<exists>n. ts = uncommitted n"
  then show ?thesis by (auto simp: is_version_safe_for_gc_def Let_def)
qed

definition lookup :: "u64 \<Rightarrow> 'v version list \<Rightarrow> 'v option option" where
  "lookup n vs = map_option (\<lambda>v. record_value (snd v)) (find (visible n) vs)"

lemma view_lookup: "view n vs = (case lookup n vs of Some r \<Rightarrow> r | None \<Rightarrow> None)"
  unfolding view_def lookup_def by (induction vs) auto

lemma lookup_append:
  "lookup n (vs @ ws) = (case lookup n vs of Some r \<Rightarrow> Some r | None \<Rightarrow> lookup n ws)"
  unfolding lookup_def by (induction vs) auto

lemma load_collected_mark:
  assumes "node_collected n = 0" and "x < 2 ^ 32"
  shows "load_collected (snd (try_set_collected (Timestamp x) n)) = Timestamp x"
  using assms by (simp add: try_set_collected_def load_collected_def ucast_roundtrip_32)

lemma find_split:
  assumes "find P xs = Some b"
  shows "\<exists>us ws. xs = us @ b # ws \<and> (\<forall>u\<in>set us. \<not> P u) \<and> P b"
  using assms
proof (induction xs)
  case (Cons x xs)
  show ?case
  proof (cases "P x")
    case True
    with Cons.prems show ?thesis by (intro exI [of _ "[]"] exI [of _ xs]) simp
  next
    case False
    with Cons obtain us ws where "xs = us @ b # ws" "\<forall>u\<in>set us. \<not> P u" "P b" by auto
    with False show ?thesis by (intro exI [of _ "x # us"] exI [of _ ws]) simp
  qed
qed simp

lemma gc_keep_taken:
  assumes nv: "node_version m1 = node_version m"
    and col: "\<And>a. a \<in> set as \<Longrightarrow> collected_by mx m1 a \<longleftrightarrow> T = Some a"
    and T: "T \<noteq> None \<Longrightarrow> find (safe_node mx age m) as = T"
  shows "gc_keep mx age m1 as =
    (case T of None \<Rightarrow> as | Some b \<Rightarrow> takeWhile (\<lambda>a. \<not> safe_node mx age m a) as)"
proof (cases T)
  case None
  then have "\<not> collected_by mx m1 a" if "a \<in> set as" for a using col [OF that] by simp
  then have "\<And>b ws rest a. \<lbrakk>as = a # rest; dropWhile (\<lambda>b. \<not> safe_node mx age m1 b) rest = b # ws\<rbrakk> \<Longrightarrow>
      \<not> collected_by mx m1 b" using split_first(1) by (metis in_set_conv_decomp list.set_intros(2))
  with None \<open>\<And>a. a \<in> set as \<Longrightarrow> \<not> collected_by mx m1 a\<close> show ?thesis
    by (auto simp: gc_keep_def split: list.splits)
next
  case (Some b)
  with T have "find (safe_node mx age m) as = Some b" by simp
  then obtain us ws where as: "as = us @ b # ws" "\<forall>u\<in>set us. \<not> safe_node mx age m u"
    "safe_node mx age m b" by (auto dest: find_split)
  have cb: "collected_by mx m1 b" using col [of b] Some as(1) by simp
  have tw: "takeWhile (\<lambda>a. \<not> safe_node mx age m a) as = us"
    using as by (simp add: takeWhile_append2)
  show ?thesis
  proof (cases us)
    case Nil
    with as cb tw Some show ?thesis by (simp add: gc_keep_def nv)
  next
    case (Cons u us')
    then have "dropWhile (\<lambda>a. \<not> safe_node mx age m a) (us' @ b # ws) = b # ws"
      "takeWhile (\<lambda>a. \<not> safe_node mx age m a) (us' @ b # ws) = us'"
      using as by (simp_all add: takeWhile_append2 dropWhile_append2)
    with Cons as cb tw Some show ?thesis by (simp add: gc_keep_def nv)
  qed
qed

text \<open>
  C9: a flush loses nothing that a transaction can still read. A snapshot at \<open>min_xip\<close> followed by
  the collection it enables, on a memtable whose lists are well formed and not yet marked by this
  collector, leaves every transaction that started at or after \<open>min_xip\<close> with the value it had: in
  the memtable if one of its visible versions is still there, and in the immutable table if not.
\<close>

theorem flush_keeps_reads:
  assumes wf: "mt_wf m" and na: "no_abort m" and cl: "c \<le> ts_limit"
    and ch: "\<And>k. chain_ok c L (versions m k)"
    and x: "x < ts_limit" "x < 2 ^ 32" and n: "x \<le> n"
    and fresh: "\<And>k a. a \<in> set (chain_addrs m k) \<Longrightarrow> \<not> collected_by (Timestamp x) m a"
    and ks: "distinct ks" "k \<in> set ks"
  shows "\<exists>imt m1 m2. mt_snapshot (Timestamp x) age ks m [] = Inr (imt, m1) \<and>
    mt_gc (\<lambda>_. (id, id)) (Timestamp x) age ks (m1, tm) = Inr (m2, tm) \<and>
    view n (versions m k) =
      (case lookup n (versions m2 k) of Some r \<Rightarrow> r | None \<Rightarrow> imm_get imt k)"
proof -
  let ?mx = "Timestamp x"
  obtain imt m1 where s: "mt_snapshot ?mx age ks m [] = Inr (imt, m1)" "mt_wf m1" "no_abort m1"
    "chain_addrs m1 = chain_addrs m" "node_version m1 = node_version m"
    "\<forall>k. \<forall>a\<in>set (chain_addrs m k). mt_heap m1 a =
       mt_heap (if k \<in> set ks then mark_taken ?mx age k m else m) a"
    "\<forall>k. omap_get lin_cmp k imt = (if k \<in> set ks \<and> taken ?mx age m k \<noteq> None
       then Some (record_value (snd (node_version m (the (taken ?mx age m k)))))
       else omap_get lin_cmp k [])"
    using mt_snapshot_result [OF wf na ks(1) imm_empty_ordered, where mx = ?mx and age = age]
    by (elim exE conjE) (rule that)
  obtain m2 where g: "mt_gc (\<lambda>_. (id, id)) ?mx age ks (m1, tm) = Inr (m2, tm)" "mt_wf m2"
    "node_version m2 = node_version m1"
    "\<forall>k. chain_addrs m2 k =
       (if k \<in> set ks then gc_keep ?mx age m1 (chain_addrs m1 k) else chain_addrs m1 k)"
    using mt_gc_alone [OF s(2) no_abort_live [OF s(3)] ks(1), where mx = ?mx and age = age and tm = tm]
    by blast
  let ?T = "taken ?mx age m k" and ?as = "chain_addrs m k"
  let ?P = "safe_node ?mx age m"
  have col: "collected_by ?mx m1 a \<longleftrightarrow> ?T = Some a" if a: "a \<in> set ?as" for a
  proof -
    have h: "mt_heap m1 a = mt_heap (mark_taken ?mx age k m) a" using s(6) a ks(2) by auto
    obtain y where y: "mt_heap m a = Some y"
      using rep_in_heap [OF wf [unfolded mt_wf_def] a] by blast
    show ?thesis
    proof (cases "?T = Some a")
      case True
      then have "uncollected m a" by (auto simp: taken_def split: option.splits if_splits)
      then have "node_collected y = 0" using y by (simp add: uncollected_def)
      then show ?thesis
        using True h y load_collected_mark [OF _ x(2), of y]
        by (simp add: collected_by_def mark_taken_def mark_collected_def)
    next
      case False
      then have "mt_heap m1 a = mt_heap m a"
        using h mark_collected_rep(8) [OF wf, where mx = ?mx]
        by (cases ?T) (auto simp: mark_taken_def)
      then show ?thesis using False fresh [OF a] by (simp add: collected_by_def)
    qed
  qed
  have T: "?T \<noteq> None \<Longrightarrow> find ?P ?as = ?T"
    by (auto simp: taken_def split: option.splits if_splits)
  have keep: "chain_addrs m2 k = (case ?T of None \<Rightarrow> ?as | Some b \<Rightarrow> takeWhile (\<lambda>a. \<not> ?P a) ?as)"
    using g(4) ks(2) gc_keep_taken [OF s(5) col T] s(4) by simp
  have "view n (versions m k) =
      (case lookup n (versions m2 k) of Some r \<Rightarrow> r | None \<Rightarrow> imm_get imt k)"
  proof (cases ?T)
    case None
    then have "versions m2 k = versions m k" using keep g(3) s(5) by (simp add: versions_def)
    moreover have "imm_get imt k = None" using s(7) None by (simp add: imm_get_def)
    ultimately show ?thesis
      by (cases "lookup n (versions m k)") (simp_all add: view_lookup)
  next
    case (Some b)
    then have "find ?P ?as = Some b" using T by simp
    then obtain us ws where as: "?as = us @ b # ws" "\<forall>u\<in>set us. \<not> ?P u" "?P b"
      by (auto dest: find_split)
    have v2: "versions m2 k = map (node_version m) us"
      using keep Some as g(3) s(5) by (simp add: versions_def takeWhile_append2)
    have v: "versions m k = map (node_version m) us @ node_version m b # map (node_version m) ws"
      by (simp add: versions_def as(1))
    have "node_version m b \<in> set (versions m k)" by (simp add: v)
    from chain_ok_types [OF ch cl this] have
      "ts_type (fst (node_version m b)) = Commit \<and> issued c (fst (node_version m b)) \<or>
       (\<exists>n. fst (node_version m b) = uncommitted n)" by blast
    from safe_normal [OF this cl x(1)] as(3) have "visible n (node_version m b)"
      using n by (auto simp: visible_def)
    then have "lookup n (node_version m b # map (node_version m) ws) =
        Some (record_value (snd (node_version m b)))" by (simp add: lookup_def)
    moreover have "imm_get imt k = record_value (snd (node_version m b))"
      using s(7) Some ks(2) by (simp add: imm_get_def)
    ultimately show ?thesis
      by (simp add: view_lookup v v2 lookup_append split: option.splits)
  qed
  with s(1) g(1) show ?thesis by blast
qed

text \<open>A memtable with one key, committed at 1.\<close>

definition demo_mem :: "(nat, bool) memtable" where
  "demo_mem = \<lparr>mt_heap = [1 \<mapsto> \<lparr>node_timestamp = Timestamp 1, node_collected = 0,
       node_record = Insert True, node_next = null_ptr\<rparr>],
     mt_cells = [0 \<mapsto> VPtr (Some 1) 1], mt_fresh = 2, mt_table = [0 \<mapsto> 0], mt_size = 1,
     mt_garbage = []\<rparr>"

lemma demo_mem_rep: "mt_rep demo_mem (\<lambda>k. if k = 0 then [1] else [])"
  by (rule mt_repI) (auto simp: demo_mem_def split: if_splits)

lemma demo_mem_facts:
  "mt_wf demo_mem" "no_abort demo_mem"
  "chain_addrs demo_mem k = (if k = 0 then [1] else [])"
  "versions demo_mem k = (if k = 0 then [(Timestamp 1, Insert True)] else [])"
  using rep_wf [OF demo_mem_rep] rep_chain [OF demo_mem_rep, symmetric]
    rep_versions [OF demo_mem_rep, of k]
  by (auto simp: no_abort_def demo_mem_def node_version_def)

theorem flush_keeps_reads_witness:
  "\<exists>imt m1 m2. mt_snapshot (Timestamp 2) 0 [0] demo_mem [] = Inr (imt, m1) \<and>
     mt_gc (\<lambda>_. (id, id)) (Timestamp 2) 0 [0] (m1, txn_manager_new) = Inr (m2, txn_manager_new) \<and>
     Some True = (case lookup 2 (versions m2 0) of Some r \<Rightarrow> r | None \<Rightarrow> imm_get imt 0)"
proof -
  have lim: "(2 :: u64) \<le> ts_limit" "(2 :: u64) < ts_limit"
    by (simp_all add: word_le_nat_alt word_less_nat_alt unat_ts_limit)
  have ch: "chain_ok 2 {} (versions demo_mem k)" for k
    by (auto simp: chain_ok_def pending_ok_def commits_ok_def issued_def demo_mem_facts(4))
  have fr: "\<not> collected_by (Timestamp 2) demo_mem a" if "a \<in> set (chain_addrs demo_mem k)" for a k
    using that by (simp add: demo_mem_facts(3) collected_by_def demo_mem_def load_collected_def
        split: if_splits)
  have ty: "ts_type (Timestamp 1) = Commit"
    using ts_small_raw(2) [of "Timestamp 1"]
    by (simp add: ts_small_def word_less_nat_alt unat_ts_limit)
  have "view 2 (versions demo_mem 0) = Some True"
    by (simp add: demo_mem_facts(4) view_def visible_def ty)
  with flush_keeps_reads [OF demo_mem_facts(1,2) lim(1) ch lim(2) _ order_refl fr,
      where ks = "[0]" and k = 0 and age = 0 and tm = txn_manager_new] show ?thesis by simp
qed

section \<open>A writer between the abort pointer and the removal of the entry\<close>

text \<open>The put of a transaction that started after the head of the chain was committed: an abort pointer does not stop it.\<close>

lemma put_on_abort_ptr:
  assumes c: "mt_table m k = Some c" and p: "mt_cells m c = Some p" "ptr_addr p = Some a" "mt_heap m a = Some n"
    and v: "ts_small (node_timestamp n)" "\<not> ts_is_invalid (node_timestamp n)" "ts_small (start_timestamp t)"
      "ts_bits (node_timestamp n) \<le> ts_bits (start_timestamp t)"
  shows "\<exists>t'. mt_put cd [] k x (m, tm) t =
    ((install c TAG_PRESENT ((get_insert_redo t x)\<lparr>node_next := p\<rparr>) m, tm), t', Inr True)"
proof -
  have "ts_type (node_timestamp n) = Commit" using ts_small_raw(2) [OF v(1)] .
  then have "check_ww_conflict tm t (node_timestamp n) = Inr (False, t)"
    using v by (auto simp: check_ww_conflict_def Let_def ts_is_committed_def ts_gt_def ts_cmp_small lin_cmp_def split: if_splits)
  then show ?thesis using c p
    by (simp add: mt_put_def put_entry_def put_attempt_def load_cell_def check_head_def deref_def cas_publish_def
        finish_write_def Let_def split: redo_record.split)
qed

lemma gc_unlink_put:
  assumes r: "mt_rep m A" and c: "mt_table m k = Some c" "mt_cells m c = Some p"
    and put: "e2 (m\<lparr>mt_cells := (mt_cells m)(c \<mapsto> abort_ptr p)\<rparr>, tm) =
      (install c TAG_PRESENT (redo\<lparr>node_next := abort_ptr p\<rparr>) (m\<lparr>mt_cells := (mt_cells m)(c \<mapsto> abort_ptr p)\<rparr>), tm)"
  shows "\<exists>m2. gc_remove id e2 k c p (m, tm) = Inr (m2, tm) \<and> mt_table m2 k = None \<and> mt_fresh m \<in> set (mt_garbage m2)"
proof -
  let ?m1 = "m\<lparr>mt_cells := (mt_cells m)(c \<mapsto> abort_ptr p)\<rparr>"
  let ?redo = "redo\<lparr>node_next := abort_ptr p\<rparr>" and ?f = "mt_fresh m"
  let ?m2 = "install c TAG_PRESENT ?redo ?m1"
  let ?m3 = "?m2\<lparr>mt_table := (mt_table ?m2)(k := None), mt_size := mt_size ?m2 - 1\<rparr>"
  have path: "path (mt_heap m) p (A k)" by (rule rep_path [OF r c])
  have "\<forall>a\<in>set (A k). a \<noteq> ?f" using path_in_dom [OF path] rep_heap_lt [OF r] by blast
  then have "path (mt_heap ?m3) p (A k)" by (intro path_cong [OF path]) (simp add: install_def)
  then have path3: "path (mt_heap ?m3) (abort_ptr p) (A k)" by (rule path_addr) simp_all
  have len: "length (A k) < mt_fresh ?m3" using rep_length [OF r, of k] by (simp add: install_def)
  have "destroy_chain (walk_fuel ?m3) (VPtr (Some ?f) TAG_PRESENT) ?m3 = Inr (?m3\<lparr>mt_garbage := (mt_garbage ?m3 @ [?f]) @ A k\<rparr>)"
    using destroy_chain_list [where m = "?m3\<lparr>mt_garbage := mt_garbage ?m3 @ [?f]\<rparr>" and p = "abort_ptr p", OF _ len] path3
    by (simp add: walk_fuel_def deref_def install_def del: append_assoc)
  then have "gc_remove id e2 k c p (m, tm) = Inr (?m3\<lparr>mt_garbage := (mt_garbage ?m3 @ [?f]) @ A k\<rparr>, tm)"
    using c put by (simp add: gc_remove_def load_cell_def install_def Let_def del: destroy_chain.simps append_assoc)
  then show ?thesis by (auto simp: install_def)
qed

text \<open>
  C26: the abort pointer does not keep writers out. Take any well-formed memtable and a key whose newest version
  the collector has copied and may remove, and any transaction that started at or after \<open>min_xip\<close>. When it puts
  the key between the collector's \<open>compare_exchange\<close> and the removal of the entry, with \<open>s1\<close> the state
  there, the put reports success, because \<open>put\<close> does not look at the abort tag; but afterwards the key
  is not in the memtable, so no transaction finds it there, the writer included, and the new node has been given to
  the epoch collector.
\<close>
theorem gc_can_lose_a_put:
  assumes wf: "mt_wf m" and live: "\<not> entry_dead m k" and chain: "chain_addrs m k = a # rest"
    and old: "ts_small (fst (node_version m a))" "\<not> ts_is_invalid (fst (node_version m a))"
    and gone: "safe_node mx age m a" "collected_by mx m a"
    and writer: "ts_small mx" "ts_small (start_timestamp t)" "ts_bits mx \<le> ts_bits (start_timestamp t)"
  shows "\<exists>s1 s2 t' m2. mt_put cd [] k x s1 t = (s2, t', Inr True) \<and>
    (\<forall>e2. e2 s1 = s2 \<longrightarrow> gc_entry id e2 mx age k (m, tm) = Inr (m2, tm)) \<and>
    (\<forall>reader. mt_get tm m2 reader k = Inr (None, reader)) \<and>
    (\<exists>new node. mt_heap (fst s1) new = None \<and> mt_heap (fst s2) new = Some node \<and> node_record node = Insert x \<and>
       new \<in> set (mt_garbage m2))"
proof -
  have r: "mt_rep m (chain_addrs m)" using wf by (simp add: mt_wf_def)
  obtain c where c: "mt_table m k = Some c" using chain by (cases "mt_table m k") (simp_all add: chain_addrs_def)
  obtain p where p: "mt_cells m c = Some p" using rep_cell [OF r c] by blast
  have na: "\<not> is_abort p" using live c p by (simp add: entry_dead_def)
  obtain n where n: "ptr_addr p = Some a" "mt_heap m a = Some n" using rep_path [OF r c p] chain by auto
  obtain m1 B where m1: "gc_detach (walk_fuel m) mx age p m = Inr m1" "mt_rep m1 B" "mt_cells m1 = mt_cells m"
    "mt_table m1 = mt_table m" "node_version m1 = node_version m" "B k \<noteq> []"
  proof -
    let ?B = "case dropWhile (\<lambda>b. \<not> safe_node mx age m b) rest of [] \<Rightarrow> a # rest
      | b # _ \<Rightarrow> if collected_by mx m b then a # takeWhile (\<lambda>b. \<not> safe_node mx age m b) rest else a # rest"
    have "((chain_addrs m)(k := ?B)) k \<noteq> []" by (simp split: list.split)
    then show ?thesis using that gc_detach_result [OF r c p chain, where mx = mx and age = age] by blast
  qed
  have "path (mt_heap m1) p (B k)" using rep_path [OF m1(2)] c p m1(3,4) by simp
  then obtain n1 where n1: "mt_heap m1 a = Some n1" using m1(6) n(1) by (cases "B k") auto
  have "node_version m1 a = node_version m a" using m1(5) by simp
  then have ts: "node_timestamp n1 = node_timestamp n" using n(2) n1 by (simp add: node_version_def)
  let ?s1 = "(m1\<lparr>mt_cells := (mt_cells m1)(c \<mapsto> abort_ptr p)\<rparr>, tm)"
  have "ts_small (node_timestamp n)" using old(1) n(2) by (simp add: node_version_def)
  then have "ts_lt (node_timestamp n) mx" using gone(1) n(2) ts_small_raw(2) by (simp add: node_version_def is_version_safe_for_gc_def)
  then have le: "ts_bits (node_timestamp n) \<le> ts_bits (start_timestamp t)"
    using \<open>ts_small (node_timestamp n)\<close> writer(1,3) by (simp add: ts_lt_small)
  obtain t' where put: "mt_put cd [] k x ?s1 t =
    ((install c TAG_PRESENT ((get_insert_redo t x)\<lparr>node_next := abort_ptr p\<rparr>) (fst ?s1), tm), t', Inr True)"
    using put_on_abort_ptr [of "fst ?s1" k c "abort_ptr p" a n1 t cd x tm] c n n1 ts m1(4) old writer(2) le
    by (auto simp: node_version_def)
  let ?redo = "(get_insert_redo t x)\<lparr>node_next := abort_ptr p\<rparr>"
  let ?s2 = "(install c TAG_PRESENT ?redo (fst ?s1), tm)"
  have c1: "mt_table m1 k = Some c" "mt_cells m1 c = Some p" using c p m1(3,4) by simp_all
  define env where "env = (\<lambda>_ :: ('a, 'b) shared. ?s2)"
  obtain m2 where m2: "gc_remove id env k c p (m1, tm) = Inr (m2, tm)" "mt_table m2 k = None" "mt_fresh m1 \<in> set (mt_garbage m2)"
    using gc_unlink_put [OF m1(2) c1, of env tm "get_insert_redo t x"] by (auto simp: env_def)
  have "gc_entry id e2 mx age k (m, tm) = Inr (m2, tm)" if "e2 ?s1 = ?s2" for e2
  proof -
    have "gc_remove id e2 k c p (m1, tm) = gc_remove id env k c p (m1, tm)"
      using that c1(2) by (simp add: gc_remove_def load_cell_def env_def)
    then show ?thesis using c p na n m1(1) gone m2(1)
      by (simp add: gc_entry_def load_cell_def deref_def node_version_def collected_by_def del: gc_detach.simps)
  qed
  moreover have "mt_get tm m2 reader k = Inr (None, reader)" for reader :: "('a, 'b) txn"
    using m2(2) by (simp add: mt_get_def)
  moreover have "mt_heap (fst ?s1) (mt_fresh m1) = None" using rep_heap_lt [OF m1(2), of "mt_fresh m1"] by (cases "mt_heap m1 (mt_fresh m1)") auto
  moreover have "mt_heap (fst ?s2) (mt_fresh m1) = Some ?redo" by (simp add: install_def)
  moreover have "node_record ?redo = Insert x" by (simp add: get_insert_redo_def redo_new_insert_def)
  ultimately show ?thesis using put m2(3) by blast
qed

text \<open>Transaction 3 puts key 0 while a collector with \<open>min_xip\<close> 2 removes it.\<close>

theorem gc_can_lose_a_put_witness:
  "\<exists>imt m1 s1 s2 t' m2. mt_snapshot (Timestamp 2) 0 [0] demo_mem [] = Inr (imt, m1) \<and>
     mt_put \<lparr>mtc_key = \<lambda>k. [], mtc_value = \<lambda>v. [], mtc_full = \<lambda>ts r. []\<rparr> [] 0 False s1
       (txn_new Normal (Timestamp 3) (ts_new Uncommitted 3)) = (s2, t', Inr True) \<and>
     gc_entry id (\<lambda>_. s2) (Timestamp 2) 0 0 (m1, txn_manager_new) = Inr (m2, txn_manager_new) \<and>
     mt_get txn_manager_new m2 t' 0 = Inr (None, t')"
proof -
  let ?m1 = "mark_collected (Timestamp 2) 1 demo_mem" and ?w = "txn_new Normal (Timestamp 3) (ts_new Uncommitted 3) :: (nat, bool) txn"
  have ty: "ts_type (Timestamp 1) = Commit" "ts_lt (Timestamp 1) (Timestamp 2)" by code_simp+
  have sn: "mt_snapshot (Timestamp 2) 0 [0] demo_mem [] = Inr ([(0, Some True)], ?m1)"
    by (simp add: demo_mem_def load_cell_def walk_fuel_def deref_def is_version_safe_for_gc_def ty try_set_collected_def
        mark_collected_def imm_insert_def eval_nat_numeral)
  have rep: "mt_rep ?m1 (\<lambda>k. if k = 0 then [1] else [])"
    by (rule mt_repI) (auto simp: mark_collected_def demo_mem_def try_set_collected_def split: if_splits)
  have ch: "chain_addrs ?m1 0 = [1]" using rep_chain [OF rep, symmetric] by simp
  have live: "\<not> entry_dead ?m1 0" by (simp add: entry_dead_def mark_collected_def demo_mem_def)
  have f: "ts_small (fst (node_version ?m1 1))" "\<not> ts_is_invalid (fst (node_version ?m1 1))"
    "is_version_safe_for_gc (fst (node_version ?m1 1)) (Timestamp 2) 0" "ts_small (Timestamp 2)" "ts_small (Timestamp 3)" by code_simp+
  have cl: "collected_by (Timestamp 2) ?m1 1"
    by (simp add: collected_by_def mark_collected_def demo_mem_def try_set_collected_def load_collected_def)
  from gc_can_lose_a_put [OF rep_wf [OF rep] live ch f(1-3) cl f(4), where t = ?w and x = False and tm = txn_manager_new
      and cd = "\<lparr>mtc_key = \<lambda>k. [], mtc_value = \<lambda>v. [], mtc_full = \<lambda>ts r. []\<rparr>"] f(5) sn
  show ?thesis by (fastforce simp: txn_new_def)
qed

end
