(* ===== verification/Database.thy ===== *)
theory Database
  imports Recovery Compaction Txn_Commit Mem_Gc
begin

text \<open>
  The database, \<open>db.rs\<close>: its state, opening, reads and writes, the background flush and the background
  compaction. A lock that the code holds over several calls is a single step here; the flush, which lets
  go of its locks between its phases, is one function for each phase. The thread pool is the list of the
  jobs that were scheduled; whether it takes another job is an argument of the operations that
  schedule one. Locks on directories are not modelled.
\<close>

section \<open>State\<close>

datatype job = FlushJob | CompactionJob

record ('k, 'v, 't, 's) db =
  db_shared :: "('k, 'v) shared"
  db_wal :: wal
  db_ckpt :: checkpoint_manager
  db_vset :: "'k version_set"
  db_collect :: "timestamp list"
  db_imm :: "(timestamp \<times> ('k, 'v) imm_table) list"
  db_disk :: disk
  db_caches :: "'t \<times> 's"
  db_last_flush_size :: u64
  db_flushing_threads :: nat
  db_running_compactions :: nat
  db_jobs :: "job list"

text \<open>What stays the same: options, encodings, and the operations of the caches.\<close>

record ('k, 'v, 'b, 't, 's) db_env =
  de_tables :: "('k, 'v, 'b, 't, 's) table_env"
  de_log :: "'k log_codec"
  de_manifest :: manifest_codec
  de_mem :: "('k, 'v) mt_codec"
  de_options :: db_options

abbreviation de_wire :: "('k, 'v, 'b, 't, 's) db_env \<Rightarrow> wire" where
  "de_wire env \<equiv> te_wire (de_tables env)"

section \<open>Opening\<close>

definition ensure_dir :: "path_object \<Rightarrow> path_object res" where
  "ensure_dir p =
     (case p of
        Missing \<Rightarrow> Inr (Directory [])
      | NotADirectory \<Rightarrow> Inl (Err (WrongObjectType ''exists but is not a directory''))
      | Directory d \<Rightarrow> Inr (Directory d))"

text \<open>The root directory, and in it the storage directory, the log and the manifest.\<close>

record file_system =
  fs_root :: path_object
  fs_storage :: path_object
  fs_wal :: path_object
  fs_manifest :: manifest_path
  fs_disk :: disk

definition init_dirs :: "file_system \<Rightarrow> file_system res" where
  "init_dirs fs =
     res_bind (ensure_dir (fs_root fs)) (\<lambda>root.
     res_bind (ensure_dir (fs_storage fs)) (\<lambda>storage.
       Inr (fs\<lparr>fs_root := root, fs_storage := storage\<rparr>)))"

definition db_open ::
  "('k, 'v, 'b, 'c sharded_cache, 's) db_env \<Rightarrow> (table_file_ref cache_key, 'b table_reader, 'c) lru \<Rightarrow> wal_options
    \<Rightarrow> (nat \<Rightarrow> nat) \<Rightarrow> 's \<Rightarrow> file_system \<Rightarrow> (('k, 'v, 'c sharded_cache, 's) db \<times> file_system) res" where
  "db_open env l wo clock blocks fs =
     res_bind (wal_open (fs_wal fs) wo) (\<lambda>wal.
     res_bind (ckpt_open (de_wire env) (de_manifest env) (clock 3) (fs_manifest fs)) (\<lambda>cm.
     res_bind (table_cache_new l (de_options env)) (\<lambda>tables.
     res_bind (init_dirs fs) (\<lambda>fs1.
     res_bind (startup (de_wire env) (de_log env) (de_manifest env) (de_options env) clock
         (version_set_new (de_options env), wal, cm)) (\<lambda>(vs, wal', cm').
       Inr (\<lparr>db_shared = (memtable_new, txn_manager_new), db_wal = wal', db_ckpt = cm', db_vset = vs,
             db_collect = [], db_imm = [], db_disk = fs_disk fs1, db_caches = (tables, blocks),
             db_last_flush_size = 0, db_flushing_threads = 0, db_running_compactions = 0, db_jobs = []\<rparr>, fs1))))))"

section \<open>Reading\<close>

fun find_imm ::
  "(timestamp \<times> ('k::linorder, 'v) imm_table) list \<Rightarrow> 'k \<Rightarrow> (timestamp \<times> ('k, 'v) imm_table \<times> 'v) option" where
  "find_imm [] key = None"
| "find_imm ((min_xip_val, imt) # rest) key =
     (case imm_get imt key of
        Some v \<Rightarrow> Some (min_xip_val, imt, v)
      | None \<Rightarrow> find_imm rest key)"

definition get_from_storage ::
  "('k::linorder, 'v, 'b, 't, 's) db_env \<Rightarrow> ('k, 'v) txn \<Rightarrow> 'k \<Rightarrow> ('k, 'v, 't, 's) db
    \<Rightarrow> ('v option \<times> ('k, 'v) txn \<times> ('k, 'v, 't, 's) db) res" where
  "get_from_storage env t key db =
     (case find_imm (rev (db_imm db)) key of
        Some (min_xip_val, imt, v) \<Rightarrow> Inr (Some v, ref_imm_table min_xip_val imt t, db)
      | None \<Rightarrow>
          res_bind (version_get (de_tables env) (db_disk db) (vs_current (db_vset db)) key (db_caches db))
            (\<lambda>(found, caches).
               let db' = db\<lparr>db_caches := caches\<rparr>
               in case found of
                    Some v \<Rightarrow> Inr (Some v, txn_record_value v t, db')
                  | None \<Rightarrow> Inr (None, t, db')))"

definition db_get ::
  "('k::linorder, 'v, 'b, 't, 's) db_env \<Rightarrow> ('k, 'v) txn \<Rightarrow> 'k \<Rightarrow> ('k, 'v, 't, 's) db
    \<Rightarrow> ('v option \<times> ('k, 'v) txn \<times> ('k, 'v, 't, 's) db) res" where
  "db_get env t key db =
     (let (_, t1) = take_gc_guard t
      in res_bind (mt_get (snd (db_shared db)) (fst (db_shared db)) t1 key) (\<lambda>(mv, t2).
           case mv of
             Some v \<Rightarrow> Inr (Some v, set_gc_guard t2, db)
           | None \<Rightarrow> get_from_storage env t2 key db))"

section \<open>Writing\<close>

text \<open>The subtraction wraps, as it does in a build without overflow checks.\<close>

definition should_flush :: "db_options \<Rightarrow> ('k, 'v, 't, 's) db \<Rightarrow> bool" where
  "should_flush opt db \<longleftrightarrow>
     write_buffer_size opt < unat (mt_size (fst (db_shared db)) - db_last_flush_size db)"

text \<open>\<open>spawns\<close> tells whether the thread pool takes a job.\<close>

definition schedule :: "bool \<Rightarrow> job \<Rightarrow> ('k, 'v, 't, 's) db \<Rightarrow> ('k, 'v, 't, 's) db res" where
  "schedule spawns j db =
     (if spawns then Inr (db\<lparr>db_jobs := db_jobs db @ [j]\<rparr>)
      else Inl (Err (InvalidState ''failed to spawn threads'')))"

text \<open>
  The loop around \<open>compare_exchange\<close> ends in its first round when no other thread changes
  \<open>last_flush_size\<close> between the load and the exchange, which is how it is modelled.
\<close>

definition flush_memtable ::
  "db_options \<Rightarrow> bool \<Rightarrow> ('k, 'v, 't, 's) db \<Rightarrow> ('k, 'v, 't, 's) db \<times> unit res" where
  "flush_memtable opt spawns db =
     (if \<not> should_flush opt db then (db, Inr ())
      else let db1 = db\<lparr>db_last_flush_size := mt_size (fst (db_shared db))\<rparr>
           in if max_background_flushes opt \<le> db_flushing_threads db1 then (db1, Inr ())
              else (case schedule spawns FlushJob db1 of
                      Inl e \<Rightarrow> (db1, Inl e)
                    | Inr db2 \<Rightarrow> (db2\<lparr>db_flushing_threads := db_flushing_threads db2 + 1\<rparr>, Inr ())))"

definition make_room_for_write ::
  "db_options \<Rightarrow> bool \<Rightarrow> ('k, 'v, 't, 's) db \<Rightarrow> ('k, 'v, 't, 's) db \<times> unit res" where
  "make_room_for_write opt spawns db = (if should_flush opt db then flush_memtable opt spawns db else (db, Inr ()))"

text \<open>\<open>envs\<close> is what other threads do to the memtable during the operation.\<close>

definition db_put ::
  "('k, 'v, 'b, 't, 's) db_env \<Rightarrow> bool \<Rightarrow> ('k, 'v) env list \<Rightarrow> ('k, 'v) txn \<Rightarrow> 'k \<Rightarrow> 'v \<Rightarrow> ('k, 'v, 't, 's) db
    \<Rightarrow> ('k, 'v, 't, 's) db \<times> ('k, 'v) txn \<times> bool res" where
  "db_put env spawns envs t key v db =
     (case make_room_for_write (de_options env) spawns db of
        (db1, Inl e) \<Rightarrow> (db1, t, Inl e)
      | (db1, Inr _) \<Rightarrow>
          let (s, t', r) = mt_put (de_mem env) envs key v (db_shared db1) t
          in (db1\<lparr>db_shared := s\<rparr>, t', r))"

definition db_update ::
  "('k::linorder, 'v, 'b, 't, 's) db_env \<Rightarrow> bool \<Rightarrow> ('k, 'v) env list \<Rightarrow> ('k, 'v) txn \<Rightarrow> 'k \<Rightarrow> ('v \<Rightarrow> 'v)
    \<Rightarrow> ('k, 'v, 't, 's) db \<Rightarrow> ('k, 'v, 't, 's) db \<times> ('k, 'v) txn \<times> bool res" where
  "db_update env spawns envs t key f db =
     (case make_room_for_write (de_options env) spawns db of
        (db1, Inl e) \<Rightarrow> (db1, t, Inl e)
      | (db1, Inr _) \<Rightarrow>
          let (s, t1, r) = mt_update (de_mem env) envs key f (db_shared db1) t;
              db2 = db1\<lparr>db_shared := s\<rparr>
          in case r of
               Inr False \<Rightarrow>
                 (case get_from_storage env t1 key db2 of
                    Inl e \<Rightarrow> (db2, t1, Inl e)
                  | Inr (None, t2, db3) \<Rightarrow> (db3, t2, Inr False)
                  | Inr (Some value, t2, db3) \<Rightarrow> db_put env spawns envs t2 key (f value) db3)
             | _ \<Rightarrow> (db2, t1, r))"

definition db_delete ::
  "('k, 'v, 'b, 't, 's) db_env \<Rightarrow> ('k, 'v) env list \<Rightarrow> ('k, 'v) txn \<Rightarrow> 'k \<Rightarrow> ('k, 'v, 't, 's) db
    \<Rightarrow> ('k, 'v, 't, 's) db \<times> ('k, 'v) txn \<times> bool res" where
  "db_delete env envs t key db =
     (let (s, t', r) = mt_delete (de_mem env) envs key (db_shared db) t in (db\<lparr>db_shared := s\<rparr>, t', r))"

section \<open>Transactions\<close>

definition db_start_transaction ::
  "transaction_mode \<Rightarrow> ('k, 'v, 't, 's) db \<Rightarrow> ('k, 'v) txn \<times> ('k, 'v, 't, 's) db" where
  "db_start_transaction mode db =
     (let (t, tm) = start_transaction mode (snd (db_shared db))
      in (t, db\<lparr>db_shared := (fst (db_shared db), tm)\<rparr>))"

text \<open>After an error of the log the model keeps the log as it was before.\<close>

definition db_commit ::
  "('k, 'v, 'b, 't, 's) db_env \<Rightarrow> ('k, 'v) txn \<Rightarrow> ('k, 'v, 't, 's) db \<Rightarrow> (('k, 'v, 't, 's) db \<times> unit res) res" where
  "db_commit env t db =
     res_bind (tm_commit (de_wire env) (de_log env) t (db_shared db, db_wal db)) (\<lambda>(s, logged).
       Inr (case logged of
              Inl e \<Rightarrow> (db\<lparr>db_shared := s\<rparr>, Inl e)
            | Inr wal \<Rightarrow> (db\<lparr>db_shared := s, db_wal := wal\<rparr>, Inr ())))"

definition db_abort ::
  "('k, 'v, 'b, 't, 's) db_env \<Rightarrow> ('k, 'v) txn \<Rightarrow> ('k, 'v, 't, 's) db \<Rightarrow> (('k, 'v, 't, 's) db \<times> unit res) res" where
  "db_abort env t db =
     res_bind (tm_abort (de_wire env) (de_log env) t (db_shared db, db_wal db)) (\<lambda>(s, logged).
       Inr (case logged of
              Inl e \<Rightarrow> (db\<lparr>db_shared := s\<rparr>, Inl e)
            | Inr wal \<Rightarrow> (db\<lparr>db_shared := s, db_wal := wal\<rparr>, Inr ())))"

section \<open>Compaction\<close>

definition schedule_compaction ::
  "db_options \<Rightarrow> bool \<Rightarrow> ('k, 'v, 't, 's) db \<Rightarrow> ('k, 'v, 't, 's) db \<times> unit res" where
  "schedule_compaction opt spawns db =
     (if max_background_compactions opt \<le> db_running_compactions db then (db, Inr ())
      else (case schedule spawns CompactionJob db of
              Inl e \<Rightarrow> (db, Inl e)
            | Inr db1 \<Rightarrow> (db1\<lparr>db_running_compactions := db_running_compactions db1 + 1\<rparr>, Inr ())))"

definition start_compaction ::
  "nat \<Rightarrow> ('k::linorder, 'v, 'b, 't, 's) db_env \<Rightarrow> nat \<Rightarrow> bool \<Rightarrow> 'k compaction \<Rightarrow> ('k, 'v, 't, 's) db
    \<Rightarrow> ('k, 'v, 't, 's) db res" where
  "start_compaction fuel env now spawns c db =
     res_bind (run_compaction fuel (de_tables env) (de_options env) c (db_vset db) (db_disk db) (db_caches db))
       (\<lambda>(c', vs, disk, caches).
     res_bind (finalize_compaction (de_wire env) (de_log env) (de_manifest env) (de_options env) now c'
         (vs, db_wal db, db_ckpt db)) (\<lambda>(vs', wal, cm).
       let (db', r) = schedule_compaction (de_options env) spawns
             (db\<lparr>db_vset := vs', db_wal := wal, db_ckpt := cm, db_disk := disk, db_caches := caches\<rparr>)
       in res_bind r (\<lambda>_. Inr db')))"

text \<open>\<open>unwrap\<close> turns an error into a panic.\<close>

definition unwrap_res :: "'a res \<Rightarrow> 'a res" where
  "unwrap_res r = (case r of Inl (Err e) \<Rightarrow> Inl (Panic ''called Result::unwrap() on an Err value'') | _ \<Rightarrow> r)"

definition background_compaction ::
  "nat \<Rightarrow> ('k::linorder, 'v, 'b, 't, 's) db_env \<Rightarrow> nat \<Rightarrow> bool \<Rightarrow> ('k, 'v, 't, 's) db
    \<Rightarrow> ('k, 'v, 't, 's) db res" where
  "background_compaction fuel env now spawns db =
     res_bind (unwrap_res (pick_compaction (de_options env) (db_vset db))) (\<lambda>(picked, vs).
     res_bind (case picked of
                 None \<Rightarrow> Inr (db\<lparr>db_vset := vs\<rparr>)
               | Some c \<Rightarrow> unwrap_res (start_compaction fuel env now spawns c (db\<lparr>db_vset := vs\<rparr>))) (\<lambda>db1.
       if db_running_compactions db1 = 0 then Inl (Panic ''assertion failed: old_count > 0'')
       else Inr (db1\<lparr>db_running_compactions := db_running_compactions db1 - 1\<rparr>)))"

text \<open>The condition of the loop in \<open>wait_for_compaction\<close>, and so of \<open>shutdown\<close>, which only waits.\<close>

definition compaction_pending :: "('k, 'v, 't, 's) db \<Rightarrow> bool" where
  "compaction_pending db \<longleftrightarrow> 0 < db_flushing_threads db \<or> 0 < db_running_compactions db"

section \<open>Background flush\<close>

text \<open>The minimum of the running transactions; when none runs, one is started to ask for it.\<close>

definition flush_min_xip ::
  "('k, 'v, 'b, 't, 's) db_env \<Rightarrow> ('k, 'v, 't, 's) db \<Rightarrow> (timestamp \<times> ('k, 'v, 't, 's) db) res" where
  "flush_min_xip env db =
     (case min_xip (snd (db_shared db)) of
        (Some x, tm) \<Rightarrow> Inr (x, db\<lparr>db_shared := (fst (db_shared db), tm)\<rparr>)
      | (None, tm) \<Rightarrow>
          res_bind (exec_transaction (de_wire env) (de_log env)
              (\<lambda>s t. case min_xip (snd s) of
                 (Some x, tm') \<Rightarrow> ((fst s, tm'), t, Inr x)
               | (None, tm') \<Rightarrow> ((fst s, tm'), t, Inl (Panic ''called Option::unwrap() on a None value'')))
              ((fst (db_shared db), tm), db_wal db)) (\<lambda>(s, logged, r).
          res_bind (unwrap_res r) (\<lambda>x.
            Inr (x, db\<lparr>db_shared := s, db_wal := (case logged of Inl _ \<Rightarrow> db_wal db | Inr wal \<Rightarrow> wal)\<rparr>))))"

text \<open>A flush that gives up.\<close>

definition flush_leave :: "('k, 'v, 't, 's) db \<Rightarrow> ('k, 'v, 't, 's) db" where
  "flush_leave db = db\<lparr>db_flushing_threads := db_flushing_threads db - 1\<rparr>"

text \<open>
  Phase 1. The flush takes its place in the set of collectors, unless there is one with its minimum,
  and copies what is old enough from the memtable; \<open>ks\<close> is the order of the iteration over the table.
\<close>

definition flush_enter ::
  "timestamp \<Rightarrow> log_pointer \<Rightarrow> ('k, 'v, 't, 's) db \<Rightarrow> (timestamp \<times> log_pointer) option \<times> ('k, 'v, 't, 's) db" where
  "flush_enter mx min_recovery_point db =
     (if oset_contains ts_cmp mx (db_collect db) then (None, flush_leave db)
      else (Some (mx, min_recovery_point), db\<lparr>db_collect := oset_insert ts_cmp mx (db_collect db)\<rparr>))"

definition flush_register ::
  "('k, 'v, 'b, 't, 's) db_env \<Rightarrow> ('k, 'v, 't, 's) db
    \<Rightarrow> ((timestamp \<times> log_pointer) option \<times> ('k, 'v, 't, 's) db) res" where
  "flush_register env db =
     (let min_recovery_point = wal_current_lsn (db_wal db)
      in res_bind (flush_min_xip env db) (\<lambda>(mx, db1). Inr (flush_enter mx min_recovery_point db1)))"

definition flush_collect ::
  "db_options \<Rightarrow> 'k::linorder list \<Rightarrow> timestamp \<Rightarrow> ('k, 'v, 't, 's) db
    \<Rightarrow> (('k, 'v) imm_table option \<times> ('k, 'v, 't, 's) db) res" where
  "flush_collect opt ks mx db =
     res_bind (mt_snapshot mx (of_nat (gc_freeze_min_age opt)) ks (fst (db_shared db)) []) (\<lambda>(imt, m).
       let db1 = db\<lparr>db_shared := (m, snd (db_shared db))\<rparr>
       in if imm_size imt < write_buffer_size opt div 2
          then Inr (None, flush_leave (db1\<lparr>db_collect := oset_remove ts_cmp mx (db_collect db1)\<rparr>))
          else Inr (Some imt, db1))"

text \<open>
  Rendezvous 1: the collectors publish their tables in the order of their minima. The result is False when the
  flush has to wait; how it waits, and who wakes it, is in \<open>Flush_Protocol\<close>.
\<close>

definition flush_publish ::
  "timestamp \<Rightarrow> ('k, 'v) imm_table \<Rightarrow> ('k, 'v, 't, 's) db \<Rightarrow> (bool \<times> ('k, 'v, 't, 's) db) res" where
  "flush_publish mx imt db =
     (case oset_first (db_collect db) of
        None \<Rightarrow> Inl (Panic ''called Option::unwrap() on a None value'')
      | Some min_collect \<Rightarrow>
          if min_collect \<noteq> mx then Inr (False, db)
          else (case omap_get ts_cmp mx (db_imm db) of
                  Some _ \<Rightarrow> Inl (Panic ''internal error: entered unreachable code'')
                | None \<Rightarrow> Inr (True, db\<lparr>db_collect := oset_remove ts_cmp mx (db_collect db),
                                        db_imm := omap_insert ts_cmp mx imt (db_imm db)\<rparr>)))"

text \<open>Phase 2: collect the garbage, take over the size, write the table file.\<close>

definition flush_cleanup ::
  "db_options \<Rightarrow> ('k \<Rightarrow> ('k, 'v) env \<times> ('k, 'v) env) \<Rightarrow> 'k list \<Rightarrow> timestamp \<Rightarrow> ('k, 'v, 't, 's) db
    \<Rightarrow> ('k, 'v, 't, 's) db res" where
  "flush_cleanup opt envs ks mx db =
     res_bind (mt_gc envs mx (of_nat (gc_freeze_min_age opt)) ks (db_shared db)) (\<lambda>s.
       Inr (db\<lparr>db_shared := s, db_last_flush_size := mt_size (fst s)\<rparr>))"

fun add_imm ::
  "wire \<Rightarrow> ('k, 'v) table_codec \<Rightarrow> ('k \<times> 'v option) list \<Rightarrow> ('k, 'b) table_builder
    \<Rightarrow> ('k, 'b) table_builder res" where
  "add_imm w c [] tb = Inr tb"
| "add_imm w c ((key, Some v) # rest) tb = res_bind (table_add w c key v tb) (add_imm w c rest)"
| "add_imm w c ((key, None) # rest) tb = add_imm w c rest tb"

definition write_level0_table ::
  "('k, 'v, 'b, 't, 's) db_env \<Rightarrow> ('k, 'v) imm_table \<Rightarrow> timestamp \<Rightarrow> ('k, 'v, 't, 's) db
    \<Rightarrow> ('k table_file_meta \<times> ('k, 'v, 't, 's) db) res" where
  "write_level0_table env imm mx db =
     (if \<not> 0 < imm_size imm then Inl (Panic ''assertion failed: imm.size() > 0'')
      else let (num, vs) = new_file_number (db_vset db);
               r = TableFileRef 0 num;
               w = de_wire env; c = te_codec (de_tables env)
           in res_bind (add_imm w c (imm_iter imm) (table_builder_new (te_options (de_tables env)))) (\<lambda>tb.
              res_bind (table_finish w c tb) (\<lambda>tb'.
                let contents = overwrite (db_disk db r) (tb_out tb')
                in Inr (table_file_meta_new r (length contents) mx (fst (hd (imm_iter imm))) (fst (last (imm_iter imm))),
                        db\<lparr>db_vset := vs, db_disk := (db_disk db)(r \<mapsto> contents)\<rparr>))))"

text \<open>Rendezvous 2: the tables get into the version in the order of their minima, with the result of the first one.\<close>

definition flush_install ::
  "('k::linorder, 'v, 'b, 't, 's) db_env \<Rightarrow> nat \<Rightarrow> timestamp \<Rightarrow> log_pointer \<Rightarrow> 'k table_file_meta \<Rightarrow> ('k, 'v, 't, 's) db
    \<Rightarrow> (bool \<times> ('k, 'v, 't, 's) db) res" where
  "flush_install env now mx min_recovery_point f db =
     (case db_imm db of
        [] \<Rightarrow> Inl (Panic ''called Option::unwrap() on a None value'')
      | (min_flush, _) # _ \<Rightarrow>
          if min_flush \<noteq> mx then Inr (False, db)
          else let ve = add_file 0 f (set_min_xip mx version_edit_new)
               in res_bind (unwrap_res (log_and_apply (de_wire env) (de_log env) (de_manifest env) (de_options env) now ve
                      min_recovery_point (db_vset db, db_wal db, db_ckpt db))) (\<lambda>(vs, wal, cm).
                  Inr (True, db\<lparr>db_vset := vs, db_wal := wal, db_ckpt := cm,
                                db_imm := omap_remove ts_cmp mx (db_imm db)\<rparr>)))"

definition flush_finish :: "db_options \<Rightarrow> bool \<Rightarrow> ('k, 'v, 't, 's) db \<Rightarrow> ('k, 'v, 't, 's) db res" where
  "flush_finish opt spawns db =
     (let (db1, r) = schedule_compaction opt spawns db
      in res_bind (unwrap_res r) (\<lambda>_.
           if db_flushing_threads db1 = 0 then Inl (Panic ''assertion failed: old_count > 0'')
           else Inr (db1\<lparr>db_flushing_threads := db_flushing_threads db1 - 1\<rparr>)))"

text \<open>The whole flush when it runs alone: a flush that has to wait then waits for ever.\<close>

definition background_flush ::
  "('k::linorder, 'v, 'b, 't, 's) db_env \<Rightarrow> ('k \<Rightarrow> ('k, 'v) env \<times> ('k, 'v) env) \<Rightarrow> 'k list \<Rightarrow> nat \<Rightarrow> bool
    \<Rightarrow> ('k, 'v, 't, 's) db \<Rightarrow> ('k, 'v, 't, 's) db res" where
  "background_flush env envs ks now spawns db =
     res_bind (flush_register env db) (\<lambda>(reg, db1).
       case reg of
         None \<Rightarrow> Inr db1
       | Some (mx, min_recovery_point) \<Rightarrow>
           res_bind (flush_collect (de_options env) ks mx db1) (\<lambda>(imt, db2).
             case imt of
               None \<Rightarrow> Inr db2
             | Some imt \<Rightarrow>
                 res_bind (flush_publish mx imt db2) (\<lambda>(passed1, db3).
                 if \<not> passed1 then Inl Diverges
                 else res_bind (flush_cleanup (de_options env) envs ks mx db3) (\<lambda>db4.
                      res_bind (unwrap_res (write_level0_table env imt mx db4)) (\<lambda>(f, db5).
                      res_bind (flush_install env now mx min_recovery_point f db5) (\<lambda>(passed2, db6).
                      if \<not> passed2 then Inl Diverges
                      else flush_finish (de_options env) spawns db6))))))"

end
