(* ===== verification/Flush.thy ===== *)
theory Flush
  imports Database
begin

text \<open>
  What a reader gets from the database and why flushing does not change it. A read looks at the
  memtable, then at the immutable tables from the newest to the oldest, then at the table files of the current version;
  \<open>storage_entries\<close> lists what is below the memtable in this order. Writing the oldest immutable table
  to a level-0 file and installing it in the version moves its entries from the end of the one to the beginning of
  the other.
\<close>

section \<open>Lookups in a store\<close>

context table_store begin

lemma store_at_mono: "\<lbrakk>store_at levels ents R disk v k st; j \<le> k\<rbrakk> \<Longrightarrow> store_at levels ents R disk v j st"
  unfolding store_at_def using room_mono by blast

end

lemma store_ok_mono:
  assumes s: "store_ok env bview good next_id tview tgood levels ents R disk v k st" and "j \<le> k"
  shows "store_ok env bview good next_id tview tgood levels ents R disk v j st"
proof -
  have t: "table_store env bview good next_id tview tgood" using s by (simp add: store_ok_def)
  show ?thesis
    using table_store.store_at_mono [OF t] assms by (simp add: table_store.store_ok_iff [OF t])
qed

lemma store_lookup:
  assumes s: "store_ok env bview good next_id tview tgood levels ents R disk v (length (concat (v_files v)) + k) st"
  shows "\<exists>st'. version_get env disk v key st = Inr (map_of (version_entries ents v) key, st') \<and>
    store_ok env bview good next_id tview tgood levels ents R disk v k st'"
proof -
  have t: "table_store env bview good next_id tview tgood" using s by (simp add: store_ok_def)
  show ?thesis
    using table_store.store_get [OF t] s by (simp add: table_store.store_ok_iff [OF t])
qed

section \<open>What is below the memtable\<close>

definition imm_entries :: "('k, 'v) imm_table \<Rightarrow> ('k \<times> 'v) list" where
  "imm_entries imt = concat (map (\<lambda>(k, v). case v of Some x \<Rightarrow> [(k, x)] | None \<Rightarrow> []) imt)"

definition imm_sorted :: "('k::linorder, 'v) imm_table \<Rightarrow> bool" where
  "imm_sorted imt \<longleftrightarrow> sorted_wrt (<) (map fst imt)"

definition storage_entries ::
  "(table_file_ref \<Rightarrow> ('k \<times> 'v) list) \<Rightarrow> (timestamp \<times> ('k, 'v) imm_table) list \<Rightarrow> 'k Version.version \<Rightarrow> ('k \<times> 'v) list" where
  "storage_entries ents imm v = concat (map (imm_entries \<circ> snd) (rev imm)) @ version_entries ents v"

text \<open>The tables a flush takes from the memtable are sorted.\<close>

lemma snapshot_sorted:
  assumes "mt_wf m" "no_abort m" "distinct ks" "mt_snapshot mx age ks m [] = Inr (imt, m')"
  shows "imm_sorted imt"
  using mt_snapshot_result [OF assms(1-3) imm_empty_ordered, of mx age] assms(4)
  by (auto simp: imm_sorted_def lin.ordered_def)

lemma imm_entries_simps [simp]:
  "imm_entries [] = []" "imm_entries ((k, Some x) # imt) = (k, x) # imm_entries imt"
  "imm_entries ((k, None) # imt) = imm_entries imt"
  by (simp_all add: imm_entries_def)

lemma imm_entries_keys: "kv \<in> set (imm_entries imt) \<Longrightarrow> fst kv \<in> fst ` set imt"
  by (force simp: imm_entries_def split: option.splits)

lemma imm_entries_sorted: "imm_sorted imt \<Longrightarrow> sorted_wrt (<) (map fst (imm_entries imt))"
proof (induction imt)
  case (Cons p imt)
  obtain k v where p: "p = (k, v)" by (cases p)
  have "\<forall>kv\<in>set (imm_entries imt). k < fst kv"
    using Cons.prems imm_entries_keys by (fastforce simp: imm_sorted_def p)
  then show ?case using Cons by (cases v) (auto simp: imm_sorted_def p)
qed simp

lemma imm_get_map_of: "imm_sorted imt \<Longrightarrow> imm_get imt key = map_of (imm_entries imt) key"
proof (induction imt)
  case Nil
  then show ?case by (simp add: imm_get_def)
next
  case (Cons p imt)
  obtain k v where p: "p = (k, v)" by (cases p)
  have s: "imm_sorted imt" "\<forall>x\<in>set imt. k < fst x" using Cons.prems by (auto simp: imm_sorted_def p)
  have none: "map_of (imm_entries imt) key = None" if "key \<le> k"
    using that s(2) imm_entries_keys by (fastforce simp: map_of_eq_None_iff)
  show ?case
  proof (cases key k rule: linorder_cases)
    case less
    then show ?thesis using none by (cases v) (simp_all add: p imm_get_def lin_cmp_def)
  next
    case equal
    then show ?thesis using none by (cases v) (simp_all add: p imm_get_def lin_cmp_def)
  next
    case greater
    then have "imm_get (p # imt) key = imm_get imt key" by (auto simp: p imm_get_def lin_cmp_def)
    moreover have "map_of (imm_entries (p # imt)) key = map_of (imm_entries imt) key"
      using greater by (cases v) (auto simp: p)
    ultimately show ?thesis using Cons.IH [OF s(1)] by simp
  qed
qed

lemma find_imm_map_of:
  "\<forall>p\<in>set imm. imm_sorted (snd p) \<Longrightarrow>
    map_option (snd \<circ> snd) (find_imm imm key) = map_of (concat (map (imm_entries \<circ> snd) imm)) key"
proof (induction imm)
  case (Cons p imm)
  obtain x imt where p: "p = (x, imt)" by (cases p)
  show ?case using Cons imm_get_map_of [of imt key] by (simp add: p map_add_def split: option.splits)
qed simp

lemma imm_entries_range:
  assumes "imm_sorted imt" "kv \<in> set (imm_entries imt)"
  shows "fst (hd imt) \<le> fst kv" "fst kv \<le> fst (last imt)"
proof -
  obtain x where x: "x \<in> set imt" "fst x = fst kv" using imm_entries_keys [OF assms(2)] by (metis imageE)
  show "fst (hd imt) \<le> fst kv"
    using assms(1) x by (cases imt) (auto simp: imm_sorted_def intro: less_imp_le)
  have "imt \<noteq> []" using x(1) by auto
  then have "imt = butlast imt @ [last imt]" by simp
  then obtain a l where a: "imt = a @ [l]" by blast
  then have "x \<in> set a \<or> x = l" "\<forall>y\<in>set a. fst y < fst l"
    using assms(1) x(1) by (auto simp: imm_sorted_def sorted_wrt_append)
  then show "fst kv \<le> fst (last imt)" using x(2) unfolding a by (auto intro: less_imp_le)
qed

text \<open>A read below the memtable is a lookup in these entries.\<close>

lemma get_from_storage_lookup:
  assumes s: "store_ok (de_tables env) bview good next_id tview tgood levels ents R (db_disk db) (vs_current (db_vset db))
      (length (concat (v_files (vs_current (db_vset db)))) + k) (db_caches db)"
    and i: "\<forall>p\<in>set (db_imm db). imm_sorted (snd p)"
  shows "\<exists>t' caches. get_from_storage env t key db =
      Inr (map_of (storage_entries ents (db_imm db) (vs_current (db_vset db))) key, t', db\<lparr>db_caches := caches\<rparr>) \<and>
    store_ok (de_tables env) bview good next_id tview tgood levels ents R (db_disk db) (vs_current (db_vset db)) k caches"
proof (cases "find_imm (rev (db_imm db)) key")
  case None
  then have none: "map_of (concat (map (imm_entries \<circ> snd) (rev (db_imm db)))) key = None"
    using find_imm_map_of [of "rev (db_imm db)" key] i by simp
  obtain st' where "version_get (de_tables env) (db_disk db) (vs_current (db_vset db)) key (db_caches db) =
      Inr (map_of (version_entries ents (vs_current (db_vset db))) key, st')"
    "store_ok (de_tables env) bview good next_id tview tgood levels ents R (db_disk db) (vs_current (db_vset db)) k st'"
    using store_lookup [OF s] by blast
  moreover from this(1) have "\<exists>t'. get_from_storage env t key db =
      Inr (map_of (storage_entries ents (db_imm db) (vs_current (db_vset db))) key, t', db\<lparr>db_caches := st'\<rparr>)"
    using None none by (cases "map_of (version_entries ents (vs_current (db_vset db))) key")
      (simp_all add: get_from_storage_def storage_entries_def map_add_def Let_def)
  ultimately show ?thesis by blast
next
  case (Some p)
  then obtain x imt v where p: "p = (x, imt, v)" by (metis prod.exhaust)
  have "map_of (concat (map (imm_entries \<circ> snd) (rev (db_imm db)))) key = Some v"
    using find_imm_map_of [of "rev (db_imm db)" key] i Some by (simp add: p)
  then have "\<exists>t'. get_from_storage env t key db =
      Inr (map_of (storage_entries ents (db_imm db) (vs_current (db_vset db))) key, t', db\<lparr>db_caches := db_caches db\<rparr>)"
    using Some by (simp add: get_from_storage_def p storage_entries_def map_add_def)
  then show ?thesis using store_ok_mono [OF s, of k] by fastforce
qed

section \<open>A new file on level 0\<close>

lemma merge_first: "\<forall>b\<in>set bs. cmp a b = Less \<Longrightarrow> merge_iters cmp [a] bs = a # bs"
  by (cases bs) simp_all

text \<open>The file of the newest flush is put before the others.\<close>

lemma level0_edit:
  fixes v :: "'k::linorder Version.version"
  assumes v: "version_ok (num_levels opt) v" "0 < num_levels opt"
    and f: "file_ok 0 f" "file_ref f \<notin> file_ref ` set (v_files v ! 0)"
    and newest: "\<forall>g\<in>set (v_files v ! 0). ts_bits (file_min_xip g) < ts_bits (file_min_xip f)"
  shows "\<exists>v'. edit_version opt (add_file 0 f (set_min_xip x version_edit_new)) v = Inr v' \<and>
    version_ok (num_levels opt) v' \<and> concat (v_files v') = f # concat (v_files v)"
proof -
  define e where "e = add_file 0 f (set_min_xip x version_edit_new)"
  have e: "added_files e level = (if level = 0 then [f] else [])" "ve_deleted e = {}" "ve_mark_compacted e = []"
    "marks_of e level = {}" "ve_add_files e = [(0, f)]" for level
    by (simp_all add: e_def added_files_def marks_of_def add_file_def set_min_xip_def version_edit_new_def)
  have k: "kept_files e v level = (if level = 0 then [f] else []) @ v_files v ! level" for level
    by (simp add: kept_files_def e)
  have l0: "level_ok 0 (v_files v ! 0)" using v by (simp add: version_ok_def)
  have "compare_level_files 0 f g = Less" if "g \<in> set (v_files v ! 0)" for g
    using that l0 f(1) newest by (simp add: compare_level_files_def level_ok_def file_ok_def ts_cmp_small lin_cmp_def)
  then have n: "new_level e v level = (if level = 0 then [f] else []) @ v_files v ! level" for level
    by (simp add: new_level_def e sort_by_def merge_first)
  have total: "before_file level g h \<or> before_file level h g"
    if "level < num_levels opt" "g \<in> set (v_files v ! level)" "h \<in> set (v_files v ! level)" "g \<noteq> h" for level g h
  proof -
    have "level_ok level (v_files v ! level)" using that(1) v(1) by (simp add: version_ok_def)
    from level_ok_total [OF this that(2-4)] show ?thesis .
  qed
  have first: "before_file 0 f g" if "g \<in> set (v_files v ! 0)" for g
    using newest that by (simp add: before_file_def)
  have "edit_fits (num_levels opt) e v"
    unfolding edit_fits_def k
    using v f total first by (auto simp: e version_ok_def level_ok_def)
  then obtain v' where v': "edit_version opt e v = Inr v'" "version_ok (num_levels opt) v'"
    "v_files v' = map (\<lambda>level. mark_level (marks_of e level) (new_level e v level)) [0..<num_levels opt]"
    using edit_version_ok [OF v(1)] by blast
  have m: "mark_level {} fs = fs" for fs :: "'k table_file_meta list"
    by (simp add: mark_level_def mark_file_def map_idI)
  have "v_files v' = (v_files v)[0 := f # v_files v ! 0]"
    using v unfolding v'(3) e(4) m n by (intro nth_equalityI) (auto simp: version_ok_def nth_list_update)
  moreover obtain fs rest where "v_files v = fs # rest" using v by (cases "v_files v") (auto simp: version_ok_def)
  ultimately show ?thesis using v'(1,2) unfolding e_def by auto
qed

context table_store begin

lemma add_imm_result:
  "holds tb kvs \<Longrightarrow> \<exists>tb'. add_imm (te_wire env) (te_codec env) imt tb = Inr tb' \<and> holds tb' (kvs @ imm_entries imt)"
proof (induction imt arbitrary: tb kvs)
  case (Cons p imt)
  obtain key v where p: "p = (key, v)" by (cases p)
  show ?case
  proof (cases v)
    case None
    then show ?thesis using Cons.IH [OF Cons.prems] by (simp add: p)
  next
    case (Some x)
    obtain tb' where "table_add (te_wire env) (te_codec env) key x tb = Inr tb'" "holds tb' (kvs @ [(key, x)])"
      using add_holds [OF Cons.prems] by blast
    then show ?thesis using Some Cons.IH [of tb' "kvs @ [(key, x)]"] by (simp add: p)
  qed
qed simp

lemma level0_table_written:
  assumes de: "de_tables de = env" and imt: "imt \<noteq> []" and new: "db_disk db (TableFileRef 0 (vs_next_file_num (db_vset db))) = None"
  shows "\<exists>contents gs bs filt idx. write_level0_table de imt mx db =
      Inr (table_file_meta_new (TableFileRef 0 (vs_next_file_num (db_vset db))) (length contents) mx (fst (hd imt)) (fst (last imt)),
        db\<lparr>db_vset := (db_vset db)\<lparr>vs_next_file_num := vs_next_file_num (db_vset db) + 1\<rparr>,
            db_disk := (db_disk db)(TableFileRef 0 (vs_next_file_num (db_vset db)) \<mapsto> contents)\<rparr>) \<and>
    table_file (te_wire env) (te_codec env) (opt_policy (te_options env)) contents gs bs filt idx \<and> concat gs = imm_entries imt"
proof -
  obtain tb where tb: "add_imm (te_wire env) (te_codec env) imt (table_builder_new (te_options env)) = Inr tb"
    "holds tb (imm_entries imt)"
    using add_imm_result [OF holds_new, of imt] by auto
  then obtain gs cur bs where "tb_inv (te_wire env) (te_codec env) (opt_policy (te_options env)) tb (imm_entries imt) gs cur bs"
    unfolding holds_def by blast
  then obtain tb' gs' bs' filt idx where "table_finish (te_wire env) (te_codec env) tb = Inr tb'" "concat gs' = imm_entries imt"
    "table_file (te_wire env) (te_codec env) (opt_policy (te_options env)) (tb_out tb') gs' bs' filt idx"
    using reading.table_finish_file [OF _ reading.filter_contract_axioms] by blast
  then show ?thesis
    using tb(1) imt new unfolding write_level0_table_def de
    by (intro exI [of _ "tb_out tb'"] exI [of _ gs'] exI [of _ bs'] exI [of _ filt] exI [of _ idx])
      (simp add: imm_size_def imm_iter_def new_file_number_def Let_def)
qed

text \<open>A new file does not concern those who read the others.\<close>

lemma new_file_store:
  assumes s: "store_at levels ents R disk v k st" and r: "disk r = None" and len: "length contents < 2 ^ 32"
    and f: "table_file (te_wire env) (te_codec env) (opt_policy (te_options env)) contents gs bs filt idx"
    and q: "ascending (te_codec env) (concat gs)"
  shows "store_at levels (ents(r := concat gs)) (insert r R) (disk(r \<mapsto> contents)) v k st"
    "version_entries (ents(r := concat gs)) v = version_entries ents v"
proof -
  obtain tbl n where s: "files_on_disk ents disk R" "version_ok levels v" "stored ents R (concat (v_files v))"
    "caches_at ents R tbl n st" "room k n"
    using s unfolding store_at_def by blast
  have nr: "r \<notin> R" using s(1) r by (fastforce simp: disk_ok_def)
  then have agree: "\<forall>r'\<in>R. (ents(r := concat gs)) r' = ents r'" by auto
  have "files_on_disk (ents(r := concat gs)) (disk(r \<mapsto> contents)) (insert r R)"
    unfolding disk_ok_def
  proof
    fix r' assume r': "r' \<in> insert r R"
    show "\<exists>fl gs' bs filt idx. (disk(r \<mapsto> contents)) r' = Some fl \<and> length fl < 2 ^ 32 \<and>
        table_file (te_wire env) (te_codec env) (opt_policy (te_options env)) fl gs' bs filt idx \<and>
        concat gs' = (ents(r := concat gs)) r' \<and> ascending (te_codec env) ((ents(r := concat gs)) r')"
    proof (cases "r' = r")
      case True
      then show ?thesis using f q len by auto
    next
      case False
      then show ?thesis using s(1) r' by (auto simp: disk_ok_def)
    qed
  qed
  moreover have "stored (ents(r := concat gs)) (insert r R) (concat (v_files v))"
    using stored_agree [OF s(3) agree] by (rule stored_subset) auto
  moreover have "caches_at (ents(r := concat gs)) (insert r R) tbl n st"
    by (rule caches_at_agree [OF s(4) subset_insertI agree])
  ultimately show "store_at levels (ents(r := concat gs)) (insert r R) (disk(r \<mapsto> contents)) v k st"
    using s(2,5) unfolding store_at_def by blast
  show "version_entries (ents(r := concat gs)) v = version_entries ents v"
    unfolding version_entries_def by (rule files_entries_agree [OF s(3) agree])
qed

text \<open>The file in its place on level 0.\<close>

lemma installed_store:
  assumes s: "store_at (num_levels opt) ents R disk v k st" and lev: "0 < num_levels opt"
    and f: "file_ok 0 f" "file_ref f \<in> R" "in_range ents f" "file_ref f \<notin> file_ref ` set (v_files v ! 0)"
    and newest: "\<forall>g\<in>set (v_files v ! 0). ts_bits (file_min_xip g) < ts_bits (file_min_xip f)"
    and e: "edit_version opt (add_file 0 f (set_min_xip x version_edit_new)) v = Inr v'"
  shows "store_at (num_levels opt) ents R disk v' k st"
    "version_entries ents v' = ents (file_ref f) @ version_entries ents v"
proof -
  have v: "version_ok (num_levels opt) v" using s by (simp add: store_at_def)
  have v': "version_ok (num_levels opt) v'" "concat (v_files v') = f # concat (v_files v)"
    using level0_edit [OF v lev f(1,4) newest, of x] e by auto
  then show "store_at (num_levels opt) ents R disk v' k st"
    using s f(2,3) unfolding store_at_def v'(2) by simp
  show "version_entries ents v' = ents (file_ref f) @ version_entries ents v"
    by (simp add: version_entries_def v'(2) files_entries_simps)
qed

end

lemma ts_cmp_refl: "ts_cmp t t = Equal"
  by (simp add: ts_cmp_def)

lemma flush_install_first:
  assumes "db_imm db = (mx, imt) # rest" "flush_install env now mx lsn f db = Inr (passed, db')"
  obtains vs wal cm where "passed" "db' = db\<lparr>db_vset := vs, db_wal := wal, db_ckpt := cm, db_imm := rest\<rparr>"
    "edit_version (de_options env) (add_file 0 f (set_min_xip mx version_edit_new)) (vs_current (db_vset db)) = Inr (vs_current vs)"
    "vs_next_file_num vs = vs_next_file_num (db_vset db)"
proof -
  obtain vs wal cm where r: "unwrap_res (log_and_apply (de_wire env) (de_log env) (de_manifest env) (de_options env) now
      (add_file 0 f (set_min_xip mx version_edit_new)) lsn (db_vset db, db_wal db, db_ckpt db)) = Inr (vs, wal, cm)"
    "passed" "db' = db\<lparr>db_vset := vs, db_wal := wal, db_ckpt := cm, db_imm := rest\<rparr>"
    using assms by (auto simp: flush_install_def res_bind_eq_Inr Let_def ts_cmp_refl)
  then have "log_and_apply (de_wire env) (de_log env) (de_manifest env) (de_options env) now
      (add_file 0 f (set_min_xip mx version_edit_new)) lsn (db_vset db, db_wal db, db_ckpt db) = Inr (vs, wal, cm)"
    by (auto simp: unwrap_res_def split: sum.splits fault.splits)
  then show ?thesis by (rule log_and_apply_parts) (use r(2,3) that in blast)
qed

section \<open>The two steps of a flush\<close>

text \<open>What stops the flushes of a database that was opened again, until its timestamps have caught up.\<close>

lemma flush_install_older:
  "\<lbrakk>db_imm db = (mx, imt) # rest; ts_lt mx (vs_min_xip (db_vset db))\<rbrakk> \<Longrightarrow>
    flush_install env now mx lsn f db = Inl (Panic ''assertion failed: new_min_xip >= self.min_xip'')"
  by (simp add: flush_install_def log_and_apply_older unwrap_res_def add_file_def set_min_xip_def)

lemma flush_writes:
  assumes s: "store_ok (de_tables env) bview good next_id tview tgood levels ents R (db_disk db) (vs_current (db_vset db)) k (db_caches db)"
    and imt: "imm_sorted imt" "imt \<noteq> []" "ascending (te_codec (de_tables env)) (imm_entries imt)" and mx: "ts_small mx"
    and un: "unused_refs (vs_next_file_num (db_vset db)) (db_disk db)"
  obtains f db1 where "write_level0_table env imt mx db = Inr (f, db1)" "db_imm db1 = db_imm db"
    "vs_current (db_vset db1) = vs_current (db_vset db)" "unused_refs (vs_next_file_num (db_vset db1)) (db_disk db1)"
    "file_ok 0 f" "file_min_xip f = mx" "file_ref f \<notin> R"
    "file_size f < 2 ^ 32 \<longrightarrow> (\<exists>ents'. ents' (file_ref f) = imm_entries imt \<and> in_range ents' f \<and>
       version_entries ents' (vs_current (db_vset db)) = version_entries ents (vs_current (db_vset db)) \<and>
       store_ok (de_tables env) bview good next_id tview tgood levels ents' (insert (file_ref f) R) (db_disk db1)
         (vs_current (db_vset db1)) k (db_caches db1))"
proof -
  have t: "table_store (de_tables env) bview good next_id tview tgood" using s by (simp add: store_ok_def)
  let ?n = "vs_next_file_num (db_vset db)" and ?c = "te_codec (de_tables env)"
  let ?r = "TableFileRef 0 ?n"
  have none: "db_disk db ?r = None" using un by (simp add: unused_refs_def)
  obtain contents gs bs filt idx where w: "write_level0_table env imt mx db =
      Inr (table_file_meta_new ?r (length contents) mx (fst (hd imt)) (fst (last imt)),
        db\<lparr>db_vset := (db_vset db)\<lparr>vs_next_file_num := ?n + 1\<rparr>, db_disk := (db_disk db)(?r \<mapsto> contents)\<rparr>)"
    "table_file (te_wire (de_tables env)) ?c (opt_policy (te_options (de_tables env))) contents gs bs filt idx"
    "concat gs = imm_entries imt"
    using table_store.level0_table_written [OF t refl imt(2) none, of mx] by blast
  have "fst (hd imt) \<le> fst (last imt)" using imt by (cases imt) (auto simp: imm_sorted_def intro: less_imp_le)
  moreover have "?r \<notin> R" using s none by (fastforce simp: store_ok_def disk_ok_def)
  moreover have "unused_refs (?n + 1) ((db_disk db)(?r \<mapsto> contents))" using un by (simp add: unused_refs_def)
  moreover note new = table_store.new_file_store [OF t s [unfolded table_store.store_ok_iff [OF t]] none _ w(2)
      imt(3) [folded w(3)], unfolded w(3), folded table_store.store_ok_iff [OF t]]
  ultimately show ?thesis
    using mx imm_entries_range [OF imt(1)]
    by (intro that [OF w(1)] impI exI [of _ "ents(?r := imm_entries imt)"])
      (simp_all add: table_file_meta_new_def file_ok_def in_range_def)
qed

lemma flush_installs:
  assumes s: "store_ok (de_tables env) bview good next_id tview tgood (num_levels (de_options env)) ents R (db_disk db)
      (vs_current (db_vset db)) k (db_caches db)"
    and f: "file_ok 0 f" "file_ref f \<in> R" "in_range ents f" "file_ref f \<notin> file_ref ` set (v_files (vs_current (db_vset db)) ! 0)"
      "\<forall>g\<in>set (v_files (vs_current (db_vset db)) ! 0). ts_bits (file_min_xip g) < ts_bits (file_min_xip f)"
    and lev: "0 < num_levels (de_options env)" and imm: "db_imm db = (mx, imt) # rest"
    and inst: "flush_install env now mx lsn f db = Inr (passed, db')"
  shows "passed \<and> db_imm db' = rest \<and> db_disk db' = db_disk db \<and>
    store_ok (de_tables env) bview good next_id tview tgood (num_levels (de_options env)) ents R (db_disk db')
      (vs_current (db_vset db')) k (db_caches db') \<and>
    version_entries ents (vs_current (db_vset db')) = ents (file_ref f) @ version_entries ents (vs_current (db_vset db))"
proof -
  have t: "table_store (de_tables env) bview good next_id tview tgood" using s by (simp add: store_ok_def)
  obtain vs wal cm where r: passed "db' = db\<lparr>db_vset := vs, db_wal := wal, db_ckpt := cm, db_imm := rest\<rparr>"
    "edit_version (de_options env) (add_file 0 f (set_min_xip mx version_edit_new)) (vs_current (db_vset db)) = Inr (vs_current vs)"
    using flush_install_first [OF imm inst] by blast
  show ?thesis
    using table_store.installed_store [OF t s [unfolded table_store.store_ok_iff [OF t]] lev f r(3)] r(1,2)
    by (simp add: table_store.store_ok_iff [OF t])
qed

section \<open>Properties\<close>

text \<open>
  C11: what a reader gets. \<open>Db::get\<close> returns the version of the memtable the transaction sees, and if it sees none,
  the value of the key in the immutable tables, the newest first, and then in the files of the version; the caches
  may change and stay good. A version that deletes the key counts as none, so it does not hide what is below.
\<close>
theorem db_get_is_overlay:
  "\<lbrakk>store_ok (de_tables env) bview good next_id tview tgood levels ents R (db_disk db) (vs_current (db_vset db))
      (length (concat (v_files (vs_current (db_vset db)))) + k) (db_caches db);
    \<forall>p\<in>set (db_imm db). imm_sorted (snd p);
    mt_get (snd (db_shared db)) (fst (db_shared db)) (snd (take_gc_guard t)) key = Inr (found, t2)\<rbrakk> \<Longrightarrow>
   \<exists>t' caches. db_get env t key db =
     Inr (case found of
            Some x \<Rightarrow> Some x
          | None \<Rightarrow> map_of (storage_entries ents (db_imm db) (vs_current (db_vset db))) key,
          t', db\<lparr>db_caches := caches\<rparr>) \<and>
     store_ok (de_tables env) bview good next_id tview tgood levels ents R (db_disk db) (vs_current (db_vset db)) k caches"
proof -
  assume s: "store_ok (de_tables env) bview good next_id tview tgood levels ents R (db_disk db) (vs_current (db_vset db))
      (length (concat (v_files (vs_current (db_vset db)))) + k) (db_caches db)"
    and i: "\<forall>p\<in>set (db_imm db). imm_sorted (snd p)"
    and m: "mt_get (snd (db_shared db)) (fst (db_shared db)) (snd (take_gc_guard t)) key = Inr (found, t2)"
  show ?thesis
  proof (cases found)
    case None
    then have "db_get env t key db = get_from_storage env t2 key db"
      using m by (cases "take_gc_guard t") (simp add: db_get_def)
    then show ?thesis using None get_from_storage_lookup [OF s i, of t2 key] by simp
  next
    case (Some x)
    then have "\<exists>t'. db_get env t key db = Inr (Some x, t', db\<lparr>db_caches := db_caches db\<rparr>)"
      using m by (cases "take_gc_guard t") (simp add: db_get_def)
    then show ?thesis using Some store_ok_mono [OF s le_add2]
      by (elim exE) (intro exI [of _ "db_caches db"] exI conjI; simp)
  qed
qed

text \<open>
  C8: a flush changes no read. The oldest immutable table is written to a new file on level 0 under an unused name,
  which disturbs no one who reads the version and the tables as they were; the table is then replaced by the
  file, and the same entries are found below the memtable, in the same order. (The file must be smaller than 4 GiB, as
  the 32-bit offsets of the table format require, and its minimum larger than those of the files on level 0.)
\<close>
theorem flush_keeps_storage:
  "\<lbrakk>store_ok (de_tables env) bview good next_id tview tgood (num_levels (de_options env)) ents R (db_disk db)
      (vs_current (db_vset db)) k (db_caches db);
    db_imm db = (mx, imt) # rest; imm_sorted imt; imt \<noteq> []; ascending (te_codec (de_tables env)) (imm_entries imt);
    ts_small mx; 0 < num_levels (de_options env);
    \<forall>f\<in>set (v_files (vs_current (db_vset db)) ! 0). ts_bits (file_min_xip f) < ts_bits mx;
    unused_refs (vs_next_file_num (db_vset db)) (db_disk db)\<rbrakk> \<Longrightarrow>
   \<exists>f db1. write_level0_table env imt mx db = Inr (f, db1) \<and> db_imm db1 = db_imm db \<and>
     vs_current (db_vset db1) = vs_current (db_vset db) \<and> unused_refs (vs_next_file_num (db_vset db1)) (db_disk db1) \<and>
     (2 ^ 32 \<le> file_size f \<or>
      (\<exists>ents' R'. store_ok (de_tables env) bview good next_id tview tgood (num_levels (de_options env)) ents' R' (db_disk db1)
          (vs_current (db_vset db1)) k (db_caches db1) \<and>
        storage_entries ents' (db_imm db1) (vs_current (db_vset db1)) = storage_entries ents (db_imm db) (vs_current (db_vset db)) \<and>
        (\<forall>passed db2. flush_install env now mx lsn f db1 = Inr (passed, db2) \<longrightarrow>
          passed \<and> db_imm db2 = rest \<and> db_disk db2 = db_disk db1 \<and>
          store_ok (de_tables env) bview good next_id tview tgood (num_levels (de_options env)) ents' R' (db_disk db2)
            (vs_current (db_vset db2)) k (db_caches db2) \<and>
          storage_entries ents' rest (vs_current (db_vset db2)) = storage_entries ents (db_imm db) (vs_current (db_vset db)))))"
proof -
  let ?opt = "de_options env" and ?v = "vs_current (db_vset db)"
  assume s: "store_ok (de_tables env) bview good next_id tview tgood (num_levels ?opt) ents R (db_disk db) ?v k (db_caches db)"
    and imm: "db_imm db = (mx, imt) # rest" and imt: "imm_sorted imt" "imt \<noteq> []" "ascending (te_codec (de_tables env)) (imm_entries imt)"
    and mx: "ts_small mx" and lev: "0 < num_levels ?opt"
    and newest: "\<forall>f\<in>set (v_files ?v ! 0). ts_bits (file_min_xip f) < ts_bits mx"
    and un: "unused_refs (vs_next_file_num (db_vset db)) (db_disk db)"
  obtain f db1 where w: "write_level0_table env imt mx db = Inr (f, db1)" "db_imm db1 = db_imm db"
    "vs_current (db_vset db1) = ?v" "unused_refs (vs_next_file_num (db_vset db1)) (db_disk db1)"
    "file_ok 0 f" "file_min_xip f = mx" "file_ref f \<notin> R"
    "file_size f < 2 ^ 32 \<longrightarrow> (\<exists>ents'. ents' (file_ref f) = imm_entries imt \<and> in_range ents' f \<and>
       version_entries ents' ?v = version_entries ents ?v \<and>
       store_ok (de_tables env) bview good next_id tview tgood (num_levels ?opt) ents' (insert (file_ref f) R) (db_disk db1)
         (vs_current (db_vset db1)) k (db_caches db1))"
    by (rule flush_writes [OF s imt mx un])
  have "file_ref ` set (v_files ?v ! 0) \<subseteq> R"
    using s lev set_concat_nth [of 0 "v_files ?v"] by (auto simp: store_ok_def stored_def version_ok_def)
  then have new: "file_ref f \<notin> file_ref ` set (v_files (vs_current (db_vset db1)) ! 0)" using w(3,7) by auto
  show ?thesis
  proof (cases "file_size f < 2 ^ 32")
    case False
    then show ?thesis using w(1-4) by (intro exI [of _ f] exI [of _ db1]) simp
  next
    case True
    obtain ents' where e: "ents' (file_ref f) = imm_entries imt" "in_range ents' f"
      "version_entries ents' ?v = version_entries ents ?v"
      "store_ok (de_tables env) bview good next_id tview tgood (num_levels ?opt) ents' (insert (file_ref f) R) (db_disk db1)
         (vs_current (db_vset db1)) k (db_caches db1)"
      using w(8) True by blast
    have "\<forall>g\<in>set (v_files (vs_current (db_vset db1)) ! 0). ts_bits (file_min_xip g) < ts_bits (file_min_xip f)"
      using newest w(3,6) by simp
    note inst = flush_installs [OF e(4) w(5) insertI1 e(2) new this lev, of mx imt rest now lsn]
    have "storage_entries ents' (db_imm db1) (vs_current (db_vset db1)) = storage_entries ents (db_imm db) ?v"
      using e(3) w(2,3) by (simp add: storage_entries_def)
    moreover have "\<forall>passed db2. flush_install env now mx lsn f db1 = Inr (passed, db2) \<longrightarrow>
        passed \<and> db_imm db2 = rest \<and> db_disk db2 = db_disk db1 \<and>
        store_ok (de_tables env) bview good next_id tview tgood (num_levels ?opt) ents' (insert (file_ref f) R) (db_disk db2)
          (vs_current (db_vset db2)) k (db_caches db2) \<and>
        storage_entries ents' rest (vs_current (db_vset db2)) = storage_entries ents (db_imm db) ?v"
    proof (intro allI impI)
      fix passed db2 assume "flush_install env now mx lsn f db1 = Inr (passed, db2)"
      note inst [OF _ this]
      then show "passed \<and> db_imm db2 = rest \<and> db_disk db2 = db_disk db1 \<and>
          store_ok (de_tables env) bview good next_id tview tgood (num_levels ?opt) ents' (insert (file_ref f) R) (db_disk db2)
            (vs_current (db_vset db2)) k (db_caches db2) \<and>
          storage_entries ents' rest (vs_current (db_vset db2)) = storage_entries ents (db_imm db) ?v"
        using e(1,3) w(2,3) imm by (auto simp: storage_entries_def)
    qed
    ultimately show ?thesis
      using w(1-4) e(4) by (intro exI [of _ f] exI [of _ db1]) blast
  qed
qed

text \<open>
  A database over the demonstration store: its only table file is on level 0, its immutable table has the same
  entries and a deleted key.
\<close>

type_synonym demo_tables = "(table_file_ref cache_key, bits_builder table_reader) lru_list sharded_cache"
type_synonym demo_blocks = "(nat cache_key, bytes) lru_list sharded_cache"

definition demo_env :: "(u64, u64, bits_builder, demo_tables, demo_blocks) db_env" where
  "demo_env = \<lparr>de_tables = std_env, de_log = \<lparr>ser_full = \<lambda>xid r. [9], de_full = \<lambda>bs. None\<rparr>,
     de_manifest = std_manifest_codec, de_mem = \<lparr>mtc_key = \<lambda>k. [], mtc_value = \<lambda>v. [], mtc_full = \<lambda>ts r. []\<rparr>,
     de_options = demo_options\<rparr>"

definition demo_imm :: "(u64, u64) imm_table" where
  "demo_imm = [(1, Some 10), (2, Some 20), (5, None), (300, Some 30)]"

definition demo_db :: "bytes \<Rightarrow> demo_tables \<Rightarrow> wal \<Rightarrow> checkpoint_manager \<Rightarrow> (u64, u64, demo_tables, demo_blocks) db" where
  "demo_db fl tc wal cm = \<lparr>db_shared = (memtable_new, txn_manager_new), db_wal = wal, db_ckpt = cm, db_vset = demo_set 300,
     db_collect = [], db_imm = [(Timestamp 30, demo_imm)], db_disk = [TableFileRef 0 2 \<mapsto> fl], db_caches = (tc, demo_cache),
     db_last_flush_size = 0, db_flushing_threads = 1, db_running_compactions = 0, db_jobs = []\<rparr>"

lemma demo_imm_facts:
  "imm_entries demo_imm = demo_entries" "imm_sorted demo_imm" "demo_imm \<noteq> []" "length demo_imm = 4"
  "fst (hd demo_imm) = 1" "fst (last demo_imm) = 300"
  by (simp_all add: demo_imm_def demo_entries_def imm_sorted_def)

lemma demo_db_facts:
  "db_imm (demo_db fl tc wal cm) = [(Timestamp 30, demo_imm)]" "db_disk (demo_db fl tc wal cm) = [TableFileRef 0 2 \<mapsto> fl]"
  "db_caches (demo_db fl tc wal cm) = (tc, demo_cache)" "vs_current (db_vset (demo_db fl tc wal cm)) = demo_store_version 300"
  "vs_next_file_num (db_vset (demo_db fl tc wal cm)) = 3" "db_wal (demo_db fl tc wal cm) = wal"
  "db_ckpt (demo_db fl tc wal cm) = cm" "db_shared (demo_db fl tc wal cm) = (memtable_new, txn_manager_new)"
  "de_tables demo_env = std_env" "de_options demo_env = demo_options"
  by (simp_all add: demo_db_def demo_set_def demo_env_def)

definition demo_reader :: "(u64, u64) txn" where
  "demo_reader = txn_new Normal (ts_new Commit 1) (ts_new Uncommitted 1)"

lemma demo_mt_get: "mt_get txn_manager_new memtable_new t key = Inr (None, t)"
  by (simp add: mt_get_def memtable_new_def)

lemma demo_database:
  obtains fl tc where "table_build std_wire std_table_codec (table_options_default std_wire) demo_entries = Inr fl"
    "table_cache_new std_lru demo_options = Inr tc" "length fl < 2 ^ 32"
    "\<forall>wal cm. store_ok (de_tables demo_env) (sharded_view ll_peek std_block_hash) (sharded_good ll_good) sc_last_id
      (sharded_view ll_peek std_file_hash) (sharded_good ll_good) 3 (\<lambda>_. demo_entries) {TableFileRef 0 2}
      (db_disk (demo_db fl tc wal cm)) (vs_current (db_vset (demo_db fl tc wal cm))) 1000 (db_caches (demo_db fl tc wal cm))"
proof -
  obtain fl where fl: "table_build std_wire std_table_codec (table_options_default std_wire) demo_entries = Inr fl"
    "length fl < 2 ^ 32"
    using demo_table by blast
  obtain tc where "table_cache_new std_lru demo_options = Inr tc"
    "store_ok std_env (sharded_view ll_peek std_block_hash) (sharded_good ll_good) sc_last_id
      (sharded_view ll_peek std_file_hash) (sharded_good ll_good) 3 (\<lambda>_. demo_entries) {TableFileRef 0 2}
      [TableFileRef 0 2 \<mapsto> fl] (demo_store_version 300) 1000 (tc, demo_cache)"
    using demo_store [OF fl] by blast
  with that [OF fl(1) _ fl(2)] show ?thesis by (simp add: demo_db_facts)
qed

theorem db_get_is_overlay_witness:
  "\<exists>fl tc. table_build std_wire std_table_codec (table_options_default std_wire) demo_entries = Inr fl \<and>
     table_cache_new std_lru demo_options = Inr tc \<and>
     (\<forall>wal cm. \<exists>t' caches t'' caches'.
        db_get demo_env demo_reader 300 (demo_db fl tc wal cm) =
          Inr (Some 30, t', (demo_db fl tc wal cm)\<lparr>db_caches := caches\<rparr>) \<and>
        db_get demo_env demo_reader 5 (demo_db fl tc wal cm) =
          Inr (None, t'', (demo_db fl tc wal cm)\<lparr>db_caches := caches'\<rparr>))"
proof -
  obtain fl tc where d: "table_build std_wire std_table_codec (table_options_default std_wire) demo_entries = Inr fl"
    "table_cache_new std_lru demo_options = Inr tc" "length fl < 2 ^ 32"
    "\<forall>wal cm. store_ok (de_tables demo_env) (sharded_view ll_peek std_block_hash) (sharded_good ll_good) sc_last_id
      (sharded_view ll_peek std_file_hash) (sharded_good ll_good) 3 (\<lambda>_. demo_entries) {TableFileRef 0 2}
      (db_disk (demo_db fl tc wal cm)) (vs_current (db_vset (demo_db fl tc wal cm))) 1000 (db_caches (demo_db fl tc wal cm))"
    by (rule demo_database)
  have "\<exists>t' caches t'' caches'. db_get demo_env demo_reader 300 (demo_db fl tc wal cm) =
        Inr (Some 30, t', (demo_db fl tc wal cm)\<lparr>db_caches := caches\<rparr>) \<and>
      db_get demo_env demo_reader 5 (demo_db fl tc wal cm) =
        Inr (None, t'', (demo_db fl tc wal cm)\<lparr>db_caches := caches'\<rparr>)" for wal cm
  proof -
  let ?db = "demo_db fl tc wal cm"
  have "length (concat (v_files (vs_current (db_vset ?db)))) + 999 = 1000" by (simp add: demo_db_facts demo_store_version_def)
  note s = d(4) [rule_format, of wal cm, folded this]
  have i: "\<forall>p\<in>set (db_imm ?db). imm_sorted (snd p)" by (simp add: demo_db_facts demo_imm_facts)
  have m: "mt_get (snd (db_shared ?db)) (fst (db_shared ?db)) (snd (take_gc_guard demo_reader)) key =
      Inr (None, snd (take_gc_guard demo_reader))" for key
    by (simp add: demo_db_facts demo_mt_get)
  have e: "map_of (storage_entries (\<lambda>_. demo_entries) (db_imm ?db) (vs_current (db_vset ?db))) 300 = Some 30"
    "map_of (storage_entries (\<lambda>_. demo_entries) (db_imm ?db) (vs_current (db_vset ?db))) 5 = None"
    by (simp_all add: demo_db_facts demo_imm_facts storage_entries_def version_entries_def files_entries_def
        demo_store_version_def demo_entries_def)
  obtain t' caches where g1: "db_get demo_env demo_reader 300 ?db = Inr (Some 30, t', ?db\<lparr>db_caches := caches\<rparr>)"
    using db_get_is_overlay [OF s i m [of 300]] unfolding option.case e by blast
  obtain t'' caches' where "db_get demo_env demo_reader 5 ?db = Inr (None, t'', ?db\<lparr>db_caches := caches'\<rparr>)"
    using db_get_is_overlay [OF s i m [of 5]] unfolding option.case e by blast
  with g1 show ?thesis by blast
  qed
  then show ?thesis using d(1,2) by blast
qed

lemma log_and_apply_done:
  assumes "edit_version opt e (vs_current vs) = Inr v'" "ve_min_xip e = Some x" "\<not> ts_lt x (vs_min_xip vs)"
    "wal_append w (ser_full lc ts_default (create_checkpoint_log x lsn (vs_next_file_num vs) (v_files v'))) wal =
       Inr ((a, b), wal1)"
    "create_checkpoint w mc now x a cm = Inr cm'"
  shows "\<exists>vs'. log_and_apply w lc mc opt now e lsn (vs, wal, cm) = Inr (vs', wal_flush (Some b) wal1, cm') \<and> vs_current vs' = v'"
  using assms by (simp add: log_and_apply_def wal_append_record_def get_full_record_def)

lemma add_imm_all: "add_imm w c imt tb = table_add_all w c (imm_entries imt) tb"
proof (induction imt arbitrary: tb)
  case (Cons p imt)
  obtain key v where p: "p = (key, v)" by (cases p)
  have "fold (\<lambda>(k, v) r. res_bind r (table_add w c k v)) kvs (Inl e) = Inl e" for kvs e
    by (induction kvs) auto
  then have "table_add_all w c ((key, x) # kvs) tb = res_bind (table_add w c key x tb) (table_add_all w c kvs)" for x kvs
    by (cases "table_add w c key x tb") (simp_all add: table_add_all_def)
  then show ?case using Cons.IH by (cases v) (simp_all add: p res_bind_def split: sum.splits)
qed (simp add: table_add_all_def)

lemma demo_flush_writes:
  assumes "table_build std_wire std_table_codec (table_options_default std_wire) demo_entries = Inr fl"
    "write_level0_table demo_env demo_imm mx (demo_db fl tc wal cm) = Inr (f, db1)"
  shows "file_size f = length fl" "file_ok 0 f \<longleftrightarrow> ts_small mx" "file_ref f = TableFileRef 0 3" "file_min_xip f = mx"
    "vs_min_xip (db_vset db1) = Timestamp 0" "db_wal db1 = wal" "db_ckpt db1 = cm"
    "db_imm db1 = [(Timestamp 30, demo_imm)]" "vs_current (db_vset db1) = demo_store_version 300"
proof -
  obtain tb tb' where tb: "table_add_all std_wire std_table_codec demo_entries (table_builder_new (table_options_default std_wire)) = Inr tb"
    "table_finish std_wire std_table_codec tb = Inr tb'" "tb_out tb' = fl"
    using assms(1) by (auto simp: table_build_def res_bind_eq_Inr)
  have e: "te_wire std_env = std_wire" "te_codec std_env = std_table_codec" "te_options std_env = table_options_default std_wire"
    by (simp_all add: std_env_def)
  have w: "write_level0_table demo_env demo_imm mx (demo_db fl tc wal cm) =
      Inr (table_file_meta_new (TableFileRef 0 3) (length fl) mx 1 300,
        (demo_db fl tc wal cm)\<lparr>db_vset := (demo_set 300)\<lparr>vs_next_file_num := 4\<rparr>,
          db_disk := [TableFileRef 0 2 \<mapsto> fl, TableFileRef 0 3 \<mapsto> fl]\<rparr>)"
    using tb by (simp add: write_level0_table_def demo_db_def add_imm_all demo_imm_facts demo_env_def e new_file_number_def
        Let_def demo_set_def imm_size_def imm_iter_def)
  show "file_size f = length fl" "file_ok 0 f \<longleftrightarrow> ts_small mx" "file_ref f = TableFileRef 0 3" "file_min_xip f = mx"
    "vs_min_xip (db_vset db1) = Timestamp 0" "db_wal db1 = wal" "db_ckpt db1 = cm"
    "db_imm db1 = [(Timestamp 30, demo_imm)]" "vs_current (db_vset db1) = demo_store_version 300"
    using assms(2) unfolding w
    by (auto simp: table_file_meta_new_def file_ok_def demo_db_def demo_set_def version_set_new_def)
qed

theorem flush_keeps_storage_witness:
  "\<exists>fl tc wal0 wal1 cm0 f db1 db2. table_build std_wire std_table_codec (table_options_default std_wire) demo_entries = Inr fl \<and>
     table_cache_new std_lru demo_options = Inr tc \<and> wal_open Missing wal_options_default = Inr wal0 \<and>
     wal_append std_wire [7, 8] wal0 = Inr ((0, 9), wal1) \<and> ckpt_open std_wire std_manifest_codec 5 NoManifest = Inr cm0 \<and>
     write_level0_table demo_env demo_imm (Timestamp 30) (demo_db fl tc wal1 cm0) = Inr (f, db1) \<and>
     flush_install demo_env 6 (Timestamp 30) 9 f db1 = Inr (True, db2) \<and> db_imm db2 = [] \<and>
     (\<exists>ents'. map_of (storage_entries ents' [] (vs_current (db_vset db2))) 300 = Some (30 :: u64))"
proof -
  obtain fl tc where d: "table_build std_wire std_table_codec (table_options_default std_wire) demo_entries = Inr fl"
    "table_cache_new std_lru demo_options = Inr tc" "length fl < 2 ^ 32"
    "\<forall>wal cm. store_ok (de_tables demo_env) (sharded_view ll_peek std_block_hash) (sharded_good ll_good) sc_last_id
      (sharded_view ll_peek std_file_hash) (sharded_good ll_good) 3 (\<lambda>_. demo_entries) {TableFileRef 0 2}
      (db_disk (demo_db fl tc wal cm)) (vs_current (db_vset (demo_db fl tc wal cm))) 1000 (db_caches (demo_db fl tc wal cm))"
    by (rule demo_database)
  obtain wal0 wal1 wal2 where w: "wal_open Missing wal_options_default = Inr wal0"
    "wal_append std_wire [7, 8] wal0 = Inr ((0, 9), wal1)" "wal_append std_wire [9] wal1 = Inr ((9, 17), wal2)"
    by (rule two_records)
  obtain cm0 where cm0: "ckpt_open std_wire std_manifest_codec 5 NoManifest = Inr cm0" "std_manifest.in_step cm0"
    using std_manifest.open_in_step [of NoManifest undefined 5] by auto
  obtain cm' where cm': "create_checkpoint std_wire std_manifest_codec 6 (Timestamp 30) 9 cm0 = Inr cm'"
    using std_manifest.create_in_step [OF cm0(2), of 6 9 "Timestamp 30"] by auto
  let ?db = "demo_db fl tc wal1 cm0"
  have s: "store_ok (de_tables demo_env) (sharded_view ll_peek std_block_hash) (sharded_good ll_good) sc_last_id
      (sharded_view ll_peek std_file_hash) (sharded_good ll_good) (num_levels (de_options demo_env)) (\<lambda>_. demo_entries)
      {TableFileRef 0 2} (db_disk ?db) (vs_current (db_vset ?db)) 1000 (db_caches ?db)"
    using d(4) by (simp add: demo_db_facts)
  have mx: "ts_small (Timestamp 30)" by (simp add: ts_small_def ts_limit_def)
  have asc: "ascending (te_codec (de_tables demo_env)) (imm_entries demo_imm)"
    using demo_ascending by (simp add: demo_imm_facts demo_db_facts std_env_def)
  have lev: "0 < num_levels (de_options demo_env)" by (simp add: demo_db_facts)
  have newest: "\<forall>f\<in>set (v_files (vs_current (db_vset ?db)) ! 0). ts_bits (file_min_xip f) < ts_bits (Timestamp 30)"
    by (simp add: demo_db_facts demo_store_version_def demo_meta_def table_file_meta_new_def)
  have un: "unused_refs (vs_next_file_num (db_vset ?db)) (db_disk ?db)" by (simp add: demo_db_facts unused_refs_def)
  note fk = flush_keeps_storage [OF s demo_db_facts(1) demo_imm_facts(2,3) asc mx lev newest un, of 6 9]
  obtain f db1 ents' where f: "write_level0_table demo_env demo_imm (Timestamp 30) ?db = Inr (f, db1)"
    "2 ^ 32 \<le> file_size f \<or> (\<forall>passed db2. flush_install demo_env 6 (Timestamp 30) 9 f db1 = Inr (passed, db2) \<longrightarrow>
       db_imm db2 = [] \<and> storage_entries ents' [] (vs_current (db_vset db2)) =
         storage_entries (\<lambda>_. demo_entries) (db_imm ?db) (vs_current (db_vset ?db)))"
    using fk by blast
  note fw = demo_flush_writes [OF d(1) f(1)]
  have v: "version_ok 3 (demo_store_version 300)" using s by (simp add: store_ok_def demo_db_facts)
  have l0: "v_files (demo_store_version 300) ! 0 = [demo_meta 300]" by (simp add: demo_store_version_def)
  have m: "file_ref (demo_meta 300) = TableFileRef 0 2" "file_min_xip (demo_meta 300) = Timestamp 26"
    by (simp_all add: demo_meta_def table_file_meta_new_def)
  have "\<exists>v'. edit_version demo_options (add_file 0 f (set_min_xip (Timestamp 30) version_edit_new)) (demo_store_version 300) = Inr v'"
    using level0_edit [of demo_options "demo_store_version 300" f "Timestamp 30"] v fw(2-4) mx by (simp add: l0 m) blast
  then obtain v' where v': "edit_version demo_options (add_file 0 f (set_min_xip (Timestamp 30) version_edit_new))
      (demo_store_version 300) = Inr v'" by blast
  have x: "\<not> ts_lt (Timestamp 30) (vs_min_xip (db_vset db1))" unfolding fw(5) by code_simp
  have y: "ve_min_xip (add_file 0 f (set_min_xip (Timestamp 30) version_edit_new)) = Some (Timestamp 30)"
    by (simp add: add_file_def set_min_xip_def)
  have "wal_append std_wire (ser_full (de_log demo_env) xid r) wal1 = Inr ((9, 17), wal2)" for xid r
    using w(3) by (simp add: demo_env_def)
  then obtain vs' where "log_and_apply std_wire (de_log demo_env) std_manifest_codec demo_options 6
      (add_file 0 f (set_min_xip (Timestamp 30) version_edit_new)) 9 (db_vset db1, wal1, cm0) = Inr (vs', wal_flush (Some 17) wal2, cm')"
    using log_and_apply_done [OF v' [folded fw(9)] y x _ cm'] by blast
  then have "\<exists>db2. flush_install demo_env 6 (Timestamp 30) 9 f db1 = Inr (True, db2)"
    using fw(6-8) by (simp add: flush_install_def demo_db_facts unwrap_res_def Let_def) (simp add: demo_env_def std_env_def)
  then obtain db2 where i: "flush_install demo_env 6 (Timestamp 30) 9 f db1 = Inr (True, db2)" by blast
  have "map_of (storage_entries (\<lambda>_. demo_entries) (db_imm ?db) (vs_current (db_vset ?db))) 300 = Some 30"
    by (simp add: demo_db_facts demo_imm_facts storage_entries_def demo_entries_def)
  moreover have "db_imm db2 = [] \<and> storage_entries ents' [] (vs_current (db_vset db2)) =
      storage_entries (\<lambda>_. demo_entries) (db_imm ?db) (vs_current (db_vset ?db))"
  proof -
    have "\<not> 2 ^ 32 \<le> file_size f" using fw(1) d(3) by simp
    then show ?thesis using f(2) i by blast
  qed
  ultimately have "db_imm db2 = []" "map_of (storage_entries ents' [] (vs_current (db_vset db2))) 300 = Some 30" by simp_all
  then show ?thesis using d(1,2) w(1,2) cm0(1) f(1) i by (intro exI conjI)
qed

end
