(* ===== verification/Flush_Protocol.thy ===== *)
theory Flush_Protocol
  imports Flush
begin

text \<open>
  Several background flushes at once (\<open>background_flush\<close> of \<open>db.rs\<close>). A flush that runs in a thread of the
  pool is in one of the phases below; a step is one phase of one flush, a move of a flush at a rendezvous point, or
  anything else that happens to the database. The flushes meet at two rendezvous points, where only the one with the
  smallest minimum may pass and the others wait on a condition variable. Waiting is modelled as it is in the code: a flush that
  finds that it is not its turn takes the mutex of the event, lets go of \<open>imm_tables\<close>, and only then
  waits. As \<open>notify_all\<close> is called with \<open>imm_tables\<close> locked but without that mutex, a notification
  can fall between the two, and is lost for that flush; \<open>missed\<close> records it. A panic ends a flush, leaves its
  entry behind and poisons the locks it holds.
\<close>

section \<open>Phases\<close>

text \<open>
  At a rendezvous point: about to lock and look (\<open>Checking\<close>), has looked and holds the mutex of the event
  (\<open>Deciding\<close>), is in \<open>Condvar::wait\<close> (\<open>Sleeping\<close>), has been notified and has to take the mutex again
  (\<open>Woken\<close>). The flag tells whether a notification was missed.
\<close>

datatype waiting = Checking | Deciding (missed: bool) | Sleeping (missed: bool) | Woken

text \<open>A flush that panicked keeps the phase it was in, for the entry that it leaves in the collections.\<close>

datatype ('k, 'v) flush_phase =
    Started
  | Sampled timestamp log_pointer
  | Registered timestamp log_pointer
  | Collected timestamp log_pointer "('k, 'v) imm_table" waiting
  | Published timestamp log_pointer "('k, 'v) imm_table"
  | Cleaned timestamp log_pointer "('k, 'v) imm_table"
  | Written timestamp log_pointer "'k table_file_meta" waiting
  | Installed
  | Panicked "('k, 'v) flush_phase"

type_synonym ('k, 'v) flushes = "nat \<Rightarrow> ('k, 'v) flush_phase option"

text \<open>The locks whose write guards a flush holds, which are poisoned when it panics.\<close>

datatype lock = ImmTables | VSet

type_synonym ('k, 'v, 't, 's) flush_state = "('k, 'v, 't, 's) db \<times> lock set \<times> ('k, 'v) flushes"

text \<open>What the flushes see of the database and of the jobs.\<close>

definition flush_view :: "('k, 'v, 't, 's) db \<Rightarrow> timestamp list \<times> (timestamp \<times> ('k, 'v) imm_table) list \<times> nat \<times> nat" where
  "flush_view db = (db_collect db, db_imm db, db_flushing_threads db, count_list (db_jobs db) FlushJob)"

section \<open>Condition variables\<close>

fun notified :: "waiting \<Rightarrow> waiting" where
  "notified (Deciding _) = Deciding True"
| "notified (Sleeping _) = Woken"
| "notified w = w"

fun wake_collector :: "('k, 'v) flush_phase \<Rightarrow> ('k, 'v) flush_phase" where
  "wake_collector (Collected mx lsn imt w) = Collected mx lsn imt (notified w)"
| "wake_collector p = p"

fun wake_flusher :: "('k, 'v) flush_phase \<Rightarrow> ('k, 'v) flush_phase" where
  "wake_flusher (Written mx lsn f w) = Written mx lsn f (notified w)"
| "wake_flusher p = p"

text \<open>\<open>notify_all\<close> on the event of the first and of the second rendezvous point.\<close>

definition notify_all :: "(('k, 'v) flush_phase \<Rightarrow> ('k, 'v) flush_phase) \<Rightarrow> ('k, 'v) flushes \<Rightarrow> ('k, 'v) flushes" where
  "notify_all wake T = (\<lambda>i. map_option wake (T i))"

text \<open>Who holds the mutex of an event.\<close>

fun holds_collect_mutex :: "('k, 'v) flush_phase \<Rightarrow> bool" where
  "holds_collect_mutex (Collected mx lsn imt (Deciding m)) \<longleftrightarrow> True"
| "holds_collect_mutex p \<longleftrightarrow> False"

fun holds_flush_mutex :: "('k, 'v) flush_phase \<Rightarrow> bool" where
  "holds_flush_mutex (Written mx lsn f (Deciding m)) \<longleftrightarrow> True"
| "holds_flush_mutex p \<longleftrightarrow> False"

definition mutex_free :: "(('k, 'v) flush_phase \<Rightarrow> bool) \<Rightarrow> ('k, 'v) flushes \<Rightarrow> bool" where
  "mutex_free holds T \<longleftrightarrow> (\<forall>p\<in>ran T. \<not> holds p)"

section \<open>Panics\<close>

text \<open>
  Where a flush panics, and what is left: the phase functions fail, or a lock is poisoned. What the phase did to the
  rest of the database until then is left open. In the first rendezvous point the flush has already left the set of
  collectors when it meets \<open>unreachable!()\<close>.
\<close>

inductive flush_panics ::
  "('k::linorder, 'v, 'b, 't, 's) db_env \<Rightarrow> ('k, 'v, 't, 's) db \<times> lock set \<Rightarrow> ('k, 'v) flush_phase
    \<Rightarrow> ('k, 'v, 't, 's) db \<times> lock set \<Rightarrow> ('k, 'v) flush_phase \<Rightarrow> bool"
  for env where
  panic_sample: "\<lbrakk>flush_min_xip env db = Inl e; flush_view db' = flush_view db\<rbrakk> \<Longrightarrow>
    flush_panics env (db, P) Started (db', P) Started"
| panic_enter: "ImmTables \<in> P \<Longrightarrow> flush_panics env (db, P) (Sampled mx lsn) (db, P) Started"
| panic_collect: "\<lbrakk>flush_collect (de_options env) ks mx db = Inl e \<or>
      flush_collect (de_options env) ks mx db = Inr (None, db1) \<and> ImmTables \<in> P; flush_view db' = flush_view db\<rbrakk> \<Longrightarrow>
    flush_panics env (db, P) (Registered mx lsn) (db', P) (Registered mx lsn)"
| panic_look: "ImmTables \<in> P \<Longrightarrow>
    flush_panics env (db, P) (Collected mx lsn imt Checking) (db, P) (Collected mx lsn imt Checking)"
| panic_publish: "\<lbrakk>ImmTables \<notin> P; flush_publish mx imt db = Inl e\<rbrakk> \<Longrightarrow>
    flush_panics env (db, P) (Collected mx lsn imt Checking)
      (db\<lparr>db_collect := oset_remove ts_cmp mx (db_collect db)\<rparr>, insert ImmTables P) Started"
| panic_cleanup: "\<lbrakk>flush_cleanup (de_options env) envs ks mx db = Inl e; flush_view db' = flush_view db\<rbrakk> \<Longrightarrow>
    flush_panics env (db, P) (Published mx lsn imt) (db', P) (Published mx lsn imt)"
| panic_write: "\<lbrakk>VSet \<in> P \<or> write_level0_table env imt mx db = Inl e; flush_view db' = flush_view db\<rbrakk> \<Longrightarrow>
    flush_panics env (db, P) (Cleaned mx lsn imt) (db', P) (Cleaned mx lsn imt)"
| panic_look_again: "VSet \<in> P \<or> ImmTables \<in> P \<Longrightarrow>
    flush_panics env (db, P) (Written mx lsn f Checking) (db, insert VSet P) (Written mx lsn f Checking)"
| panic_install: "\<lbrakk>P = {}; flush_install env now mx lsn f db = Inl e; flush_view db' = flush_view db\<rbrakk> \<Longrightarrow>
    flush_panics env (db, P) (Written mx lsn f Checking) (db', {VSet, ImmTables}) (Written mx lsn f Checking)"
| panic_finish: "\<lbrakk>flush_finish (de_options env) spawns db = Inl e; flush_view db' = flush_view db\<rbrakk> \<Longrightarrow>
    flush_panics env (db, P) Installed (db', P) Installed"

section \<open>Steps\<close>

text \<open>Who makes a step: a flush, a spurious wakeup of one, which \<open>Condvar::wait\<close> allows, or the rest of the program.\<close>

datatype actor = ByFlush nat | Spuriously nat | ByOther

inductive flush_step ::
  "('k::linorder, 'v, 'b, 't, 's) db_env \<Rightarrow> actor \<Rightarrow> ('k, 'v, 't, 's) flush_state \<Rightarrow> ('k, 'v, 't, 's) flush_state \<Rightarrow> bool"
  for env where
  step_other: "\<lbrakk>flush_view db' = flush_view db; P \<subseteq> P'; P' \<subseteq> insert VSet P\<rbrakk> \<Longrightarrow>
    flush_step env ByOther (db, P, T) (db', P', T)"
| step_schedule: "flush_memtable (de_options env) spawns db = (db', r) \<Longrightarrow> flush_step env ByOther (db, P, T) (db', P, T)"
| step_start: "\<lbrakk>T i = None; db_jobs db = a @ FlushJob # b\<rbrakk> \<Longrightarrow>
    flush_step env (ByFlush i) (db, P, T) (db\<lparr>db_jobs := a @ b\<rparr>, P, T(i \<mapsto> Started))"
| step_sample: "\<lbrakk>T i = Some Started; flush_min_xip env db = Inr (mx, db')\<rbrakk> \<Longrightarrow>
    flush_step env (ByFlush i) (db, P, T) (db', P, T(i \<mapsto> Sampled mx (wal_current_lsn (db_wal db))))"
| step_enter: "\<lbrakk>T i = Some (Sampled mx lsn); ImmTables \<notin> P; flush_enter mx lsn db = (Some r, db')\<rbrakk> \<Longrightarrow>
    flush_step env (ByFlush i) (db, P, T) (db', P, T(i \<mapsto> Registered mx lsn))"
| step_duplicate: "\<lbrakk>T i = Some (Sampled mx lsn); ImmTables \<notin> P; flush_enter mx lsn db = (None, db')\<rbrakk> \<Longrightarrow>
    flush_step env (ByFlush i) (db, P, T) (db', P, T(i := None))"
| step_collect: "\<lbrakk>T i = Some (Registered mx lsn); flush_collect (de_options env) ks mx db = Inr (Some imt, db')\<rbrakk> \<Longrightarrow>
    flush_step env (ByFlush i) (db, P, T) (db', P, T(i \<mapsto> Collected mx lsn imt Checking))"
| step_few: "\<lbrakk>T i = Some (Registered mx lsn); ImmTables \<notin> P; flush_collect (de_options env) ks mx db = Inr (None, db')\<rbrakk> \<Longrightarrow>
    flush_step env (ByFlush i) (db, P, T) (db', P, notify_all wake_collector (T(i := None)))"
| step_publish: "\<lbrakk>T i = Some (Collected mx lsn imt Checking); ImmTables \<notin> P; flush_publish mx imt db = Inr (True, db')\<rbrakk> \<Longrightarrow>
    flush_step env (ByFlush i) (db, P, T) (db', P, notify_all wake_collector (T(i \<mapsto> Published mx lsn imt)))"
| step_decide: "\<lbrakk>T i = Some (Collected mx lsn imt Checking); ImmTables \<notin> P; flush_publish mx imt db = Inr (False, db');
      mutex_free holds_collect_mutex T\<rbrakk> \<Longrightarrow>
    flush_step env (ByFlush i) (db, P, T) (db', P, T(i \<mapsto> Collected mx lsn imt (Deciding False)))"
| step_sleep: "T i = Some (Collected mx lsn imt (Deciding m)) \<Longrightarrow>
    flush_step env (ByFlush i) (db, P, T) (db, P, T(i \<mapsto> Collected mx lsn imt (Sleeping m)))"
| step_return: "\<lbrakk>T i = Some (Collected mx lsn imt Woken); mutex_free holds_collect_mutex T\<rbrakk> \<Longrightarrow>
    flush_step env (ByFlush i) (db, P, T) (db, P, T(i \<mapsto> Collected mx lsn imt Checking))"
| step_spurious: "T i = Some (Collected mx lsn imt (Sleeping m)) \<Longrightarrow>
    flush_step env (Spuriously i) (db, P, T) (db, P, T(i \<mapsto> Collected mx lsn imt Woken))"
| step_cleanup: "\<lbrakk>T i = Some (Published mx lsn imt); flush_cleanup (de_options env) envs ks mx db = Inr db'\<rbrakk> \<Longrightarrow>
    flush_step env (ByFlush i) (db, P, T) (db', P, T(i \<mapsto> Cleaned mx lsn imt))"
| step_write: "\<lbrakk>T i = Some (Cleaned mx lsn imt); VSet \<notin> P; write_level0_table env imt mx db = Inr (f, db')\<rbrakk> \<Longrightarrow>
    flush_step env (ByFlush i) (db, P, T) (db', P, T(i \<mapsto> Written mx lsn f Checking))"
| step_install: "\<lbrakk>T i = Some (Written mx lsn f Checking); P = {}; flush_install env now mx lsn f db = Inr (True, db')\<rbrakk> \<Longrightarrow>
    flush_step env (ByFlush i) (db, P, T) (db', P, notify_all wake_flusher (T(i \<mapsto> Installed)))"
| step_decide_again: "\<lbrakk>T i = Some (Written mx lsn f Checking); P = {}; flush_install env now mx lsn f db = Inr (False, db');
      mutex_free holds_flush_mutex T\<rbrakk> \<Longrightarrow>
    flush_step env (ByFlush i) (db, P, T) (db', P, T(i \<mapsto> Written mx lsn f (Deciding False)))"
| step_sleep_again: "T i = Some (Written mx lsn f (Deciding m)) \<Longrightarrow>
    flush_step env (ByFlush i) (db, P, T) (db, P, T(i \<mapsto> Written mx lsn f (Sleeping m)))"
| step_return_again: "\<lbrakk>T i = Some (Written mx lsn f Woken); mutex_free holds_flush_mutex T\<rbrakk> \<Longrightarrow>
    flush_step env (ByFlush i) (db, P, T) (db, P, T(i \<mapsto> Written mx lsn f Checking))"
| step_spurious_again: "T i = Some (Written mx lsn f (Sleeping m)) \<Longrightarrow>
    flush_step env (Spuriously i) (db, P, T) (db, P, T(i \<mapsto> Written mx lsn f Woken))"
| step_finish: "\<lbrakk>T i = Some Installed; flush_finish (de_options env) spawns db = Inr db'\<rbrakk> \<Longrightarrow>
    flush_step env (ByFlush i) (db, P, T) (db', P, T(i := None))"
| step_panic: "\<lbrakk>T i = Some p; flush_panics env (db, P) p (db', P') q\<rbrakk> \<Longrightarrow>
    flush_step env (ByFlush i) (db, P, T) (db', P', T(i \<mapsto> Panicked q))"

text \<open>Runs in which the minima stay below the bound up to which timestamps are ordered.\<close>

definition flush_run ::
  "('k::linorder, 'v, 'b, 't, 's) db_env \<Rightarrow> ('k, 'v, 't, 's) flush_state \<Rightarrow> ('k, 'v, 't, 's) flush_state \<Rightarrow> bool" where
  "flush_run env s s' \<longleftrightarrow> (\<exists>a. flush_step env a s s') \<and> (\<forall>x\<in>set (db_collect (fst s')). ts_near x)"

text \<open>Steps of flushes alone, without spurious wakeups.\<close>

definition flush_moves ::
  "('k::linorder, 'v, 'b, 't, 's) db_env \<Rightarrow> ('k, 'v, 't, 's) flush_state \<Rightarrow> ('k, 'v, 't, 's) flush_state \<Rightarrow> bool" where
  "flush_moves env s s' \<longleftrightarrow> (\<exists>i. flush_step env (ByFlush i) s s')"

text \<open>Whether the check at the rendezvous point of a flush lets it pass, and whether it is past that check and waits.\<close>

fun its_turn :: "('k, 'v, 't, 's) db \<Rightarrow> ('k, 'v) flush_phase \<Rightarrow> bool" where
  "its_turn db (Collected mx lsn imt w) \<longleftrightarrow> oset_first (db_collect db) = Some mx"
| "its_turn db (Written mx lsn f w) \<longleftrightarrow> oset_first (map fst (db_imm db)) = Some mx"
| "its_turn db _ \<longleftrightarrow> True"

fun waiting_of :: "('k, 'v) flush_phase \<Rightarrow> waiting option" where
  "waiting_of (Collected mx lsn imt w) = Some w"
| "waiting_of (Written mx lsn f w) = Some w"
| "waiting_of _ = None"

definition waits :: "('k, 'v) flush_phase \<Rightarrow> bool" where
  "waits p \<longleftrightarrow> (\<exists>m. waiting_of p = Some (Deciding m) \<or> waiting_of p = Some (Sleeping m))"

definition asleep :: "('k, 'v) flush_phase \<Rightarrow> bool" where
  "asleep p \<longleftrightarrow> (\<exists>m. waiting_of p = Some (Sleeping m))"

definition lost_wakeup :: "('k, 'v, 't, 's) db \<Rightarrow> ('k, 'v) flush_phase \<Rightarrow> bool" where
  "lost_wakeup db p \<longleftrightarrow> its_turn db p \<and> waits p \<and> missed (the (waiting_of p))"

fun panicked :: "('k, 'v) flush_phase \<Rightarrow> bool" where
  "panicked (Panicked p) \<longleftrightarrow> True"
| "panicked p \<longleftrightarrow> False"

text \<open>How far a flush is; one that ended comes last.\<close>

fun stage_of :: "('k, 'v) flush_phase option \<Rightarrow> nat" where
  "stage_of (Some Started) = 0"
| "stage_of (Some (Sampled mx lsn)) = 1"
| "stage_of (Some (Registered mx lsn)) = 2"
| "stage_of (Some (Collected mx lsn imt w)) = 3"
| "stage_of (Some (Published mx lsn imt)) = 4"
| "stage_of (Some (Cleaned mx lsn imt)) = 5"
| "stage_of (Some (Written mx lsn f w)) = 6"
| "stage_of (Some Installed) = 7"
| "stage_of (Some (Panicked p)) = 8"
| "stage_of None = 9"

section \<open>Who owns an entry\<close>

fun collecting :: "('k, 'v) flush_phase \<Rightarrow> timestamp option" where
  "collecting (Registered mx lsn) = Some mx"
| "collecting (Collected mx lsn imt w) = Some mx"
| "collecting (Panicked p) = collecting p"
| "collecting _ = None"

fun flushing :: "('k, 'v) flush_phase \<Rightarrow> timestamp option" where
  "flushing (Published mx lsn imt) = Some mx"
| "flushing (Cleaned mx lsn imt) = Some mx"
| "flushing (Written mx lsn f w) = Some mx"
| "flushing (Panicked p) = flushing p"
| "flushing _ = None"

text \<open>Every entry belongs to one flush, and a flush in the stage has its entry.\<close>

definition owned :: "(nat \<Rightarrow> timestamp option) \<Rightarrow> timestamp set \<Rightarrow> bool" where
  "owned g X \<longleftrightarrow> ran g = X \<and> inj_on g (dom g)"

definition in_stage :: "('p \<Rightarrow> timestamp option) \<Rightarrow> (nat \<Rightarrow> 'p option) \<Rightarrow> nat \<Rightarrow> timestamp option" where
  "in_stage stage T i = Option.bind (T i) stage"

lemma in_stage_upd: "in_stage stage (T(i := p)) = (in_stage stage T)(i := Option.bind p stage)"
  by (auto simp: in_stage_def)

lemma owned_insert:
  assumes "owned g X" "x \<notin> X" "g i = None"
  shows "owned (g(i \<mapsto> x)) (insert x X)"
proof -
  have "ran (g(i \<mapsto> x)) = insert x X" using assms by (simp add: owned_def)
  moreover have "inj_on (g(i \<mapsto> x)) (insert i (dom g))"
    using assms by (auto simp: owned_def inj_on_def dom_def ran_def)
  ultimately show ?thesis by (simp add: owned_def)
qed

lemma owned_remove:
  assumes "owned g X" "g i = Some x"
  shows "owned (g(i := None)) (X - {x})"
proof -
  have only: "j = i" if "g j = Some x" for j using that assms by (auto simp: owned_def inj_on_def dom_def)
  have "y \<in> ran (g(i := None)) \<longleftrightarrow> y \<in> X - {x}" for y
  proof
    assume "y \<in> ran (g(i := None))"
    then obtain j where "j \<noteq> i" "g j = Some y" by (auto simp: ran_def split: if_splits)
    then show "y \<in> X - {x}" using only assms(1) by (auto simp: owned_def ran_def)
  next
    assume "y \<in> X - {x}"
    then obtain j where "g j = Some y" "y \<noteq> x" using assms(1) by (auto simp: owned_def ran_def)
    then have "(g(i := None)) j = Some y" using assms(2) by auto
    then show "y \<in> ran (g(i := None))" by (rule ranI)
  qed
  then have "ran (g(i := None)) = X - {x}" by blast
  moreover have "inj_on (g(i := None)) (dom (g(i := None)))"
    using assms(1) by (auto simp: owned_def inj_on_def)
  ultimately show ?thesis by (simp add: owned_def)
qed

lemma owned_owner: "\<lbrakk>owned g X; x \<in> X\<rbrakk> \<Longrightarrow> \<exists>i. g i = Some x"
  by (auto simp: owned_def ran_def)

section \<open>What the phases change\<close>

lemma flush_min_xip_view: "flush_min_xip env db = Inr (mx, db') \<Longrightarrow> flush_view db' = flush_view db"
  by (auto simp: flush_min_xip_def flush_view_def res_bind_eq_Inr split: prod.splits option.splits)

lemma schedule_compaction_view: "schedule_compaction opt spawns db = (db', r) \<Longrightarrow> flush_view db' = flush_view db"
  by (auto simp: schedule_compaction_def schedule_def flush_view_def split: if_splits sum.splits)

lemma flush_cleanup_view: "flush_cleanup opt envs ks mx db = Inr db' \<Longrightarrow> flush_view db' = flush_view db"
  by (auto simp: flush_cleanup_def flush_view_def res_bind_eq_Inr)

lemma write_level0_view: "write_level0_table env imt mx db = Inr (f, db') \<Longrightarrow> flush_view db' = flush_view db"
  by (auto simp: write_level0_table_def flush_view_def res_bind_eq_Inr Let_def split: if_splits prod.splits)

text \<open>The phases that change the collections.\<close>

lemma flush_enter_new:
  assumes "flush_enter mx lsn db = (Some r, db')"
  shows "flush_view db' = (oset_insert ts_cmp mx (db_collect db), snd (flush_view db)) \<and> \<not> oset_contains ts_cmp mx (db_collect db)"
  using assms by (auto simp: flush_enter_def flush_view_def split: if_splits)

lemma flush_enter_duplicate:
  "flush_enter mx lsn db = (None, db') \<Longrightarrow>
    flush_view db' = (db_collect db, db_imm db, db_flushing_threads db - 1, count_list (db_jobs db) FlushJob)"
  by (auto simp: flush_enter_def flush_view_def flush_leave_def split: if_splits)

lemma flush_collect_enough: "flush_collect opt ks mx db = Inr (Some imt, db') \<Longrightarrow> flush_view db' = flush_view db"
  by (auto simp: flush_collect_def res_bind_eq_Inr Let_def flush_view_def split: if_splits)

lemma flush_collect_few:
  "flush_collect opt ks mx db = Inr (None, db') \<Longrightarrow> flush_view db' =
    (oset_remove ts_cmp mx (db_collect db), db_imm db, db_flushing_threads db - 1, count_list (db_jobs db) FlushJob)"
  by (auto simp: flush_collect_def res_bind_eq_Inr Let_def flush_view_def flush_leave_def split: if_splits)

lemma flush_publish_done:
  "flush_publish mx imt db = Inr (True, db') \<Longrightarrow> omap_get ts_cmp mx (db_imm db) = None \<and> flush_view db' =
    (oset_remove ts_cmp mx (db_collect db), omap_insert ts_cmp mx imt (db_imm db), snd (snd (flush_view db)))"
  by (auto simp: flush_publish_def flush_view_def split: if_splits option.splits)

lemma flush_publish_waits: "flush_publish mx imt db = Inr (False, db') \<Longrightarrow> db' = db \<and> oset_first (db_collect db) \<noteq> Some mx"
  by (auto simp: flush_publish_def split: if_splits option.splits)

lemma flush_install_waits:
  "flush_install env now mx lsn f db = Inr (False, db') \<Longrightarrow> db' = db \<and> oset_first (map fst (db_imm db)) \<noteq> Some mx"
  by (auto simp: flush_install_def res_bind_eq_Inr Let_def split: if_splits list.splits)

lemma flush_install_done:
  "flush_install env now mx lsn f db = Inr (True, db') \<Longrightarrow> flush_view db' =
    (db_collect db, omap_remove ts_cmp mx (db_imm db), snd (snd (flush_view db)))"
  by (auto simp: flush_install_def flush_view_def res_bind_eq_Inr Let_def split: if_splits list.splits)

lemma flush_finish_done:
  assumes "flush_finish opt spawns db = Inr db'"
  shows "0 < db_flushing_threads db \<and>
    flush_view db' = (db_collect db, db_imm db, db_flushing_threads db - 1, count_list (db_jobs db) FlushJob)"
proof -
  obtain db1 r where s: "schedule_compaction opt spawns db = (db1, r)" by fastforce
  note v = schedule_compaction_view [OF s]
  have "0 < db_flushing_threads db1" "db' = db1\<lparr>db_flushing_threads := db_flushing_threads db1 - 1\<rparr>"
    using assms s by (auto simp: flush_finish_def res_bind_eq_Inr split: if_splits)
  then show ?thesis using v by (simp add: flush_view_def)
qed

lemma flush_memtable_done:
  assumes "flush_memtable opt spawns db = (db', r)"
  shows "flush_view db' = flush_view db \<or> db_flushing_threads db < max_background_flushes opt \<and>
    flush_view db' = (db_collect db, db_imm db, db_flushing_threads db + 1, count_list (db_jobs db) FlushJob + 1)"
  using assms by (auto simp: flush_memtable_def schedule_def flush_view_def Let_def split: if_splits sum.splits)

section \<open>The invariant\<close>

definition flush_inv :: "nat \<Rightarrow> timestamp list \<times> (timestamp \<times> ('k, 'v) imm_table) list \<times> nat \<times> nat \<Rightarrow> ('k, 'v) flushes \<Rightarrow> bool" where
  "flush_inv limit = (\<lambda>(collect, imm, threads, queued) T.
     tso.ordered collect \<and> owned (in_stage collecting T) (set collect) \<and>
     tso.ordered (map fst imm) \<and> owned (in_stage flushing T) (fst ` set imm) \<and>
     finite (dom T) \<and> threads = card (dom T) + queued \<and> threads \<le> limit)"

lemma imm_keys:
  assumes "ts_near mx" "tso.ordered (map fst imm)"
  shows "fst ` set (omap_insert ts_cmp mx imt imm) = insert mx (fst ` set imm)" "fst ` set (omap_remove ts_cmp mx imm) = fst ` set imm - {mx}"
    "omap_get ts_cmp mx imm = None \<longleftrightarrow> mx \<notin> fst ` set imm"
  using tso.omap_insert_keys [OF assms, of imt] tso.omap_remove_keys [of mx imm] tso.set_oset_insert [OF assms]
    tso.set_oset_remove [OF assms] tso.omap_get_eq_map_of [OF assms]
  by (simp_all add: map_of_eq_None_iff flip: set_map)

text \<open>How it is kept when one flush goes from a phase to the next.\<close>

lemma in_stage_Some: "T i = Some p \<Longrightarrow> in_stage stage T i = stage p"
  by (simp add: in_stage_def)

lemma in_stage_same: "in_stage stage T i = Option.bind p stage \<Longrightarrow> in_stage stage (T(i := p)) = in_stage stage T"
  unfolding in_stage_upd by (rule fun_upd_idem)

lemma dom_phase:
  assumes "finite (dom T)" "T i = Some p"
  shows "finite (dom (T(i \<mapsto> q)))" "card (dom (T(i \<mapsto> q))) = card (dom T)" "finite (dom (T(i := None)))"
    "Suc (card (dom (T(i := None)))) = card (dom T)"
proof -
  have "i \<in> dom T" using assms(2) by auto
  then show "finite (dom (T(i \<mapsto> q)))" "card (dom (T(i \<mapsto> q))) = card (dom T)" "finite (dom (T(i := None)))"
    "Suc (card (dom (T(i := None)))) = card (dom T)"
    using assms(1) card_Suc_Diff1 [of "dom T" i] by (simp_all add: insert_absorb)
qed

lemma flush_inv_near:
  assumes "flush_inv limit (c, m, t, q) T" "T i = Some p"
  shows "collecting p = Some mx \<Longrightarrow> mx \<in> set c \<and> ts_near mx" "flushing p = Some mx \<Longrightarrow> mx \<in> fst ` set m \<and> ts_near mx"
proof -
  have "stage p = Some mx \<Longrightarrow> mx \<in> ran (in_stage stage T)" for stage
    using assms(2) by (auto simp: in_stage_def intro: ranI [of _ i])
  moreover have "ran (in_stage collecting T) = set c" "ran (in_stage flushing T) = set (map fst m)"
      "\<forall>x\<in>set c. ts_near x" "\<forall>x\<in>set (map fst m). ts_near x"
    using assms(1) by (simp_all add: flush_inv_def owned_def tso.ordered_def)
  ultimately show "collecting p = Some mx \<Longrightarrow> mx \<in> set c \<and> ts_near mx" "flushing p = Some mx \<Longrightarrow> mx \<in> fst ` set m \<and> ts_near mx"
    unfolding set_map by blast+
qed

lemma flush_inv_begin:
  assumes "flush_inv limit (c, m, t, Suc q) T" "T i = None"
  shows "flush_inv limit (c, m, t, q) (T(i \<mapsto> Started))"
proof -
  have "in_stage stage (T(i \<mapsto> Started)) = in_stage stage T" if "stage Started = None" for stage
    using that assms(2) by (intro in_stage_same) (simp add: in_stage_def)
  then show ?thesis using assms by (simp add: flush_inv_def card_insert_if domIff)
qed

lemma flush_inv_move:
  assumes "flush_inv limit v T" "T i = Some p" "collecting q = collecting p" "flushing q = flushing p"
  shows "flush_inv limit v (T(i \<mapsto> q))"
proof -
  have "in_stage stage (T(i \<mapsto> q)) = in_stage stage T" if "stage q = stage p" for stage
    using that assms(2) by (intro in_stage_same) (simp add: in_stage_def)
  then show ?thesis using assms dom_phase(1,2) [where T = T and i = i and p = p and q = q] by (simp add: flush_inv_def split: prod.splits del: dom_fun_upd)
qed

lemma flush_inv_end:
  assumes "flush_inv limit (c, m, t, q) T" "T i = Some p" "collecting p = None" "flushing p = None"
  shows "flush_inv limit (c, m, t - 1, q) (T(i := None))"
proof -
  have "in_stage stage (T(i := None)) = in_stage stage T" if "stage p = None" for stage
    using that assms(2) by (intro in_stage_same) (simp add: in_stage_def)
  then show ?thesis using assms dom_phase(3,4) [where T = T and i = i and p = p] by (auto simp: flush_inv_def simp del: dom_fun_upd)
qed

lemma flush_inv_register:
  assumes "flush_inv limit (c, m, t, q) T" "T i = Some p" "collecting p = None" "flushing p = None" "ts_near mx"
    "\<not> oset_contains ts_cmp mx c"
  shows "flush_inv limit (oset_insert ts_cmp mx c, m, t, q) (T(i \<mapsto> Registered mx lsn))"
proof -
  have "in_stage flushing (T(i \<mapsto> Registered mx lsn)) = in_stage flushing T"
    using assms(2,4) by (intro in_stage_same) (simp add: in_stage_def)
  moreover have "owned (in_stage collecting (T(i \<mapsto> Registered mx lsn))) (insert mx (set c))"
    using assms by (auto simp: in_stage_upd in_stage_Some flush_inv_def tso.oset_contains_iff intro!: owned_insert)
  ultimately show ?thesis using assms dom_phase(1,2) [where T = T and i = i and p = p and q = "Registered mx lsn"]
    by (simp add: flush_inv_def tso.ordered_oset_insert tso.set_oset_insert del: dom_fun_upd)
qed

lemma flush_inv_leave:
  assumes "flush_inv limit (c, m, t, q) T" "T i = Some p" "collecting p = Some mx" "flushing p = None"
  shows "flush_inv limit (oset_remove ts_cmp mx c, m, t - 1, q) (T(i := None))"
proof -
  have n: "ts_near mx" using flush_inv_near(1) [OF assms(1-3)] by simp
  have "in_stage flushing (T(i := None)) = in_stage flushing T"
    using assms(2,4) by (intro in_stage_same) (simp add: in_stage_def)
  moreover have "owned (in_stage collecting (T(i := None))) (set c - {mx})"
    using assms by (auto simp: in_stage_upd in_stage_Some flush_inv_def intro!: owned_remove)
  ultimately show ?thesis using assms n dom_phase(3,4) [where T = T and i = i and p = p]
    by (auto simp: flush_inv_def tso.ordered_oset_remove tso.set_oset_remove simp del: dom_fun_upd)
qed

lemma flush_inv_publish:
  assumes "flush_inv limit (c, m, t, q) T" "T i = Some p" "collecting p = Some mx" "flushing p = None" "omap_get ts_cmp mx m = None"
  shows "flush_inv limit (oset_remove ts_cmp mx c, omap_insert ts_cmp mx imt m, t, q) (T(i \<mapsto> Published mx lsn imt))"
proof -
  have n: "ts_near mx" using flush_inv_near(1) [OF assms(1-3)] by simp
  have o: "tso.ordered (map fst m)" using assms(1) by (simp add: flush_inv_def)
  have "owned (in_stage collecting (T(i \<mapsto> Published mx lsn imt))) (set c - {mx})"
    using assms by (auto simp: in_stage_upd in_stage_Some flush_inv_def intro!: owned_remove)
  moreover have "owned (in_stage flushing (T(i \<mapsto> Published mx lsn imt))) (insert mx (fst ` set m))"
    using assms imm_keys(3) [OF n o] by (auto simp: in_stage_upd in_stage_Some flush_inv_def intro!: owned_insert)
  ultimately show ?thesis using assms n o dom_phase(1,2) [where T = T and i = i and p = p and q = "Published mx lsn imt"]
    by (simp add: flush_inv_def tso.ordered_oset_remove tso.set_oset_remove tso.ordered_omap_insert imm_keys(1) del: dom_fun_upd)
qed

lemma flush_inv_install:
  assumes "flush_inv limit (c, m, t, q) T" "T i = Some p" "collecting p = None" "flushing p = Some mx"
  shows "flush_inv limit (c, omap_remove ts_cmp mx m, t, q) (T(i \<mapsto> Installed))"
proof -
  have n: "ts_near mx" using flush_inv_near(2) [OF assms(1,2,4)] by simp
  have o: "tso.ordered (map fst m)" using assms(1) by (simp add: flush_inv_def)
  have "in_stage collecting (T(i \<mapsto> Installed)) = in_stage collecting T"
    using assms(2,3) by (intro in_stage_same) (simp add: in_stage_def)
  moreover have "owned (in_stage flushing (T(i \<mapsto> Installed))) (fst ` set m - {mx})"
    using assms by (auto simp: in_stage_upd in_stage_Some flush_inv_def intro!: owned_remove)
  ultimately show ?thesis using assms n o dom_phase(1,2) [where T = T and i = i and p = p and q = Installed]
    by (simp add: flush_inv_def tso.ordered_omap_remove imm_keys(2) del: dom_fun_upd)
qed

lemma flush_inv_drop:
  assumes "flush_inv limit (c, m, t, q) T" "T i = Some p" "collecting p = Some mx" "flushing p = None" "collecting p' = None" "flushing p' = None"
  shows "flush_inv limit (oset_remove ts_cmp mx c, m, t, q) (T(i \<mapsto> p'))"
proof -
  have n: "ts_near mx" using flush_inv_near(1) [OF assms(1-3)] by simp
  have "in_stage flushing (T(i \<mapsto> p')) = in_stage flushing T"
    using assms(2,4,6) by (intro in_stage_same) (simp add: in_stage_def)
  moreover have "owned (in_stage collecting (T(i \<mapsto> p'))) (set c - {mx})"
    using assms by (auto simp: in_stage_upd in_stage_Some flush_inv_def intro!: owned_remove)
  ultimately show ?thesis using assms n dom_phase(1,2) [where T = T and i = i and p = p and q = p']
    by (simp add: flush_inv_def tso.ordered_oset_remove tso.set_oset_remove del: dom_fun_upd)
qed

text \<open>A notification changes nothing of who owns what.\<close>

lemma wake_owner [simp]:
  "collecting (wake_collector p) = collecting p" "flushing (wake_collector p) = flushing p"
  "collecting (wake_flusher p) = collecting p" "flushing (wake_flusher p) = flushing p"
  by (cases p; simp)+

lemma flush_inv_notify:
  assumes "\<And>p. collecting (wake p) = collecting p" "\<And>p. flushing (wake p) = flushing p"
  shows "flush_inv limit v (notify_all wake T) \<longleftrightarrow> flush_inv limit v T"
proof -
  have "in_stage collecting (notify_all wake T) = in_stage collecting T" "in_stage flushing (notify_all wake T) = in_stage flushing T"
    "dom (notify_all wake T) = dom T"
    using assms by (auto simp: in_stage_def notify_all_def fun_eq_iff bind_map_option comp_def split: option.split)
  then show ?thesis by (cases v) (simp add: flush_inv_def)
qed

lemmas flush_inv_wake = flush_inv_notify [where wake = wake_collector, simplified] flush_inv_notify [where wake = wake_flusher, simplified]

lemma oset_insert_new: "\<not> oset_contains cmp x xs \<Longrightarrow> x \<in> set (oset_insert cmp x xs)"
  by (induction xs) (auto split: ordering.splits)

lemma flush_inv_panic:
  assumes "flush_panics env (db, P) p (db', P') q" "flush_inv limit (flush_view db) T" "T i = Some p"
  shows "flush_inv limit (flush_view db') (T(i \<mapsto> Panicked q))"
  using assms(1)
proof cases
  case (panic_publish mx imt e lsn)
  have "flush_inv limit (oset_remove ts_cmp mx (db_collect db), db_imm db, db_flushing_threads db, count_list (db_jobs db) FlushJob)
      (T(i \<mapsto> Panicked Started))"
    by (rule flush_inv_drop [OF assms(2) [unfolded flush_view_def] assms(3)]) (simp_all add: panic_publish)
  then show ?thesis using panic_publish by (simp add: flush_view_def del: fun_upd_apply)
qed (use assms(2,3) in \<open>simp_all add: flush_inv_move del: fun_upd_apply\<close>)

lemma flush_inv_step:
  assumes "flush_step env a s s'" "\<forall>x\<in>set (db_collect (fst s')). ts_near x"
    "flush_inv (max_background_flushes (de_options env)) (flush_view (fst s)) (snd (snd s))"
  shows "flush_inv (max_background_flushes (de_options env)) (flush_view (fst s')) (snd (snd s'))"
  using assms
proof (induction rule: flush_step.induct)
  case (step_schedule spawns db db' r P T)
  then show ?case using flush_memtable_done [OF step_schedule(1)] by (auto simp: flush_inv_def flush_view_def)
next
  case (step_start T i db a b P)
  then have "flush_inv (max_background_flushes (de_options env))
      (db_collect db, db_imm db, db_flushing_threads db, Suc (count_list (a @ b) FlushJob)) T"
    by (simp add: flush_view_def del: fun_upd_apply)
  from flush_inv_begin [OF this step_start(1)] show ?case by (simp add: flush_view_def del: fun_upd_apply)
next
  case (step_sample T i db mx db' P)
  then show ?case using flush_min_xip_view [OF step_sample(2)] by (auto intro: flush_inv_move simp del: fun_upd_apply)
next
  case (step_enter T i mx lsn P db r db')
  note v = flush_enter_new [OF step_enter(3)]
  have "db_collect db' = oset_insert ts_cmp mx (db_collect db)" using v by (simp add: flush_view_def)
  then have "ts_near mx" using step_enter(4) oset_insert_new v by fastforce
  then show ?case
    using flush_inv_register [OF step_enter(5) [unfolded flush_view_def fst_conv snd_conv] step_enter(1)] v
    by (simp add: flush_view_def del: fun_upd_apply)
next
  case (step_duplicate T i mx lsn P db db')
  then show ?case
    using flush_inv_end [OF step_duplicate(5) [unfolded flush_view_def fst_conv snd_conv] step_duplicate(1)]
      flush_enter_duplicate [OF step_duplicate(3)] by (simp del: fun_upd_apply)
next
  case (step_collect T i mx lsn ks db imt db' P)
  then show ?case using flush_collect_enough [OF step_collect(2)] by (auto intro: flush_inv_move simp del: fun_upd_apply)
next
  case (step_few T i mx lsn P ks db db')
  then show ?case
    using flush_inv_leave [OF step_few(5) [unfolded flush_view_def fst_conv snd_conv] step_few(1)]
      flush_collect_few [OF step_few(3)] by (simp add: flush_inv_wake del: fun_upd_apply)
next
  case (step_publish T i mx lsn imt P db db')
  then show ?case
    using flush_inv_publish [OF step_publish(5) [unfolded flush_view_def fst_conv snd_conv] step_publish(1)]
      flush_publish_done [OF step_publish(3)] by (simp add: flush_view_def flush_inv_wake del: fun_upd_apply)
next
  case (step_decide T i mx lsn imt P db db')
  then show ?case using flush_publish_waits [OF step_decide(3)] by (auto intro: flush_inv_move simp del: fun_upd_apply)
next
  case (step_cleanup T i mx lsn imt envs ks db db' P)
  then show ?case using flush_cleanup_view [OF step_cleanup(2)] by (auto intro: flush_inv_move simp del: fun_upd_apply)
next
  case (step_write T i mx lsn imt P db f db')
  then show ?case using write_level0_view [OF step_write(3)] by (auto intro: flush_inv_move simp del: fun_upd_apply)
next
  case (step_install T i mx lsn f P now db db')
  then show ?case
    using flush_inv_install [OF step_install(5) [unfolded flush_view_def fst_conv snd_conv] step_install(1)]
      flush_install_done [OF step_install(3)] by (simp add: flush_view_def flush_inv_wake del: fun_upd_apply)
next
  case (step_decide_again T i mx lsn f P now db db')
  then show ?case using flush_install_waits [OF step_decide_again(3)] by (auto intro: flush_inv_move simp del: fun_upd_apply)
next
  case (step_finish T i spawns db db' P)
  then show ?case
    using flush_inv_end [OF step_finish(4) [unfolded flush_view_def fst_conv snd_conv] step_finish(1)]
      flush_finish_done [OF step_finish(2)] by (simp del: fun_upd_apply)
next
  case (step_panic T i p db P db' P' q)
  then show ?case using flush_inv_panic [OF step_panic(2)] by (simp del: fun_upd_apply)
qed (auto intro: flush_inv_move simp del: fun_upd_apply)

section \<open>Who sleeps\<close>

text \<open>
  A flush that decided to wait although it is its turn, and has missed no notification since; and that each mutex has at most one
  holder. When the lock of the immutable tables is poisoned, some flush has panicked.
\<close>

fun unseen :: "timestamp list \<Rightarrow> timestamp list \<Rightarrow> ('k, 'v) flush_phase \<Rightarrow> bool" where
  "unseen c ks (Collected mx lsn imt w) \<longleftrightarrow> (w = Deciding False \<or> w = Sleeping False) \<and> oset_first c = Some mx"
| "unseen c ks (Written mx lsn f w) \<longleftrightarrow> (w = Deciding False \<or> w = Sleeping False) \<and> oset_first ks = Some mx"
| "unseen c ks p \<longleftrightarrow> False"

definition alone :: "(('k, 'v) flush_phase \<Rightarrow> bool) \<Rightarrow> ('k, 'v) flushes \<Rightarrow> bool" where
  "alone holds T \<longleftrightarrow> (\<forall>i j p q. T i = Some p \<longrightarrow> T j = Some q \<longrightarrow> holds p \<longrightarrow> holds q \<longrightarrow> i = j)"

definition sleep_inv :: "lock set \<Rightarrow> timestamp list \<Rightarrow> timestamp list \<Rightarrow> ('k, 'v) flushes \<Rightarrow> bool" where
  "sleep_inv P c ks T \<longleftrightarrow> (ImmTables \<in> P \<longrightarrow> (\<exists>i q. T i = Some (Panicked q))) \<and>
     alone holds_collect_mutex T \<and> alone holds_flush_mutex T \<and> (ImmTables \<notin> P \<longrightarrow> (\<forall>p\<in>ran T. \<not> unseen c ks p))"

lemma alone_upd:
  assumes "alone holds T" "\<And>q. p = Some q \<Longrightarrow> holds q \<Longrightarrow> mutex_free holds T"
  shows "alone holds (T(i := p))"
proof -
  have "\<not> holds r" if "T j = Some r" "p = Some q" "holds q" for j r q
    using assms(2) [OF that(2,3)] that(1) by (auto simp: mutex_free_def intro: ranI)
  then show ?thesis using assms(1) unfolding alone_def fun_upd_apply by (metis (full_types))
qed

lemma alone_notify: "(\<And>p. holds (wake p) \<longleftrightarrow> holds p) \<Longrightarrow> alone holds (notify_all wake T) \<longleftrightarrow> alone holds T"
  by (fastforce simp: alone_def notify_all_def)

lemma wake_holds [simp]:
  "holds_collect_mutex (wake_collector p) = holds_collect_mutex p" "holds_flush_mutex (wake_collector p) = holds_flush_mutex p"
  "holds_collect_mutex (wake_flusher p) = holds_collect_mutex p" "holds_flush_mutex (wake_flusher p) = holds_flush_mutex p"
proof -
  have "holds_collect_mutex (Collected mx lsn imt (notified w)) = holds_collect_mutex (Collected mx lsn imt w)" for mx lsn w and imt :: "('a, 'b) imm_table"
    by (cases w) simp_all
  then show "holds_collect_mutex (wake_collector p) = holds_collect_mutex p" by (cases p) simp_all
  have "holds_flush_mutex (Written mx lsn f (notified w) :: ('a, 'b) flush_phase) = holds_flush_mutex (Written mx lsn f w :: ('a, 'b) flush_phase)"
    for mx lsn w and f :: "'a table_file_meta"
    by (cases w) simp_all
  then show "holds_flush_mutex (wake_flusher p) = holds_flush_mutex p" by (cases p) simp_all
qed (cases p; simp)+

lemma notified_not_unseen: "notified w \<noteq> Deciding False" "notified w \<noteq> Sleeping False"
  by (cases w; simp)+

lemma ran_notify: "ran (notify_all wake T) = wake ` ran T"
  by (auto simp: ran_def notify_all_def)

lemma notify_panicked:
  "(\<exists>i q. notify_all wake_collector T i = Some (Panicked q)) \<longleftrightarrow> (\<exists>i q. T i = Some (Panicked q))"
  "(\<exists>i q. notify_all wake_flusher T i = Some (Panicked q)) \<longleftrightarrow> (\<exists>i q. T i = Some (Panicked q))"
proof -
  have "wake_collector p = Panicked q \<longleftrightarrow> p = Panicked q" "wake_flusher p = Panicked q \<longleftrightarrow> p = Panicked q" for p q :: "('a, 'b) flush_phase"
    by (cases p; simp)+
  then show "(\<exists>i q. notify_all wake_collector T i = Some (Panicked q)) \<longleftrightarrow> (\<exists>i q. T i = Some (Panicked q))"
    "(\<exists>i q. notify_all wake_flusher T i = Some (Panicked q)) \<longleftrightarrow> (\<exists>i q. T i = Some (Panicked q))"
    by (auto simp: notify_all_def)
qed

text \<open>After a notification nobody waits in vain at that rendezvous point, whoever is the first there now.\<close>

lemma sleep_collect: "sleep_inv P c ks T \<Longrightarrow> sleep_inv P c' ks (notify_all wake_collector T)"
proof -
  have "\<not> unseen c ks p \<Longrightarrow> \<not> unseen c' ks (wake_collector p)" for p :: "('a, 'b) flush_phase"
    using notified_not_unseen by (cases p) auto
  then show "sleep_inv P c ks T \<Longrightarrow> sleep_inv P c' ks (notify_all wake_collector T)"
    by (auto simp: sleep_inv_def alone_notify ran_notify notify_panicked)
qed

lemma sleep_flush: "sleep_inv P c ks T \<Longrightarrow> sleep_inv P c ks' (notify_all wake_flusher T)"
proof -
  have "\<not> unseen c ks p \<Longrightarrow> \<not> unseen c ks' (wake_flusher p)" for p :: "('a, 'b) flush_phase"
    using notified_not_unseen by (cases p) auto
  then show "sleep_inv P c ks T \<Longrightarrow> sleep_inv P c ks' (notify_all wake_flusher T)"
    by (auto simp: sleep_inv_def alone_notify ran_notify notify_panicked)
qed

text \<open>A new entry does not make it the turn of another flush.\<close>

lemma first_insert: "oset_first (oset_insert cmp x xs) = Some y \<Longrightarrow> y = x \<or> oset_first xs = Some y"
  by (cases xs) (auto split: ordering.splits)

lemma sleep_enter:
  assumes "sleep_inv P c ks T" "\<And>p. p \<in> ran T \<Longrightarrow> collecting p \<noteq> Some mx"
  shows "sleep_inv P (oset_insert ts_cmp mx c) ks T"
proof -
  have "\<not> unseen (oset_insert ts_cmp mx c) ks p" if "p \<in> ran T" "\<not> unseen c ks p" for p
    using assms(2) [OF that(1)] that(2) by (cases p) (auto dest!: first_insert)
  then show ?thesis using assms(1) by (auto simp: sleep_inv_def)
qed

lemma sleep_publish:
  assumes "sleep_inv P c ks T" "\<And>p. p \<in> ran T \<Longrightarrow> (\<forall>lsn f w. p \<noteq> Written mx lsn f w)"
  shows "sleep_inv P c (oset_insert ts_cmp mx ks) T"
proof -
  have "\<not> unseen c (oset_insert ts_cmp mx ks) p" if "p \<in> ran T" "\<not> unseen c ks p" for p
    using assms(2) [OF that(1)] that(2) by (cases p) (auto dest!: first_insert)
  then show ?thesis using assms(1) by (auto simp: sleep_inv_def)
qed

text \<open>One flush goes on.\<close>

lemma sleep_move:
  assumes "sleep_inv P c ks T" "\<And>r. T i \<noteq> Some (Panicked r)" "\<And>q. p = Some q \<Longrightarrow> \<not> unseen c ks q \<or> ImmTables \<in> P"
    "\<And>q. p = Some q \<Longrightarrow> holds_collect_mutex q \<Longrightarrow> mutex_free holds_collect_mutex T"
    "\<And>q. p = Some q \<Longrightarrow> holds_flush_mutex q \<Longrightarrow> mutex_free holds_flush_mutex T"
  shows "sleep_inv P c ks (T(i := p))"
proof -
  have "\<exists>j q. (T(i := p)) j = Some (Panicked q)" if "T j = Some (Panicked q)" for j q
    using that assms(2) by (metis fun_upd_other)
  moreover have "\<not> unseen c ks q" if "q \<in> ran (T(i := p))" "ImmTables \<notin> P" for q
    using that assms(1,3) by (auto simp: sleep_inv_def ran_def split: if_splits)
  moreover have "alone holds_collect_mutex (T(i := p))" "alone holds_flush_mutex (T(i := p))"
  proof -
    have a: "alone holds_collect_mutex T" "alone holds_flush_mutex T" using assms(1) by (simp_all add: sleep_inv_def)
    show "alone holds_collect_mutex (T(i := p))" by (rule alone_upd [OF a(1) assms(4)])
    show "alone holds_flush_mutex (T(i := p))" by (rule alone_upd [OF a(2) assms(5)])
  qed
  ultimately show ?thesis using assms(1) unfolding sleep_inv_def by blast
qed

lemma sleep_panic:
  assumes "sleep_inv P c ks T" "P \<subseteq> P'" "ImmTables \<notin> P' \<Longrightarrow> c' = c \<and> ks' = ks"
  shows "sleep_inv P' c' ks' (T(i \<mapsto> Panicked q))"
proof -
  have "p \<in> ran (T(i \<mapsto> Panicked q)) \<Longrightarrow> p \<in> ran T \<or> p = Panicked q" for p by (auto simp: ran_def split: if_splits)
  then have "ImmTables \<notin> P' \<Longrightarrow> p \<in> ran (T(i \<mapsto> Panicked q)) \<Longrightarrow> \<not> unseen c' ks' p" for p
    using assms unfolding sleep_inv_def by fastforce
  moreover have "alone holds_collect_mutex (T(i \<mapsto> Panicked q))" "alone holds_flush_mutex (T(i \<mapsto> Panicked q))"
    using assms(1) by (auto simp: sleep_inv_def simp del: fun_upd_apply intro: alone_upd)
  moreover have "(T(i \<mapsto> Panicked q)) i = Some (Panicked q)" by simp
  ultimately show ?thesis unfolding sleep_inv_def by blast
qed

text \<open>Every step keeps it.\<close>

definition flush_sleeps :: "('k, 'v, 't, 's) flush_state \<Rightarrow> bool" where
  "flush_sleeps = (\<lambda>(db, P, T). sleep_inv P (db_collect db) (map fst (db_imm db)) T)"

lemma flush_view_parts: "flush_view db' = (c, m, r) \<Longrightarrow> db_collect db' = c \<and> db_imm db' = m"
  "flush_view db' = flush_view db \<Longrightarrow> db_collect db' = db_collect db \<and> db_imm db' = db_imm db"
  by (simp_all add: flush_view_def)

lemma flush_panics_sleeps:
  assumes "flush_panics env (db, P) p (db', P') q" "flush_sleeps (db, P, T)"
  shows "flush_sleeps (db', P', T(i \<mapsto> Panicked q))"
  using assms(1)
proof cases
  case (panic_look_again mx lsn f)
  then show ?thesis using assms(2) by (auto simp: flush_sleeps_def intro!: sleep_panic simp del: fun_upd_apply)
qed (use assms(2) in \<open>auto simp: flush_sleeps_def intro!: sleep_panic dest!: flush_view_parts(2) simp del: fun_upd_apply\<close>)

lemma flush_sleeps_step:
  assumes "flush_step env a s s'" "\<forall>x\<in>set (db_collect (fst s')). ts_near x"
    "flush_inv limit (flush_view (fst s)) (snd (snd s))" "flush_sleeps s"
  shows "flush_sleeps s'"
  using assms
proof (induction rule: flush_step.induct)
  case (step_other db' db P P' T)
  then have "P \<subseteq> P'" "ImmTables \<in> P' \<longleftrightarrow> ImmTables \<in> P" by auto
  then show ?case using step_other(6) flush_view_parts(2) [OF step_other(1)] by (auto simp: flush_sleeps_def sleep_inv_def)
next
  case (step_schedule spawns db db' r P T)
  then show ?case using flush_memtable_done [OF step_schedule(1)] by (auto simp: flush_sleeps_def flush_view_def)
next
  case (step_start T i db a b P)
  then show ?case by (auto simp: flush_sleeps_def intro!: sleep_move simp del: fun_upd_apply)
next
  case (step_sample T i db mx db' P)
  then show ?case using flush_view_parts(2) [OF flush_min_xip_view [OF step_sample(2)]]
    by (auto simp: flush_sleeps_def intro!: sleep_move simp del: fun_upd_apply)
next
  case (step_enter T i mx lsn P db r db')
  note v = flush_enter_new [OF step_enter(3)]
  then have d: "db_collect db' = oset_insert ts_cmp mx (db_collect db)" "db_imm db' = db_imm db" by (simp_all add: flush_view_def)
  then have near: "ts_near mx" using step_enter(4) oset_insert_new v by fastforce
  have ord: "tso.ordered (db_collect db)" using step_enter(5) by (simp add: flush_inv_def flush_view_def)
  have new: "mx \<notin> set (db_collect db)" using v tso.oset_contains_iff [OF near ord] by simp
  have "collecting p \<noteq> Some mx" if p: "p \<in> ran T" for p
  proof -
    obtain j where "T j = Some p" using p by (auto simp: ran_def)
    then show ?thesis using flush_inv_near(1) [OF step_enter(5) [unfolded flush_view_def fst_conv snd_conv]] new by blast
  qed
  then have "sleep_inv P (oset_insert ts_cmp mx (db_collect db)) (map fst (db_imm db)) T"
    using step_enter(6) by (auto simp: flush_sleeps_def intro: sleep_enter)
  then show ?case using step_enter(1) d by (auto simp: flush_sleeps_def intro!: sleep_move simp del: fun_upd_apply)
next
  case (step_duplicate T i mx lsn P db db')
  then show ?case using flush_view_parts(1) [OF flush_enter_duplicate [OF step_duplicate(3)]]
    by (auto simp: flush_sleeps_def intro!: sleep_move simp del: fun_upd_apply)
next
  case (step_collect T i mx lsn ks db imt db' P)
  then show ?case using flush_view_parts(2) [OF flush_collect_enough [OF step_collect(2)]]
    by (auto simp: flush_sleeps_def intro!: sleep_move simp del: fun_upd_apply)
next
  case (step_few T i mx lsn P ks db db')
  have "sleep_inv P (db_collect db) (map fst (db_imm db)) (T(i := None))"
    using step_few by (auto simp: flush_sleeps_def intro!: sleep_move simp del: fun_upd_apply)
  then show ?case using flush_view_parts(1) [OF flush_collect_few [OF step_few(3)]] sleep_collect by (auto simp: flush_sleeps_def)
next
  case (step_publish T i mx lsn imt P db db')
  note d = flush_publish_done [OF step_publish(3)]
  note inv = step_publish(5) [unfolded flush_view_def fst_conv snd_conv]
  have near: "ts_near mx" using flush_inv_near(1) [OF inv step_publish(1), of mx] by simp
  have ord: "tso.ordered (map fst (db_imm db))" using inv by (simp add: flush_inv_def)
  have new: "mx \<notin> fst ` set (db_imm db)" using d imm_keys(3) [OF near ord] by simp
  let ?T = "notify_all wake_collector (T(i \<mapsto> Published mx lsn imt))"
  have "sleep_inv P (db_collect db) (map fst (db_imm db)) (T(i \<mapsto> Published mx lsn imt))"
    using step_publish by (auto simp: flush_sleeps_def intro!: sleep_move simp del: fun_upd_apply)
  then have s: "sleep_inv P (oset_remove ts_cmp mx (db_collect db)) (map fst (db_imm db)) ?T" by (rule sleep_collect)
  have "p \<noteq> Written mx lsn' f w" if p: "p \<in> ran ?T" for p lsn' f w
  proof
    assume w: "p = Written mx lsn' f w"
    have "wake_collector q = Written mx lsn' f w \<Longrightarrow> q = Written mx lsn' f w" for q :: "('a, 'b) flush_phase"
      by (cases q) simp_all
    moreover obtain q where "q \<in> ran (T(i \<mapsto> Published mx lsn imt))" "wake_collector q = Written mx lsn' f w"
      using p w by (auto simp: ran_notify simp del: fun_upd_apply)
    ultimately have "Written mx lsn' f w \<in> ran (T(i \<mapsto> Published mx lsn imt))" by metis
    then have "Written mx lsn' f w \<in> ran T" by (auto simp: ran_def split: if_splits)
    then obtain j where "T j = Some (Written mx lsn' f w)" by (auto simp: ran_def)
    then show False using flush_inv_near(2) [OF inv, of j _ mx] new by simp
  qed
  with s have "sleep_inv P (oset_remove ts_cmp mx (db_collect db)) (oset_insert ts_cmp mx (map fst (db_imm db))) ?T"
    using sleep_publish by blast
  then show ?case using d tso.omap_insert_keys [OF near ord, of imt] by (simp add: flush_sleeps_def flush_view_def)
next
  case (step_decide T i mx lsn imt P db db')
  then show ?case using flush_publish_waits [OF step_decide(3)] by (auto simp: flush_sleeps_def intro!: sleep_move simp del: fun_upd_apply)
next
  case (step_sleep T i mx lsn imt m db P)
  then have "\<not> unseen (db_collect db) (map fst (db_imm db)) (Collected mx lsn imt (Sleeping m)) \<or> ImmTables \<in> P"
    by (auto simp: flush_sleeps_def sleep_inv_def ran_def)
  then show ?case using step_sleep by (auto simp: flush_sleeps_def intro!: sleep_move simp del: fun_upd_apply)
next
  case (step_cleanup T i mx lsn imt envs ks db db' P)
  then show ?case using flush_view_parts(2) [OF flush_cleanup_view [OF step_cleanup(2)]]
    by (auto simp: flush_sleeps_def intro!: sleep_move simp del: fun_upd_apply)
next
  case (step_write T i mx lsn imt P db f db')
  then show ?case using flush_view_parts(2) [OF write_level0_view [OF step_write(3)]]
    by (auto simp: flush_sleeps_def intro!: sleep_move simp del: fun_upd_apply)
next
  case (step_install T i mx lsn f P now db db')
  have "sleep_inv P (db_collect db) (map fst (db_imm db)) (T(i \<mapsto> Installed))"
    using step_install by (auto simp: flush_sleeps_def intro!: sleep_move simp del: fun_upd_apply)
  then show ?case using flush_view_parts(1) [OF flush_install_done [OF step_install(3)]] sleep_flush by (auto simp: flush_sleeps_def)
next
  case (step_decide_again T i mx lsn f P now db db')
  then show ?case using flush_install_waits [OF step_decide_again(3)] by (auto simp: flush_sleeps_def intro!: sleep_move simp del: fun_upd_apply)
next
  case (step_sleep_again T i mx lsn f m db P)
  then have "\<not> unseen (db_collect db) (map fst (db_imm db)) (Written mx lsn f (Sleeping m)) \<or> ImmTables \<in> P"
    by (auto simp: flush_sleeps_def sleep_inv_def ran_def)
  then show ?case using step_sleep_again by (auto simp: flush_sleeps_def intro!: sleep_move simp del: fun_upd_apply)
next
  case (step_finish T i spawns db db' P)
  then show ?case using flush_finish_done [OF step_finish(2)] by (auto simp: flush_sleeps_def flush_view_def intro!: sleep_move simp del: fun_upd_apply)
next
  case (step_panic T i p db P db' P' q)
  then show ?case by (auto intro: flush_panics_sleeps simp del: fun_upd_apply)
qed (auto simp: flush_sleeps_def intro!: sleep_move simp del: fun_upd_apply)

section \<open>Progress\<close>

lemma flag_cases:
  obtains e where "r = Inl e" | y where "r = Inr (True, y)" | y where "r = Inr (False, y)"
proof (cases r)
  case (Inr z)
  then obtain b y where "r = Inr (b, y)" by (cases z) auto
  then show ?thesis using that(2,3) by (cases b) auto
qed (rule that(1))

text \<open>A flush that does not wait gets to its next phase, ends or panics: one lemma for each phase that forks.\<close>

lemma panic_advances:
  assumes "T i = Some p" "\<not> panicked p" "flush_panics env (db, P) p (db', P') q"
  shows "\<exists>s'. flush_step env (ByFlush i) (db, P, T) s' \<and> stage_of (Some p) < stage_of (snd (snd s') i)"
proof -
  have "stage_of (Some p) < stage_of ((T(i \<mapsto> Panicked q)) i)" using assms(2) by (cases p) simp_all
  then show ?thesis using step_panic [where T = T and i = i, OF assms(1,3)] by (metis snd_conv)
qed

lemma started_advances:
  assumes "T i = Some p" and p: "p = Started"
  shows "\<exists>s'. flush_step env (ByFlush i) (db, P, T) s' \<and> stage_of (Some p) < stage_of (snd (snd s') i)"
proof -
  have np: "\<not> panicked p" using p by simp
  show ?thesis
  proof (cases "flush_min_xip env db")
    case (Inl e)
    then show ?thesis using panic_advances [where T = T and i = i, OF assms(1) np] panic_sample [where db' = db] p by blast
  next
    case (Inr r)
    then obtain mx db' where "flush_min_xip env db = Inr (mx, db')" by (cases r) auto
    from step_sample [OF _ this] show ?thesis using assms(1) p by (intro exI conjI, blast) simp
  qed
qed

lemma sampled_advances:
  assumes "T i = Some p" and p: "p = Sampled mx lsn"
  shows "\<exists>s'. flush_step env (ByFlush i) (db, P, T) s' \<and> stage_of (Some p) < stage_of (snd (snd s') i)"
proof -
  have np: "\<not> panicked p" using p by simp
  show ?thesis
  proof (cases "ImmTables \<in> P")
    case True
    then show ?thesis using panic_advances [where T = T and i = i, OF assms(1) np] panic_enter p by blast
  next
    case False
    obtain r db' where e: "flush_enter mx lsn db = (r, db')" by fastforce
    show ?thesis
    proof (cases r)
      case None
      from step_duplicate [OF _ False e [unfolded None]] show ?thesis using assms(1) p by (intro exI conjI, blast) simp
    next
      case (Some x)
      from step_enter [OF _ False e [unfolded Some]] show ?thesis using assms(1) p by (intro exI conjI, blast) simp
    qed
  qed
qed

lemma registered_advances:
  assumes "T i = Some p" and p: "p = Registered mx lsn"
  shows "\<exists>s'. flush_step env (ByFlush i) (db, P, T) s' \<and> stage_of (Some p) < stage_of (snd (snd s') i)"
proof -
  have np: "\<not> panicked p" using p by simp
  consider (bad) e where "flush_collect (de_options env) [] mx db = Inl e"
    | (few) db' where "flush_collect (de_options env) [] mx db = Inr (None, db')"
    | (enough) imt db' where "flush_collect (de_options env) [] mx db = Inr (Some imt, db')"
    by (metis not_None_eq old.sum.exhaust surj_pair)
  then show ?thesis
  proof cases
    case bad
    then show ?thesis using panic_advances [where T = T and i = i, OF assms(1) np] panic_collect [where db' = db] p by blast
  next
    case few
    show ?thesis
    proof (cases "ImmTables \<in> P")
      case True
      then show ?thesis using few panic_advances [where T = T and i = i, OF assms(1) np] panic_collect [where db' = db] p by blast
    next
      case False
      from step_few [OF _ False few] show ?thesis using assms(1) p by (intro exI conjI, blast) (simp add: notify_all_def)
    qed
  next
    case enough
    from step_collect [OF _ enough] show ?thesis using assms(1) p by (intro exI conjI, blast) simp
  qed
qed

lemma collected_advances:
  assumes "T i = Some p" and p: "p = Collected mx lsn imt Checking" and turn: "its_turn db p"
  shows "\<exists>s'. flush_step env (ByFlush i) (db, P, T) s' \<and> stage_of (Some p) < stage_of (snd (snd s') i)"
proof -
  have np: "\<not> panicked p" using p by simp
  show ?thesis
  proof (cases "ImmTables \<in> P")
    case True
    then show ?thesis using panic_advances [where T = T and i = i, OF assms(1) np] panic_look p by blast
  next
    case False
    consider e where "flush_publish mx imt db = Inl e" | db' where "flush_publish mx imt db = Inr (True, db')"
      | y where "flush_publish mx imt db = Inr (False, y)"
      by (rule flag_cases)
    then show ?thesis
    proof cases
      case 1
      then show ?thesis using panic_advances [where T = T and i = i, OF assms(1) np] panic_publish [OF False] p by blast
    next
      case 2
      from step_publish [OF _ False 2] show ?thesis using assms(1) p by (intro exI conjI, blast) (simp add: notify_all_def)
    next
      case 3
      then show ?thesis using turn flush_publish_waits unfolding p by fastforce
    qed
  qed
qed

lemma published_advances:
  assumes "T i = Some p" and p: "p = Published mx lsn imt"
  shows "\<exists>s'. flush_step env (ByFlush i) (db, P, T) s' \<and> stage_of (Some p) < stage_of (snd (snd s') i)"
proof -
  have np: "\<not> panicked p" using p by simp
  show ?thesis
  proof (cases "flush_cleanup (de_options env) (\<lambda>_. (id, id)) [] mx db")
    case (Inl e)
    then show ?thesis using panic_advances [where T = T and i = i, OF assms(1) np] panic_cleanup [where db' = db] p by blast
  next
    case (Inr db')
    from step_cleanup [OF _ this] show ?thesis using assms(1) p by (intro exI conjI, blast) simp
  qed
qed

lemma cleaned_advances:
  assumes "T i = Some p" and p: "p = Cleaned mx lsn imt"
  shows "\<exists>s'. flush_step env (ByFlush i) (db, P, T) s' \<and> stage_of (Some p) < stage_of (snd (snd s') i)"
proof -
  have np: "\<not> panicked p" using p by simp
  show ?thesis
  proof (cases "VSet \<in> P \<or> (\<exists>e. write_level0_table env imt mx db = Inl e)")
    case True
    then show ?thesis using panic_advances [where T = T and i = i, OF assms(1) np] panic_write [where db' = db] p by blast
  next
    case False
    then obtain f db' where "VSet \<notin> P" "write_level0_table env imt mx db = Inr (f, db')" by (metis old.sum.exhaust surj_pair)
    from step_write [OF _ this] show ?thesis using assms(1) p by (intro exI conjI, blast) simp
  qed
qed

lemma written_advances:
  assumes "T i = Some p" and p: "p = Written mx lsn f Checking" and turn: "its_turn db p"
  shows "\<exists>s'. flush_step env (ByFlush i) (db, P, T) s' \<and> stage_of (Some p) < stage_of (snd (snd s') i)"
proof -
  have np: "\<not> panicked p" using p by simp
  show ?thesis
  proof (cases "P = {}")
    case False
    then have "VSet \<in> P \<or> ImmTables \<in> P" by (metis all_not_in_conv lock.exhaust)
    then show ?thesis using panic_advances [where T = T and i = i, OF assms(1) np] panic_look_again p by blast
  next
    case True
    consider e where "flush_install env 0 mx lsn f db = Inl e" | db' where "flush_install env 0 mx lsn f db = Inr (True, db')"
      | y where "flush_install env 0 mx lsn f db = Inr (False, y)"
      by (rule flag_cases)
    then show ?thesis
    proof cases
      case 1
      then show ?thesis using panic_advances [where T = T and i = i, OF assms(1) np] panic_install [OF True, where db' = db] p by blast
    next
      case 2
      from step_install [OF _ True 2] show ?thesis using assms(1) p by (intro exI conjI, blast) (simp add: notify_all_def)
    next
      case 3
      then show ?thesis using turn flush_install_waits unfolding p by fastforce
    qed
  qed
qed

lemma installed_advances:
  assumes "T i = Some p" and p: "p = Installed"
  shows "\<exists>s'. flush_step env (ByFlush i) (db, P, T) s' \<and> stage_of (Some p) < stage_of (snd (snd s') i)"
proof -
  have np: "\<not> panicked p" using p by simp
  show ?thesis
  proof (cases "flush_finish (de_options env) True db")
    case (Inl e)
    then show ?thesis using panic_advances [where T = T and i = i, OF assms(1) np] panic_finish [where db' = db] p by blast
  next
    case (Inr db')
    from step_finish [OF _ this] show ?thesis using assms(1) p by (intro exI conjI, blast) simp
  qed
qed

lemma flush_goes_on:
  assumes "T i = Some p" "its_turn db p" "waiting_of p = None \<or> waiting_of p = Some Checking" "\<not> panicked p"
  shows "\<exists>s'. flush_step env (ByFlush i) (db, P, T) s' \<and> stage_of (Some p) < stage_of (snd (snd s') i)"
proof (cases p)
  case Started
  then show ?thesis using started_advances [where T = T and i = i, OF assms(1)] by blast
next
  case (Sampled mx lsn)
  then show ?thesis using sampled_advances [where T = T and i = i, OF assms(1)] by blast
next
  case (Registered mx lsn)
  then show ?thesis using registered_advances [where T = T and i = i, OF assms(1)] by blast
next
  case (Collected mx lsn imt w)
  then have "p = Collected mx lsn imt Checking" using assms(3) by simp
  then show ?thesis using collected_advances [where T = T and i = i, OF assms(1) _ assms(2)] by blast
next
  case (Published mx lsn imt)
  then show ?thesis using published_advances [where T = T and i = i, OF assms(1)] by blast
next
  case (Cleaned mx lsn imt)
  then show ?thesis using cleaned_advances [where T = T and i = i, OF assms(1)] by blast
next
  case (Written mx lsn f w)
  then have "p = Written mx lsn f Checking" using assms(3) by simp
  then show ?thesis using written_advances [where T = T and i = i, OF assms(1) _ assms(2)] by blast
next
  case Installed
  then show ?thesis using installed_advances [where T = T and i = i, OF assms(1)] by blast
qed (use assms(4) in simp)

text \<open>A flush that was notified takes the mutex, after the one that holds it has gone to sleep.\<close>

lemma move_trans: "\<lbrakk>flush_step env (ByFlush i) s s'; (flush_moves env)\<^sup>*\<^sup>* s' s''\<rbrakk> \<Longrightarrow> (flush_moves env)\<^sup>*\<^sup>* s s''"
  by (rule converse_rtranclp_into_rtranclp) (auto simp: flush_moves_def)

lemma mutex_released:
  assumes "alone holds T" "T j = Some p" "holds p" "\<not> holds q"
  shows "mutex_free holds (T(j \<mapsto> q))"
  using assms by (auto simp: alone_def mutex_free_def ran_def)

lemma woken_collector:
  assumes "alone holds_collect_mutex T" "T i = Some (Collected mx lsn imt Woken)"
  shows "\<exists>T'. (flush_moves env)\<^sup>*\<^sup>* (db, P, T) (db, P, T') \<and> T' i = Some (Collected mx lsn imt Checking)"
proof (cases "mutex_free holds_collect_mutex T")
  case True
  have "(flush_moves env)\<^sup>*\<^sup>* (db, P, T) (db, P, T(i \<mapsto> Collected mx lsn imt Checking))"
    by (rule move_trans [OF step_return [OF assms(2) True] rtranclp.rtrancl_refl])
  then show ?thesis by (intro exI [of _ "T(i \<mapsto> Collected mx lsn imt Checking)"]) simp
next
  case False
  then obtain j p where j: "T j = Some p" "holds_collect_mutex p" by (auto simp: mutex_free_def ran_def)
  then obtain my lsn' imt' m where p: "p = Collected my lsn' imt' (Deciding m)" by (cases p rule: holds_collect_mutex.cases) auto
  let ?T = "T(j \<mapsto> Collected my lsn' imt' (Sleeping m))"
  have ij: "i \<noteq> j" using assms(2) j p by auto
  have "mutex_free holds_collect_mutex ?T" by (rule mutex_released [OF assms(1) j]) simp
  moreover have "?T i = Some (Collected mx lsn imt Woken)" using assms(2) ij by simp
  ultimately have "flush_step env (ByFlush i) (db, P, ?T) (db, P, ?T(i \<mapsto> Collected mx lsn imt Checking))" by (intro step_return)
  then have "(flush_moves env)\<^sup>*\<^sup>* (db, P, T) (db, P, ?T(i \<mapsto> Collected mx lsn imt Checking))"
    by (intro move_trans [OF step_sleep [where T = T, OF j(1) [unfolded p]]] move_trans [OF _ rtranclp.rtrancl_refl])
  then show ?thesis by (intro exI [of _ "?T(i \<mapsto> Collected mx lsn imt Checking)"]) simp
qed

lemma woken_flusher:
  assumes "alone holds_flush_mutex T" "T i = Some (Written mx lsn f Woken)"
  shows "\<exists>T'. (flush_moves env)\<^sup>*\<^sup>* (db, P, T) (db, P, T') \<and> T' i = Some (Written mx lsn f Checking)"
proof (cases "mutex_free holds_flush_mutex T")
  case True
  have "(flush_moves env)\<^sup>*\<^sup>* (db, P, T) (db, P, T(i \<mapsto> Written mx lsn f Checking))"
    by (rule move_trans [OF step_return_again [OF assms(2) True] rtranclp.rtrancl_refl])
  then show ?thesis by (intro exI [of _ "T(i \<mapsto> Written mx lsn f Checking)"]) simp
next
  case False
  then obtain j p where j: "T j = Some p" "holds_flush_mutex p" by (auto simp: mutex_free_def ran_def)
  then obtain my lsn' f' m where p: "p = Written my lsn' f' (Deciding m)" by (cases p rule: holds_flush_mutex.cases) auto
  let ?T = "T(j \<mapsto> Written my lsn' f' (Sleeping m))"
  have ij: "i \<noteq> j" using assms(2) j p by auto
  have "mutex_free holds_flush_mutex ?T" by (rule mutex_released [OF assms(1) j]) simp
  moreover have "?T i = Some (Written mx lsn f Woken)" using assms(2) ij by simp
  ultimately have "flush_step env (ByFlush i) (db, P, ?T) (db, P, ?T(i \<mapsto> Written mx lsn f Checking))" by (intro step_return_again)
  then have "(flush_moves env)\<^sup>*\<^sup>* (db, P, T) (db, P, ?T(i \<mapsto> Written mx lsn f Checking))"
    by (intro move_trans [OF step_sleep_again [where T = T, OF j(1) [unfolded p]]] move_trans [OF _ rtranclp.rtrancl_refl])
  then show ?thesis by (intro exI [of _ "?T(i \<mapsto> Written mx lsn f Checking)"]) simp
qed

text \<open>A flush whose turn it is and that has not lost its wakeup gets on.\<close>

lemma turn_goes_on:
  assumes T: "T j = Some q" "its_turn db q" "\<not> panicked q" "\<not> lost_wakeup db q"
    and inv: "sleep_inv P (db_collect db) (map fst (db_imm db)) T" "ImmTables \<notin> P"
  shows "\<exists>s'. (flush_moves env)\<^sup>*\<^sup>* (db, P, T) s' \<and> stage_of (T j) < stage_of (snd (snd s') j)"
proof -
  have al: "alone holds_collect_mutex T" "alone holds_flush_mutex T" and un: "\<not> unseen (db_collect db) (map fst (db_imm db)) q"
    using inv T(1) by (auto simp: sleep_inv_def ran_def)
  have go: ?thesis if g: "(flush_moves env)\<^sup>*\<^sup>* (db, P, T) (db, P, T')" "T' j = Some p" "stage_of (Some p) = stage_of (Some q)"
    "its_turn db p" "waiting_of p = None \<or> waiting_of p = Some Checking" "\<not> panicked p" for T' p
  proof -
    obtain s' where s': "flush_step env (ByFlush j) (db, P, T') s'" "stage_of (Some p) < stage_of (snd (snd s') j)"
      using flush_goes_on [where T = T', OF g(2,4,5,6)] by blast
    then have "(flush_moves env)\<^sup>*\<^sup>* (db, P, T) s'" using g(1) by (meson flush_moves_def rtranclp.rtrancl_into_rtrancl)
    then show ?thesis using s'(2) g(3) T(1) by (intro exI [of _ s'] conjI) simp_all
  qed
  consider "waiting_of q = None \<or> waiting_of q = Some Checking" | "waiting_of q = Some Woken"
    | m where "waiting_of q = Some (Deciding m) \<or> waiting_of q = Some (Sleeping m)"
    by (metis not_None_eq waiting.exhaust)
  then show ?thesis
  proof cases
    case 1
    then show ?thesis using go [OF rtranclp.rtrancl_refl T(1) refl T(2) _ T(3)] by blast
  next
    case 2
    then consider (c) mx lsn imt where "q = Collected mx lsn imt Woken" | (f) mx lsn f where "q = Written mx lsn f Woken"
      by (cases q) auto
    then show ?thesis
    proof cases
      case c
      then obtain T' where "(flush_moves env)\<^sup>*\<^sup>* (db, P, T) (db, P, T')" "T' j = Some (Collected mx lsn imt Checking)"
        using woken_collector [OF al(1)] T(1) by blast
      from go [OF this] show ?thesis using c T(2) by simp
    next
      case f
      then obtain T' where "(flush_moves env)\<^sup>*\<^sup>* (db, P, T) (db, P, T')" "T' j = Some (Written mx lsn f Checking)"
        using woken_flusher [OF al(2)] T(1) by blast
      from go [OF this] show ?thesis using f T(2) by simp
    qed
  next
    case 3
    then have "m = True" using T(2) un by (cases q) auto
    then show ?thesis using 3 T(2,4) by (auto simp: lost_wakeup_def waits_def)
  qed
qed

lemma waiting_noticed:
  assumes inv: "sleep_inv P (db_collect db) (map fst (db_imm db)) T" and np: "\<forall>i p. T i = Some p \<longrightarrow> \<not> panicked p"
    and p: "T i = Some p" "waits p" "its_turn db p"
  shows "lost_wakeup db p"
proof -
  have "ImmTables \<notin> P" using inv np by (fastforce simp: sleep_inv_def)
  then have "\<not> unseen (db_collect db) (map fst (db_imm db)) p" using inv p(1) by (auto simp: sleep_inv_def ran_def)
  moreover obtain m where m: "waiting_of p = Some (Deciding m) \<or> waiting_of p = Some (Sleeping m)" using p(2) by (auto simp: waits_def)
  ultimately have "m" using p(3) by (cases p) auto
  then show ?thesis using m p(2,3) by (auto simp: lost_wakeup_def)
qed

text \<open>A database without flushes.\<close>

definition no_flushes :: "('k, 'v, 't, 's) db \<Rightarrow> bool" where
  "no_flushes db \<longleftrightarrow> flush_view db = ([], [], 0, 0)"

lemma in_stage_empty: "in_stage stage Map.empty = Map.empty"
  by (rule ext) (simp add: in_stage_def)

lemma flush_inv_start: "flush_inv limit ([], [], 0, 0) Map.empty"
  by (simp add: flush_inv_def owned_def in_stage_empty)

lemma flush_inv_reachable:
  assumes "(flush_run env)\<^sup>*\<^sup>* (db0, {}, Map.empty) s" "no_flushes db0"
  shows "flush_inv (max_background_flushes (de_options env)) (flush_view (fst s)) (snd (snd s)) \<and> flush_sleeps s"
  using assms(1)
proof (induction rule: rtranclp_induct)
  case base
  show ?case using assms(2) flush_inv_start by (simp add: no_flushes_def flush_sleeps_def sleep_inv_def alone_def)
next
  case (step s s')
  then obtain a where a: "flush_step env a s s'" "\<forall>x\<in>set (db_collect (fst s')). ts_near x" by (auto simp: flush_run_def)
  then show ?case using flush_inv_step [OF a] flush_sleeps_step [OF a] step(3) by blast
qed

text \<open>The first entry of a collection belongs to a flush.\<close>

lemma first_owner:
  assumes "tso.ordered xs" "owned (in_stage stage T) (set xs)" "T i = Some p" "stage p = Some mx"
  obtains x j q where "oset_first xs = Some x" "T j = Some q" "stage q = Some x" "x = mx \<or> ts_cmp x mx = Less \<and> j \<noteq> i"
proof -
  have "in_stage stage T i = Some mx" using assms(3,4) by (simp add: in_stage_Some)
  then have mx: "mx \<in> set xs" using assms(2) unfolding owned_def by (metis ranI)
  then obtain x where x: "oset_first xs = Some x" by (cases xs) auto
  note least = tso.oset_first_least [OF assms(1) x]
  then have near: "ts_near x" using assms(1) by (simp add: tso.ordered_def)
  obtain j q where j: "T j = Some q" "stage q = Some x"
    using owned_owner [OF assms(2), of x] least by (auto simp: in_stage_def bind_eq_Some_conv)
  moreover have "x = mx \<or> ts_cmp x mx = Less" using least mx by auto
  moreover have "x \<noteq> mx \<Longrightarrow> j \<noteq> i" using j assms(3,4) by auto
  ultimately show ?thesis using that x near by blast
qed

text \<open>The flush that has the first entry of a collection is the one whose turn it is there.\<close>

lemma first_turn:
  "\<lbrakk>oset_first (db_collect db) = Some x; collecting q = Some x; \<not> panicked q\<rbrakk> \<Longrightarrow> its_turn db q"
  "\<lbrakk>oset_first (map fst (db_imm db)) = Some x; flushing q = Some x; \<not> panicked q\<rbrakk> \<Longrightarrow> its_turn db q"
  by (cases q; simp)+

lemma alone_asleep:
  "\<lbrakk>flush_step env (ByFlush j) (db, P, [i \<mapsto> p]) s'; asleep p\<rbrakk> \<Longrightarrow> FlushJob \<in> set (db_jobs db)"
  by (erule flush_step.cases) (auto simp: asleep_def elim!: flush_panics.cases split: if_splits)

section \<open>Properties\<close>

text \<open>
  C12: what background flushes do to each other. In every state that flushes reach from a database without any, however
  their phases, the waits at the rendezvous points, spurious wakeups, panics and other work are interleaved:
  there are at most \<open>max_background_flushes\<close> flushes, so many as the counter says, which is not 0 where a flush
  asserts it; a flush at a rendezvous point finds its collection nonempty, where the code unwraps the first
  entry, and when that is not its own it is that of another flush. As long as none has panicked, a flush that waits
  although it is its turn has missed a notification, between its check and its wait; and if no flush has, and there is
  a flush, then some flush gets to its next phase, ends or panics, by steps of flushes alone. The condition is needed: a flush that sleeps and is the only one stays
  asleep until another flush is scheduled or the wait ends spuriously, and such a state, with the notification lost, is reachable (see the witness).
\<close>
theorem flushes_make_progress:
  "\<lbrakk>(flush_run env)\<^sup>*\<^sup>* (db0, {}, Map.empty) (db, P, T); no_flushes db0\<rbrakk> \<Longrightarrow>
   card (dom T) \<le> max_background_flushes (de_options env) \<and>
   db_flushing_threads db = card (dom T) + count_list (db_jobs db) FlushJob \<and>
   (\<forall>i. T i = Some Installed \<longrightarrow> 0 < db_flushing_threads db) \<and>
   (\<forall>i mx lsn imt w. T i = Some (Collected mx lsn imt w) \<longrightarrow> (\<exists>x. oset_first (db_collect db) = Some x \<and>
      (x = mx \<or> ts_cmp x mx = Less \<and> (\<exists>j q. j \<noteq> i \<and> T j = Some q \<and> collecting q = Some x)))) \<and>
   (\<forall>i mx lsn f w. T i = Some (Written mx lsn f w) \<longrightarrow> (\<exists>x. oset_first (map fst (db_imm db)) = Some x \<and>
      (x = mx \<or> ts_cmp x mx = Less \<and> (\<exists>j q. j \<noteq> i \<and> T j = Some q \<and> flushing q = Some x)))) \<and>
   ((\<forall>i p. T i = Some p \<longrightarrow> \<not> panicked p) \<longrightarrow>
      (\<forall>i p. T i = Some p \<and> waits p \<and> its_turn db p \<longrightarrow> lost_wakeup db p) \<and>
      (T \<noteq> Map.empty \<and> (\<forall>i p. T i = Some p \<longrightarrow> \<not> lost_wakeup db p) \<longrightarrow>
        (\<exists>i s'. T i \<noteq> None \<and> (flush_moves env)\<^sup>*\<^sup>* (db, P, T) s' \<and> stage_of (T i) < stage_of (snd (snd s') i)))) \<and>
   (\<forall>i p. T = [i \<mapsto> p] \<and> asleep p \<and> FlushJob \<notin> set (db_jobs db) \<longrightarrow> (\<forall>s'. \<not> flush_moves env (db, P, T) s'))"
proof -
  assume run: "(flush_run env)\<^sup>*\<^sup>* (db0, {}, Map.empty) (db, P, T)" and "no_flushes db0"
  then have inv: "flush_inv (max_background_flushes (de_options env)) (flush_view db) T"
    and sl: "sleep_inv P (db_collect db) (map fst (db_imm db)) T"
    using flush_inv_reachable [OF run] by (simp_all add: flush_sleeps_def)
  then have c: "tso.ordered (db_collect db)" "owned (in_stage collecting T) (set (db_collect db))"
    and m: "tso.ordered (map fst (db_imm db))" "owned (in_stage flushing T) (set (map fst (db_imm db)))"
    and n: "finite (dom T)" "db_flushing_threads db = card (dom T) + count_list (db_jobs db) FlushJob"
      "card (dom T) \<le> max_background_flushes (de_options env)"
    by (auto simp: flush_inv_def flush_view_def)
  note fc = first_owner [OF c] and fm = first_owner [OF m]
  have "0 < db_flushing_threads db" if "T i = Some p" for i p
    using n(1,2) that by (auto simp: card_gt_0_iff)
  moreover have "\<exists>x. oset_first (db_collect db) = Some x \<and>
      (x = mx \<or> ts_cmp x mx = Less \<and> (\<exists>j q. j \<noteq> i \<and> T j = Some q \<and> collecting q = Some x))"
    if "T i = Some (Collected mx lsn imt w)" for i mx lsn imt w
    by (rule fc [OF that, of mx]) auto
  moreover have "\<exists>x. oset_first (map fst (db_imm db)) = Some x \<and>
      (x = mx \<or> ts_cmp x mx = Less \<and> (\<exists>j q. j \<noteq> i \<and> T j = Some q \<and> flushing q = Some x))"
    if "T i = Some (Written mx lsn f w)" for i mx lsn f w
    by (rule fm [OF that, of mx]) auto
  moreover have "lost_wakeup db p" if "\<forall>i p. T i = Some p \<longrightarrow> \<not> panicked p" "T i = Some p" "waits p" "its_turn db p" for i p
    using waiting_noticed [OF sl that] .
  moreover have "\<exists>i s'. T i \<noteq> None \<and> (flush_moves env)\<^sup>*\<^sup>* (db, P, T) s' \<and> stage_of (T i) < stage_of (snd (snd s') i)"
    if np: "\<forall>i p. T i = Some p \<longrightarrow> \<not> panicked p" and ne: "T \<noteq> Map.empty" and nl: "\<forall>i p. T i = Some p \<longrightarrow> \<not> lost_wakeup db p"
  proof -
    obtain j q where "T j = Some q" "its_turn db q"
    proof -
      obtain i p where p: "T i = Some p" using ne by fastforce
      consider "its_turn db p" | mx where "collecting p = Some mx" | mx where "flushing p = Some mx" by (cases p) auto
      then show ?thesis
      proof cases
        case 1
        then show ?thesis using that p by blast
      next
        case 2
        then show ?thesis using fc [OF p] first_turn(1) np that by metis
      next
        case 3
        then show ?thesis using fm [OF p] first_turn(2) np that by metis
      qed
    qed
    moreover have "ImmTables \<notin> P" using sl np by (fastforce simp: sleep_inv_def)
    ultimately show ?thesis using turn_goes_on [OF _ _ _ _ sl] np nl by (metis option.distinct(1))
  qed
  moreover have "\<not> flush_moves env (db, P, T) s'" if "T = [i \<mapsto> p]" "asleep p" "FlushJob \<notin> set (db_jobs db)" for i p s'
    using alone_asleep [of env _ db P i p s'] that by (auto simp: flush_moves_def)
  ultimately show ?thesis using n(2,3) by blast
qed

text \<open>
  Two flushes, and one key in the memtable, committed at 1. The first flush registers with the minimum 1 and will not find enough
  to flush. The second one, with the minimum 2, copies the key and finds that it is not its turn. The first
  one leaves and notifies before the second one waits.
\<close>

definition small_env :: "(u64, u64, bits_builder, demo_tables, demo_blocks) db_env" where
  "small_env = demo_env\<lparr>de_options := demo_options\<lparr>write_buffer_size := 2, max_background_flushes := 2\<rparr>\<rparr>"

definition flush_mem :: "u64 \<Rightarrow> u32 \<Rightarrow> (u64, u64) memtable" where
  "flush_mem sz mark = \<lparr>mt_heap = [1 \<mapsto> \<lparr>node_timestamp = Timestamp 1, node_collected = mark,
       node_record = Insert 7, node_next = null_ptr\<rparr>],
     mt_cells = [0 \<mapsto> VPtr (Some 1) 1], mt_fresh = 2, mt_table = [1 \<mapsto> 0], mt_size = sz, mt_garbage = []\<rparr>"

definition flush_demo ::
  "bytes \<Rightarrow> demo_tables \<Rightarrow> wal \<Rightarrow> checkpoint_manager \<Rightarrow> timestamp list \<Rightarrow> nat \<Rightarrow> job list \<Rightarrow> (u64, u64) memtable \<Rightarrow> u64 \<Rightarrow> u64 \<Rightarrow> u64
    \<Rightarrow> (u64, u64, demo_tables, demo_blocks) db" where
  "flush_demo fl tc wal cm collect threads jobs mem prev x cached = (demo_db fl tc wal cm)\<lparr>
     db_shared := (mem, txn_manager_new\<lparr>xips := [Timestamp x], cached_min_xip_word := cached\<rparr>),
     db_imm := [], db_collect := collect, db_flushing_threads := threads, db_jobs := jobs, db_last_flush_size := prev\<rparr>"

lemma flush_demo_view: "flush_view (flush_demo fl tc wal cm collect threads jobs mem prev x cached) =
    (collect, [], threads, count_list jobs FlushJob)"
  by (simp add: flush_view_def flush_demo_def)

lemma flush_demo_parts:
  "db_jobs (flush_demo fl tc wal cm collect threads jobs mem prev x cached) = jobs"
  "db_collect (flush_demo fl tc wal cm collect threads jobs mem prev x cached) = collect"
  "db_wal (flush_demo fl tc wal cm collect threads jobs mem prev x cached) = wal"
  "(flush_demo fl tc wal cm collect threads jobs mem prev x cached)\<lparr>db_jobs := js\<rparr> =
     flush_demo fl tc wal cm collect threads js mem prev x cached"
  by (simp_all add: flush_demo_def demo_db_def)

lemma small_options: "write_buffer_size (de_options small_env) = 2" "max_background_flushes (de_options small_env) = 2"
  by (simp_all add: small_env_def)

lemma flush_demo_schedule:
  "\<lbrakk>threads < 2; 2 < unat (sz - prev)\<rbrakk> \<Longrightarrow>
    flush_memtable (de_options small_env) True (flush_demo fl tc wal cm collect threads jobs (flush_mem sz mark) prev x cached) =
      (flush_demo fl tc wal cm collect (threads + 1) (jobs @ [FlushJob]) (flush_mem sz mark) sz x cached, Inr ())"
  by (simp add: flush_memtable_def should_flush_def small_options schedule_def flush_demo_def demo_db_def Let_def flush_mem_def)

lemma flush_demo_sample:
  "flush_min_xip small_env (flush_demo fl tc wal cm collect threads jobs mem prev x cached) =
      Inr (Timestamp x, flush_demo fl tc wal cm collect threads jobs mem prev x x)"
  by (simp add: flush_min_xip_def min_xip_def flush_demo_def demo_db_def Let_def)

lemma flush_demo_enter:
  "\<not> oset_contains ts_cmp mx collect \<Longrightarrow>
    flush_enter mx lsn (flush_demo fl tc wal cm collect threads jobs mem prev x cached) =
      (Some (mx, lsn), flush_demo fl tc wal cm (oset_insert ts_cmp mx collect) threads jobs mem prev x cached)"
  by (simp add: flush_enter_def flush_demo_def demo_db_def)

lemma demo_safe:
  "is_version_safe_for_gc (Timestamp 1) (Timestamp 2) age" "\<not> is_version_safe_for_gc (Timestamp 1) (Timestamp 1) age"
proof -
  have "ts_type (Timestamp 1) = Commit" "ts_lt (Timestamp 1) (Timestamp 2)" "\<not> ts_lt (Timestamp 1) (Timestamp 1)" by code_simp+
  then show "is_version_safe_for_gc (Timestamp 1) (Timestamp 2) age" "\<not> is_version_safe_for_gc (Timestamp 1) (Timestamp 1) age"
    by (simp_all add: is_version_safe_for_gc_def)
qed

lemma flush_demo_enough:
  "flush_collect (de_options small_env) [1] (Timestamp 2) (flush_demo fl tc wal cm collect threads jobs (flush_mem sz 0) prev x cached) =
    Inr (Some [(1, Some 7)], flush_demo fl tc wal cm collect threads jobs (flush_mem sz 2) prev x cached)"
  by (simp add: flush_collect_def small_options imm_size_def imm_insert_def flush_demo_def demo_db_def Let_def flush_mem_def load_cell_def
      walk_fuel_def deref_def demo_safe try_set_collected_def numeral_3_eq_3)

lemma flush_demo_few:
  "flush_collect (de_options small_env) [1] (Timestamp 1) (flush_demo fl tc wal cm collect threads jobs (flush_mem sz mark) prev x cached) =
    Inr (None, flush_demo fl tc wal cm (oset_remove ts_cmp (Timestamp 1) collect) (threads - 1) jobs (flush_mem sz mark) prev x cached)"
  by (simp add: flush_collect_def small_options imm_size_def flush_demo_def demo_db_def Let_def flush_mem_def load_cell_def
      walk_fuel_def deref_def demo_safe flush_leave_def numeral_3_eq_3)

lemma flush_runI: "\<lbrakk>flush_step env a s s'; \<forall>x\<in>set (db_collect (fst s')). ts_near x\<rbrakk> \<Longrightarrow> (flush_run env)\<^sup>*\<^sup>* s s'"
  by (intro r_into_rtranclp) (auto simp: flush_run_def)

text \<open>Until the second flush has taken the mutex.\<close>

lemma flush_demo_run:
  fixes wal :: wal
  defines "lsn \<equiv> wal_current_lsn wal"
  shows "(flush_run small_env)\<^sup>*\<^sup>* (flush_demo fl tc wal cm [] 0 [] (flush_mem 10 0) 0 1 0, {}, Map.empty)
     (flush_demo fl tc wal cm [Timestamp 1, Timestamp 2] 2 [] (flush_mem 20 2) 20 2 2, {},
      [0 \<mapsto> Registered (Timestamp 1) lsn, 1 \<mapsto> Collected (Timestamp 2) lsn [(1, Some 7)] (Deciding False)])"
proof -
  let ?d = "flush_demo fl tc wal cm" and ?R = "(flush_run small_env)\<^sup>*\<^sup>*"
  let ?m = "flush_mem 10 0" and ?m' = "flush_mem 20 0"
  let ?r0 = "Registered (Timestamp 1) lsn"
  have near: "ts_near (Timestamp 1)" "ts_near (Timestamp 2)" by code_simp+
  have c: "\<not> oset_contains ts_cmp (Timestamp 2) [Timestamp 1]" by code_simp
  have ins: "oset_insert ts_cmp (Timestamp 2) [Timestamp 1] = [Timestamp 1, Timestamp 2]" by code_simp
  note [simp] = near flush_demo_parts
  have r1: "?R (?d [] 0 [] ?m 0 1 0, {}, Map.empty) (?d [] 1 [FlushJob] ?m 10 1 0, {}, Map.empty)"
    using flush_demo_schedule [of 0 10 0] by (intro flush_runI [where a = ByOther] step_schedule [where spawns = True and r = "Inr ()"]) simp_all
  have r2: "?R (?d [] 1 [FlushJob] ?m 10 1 0, {}, Map.empty) (?d [] 1 [FlushJob] ?m' 10 1 0, {}, Map.empty)"
    by (intro flush_runI [where a = ByOther] step_other) (simp_all add: flush_demo_view)
  have r3: "?R (?d [] 1 [FlushJob] ?m' 10 1 0, {}, Map.empty) (?d [] 2 [FlushJob, FlushJob] ?m' 20 1 0, {}, Map.empty)"
    using flush_demo_schedule [of 1 20 10 fl tc wal cm "[]" "[FlushJob]" 0 1 0]
    by (intro flush_runI [where a = ByOther] step_schedule [where spawns = True and r = "Inr ()"]) (simp_all flip: numeral_2_eq_2)
  have r4: "?R (?d [] 2 [FlushJob, FlushJob] ?m' 20 1 0, {}, Map.empty) (?d [] 2 [FlushJob] ?m' 20 1 0, {}, [0 \<mapsto> Started])"
    using step_start [where i = 0 and a = "[]" and b = "[FlushJob]" and T = Map.empty and env = small_env and db = "?d [] 2 [FlushJob, FlushJob] ?m' 20 1 0"]
    by (intro flush_runI [where a = "ByFlush 0"]) simp_all
  have r5: "?R (?d [] 2 [FlushJob] ?m' 20 1 0, {}, [0 \<mapsto> Started]) (?d [] 2 [] ?m' 20 1 0, {}, [0 \<mapsto> Started, 1 \<mapsto> Started])"
    using step_start [where i = 1 and a = "[]" and b = "[]" and T = "[0 \<mapsto> Started]" and env = small_env and db = "?d [] 2 [FlushJob] ?m' 20 1 0"]
    by (intro flush_runI [where a = "ByFlush 1"]) simp_all
  have r6: "?R (?d [] 2 [] ?m' 20 1 0, {}, [0 \<mapsto> Started, 1 \<mapsto> Started])
      (?d [] 2 [] ?m' 20 1 1, {}, [0 \<mapsto> Sampled (Timestamp 1) lsn, 1 \<mapsto> Started])"
    using step_sample [where i = 0 and T = "[0 \<mapsto> Started, 1 \<mapsto> Started]", OF _ flush_demo_sample]
    by (intro flush_runI [where a = "ByFlush 0"]) (simp_all add: lsn_def fun_upd_twist)
  have r7: "?R (?d [] 2 [] ?m' 20 1 1, {}, [0 \<mapsto> Sampled (Timestamp 1) lsn, 1 \<mapsto> Started])
      (?d [Timestamp 1] 2 [] ?m' 20 1 1, {}, [0 \<mapsto> ?r0, 1 \<mapsto> Started])"
    using step_enter [where i = 0 and mx = "Timestamp 1" and lsn = lsn and T = "[0 \<mapsto> Sampled (Timestamp 1) lsn, 1 \<mapsto> Started]" and P = "{}", OF _ _ flush_demo_enter [where collect = "[]"]]
    by (intro flush_runI [where a = "ByFlush 0"]) (simp_all add: fun_upd_twist)
  have r8: "?R (?d [Timestamp 1] 2 [] ?m' 20 1 1, {}, [0 \<mapsto> ?r0, 1 \<mapsto> Started]) (?d [Timestamp 1] 2 [] ?m' 20 2 1, {}, [0 \<mapsto> ?r0, 1 \<mapsto> Started])"
    by (intro flush_runI [where a = ByOther] step_other) (simp_all add: flush_demo_view)
  have r9: "?R (?d [Timestamp 1] 2 [] ?m' 20 2 1, {}, [0 \<mapsto> ?r0, 1 \<mapsto> Started])
      (?d [Timestamp 1] 2 [] ?m' 20 2 2, {}, [0 \<mapsto> ?r0, 1 \<mapsto> Sampled (Timestamp 2) lsn])"
    using step_sample [where i = 1 and T = "[0 \<mapsto> ?r0, 1 \<mapsto> Started]", OF _ flush_demo_sample]
    by (intro flush_runI [where a = "ByFlush 1"]) (simp_all add: lsn_def)
  have r10: "?R (?d [Timestamp 1] 2 [] ?m' 20 2 2, {}, [0 \<mapsto> ?r0, 1 \<mapsto> Sampled (Timestamp 2) lsn])
      (?d [Timestamp 1, Timestamp 2] 2 [] ?m' 20 2 2, {}, [0 \<mapsto> ?r0, 1 \<mapsto> Registered (Timestamp 2) lsn])"
    using step_enter [where i = 1 and mx = "Timestamp 2" and lsn = lsn and T = "[0 \<mapsto> ?r0, 1 \<mapsto> Sampled (Timestamp 2) lsn]" and P = "{}", OF _ _ flush_demo_enter [OF c, unfolded ins]]
    by (intro flush_runI [where a = "ByFlush 1"]) (simp_all add: ins)
  have r11: "?R (?d [Timestamp 1, Timestamp 2] 2 [] ?m' 20 2 2, {}, [0 \<mapsto> ?r0, 1 \<mapsto> Registered (Timestamp 2) lsn])
      (?d [Timestamp 1, Timestamp 2] 2 [] (flush_mem 20 2) 20 2 2, {}, [0 \<mapsto> ?r0, 1 \<mapsto> Collected (Timestamp 2) lsn [(1, Some 7)] Checking])"
    using step_collect [where i = 1 and T = "[0 \<mapsto> ?r0, 1 \<mapsto> Registered (Timestamp 2) lsn]", OF _ flush_demo_enough]
    by (intro flush_runI [where a = "ByFlush 1"]) simp_all
  have mf: "mutex_free holds_collect_mutex [0 \<mapsto> ?r0, 1 \<mapsto> Collected (Timestamp 2) lsn [(1 :: u64, Some (7 :: u64))] Checking]"
    by (auto simp: mutex_free_def ran_def split: if_splits)
  have "flush_publish (Timestamp 2) [(1, Some 7)] (?d [Timestamp 1, Timestamp 2] 2 [] (flush_mem 20 2) 20 2 2) =
      Inr (False, ?d [Timestamp 1, Timestamp 2] 2 [] (flush_mem 20 2) 20 2 2)" by (simp add: flush_publish_def)
  then have r12: "?R (?d [Timestamp 1, Timestamp 2] 2 [] (flush_mem 20 2) 20 2 2, {}, [0 \<mapsto> ?r0, 1 \<mapsto> Collected (Timestamp 2) lsn [(1, Some 7)] Checking])
      (?d [Timestamp 1, Timestamp 2] 2 [] (flush_mem 20 2) 20 2 2, {}, [0 \<mapsto> ?r0, 1 \<mapsto> Collected (Timestamp 2) lsn [(1, Some 7)] (Deciding False)])"
    using step_decide [where i = 1 and mx = "Timestamp 2" and lsn = lsn and imt = "[(1, Some 7)]" and P = "{}", OF _ _ _ mf] by (intro flush_runI [where a = "ByFlush 1"]) simp_all
  note rtranclp_trans [OF rtranclp_trans [OF rtranclp_trans [OF r1 r2] rtranclp_trans [OF r3 r4]] rtranclp_trans [OF r5 r6]]
  moreover note rtranclp_trans [OF rtranclp_trans [OF r7 rtranclp_trans [OF r8 r9]] rtranclp_trans [OF r10 rtranclp_trans [OF r11 r12]]]
  ultimately show ?thesis by (rule rtranclp_trans)
qed

text \<open>Then the first one leaves, notifies, and the second one waits.\<close>

lemma flush_demo_lost:
  fixes wal :: wal
  defines "lsn \<equiv> wal_current_lsn wal"
  shows "(flush_run small_env)\<^sup>*\<^sup>* (flush_demo fl tc wal cm [] 0 [] (flush_mem 10 0) 0 1 0, {}, Map.empty)
     (flush_demo fl tc wal cm [Timestamp 2] 1 [] (flush_mem 20 2) 20 2 2, {},
      [1 \<mapsto> Collected (Timestamp 2) lsn [(1, Some 7)] (Sleeping True)])"
proof -
  let ?d = "flush_demo fl tc wal cm" and ?R = "(flush_run small_env)\<^sup>*\<^sup>*"
  let ?T = "[0 \<mapsto> Registered (Timestamp 1) lsn, 1 \<mapsto> Collected (Timestamp 2) lsn [(1 :: u64, Some (7 :: u64))] (Deciding False)]"
  have near: "ts_near (Timestamp 2)" by code_simp
  have rem: "oset_remove ts_cmp (Timestamp 1) [Timestamp 1, Timestamp 2] = [Timestamp 2]" by code_simp
  have T: "notify_all wake_collector (?T(0 := None)) = [1 \<mapsto> Collected (Timestamp 2) lsn [(1 :: u64, Some (7 :: u64))] (Deciding True)]"
    by (auto simp: notify_all_def)
  have "?R (?d [Timestamp 1, Timestamp 2] 2 [] (flush_mem 20 2) 20 2 2, {}, ?T)
      (?d [Timestamp 2] 1 [] (flush_mem 20 2) 20 2 2, {}, [1 \<mapsto> Collected (Timestamp 2) lsn [(1, Some 7)] (Deciding True)])"
    using step_few [where i = 0 and mx = "Timestamp 1" and lsn = lsn and P = "{}" and T = ?T, OF _ _ flush_demo_few [where collect = "[Timestamp 1, Timestamp 2]" and threads = 2]] T
    by (intro flush_runI [where a = "ByFlush 0"]) (simp_all add: rem near flush_demo_parts)
  moreover have "?R (?d [Timestamp 2] 1 [] (flush_mem 20 2) 20 2 2, {}, [1 \<mapsto> Collected (Timestamp 2) lsn [(1, Some 7)] (Deciding True)])
      (?d [Timestamp 2] 1 [] (flush_mem 20 2) 20 2 2, {}, [1 \<mapsto> Collected (Timestamp 2) lsn [(1, Some 7)] (Sleeping True)])"
    using step_sleep [where i = 1 and mx = "Timestamp 2" and lsn = lsn and imt = "[(1, Some 7)]" and m = True and T = "[1 \<mapsto> Collected (Timestamp 2) lsn [(1 :: u64, Some (7 :: u64))] (Deciding True)]"]
    by (intro flush_runI [where a = "ByFlush 1"]) (simp_all add: near flush_demo_parts)
  ultimately show ?thesis using flush_demo_run [where fl = fl and tc = tc and cm = cm and wal = wal] unfolding lsn_def by (meson rtranclp_trans)
qed

theorem flushes_make_progress_witness:
  "\<forall>fl tc wal cm. \<exists>db1 T1 db2 T2 p. (flush_run small_env)\<^sup>*\<^sup>* (flush_demo fl tc wal cm [] 0 [] (flush_mem 10 0) 0 1 0, {}, Map.empty) (db1, {}, T1) \<and>
     (\<exists>i s'. (flush_moves small_env)\<^sup>*\<^sup>* (db1, {}, T1) s' \<and> stage_of (T1 i) < stage_of (snd (snd s') i)) \<and>
     (flush_run small_env)\<^sup>*\<^sup>* (flush_demo fl tc wal cm [] 0 [] (flush_mem 10 0) 0 1 0, {}, Map.empty) (db2, {}, T2) \<and>
     T2 = [1 \<mapsto> p] \<and> asleep p \<and> its_turn db2 p \<and> lost_wakeup db2 p \<and> (\<forall>s'. \<not> flush_moves small_env (db2, {}, T2) s')"
proof (intro allI)
  fix fl tc wal cm
  let ?s = "(flush_demo fl tc wal cm [] 0 [] (flush_mem 10 0) 0 1 0, {}, Map.empty) :: (u64, u64, demo_tables, demo_blocks) flush_state"
  let ?l = "wal_current_lsn wal" and ?imt = "[(1, Some 7)] :: (u64, u64) imm_table"
  let ?db1 = "flush_demo fl tc wal cm [Timestamp 1, Timestamp 2] 2 [] (flush_mem 20 2) 20 2 2"
  let ?db2 = "flush_demo fl tc wal cm [Timestamp 2] 1 [] (flush_mem 20 2) 20 2 2"
  let ?T1 = "[0 \<mapsto> Registered (Timestamp 1) ?l, 1 \<mapsto> Collected (Timestamp 2) ?l ?imt (Deciding False)]"
  let ?p = "Collected (Timestamp 2) ?l ?imt (Sleeping True)"
  have n: "no_flushes (flush_demo fl tc wal cm [] 0 [] (flush_mem 10 0) 0 1 0)" by (simp add: no_flushes_def flush_demo_view)
  note run1 = flush_demo_run [where fl = fl and tc = tc and cm = cm and wal = wal]
  note run2 = flush_demo_lost [where fl = fl and tc = tc and cm = cm and wal = wal]
  have "\<forall>i p. ?T1 i = Some p \<longrightarrow> \<not> panicked p \<and> \<not> lost_wakeup ?db1 p" "?T1 \<noteq> Map.empty"
    by (auto simp: lost_wakeup_def waits_def flush_demo_parts split: if_splits)
  then have one: "\<exists>i s'. (flush_moves small_env)\<^sup>*\<^sup>* (?db1, {}, ?T1) s' \<and> stage_of (?T1 i) < stage_of (snd (snd s') i)"
    using flushes_make_progress [OF run1 n] by blast
  have p: "asleep ?p" "its_turn ?db2 ?p" "lost_wakeup ?db2 ?p"
    by (auto simp: asleep_def lost_wakeup_def waits_def flush_demo_parts)
  have "FlushJob \<notin> set (db_jobs ?db2)" by (simp add: flush_demo_parts)
  then have two: "\<forall>s'. \<not> flush_moves small_env (?db2, {}, [1 \<mapsto> ?p]) s'"
    using flushes_make_progress [OF run2 n] p(1) by blast
  show "\<exists>db1 T1 db2 T2 p. (flush_run small_env)\<^sup>*\<^sup>* ?s (db1, {}, T1) \<and>
     (\<exists>i s'. (flush_moves small_env)\<^sup>*\<^sup>* (db1, {}, T1) s' \<and> stage_of (T1 i) < stage_of (snd (snd s') i)) \<and>
     (flush_run small_env)\<^sup>*\<^sup>* ?s (db2, {}, T2) \<and>
     T2 = [1 \<mapsto> p] \<and> asleep p \<and> its_turn db2 p \<and> lost_wakeup db2 p \<and> (\<forall>s'. \<not> flush_moves small_env (db2, {}, T2) s')"
    by (rule exI [of _ ?db1], rule exI [of _ ?T1], rule exI [of _ ?db2], rule exI [of _ "[1 \<mapsto> ?p]"], rule exI [of _ ?p])
      (intro conjI run1 one run2 refl p two)
qed


end
