(* ===== verification/Options.thy ===== *)
theory Options
  imports Version Wal
begin

text \<open>
  The rest of \<open>options.rs\<close>: the options with the root directory and the options of the log, the functions that set them,
  and where the files of a database are. A path is the list of its components. The model of the storage
  directory as a map from file references rests on different files having different names, which is proved
  here for the path identifiers of three digits.
\<close>

section \<open>Options\<close>

type_synonym path_buf = "string list"

record store_options = db_options +
  root_path :: path_buf
  wal_opts :: wal_options

definition DEFAULT_ROOT_PATH :: string where
  "DEFAULT_ROOT_PATH = ''kagidb''"

definition SSTABLE_FILE_EXT :: string where
  "SSTABLE_FILE_EXT = ''sst''"

definition default_store_options :: store_options where
  "default_store_options = db_options.extend default_db_options
     (store_options.fields [DEFAULT_ROOT_PATH] wal_options_default)"

definition store_options_new :: store_options where
  "store_options_new = default_store_options"

definition set_root_path :: "path_buf \<Rightarrow> store_options \<Rightarrow> store_options" where
  "set_root_path p opt = opt\<lparr>root_path := p\<rparr>"

definition set_wal_segment_capacity :: "nat \<Rightarrow> store_options \<Rightarrow> store_options" where
  "set_wal_segment_capacity n opt = opt\<lparr>wal_opts := (wal_opts opt)\<lparr>segment_capacity := n\<rparr>\<rparr>"

text \<open>The functions of the macro \<open>setters\<close>; there is none for \<open>max_open_files\<close>.\<close>

datatype option_field =
    BackgroundThreads | MaxBackgroundFlushes | MaxBackgroundCompactions | WriteBufferSize | GcFreezeMinAge | NumLevels
  | Level0FileNumCompactionTrigger | MaxBytesForLevelBase | MaxBytesForLevelMultiplier | TargetFileSizeBase
  | TargetFileSizeMultiplier

fun set_option :: "option_field \<Rightarrow> nat \<Rightarrow> store_options \<Rightarrow> store_options" where
  "set_option BackgroundThreads n opt = opt\<lparr>background_threads := n\<rparr>"
| "set_option MaxBackgroundFlushes n opt = opt\<lparr>max_background_flushes := n\<rparr>"
| "set_option MaxBackgroundCompactions n opt = opt\<lparr>max_background_compactions := n\<rparr>"
| "set_option WriteBufferSize n opt = opt\<lparr>write_buffer_size := n\<rparr>"
| "set_option GcFreezeMinAge n opt = opt\<lparr>gc_freeze_min_age := n\<rparr>"
| "set_option NumLevels n opt = opt\<lparr>num_levels := n\<rparr>"
| "set_option Level0FileNumCompactionTrigger n opt = opt\<lparr>level0_file_num_compaction_trigger := n\<rparr>"
| "set_option MaxBytesForLevelBase n opt = opt\<lparr>max_bytes_for_level_base := n\<rparr>"
| "set_option MaxBytesForLevelMultiplier n opt = opt\<lparr>max_bytes_for_level_multiplier := n\<rparr>"
| "set_option TargetFileSizeBase n opt = opt\<lparr>target_file_size_base := n\<rparr>"
| "set_option TargetFileSizeMultiplier n opt = opt\<lparr>target_file_size_multiplier := n\<rparr>"

section \<open>Paths\<close>

definition get_root_path :: "store_options \<Rightarrow> path_buf" where
  "get_root_path opt = root_path opt"

definition get_storage_path :: "store_options \<Rightarrow> path_buf" where
  "get_storage_path opt = root_path opt @ [''base'']"

definition get_wal_path :: "store_options \<Rightarrow> path_buf" where
  "get_wal_path opt = root_path opt @ [''wal'']"

definition get_transaction_path :: "store_options \<Rightarrow> path_buf" where
  "get_transaction_path opt = root_path opt @ [''txn'']"

definition get_manifest_path :: "store_options \<Rightarrow> path_buf" where
  "get_manifest_path opt = root_path opt @ [''kg_manifest'']"

text \<open>The formats \<open>{:03}\<close> and \<open>{:010}\<close>.\<close>

definition digit :: "nat \<Rightarrow> char" where
  "digit d = ''0123456789'' ! d"

fun decimal :: "nat \<Rightarrow> string" where
  "decimal n = (if n < 10 then [digit n] else decimal (n div 10) @ [digit (n mod 10)])"

declare decimal.simps [simp del]

definition padded :: "nat \<Rightarrow> nat \<Rightarrow> string" where
  "padded width n = replicate (width - length (decimal n)) (CHR ''0'') @ decimal n"

definition table_file_name :: "table_file_ref \<Rightarrow> string" where
  "table_file_name r = padded 3 (ref_path_id r) @ padded 10 (ref_seqnum r) @ ''.'' @ SSTABLE_FILE_EXT"

definition get_table_file_path :: "store_options \<Rightarrow> table_file_ref \<Rightarrow> path_buf" where
  "get_table_file_path opt r = get_storage_path opt @ [table_file_name r]"

section \<open>Different files have different names\<close>

definition digit_value :: "nat \<Rightarrow> char \<Rightarrow> nat" where
  "digit_value acc c = 10 * acc + (of_char c - 48)"

lemma digit_value_digit: "d < 10 \<Longrightarrow> digit_value acc (digit d) = 10 * acc + d"
proof -
  assume "d < 10"
  then have "d \<in> set [0..<10]" by simp
  moreover have "\<forall>d\<in>set [0..<10]. of_char (digit d) - 48 = d" by code_simp
  ultimately show ?thesis by (simp add: digit_value_def)
qed

lemma decimal_value: "foldl digit_value 0 (decimal n) = n"
proof (induction n rule: decimal.induct)
  case (1 n)
  show ?case
  proof (cases "n < 10")
    case False
    then show ?thesis using 1 by (simp add: decimal.simps [of n] digit_value_digit)
  qed (simp add: decimal.simps digit_value_digit)
qed

lemma padded_value: "foldl digit_value 0 (padded width n) = n"
proof -
  have "foldl digit_value 0 (replicate k (CHR ''0'')) = 0" for k
    by (induction k) (simp_all add: digit_value_def)
  then show ?thesis by (simp add: padded_def decimal_value)
qed

lemma padded_inject: "padded width m = padded width n \<longleftrightarrow> m = n"
  by (metis padded_value)

lemma decimal_length: "n < 10 ^ Suc k \<Longrightarrow> length (decimal n) \<le> Suc k"
proof (induction k arbitrary: n)
  case 0
  then show ?case by (simp add: decimal.simps)
next
  case (Suc k)
  then have "n div 10 < 10 ^ Suc k" by (simp add: less_mult_imp_div_less mult.commute)
  from Suc.IH [OF this] show ?case by (subst decimal.simps) simp
qed

lemma padded_name_length: "n < 10 ^ Suc k \<Longrightarrow> length (padded (Suc k) n) = Suc k"
  using decimal_length [of n k] by (simp add: padded_def)

lemma replicate_numeral: "replicate (numeral k) x = x # replicate (pred_numeral k) x"
  by (simp add: numeral_eq_Suc)

section \<open>Properties\<close>

text \<open>
  C40: table files with path identifiers of up to three digits have different paths, and none of them is the log, the
  manifest or the transaction directory. A fourth digit breaks this, because the two numbers of a name are not
  separated.
\<close>
theorem table_file_paths_distinct:
  "(ref_path_id r < 1000 \<and> ref_path_id r' < 1000 \<longrightarrow>
      (get_table_file_path opt r = get_table_file_path opt r' \<longleftrightarrow> r = r')) \<and>
   get_table_file_path opt r \<notin> {get_wal_path opt, get_manifest_path opt, get_transaction_path opt} \<and>
   get_table_file_path opt (TableFileRef 100 10000000007) = get_table_file_path opt (TableFileRef 1001 7)"
proof (intro conjI impI)
  assume p: "ref_path_id r < 1000 \<and> ref_path_id r' < 1000"
  show "get_table_file_path opt r = get_table_file_path opt r' \<longleftrightarrow> r = r'"
  proof
    assume "get_table_file_path opt r = get_table_file_path opt r'"
    moreover have "length (padded 3 (ref_path_id r)) = length (padded 3 (ref_path_id r'))"
      using p padded_name_length [of _ 2] by (simp add: numeral_3_eq_3)
    ultimately have "padded 3 (ref_path_id r) = padded 3 (ref_path_id r')" "padded 10 (ref_seqnum r) = padded 10 (ref_seqnum r')"
      by (simp_all add: get_table_file_path_def table_file_name_def)
    then show "r = r'" by (simp add: padded_inject table_file_ref.expand)
  qed simp
next
  show "get_table_file_path opt r \<notin> {get_wal_path opt, get_manifest_path opt, get_transaction_path opt}"
    by (simp add: get_table_file_path_def get_storage_path_def get_wal_path_def get_manifest_path_def get_transaction_path_def)
next
  have "table_file_name (TableFileRef 100 10000000007) = table_file_name (TableFileRef 1001 7)"
    by (simp add: table_file_name_def padded_def decimal.simps digit_def replicate_numeral)
  then show "get_table_file_path opt (TableFileRef 100 10000000007) = get_table_file_path opt (TableFileRef 1001 7)"
    by (simp add: get_table_file_path_def)
qed

theorem table_file_paths_distinct_witness:
  "get_table_file_path default_store_options (TableFileRef 0 2) = [''kagidb'', ''base'', ''0000000000002.sst''] \<and>
   get_table_file_path default_store_options (TableFileRef 0 2) \<noteq> get_table_file_path default_store_options (TableFileRef 0 20)"
proof
  show "get_table_file_path default_store_options (TableFileRef 0 2) = [''kagidb'', ''base'', ''0000000000002.sst'']"
    by (simp add: get_table_file_path_def get_storage_path_def default_store_options_def store_options.defs db_options.defs
        DEFAULT_ROOT_PATH_def SSTABLE_FILE_EXT_def table_file_name_def padded_def decimal.simps digit_def replicate_numeral)
  show "get_table_file_path default_store_options (TableFileRef 0 2) \<noteq> get_table_file_path default_store_options (TableFileRef 0 20)"
    using table_file_paths_distinct [of "TableFileRef 0 2" "TableFileRef 0 20" default_store_options] by simp
qed

end
