(* ===== verification/Spec2Isabelle.thy ===== *)
theory Spec2Isabelle
  imports Mvcc_Witness Txn_History Flush_Protocol Options
begin

text \<open>
  A verification library for \<open>hybridmvcc\<close>, a key-value store in Rust: transactions with
  multi-version concurrency control over a lock-free hash memtable, a write-ahead log, and
  sorted table files that background threads flush and compact.

  \<^bold>\<open>The program.\<close> A transaction (\<open>src/src/transaction.rs\<close>) starts at the transaction manager
  (\<open>transaction/transaction_manager.rs\<close>), which gives it a timestamp and adds it to the set of
  running transactions. Reads and writes go to the memtable (\<open>memtable/hash_memtable.rs\<close>), where
  each key has a chain of redo nodes (\<open>storage.rs\<close>), newest first. A write publishes a node with
  the writer's own uncommitted timestamp by \<open>compare_exchange\<close>, after the check for write-write
  conflicts. Commit stamps the nodes with a commit timestamp while it holds the lock every start
  takes; abort removes them again. A flush copies the newest version older than every running
  transaction of each key into an immutable table and removes what it copied from the memtable.

  \<^bold>\<open>The theories.\<close>
  \<^item> \<open>Prelude\<close>: machine integers, the errors of \<open>result.rs\<close>, the result type, shared lemmas.
  \<^item> \<open>Timestamp\<close>: \<open>Timestamp\<close> and its order (\<open>transaction.rs\<close>, \<open>hybrid_ts\<close>).
  \<^item> \<open>Ordered_Set\<close>: the ordered sets and maps of the standard library over a comparison, with the
    contract of \<open>Ord\<close> as a locale.
  \<^item> \<open>Redo\<close>: redo nodes, tagged pointers and the store (\<open>storage.rs\<close>).
  \<^item> \<open>Log_Record\<close>: log records, file metadata, and the encoders of third-party crates as
    parameters.
  \<^item> \<open>Txn\<close>: transactions, snapshots, the transaction table and the manager.
  \<^item> \<open>Mem_Table\<close>, \<open>Mem_Rep\<close>, \<open>Mem_Ops\<close>, \<open>Version_List\<close>: the memtable operations as written, the
    map from keys to version lists they implement, and what each operation does to it.
  \<^item> \<open>Mvcc\<close>: commit and abort, and the step relation of many transactions on one memtable.
  \<^item> \<open>Snapshot_Isolation\<close>: the abstract machine, the simulation, and what follows for clients.
  \<^item> \<open>Interference\<close>: the \<open>compare_exchange\<close> loops while others run; linearizability.
  \<^item> \<open>Mem_Gc\<close>: flushing, that is \<open>snapshot\<close>, \<open>gc\<close> and \<open>clear\<close>.
  \<^item> \<open>Txn_History\<close>: histories of starts, commits and aborts in both modes; a snapshot tells who had not ended.
  \<^item> \<open>Mvcc_Witness\<close>: a concrete run, at which the theorems about runs are applied.
  \<^item> \<open>Segment\<close>, \<open>Segment_Read\<close>: one file of the write-ahead log (\<open>wal/segment.rs\<close>), as the writer
    lays it out in pages and chunks and as \<open>SegmentView\<close> reads it.
  \<^item> \<open>Wal\<close>, \<open>Wal_Replay\<close>, \<open>Wal_Safety\<close>: the log over a directory of segments (\<open>wal.rs\<close>,
    \<open>wal/reader.rs\<close>); a reader returns the appended records in order; flushed records survive a
    crash and a torn write is detected.
  \<^item> \<open>Checkpoint\<close>: the manifest and the checkpoint manager (\<open>wal/checkpoint.rs\<close>).
  \<^item> \<open>Data_Block\<close>: blocks of prefix-compressed entries with restart points (\<open>block/data_block.rs\<close>,
    \<open>block/index.rs\<close>); scanning gives the entries back, seeking is a linear search.
  \<^item> \<open>Bloom\<close>, \<open>Filter_Block\<close>: the Bloom filter and the filter block (\<open>block/filter_policy.rs\<close>,
    \<open>block/filter.rs\<close>), the AVX2 code included; no false negatives.
  \<^item> \<open>Cache\<close>: the caches of \<open>utils/cache.rs\<close>, over the functions of the crate \<open>lru\<close>.
  \<^item> \<open>Block_Table\<close>, \<open>Table_Build\<close>, \<open>Table_Read\<close>: table files (\<open>table/block_table.rs\<close>): what the builder
    writes, that a lookup in the file is a lookup in the entries and that iterating gives them back,
    over the contracts of the encoding, the filter and the block cache.
  \<^item> \<open>Merging_Iter\<close>: the trait \<open>TableIterator\<close> and the merging iterator (\<open>merging_iter.rs\<close>); it returns the
    stable merge of its inputs, with one version of every key.
  \<^item> \<open>Version\<close>: versions, edits and the picking of compactions (\<open>version.rs\<close>), the numbers of
    \<open>options.rs\<close>; edits keep the levels in order, and picking ends with inputs closed under overlap.
  \<^item> \<open>Table_Cache\<close>: the cache of open tables (\<open>table.rs\<close>) and \<open>Version::get\<close>; a lookup in a version
    is a lookup in the entries of its files.
  \<^item> \<open>Compaction\<close>: \<open>start_compaction\<close> (\<open>db.rs\<close>); a compaction changes no lookup.
  \<^item> \<open>Txn_Commit\<close>: \<open>commit\<close>, \<open>abort\<close> and \<open>exec_transaction\<close> with the records they log; a commit that
    returned is in the synced part of the log.
  \<^item> \<open>Wal_Crash\<close>: what a crash leaves of the directory of the log, that the log opens on it, and that a
    record that was flushed is read at its position.
  \<^item> \<open>Recovery\<close>: \<open>log_and_apply\<close>, \<open>finalize_compaction\<close> (\<open>version.rs\<close>) and \<open>startup\<close> (\<open>db.rs\<close>); the version
    installed last survives a crash.
  \<^item> \<open>Database\<close>: the state of \<open>DbInner\<close> and the operations of \<open>Db\<close> (\<open>db.rs\<close>), which put the parts together: \<open>open\<close>,
    \<open>get\<close>, \<open>put\<close>, \<open>update\<close>, \<open>delete\<close>, commit and abort, the background flush in its phases and the background
    compaction.
  \<^item> \<open>Flush\<close>: what \<open>get\<close> returns, as a lookup in the entries of the immutable tables and the files, and that writing
    an immutable table to a level-0 file does not change it.
  \<^item> \<open>Flush_Protocol\<close>: several background flushes at once, as a step relation over their phases, with the
    condition variables of the two rendezvous points, spurious wakeups, panics and poisoned locks; a flush that waits in
    vain has missed a notification, and otherwise some flush goes on.
  \<^item> \<open>Options\<close>: the rest of \<open>options.rs\<close>, with the paths of the files; the names of table files are distinct.

  \<^bold>\<open>Bounds.\<close> Timestamps wrap at \<open>2 ^ 62\<close> and their comparison is an order only for counters below
  \<open>2 ^ 61\<close> (\<open>ts_limit\<close>); the theorems about runs assume that the counter stays below it. Walks
  along a chain have fuel \<open>Suc (mt_fresh m)\<close>, more than the nodes ever allocated: on a well-formed
  memtable it is never used up, which is part of the theorems (\<open>operations_complete\<close>).
  The loops over the inputs of a compaction have fuel for one round more than there are input
  entries, and the loop that expands the input files of a compaction has two rounds more than its
  level has files, since every round but the last adds a file; that this is enough is part of
  \<open>merging_iter_is_merge\<close>, \<open>compaction_preserves_lookups\<close> and \<open>pick_compaction_returns\<close>.

  \<^bold>\<open>From a write to a file.\<close> The theorems follow a value on its way: a put becomes visible at commit
  (\<open>implements_snapshot_isolation\<close>) and its record is then in the log (\<open>commit_is_durable\<close>); a flush moves it to an
  immutable table (\<open>flush_keeps_reads\<close>) and from there to a level-0 file (\<open>flush_keeps_storage\<close>); compactions move
  it to deeper levels (\<open>compaction_preserves_lookups\<close>); the version with its file is found again after a crash
  (\<open>restart_recovers_version\<close>); and \<open>get\<close> looks in all these places in this order (\<open>db_get_is_overlay\<close>).

  \<^bold>\<open>Not modelled.\<close> The text of errors and log messages, \<open>serde\<close> encodings and the crates \<open>lru\<close>,
  \<open>crossbeam\<close> and \<open>xxhash\<close> (parameters, where the code calls them), failures of the file system other
  than a missing file and a crash, the lock on the root directory, the threads of the pool (a scheduled job is an entry of a
  list), the replay of the log at startup, which
  the code has commented out, the benchmark, the memory accounting and the spin lock.
\<close>

end
